(* ===== verification/Prelude.thy ===== *)
theory Prelude
  imports Main "HOL-Library.Word"
begin

text \<open>
  Shared vocabulary of the development: the machine integers of the ARM target
  (\<open>u8\<close>, \<open>u32\<close>), the kernel's error codes, the integer helpers that the
  C sources take from \<^verbatim>\<open>linux/kernel.h\<close> and
  \<^verbatim>\<open>asm/bitops.h\<close>, and generic lemmas about exclusive or, bit
  positions and lists.  The collections \<open>xor_simps\<close> and \<open>errno_defs\<close>
  are the simplification sets that the component theories add to their proofs.
\<close>

unbundle bit_operations_syntax

type_synonym u8 = "8 word"
type_synonym u32 = "32 word"

named_theorems xor_simps
named_theorems errno_defs

section \<open>Error codes (asm-generic/errno-base.h, errno.h)\<close>

definition EIO :: int where [errno_defs]: "EIO = 5"
definition ENOMEM :: int where [errno_defs]: "ENOMEM = 12"
definition EFAULT :: int where [errno_defs]: "EFAULT = 14"
definition EBUSY :: int where [errno_defs]: "EBUSY = 16"
definition EAGAIN :: int where [errno_defs]: "EAGAIN = 11"
definition EINTR :: int where [errno_defs]: "EINTR = 4"
definition ETIME :: int where [errno_defs]: "ETIME = 62"
definition ENODEV :: int where [errno_defs]: "ENODEV = 19"
definition EINVAL :: int where [errno_defs]: "EINVAL = 22"
definition ENOSPC :: int where [errno_defs]: "ENOSPC = 28"
definition ENOTTY :: int where [errno_defs]: "ENOTTY = 25"
definition EBADMSG :: int where [errno_defs]: "EBADMSG = 74"
definition ERESTARTSYS :: int where [errno_defs]: "ERESTARTSYS = 512"

section \<open>Integer helpers\<close>

text \<open>\<^verbatim>\<open>DIV_ROUND_UP(n,d)\<close> of linux/kernel.h.\<close>

definition DIV_ROUND_UP :: "nat \<Rightarrow> nat \<Rightarrow> nat" where
  "DIV_ROUND_UP n d = (n + d - 1) div d"

text \<open>
  Stores into an object of type \<open>uint16_t\<close> and \<open>unsigned int\<close>, for
  quantities modelled as natural numbers.
\<close>

definition to_u16 :: "nat \<Rightarrow> nat" where
  "to_u16 x = x mod 2 ^ 16"

definition to_u32 :: "nat \<Rightarrow> nat" where
  "to_u32 x = x mod 2 ^ 32"

text \<open>
  \<^verbatim>\<open>fls\<close> of arch/arm/include/asm/bitops.h on a non-negative argument:
  32 minus the number of leading zeros, which is the length of the binary
  representation.
\<close>

fun fls :: "nat \<Rightarrow> nat" where
  "fls x = (if x = 0 then 0 else Suc (fls (x div 2)))"

declare fls.simps [simp del]

lemma to_u16_id [simp]: "x < 2 ^ 16 \<Longrightarrow> to_u16 x = x"
  by (simp add: to_u16_def)

lemma to_u32_id [simp]: "x < 2 ^ 32 \<Longrightarrow> to_u32 x = x"
  by (simp add: to_u32_def)

lemma fls_0 [simp]: "fls 0 = 0"
  by (simp add: fls.simps)

lemma fls_eq_0_iff [simp]: "fls x = 0 \<longleftrightarrow> x = 0"
  by (simp add: fls.simps [of x])

text \<open>\<open>fls\<close> brackets its argument between two powers of two.\<close>

lemma fls_upper: "x < 2 ^ fls x"
proof (induction x rule: fls.induct)
  case (1 x)
  show ?case
  proof (cases "x = 0")
    case False
    with 1 have "x div 2 < 2 ^ fls (x div 2)" by simp
    then have "x < 2 * 2 ^ fls (x div 2)" by linarith
    with False show ?thesis by (simp add: fls.simps [of x])
  qed simp
qed

lemma fls_lower: "x \<noteq> 0 \<Longrightarrow> 2 ^ (fls x - 1) \<le> x"
proof (induction x rule: fls.induct)
  case (1 x)
  show ?case
  proof (cases "x div 2 = 0")
    case True
    with "1.prems" have "x = 1" by auto
    then show ?thesis by (simp add: fls.simps [of "Suc 0"])
  next
    case False
    with "1.IH" "1.prems" have ih: "2 ^ (fls (x div 2) - 1) \<le> x div 2" by simp
    have "2 ^ fls (x div 2) = 2 * 2 ^ (fls (x div 2) - (1::nat))"
      using False by (cases "fls (x div 2)") (simp_all add: fls.simps [of "x div 2"])
    also have "\<dots> \<le> x" using ih by linarith
    finally show ?thesis using "1.prems" by (simp add: fls.simps [of x])
  qed
qed

lemma fls_unique:
  assumes "2 ^ k \<le> x" and "x < 2 ^ Suc k"
  shows "fls x = Suc k"
proof -
  from assms have x: "x \<noteq> 0" by (metis less_numeral_extra(3) not_le zero_less_numeral zero_less_power)
  have "2 ^ (fls x - 1) < (2::nat) ^ Suc k"
    using fls_lower [OF x] assms(2) by (rule le_less_trans)
  then have "fls x - 1 < Suc k" by (simp only: power_strict_increasing_iff one_less_numeral_iff semiring_norm)
  moreover have "(2::nat) ^ k < 2 ^ fls x"
    using assms(1) fls_upper by (rule le_less_trans)
  then have "k < fls x" by (simp only: power_strict_increasing_iff one_less_numeral_iff semiring_norm)
  ultimately show ?thesis by linarith
qed

section \<open>Exclusive or and bit positions\<close>

lemma xor_cancel_right [simp]: "(a XOR b) XOR b = (a :: 'a :: semiring_bit_operations)"
  by (simp add: xor.assoc)

lemma xor_cancel_left [simp]: "b XOR (b XOR a) = (a :: 'a :: semiring_bit_operations)"
  by (simp add: xor.assoc [symmetric])

lemmas [xor_simps] = xor.assoc xor.commute xor.left_commute

lemma xor_eq_0_iff: "a XOR b = 0 \<longleftrightarrow> a = (b :: 'a :: semiring_bit_operations)"
  by (metis xor_cancel_right xor.left_neutral xor_self_eq)

lemma xor_nat_less:
  assumes "a < 2 ^ n" and "b < 2 ^ n"
  shows "a XOR b < (2::nat) ^ n"
proof -
  have "take_bit n a = a" "take_bit n b = b"
    using assms by (simp_all add: take_bit_nat_eq_self)
  then have "take_bit n (a XOR b) = a XOR b" by (simp add: take_bit_xor)
  then show ?thesis by (metis take_bit_nat_less_exp)
qed

lemma and_nat_le: "a AND b \<le> (a::nat)" "a AND b \<le> (b::nat)"
proof -
  have "int (a AND b) \<le> int a" "int (a AND b) \<le> int b"
    by (simp_all add: of_nat_and_eq)
  then show "a AND b \<le> (a::nat)" "a AND b \<le> (b::nat)" by simp_all
qed

lemma bit_nat_less_iff_top:
  assumes "x < 2 ^ Suc n"
  shows "bit x n \<longleftrightarrow> 2 ^ n \<le> (x :: nat)"
proof -
  have "x div 2 ^ n < 2" using assms by (simp add: less_mult_imp_div_less)
  then have "odd (x div 2 ^ n) \<longleftrightarrow> 0 < x div 2 ^ n"
    by (auto dest!: less_2_cases)
  then show ?thesis by (simp add: bit_iff_odd div_greater_zero_iff)
qed

lemma odd_part:
  assumes "0 < (e :: nat)"
  obtains j q where "e = 2 ^ j * q" and "odd q"
proof -
  have "\<exists>j q. e = 2 ^ j * q \<and> odd q" using assms
  proof (induction e rule: less_induct)
    case (less e)
    show ?case
    proof (cases "odd e")
      case True
      then show ?thesis by (intro exI [of _ 0] exI [of _ e]) simp
    next
      case False
      then obtain d where d: "e = 2 * d" by blast
      then obtain j q where "d = 2 ^ j * q" "odd q" using less.IH [of d] less.prems by auto
      then show ?thesis using d by (intro exI [of _ "Suc j"] exI [of _ q]) simp
    qed
  qed
  with that show ?thesis by blast
qed

section \<open>Sums modulo 2\<close>

text \<open>The exclusive or of \<open>f 0, ..., f (n - 1)\<close>: sums in a field of characteristic 2.\<close>

primrec xsum :: "(nat \<Rightarrow> nat) \<Rightarrow> nat \<Rightarrow> nat" where
  "xsum f 0 = 0"
| "xsum f (Suc n) = xsum f n XOR f n"

lemma xsum_cong: "(\<And>k. k < n \<Longrightarrow> f k = g k) \<Longrightarrow> xsum f n = xsum g n"
  by (induction n) simp_all

lemma xsum_zero [simp]: "xsum (\<lambda>k. 0) n = 0"
  by (induction n) simp_all

lemma xsum_xor: "xsum (\<lambda>k. f k XOR g k) n = xsum f n XOR xsum g n"
  by (induction n) (simp_all add: xor_simps)

lemma xsum_append: "xsum f (a + b) = xsum f a XOR xsum (\<lambda>k. f (a + k)) b"
  by (induction b) (simp_all add: xor_simps)

lemma xsum_Suc_shift: "xsum f (Suc n) = f 0 XOR xsum (\<lambda>k. f (Suc k)) n"
  using xsum_append [of f 1 n] by simp

lemma xsum_single: "i < n \<Longrightarrow> xsum (\<lambda>k. if k = i then f k else 0) n = f i"
proof (induction n)
  case (Suc n)
  show ?case
  proof (cases "i = n")
    case True
    have "xsum (\<lambda>k. if k = i then f k else 0) n = xsum (\<lambda>k. 0) n"
      using True by (intro xsum_cong) auto
    with True show ?thesis by simp
  qed (use Suc in auto)
qed simp

lemma xsum_eq_0: "(\<And>k. k < n \<Longrightarrow> f k = 0) \<Longrightarrow> xsum f n = 0"
  using xsum_cong [of n f "\<lambda>_. 0"] by simp

lemma xsum_less: "(\<And>k. k < n \<Longrightarrow> f k < 2 ^ m) \<Longrightarrow> xsum f n < 2 ^ m"
  by (induction n) (simp_all add: xor_nat_less)

section \<open>Lists\<close>

lemma fold_upt_Suc: "fold f [0..<Suc k] x = f k (fold f [0..<k] x)"
  by simp

lemma nth_list_update_if:
  "i < length xs \<Longrightarrow> xs[i := v] ! j = (if j = i then v else xs ! j)"
  by simp

lemma list_update_field: "f v = f (xs ! i) \<Longrightarrow> f (xs[i := v] ! k) = f (xs ! k)"
  by (cases "i < length xs") (auto simp: nth_list_update list_update_beyond)

end
