(* ===== verification/Bch_Field.thy ===== *)
theory Bch_Field
  imports Prelude
begin

text \<open>
  The Galois field layer of lib/bch.c: the control structure
  \<open>bch_control\<close> (include/linux/bch.h), the table builder
  \<open>build_gf_tables\<close> and the log/antilog arithmetic (\<open>gf_mul\<close>,
  \<open>gf_sqr\<close>, \<open>gf_div\<close>, \<open>gf_inv\<close>, \<open>a_pow\<close>,
  \<open>a_log\<close>, \<open>a_ilog\<close>).  Field elements, exponents and logarithms
  are natural numbers: a polynomial over GF(2) of degree below \<open>m\<close> is the
  number whose bits are its coefficients.  The reference is multiplication of
  polynomials modulo the primitive polynomial (\<open>gf_peasant\<close>); the tables
  are proved to implement it, and the interface that the decoder relies on is the
  locale \<open>binary_field\<close>, interpreted on these operations.
\<close>

section \<open>The control structure\<close>

text \<open>
  \<open>struct gf_poly\<close>: a degree and the coefficient array.  The members
  \<open>syn\<close>, \<open>cache\<close>, \<open>elp\<close> and \<open>poly_2t\<close> of
  \<open>struct bch_control\<close> are work areas that every routine initialises before
  it reads them; the model passes them as values instead of keeping them in the
  record.
\<close>

record gf_poly =
  poly_deg :: nat
  poly_c :: "nat list"

record bch_control =
  bch_m :: nat
  bch_n :: nat
  bch_t :: nat
  ecc_bits :: nat
  ecc_bytes :: nat
  a_pow_tab :: "nat list"
  a_log_tab :: "nat list"
  mod8_tab :: "u32 list"
  ecc_buf :: "u32 list"
  ecc_buf2 :: "u32 list"
  xi_tab :: "nat list"

definition GF_M :: "bch_control \<Rightarrow> nat" where
  "GF_M bch = bch_m bch"

definition GF_T :: "bch_control \<Rightarrow> nat" where
  "GF_T bch = bch_t bch"

definition GF_N :: "bch_control \<Rightarrow> nat" where
  "GF_N bch = bch_n bch"

section \<open>Arithmetic modulo \<open>n\<close>, degree and parity\<close>

text \<open>
  \<open>modulo\<close>: the loop \<^verbatim>\<open>while (v >= n) { v -= n; v = (v & n) + (v >> m); }\<close>.
  \<open>init_bch\<close> only accepts \<open>m >= 5\<close>; the guard on \<open>m\<close> and
  \<open>n\<close> makes the function total on control structures that it never builds,
  on which the C loop would not end.
\<close>

function modulo_loop :: "nat \<Rightarrow> nat \<Rightarrow> nat \<Rightarrow> nat" where
  "modulo_loop m n v =
     (if n \<le> v \<and> 0 < n \<and> 0 < m
      then modulo_loop m n (((v - n) AND n) + drop_bit m (v - n))
      else v)"
  by pat_completeness auto

lemma modulo_step_less:
  assumes "n \<le> v" and "0 < n" and "0 < (m::nat)"
  shows "((v - n) AND n) + drop_bit m (v - n) < (v::nat)"
proof -
  have half: "drop_bit m (v - n) \<le> (v - n) div 2"
    using assms(3) by (cases m) (simp_all add: drop_bit_eq_div div_mult2_eq)
  show ?thesis
  proof (cases "v = n")
    case True
    then show ?thesis using assms by simp
  next
    case False
    with and_nat_le(2) [of "v - n" n] half assms show ?thesis by linarith
  qed
qed

termination modulo_loop
  by (relation "measure (\<lambda>(m, n, v). v)") (auto intro: modulo_step_less)

declare modulo_loop.simps [simp del]

definition modulo :: "bch_control \<Rightarrow> nat \<Rightarrow> nat" where
  "modulo bch v = modulo_loop (GF_M bch) (GF_N bch) v"

definition mod_s :: "bch_control \<Rightarrow> nat \<Rightarrow> nat" where
  "mod_s bch v = (if v < GF_N bch then v else v - GF_N bch)"

definition deg :: "nat \<Rightarrow> int" where
  "deg poly = int (fls poly) - 1"

text \<open>\<open>parity\<close>: the bit trick of the source, on the 32-bit word type.\<close>

definition parity :: "u32 \<Rightarrow> u32" where
  "parity x0 =
     (let x1 = x0 XOR drop_bit 1 x0;
          x2 = x1 XOR drop_bit 2 x1;
          x3 = (x2 AND 0x11111111) * 0x11111111
      in drop_bit 28 x3 AND 1)"

section \<open>Field operations on the tables\<close>

definition gf_mul :: "bch_control \<Rightarrow> nat \<Rightarrow> nat \<Rightarrow> nat" where
  "gf_mul bch a b =
     (if a \<noteq> 0 \<and> b \<noteq> 0
      then a_pow_tab bch ! mod_s bch (a_log_tab bch ! a + a_log_tab bch ! b)
      else 0)"

definition gf_sqr :: "bch_control \<Rightarrow> nat \<Rightarrow> nat" where
  "gf_sqr bch a =
     (if a \<noteq> 0 then a_pow_tab bch ! mod_s bch (2 * a_log_tab bch ! a) else 0)"

definition gf_div :: "bch_control \<Rightarrow> nat \<Rightarrow> nat \<Rightarrow> nat" where
  "gf_div bch a b =
     (if a \<noteq> 0
      then a_pow_tab bch ! mod_s bch (a_log_tab bch ! a + GF_N bch - a_log_tab bch ! b)
      else 0)"

definition gf_inv :: "bch_control \<Rightarrow> nat \<Rightarrow> nat" where
  "gf_inv bch a = a_pow_tab bch ! (GF_N bch - a_log_tab bch ! a)"

text \<open>The \<open>int\<close> argument of \<open>a_pow\<close> is converted to \<open>unsigned int\<close>.\<close>

definition a_pow :: "bch_control \<Rightarrow> int \<Rightarrow> nat" where
  "a_pow bch i = a_pow_tab bch ! modulo bch (nat (i mod 2 ^ 32))"

definition a_log :: "bch_control \<Rightarrow> nat \<Rightarrow> nat" where
  "a_log bch x = a_log_tab bch ! x"

definition a_ilog :: "bch_control \<Rightarrow> nat \<Rightarrow> nat" where
  "a_ilog bch x = mod_s bch (GF_N bch - a_log_tab bch ! x)"

section \<open>Building the tables\<close>

text \<open>
  The loop of \<open>build_gf_tables\<close>: \<open>x\<close> runs through the powers of the
  root \<open>a\<close> of the polynomial.  \<open>a_pow_tab\<close> and \<open>a_log_tab\<close>
  hold \<open>uint16_t\<close>.  The result is the return code and the two tables.
\<close>

definition gf_next :: "nat \<Rightarrow> nat \<Rightarrow> nat \<Rightarrow> nat" where
  "gf_next k poly x =
     (let x2 = to_u32 (2 * x) in if x2 AND k \<noteq> 0 then x2 XOR poly else x2)"

function build_gf_loop ::
  "nat \<Rightarrow> nat \<Rightarrow> nat \<Rightarrow> nat \<Rightarrow> nat \<Rightarrow> nat list \<Rightarrow> nat list \<Rightarrow> int \<times> nat list \<times> nat list"
where
  "build_gf_loop n k poly i x pw lg =
     (if i < n
      then let pw' = pw[i := to_u16 x];
               lg' = lg[x := to_u16 i]
           in if i \<noteq> 0 \<and> x = 1 then (-1, pw', lg')
              else build_gf_loop n k poly (Suc i) (gf_next k poly x) pw' lg'
      else (0, pw[n := 1], lg[0 := 0]))"
  by pat_completeness auto
termination
  by (relation "measure (\<lambda>(n, k, poly, i, x, pw, lg). n - i)") auto

declare build_gf_loop.simps [simp del]

definition build_gf_tables :: "bch_control \<Rightarrow> nat \<Rightarrow> int \<times> bch_control" where
  "build_gf_tables bch poly =
     (let k = 2 ^ nat (deg poly)
      in if k \<noteq> 2 ^ GF_M bch then (-1, bch)
         else case build_gf_loop (GF_N bch) k poly 0 1 (a_pow_tab bch) (a_log_tab bch) of
                (r, pw, lg) \<Rightarrow> (r, bch\<lparr>a_pow_tab := pw, a_log_tab := lg\<rparr>))"

section \<open>The reference field\<close>

text \<open>
  Multiplication by the indeterminate in GF(2)[X]/(poly), the powers of the class
  of \<open>X\<close>, and Russian-peasant multiplication: the product of \<open>a\<close> and the
  \<open>j\<close> low coefficients of \<open>b\<close>.
\<close>

definition gf_shift :: "nat \<Rightarrow> nat \<Rightarrow> nat \<Rightarrow> nat" where
  "gf_shift m poly x = (let y = 2 * x in if bit y m then y XOR poly else y)"

primrec gf_alpha :: "nat \<Rightarrow> nat \<Rightarrow> nat \<Rightarrow> nat" where
  "gf_alpha m poly 0 = 1"
| "gf_alpha m poly (Suc i) = gf_shift m poly (gf_alpha m poly i)"

primrec gf_peasant :: "nat \<Rightarrow> nat \<Rightarrow> nat \<Rightarrow> nat \<Rightarrow> nat \<Rightarrow> nat" where
  "gf_peasant m poly 0 a b = 0"
| "gf_peasant m poly (Suc j) a b =
     (if odd b then a else 0) XOR gf_peasant m poly j (gf_shift m poly a) (b div 2)"

text \<open>A monic polynomial of degree \<open>m\<close> with a constant term.\<close>

definition field_poly :: "nat \<Rightarrow> nat \<Rightarrow> bool" where
  "field_poly m poly \<longleftrightarrow> 0 < m \<and> m < 16 \<and> odd poly \<and> bit poly m \<and> poly < 2 ^ Suc m"

text \<open>
  What \<open>build_gf_tables\<close> establishes: the antilog table lists the powers of
  the root, the log table inverts it.
\<close>

definition gf_ok :: "nat \<Rightarrow> bch_control \<Rightarrow> bool" where
  "gf_ok poly bch \<longleftrightarrow>
     field_poly (GF_M bch) poly \<and> GF_N bch = 2 ^ GF_M bch - 1 \<and>
     length (a_pow_tab bch) = Suc (GF_N bch) \<and> length (a_log_tab bch) = Suc (GF_N bch) \<and>
     (\<forall>i \<le> GF_N bch. a_pow_tab bch ! i = gf_alpha (GF_M bch) poly i) \<and>
     (\<forall>i < GF_N bch. a_log_tab bch ! (a_pow_tab bch ! i) = i) \<and>
     a_log_tab bch ! 0 = 0 \<and> a_pow_tab bch ! GF_N bch = 1"

section \<open>Linear algebra of the shift\<close>

lemma gf_shift_xor: "gf_shift m p (a XOR b) = gf_shift m p a XOR gf_shift m p b"
proof -
  have d: "2 * (a XOR b) = (2 * a) XOR (2 * b :: nat)"
    by (metis push_bit_eq_mult push_bit_xor power_one_right mult.commute)
  show ?thesis
    unfolding gf_shift_def Let_def d
    by (auto simp: bit_xor_iff xor_simps)
qed

lemma gf_shift_0 [simp]: "gf_shift m p 0 = 0"
  by (simp add: gf_shift_def)

lemma gf_shift_less:
  assumes "field_poly m p" and "x < 2 ^ m"
  shows "gf_shift m p x < 2 ^ m"
proof (cases "bit (2 * x) m")
  case True
  have top: "2 * x < 2 ^ Suc m" using assms(2) by simp
  have "2 * x XOR p < 2 ^ Suc m"
    using top assms(1) by (intro xor_nat_less) (auto simp: field_poly_def)
  moreover have "\<not> bit (2 * x XOR p) m"
    using True assms(1) by (simp add: bit_xor_iff field_poly_def)
  ultimately show ?thesis
    using True bit_nat_less_iff_top [of "2 * x XOR p" m] by (simp add: gf_shift_def)
next
  case False
  then show ?thesis
    using assms(2) bit_nat_less_iff_top [of "2 * x" m] by (simp add: gf_shift_def)
qed

lemma gf_shift_eq_0_iff:
  assumes "field_poly m p"
  shows "gf_shift m p x = 0 \<longleftrightarrow> x = 0"
proof -
  have "odd (2 * x XOR p)"
    using assms by (simp add: field_poly_def even_xor_iff)
  then have "2 * x XOR p \<noteq> 0" by (metis even_zero)
  then show ?thesis by (cases "x = 0") (simp_all add: gf_shift_def Let_def)
qed

lemma gf_shift_inj:
  assumes "field_poly m p" and "gf_shift m p x = gf_shift m p y"
  shows "x = y"
proof -
  have "gf_shift m p (x XOR y) = 0"
    using assms(2) by (simp add: gf_shift_xor)
  then show ?thesis
    using gf_shift_eq_0_iff [OF assms(1)] by (simp add: xor_eq_0_iff)
qed

lemma gf_alpha_less: "field_poly m p \<Longrightarrow> gf_alpha m p i < 2 ^ m"
proof (induction i)
  case 0
  then show ?case using one_less_power [of "2::nat" m] by (simp add: field_poly_def)
qed (simp add: gf_shift_less)

lemma gf_alpha_pos: "field_poly m p \<Longrightarrow> gf_alpha m p i \<noteq> 0"
  by (induction i) (auto simp: gf_shift_eq_0_iff)

lemma gf_alpha_add: "gf_alpha m p (i + j) = (gf_shift m p ^^ i) (gf_alpha m p j)"
  by (induction i) simp_all

lemma gf_alpha_cancel:
  assumes "field_poly m p" and "gf_alpha m p (i + d) = gf_alpha m p (i + e)"
  shows "gf_alpha m p d = gf_alpha m p e"
  using assms(2) by (induction i) (auto dest: gf_shift_inj [OF assms(1)])

section \<open>The peasant product\<close>

lemma gf_peasant_xor_left:
  "gf_peasant m p j (a XOR a') b = gf_peasant m p j a b XOR gf_peasant m p j a' b"
  by (induction j arbitrary: a a' b) (auto simp: gf_shift_xor xor_simps)

lemma gf_peasant_shift:
  "gf_peasant m p j (gf_shift m p a) b = gf_shift m p (gf_peasant m p j a b)"
  by (induction j arbitrary: a b) (auto simp: gf_shift_xor)

lemma gf_peasant_shift_pow:
  "gf_peasant m p j ((gf_shift m p ^^ i) a) b = (gf_shift m p ^^ i) (gf_peasant m p j a b)"
  by (induction i) (auto simp: gf_peasant_shift)

lemma gf_shift_power: "Suc i < m \<Longrightarrow> gf_shift m p (2 ^ i) = 2 ^ Suc i"
proof -
  assume "Suc i < m"
  then have "\<not> bit (2 ^ Suc i :: nat) m" by (simp only: bit_exp_iff) simp
  then show ?thesis by (simp add: gf_shift_def Let_def)
qed

lemma xor_disjoint_add: "2 ^ i XOR 2 ^ Suc i * c = 2 ^ i + 2 ^ Suc i * (c::nat)"
proof -
  have "2 ^ i XOR 2 ^ Suc i * c = push_bit i 1 XOR push_bit i (2 * c)"
    by (simp add: push_bit_eq_mult ac_simps)
  also have "\<dots> = push_bit i (1 XOR 2 * c)" by (simp only: push_bit_xor)
  also have "1 XOR 2 * c = 1 + 2 * c" by (subst xor_nat_rec) simp
  finally show ?thesis by (simp add: push_bit_eq_mult algebra_simps)
qed

lemma gf_peasant_power:
  "i + j \<le> m \<Longrightarrow> gf_peasant m p j (2 ^ i) b = 2 ^ i * (b mod 2 ^ j)"
proof (induction j arbitrary: i b)
  case 0
  then show ?case by simp
next
  case (Suc j)
  have rest: "gf_peasant m p j (gf_shift m p (2 ^ i)) (b div 2) = 2 ^ Suc i * (b div 2 mod 2 ^ j)"
  proof (cases "j = 0")
    case False
    with Suc.prems have "gf_shift m p (2 ^ i) = 2 ^ Suc i" by (intro gf_shift_power) simp
    with Suc.IH [of "Suc i" "b div 2"] Suc.prems show ?thesis by simp
  qed simp
  have split: "b mod 2 ^ Suc j = of_bool (odd b) + 2 * (b div 2 mod 2 ^ j)"
    by (simp add: mod_mult2_eq mod_2_eq_odd)
  show ?case
    unfolding gf_peasant.simps rest split
    using xor_disjoint_add [of i "b div 2 mod 2 ^ j"] by (simp add: algebra_simps)
qed

lemma gf_peasant_one: "b < 2 ^ m \<Longrightarrow> gf_peasant m p m 1 b = b"
  using gf_peasant_power [of 0 m m p b] by simp

lemma gf_peasant_alpha:
  assumes "field_poly m p"
  shows "gf_peasant m p m (gf_alpha m p i) (gf_alpha m p j) = gf_alpha m p (i + j)"
proof -
  have "gf_peasant m p m (gf_alpha m p i) (gf_alpha m p j) =
        (gf_shift m p ^^ i) (gf_peasant m p m 1 (gf_alpha m p j))"
    using gf_peasant_shift_pow [of m p m i 1] gf_alpha_add [of m p i 0] by simp
  also have "gf_peasant m p m 1 (gf_alpha m p j) = gf_alpha m p j"
    using gf_alpha_less [OF assms] by (rule gf_peasant_one)
  finally show ?thesis by (simp add: gf_alpha_add)
qed

section \<open>The order of the root\<close>

definition primitive_root :: "nat \<Rightarrow> nat \<Rightarrow> bool" where
  "primitive_root m p \<longleftrightarrow> (\<forall>l < 2 ^ m - 1. 0 < l \<longrightarrow> gf_alpha m p l \<noteq> 1)"

lemma gf_alpha_distinct_less:
  assumes p: "field_poly m p" and ne: "\<And>l. 0 < l \<Longrightarrow> l < k \<Longrightarrow> gf_alpha m p l \<noteq> 1"
    and ij: "i < j" "j < k"
  shows "gf_alpha m p i \<noteq> gf_alpha m p j"
proof
  assume "gf_alpha m p i = gf_alpha m p j"
  then have "gf_alpha m p (i + (j - i)) = gf_alpha m p (i + 0)" using ij by simp
  then have "gf_alpha m p (j - i) = gf_alpha m p 0" by (rule gf_alpha_cancel [OF p])
  moreover have "0 < j - i" "j - i < k" using ij by linarith+
  ultimately show False using ne [of "j - i"] by simp
qed

lemma gf_alpha_inj_on:
  assumes p: "field_poly m p" and ne: "\<And>l. 0 < l \<Longrightarrow> l < k \<Longrightarrow> gf_alpha m p l \<noteq> 1"
  shows "inj_on (gf_alpha m p) {..<k}"
proof (rule inj_onI)
  fix i j assume "i \<in> {..<k}" "j \<in> {..<k}" "gf_alpha m p i = gf_alpha m p j"
  then show "i = j"
    using gf_alpha_distinct_less [OF p ne, of k i j] gf_alpha_distinct_less [OF p ne, of k j i]
    by (cases i j rule: linorder_cases) simp_all
qed

lemma gf_alpha_range:
  assumes p: "field_poly m p" and pr: "primitive_root m p"
  shows "gf_alpha m p ` {..<2 ^ m - 1} = {1..<2 ^ m}"
proof (rule card_subset_eq)
  show "finite {1..<(2::nat) ^ m}" by simp
  show "gf_alpha m p ` {..<2 ^ m - 1} \<subseteq> {1..<2 ^ m}"
    using gf_alpha_less [OF p] gf_alpha_pos [OF p] by (auto simp: Suc_le_eq)
  have "inj_on (gf_alpha m p) {..<2 ^ m - 1}"
    by (rule gf_alpha_inj_on [OF p]) (use pr in \<open>simp add: primitive_root_def\<close>)
  then show "card (gf_alpha m p ` {..<2 ^ m - 1}) = card {1..<(2::nat) ^ m}"
    by (simp add: card_image)
qed

lemma gf_alpha_order:
  assumes p: "field_poly m p" and pr: "primitive_root m p"
  shows "gf_alpha m p (2 ^ m - 1) = 1"
proof -
  let ?n = "2 ^ m - 1 :: nat"
  have "gf_alpha m p ?n \<in> {1..<2 ^ m}"
    using gf_alpha_less [OF p] gf_alpha_pos [OF p] by (auto simp: Suc_le_eq)
  then have "gf_alpha m p ?n \<in> gf_alpha m p ` {..<?n}"
    by (simp only: gf_alpha_range [OF p pr])
  then obtain j where j: "j < ?n" "gf_alpha m p j = gf_alpha m p ?n" by force
  then have "gf_alpha m p (j + 0) = gf_alpha m p (j + (?n - j))" by simp
  from gf_alpha_cancel [OF p this] have one: "gf_alpha m p (?n - j) = 1"
    by (simp only: gf_alpha.simps)
  show ?thesis
  proof (cases "j = 0")
    case False
    with j(1) pr one show ?thesis by (auto simp: primitive_root_def)
  qed (use one in simp)
qed

lemma gf_alpha_mod:
  assumes p: "field_poly m p" and pr: "primitive_root m p"
  shows "gf_alpha m p (i mod (2 ^ m - 1)) = gf_alpha m p i"
proof (induction i rule: less_induct)
  case (less i)
  let ?n = "2 ^ m - 1 :: nat"
  have n: "0 < ?n" using p one_less_power [of "2::nat" m] by (simp add: field_poly_def)
  show ?case
  proof (cases "i < ?n")
    case False
    have "gf_alpha m p ((i - ?n) + ?n) = (gf_shift m p ^^ (i - ?n)) (gf_alpha m p ?n)"
      by (rule gf_alpha_add)
    also have "\<dots> = gf_alpha m p (i - ?n)"
      using gf_alpha_add [of m p "i - ?n" 0] by (simp only: gf_alpha_order [OF p pr] gf_alpha.simps add_0_right)
    finally have "gf_alpha m p i = gf_alpha m p (i - ?n)" using False by simp
    with less.IH [of "i - ?n"] False n show ?thesis by (simp add: le_mod_geq)
  qed simp
qed

section \<open>Correctness of build\_gf\_tables\<close>

lemma gf_next_shift:
  assumes "m < 16" and "x < 2 ^ m"
  shows "gf_next (2 ^ m) p x = gf_shift m p x"
proof -
  have "(2::nat) ^ Suc m \<le> 2 ^ 32" using assms(1) by (intro power_increasing) auto
  then have "to_u32 (2 * x) = 2 * x" using assms(2) by (intro to_u32_id) simp
  then show ?thesis
    by (simp add: gf_next_def gf_shift_def and_exp_eq_0_iff_not_bit)
qed

text \<open>
  The state of the loop at index \<open>i\<close>: both tables agree with the powers
  computed so far, none of which is 1 again.
\<close>

definition gf_loop_inv :: "nat \<Rightarrow> nat \<Rightarrow> nat \<Rightarrow> nat list \<Rightarrow> nat list \<Rightarrow> bool" where
  "gf_loop_inv m p i pw lg \<longleftrightarrow>
     length pw = 2 ^ m \<and> length lg = 2 ^ m \<and>
     (\<forall>l < i. pw ! l = gf_alpha m p l \<and> lg ! gf_alpha m p l = l \<and>
              (0 < l \<longrightarrow> gf_alpha m p l \<noteq> 1))"

lemma gf_loop_inv_step:
  assumes p: "field_poly m p" and inv: "gf_loop_inv m p i pw lg"
    and i: "i < 2 ^ m - 1" and new: "\<not> (i \<noteq> 0 \<and> gf_alpha m p i = 1)"
  shows "gf_loop_inv m p (Suc i) (pw[i := to_u16 (gf_alpha m p i)]) (lg[gf_alpha m p i := to_u16 i])"
proof -
  have "(2::nat) ^ m \<le> 2 ^ 16" using p by (intro power_increasing) (auto simp: field_poly_def)
  then have small: "to_u16 (gf_alpha m p i) = gf_alpha m p i" "to_u16 i = i"
    using gf_alpha_less [OF p, of i] i by (simp_all add: to_u16_def)
  have ne: "gf_alpha m p l \<noteq> 1" if "0 < l" "l < Suc i" for l
    using inv new that by (cases "l = i") (auto simp: gf_loop_inv_def)
  have new_i: "gf_alpha m p i \<noteq> gf_alpha m p l" if "l < i" for l
    using gf_alpha_distinct_less [OF p ne that, of "Suc i"] by simp
  show ?thesis
    unfolding gf_loop_inv_def small
  proof (intro conjI allI impI)
    fix l assume "l < Suc i"
    then show "pw[i := gf_alpha m p i] ! l = gf_alpha m p l"
      "lg[gf_alpha m p i := i] ! gf_alpha m p l = l"
      using inv i new_i gf_alpha_less [OF p, of i]
      by (cases "l = i"; simp add: gf_loop_inv_def)+
  qed (use inv ne in \<open>simp_all add: gf_loop_inv_def\<close>)
qed

lemma build_gf_loop_ok:
  assumes p: "field_poly m p" and n: "n = 2 ^ m - 1"
    and "gf_loop_inv m p i pw lg" and "i \<le> n"
    and "build_gf_loop n (2 ^ m) p i (gf_alpha m p i) pw lg = (0, pw', lg')"
  shows "\<exists>pw2 lg2. gf_loop_inv m p n pw2 lg2 \<and> pw' = pw2[n := 1] \<and> lg' = lg2[0 := 0]"
  using assms(3-)
proof (induction "n - i" arbitrary: i pw lg)
  case 0
  then have "i = n" by simp
  with 0 show ?case by (auto simp: build_gf_loop.simps [of n _ _ n])
next
  case (Suc d)
  then have i: "i < n" by simp
  let ?pw = "pw[i := to_u16 (gf_alpha m p i)]" and ?lg = "lg[gf_alpha m p i := to_u16 i]"
  have new: "\<not> (i \<noteq> 0 \<and> gf_alpha m p i = 1)"
    using Suc.prems(3) i by (auto simp: build_gf_loop.simps [of n _ _ i])
  have "build_gf_loop n (2 ^ m) p (Suc i) (gf_alpha m p (Suc i)) ?pw ?lg = (0, pw', lg')"
    using Suc.prems(3) i new p gf_alpha_less [OF p]
    by (simp add: build_gf_loop.simps [of n _ _ i] Let_def gf_next_shift field_poly_def split: if_splits)
  moreover have "gf_loop_inv m p (Suc i) ?pw ?lg"
    using gf_loop_inv_step [OF p Suc.prems(1) _ new] i n by simp
  ultimately show ?case using Suc.hyps(1) [of "Suc i" ?pw ?lg] Suc.hyps(2) i by simp
qed

lemma build_gf_loop_primitive:
  assumes p: "field_poly m p" and n: "n = 2 ^ m - 1"
    and "\<And>l. i \<le> l \<Longrightarrow> l < n \<Longrightarrow> 0 < l \<Longrightarrow> gf_alpha m p l \<noteq> 1" and "i \<le> n"
  shows "fst (build_gf_loop n (2 ^ m) p i (gf_alpha m p i) pw lg) = 0"
  using assms(3-)
proof (induction "n - i" arbitrary: i pw lg)
  case 0
  then have "i = n" by simp
  with 0 show ?case by (auto simp: build_gf_loop.simps [of n _ _ n])
next
  case (Suc d)
  then have i: "i < n" by simp
  have "gf_next (2 ^ m) p (gf_alpha m p i) = gf_alpha m p (Suc i)"
    using p gf_alpha_less [OF p] by (simp add: gf_next_shift field_poly_def)
  with Suc.hyps(1) [of "Suc i"] Suc.hyps(2) Suc.prems i show ?case
    by (subst build_gf_loop.simps) (auto simp: Let_def)
qed

section \<open>Consequences of a successful build\<close>

lemma gf_ok_primitive:
  assumes "gf_ok p bch"
  shows "primitive_root (GF_M bch) p"
  unfolding primitive_root_def
proof (intro allI impI)
  fix l :: nat assume l: "l < 2 ^ GF_M bch - 1" "0 < l"
  let ?n = "GF_N bch"
  have n: "?n = 2 ^ GF_M bch - 1" using assms by (simp add: gf_ok_def)
  have pow: "a_pow_tab bch ! l = gf_alpha (GF_M bch) p l" "a_pow_tab bch ! 0 = gf_alpha (GF_M bch) p 0"
    using assms l n unfolding gf_ok_def by (metis less_imp_le le0)+
  have log: "a_log_tab bch ! (a_pow_tab bch ! l) = l" "a_log_tab bch ! (a_pow_tab bch ! 0) = 0"
    using assms l n unfolding gf_ok_def by (metis gr_zeroI less_zeroE)+
  show "gf_alpha (GF_M bch) p l \<noteq> 1"
  proof
    assume "gf_alpha (GF_M bch) p l = 1"
    then have "a_pow_tab bch ! l = a_pow_tab bch ! 0" using pow by (simp only: gf_alpha.simps)
    with log l(2) show False by simp
  qed
qed

lemma gf_ok_facts:
  assumes "gf_ok p bch"
  shows "field_poly (GF_M bch) p" "GF_N bch = 2 ^ GF_M bch - 1" "0 < GF_N bch"
    "length (a_pow_tab bch) = Suc (GF_N bch)" "length (a_log_tab bch) = Suc (GF_N bch)"
    "a_log_tab bch ! 0 = 0"
proof -
  show p: "field_poly (GF_M bch) p" and n: "GF_N bch = 2 ^ GF_M bch - 1"
    "length (a_pow_tab bch) = Suc (GF_N bch)" "length (a_log_tab bch) = Suc (GF_N bch)"
    "a_log_tab bch ! 0 = 0"
    using assms by (simp_all add: gf_ok_def)
  show "0 < GF_N bch"
    using p n one_less_power [of "2::nat" "GF_M bch"] by (simp add: field_poly_def)
qed

lemma gf_ok_pow: "gf_ok p bch \<Longrightarrow> i \<le> GF_N bch \<Longrightarrow> a_pow_tab bch ! i = gf_alpha (GF_M bch) p i"
  by (simp add: gf_ok_def)

text \<open>Every non-zero element is a power of the root, and \<open>a_log_tab\<close> finds it.\<close>

lemma gf_ok_log:
  assumes "gf_ok p bch" and "0 < a" and "a \<le> GF_N bch"
  shows "a_log_tab bch ! a < GF_N bch" and "gf_alpha (GF_M bch) p (a_log_tab bch ! a) = a"
proof -
  have "a \<in> {1..<2 ^ GF_M bch}"
    using assms gf_ok_facts(2,3) [OF assms(1)] by auto
  then have "a \<in> gf_alpha (GF_M bch) p ` {..<2 ^ GF_M bch - 1}"
    using gf_alpha_range gf_ok_facts(1) gf_ok_primitive assms(1) by blast
  then obtain i where i: "i < GF_N bch" "a = gf_alpha (GF_M bch) p i"
    using gf_ok_facts(2) [OF assms(1)] by auto
  then have "a_log_tab bch ! a = i"
    using assms(1) by (auto simp: gf_ok_def)
  with i show "a_log_tab bch ! a < GF_N bch" "gf_alpha (GF_M bch) p (a_log_tab bch ! a) = a"
    by simp_all
qed

lemma gf_alpha_le_N: "gf_ok p bch \<Longrightarrow> gf_alpha (GF_M bch) p i \<le> GF_N bch"
  using gf_alpha_less [OF gf_ok_facts(1), of p bch i] gf_ok_facts(2) [of p bch] by simp

lemma mod_s_eq:
  assumes "v < 2 * GF_N bch"
  shows "mod_s bch v = v mod GF_N bch"
  using assms by (auto simp: mod_s_def le_mod_geq)

lemma gf_alpha_mod_N:
  "gf_ok p bch \<Longrightarrow> gf_alpha (GF_M bch) p (i mod GF_N bch) = gf_alpha (GF_M bch) p i"
  using gf_alpha_mod [OF gf_ok_facts(1) gf_ok_primitive, of p bch i] gf_ok_facts(2) [of p bch] by simp

lemma pow_mod_s:
  assumes "gf_ok p bch" and "v < 2 * GF_N bch"
  shows "a_pow_tab bch ! mod_s bch v = gf_alpha (GF_M bch) p v"
proof -
  have "v mod GF_N bch < GF_N bch" using gf_ok_facts(3) [OF assms(1)] by simp
  then show ?thesis
    using gf_ok_pow [OF assms(1), of "v mod GF_N bch"] gf_alpha_mod_N [OF assms(1)]
    by (simp add: mod_s_eq [OF assms(2)])
qed

text \<open>The log/antilog product is the product of polynomials modulo the field polynomial.\<close>

lemma gf_mul_peasant:
  assumes ok: "gf_ok p bch" and a: "a \<le> GF_N bch" and b: "b \<le> GF_N bch"
  shows "gf_mul bch a b = gf_peasant (GF_M bch) p (GF_M bch) a b"
proof (cases "a = 0 \<or> b = 0")
  case True
  have "gf_peasant m p j 0 b = 0" "gf_peasant m p j a 0 = 0" for m j a b
    by (induction j arbitrary: a b) auto
  with True show ?thesis by (auto simp: gf_mul_def)
next
  case False
  let ?la = "a_log_tab bch ! a" and ?lb = "a_log_tab bch ! b"
  have "gf_mul bch a b = gf_alpha (GF_M bch) p (?la + ?lb)"
    using False gf_ok_log(1) [OF ok _ a] gf_ok_log(1) [OF ok _ b]
    by (simp add: gf_mul_def pow_mod_s [OF ok])
  also have "\<dots> = gf_peasant (GF_M bch) p (GF_M bch) a b"
    using gf_peasant_alpha [OF gf_ok_facts(1) [OF ok], of ?la ?lb]
      gf_ok_log(2) [OF ok _ a] gf_ok_log(2) [OF ok _ b] False by simp
  finally show ?thesis .
qed

text \<open>Non-zero elements multiply by adding exponents.\<close>

lemma gf_mul_alpha:
  assumes "gf_ok p bch"
  shows "gf_mul bch (gf_alpha (GF_M bch) p i) (gf_alpha (GF_M bch) p j) = gf_alpha (GF_M bch) p (i + j)"
  using gf_mul_peasant [OF assms] gf_alpha_le_N [OF assms] gf_peasant_alpha [OF gf_ok_facts(1) [OF assms]]
  by simp

lemma gf_element_cases:
  assumes "gf_ok p bch" and "a \<le> GF_N bch"
  obtains "a = 0" | i where "i < GF_N bch" and "a = gf_alpha (GF_M bch) p i"
  using gf_ok_log [OF assms(1) _ assms(2)] by (metis neq0_conv)

section \<open>The field interface\<close>

text \<open>
  What the decoder relies on: a commutative multiplication on the elements up to
  \<open>top c\<close> that distributes over exclusive or, with a unit and inverses, for
  every control structure that satisfies \<open>ok\<close>.
\<close>

locale binary_field =
  fixes ok :: "'c \<Rightarrow> bool"
    and top :: "'c \<Rightarrow> nat"
    and mul :: "'c \<Rightarrow> nat \<Rightarrow> nat \<Rightarrow> nat"
    and inv :: "'c \<Rightarrow> nat \<Rightarrow> nat"
  assumes mul_closed: "ok c \<Longrightarrow> a \<le> top c \<Longrightarrow> b \<le> top c \<Longrightarrow> mul c a b \<le> top c"
    and xor_closed: "ok c \<Longrightarrow> a \<le> top c \<Longrightarrow> b \<le> top c \<Longrightarrow> a XOR b \<le> top c"
    and mul_commute: "ok c \<Longrightarrow> a \<le> top c \<Longrightarrow> b \<le> top c \<Longrightarrow> mul c a b = mul c b a"
    and mul_assoc: "ok c \<Longrightarrow> a \<le> top c \<Longrightarrow> b \<le> top c \<Longrightarrow> d \<le> top c \<Longrightarrow>
           mul c (mul c a b) d = mul c a (mul c b d)"
    and mul_xor: "ok c \<Longrightarrow> a \<le> top c \<Longrightarrow> b \<le> top c \<Longrightarrow> d \<le> top c \<Longrightarrow>
           mul c (a XOR b) d = mul c a d XOR mul c b d"
    and mul_one: "ok c \<Longrightarrow> a \<le> top c \<Longrightarrow> mul c 1 a = a"
    and top_pos: "ok c \<Longrightarrow> 0 < top c"
    and inv_closed: "ok c \<Longrightarrow> a \<le> top c \<Longrightarrow> a \<noteq> 0 \<Longrightarrow> inv c a \<le> top c"
    and mul_inv: "ok c \<Longrightarrow> a \<le> top c \<Longrightarrow> a \<noteq> 0 \<Longrightarrow> mul c a (inv c a) = 1"
begin

lemma mul_zero: "ok c \<Longrightarrow> a \<le> top c \<Longrightarrow> mul c 0 a = 0"
  using mul_xor [of c 0 0 a] by simp

lemma mul_xor_right:
  assumes "ok c" "a \<le> top c" "b \<le> top c" "d \<le> top c"
  shows "mul c d (a XOR b) = mul c d a XOR mul c d b"
  using assms mul_xor [of c a b d] by (simp add: mul_commute [of c d] xor_closed)

lemma mul_eq_0_iff:
  assumes c: "ok c" and a: "a \<le> top c" and b: "b \<le> top c"
  shows "mul c a b = 0 \<longleftrightarrow> a = 0 \<or> b = 0"
proof
  assume z: "mul c a b = 0"
  show "a = 0 \<or> b = 0"
  proof (cases "a = 0")
    case False
    have "b = mul c (mul c (inv c a) a) b"
      using assms False by (simp add: mul_commute [of c "inv c a"] inv_closed mul_inv mul_one del: One_nat_def)
    also have "\<dots> = mul c (inv c a) 0"
      using assms False z by (simp add: mul_assoc inv_closed)
    also have "\<dots> = 0"
      using assms False by (simp add: mul_commute [of c "inv c a"] inv_closed mul_zero)
    finally show ?thesis by simp
  qed simp
qed (use assms mul_zero mul_commute [of c a 0] in auto)

lemma mul_left_cancel:
  assumes c: "ok c" and a: "a \<le> top c" "a \<noteq> 0" and b: "b \<le> top c" and d: "d \<le> top c"
    and eq: "mul c a b = mul c a d"
  shows "b = d"
proof -
  have "mul c a (b XOR d) = 0" using eq mul_xor_right [OF c b d a(1)] by simp
  then have "b XOR d = 0" using mul_eq_0_iff [OF c a(1) xor_closed [OF c b d]] a(2) by simp
  then show ?thesis by (simp add: xor_eq_0_iff)
qed

text \<open>Squaring is additive: the identity that the syndrome code uses.\<close>

lemma sqr_xor:
  assumes c: "ok c" and a: "a \<le> top c" and b: "b \<le> top c"
  shows "mul c (a XOR b) (a XOR b) = mul c a a XOR mul c b b"
proof -
  have "mul c (a XOR b) (a XOR b) = (mul c a a XOR mul c b a) XOR (mul c a b XOR mul c b b)"
    using assms by (simp add: mul_xor mul_xor_right xor_closed xor_simps)
  then show ?thesis using mul_commute [OF c a b] by (simp add: xor_simps)
qed

end

lemma gf_mul_closed:
  assumes "gf_ok p bch" and "a \<le> GF_N bch" and "b \<le> GF_N bch"
  shows "gf_mul bch a b \<le> GF_N bch"
  using assms(2,3) gf_mul_alpha [OF assms(1)] gf_alpha_le_N [OF assms(1)]
  by (elim gf_element_cases [OF assms(1)]) (auto simp: gf_mul_def [of _ 0] gf_mul_def [of _ _ 0])

lemma gf_xor_closed:
  assumes "gf_ok p bch" and "a \<le> GF_N bch" and "b \<le> GF_N bch"
  shows "a XOR b \<le> GF_N bch"
  using assms xor_nat_less [of a "GF_M bch" b] gf_ok_facts(2,3) [OF assms(1)]
  by (simp add: less_eq_Suc_le [symmetric] Suc_le_eq less_Suc_eq_le [symmetric])

lemma gf_inv_alpha:
  assumes ok: "gf_ok p bch" and i: "i < GF_N bch"
  shows "gf_inv bch (gf_alpha (GF_M bch) p i) = gf_alpha (GF_M bch) p (GF_N bch - i)"
proof -
  have "a_log_tab bch ! gf_alpha (GF_M bch) p i = i"
    using ok i by (auto simp: gf_ok_def)
  then show ?thesis using gf_ok_pow [OF ok] by (simp add: gf_inv_def)
qed

lemma gf_mul_assoc:
  assumes ok: "gf_ok p bch" and "a \<le> GF_N bch" "b \<le> GF_N bch" "d \<le> GF_N bch"
  shows "gf_mul bch (gf_mul bch a b) d = gf_mul bch a (gf_mul bch b d)"
  using assms(2-4) gf_mul_alpha [OF ok]
  by (elim gf_element_cases [OF ok]) (auto simp: gf_mul_def [of _ 0] gf_mul_def [of _ _ 0] add.assoc)

lemma gf_mul_xor:
  assumes ok: "gf_ok p bch" and "a \<le> GF_N bch" "b \<le> GF_N bch" "d \<le> GF_N bch"
  shows "gf_mul bch (a XOR b) d = gf_mul bch a d XOR gf_mul bch b d"
  using assms by (simp add: gf_mul_peasant [OF ok] gf_xor_closed [OF ok] gf_peasant_xor_left)

lemma gf_mul_inv:
  assumes ok: "gf_ok p bch" and a: "a \<le> GF_N bch" "a \<noteq> 0"
  shows "gf_mul bch a (gf_inv bch a) = 1" and "gf_inv bch a \<le> GF_N bch"
proof -
  from a obtain i where i: "i < GF_N bch" "a = gf_alpha (GF_M bch) p i"
    by (elim gf_element_cases [OF ok]) auto
  have "gf_mul bch a (gf_inv bch a) = gf_alpha (GF_M bch) p (GF_N bch)"
    using i by (simp add: gf_inv_alpha [OF ok] gf_mul_alpha [OF ok])
  also have "\<dots> = 1" using gf_ok_pow [OF ok order.refl] ok unfolding gf_ok_def by metis
  finally show "gf_mul bch a (gf_inv bch a) = 1" .
  show "gf_inv bch a \<le> GF_N bch"
    using i gf_alpha_le_N [OF ok] by (simp add: gf_inv_alpha [OF ok])
qed

lemma gf_one_le: "gf_ok p bch \<Longrightarrow> Suc 0 \<le> GF_N bch"
  using gf_ok_facts(3) by (simp add: Suc_le_eq)

interpretation gf: binary_field "\<lambda>bch. \<exists>p. gf_ok p bch" GF_N gf_mul gf_inv
proof (unfold_locales; elim exE)
  fix c a b p assume "gf_ok p c" "a \<le> GF_N c" "b \<le> GF_N c"
  then show "gf_mul c a b = gf_mul c b a" by (auto simp: gf_mul_def add.commute)
next
  fix c a p assume ok: "gf_ok p c" and a: "a \<le> GF_N c"
  show "gf_mul c 1 a = a"
    using gf_mul_peasant [OF ok gf_one_le [OF ok] a] a gf_ok_facts(2,3) [OF ok]
      gf_peasant_one [of a "GF_M c" p] by simp
qed (blast intro: gf_mul_closed gf_xor_closed gf_mul_assoc gf_mul_xor gf_mul_inv gf_ok_facts(3))+

text \<open>The facts of the interpretation for a given field polynomial.\<close>

lemma gf_field:
  assumes "gf_ok p bch" and "a \<le> GF_N bch"
  shows gf_mul_one: "gf_mul bch 1 a = a"
    and gf_mul_commute: "b \<le> GF_N bch \<Longrightarrow> gf_mul bch a b = gf_mul bch b a"
    and gf_mul_xor_right: "b \<le> GF_N bch \<Longrightarrow> d \<le> GF_N bch \<Longrightarrow> gf_mul bch d (a XOR b) = gf_mul bch d a XOR gf_mul bch d b"
    and gf_mul_eq_0: "b \<le> GF_N bch \<Longrightarrow> gf_mul bch a b = 0 \<longleftrightarrow> a = 0 \<or> b = 0"
    and gf_mul_left_cancel: "b \<le> GF_N bch \<Longrightarrow> d \<le> GF_N bch \<Longrightarrow> a \<noteq> 0 \<Longrightarrow> gf_mul bch a b = gf_mul bch a d \<Longrightarrow> b = d"
proof -
  have ok: "\<exists>p. gf_ok p bch" using assms(1) by blast
  note f = gf.mul_one [of bch, OF ok] gf.mul_commute [of bch, OF ok] gf.mul_xor_right [of bch, OF ok]
    gf.mul_eq_0_iff [of bch, OF ok] gf.mul_left_cancel [of bch, OF ok]
  show "gf_mul bch 1 a = a" by (rule f(1) [OF assms(2)])
  show "gf_mul bch a b = gf_mul bch b a" if "b \<le> GF_N bch" by (rule f(2) [OF assms(2) that])
  show "gf_mul bch d (a XOR b) = gf_mul bch d a XOR gf_mul bch d b" if "b \<le> GF_N bch" "d \<le> GF_N bch"
    by (rule f(3) [OF assms(2) that])
  show "gf_mul bch a b = 0 \<longleftrightarrow> a = 0 \<or> b = 0" if "b \<le> GF_N bch" by (rule f(4) [OF assms(2) that])
  show "b = d" if "b \<le> GF_N bch" "d \<le> GF_N bch" "a \<noteq> 0" "gf_mul bch a b = gf_mul bch a d"
    by (rule f(5) [OF assms(2) that(3) that(1,2,4)])
qed

section \<open>Results\<close>

lemma gf_loop_inv_start:
  "length pw = 2 ^ m \<Longrightarrow> length lg = 2 ^ m \<Longrightarrow> gf_loop_inv m p 0 pw lg"
  by (simp add: gf_loop_inv_def)

lemma deg_field_poly: "field_poly m p \<Longrightarrow> deg p = int m"
proof -
  assume p: "field_poly m p"
  then have "2 ^ m \<le> p" using bit_nat_less_iff_top [of p m] by (simp add: field_poly_def)
  then have "fls p = Suc m" using p by (intro fls_unique) (auto simp: field_poly_def)
  then show ?thesis by (simp add: deg_def)
qed

lemma build_gf_tables_gf_ok:
  assumes p: "field_poly (GF_M bch) p" and n: "GF_N bch = 2 ^ GF_M bch - 1"
    and len: "length (a_pow_tab bch) = Suc (GF_N bch)" "length (a_log_tab bch) = Suc (GF_N bch)"
    and res: "build_gf_tables bch p = (0, bch')"
  shows "gf_ok p bch'"
proof -
  let ?m = "GF_M bch" and ?n = "GF_N bch"
  have n1: "Suc ?n = 2 ^ ?m" using n by simp
  obtain pw' lg' where loop: "build_gf_loop ?n (2 ^ ?m) p 0 (gf_alpha ?m p 0) (a_pow_tab bch) (a_log_tab bch) = (0, pw', lg')"
    and bch': "bch' = bch\<lparr>a_pow_tab := pw', a_log_tab := lg'\<rparr>"
    using res by (auto simp: build_gf_tables_def Let_def deg_field_poly [OF p] split: prod.splits)
  have start: "gf_loop_inv ?m p 0 (a_pow_tab bch) (a_log_tab bch)"
    using len n1 by (simp add: gf_loop_inv_start)
  obtain pw lg where inv: "gf_loop_inv ?m p ?n pw lg" and eq: "pw' = pw[?n := 1]" "lg' = lg[0 := 0]"
    using build_gf_loop_ok [OF p n start le0 loop] by blast
  have len2: "length pw = Suc ?n" "length lg = Suc ?n"
    using inv n1 by (simp_all add: gf_loop_inv_def)
  have "primitive_root ?m p"
    using inv n by (simp add: gf_loop_inv_def primitive_root_def)
  then have ord: "gf_alpha ?m p ?n = 1" using gf_alpha_order [OF p] n by simp
  have pow: "pw' ! i = gf_alpha ?m p i" if "i \<le> ?n" for i
    using that inv ord len2 by (cases "i = ?n") (simp_all add: eq gf_loop_inv_def)
  have log: "lg' ! gf_alpha ?m p i = i" if "i < ?n" for i
    using that inv gf_alpha_pos [OF p, of i] by (simp add: eq gf_loop_inv_def)
  have sel: "GF_M bch' = ?m" "GF_N bch' = ?n" "a_pow_tab bch' = pw'" "a_log_tab bch' = lg'"
    by (simp_all add: bch' GF_M_def GF_N_def)
  have log2: "\<forall>i<?n. lg' ! (pw' ! i) = i" using pow log by simp
  have "pw' ! ?n = 1" "lg' ! 0 = 0" "length pw' = Suc ?n" "length lg' = Suc ?n"
    using len2 by (simp_all add: eq)
  with p n pow log2 show ?thesis unfolding gf_ok_def sel by blast
qed

lemma build_gf_tables_succeeds:
  assumes p: "field_poly (GF_M bch) p" and n: "GF_N bch = 2 ^ GF_M bch - 1"
    and prim: "primitive_root (GF_M bch) p"
  shows "fst (build_gf_tables bch p) = 0"
  using build_gf_loop_primitive [OF p n, of 0 "a_pow_tab bch" "a_log_tab bch"] prim n
  by (auto simp: build_gf_tables_def Let_def deg_field_poly [OF p] primitive_root_def split: prod.splits)

text \<open>\<open>modulo\<close> computes the remainder modulo \<open>2 ^ m - 1\<close>.\<close>

lemma mod_mersenne_fold: "(x mod 2 ^ m + x div 2 ^ m) mod (2 ^ m - 1) = x mod (2 ^ m - 1 :: nat)"
proof -
  let ?q = "x div 2 ^ m" and ?n = "2 ^ m - 1 :: nat"
  have "?q * 2 ^ m = ?q + ?q * ?n" by (simp add: right_diff_distrib')
  moreover have "x = ?q * 2 ^ m + x mod 2 ^ m" by (rule div_mult_mod_eq [symmetric])
  ultimately have "x = (x mod 2 ^ m + ?q) + ?q * ?n" by linarith
  then show ?thesis by (metis mod_mult_self1)
qed

lemma modulo_loop_eq:
  assumes "0 < m" and "n = 2 ^ m - 1"
  shows "modulo_loop m n v = v mod n"
proof (induction v rule: less_induct)
  case (less v)
  have n: "0 < n" "n = mask m"
    using assms one_less_power [of "2::nat" m] by (simp_all add: mask_eq_exp_minus_1)
  show ?case
  proof (cases "n \<le> v")
    case True
    let ?v = "((v - n) AND n) + drop_bit m (v - n)"
    have v': "?v = (v - n) mod 2 ^ m + (v - n) div 2 ^ m"
      by (simp add: n(2) take_bit_eq_mask [symmetric] take_bit_eq_mod drop_bit_eq_div)
    have "modulo_loop m n v = modulo_loop m n ?v"
      using True n(1) assms(1) by (subst modulo_loop.simps) simp
    also have "\<dots> = ?v mod n"
      using less.IH modulo_step_less [OF True n(1) assms(1)] by blast
    also have "\<dots> = (v - n) mod n" unfolding v' unfolding assms(2) by (rule mod_mersenne_fold)
    finally show ?thesis using True by (simp add: le_mod_geq)
  next
    case False
    then show ?thesis by (subst modulo_loop.simps) simp
  qed
qed

lemma a_pow_alpha:
  assumes ok: "gf_ok p bch" and i: "0 \<le> i" "i < 2 ^ 32"
  shows "a_pow bch i = gf_alpha (GF_M bch) p (nat i)"
proof -
  note f = gf_ok_facts [OF ok]
  have "modulo bch (nat i) = nat i mod GF_N bch"
    using f(1,2) by (simp add: modulo_def modulo_loop_eq field_poly_def)
  then show ?thesis
    using i f(3) gf_ok_pow [OF ok, of "nat i mod GF_N bch"] gf_alpha_mod_N [OF ok, of "nat i"]
    by (simp add: a_pow_def)
qed

lemma gf_sqr_mul: "gf_sqr bch a = gf_mul bch a a"
  by (simp add: gf_sqr_def gf_mul_def mult_2)

lemma gf_div_mul:
  assumes ok: "gf_ok p bch" and a: "a \<le> GF_N bch" and b: "b \<le> GF_N bch" "b \<noteq> 0"
  shows "gf_mul bch (gf_div bch a b) b = a" and "gf_div bch a b \<le> GF_N bch"
proof -
  have "gf_div bch a b = gf_mul bch a (gf_inv bch b)"
  proof (cases "a = 0")
    case False
    let ?la = "a_log_tab bch ! a" and ?lb = "a_log_tab bch ! b"
    have l: "?la < GF_N bch" "?lb < GF_N bch" "gf_alpha (GF_M bch) p ?la = a" "gf_alpha (GF_M bch) p ?lb = b"
      using gf_ok_log [OF ok _ a] gf_ok_log [OF ok _ b(1)] False b(2) by simp_all
    show ?thesis
    proof (cases "?lb = 0")
      case True
      have "gf_div bch a b = gf_alpha (GF_M bch) p ?la"
        using False True l(1) by (simp add: gf_div_def mod_s_def gf_ok_pow [OF ok])
      moreover have "gf_inv bch b = 1"
        using True ok unfolding gf_inv_def gf_ok_def by (metis diff_zero)
      ultimately show ?thesis
        using l gf.mul_one gf.mul_commute gf_one_le ok a by (metis One_nat_def)
    next
      case False2: False
      have "gf_div bch a b = gf_alpha (GF_M bch) p (?la + (GF_N bch - ?lb))"
        using False False2 l(1,2) pow_mod_s [OF ok, of "?la + GF_N bch - ?lb"] by (simp add: gf_div_def)
      also have "\<dots> = gf_mul bch a (gf_inv bch b)"
        using l gf_inv_alpha [OF ok l(2)] gf_mul_alpha [OF ok, of ?la "GF_N bch - ?lb"] by simp
      finally show ?thesis .
    qed
  qed (simp add: gf_div_def gf_mul_def)
  note eq = this
  note bi = gf_mul_inv [OF ok b]
  show "gf_mul bch (gf_div bch a b) b = a" "gf_div bch a b \<le> GF_N bch"
    unfolding eq using bi gf_mul_assoc [OF ok a bi(2) b(1)] gf_mul_closed [OF ok a bi(2)] ok
      gf.mul_commute gf.mul_one a b(1)
    by (metis gf_one_le One_nat_def)+
qed


section \<open>Properties\<close>

text \<open>A small field for examples: degree 3, polynomial \<open>X^3 + X + 1\<close>.\<close>

definition bch_3 :: bch_control where
  "bch_3 = \<lparr>bch_m = 3, bch_n = 7, bch_t = 1, ecc_bits = 3, ecc_bytes = 1,
            a_pow_tab = replicate 8 0, a_log_tab = replicate 8 0, mod8_tab = [], ecc_buf = [0], ecc_buf2 = [0],
            xi_tab = []\<rparr>"

definition bch_3_tables :: bch_control where
  "bch_3_tables = bch_3\<lparr>a_pow_tab := [1, 2, 4, 3, 6, 7, 5, 1], a_log_tab := [0, 0, 1, 3, 2, 6, 4, 5]\<rparr>"

lemma gf_tables_3: "build_gf_tables bch_3 11 = (0, bch_3_tables)"
proof -
  have "fls 11 = 4" by (rule fls_unique [of 3, simplified]) simp_all
  then have d: "deg 11 = 3" by (simp add: deg_def)
  have "build_gf_loop 7 8 11 0 1 (replicate 8 0) (replicate 8 0) =
      (0, [1, 2, 4, 3, 6, 7, 5, 1], [0, 0, 1, 3, 2, 6, 4, 5])"
    by (simp add: build_gf_loop.simps gf_next_def to_u16_def to_u32_def Let_def) (simp add: numeral_eq_Suc)
  with d show ?thesis
    by (simp add: build_gf_tables_def Let_def bch_3_def bch_3_tables_def GF_M_def GF_N_def)
qed

lemma bch_3_facts:
  "field_poly (GF_M bch_3) 11" "GF_N bch_3 = 2 ^ GF_M bch_3 - 1"
  "length (a_pow_tab bch_3) = Suc (GF_N bch_3)" "length (a_log_tab bch_3) = Suc (GF_N bch_3)"
  by (simp_all add: bch_3_def GF_M_def GF_N_def field_poly_def bit_iff_odd)

lemma gf_ok_3: "gf_ok 11 bch_3_tables"
  by (rule build_gf_tables_gf_ok [OF bch_3_facts gf_tables_3])

text \<open>
  C6: the tables that \<open>build_gf_tables\<close> accepts implement the field.  When it
  returns 0 for an odd polynomial of degree \<open>m\<close>, \<open>gf_mul\<close> is the product
  of polynomials modulo it, \<open>gf_div\<close> and \<open>gf_inv\<close> undo it, and
  \<open>a_log\<close> and \<open>a_pow_tab\<close> are inverse to each other.
\<close>

theorem gf_tables_implement_field:
  assumes "field_poly (GF_M bch) p" and "GF_N bch = 2 ^ GF_M bch - 1"
    and "length (a_pow_tab bch) = Suc (GF_N bch)" and "length (a_log_tab bch) = Suc (GF_N bch)"
    and "build_gf_tables bch p = (0, bch')" and "a \<le> GF_N bch'" and "b \<le> GF_N bch'" and "b \<noteq> 0"
  shows "gf_mul bch' a b = gf_peasant (GF_M bch') p (GF_M bch') a b
    \<and> gf_mul bch' (gf_div bch' a b) b = a \<and> gf_mul bch' b (gf_inv bch' b) = 1
    \<and> a_pow_tab bch' ! a_log bch' b = b"
proof -
  have ok: "gf_ok p bch'" by (rule build_gf_tables_gf_ok [OF assms(1-5)])
  note l = gf_ok_log [OF ok _ assms(7)]
  have "a_pow_tab bch' ! a_log bch' b = b"
    using l assms(8) gf_ok_pow [OF ok, of "a_log_tab bch' ! b"] by (simp add: a_log_def)
  then show ?thesis
    using gf_mul_peasant [OF ok assms(6,7)] gf_div_mul(1) [OF ok assms(6,7,8)] gf_mul_inv(1) [OF ok assms(7,8)] by blast
qed

theorem gf_tables_implement_field_witness:
  "build_gf_tables bch_3 11 = (0, bch_3_tables) \<and> gf_mul bch_3_tables 5 6 = gf_peasant 3 11 3 5 6
   \<and> gf_mul bch_3_tables (gf_div bch_3_tables 5 6) 6 = 5"
proof -
  have s: "GF_M bch_3_tables = 3" "GF_N bch_3_tables = 7"
    by (simp_all add: bch_3_tables_def bch_3_def GF_M_def GF_N_def)
  show ?thesis
    using gf_tables_implement_field [OF bch_3_facts gf_tables_3, of 5 6] gf_tables_3 by (simp add: s)
qed

text \<open>
  C7: \<open>build_gf_tables\<close> accepts every primitive polynomial: if the powers of the
  root below \<open>2 ^ m - 1\<close> are different from 1, it returns 0.
\<close>

theorem build_gf_tables_accepts_primitive:
  assumes "field_poly (GF_M bch) p" and "GF_N bch = 2 ^ GF_M bch - 1" and "primitive_root (GF_M bch) p"
  shows "fst (build_gf_tables bch p) = 0"
  by (rule build_gf_tables_succeeds [OF assms])

theorem build_gf_tables_accepts_primitive_witness: "fst (build_gf_tables bch_3 11) = 0"
proof -
  have "GF_M bch_3_tables = GF_M bch_3" by (simp add: bch_3_tables_def GF_M_def)
  then have "primitive_root (GF_M bch_3) 11" using gf_ok_primitive [OF gf_ok_3] by simp
  with build_gf_tables_accepts_primitive [OF bch_3_facts(1,2)] show ?thesis by simp
qed

text \<open>
  \<open>modulo\<close> returns the remainder modulo \<open>2 ^ m - 1\<close>: the
  shift-and-mask loop ends and agrees with division.
\<close>

theorem modulo_is_remainder:
  assumes "0 < GF_M bch" and "GF_N bch = 2 ^ GF_M bch - 1"
  shows "modulo bch v = v mod GF_N bch"
  using modulo_loop_eq [OF assms] by (simp add: modulo_def)

theorem modulo_is_remainder_witness: "modulo bch_3 100 = 2"
  using modulo_is_remainder [of bch_3 100] by (simp add: bch_3_def GF_M_def GF_N_def)

end
