(* ===== verification/Bch_Encode.thy ===== *)
theory Bch_Encode
  imports Bch_Field
begin

text \<open>
  The encoder of lib/bch.c: \<open>encode_bch_unaligned\<close>, \<open>load_ecc8\<close>,
  \<open>store_ecc8\<close>, \<open>encode_bch\<close> and \<open>build_mod8_tables\<close>.
  Data and parity bytes are lists of 8-bit words, the parity register and the
  remainder tables are lists of 32-bit words.  The register is read as one number
  of \<open>32 * length\<close> bits (\<open>ecc_val\<close>); the specification is the
  bit-serial shift register \<open>lfsr\<close>, and the two table-driven routines
  are proved equal to it.
\<close>

section \<open>Definitions\<close>

definition BCH_ECC_WORDS :: "bch_control \<Rightarrow> nat" where
  "BCH_ECC_WORDS bch = DIV_ROUND_UP (GF_M bch * GF_T bch) 32"

definition BCH_ECC_BYTES :: "bch_control \<Rightarrow> nat" where
  "BCH_ECC_BYTES bch = DIV_ROUND_UP (GF_M bch * GF_T bch) 8"

text \<open>
  The inner loop of \<open>encode_bch_unaligned\<close> from index \<open>i\<close> on, with
  \<open>p\<close> the offset of the table row; the assignment after the loop is the case
  \<open>i = l\<close>.
\<close>

function enc_unaligned_row :: "u32 list \<Rightarrow> nat \<Rightarrow> nat \<Rightarrow> nat \<Rightarrow> u32 list \<Rightarrow> u32 list" where
  "enc_unaligned_row tab p l i ecc =
     (if i < l
      then enc_unaligned_row tab p l (Suc i)
             (ecc[i := (push_bit 8 (ecc ! i) OR drop_bit 24 (ecc ! Suc i)) XOR tab ! (p + i)])
      else ecc[l := push_bit 8 (ecc ! l) XOR tab ! (p + l)])"
  by pat_completeness auto
termination
  by (relation "measure (\<lambda>(tab, p, l, i, ecc). l - i)") auto

declare enc_unaligned_row.simps [simp del]

fun encode_bch_unaligned :: "bch_control \<Rightarrow> u8 list \<Rightarrow> u32 list \<Rightarrow> u32 list" where
  "encode_bch_unaligned bch [] ecc = ecc"
| "encode_bch_unaligned bch (d # data) ecc =
     (let l = BCH_ECC_WORDS bch - 1;
          p = (l + 1) * unat ((drop_bit 24 (ecc ! 0) XOR ucast d) AND 0xff)
      in encode_bch_unaligned bch data (enc_unaligned_row (mod8_tab bch) p l 0 ecc))"

text \<open>Four bytes as one big-endian word: the shifts of \<open>load_ecc8\<close>.\<close>

definition be32 :: "u8 \<Rightarrow> u8 \<Rightarrow> u8 \<Rightarrow> u8 \<Rightarrow> u32" where
  "be32 a b c d =
     (push_bit 24 (ucast a) OR push_bit 16 (ucast b)) OR (push_bit 8 (ucast c) OR ucast d)"

text \<open>
  \<open>load_ecc8\<close>: \<open>nwords\<close> full words, then the remaining
  \<open>BCH_ECC_BYTES - 4 * nwords\<close> bytes padded with zeros.
\<close>

fun load_full_words :: "nat \<Rightarrow> u8 list \<Rightarrow> u32 list" where
  "load_full_words 0 src = []"
| "load_full_words (Suc k) src =
     be32 (src ! 0) (src ! 1) (src ! 2) (src ! 3) # load_full_words k (drop 4 src)"

definition load_ecc8 :: "bch_control \<Rightarrow> u8 list \<Rightarrow> u32 list" where
  "load_ecc8 bch src =
     (let nwords = BCH_ECC_WORDS bch - 1;
          cnt = BCH_ECC_BYTES bch - 4 * nwords;
          pad = take cnt (drop (4 * nwords) src) @ replicate (4 - cnt) 0
      in load_full_words nwords src @ [be32 (pad ! 0) (pad ! 1) (pad ! 2) (pad ! 3)])"

text \<open>The four bytes of a word, most significant first.\<close>

definition word_bytes :: "u32 \<Rightarrow> u8 list" where
  "word_bytes w = [ucast (drop_bit 24 w), ucast (drop_bit 16 w AND 0xff),
                   ucast (drop_bit 8 w AND 0xff), ucast (w AND 0xff)]"

definition store_ecc8 :: "bch_control \<Rightarrow> u32 list \<Rightarrow> u8 list" where
  "store_ecc8 bch src =
     (let nwords = BCH_ECC_WORDS bch - 1;
          cnt = BCH_ECC_BYTES bch - 4 * nwords
      in concat (map word_bytes (take nwords src)) @ take cnt (word_bytes (src ! nwords)))"

text \<open>
  The inner loop of the word-wise part of \<open>encode_bch\<close>: \<open>p0\<close> to
  \<open>p3\<close> are the offsets of the four table rows.
\<close>

function enc_word_row ::
  "u32 list \<Rightarrow> nat \<Rightarrow> nat \<Rightarrow> nat \<Rightarrow> nat \<Rightarrow> nat \<Rightarrow> nat \<Rightarrow> u32 list \<Rightarrow> u32 list" where
  "enc_word_row tab p0 p1 p2 p3 l i r =
     (if i < l
      then enc_word_row tab p0 p1 p2 p3 l (Suc i)
             (r[i := r ! Suc i XOR tab ! (p0 + i) XOR tab ! (p1 + i) XOR tab ! (p2 + i) XOR tab ! (p3 + i)])
      else r[l := tab ! (p0 + l) XOR tab ! (p1 + l) XOR tab ! (p2 + l) XOR tab ! (p3 + l)])"
  by pat_completeness auto
termination
  by (relation "measure (\<lambda>(tab, p0, p1, p2, p3, l, i, r). l - i)") auto

declare enc_word_row.simps [simp del]

text \<open>One iteration: \<open>w\<close> is the next data word in big-endian order, xored into \<open>r[0]\<close>.\<close>

definition enc_word_step :: "bch_control \<Rightarrow> u32 \<Rightarrow> u32 list \<Rightarrow> u32 list" where
  "enc_word_step bch be r =
     (let l = BCH_ECC_WORDS bch - 1;
          w = r ! 0 XOR be;
          tab1 = 256 * (l + 1);
          tab2 = tab1 + 256 * (l + 1);
          tab3 = tab2 + 256 * (l + 1);
          p0 = (l + 1) * unat (w AND 0xff);
          p1 = tab1 + (l + 1) * unat (drop_bit 8 w AND 0xff);
          p2 = tab2 + (l + 1) * unat (drop_bit 16 w AND 0xff);
          p3 = tab3 + (l + 1) * unat (drop_bit 24 w AND 0xff)
      in enc_word_row (mod8_tab bch) p0 p1 p2 p3 l 0 r)"

fun enc_words :: "bch_control \<Rightarrow> nat \<Rightarrow> u8 list \<Rightarrow> u32 list \<Rightarrow> u32 list" where
  "enc_words bch 0 data r = r"
| "enc_words bch (Suc mlen) data r =
     enc_words bch mlen (drop 4 data)
       (enc_word_step bch (be32 (data ! 0) (data ! 1) (data ! 2) (data ! 3)) r)"

text \<open>
  \<open>encode_bch\<close>.  \<open>addr\<close> is the numeric value of the data pointer, of
  which the code uses the two low bits; \<open>ecc\<close> is \<open>None\<close> for a null
  parity pointer.  The result is the control structure with its new
  \<open>ecc_buf\<close> and the parity bytes stored through the pointer.
\<close>

definition encode_bch ::
  "bch_control \<Rightarrow> nat \<Rightarrow> u8 list \<Rightarrow> u8 list option \<Rightarrow> bch_control \<times> u8 list option" where
  "encode_bch bch addr data ecc =
     (let buf0 = (case ecc of Some e \<Rightarrow> load_ecc8 bch e
                            | None \<Rightarrow> replicate (BCH_ECC_WORDS bch) 0);
          m = addr mod 4;
          mlen = (if m = 0 then 0 else if length data < 4 - m then length data else 4 - m);
          buf1 = (if m = 0 then buf0 else encode_bch_unaligned bch (take mlen data) buf0);
          data1 = drop mlen data;
          nw = length data1 div 4;
          buf2 = enc_words bch nw data1 buf1;
          data2 = drop (4 * nw) data1;
          buf3 = (if data2 = [] then buf2 else encode_bch_unaligned bch data2 buf2)
      in (bch\<lparr>ecc_buf := buf3\<rparr>, map_option (\<lambda>_. store_ecc8 bch buf3) ecc))"

text \<open>
  \<open>build_mod8_tables\<close>.  One row update of the loop over \<open>j\<close>, the loop
  over the bits of \<open>data\<close>, and the two outer loops.  \<open>deg data\<close> is at
  most 31 here.  The \<open>while (data)\<close> loop removes the leading bit of
  \<open>data\<close> in every iteration because the top bit of \<open>g[0]\<close> is set; the
  guard makes the function total on a \<open>g[0]\<close> for which the loop would not
  progress.
\<close>

function mod8_row :: "u32 list \<Rightarrow> nat \<Rightarrow> nat \<Rightarrow> nat \<Rightarrow> nat \<Rightarrow> nat \<Rightarrow> u32 list \<Rightarrow> u32 list" where
  "mod8_row g plen ecclen d base j tab =
     (if j < ecclen
      then let hi = (if d < 31 then push_bit (d + 1) (g ! j) else 0);
               lo = (if j + 1 < plen then drop_bit (31 - d) (g ! (j + 1)) else 0)
           in mod8_row g plen ecclen d base (Suc j)
                (tab[base + j := tab ! (base + j) XOR (hi OR lo)])
      else tab)"
  by pat_completeness auto
termination
  by (relation "measure (\<lambda>(g, plen, ecclen, d, base, j, tab). ecclen - j)") auto

declare mod8_row.simps [simp del]

function mod8_entry :: "u32 list \<Rightarrow> nat \<Rightarrow> nat \<Rightarrow> nat \<Rightarrow> u32 \<Rightarrow> u32 list \<Rightarrow> u32 list" where
  "mod8_entry g plen ecclen base data tab =
     (if data \<noteq> 0
      then let d = nat (deg (unat data));
               data' = data XOR drop_bit (31 - d) (g ! 0);
               tab' = mod8_row g plen ecclen d base 0 tab
           in if data' < data then mod8_entry g plen ecclen base data' tab' else tab'
      else tab)"
  by pat_completeness auto
termination
  by (relation "measure (\<lambda>(g, plen, ecclen, base, data, tab). unat data)")
    (auto simp: word_less_nat_alt)

declare mod8_entry.simps [simp del]

definition build_mod8_tables :: "bch_control \<Rightarrow> u32 list \<Rightarrow> bch_control" where
  "build_mod8_tables bch g =
     (let l = BCH_ECC_WORDS bch;
          plen = DIV_ROUND_UP (ecc_bits bch + 1) 32;
          ecclen = DIV_ROUND_UP (ecc_bits bch) 32;
          tab0 = replicate (4 * 256 * l) (0::u32)
      in bch\<lparr>mod8_tab :=
           fold (\<lambda>i. fold (\<lambda>b. mod8_entry g plen ecclen ((b * 256 + i) * l) (of_nat (i * 2 ^ (8 * b))))
                 [0..<4])
             [0..<256] tab0\<rparr>)"

section \<open>The register as a number\<close>

text \<open>Word 0 is the most significant.\<close>

definition ecc_val :: "u32 list \<Rightarrow> int" where
  "ecc_val xs = horner_sum uint (2 ^ 32) (rev xs)"

lemma bit_ecc_val:
  "bit (ecc_val xs) k \<longleftrightarrow> k div 32 < length xs \<and> bit (xs ! (length xs - 1 - k div 32)) (k mod 32)"
  using bit_horner_sum_uint_exp_iff [of "rev xs" k]
  by (auto simp: ecc_val_def rev_nth)

lemma bit_ecc_val_word:
  assumes "length xs = Suc l" and "i \<le> l" and "r < 32"
  shows "bit (ecc_val xs) (32 * i + r) \<longleftrightarrow> bit (xs ! (l - i)) r"
  using assms by (simp add: bit_ecc_val)

lemma ecc_val_nonneg [simp]: "0 \<le> ecc_val xs"
proof (induction xs rule: rev_induct)
  case (snoc w xs)
  then show ?case by (simp add: ecc_val_def)
qed (simp add: ecc_val_def)

lemma ecc_val_xor:
  assumes "length xs = length ys"
  shows "ecc_val (map2 (XOR) xs ys) = ecc_val xs XOR ecc_val ys"
proof (rule bit_eqI)
  fix k
  show "bit (ecc_val (map2 (XOR) xs ys)) k \<longleftrightarrow> bit (ecc_val xs XOR ecc_val ys) k"
    using assms by (cases "k div 32 < length xs") (auto simp: bit_ecc_val bit_xor_iff)
qed

lemma ecc_val_zero [simp]: "ecc_val (replicate n 0) = 0"
  by (rule bit_eqI) (auto simp: bit_ecc_val)

lemma ecc_val_take: "take_bit (32 * length xs) (ecc_val xs) = ecc_val xs"
  by (rule bit_eqI) (auto simp: bit_ecc_val bit_take_bit_iff)

text \<open>The row of \<open>n\<close> table words at offset \<open>p\<close>, and its number.\<close>

definition tab_row :: "u32 list \<Rightarrow> nat \<Rightarrow> nat \<Rightarrow> u32 list" where
  "tab_row tab p n = map (\<lambda>i. tab ! (p + i)) [0..<n]"

lemma tab_row_length [simp]: "length (tab_row tab p n) = n"
  by (simp add: tab_row_def)

lemma tab_row_nth [simp]: "i < n \<Longrightarrow> tab_row tab p n ! i = tab ! (p + i)"
  by (simp add: tab_row_def)

lemma enc_unaligned_row_length [simp]: "length (enc_unaligned_row tab p l i ecc) = length ecc"
proof (induction tab p l i ecc rule: enc_unaligned_row.induct)
  case (1 tab p l i ecc)
  then show ?case by (subst enc_unaligned_row.simps) simp
qed

lemma enc_unaligned_row_nth:
  assumes "length ecc = Suc l" "i \<le> l" "k \<le> l"
  shows "enc_unaligned_row tab p l i ecc ! k =
      (if k < i then ecc ! k
       else if k < l then (push_bit 8 (ecc ! k) OR drop_bit 24 (ecc ! Suc k)) XOR tab ! (p + k)
       else push_bit 8 (ecc ! k) XOR tab ! (p + k))"
  using assms
proof (induction tab p l i ecc rule: enc_unaligned_row.induct)
  case (1 tab p l i ecc)
  show ?case
  proof (cases "i < l")
    case True
    then show ?thesis
      using 1 by (subst enc_unaligned_row.simps) (auto simp: nth_list_update less_Suc_eq)
  next
    case False
    then show ?thesis
      using "1.prems" by (subst enc_unaligned_row.simps) (auto simp: nth_list_update)
  qed
qed

lemma div_mod_sub_8:
  fixes k :: nat
  assumes "8 \<le> k"
  shows "(k - 8) div 32 = (if 8 \<le> k mod 32 then k div 32 else k div 32 - 1)"
    and "(k - 8) mod 32 = (if 8 \<le> k mod 32 then k mod 32 - 8 else k mod 32 + 24)"
    and "k mod 32 < 8 \<Longrightarrow> 0 < k div 32"
proof -
  have k: "k = 32 * (k div 32) + k mod 32" by simp
  have split: "(32 * a + r) div 32 = a \<and> (32 * a + r) mod 32 = r" if "r < 32" for a r :: nat
    using that by simp
  show pos: "0 < k div 32" if "k mod 32 < 8"
    by (rule gr0I) (use k that assms in linarith)
  show "(k - 8) div 32 = (if 8 \<le> k mod 32 then k div 32 else k div 32 - 1)"
    "(k - 8) mod 32 = (if 8 \<le> k mod 32 then k mod 32 - 8 else k mod 32 + 24)"
  proof -
    have hi: "k - 8 = 32 * (k div 32) + (k mod 32 - 8)" if "8 \<le> k mod 32" using k that by linarith
    have lo: "k - 8 = 32 * (k div 32 - 1) + (k mod 32 + 24)" if "\<not> 8 \<le> k mod 32"
      using k pos that by linarith
    have bound: "k mod 32 - 8 < 32" "\<not> 8 \<le> k mod 32 \<Longrightarrow> k mod 32 + 24 < 32"
      using mod_less_divisor [of 32 k] by linarith+
    show "(k - 8) div 32 = (if 8 \<le> k mod 32 then k div 32 else k div 32 - 1)"
      "(k - 8) mod 32 = (if 8 \<le> k mod 32 then k mod 32 - 8 else k mod 32 + 24)"
      using hi lo split bound by (cases "8 \<le> k mod 32"; metis)+
  qed
qed

lemma enc_unaligned_row_val:
  assumes "length ecc = Suc l"
  shows "ecc_val (enc_unaligned_row tab p l 0 ecc) =
         take_bit (32 * Suc l) (push_bit 8 (ecc_val ecc)) XOR ecc_val (tab_row tab p (Suc l))"
proof (rule bit_eqI)
  fix k :: nat
  define a q where "a = k div 32" and "q = k mod 32"
  have q: "q < 32" by (simp add: q_def)
  show "bit (ecc_val (enc_unaligned_row tab p l 0 ecc)) k \<longleftrightarrow>
        bit (take_bit (32 * Suc l) (push_bit 8 (ecc_val ecc)) XOR ecc_val (tab_row tab p (Suc l))) k"
  proof (cases "a \<le> l")
    case True
    have kW: "k < 32 * Suc l" using True by (simp add: a_def)
    have lhs: "bit (ecc_val (enc_unaligned_row tab p l 0 ecc)) k \<longleftrightarrow>
      bit (enc_unaligned_row tab p l 0 ecc ! (l - a)) q"
      using True assms by (simp add: bit_ecc_val a_def q_def)
    have row: "bit (ecc_val (tab_row tab p (Suc l))) k \<longleftrightarrow> bit (tab ! (p + (l - a))) q"
      using True by (simp add: bit_ecc_val a_def q_def)
    have sh: "bit (push_bit 8 (ecc_val ecc)) k \<longleftrightarrow>
      (8 \<le> q \<and> bit (ecc ! (l - a)) (q - 8)) \<or> (q < 8 \<and> 0 < a \<and> bit (ecc ! (l - (a - 1))) (q + 24))"
    proof (cases "8 \<le> k")
      case True
      have "k div 32 - Suc 0 < Suc l" using \<open>a \<le> l\<close> by (simp add: a_def)
      then show ?thesis
        using True \<open>a \<le> l\<close> assms div_mod_sub_8 [OF True]
        by (cases "8 \<le> k mod 32") (auto simp: bit_push_bit_iff bit_ecc_val a_def q_def)
    next
      case False
      then have "a = 0" "q < 8" by (simp_all add: a_def q_def)
      with False show ?thesis by (simp add: bit_push_bit_iff)
    qed
    have idx: "0 < a \<Longrightarrow> Suc (l - a) = l - (a - 1)" using True by simp
    have "bit (enc_unaligned_row tab p l 0 ecc ! (l - a)) q \<longleftrightarrow>
      ((8 \<le> q \<and> bit (ecc ! (l - a)) (q - 8)) \<or> (q < 8 \<and> 0 < a \<and> bit (ecc ! (l - (a - 1))) (q + 24)))
        \<noteq> bit (tab ! (p + (l - a))) q"
      using True q enc_unaligned_row_nth [OF assms, of 0 "l - a" tab p] idx
      by (cases "a = 0")
        (auto simp: bit_xor_iff bit_or_iff bit_push_bit_iff bit_drop_bit_eq add.commute dest: bit_imp_le_length)
    then show ?thesis
      using kW by (simp add: lhs row sh bit_xor_iff bit_take_bit_iff)
  next
    case False
    then show ?thesis
      using assms
      by (auto simp: bit_xor_iff bit_ecc_val bit_take_bit_iff a_def)
  qed
qed

lemma enc_word_row_length [simp]: "length (enc_word_row tab p0 p1 p2 p3 l i r) = length r"
proof (induction tab p0 p1 p2 p3 l i r rule: enc_word_row.induct)
  case (1 tab p0 p1 p2 p3 l i r)
  then show ?case by (subst enc_word_row.simps) simp
qed

lemma enc_word_row_nth:
  assumes "length r = Suc l" "i \<le> l" "k \<le> l"
  shows "enc_word_row tab p0 p1 p2 p3 l i r ! k =
      (if k < i then r ! k
       else (if k < l then r ! Suc k else 0) XOR
            (tab ! (p0 + k) XOR tab ! (p1 + k) XOR tab ! (p2 + k) XOR tab ! (p3 + k)))"
  using assms
proof (induction tab p0 p1 p2 p3 l i r rule: enc_word_row.induct)
  case (1 tab p0 p1 p2 p3 l i r)
  show ?case
  proof (cases "i < l")
    case True
    then show ?thesis
      using 1 by (subst enc_word_row.simps) (auto simp: nth_list_update less_Suc_eq xor.assoc)
  next
    case False
    then show ?thesis
      using "1.prems" by (subst enc_word_row.simps) (auto simp: nth_list_update xor.assoc)
  qed
qed

lemma enc_word_row_val:
  assumes "length r = Suc l"
  shows "ecc_val (enc_word_row tab p0 p1 p2 p3 l 0 r) =
         take_bit (32 * Suc l) (push_bit 32 (ecc_val r)) XOR
         (ecc_val (tab_row tab p0 (Suc l)) XOR ecc_val (tab_row tab p1 (Suc l)) XOR
          ecc_val (tab_row tab p2 (Suc l)) XOR ecc_val (tab_row tab p3 (Suc l)))"
proof (rule bit_eqI)
  fix k :: nat
  define a q where "a = k div 32" and "q = k mod 32"
  have sub: "32 \<le> k \<Longrightarrow> (k - 32) div 32 = a - 1 \<and> (k - 32) mod 32 = q \<and> 0 < a"
    by (simp add: a_def q_def div_if mod_if)
  show "bit (ecc_val (enc_word_row tab p0 p1 p2 p3 l 0 r)) k \<longleftrightarrow> bit (take_bit (32 * Suc l) (push_bit 32 (ecc_val r)) XOR
         (ecc_val (tab_row tab p0 (Suc l)) XOR ecc_val (tab_row tab p1 (Suc l)) XOR
          ecc_val (tab_row tab p2 (Suc l)) XOR ecc_val (tab_row tab p3 (Suc l)))) k"
  proof (cases "a \<le> l")
    case True
    have kW: "k < 32 * Suc l" using True by (simp add: a_def)
    have lhs: "bit (ecc_val (enc_word_row tab p0 p1 p2 p3 l 0 r)) k \<longleftrightarrow>
      bit (enc_word_row tab p0 p1 p2 p3 l 0 r ! (l - a)) q"
      using True assms by (simp add: bit_ecc_val a_def q_def)
    have row: "bit (ecc_val (tab_row tab p (Suc l))) k \<longleftrightarrow> bit (tab ! (p + (l - a))) q" for p
      using True by (simp add: bit_ecc_val a_def q_def)
    have sh: "bit (push_bit 32 (ecc_val r)) k \<longleftrightarrow> (0 < a \<and> bit (r ! (l - (a - 1))) q)"
    proof (cases "32 \<le> k")
      case True
      then show ?thesis using sub \<open>a \<le> l\<close> assms by (auto simp: bit_push_bit_iff bit_ecc_val)
    next
      case False
      then show ?thesis by (simp add: bit_push_bit_iff a_def)
    qed
    have idx: "0 < a \<Longrightarrow> Suc (l - a) = l - (a - 1)" using True by simp
    show ?thesis
      using True kW assms enc_word_row_nth [OF assms, of 0 "l - a" tab p0 p1 p2 p3] idx
      by (auto simp: lhs row sh bit_xor_iff bit_take_bit_iff)
  next
    case False
    then show ?thesis
      using assms by (auto simp: bit_xor_iff bit_ecc_val bit_take_bit_iff a_def)
  qed
qed

section \<open>The shift register specification\<close>

text \<open>
  \<open>lfsr W G\<close> multiplies the \<open>W\<close>-bit register by the indeterminate modulo the
  generator polynomial, whose coefficients below the leading one are \<open>G\<close>, left
  justified.  \<open>lfsr_bytes\<close> feeds message bytes, most significant bit first.
\<close>

definition lfsr :: "nat \<Rightarrow> int \<Rightarrow> int \<Rightarrow> int" where
  "lfsr W G V = take_bit W (2 * V) XOR (if bit V (W - 1) then G else 0)"

definition lfsr_bit :: "nat \<Rightarrow> int \<Rightarrow> int \<Rightarrow> bool \<Rightarrow> int" where
  "lfsr_bit W G V b = lfsr W G (V XOR (if b then 2 ^ (W - 1) else 0))"

fun lfsr_bits :: "nat \<Rightarrow> int \<Rightarrow> int \<Rightarrow> bool list \<Rightarrow> int" where
  "lfsr_bits W G V [] = V"
| "lfsr_bits W G V (b # bs) = lfsr_bits W G (lfsr_bit W G V b) bs"

definition byte_bits :: "u8 \<Rightarrow> bool list" where
  "byte_bits d = map (bit d) [7, 6, 5, 4, 3, 2, 1, 0]"

definition message_bits :: "u8 list \<Rightarrow> bool list" where
  "message_bits data = concat (map byte_bits data)"

lemma lfsr_xor: "lfsr W G (U XOR V) = lfsr W G U XOR lfsr W G V"
proof -
  have "2 * (U XOR V) = (2 * U) XOR (2 * V :: int)"
    by (metis push_bit_eq_mult push_bit_xor power_one_right mult.commute)
  then show ?thesis
    by (auto simp: lfsr_def take_bit_xor bit_xor_iff xor_simps)
qed

lemma lfsr_0 [simp]: "lfsr W G 0 = 0"
  by (simp add: lfsr_def)

lemma lfsr_pow_xor: "(lfsr W G ^^ k) (U XOR V) = (lfsr W G ^^ k) U XOR (lfsr W G ^^ k) V"
  by (induction k) (simp_all add: lfsr_xor)

lemma lfsr_pow_0 [simp]: "(lfsr W G ^^ k) 0 = 0"
  by (induction k) simp_all

text \<open>A register whose top \<open>k\<close> bits are clear is just shifted.\<close>

lemma lfsr_pow_low:
  assumes "take_bit (W - k) V = V" and "k \<le> W"
  shows "(lfsr W G ^^ k) V = push_bit k V"
  using assms
proof (induction k)
  case (Suc k)
  have "take_bit (W - k) (take_bit (W - Suc k) V) = take_bit (W - Suc k) V"
    by (simp add: min_def)
  then have "take_bit (W - k) V = V" using Suc.prems(1) by simp
  then have ih: "(lfsr W G ^^ k) V = push_bit k V" using Suc by simp
  have "\<not> bit (take_bit (W - Suc k) V) (W - Suc k)" by (simp add: bit_take_bit_iff)
  then have "\<not> bit V (W - Suc k)" using Suc.prems(1) by simp
  then have "\<not> bit (push_bit k V) (W - 1)"
    using Suc.prems(2) by (simp add: bit_push_bit_iff)
  moreover have "take_bit W (2 * push_bit k V) = push_bit (Suc k) V"
  proof -
    have "take_bit W (push_bit (Suc k) V) = push_bit (Suc k) (take_bit (W - Suc k) V)"
      by (simp only: take_bit_push_bit)
    then show ?thesis using Suc.prems(1) by (simp add: push_bit_double ac_simps)
  qed
  ultimately have "lfsr W G (push_bit k V) = push_bit (Suc k) V" by (simp add: lfsr_def)
  with ih show ?case by simp
qed simp

section \<open>Bytes and words of the message\<close>

definition msb_val :: "bool list \<Rightarrow> int" where
  "msb_val bs = horner_sum of_bool 2 (rev bs)"

lemma bit_msb_val: "bit (msb_val bs) k \<longleftrightarrow> k < length bs \<and> bs ! (length bs - 1 - k)"
  by (auto simp: msb_val_def bit_horner_sum_bit_iff rev_nth)

lemma msb_val_take: "length bs \<le> k \<Longrightarrow> take_bit k (msb_val bs) = msb_val bs"
  by (rule bit_eqI) (auto simp: bit_take_bit_iff bit_msb_val)

lemma msb_val_Nil [simp]: "msb_val [] = 0"
  by (simp add: msb_val_def)

lemma msb_val_Cons:
  "msb_val (b # bs) = (if b then 2 ^ length bs else 0) XOR msb_val bs"
proof (rule bit_eqI)
  fix k
  show "bit (msb_val (b # bs)) k \<longleftrightarrow> bit ((if b then 2 ^ length bs else 0) XOR msb_val bs) k"
    by (cases k "length bs" rule: linorder_cases)
      (auto simp: bit_msb_val bit_xor_iff bit_exp_iff nth_Cons')
qed

text \<open>Feeding bits one by one equals adding them at the top and shifting.\<close>

lemma lfsr_bits_pow:
  assumes "length bs \<le> W"
  shows "lfsr_bits W G V bs =
         (lfsr W G ^^ length bs) (V XOR push_bit (W - length bs) (msb_val bs))"
  using assms
proof (induction bs arbitrary: V)
  case (Cons b bs)
  let ?k = "length bs" and ?t = "if b then 2 ^ (W - 1) else (0::int)"
  let ?p = "push_bit (W - Suc ?k) (msb_val bs)"
  have "take_bit (W - 1) ?p = ?p"
    using Cons.prems by (simp add: take_bit_push_bit msb_val_take)
  then have "lfsr W G ?p = push_bit 1 ?p"
    using lfsr_pow_low [of W 1 ?p G] Cons.prems by simp
  also have "\<dots> = push_bit (W - ?k) (msb_val bs)"
    using Cons.prems by (simp add: Suc_diff_Suc del: push_bit_Suc)
  finally have shift: "lfsr W G ?p = push_bit (W - ?k) (msb_val bs)" .
  have "push_bit (W - Suc ?k) (2 ^ ?k :: int) = 2 ^ (W - 1)"
    using Cons.prems by (simp add: push_bit_eq_mult flip: power_add)
  then have top: "push_bit (W - Suc ?k) (msb_val (b # bs)) = ?t XOR ?p"
    by (simp add: msb_val_Cons push_bit_xor)
  have "lfsr_bits W G V (b # bs) =
        (lfsr W G ^^ ?k) (lfsr W G (V XOR ?t) XOR push_bit (W - ?k) (msb_val bs))"
    using Cons by (simp add: lfsr_bit_def)
  also have "\<dots> = (lfsr W G ^^ Suc ?k) (V XOR (?t XOR ?p))"
    by (simp only: shift [symmetric] lfsr_xor [symmetric] xor.assoc funpow_Suc_right o_apply)
  finally show ?case by (simp only: top list.size add_Suc_right add_0_right)
qed simp

lemma lfsr_bits_append: "lfsr_bits W G V (bs @ cs) = lfsr_bits W G (lfsr_bits W G V bs) cs"
  by (induction bs arbitrary: V) simp_all

lemma length_byte_bits [simp]: "length (byte_bits d) = 8"
  by (simp add: byte_bits_def)

lemma msb_val_byte: "msb_val (byte_bits d) = uint d"
proof (rule bit_eqI)
  fix k
  have "k < 8 \<Longrightarrow> byte_bits d ! (7 - k) = bit d k"
    by (auto simp: byte_bits_def less_Suc_eq numeral_eq_Suc)
  then show "bit (msb_val (byte_bits d)) k \<longleftrightarrow> bit (uint d) k"
    by (auto simp: bit_msb_val bit_uint_iff dest: bit_imp_le_length)
qed

lemma msb_val_append:
  "msb_val (bs @ cs) = push_bit (length cs) (msb_val bs) XOR msb_val cs"
proof (rule bit_eqI)
  fix k
  show "bit (msb_val (bs @ cs)) k \<longleftrightarrow> bit (push_bit (length cs) (msb_val bs) XOR msb_val cs) k"
    by (auto simp: bit_msb_val bit_xor_iff bit_push_bit_iff nth_append)
qed

lemma not_bit_u8: "8 \<le> n \<Longrightarrow> \<not> bit (x :: u8) n"
  by (auto dest: bit_imp_le_length)

lemma uint_be32:
  "uint (be32 a b c d) =
     push_bit 24 (uint a) XOR (push_bit 16 (uint b) XOR (push_bit 8 (uint c) XOR uint d))"
proof (rule bit_eqI)
  fix k :: nat
  consider "k < 8" | "8 \<le> k" "k < 16" | "16 \<le> k" "k < 24" | "24 \<le> k" "k < 32" | "32 \<le> k"
    by linarith
  then show "bit (uint (be32 a b c d)) k \<longleftrightarrow>
    bit (push_bit 24 (uint a) XOR (push_bit 16 (uint b) XOR (push_bit 8 (uint c) XOR uint d))) k"
    by cases (simp_all add: be32_def bit_uint_iff bit_or_iff bit_xor_iff bit_push_bit_iff
        bit_unsigned_iff not_bit_u8, linarith+)
qed

lemma msb_val_word: "msb_val (message_bits [a, b, c, d]) = uint (be32 a b c d)"
  by (simp add: message_bits_def msb_val_append msb_val_byte uint_be32 push_bit_xor xor_simps)

section \<open>One table step is a run of the register\<close>

text \<open>
  What \<open>build_mod8_tables\<close> leaves in \<open>mod8_tab\<close>: row \<open>y\<close> of table
  \<open>b\<close> is the register after \<open>y\<close> and \<open>b\<close> zero bytes.
\<close>

definition mod8_ok :: "int \<Rightarrow> bch_control \<Rightarrow> bool" where
  "mod8_ok G bch \<longleftrightarrow>
     0 < BCH_ECC_WORDS bch \<and>
     (\<forall>b<4. \<forall>y<256.
        ecc_val (tab_row (mod8_tab bch) ((b * 256 + y) * BCH_ECC_WORDS bch) (BCH_ECC_WORDS bch)) =
        (lfsr (32 * BCH_ECC_WORDS bch) G ^^ (8 * Suc b)) (push_bit (32 * BCH_ECC_WORDS bch - 8) (int y)))"

lemma ecc_val_top_bits:
  assumes "length ecc = Suc l" and "n \<le> 32"
  shows "drop_bit (32 * Suc l - n) (ecc_val ecc) = uint (drop_bit (32 - n) (ecc ! 0))"
proof (rule bit_eqI)
  fix k :: nat
  define j where "j = 32 - n + k"
  have e: "32 * Suc l - n + k = 32 * l + j" using assms(2) by (simp add: j_def)
  have "bit (drop_bit (32 * Suc l - n) (ecc_val ecc)) k \<longleftrightarrow> bit (ecc_val ecc) (32 * l + j)"
    by (simp only: bit_drop_bit_eq o_apply e)
  also have "\<dots> \<longleftrightarrow> bit (ecc ! 0) j"
  proof (cases "j < 32")
    case True
    then show ?thesis using assms(1) by (simp add: bit_ecc_val)
  next
    case False
    then have "Suc l \<le> (32 * l + j) div 32" by (simp add: less_eq_div_iff_mult_less_eq)
    with assms(1) False show ?thesis by (auto simp: bit_ecc_val dest: bit_imp_le_length)
  qed
  also have "\<dots> \<longleftrightarrow> bit (uint (drop_bit (32 - n) (ecc ! 0))) k"
    by (auto simp: bit_uint_iff bit_drop_bit_eq j_def dest: bit_imp_le_length)
  finally show "bit (drop_bit (32 * Suc l - n) (ecc_val ecc)) k \<longleftrightarrow> bit (uint (drop_bit (32 - n) (ecc ! 0))) k" .
qed

text \<open>A register splits into its top \<open>n\<close> bits and the rest.\<close>

lemma split_top:
  assumes "n \<le> W" and "take_bit W V = V"
  shows "V = take_bit (W - n) V XOR push_bit (W - n) (drop_bit (W - n) (V :: int))"
  by (rule bit_eqI) (auto simp: bit_xor_iff bit_take_bit_iff bit_push_bit_iff bit_drop_bit_eq)

lemma lfsr_pow_split:
  assumes "n \<le> W" and V: "take_bit W V = V"
  shows "(lfsr W G ^^ n) (V XOR push_bit (W - n) x) =
         take_bit W (push_bit n V) XOR (lfsr W G ^^ n) (push_bit (W - n) (drop_bit (W - n) V XOR x))"
proof -
  let ?lo = "take_bit (W - n) V"
  have low: "(lfsr W G ^^ n) ?lo = push_bit n ?lo"
    using assms(1) by (intro lfsr_pow_low) simp_all
  have "take_bit W (push_bit n V) = push_bit n ?lo" using assms(1) by (simp add: take_bit_push_bit)
  moreover have "V XOR push_bit (W - n) x = ?lo XOR push_bit (W - n) (drop_bit (W - n) V XOR x)"
    using split_top [OF assms] by (metis push_bit_xor xor.assoc)
  ultimately show ?thesis by (simp only: lfsr_pow_xor low)
qed

lemma lfsr_pow_add: "(lfsr W G ^^ i) ((lfsr W G ^^ j) V) = (lfsr W G ^^ (i + j)) V"
  by (simp add: funpow_add)

section \<open>The encoder refines the shift register\<close>

lemma bit_and_ff: "bit (x AND 0xff :: u32) k \<longleftrightarrow> k < 8 \<and> bit x k"
proof -
  have "(0xff :: u32) = mask 8" by (simp add: mask_eq_exp_minus_1)
  then have "x AND 0xff = take_bit 8 x" by (simp only: take_bit_eq_mask)
  then show ?thesis by (simp add: bit_take_bit_iff)
qed

lemma byte_index:
  "int (unat ((drop_bit 24 w XOR ucast d) AND 0xff)) = uint (drop_bit 24 (w :: u32)) XOR uint (d :: u8)"
proof -
  have "uint ((drop_bit 24 w XOR ucast d) AND 0xff) = uint (drop_bit 24 w) XOR uint d"
  proof (rule bit_eqI)
    fix k
    show "bit (uint ((drop_bit 24 w XOR ucast d) AND 0xff)) k \<longleftrightarrow> bit (uint (drop_bit 24 w) XOR uint d) k"
      by (auto simp: bit_uint_iff bit_and_ff bit_xor_iff bit_drop_bit_eq bit_unsigned_iff
          dest: bit_imp_le_length)
  qed
  then show ?thesis by simp
qed

lemma byte_index_less: "unat (x AND 0xff :: u32) < 256"
  using word_and_le1 [of x "0xff"] by (simp add: word_le_nat_alt)

text \<open>Processing one byte is eight steps of the register.\<close>

lemma encode_byte_val:
  assumes ok: "mod8_ok G bch" and len: "length ecc = BCH_ECC_WORDS bch"
  shows "ecc_val (encode_bch_unaligned bch [d] ecc) =
         lfsr_bits (32 * BCH_ECC_WORDS bch) G (ecc_val ecc) (byte_bits d)"
proof -
  obtain l where l: "BCH_ECC_WORDS bch = Suc l" using ok by (cases "BCH_ECC_WORDS bch") (auto simp: mod8_ok_def)
  define W where "W = 32 * BCH_ECC_WORDS bch"
  define y where "y = unat ((drop_bit 24 (ecc ! 0) XOR ucast d) AND 0xff)"
  have W: "W = 32 * Suc l" "8 \<le> W" by (simp_all add: W_def l)
  have y: "y < 256" unfolding y_def by (rule byte_index_less)
  have len': "length ecc = Suc l" using len l by simp
  have idx: "int y = drop_bit (W - 8) (ecc_val ecc) XOR uint d"
    using ecc_val_top_bits [OF len', of 8] byte_index [of "ecc ! 0" d] by (simp add: W y_def)
  have tab: "ecc_val (tab_row (mod8_tab bch) (Suc l * y) (Suc l)) = (lfsr W G ^^ 8) (push_bit (W - 8) (int y))"
    using ok [unfolded mod8_ok_def, THEN conjunct2, rule_format, of 0 y] y by (simp add: l W_def mult.commute)
  have "ecc_val (encode_bch_unaligned bch [d] ecc) =
        take_bit W (push_bit 8 (ecc_val ecc)) XOR (lfsr W G ^^ 8) (push_bit (W - 8) (int y))"
    using enc_unaligned_row_val [OF len', of "mod8_tab bch" "Suc l * y"] tab
    by (simp add: Let_def l W(1) y_def)
  also have "\<dots> = (lfsr W G ^^ 8) (ecc_val ecc XOR push_bit (W - 8) (uint d))"
    using lfsr_pow_split [OF W(2), of "ecc_val ecc" G "uint d"] ecc_val_take [of ecc]
    by (simp add: idx W len')
  also have "\<dots> = lfsr_bits W G (ecc_val ecc) (byte_bits d)"
    using lfsr_bits_pow [of "byte_bits d" W G "ecc_val ecc"] W(2) by (simp add: msb_val_byte)
  finally show ?thesis by (simp add: W_def)
qed

lemma encode_bch_unaligned_length [simp]:
  "length (encode_bch_unaligned bch data ecc) = length ecc"
  by (induction data arbitrary: ecc) (simp_all add: Let_def)

lemma encode_bch_unaligned_val:
  assumes ok: "mod8_ok G bch" and "length ecc = BCH_ECC_WORDS bch"
  shows "ecc_val (encode_bch_unaligned bch data ecc) =
         lfsr_bits (32 * BCH_ECC_WORDS bch) G (ecc_val ecc) (message_bits data)"
  using assms(2)
proof (induction data arbitrary: ecc)
  case (Cons d data)
  let ?ecc = "encode_bch_unaligned bch [d] ecc"
  have "encode_bch_unaligned bch (d # data) ecc = encode_bch_unaligned bch data ?ecc"
    by (simp add: Let_def)
  moreover have "length ?ecc = BCH_ECC_WORDS bch" using Cons.prems by (simp add: Let_def)
  ultimately show ?case
    using Cons.IH [of ?ecc] encode_byte_val [OF ok Cons.prems, of d]
    by (simp only: message_bits_def list.map concat.simps lfsr_bits_append)
qed (simp add: message_bits_def)

lemma lfsr_pow_table:
  assumes "8 * Suc b \<le> n" and "n \<le> W" and "int y < 256"
  shows "(lfsr W G ^^ n) (push_bit (W - n) (push_bit (8 * b) (int y))) =
         (lfsr W G ^^ (8 * Suc b)) (push_bit (W - 8) (int y))"
proof -
  let ?V = "push_bit (W - n + 8 * b) (int y)" and ?k = "n - 8 * Suc b"
  have e: "W - n + 8 * b + 8 = W - ?k" "W - n + 8 * b + ?k = W - 8" "n = 8 * Suc b + ?k"
    using assms(1,2) by simp_all
  have "take_bit 8 (int y) = int y" using assms(3) by (simp add: take_bit_int_eq_self_iff)
  then have "take_bit (p + 8) (push_bit p (int y)) = push_bit p (int y)" for p
    by (simp add: take_bit_push_bit)
  then have "take_bit (W - ?k) ?V = ?V" by (simp only: e(1) [symmetric])
  then have "(lfsr W G ^^ ?k) ?V = push_bit ?k ?V"
    using assms(1,2) by (intro lfsr_pow_low) linarith+
  then have "(lfsr W G ^^ (8 * Suc b)) ((lfsr W G ^^ ?k) ?V) = (lfsr W G ^^ (8 * Suc b)) (push_bit (W - 8) (int y))"
    using e(2) by (simp only: push_bit_push_bit add.commute)
  then show ?thesis
    using e(3) by (simp only: lfsr_pow_add push_bit_push_bit)
qed

text \<open>A word is the exclusive or of its shifted bytes.\<close>

definition word_byte :: "nat \<Rightarrow> u32 \<Rightarrow> nat" where
  "word_byte b w = unat (drop_bit (8 * b) w AND 0xff)"

lemma bit_word_byte: "bit (int (word_byte b w)) k \<longleftrightarrow> k < 8 \<and> bit w (8 * b + k)"
  by (auto simp: word_byte_def bit_uint_iff bit_and_ff bit_drop_bit_eq dest: bit_imp_le_length)

lemma uint_word_bytes:
  "uint w = push_bit 0 (int (word_byte 0 w)) XOR push_bit 8 (int (word_byte 1 w)) XOR
            push_bit 16 (int (word_byte 2 w)) XOR push_bit 24 (int (word_byte 3 w))"
proof (rule bit_eqI)
  fix k :: nat
  have none: "32 \<le> k \<Longrightarrow> \<not> bit w k" by (auto dest: bit_imp_le_length)
  consider "k < 8" | "8 \<le> k" "k < 16" | "16 \<le> k" "k < 24" | "24 \<le> k" "k < 32" | "32 \<le> k"
    by linarith
  then show "bit (uint w) k \<longleftrightarrow> bit (push_bit 0 (int (word_byte 0 w)) XOR push_bit 8 (int (word_byte 1 w)) XOR
            push_bit 16 (int (word_byte 2 w)) XOR push_bit 24 (int (word_byte 3 w))) k"
    by cases (simp_all add: bit_uint_iff bit_xor_iff bit_push_bit_iff bit_word_byte none, auto)
qed

text \<open>Processing one word is 32 steps of the register.\<close>

lemma enc_word_step_val:
  assumes ok: "mod8_ok G bch" and len: "length r = BCH_ECC_WORDS bch"
  shows "ecc_val (enc_word_step bch be r) =
         (lfsr (32 * BCH_ECC_WORDS bch) G ^^ 32)
           (ecc_val r XOR push_bit (32 * BCH_ECC_WORDS bch - 32) (uint be))"
proof -
  obtain l where l: "BCH_ECC_WORDS bch = Suc l" using ok by (cases "BCH_ECC_WORDS bch") (auto simp: mod8_ok_def)
  define W where "W = 32 * BCH_ECC_WORDS bch"
  define w where "w = r ! 0 XOR be"
  have W: "W = 32 * Suc l" "32 \<le> W" by (simp_all add: W_def l)
  have len': "length r = Suc l" using len l by simp
  have small: "word_byte b w < 256" for b by (simp add: word_byte_def byte_index_less)
  define T where "T b = (lfsr W G ^^ (8 * Suc b)) (push_bit (W - 8) (int (word_byte b w)))" for b
  have tab: "ecc_val (tab_row (mod8_tab bch) (Suc l * (b * 256 + word_byte b w)) (Suc l)) = T b" if "b < 4" for b
    using ok [unfolded mod8_ok_def, THEN conjunct2, rule_format, OF that small, of b]
    by (simp add: l W_def T_def mult.commute)
  have T: "T b = (lfsr W G ^^ 32) (push_bit (W - 32) (push_bit (8 * b) (int (word_byte b w))))" if "b < 4" for b
    using lfsr_pow_table [of b 32 W "word_byte b w" G] that W(2) small [of b] by (simp add: T_def)
  have off: "Suc l * word_byte 0 w = Suc l * (0 * 256 + word_byte 0 w)"
    "256 * Suc l + Suc l * word_byte 1 w = Suc l * (1 * 256 + word_byte 1 w)"
    "256 * Suc l + 256 * Suc l + Suc l * word_byte 2 w = Suc l * (2 * 256 + word_byte 2 w)"
    "256 * Suc l + 256 * Suc l + 256 * Suc l + Suc l * word_byte 3 w = Suc l * (3 * 256 + word_byte 3 w)"
    by (simp_all add: algebra_simps)
  have "enc_word_step bch be r = enc_word_row (mod8_tab bch) (Suc l * word_byte 0 w) (256 * Suc l + Suc l * word_byte 1 w)
      (256 * Suc l + 256 * Suc l + Suc l * word_byte 2 w)
      (256 * Suc l + 256 * Suc l + 256 * Suc l + Suc l * word_byte 3 w) l 0 r"
    by (simp add: enc_word_step_def Let_def l w_def word_byte_def)
  then have "ecc_val (enc_word_step bch be r) =
        take_bit W (push_bit 32 (ecc_val r)) XOR (T 0 XOR T 1 XOR T 2 XOR T 3)"
    using enc_word_row_val [OF len'] unfolding off by (simp only: tab W(1))
  also have "T 0 XOR T 1 XOR T 2 XOR T 3 = (lfsr W G ^^ 32) (push_bit (W - 32) (uint w))"
    by (simp add: T lfsr_pow_xor [symmetric] push_bit_xor [symmetric] uint_word_bytes [of w])
  also have "uint w = drop_bit (W - 32) (ecc_val r) XOR uint be"
    using ecc_val_top_bits [OF len', of 32] by (simp add: W w_def unsigned_xor_eq)
  also have "take_bit W (push_bit 32 (ecc_val r)) XOR
      (lfsr W G ^^ 32) (push_bit (W - 32) (drop_bit (W - 32) (ecc_val r) XOR uint be)) =
      (lfsr W G ^^ 32) (ecc_val r XOR push_bit (W - 32) (uint be))"
    using lfsr_pow_split [OF W(2), of "ecc_val r" G "uint be"] ecc_val_take [of r] by (simp add: W len')
  finally show ?thesis by (simp add: W_def)
qed

lemma enc_word_step_length [simp]: "length (enc_word_step bch be r) = length r"
  by (simp add: enc_word_step_def Let_def)

lemma enc_words_length [simp]: "length (enc_words bch k data r) = length r"
  by (induction k arbitrary: data r) simp_all

lemma take_4_Cons: "take (4 + n) (a # b # c # d # rest) = a # b # c # d # take n rest"
  by (simp add: numeral_eq_Suc)

lemma enc_words_val:
  assumes ok: "mod8_ok G bch" and "length r = BCH_ECC_WORDS bch" and "4 * k \<le> length data"
  shows "ecc_val (enc_words bch k data r) =
         lfsr_bits (32 * BCH_ECC_WORDS bch) G (ecc_val r) (message_bits (take (4 * k) data))"
  using assms(2,3)
proof (induction k arbitrary: data r)
  case (Suc k)
  let ?W = "32 * BCH_ECC_WORDS bch"
  from Suc.prems(2) obtain a b c d rest where data: "data = a # b # c # d # rest"
    by (auto simp: Suc_le_length_iff numeral_eq_Suc)
  have W: "32 \<le> ?W" using ok by (simp add: mod8_ok_def)
  let ?r = "enc_word_step bch (be32 a b c d) r"
  have len: "length (message_bits [a, b, c, d]) = 32" by (simp add: message_bits_def)
  have "ecc_val ?r = lfsr_bits ?W G (ecc_val r) (message_bits [a, b, c, d])"
    using enc_word_step_val [OF ok Suc.prems(1)] lfsr_bits_pow [of "message_bits [a, b, c, d]" ?W G "ecc_val r"] W
    by (simp only: len msb_val_word)
  then show ?case
    using Suc.IH [of ?r rest] Suc.prems
    by (simp add: data message_bits_def lfsr_bits_append take_4_Cons)
qed (simp add: message_bits_def)

lemma load_full_words_length [simp]: "length (load_full_words k src) = k"
  by (induction k arbitrary: src) simp_all

lemma load_ecc8_length: "0 < BCH_ECC_WORDS bch \<Longrightarrow> length (load_ecc8 bch src) = BCH_ECC_WORDS bch"
  by (simp add: load_ecc8_def Let_def)

lemma message_bits_append: "message_bits (xs @ ys) = message_bits xs @ message_bits ys"
  by (simp add: message_bits_def)

text \<open>The contents of \<open>ecc_buf\<close> before the data are processed.\<close>

definition ecc_start :: "bch_control \<Rightarrow> u8 list option \<Rightarrow> u32 list" where
  "ecc_start bch ecc = (case ecc of Some e \<Rightarrow> load_ecc8 bch e | None \<Rightarrow> replicate (BCH_ECC_WORDS bch) 0)"

lemma encode_bch_buf:
  assumes ok: "mod8_ok G bch"
  shows "ecc_val (ecc_buf (fst (encode_bch bch addr data ecc))) =
         lfsr_bits (32 * BCH_ECC_WORDS bch) G (ecc_val (ecc_start bch ecc)) (message_bits data)"
proof -
  let ?W = "32 * BCH_ECC_WORDS bch"
  define m where "m = addr mod 4"
  define mlen where "mlen = (if m = 0 then 0 else if length data < 4 - m then length data else 4 - m)"
  define buf1 where "buf1 = (if m = 0 then ecc_start bch ecc else encode_bch_unaligned bch (take mlen data) (ecc_start bch ecc))"
  define data1 where "data1 = drop mlen data"
  define k where "k = length data1 div 4"
  define buf2 where "buf2 = enc_words bch k data1 buf1"
  define buf3 where "buf3 = (if drop (4 * k) data1 = [] then buf2 else encode_bch_unaligned bch (drop (4 * k) data1) buf2)"
  have eq: "ecc_buf (fst (encode_bch bch addr data ecc)) = buf3"
    unfolding encode_bch_def Let_def buf3_def buf2_def k_def data1_def buf1_def mlen_def m_def ecc_start_def
    by simp
  have len0: "length (ecc_start bch ecc) = BCH_ECC_WORDS bch"
    using ok by (simp add: ecc_start_def load_ecc8_length mod8_ok_def split: option.split)
  have len1: "length buf1 = BCH_ECC_WORDS bch" by (simp add: buf1_def len0)
  have len2: "length buf2 = BCH_ECC_WORDS bch" by (simp add: buf2_def len1)
  have v1: "ecc_val buf1 = lfsr_bits ?W G (ecc_val (ecc_start bch ecc)) (message_bits (take mlen data))"
    using encode_bch_unaligned_val [OF ok len0] by (simp add: buf1_def mlen_def message_bits_def)
  have v2: "ecc_val buf2 = lfsr_bits ?W G (ecc_val buf1) (message_bits (take (4 * k) data1))"
    using enc_words_val [OF ok len1, of k data1] by (simp add: buf2_def k_def)
  have v3: "ecc_val buf3 = lfsr_bits ?W G (ecc_val buf2) (message_bits (drop (4 * k) data1))"
    using encode_bch_unaligned_val [OF ok len2] by (simp add: buf3_def message_bits_def)
  have "data = take mlen data @ take (4 * k) data1 @ drop (4 * k) data1"
    by (simp add: data1_def del: drop_drop)
  then have "message_bits data = message_bits (take mlen data) @ message_bits (take (4 * k) data1) @ message_bits (drop (4 * k) data1)"
    by (metis message_bits_append)
  then show ?thesis by (simp add: eq v1 v2 v3 lfsr_bits_append)
qed

section \<open>Parity bytes: loading and storing\<close>

lemma bit_be32_if:
  "bit (be32 a b c d) k \<longleftrightarrow>
     (if k < 8 then bit d k else if k < 16 then bit c (k - 8) else if k < 24 then bit b (k - 16)
      else k < 32 \<and> bit a (k - 24))"
proof -
  consider "k < 8" | "8 \<le> k" "k < 16" | "16 \<le> k" "k < 24" | "24 \<le> k" "k < 32" | "32 \<le> k"
    by linarith
  then show ?thesis
    by cases (auto simp: be32_def bit_or_iff bit_push_bit_iff bit_unsigned_iff not_bit_u8)
qed

lemma word_bytes_be32: "word_bytes (be32 a b c d) = [a, b, c, d]"
proof -
  have "ucast (drop_bit 24 (be32 a b c d)) = a" "ucast (drop_bit 16 (be32 a b c d) AND 0xff) = b"
    "ucast (drop_bit 8 (be32 a b c d) AND 0xff) = c" "ucast (be32 a b c d AND 0xff) = d"
    by (rule bit_word_eqI; simp add: bit_unsigned_iff bit_and_ff bit_drop_bit_eq bit_be32_if)+
  then show ?thesis by (simp add: word_bytes_def)
qed

lemma concat_load_full_words:
  "4 * k \<le> length src \<Longrightarrow> concat (map word_bytes (load_full_words k src)) = take (4 * k) src"
proof (induction k arbitrary: src)
  case (Suc k)
  then obtain a b c d rest where "src = a # b # c # d # rest"
    by (auto simp: Suc_le_length_iff numeral_eq_Suc)
  with Suc show ?case by (simp add: word_bytes_be32 take_4_Cons)
qed simp

lemma ecc_sizes:
  assumes "0 < GF_M bch * GF_T bch"
  shows "0 < BCH_ECC_WORDS bch"
    and "4 * (BCH_ECC_WORDS bch - 1) < BCH_ECC_BYTES bch"
    and "BCH_ECC_BYTES bch \<le> 4 * BCH_ECC_WORDS bch"
proof -
  define k where "k = GF_M bch * GF_T bch"
  have w: "BCH_ECC_WORDS bch = (k + 31) div 32" "BCH_ECC_BYTES bch = (k + 7) div 8"
    by (simp_all add: BCH_ECC_WORDS_def BCH_ECC_BYTES_def DIV_ROUND_UP_def k_def)
  show "0 < BCH_ECC_WORDS bch" "4 * (BCH_ECC_WORDS bch - 1) < BCH_ECC_BYTES bch"
    "BCH_ECC_BYTES bch \<le> 4 * BCH_ECC_WORDS bch"
    using assms unfolding w k_def [symmetric] by linarith+
qed

lemma store_load_ecc8:
  assumes "0 < GF_M bch * GF_T bch" and "length e = BCH_ECC_BYTES bch"
  shows "store_ecc8 bch (load_ecc8 bch e) = e"
proof -
  note sz = ecc_sizes [OF assms(1)]
  define n where "n = BCH_ECC_WORDS bch - 1"
  define cnt where "cnt = BCH_ECC_BYTES bch - 4 * n"
  define pad where "pad = take cnt (drop (4 * n) e) @ replicate (4 - cnt) 0"
  have cnt: "0 < cnt" "cnt \<le> 4" "length e = 4 * n + cnt"
    using sz assms(2) by (simp_all add: cnt_def n_def)
  then have "length pad = 4" by (simp add: pad_def)
  then have pad4: "[pad ! 0, pad ! 1, pad ! 2, pad ! 3] = pad"
    by (auto simp: list_eq_iff_nth_eq less_Suc_eq numeral_eq_Suc)
  have tp: "take cnt pad = drop (4 * n) e" using cnt by (simp add: pad_def)
  have "store_ecc8 bch (load_ecc8 bch e) =
    concat (map word_bytes (load_full_words n e)) @
    take cnt (word_bytes (be32 (pad ! 0) (pad ! 1) (pad ! 2) (pad ! 3)))"
    unfolding store_ecc8_def load_ecc8_def Let_def n_def [symmetric] cnt_def [symmetric] pad_def [symmetric]
    by (simp add: nth_append)
  then show ?thesis
    using cnt tp by (simp only: word_bytes_be32 pad4 concat_load_full_words) simp
qed

section \<open>Correctness of the remainder tables\<close>

lemma mod8_row_length [simp]: "length (mod8_row g plen ecclen d base j tab) = length tab"
proof (induction g plen ecclen d base j tab rule: mod8_row.induct)
  case (1 g plen ecclen d base j tab)
  then show ?case by (subst mod8_row.simps) (simp add: Let_def)
qed

text \<open>The word that the loop over \<open>j\<close> xors into word \<open>j\<close> of the row.\<close>

definition gen_word :: "u32 list \<Rightarrow> nat \<Rightarrow> nat \<Rightarrow> nat \<Rightarrow> u32" where
  "gen_word g plen d j =
     (if d < 31 then push_bit (d + 1) (g ! j) else 0) OR
     (if j + 1 < plen then drop_bit (31 - d) (g ! (j + 1)) else 0)"

lemma mod8_row_nth:
  assumes "base + ecclen \<le> length tab"
  shows "mod8_row g plen ecclen d base j tab ! k =
         (if base + j \<le> k \<and> k < base + ecclen then tab ! k XOR gen_word g plen d (k - base) else tab ! k)"
  using assms
proof (induction g plen ecclen d base j tab rule: mod8_row.induct)
  case (1 g plen ecclen d base j tab)
  show ?case
  proof (cases "j < ecclen")
    case True
    let ?tab = "tab[base + j := tab ! (base + j) XOR gen_word g plen d j]"
    have "mod8_row g plen ecclen d base j tab = mod8_row g plen ecclen d base (Suc j) ?tab"
      using True by (subst mod8_row.simps) (simp add: Let_def gen_word_def)
    moreover have "mod8_row g plen ecclen d base (Suc j) ?tab ! k =
         (if base + Suc j \<le> k \<and> k < base + ecclen then ?tab ! k XOR gen_word g plen d (k - base) else ?tab ! k)"
      using "1.IH" [OF True refl refl] "1.prems" by (simp add: gen_word_def)
    ultimately show ?thesis
      using True "1.prems" by (cases "k = base + j") auto
  next
    case False
    then have none: "\<not> (base + j \<le> k \<and> k < base + ecclen)" by linarith
    have "mod8_row g plen ecclen d base j tab = tab" using False by (subst mod8_row.simps) simp
    then show ?thesis by (simp only: none if_False)
  qed
qed

text \<open>
  A generator polynomial as \<open>compute_generator_polynomial\<close> stores it: left
  justified, leading coefficient in bit 31 of word 0, \<open>ecc_bits + 1\<close>
  coefficients.  \<open>gen_tail\<close> is its tail as a register of \<open>l\<close> words.
\<close>

definition gen_pad :: "nat \<Rightarrow> nat \<Rightarrow> u32 list \<Rightarrow> u32 list" where
  "gen_pad plen l g = map (\<lambda>j. if j < plen then g ! j else 0) [0..<Suc l]"

definition gen_tail :: "nat \<Rightarrow> nat \<Rightarrow> u32 list \<Rightarrow> int" where
  "gen_tail plen l g = take_bit (32 * l) (drop_bit 31 (ecc_val (gen_pad plen l g)))"

definition gen_ok :: "bch_control \<Rightarrow> u32 list \<Rightarrow> bool" where
  "gen_ok bch g \<longleftrightarrow>
     0 < ecc_bits bch \<and> ecc_bits bch \<le> GF_M bch * GF_T bch \<and>
     DIV_ROUND_UP (ecc_bits bch + 1) 32 \<le> length g \<and> bit (g ! 0) 31 \<and>
     (let plen = DIV_ROUND_UP (ecc_bits bch + 1) 32
      in \<forall>k < 32 * plen - (ecc_bits bch + 1). \<not> bit (ecc_val (take plen g)) k)"

lemma gen_pad_length [simp]: "length (gen_pad plen l g) = Suc l"
  by (simp add: gen_pad_def)

lemma gen_pad_nth [simp]: "j \<le> l \<Longrightarrow> gen_pad plen l g ! j = (if j < plen then g ! j else 0)"
  by (simp add: gen_pad_def del: upt_Suc)

text \<open>Bit \<open>k\<close> of the padded generator, seen from a window shifted by \<open>31 - d\<close>.\<close>

lemma gen_word_bit:
  assumes "d \<le> 31" and "j < l" and "q < 32" and "j < plen"
  shows "bit (gen_word g plen d j) q \<longleftrightarrow>
         bit (ecc_val (gen_pad plen l g)) (32 * (l - 1 - j) + q + (31 - d))"
proof (cases "q \<le> d")
  case True
  have e: "32 * (l - 1 - j) + q + (31 - d) = 32 * (l - 1 - j) + (q + (31 - d))" by simp
  have "q + (31 - d) < 32" using True assms(1) by linarith
  then have "bit (ecc_val (gen_pad plen l g)) (32 * (l - 1 - j) + q + (31 - d)) \<longleftrightarrow>
      bit (gen_pad plen l g ! Suc j) (q + (31 - d))"
    unfolding e using assms(2) by (subst bit_ecc_val_word [of _ l]) (simp_all add: Suc_diff_Suc)
  then show ?thesis
    using True assms by (auto simp: gen_word_def bit_or_iff bit_push_bit_iff bit_drop_bit_eq add.commute
        simp del: push_bit_Suc)
next
  case False
  then have e: "32 * (l - 1 - j) + q + (31 - d) = 32 * (l - j) + (q - Suc d)"
    using assms by (simp add: algebra_simps)
  have "bit (ecc_val (gen_pad plen l g)) (32 * (l - 1 - j) + q + (31 - d)) \<longleftrightarrow>
      bit (gen_pad plen l g ! j) (q - Suc d)"
    unfolding e using assms(2,3) by (subst bit_ecc_val_word [of _ l]) simp_all
  then show ?thesis
    using False assms by (auto simp: gen_word_def bit_or_iff bit_push_bit_iff bit_drop_bit_eq
        simp del: push_bit_Suc dest: bit_imp_le_length)
qed

text \<open>The trailing zeros of the padded generator.\<close>

lemma gen_pad_zero:
  assumes ok: "gen_ok bch g" and plen: "plen = DIV_ROUND_UP (ecc_bits bch + 1) 32" "plen \<le> Suc l"
    and k: "k + ecc_bits bch + 1 < 32 * Suc l"
  shows "\<not> bit (ecc_val (gen_pad plen l g)) k"
proof -
  have pos: "0 < plen" using ok by (simp add: plen(1) DIV_ROUND_UP_def gen_ok_def)
  define z where "z = Suc l - plen"
  have low: "\<And>i. i < 32 * plen - (ecc_bits bch + 1) \<Longrightarrow> \<not> bit (ecc_val (take plen g)) i"
    and len: "plen \<le> length g"
    using ok by (auto simp: gen_ok_def Let_def plen(1))
  show ?thesis
  proof (cases "k div 32 < z")
    case True
    then have "\<not> l - k div 32 < plen" "k div 32 \<le> l" by (auto simp: z_def)
    then show ?thesis by (simp add: bit_ecc_val)
  next
    case False
    then have kz: "32 * z \<le> k" by (simp add: less_eq_div_iff_mult_less_eq not_less mult.commute)
    define i where "i = k - 32 * z"
    have ki: "k = 32 * z + i" using kz by (simp add: i_def)
    have ik: "k div 32 = z + i div 32" "k mod 32 = i mod 32" by (simp_all add: ki)
    have "i < 32 * plen - (ecc_bits bch + 1)"
      using k plen(2) unfolding ki z_def by (simp add: algebra_simps)
    then have "\<not> bit (ecc_val (take plen g)) i" by (rule low)
    moreover have "i div 32 < plen" 
      using \<open>i < 32 * plen - (ecc_bits bch + 1)\<close> by (simp add: less_mult_imp_div_less mult.commute)
    ultimately have "\<not> bit (g ! (plen - 1 - i div 32)) (i mod 32)"
      using len by (auto simp: bit_ecc_val)
    moreover have "l - k div 32 = plen - 1 - i div 32" "k div 32 \<le> l" "l - k div 32 < plen"
      using ik(1) \<open>i div 32 < plen\<close> plen(2) by (simp_all add: z_def)
    moreover from this have "gen_pad plen l g ! (plen - 1 - i div 32) = g ! (plen - 1 - i div 32)"
      using gen_pad_nth [of "l - k div 32" l plen g] by simp
    ultimately show ?thesis using ik(2) by (simp add: bit_ecc_val)
  qed
qed

lemma gen_pad_split:
  assumes ok: "gen_ok bch g" and plen: "plen = DIV_ROUND_UP (ecc_bits bch + 1) 32" "plen \<le> Suc l"
    and room: "ecc_bits bch \<le> 32 * l"
  shows "ecc_val (gen_pad plen l g) = push_bit 31 (2 ^ (32 * l) XOR gen_tail plen l g)"
proof (rule bit_eqI)
  fix k
  let ?v = "ecc_val (gen_pad plen l g)"
  have pos: "0 < plen" using ok by (simp add: plen(1) DIV_ROUND_UP_def gen_ok_def)
  have top: "bit ?v (32 * l + 31)"
    using ok pos by (subst bit_ecc_val_word [of _ l]) (simp_all add: gen_ok_def)
  have high: "\<not> bit ?v k" if "32 * l + 32 \<le> k"
    using that by (auto simp: bit_ecc_val less_eq_div_iff_mult_less_eq dest!: not_less [THEN iffD2])
  have low: "\<not> bit ?v k" if "k < 31"
    using that room by (intro gen_pad_zero [OF ok plen]) simp
  consider "k < 31" | "31 \<le> k" "k < 32 * l + 31" | "k = 32 * l + 31" | "32 * l + 32 \<le> k" by linarith
  then show "bit ?v k \<longleftrightarrow> bit (push_bit 31 (2 ^ (32 * l) XOR gen_tail plen l g)) k"
    by cases (use top high low in \<open>auto simp: bit_push_bit_iff bit_xor_iff bit_exp_iff gen_tail_def
      bit_take_bit_iff bit_drop_bit_eq\<close>)
qed

text \<open>Sizes of the generator in words, the register width and its feedback.\<close>

definition gen_plen :: "bch_control \<Rightarrow> nat" where
  "gen_plen bch = DIV_ROUND_UP (ecc_bits bch + 1) 32"

definition gen_ecclen :: "bch_control \<Rightarrow> nat" where
  "gen_ecclen bch = DIV_ROUND_UP (ecc_bits bch) 32"

definition reg_bits :: "bch_control \<Rightarrow> nat" where
  "reg_bits bch = 32 * BCH_ECC_WORDS bch"

definition feedback :: "bch_control \<Rightarrow> u32 list \<Rightarrow> int" where
  "feedback bch g = gen_tail (gen_plen bch) (BCH_ECC_WORDS bch) g"

lemma gen_sizes:
  assumes ok: "gen_ok bch g"
  shows "ecc_bits bch \<le> 32 * gen_ecclen bch" "gen_ecclen bch \<le> BCH_ECC_WORDS bch"
    "gen_plen bch \<le> Suc (BCH_ECC_WORDS bch)" "gen_ecclen bch \<le> gen_plen bch"
    "0 < BCH_ECC_WORDS bch" "ecc_bits bch \<le> 32 * BCH_ECC_WORDS bch" "32 \<le> reg_bits bch"
proof -
  have "ecc_bits bch \<le> GF_M bch * GF_T bch" "0 < ecc_bits bch" using ok by (simp_all add: gen_ok_def)
  then show "ecc_bits bch \<le> 32 * gen_ecclen bch" "gen_ecclen bch \<le> BCH_ECC_WORDS bch"
    "gen_plen bch \<le> Suc (BCH_ECC_WORDS bch)" "gen_ecclen bch \<le> gen_plen bch"
    "ecc_bits bch \<le> 32 * BCH_ECC_WORDS bch" and pos: "0 < BCH_ECC_WORDS bch"
    unfolding gen_plen_def gen_ecclen_def BCH_ECC_WORDS_def DIV_ROUND_UP_def by linarith+
  show "32 \<le> reg_bits bch" using pos by (simp add: reg_bits_def)
qed

lemma feedback_take: "take_bit (reg_bits bch) (feedback bch g) = feedback bch g"
  by (simp add: feedback_def gen_tail_def reg_bits_def)

text \<open>
  The effect of one iteration on the row at \<open>base\<close>: the generator, aligned with
  bit \<open>d\<close> of \<open>data\<close>, is xored in.
\<close>

lemma drop_push_bit:
  "a \<le> b \<Longrightarrow> drop_bit a (push_bit b x) = push_bit (b - a) (x :: int)"
  "b \<le> a \<Longrightarrow> drop_bit a (push_bit b x) = drop_bit (a - b) (x :: int)"
  by (rule bit_eqI; auto simp: bit_drop_bit_eq bit_push_bit_iff add.commute)+

lemma gen_window:
  assumes ok: "gen_ok bch g" and "d \<le> 31"
  shows "take_bit (reg_bits bch) (push_bit d (feedback bch g)) =
         take_bit (reg_bits bch) (drop_bit (31 - d) (ecc_val (gen_pad (gen_plen bch) (BCH_ECC_WORDS bch) g)))"
proof -
  have "drop_bit (31 - d) (ecc_val (gen_pad (gen_plen bch) (BCH_ECC_WORDS bch) g)) =
        push_bit d (2 ^ reg_bits bch XOR feedback bch g)"
    unfolding gen_pad_split [OF ok gen_plen_def gen_sizes(3,6) [OF ok], folded feedback_def reg_bits_def]
    using assms(2) by (subst drop_push_bit(1)) simp_all
  then show ?thesis
    by (intro bit_eqI) (auto simp: bit_take_bit_iff bit_push_bit_iff bit_xor_iff bit_exp_iff)
qed

lemma mod8_row_val:
  assumes ok: "gen_ok bch g" and "base + BCH_ECC_WORDS bch \<le> length tab" and "d \<le> 31"
  shows "ecc_val (tab_row (mod8_row g (gen_plen bch) (gen_ecclen bch) d base 0 tab) base (BCH_ECC_WORDS bch)) =
         ecc_val (tab_row tab base (BCH_ECC_WORDS bch)) XOR
         take_bit (reg_bits bch) (push_bit d (feedback bch g))"
proof (rule bit_eqI)
  fix k :: nat
  note sz = gen_sizes [OF ok]
  let ?v = "ecc_val (gen_pad (gen_plen bch) (BCH_ECC_WORDS bch) g)" and ?l = "BCH_ECC_WORDS bch"
  let ?row = "mod8_row g (gen_plen bch) (gen_ecclen bch) d base 0 tab"
  obtain l' where l': "?l = Suc l'" using sz(5) by (cases ?l) auto
  show "bit (ecc_val (tab_row ?row base ?l)) k \<longleftrightarrow>
        bit (ecc_val (tab_row tab base ?l) XOR take_bit (reg_bits bch) (push_bit d (feedback bch g))) k"
  proof (cases "k < reg_bits bch")
    case True
    define i q where "i = k div 32" and "q = k mod 32"
    have k: "k = 32 * i + q" "q < 32" "i \<le> l'"
      using True by (simp_all add: i_def q_def reg_bits_def l')
    define j where "j = l' - i"
    have j: "j < ?l" "?l - 1 - j = i" using k(3) by (simp_all add: j_def l')
    have rhs: "bit (take_bit (reg_bits bch) (push_bit d (feedback bch g))) k \<longleftrightarrow> bit ?v (32 * i + q + (31 - d))"
      unfolding gen_window [OF ok assms(3)]
      using True by (simp add: bit_take_bit_iff bit_drop_bit_eq k(1) add.commute)
    have row: "bit (ecc_val (tab_row t base ?l)) k \<longleftrightarrow> bit (t ! (base + j)) q" for t
      using k(2,3) unfolding k(1) by (subst bit_ecc_val_word [of _ l']) (simp_all add: l' j_def)
    have nth: "?row ! (base + j) =
        (if j < gen_ecclen bch then tab ! (base + j) XOR gen_word g (gen_plen bch) d j else tab ! (base + j))"
      using assms(2) sz(2) by (subst mod8_row_nth) auto
    have inc: "bit ?v (32 * i + q + (31 - d)) \<longleftrightarrow> j < gen_ecclen bch \<and> bit (gen_word g (gen_plen bch) d j) q"
    proof (cases "j < gen_ecclen bch")
      case True
      then show ?thesis
        using gen_word_bit [OF assms(3) j(1) k(2), of "gen_plen bch" g] sz(4) j(2) by simp
    next
      case False
      have "32 * gen_ecclen bch + 32 * i \<le> 32 * l'" using False k(3) by (simp add: j_def)
      then have "32 * i + q + (31 - d) + ecc_bits bch + 1 < 32 * Suc ?l"
        using sz(1) k(2) unfolding l' mult_Suc_right by linarith
      then show ?thesis using gen_pad_zero [OF ok gen_plen_def sz(3)] False by simp
    qed
    show ?thesis by (simp add: bit_xor_iff row nth rhs inc)
  next
    case False
    then have "\<not> k div 32 < ?l" by (simp add: reg_bits_def not_less less_eq_div_iff_mult_less_eq mult.commute)
    with False show ?thesis by (simp add: bit_xor_iff bit_ecc_val bit_take_bit_iff)
  qed
qed

text \<open>The contribution of \<open>data\<close>: 32 steps of the register fed with it.\<close>

definition contrib :: "nat \<Rightarrow> int \<Rightarrow> u32 \<Rightarrow> int" where
  "contrib W G data = (lfsr W G ^^ 32) (push_bit (W - 32) (uint data))"

lemma contrib_xor: "contrib W G (x XOR y) = contrib W G x XOR contrib W G y"
  by (simp add: contrib_def unsigned_xor_eq push_bit_xor lfsr_pow_xor)

lemma contrib_0 [simp]: "contrib W G 0 = 0"
  by (simp add: contrib_def)

lemma lfsr_low_then:
  assumes "32 \<le> W" and "n \<le> 32" and "take_bit n x = x"
  shows "(lfsr W G ^^ 32) (push_bit (W - 32) x) = (lfsr W G ^^ n) (push_bit (W - n) x)"
proof -
  have e: "W - 32 + n = W - (32 - n)" "W - 32 + (32 - n) = W - n" "32 = n + (32 - n)"
    using assms(1,2) by linarith+
  have "take_bit (W - 32 + n) (push_bit (W - 32) x) = push_bit (W - 32) x"
    by (simp add: take_bit_push_bit assms(3))
  then have "(lfsr W G ^^ (32 - n)) (push_bit (W - 32) x) = push_bit (32 - n) (push_bit (W - 32) x)"
    using assms(1) unfolding e(1) by (intro lfsr_pow_low) simp_all
  then have "(lfsr W G ^^ n) ((lfsr W G ^^ (32 - n)) (push_bit (W - 32) x)) = (lfsr W G ^^ n) (push_bit (W - n) x)"
    using e(2) by (simp only: push_bit_push_bit add.commute)
  then show ?thesis using e(3) by (simp only: lfsr_pow_add)
qed

lemma lfsr_top: "0 < W \<Longrightarrow> lfsr W G (2 ^ (W - 1)) = G"
proof -
  assume "0 < W"
  then have "2 * 2 ^ (W - 1) = (2 ^ W :: int)" by (simp flip: power_Suc)
  then show ?thesis by (simp add: lfsr_def bit_exp_iff)
qed

lemma gen_lead:
  assumes ok: "gen_ok bch g" and "d \<le> 31"
  shows "uint (drop_bit (31 - d) (g ! 0)) = 2 ^ d XOR drop_bit (reg_bits bch - d) (feedback bch g)"
proof -
  let ?l = "BCH_ECC_WORDS bch" and ?v = "ecc_val (gen_pad (gen_plen bch) (BCH_ECC_WORDS bch) g)"
  note sz = gen_sizes [OF ok]
  have "0 < gen_plen bch" using ok by (simp add: gen_plen_def DIV_ROUND_UP_def gen_ok_def)
  then have "uint (drop_bit (31 - d) (g ! 0)) = drop_bit (32 * Suc ?l - Suc d) ?v"
    using ecc_val_top_bits [of "gen_pad (gen_plen bch) ?l g" ?l "Suc d"] assms(2) by simp
  also have "\<dots> = drop_bit (reg_bits bch - d) (2 ^ reg_bits bch XOR feedback bch g)"
    unfolding gen_pad_split [OF ok gen_plen_def sz(3,6), folded feedback_def reg_bits_def]
    using assms(2) sz(7) by (subst drop_push_bit(2)) (simp_all add: reg_bits_def)
  also have "\<dots> = 2 ^ d XOR drop_bit (reg_bits bch - d) (feedback bch g)"
    using assms(2) sz(7) by (intro bit_eqI) (auto simp: bit_drop_bit_eq bit_xor_iff bit_exp_iff)
  finally show ?thesis .
qed

lemma contrib_gen:
  assumes ok: "gen_ok bch g" and "d \<le> 31"
  shows "contrib (reg_bits bch) (feedback bch g) (drop_bit (31 - d) (g ! 0)) =
         take_bit (reg_bits bch) (push_bit d (feedback bch g))"
proof -
  let ?W = "reg_bits bch" and ?G = "feedback bch g"
  have W: "32 \<le> ?W" "d \<le> ?W" using gen_sizes(7) [OF ok] assms(2) by simp_all
  have "(lfsr ?W ?G ^^ 32) (push_bit (?W - 32) (2 ^ d)) = (lfsr ?W ?G ^^ Suc d) (push_bit (?W - Suc d) (2 ^ d))"
    using assms W by (intro lfsr_low_then) (simp_all add: take_bit_int_eq_self_iff)
  also have "push_bit (?W - Suc d) (2 ^ d :: int) = 2 ^ (?W - 1)"
    using assms W by (simp add: push_bit_eq_mult flip: power_add)
  also have "(lfsr ?W ?G ^^ Suc d) (2 ^ (?W - 1)) = (lfsr ?W ?G ^^ d) ?G"
    using W by (simp only: funpow_Suc_right o_apply lfsr_top)
  finally have lead: "(lfsr ?W ?G ^^ 32) (push_bit (?W - 32) (2 ^ d)) = (lfsr ?W ?G ^^ d) ?G" .
  have "take_bit d (drop_bit (?W - d) ?G) = drop_bit (?W - d) ?G"
    using W(2) feedback_take [of bch g] by (simp add: take_bit_drop_bit)
  then have rest: "(lfsr ?W ?G ^^ 32) (push_bit (?W - 32) (drop_bit (?W - d) ?G)) =
      (lfsr ?W ?G ^^ d) (push_bit (?W - d) (drop_bit (?W - d) ?G))"
    using assms W by (intro lfsr_low_then) simp_all
  have "(lfsr ?W ?G ^^ d) ?G = take_bit ?W (push_bit d ?G) XOR
      (lfsr ?W ?G ^^ d) (push_bit (?W - d) (drop_bit (?W - d) ?G))"
    using lfsr_pow_split [OF W(2) feedback_take, of ?G g 0] by simp
  then show ?thesis
    by (simp add: contrib_def gen_lead [OF assms] push_bit_xor lfsr_pow_xor lead rest)
qed

lemma mod8_entry_length [simp]: "length (mod8_entry g plen ecclen base data tab) = length tab"
proof (induction g plen ecclen base data tab rule: mod8_entry.induct)
  case (1 g plen ecclen base data tab)
  then show ?case by (subst mod8_entry.simps) (simp add: Let_def)
qed

lemma mod8_entry_other:
  assumes "base + ecclen \<le> length tab" and "k < base \<or> base + ecclen \<le> k"
  shows "mod8_entry g plen ecclen base data tab ! k = tab ! k"
  using assms
proof (induction g plen ecclen base data tab rule: mod8_entry.induct)
  case (1 g plen ecclen base data tab)
  then have "\<not> (base + 0 \<le> k \<and> k < base + ecclen)" by linarith
  with 1 show ?case by (subst mod8_entry.simps) (auto simp: Let_def mod8_row_nth)
qed

lemma fls_bits:
  assumes "x \<noteq> 0" and "d = fls x - 1"
  shows "2 ^ d \<le> x" and "bit x d" and "\<And>k. d < k \<Longrightarrow> \<not> bit x k"
proof -
  have "fls x = Suc d" using assms by (cases "fls x") simp_all
  then show lo: "2 ^ d \<le> x" and hi: "bit x d"
    using fls_lower [OF assms(1)] fls_upper [of x] bit_nat_less_iff_top [of x d] by simp_all
  fix k assume "d < k"
  then have "(2::nat) ^ fls x \<le> 2 ^ k" using \<open>fls x = Suc d\<close> by (intro power_increasing) simp_all
  with fls_upper have "x < 2 ^ k" by (rule less_le_trans)
  then show "\<not> bit x k" by (simp add: bit_iff_odd)
qed

lemma deg_u32:
  assumes "data \<noteq> (0 :: u32)" and "d = nat (deg (unat data))"
  shows "d \<le> 31" and "bit data d" and "\<And>k. d < k \<Longrightarrow> \<not> bit data k"
proof -
  have d: "d = fls (unat data) - 1" using assms(2) unfolding deg_def by linarith
  have x: "unat data \<noteq> 0" using assms(1) by (simp add: unat_eq_zero)
  have b: "bit (unat data) k = bit data k" for k
    by (auto simp: bit_unsigned_iff dest: bit_imp_le_length)
  note f = fls_bits [OF x d, unfolded b]
  show "bit data d" "\<And>k. d < k \<Longrightarrow> \<not> bit data k" by (fact f)+
  have "d < 32" using f(2) by (auto dest: bit_imp_le_length)
  then show "d \<le> 31" by simp
qed

lemma nat_less_of_top_bit:
  assumes "bit (x :: nat) d" and "\<not> bit y d" and "\<And>k. d < k \<Longrightarrow> bit x k = bit y k"
  shows "y < x"
proof -
  have "drop_bit (Suc d) x = drop_bit (Suc d) y"
    by (rule bit_eqI) (simp add: bit_drop_bit_eq assms(3))
  moreover have "push_bit (Suc d) (drop_bit (Suc d) z) + take_bit (Suc d) z = z" for z :: nat
    by (rule bits_ident)
  moreover have "take_bit (Suc d) y < 2 ^ d" "2 ^ d \<le> take_bit (Suc d) x"
  proof -
    have "bit z d \<longleftrightarrow> 2 ^ d \<le> take_bit (Suc d) z" for z :: nat
      using bit_nat_less_iff_top [OF take_bit_nat_less_exp, of d z] by (simp add: bit_take_bit_iff)
    with assms(1,2) show "take_bit (Suc d) y < 2 ^ d" "2 ^ d \<le> take_bit (Suc d) x" by (simp_all add: not_le)
  qed
  ultimately show ?thesis by (metis add_less_cancel_left less_le_trans)
qed

lemma word_less_of_top_bit:
  assumes "bit (x :: u32) d" and "\<not> bit y d" and "\<And>k. d < k \<Longrightarrow> bit x k = bit y k"
  shows "y < x"
proof -
  have b: "bit (unat w) k = bit w k" for w :: u32 and k
    by (auto simp: bit_unsigned_iff dest: bit_imp_le_length)
  show ?thesis
    using nat_less_of_top_bit [of "unat x" d "unat y"] assms by (simp add: b word_less_nat_alt)
qed

lemma mod8_entry_val:
  assumes ok: "gen_ok bch g" and "base + BCH_ECC_WORDS bch \<le> length tab"
  shows "ecc_val (tab_row (mod8_entry g (gen_plen bch) (gen_ecclen bch) base data tab) base (BCH_ECC_WORDS bch)) =
         ecc_val (tab_row tab base (BCH_ECC_WORDS bch)) XOR contrib (reg_bits bch) (feedback bch g) data"
  using assms(2)
proof (induction "unat data" arbitrary: data tab rule: less_induct)
  case less
  let ?W = "reg_bits bch" and ?G = "feedback bch g"
  show ?case
  proof (cases "data = 0")
    case True
    then show ?thesis by (subst mod8_entry.simps) simp
  next
    case False
    define d where "d = nat (deg (unat data))"
    define data' where "data' = data XOR drop_bit (31 - d) (g ! 0)"
    define tab' where "tab' = mod8_row g (gen_plen bch) (gen_ecclen bch) d base 0 tab"
    note d = deg_u32 [OF False d_def]
    have g31: "bit (g ! 0) 31" using ok by (simp add: gen_ok_def)
    have "data' < data"
      using d g31 by (intro word_less_of_top_bit [of data d])
        (auto simp: data'_def bit_xor_iff bit_drop_bit_eq dest: bit_imp_le_length)
    then have step: "mod8_entry g (gen_plen bch) (gen_ecclen bch) base data tab =
        mod8_entry g (gen_plen bch) (gen_ecclen bch) base data' tab'"
      using False by (subst mod8_entry.simps) (simp add: Let_def d_def data'_def tab'_def)
    have "ecc_val (tab_row tab' base (BCH_ECC_WORDS bch)) =
        ecc_val (tab_row tab base (BCH_ECC_WORDS bch)) XOR take_bit ?W (push_bit d ?G)"
      unfolding tab'_def using mod8_row_val [OF ok less.prems d(1)] .
    moreover have "contrib ?W ?G data' = contrib ?W ?G data XOR take_bit ?W (push_bit d ?G)"
      by (simp add: data'_def contrib_xor contrib_gen [OF ok d(1)])
    moreover have "ecc_val (tab_row (mod8_entry g (gen_plen bch) (gen_ecclen bch) base data' tab') base (BCH_ECC_WORDS bch)) =
        ecc_val (tab_row tab' base (BCH_ECC_WORDS bch)) XOR contrib ?W ?G data'"
      using less.hyps [of data' tab'] \<open>data' < data\<close> less.prems by (simp add: word_less_nat_alt tab'_def)
    ultimately show ?thesis by (simp add: step xor_simps)
  qed
qed

text \<open>A run of entry updates on distinct rows touches each row once.\<close>

lemma fold_rows:
  fixes F :: "nat \<Rightarrow> u32 list \<Rightarrow> u32 list" and l :: nat
  assumes len: "\<And>r t. length (F r t) = length t"
    and own: "\<And>r t. r \<in> set rs \<Longrightarrow> r * l + l \<le> length t \<Longrightarrow>
        ecc_val (tab_row (F r t) (r * l) l) = ecc_val (tab_row t (r * l) l) XOR v r"
    and other: "\<And>r t k. r \<in> set rs \<Longrightarrow> r * l + l \<le> length t \<Longrightarrow> k < r * l \<or> r * l + l \<le> k \<Longrightarrow> F r t ! k = t ! k"
    and room: "\<And>r. r \<in> set rs \<Longrightarrow> r * l + l \<le> length tab" and "distinct rs"
  shows "ecc_val (tab_row (fold F rs tab) (q * l) l) =
         ecc_val (tab_row tab (q * l) l) XOR (if q \<in> set rs then v q else 0)"
  using assms(2-)
proof (induction rs arbitrary: tab)
  case (Cons r rs)
  have rest: "ecc_val (tab_row (fold F rs (F r tab)) (q * l) l) =
      ecc_val (tab_row (F r tab) (q * l) l) XOR (if q \<in> set rs then v q else 0)"
    using Cons.prems len by (intro Cons.IH) auto
  show ?case
  proof (cases "q = r")
    case True
    with rest Cons.prems show ?thesis by simp
  next
    case False
    have "tab_row (F r tab) (q * l) l = tab_row tab (q * l) l"
    proof (rule nth_equalityI)
      fix i assume "i < length (tab_row (F r tab) (q * l) l)"
      then have i: "i < l" by simp
      have "q * l + i < r * l \<or> r * l + l \<le> q * l + i"
      proof (cases "q < r")
        case True
        then have "q * l + l \<le> r * l" by (metis Suc_leI add.commute mult_Suc mult_le_mono1)
        with i show ?thesis by linarith
      next
        case False
        with \<open>q \<noteq> r\<close> have "r * l + l \<le> q * l" by (metis Suc_leI add.commute linorder_neqE_nat mult_Suc mult_le_mono1)
        with i show ?thesis by linarith
      qed
      then show "tab_row (F r tab) (q * l) l ! i = tab_row tab (q * l) l ! i"
        using i Cons.prems by simp
    qed simp
    with rest False show ?thesis by simp
  qed
qed simp

definition entry_rows :: "nat list" where
  "entry_rows = concat (map (\<lambda>i. map (\<lambda>b. b * 256 + i) [0..<4]) [0..<256])"

lemma set_entry_rows: "set entry_rows = {..<1024}"
proof -
  have eq: "set entry_rows = (\<Union>i\<in>{..<256}. (\<lambda>b. b * 256 + i) ` {..<4})"
    unfolding entry_rows_def set_concat set_map set_upt image_image atLeast0LessThan ..
  have "r \<in> (\<lambda>b. b * 256 + r mod 256) ` {..<4}" "r mod 256 \<in> {..<256}" if "r < 1024" for r :: nat
    using that by (auto intro!: image_eqI [of _ _ "r div 256"])
  then have "r \<in> set entry_rows" if "r < 1024" for r unfolding eq using that by blast
  moreover have "r < 1024" if "r \<in> set entry_rows" for r
    using that unfolding eq by auto
  ultimately show ?thesis by (intro set_eqI) (metis lessThan_iff)
qed

lemma distinct_entry_rows: "distinct entry_rows"
proof -
  have "card (set entry_rows) = length entry_rows"
    by (simp add: set_entry_rows) (simp add: entry_rows_def length_concat o_def sum_list_triv del: upt_rec_numeral)
  then show ?thesis by (rule card_distinct)
qed

definition entry_update :: "bch_control \<Rightarrow> u32 list \<Rightarrow> nat \<Rightarrow> u32 list \<Rightarrow> u32 list" where
  "entry_update bch g r = mod8_entry g (gen_plen bch) (gen_ecclen bch) (r * BCH_ECC_WORDS bch)
     (of_nat ((r mod 256) * 2 ^ (8 * (r div 256))))"

lemma build_mod8_tables_rows:
  "mod8_tab (build_mod8_tables bch g) =
     fold (entry_update bch g) entry_rows (replicate (4 * 256 * BCH_ECC_WORDS bch) 0)"
proof -
  have inner: "fold (\<lambda>b. mod8_entry g (gen_plen bch) (gen_ecclen bch) ((b * 256 + i) * BCH_ECC_WORDS bch)
         (of_nat (i * 2 ^ (8 * b)))) [0..<4] t =
      fold (entry_update bch g) (map (\<lambda>b. b * 256 + i) [0..<4]) t" if "i < 256" for i t
    unfolding fold_map
    by (rule fold_cong) (use that in \<open>auto simp: entry_update_def o_def\<close>)
  have "fold (\<lambda>i. fold (entry_update bch g) (f i)) is t = fold (entry_update bch g) (concat (map f is)) t"
    for f "is" t by (induction "is" arbitrary: t) simp_all
  moreover have "fold (\<lambda>i. fold (\<lambda>b. mod8_entry g (gen_plen bch) (gen_ecclen bch) ((b * 256 + i) * BCH_ECC_WORDS bch)
         (of_nat (i * 2 ^ (8 * b)))) [0..<4]) [0..<256] t =
      fold (\<lambda>i. fold (entry_update bch g) (map (\<lambda>b. b * 256 + i) [0..<4])) [0..<256] t" for t
    by (rule fold_cong) (auto simp: inner fun_eq_iff simp del: upt_rec_numeral of_nat_mult of_nat_power)
  ultimately show ?thesis
    unfolding build_mod8_tables_def Let_def entry_rows_def gen_plen_def [symmetric] gen_ecclen_def [symmetric]
    by simp
qed

lemma uint_table_data:
  assumes "y < 256" and "b < 4"
  shows "uint (of_nat (y * 2 ^ (8 * b)) :: u32) = push_bit (8 * b) (int y)"
proof -
  have "y * 2 ^ (8 * b) < 256 * 2 ^ (8 * b)" using assms(1) by simp
  also have "\<dots> = 2 ^ (8 + 8 * b)" by (simp add: power_add)
  also have "\<dots> \<le> (2::nat) ^ 32" using assms(2) by (intro power_increasing) simp_all
  finally have "y * 2 ^ (8 * b) mod 2 ^ 32 = y * 2 ^ (8 * b)" by (rule mod_less)
  then have "unat (of_nat (y * 2 ^ (8 * b)) :: u32) = y * 2 ^ (8 * b)"
    by (simp add: unat_of_nat del: of_nat_mult of_nat_power)
  then show ?thesis by (simp only: uint_nat) (simp add: push_bit_eq_mult)
qed

lemma mod8_table_row:
  assumes ok: "gen_ok bch g" and r: "r < 1024"
  shows "ecc_val (tab_row (mod8_tab (build_mod8_tables bch g)) (r * BCH_ECC_WORDS bch) (BCH_ECC_WORDS bch)) =
         contrib (reg_bits bch) (feedback bch g) (of_nat ((r mod 256) * 2 ^ (8 * (r div 256))))"
proof -
  let ?l = "BCH_ECC_WORDS bch"
  have room: "q * ?l + ?l \<le> 4 * 256 * ?l" if "q < 1024" for q
  proof -
    have "Suc q * ?l \<le> 1024 * ?l" using that by (intro mult_le_mono1) simp
    then show ?thesis by (simp add: add.commute)
  qed
  have other: "entry_update bch g q t ! k = t ! k"
    if "q \<in> set entry_rows" "q * ?l + ?l \<le> length t" "k < q * ?l \<or> q * ?l + ?l \<le> k" for q t k
    unfolding entry_update_def using that gen_sizes(2) [OF ok] by (intro mod8_entry_other) auto
  have zero: "tab_row (replicate (4 * 256 * ?l) 0) (r * ?l) ?l = replicate ?l 0"
  proof (rule nth_equalityI)
    fix i assume "i < length (tab_row (replicate (4 * 256 * ?l) 0) (r * ?l) ?l)"
    then have "i < ?l" by simp
    moreover from this have "r * ?l + i < 4 * 256 * ?l" using room [OF r] by linarith
    ultimately show "tab_row (replicate (4 * 256 * ?l) 0) (r * ?l) ?l ! i = replicate ?l 0 ! i"
      by (simp only: tab_row_nth nth_replicate)
  qed simp
  have "ecc_val (tab_row (fold (entry_update bch g) entry_rows (replicate (4 * 256 * ?l) 0)) (r * ?l) ?l) =
      ecc_val (tab_row (replicate (4 * 256 * ?l) 0) (r * ?l) ?l) XOR
      (if r \<in> set entry_rows then contrib (reg_bits bch) (feedback bch g) (of_nat ((r mod 256) * 2 ^ (8 * (r div 256)))) else 0)"
    by (rule fold_rows [OF _ _ other _ distinct_entry_rows])
      (simp_all add: entry_update_def mod8_entry_val [OF ok] set_entry_rows room del: of_nat_mult)
  with r show ?thesis
    by (simp only: build_mod8_tables_rows zero ecc_val_zero set_entry_rows lessThan_iff if_True xor.left_neutral)
qed

text \<open>The tables that \<open>build_mod8_tables\<close> fills from a generator polynomial satisfy \<open>mod8_ok\<close>.\<close>

lemma mod8_tables_ok:
  assumes ok: "gen_ok bch g"
  shows "mod8_ok (feedback bch g) (build_mod8_tables bch g)"
proof -
  have sel: "BCH_ECC_WORDS (build_mod8_tables bch g) = BCH_ECC_WORDS bch"
    by (simp add: build_mod8_tables_def BCH_ECC_WORDS_def GF_M_def GF_T_def Let_def)
  have "ecc_val (tab_row (mod8_tab (build_mod8_tables bch g)) ((b * 256 + y) * BCH_ECC_WORDS bch) (BCH_ECC_WORDS bch)) =
      (lfsr (reg_bits bch) (feedback bch g) ^^ (8 * Suc b)) (push_bit (reg_bits bch - 8) (int y))"
    if "b < 4" "y < 256" for b y
  proof -
    have "b * 256 + y < 1024" "(b * 256 + y) mod 256 = y" "(b * 256 + y) div 256 = b"
      using that by simp_all
    then have "ecc_val (tab_row (mod8_tab (build_mod8_tables bch g)) ((b * 256 + y) * BCH_ECC_WORDS bch) (BCH_ECC_WORDS bch)) =
        contrib (reg_bits bch) (feedback bch g) (of_nat (y * 2 ^ (8 * b)))"
      using mod8_table_row [OF ok, of "b * 256 + y"] by simp
    also have "\<dots> = (lfsr (reg_bits bch) (feedback bch g) ^^ 32) (push_bit (reg_bits bch - 32) (push_bit (8 * b) (int y)))"
      unfolding contrib_def uint_table_data [OF that(2,1)] ..
    also have "\<dots> = (lfsr (reg_bits bch) (feedback bch g) ^^ (8 * Suc b)) (push_bit (reg_bits bch - 8) (int y))"
      using that gen_sizes(7) [OF ok] by (intro lfsr_pow_table) simp_all
    finally show ?thesis .
  qed
  then show ?thesis
    using gen_sizes(5) [OF ok] unfolding mod8_ok_def sel reg_bits_def by blast
qed


section \<open>Properties\<close>

text \<open>
  C8: \<open>encode_bch\<close> with the tables of \<open>build_mod8_tables\<close> computes the
  remainder of the message modulo the generator polynomial.  The word-wise and the
  byte-wise table look-ups give the state of the bit-serial shift register after
  all message bits, for every alignment of the data pointer, every length and
  every initial parity.
\<close>

theorem encode_bch_is_shift_register:
  assumes "gen_ok bch g"
  shows "ecc_val (ecc_buf (fst (encode_bch (build_mod8_tables bch g) addr data ecc))) =
         lfsr_bits (32 * BCH_ECC_WORDS bch) (feedback bch g)
           (ecc_val (ecc_start (build_mod8_tables bch g) ecc)) (message_bits data)"
proof -
  have "BCH_ECC_WORDS (build_mod8_tables bch g) = BCH_ECC_WORDS bch"
    by (simp add: build_mod8_tables_def BCH_ECC_WORDS_def GF_M_def GF_T_def Let_def)
  then show ?thesis using encode_bch_buf [OF mod8_tables_ok [OF assms], of addr data ecc] by simp
qed

lemma gen_ok_3: "gen_ok bch_3 [0xB0000000]"
proof -
  have "bit (0xB0000000 :: u32) 31" by (simp add: bit_iff_odd_drop_bit)
  moreover have "ecc_val [0xB0000000] = push_bit 28 11" by (simp add: ecc_val_def push_bit_eq_mult)
  then have "\<not> bit (ecc_val [0xB0000000]) k" if "k < 28" for k
    using that by (auto simp only: bit_push_bit_iff)
  ultimately show ?thesis
    by (simp add: gen_ok_def bch_3_def GF_M_def GF_T_def DIV_ROUND_UP_def)
qed

theorem encode_bch_is_shift_register_witness:
  "ecc_val (ecc_buf (fst (encode_bch (build_mod8_tables bch_3 [0xB0000000]) 1 [0x8F] None))) =
   lfsr_bits (32 * BCH_ECC_WORDS bch_3) (feedback bch_3 [0xB0000000])
     (ecc_val (ecc_start (build_mod8_tables bch_3 [0xB0000000]) None)) (message_bits [0x8F])"
  by (rule encode_bch_is_shift_register [OF gen_ok_3])

text \<open>
  C9: \<open>store_ecc8\<close> writes back exactly the bytes that \<open>load_ecc8\<close> read,
  including a last word that is only partly used.
\<close>

theorem ecc8_load_store:
  assumes "0 < GF_M bch * GF_T bch" and "length e = BCH_ECC_BYTES bch"
  shows "store_ecc8 bch (load_ecc8 bch e) = e"
  by (rule store_load_ecc8 [OF assms])

theorem ecc8_load_store_witness: "store_ecc8 bch_3 (load_ecc8 bch_3 [0xA0]) = [0xA0]"
  using ecc8_load_store [of bch_3 "[0xA0]"] by (simp add: bch_3_def GF_M_def GF_T_def BCH_ECC_BYTES_def DIV_ROUND_UP_def)

end
