(* ===== verification/Bch_Poly.thy ===== *)
theory Bch_Poly
  imports Bch_Encode
begin

text \<open>
  Polynomials over GF(2^m) and root finding in lib/bch.c: Euclidean division
  (\<open>gf_poly_mod\<close>, \<open>gf_poly_div\<close>, \<open>gf_poly_gcd\<close>), the
  Berlekamp trace algorithm (\<open>compute_trace_bk_mod\<close>,
  \<open>factor_polynomial\<close>), the direct solvers for degrees 1 to 4 with the
  GF(2) linear system solver behind them, \<open>find_poly_roots\<close> and the
  exhaustive \<open>chien_search\<close>.  An output array of roots with its returned
  count is a list; arrays that are updated in place are returned.
\<close>

section \<open>Linear systems over GF(2)\<close>

text \<open>
  \<open>solve_linear_system\<close>: the search for a row with the pivot bit, the
  elimination of that bit from the rows below, and the loop over the columns.
  \<open>rows\<close> are the matrix rows, \<open>param\<close> the defective columns in the
  order in which they were stored.
\<close>

function find_pivot :: "nat list \<Rightarrow> nat \<Rightarrow> nat \<Rightarrow> nat \<Rightarrow> nat option" where
  "find_pivot rows msk m r =
     (if r < m then if (rows ! r) AND msk \<noteq> 0 then Some r else find_pivot rows msk m (Suc r)
      else None)"
  by pat_completeness auto
termination
  by (relation "measure (\<lambda>(rows, msk, m, r). m - r)") auto

declare find_pivot.simps [simp del]

definition swap_rows :: "nat list \<Rightarrow> nat \<Rightarrow> nat \<Rightarrow> nat list" where
  "swap_rows rows r p = (if r \<noteq> p then rows[r := rows ! p, p := rows ! r] else rows)"

definition eliminate_rows :: "nat list \<Rightarrow> nat \<Rightarrow> nat \<Rightarrow> nat \<Rightarrow> nat \<Rightarrow> nat list" where
  "eliminate_rows rows msk tmp from_r m =
     fold (\<lambda>r rows. if (rows ! r) AND msk \<noteq> 0 then rows[r := rows ! r XOR tmp] else rows)
       [from_r..<m] rows"

function gauss_columns :: "nat \<Rightarrow> nat \<Rightarrow> nat list \<Rightarrow> nat list \<Rightarrow> nat list \<times> nat list" where
  "gauss_columns m c param rows =
     (if c < m
      then let msk = 2 ^ (m - c);
               p = c - length param
           in case find_pivot rows msk m p of
                Some r \<Rightarrow>
                  let rows' = swap_rows rows r p
                  in gauss_columns m (Suc c) param (eliminate_rows rows' msk (rows' ! p) (Suc r) m)
              | None \<Rightarrow> gauss_columns m (Suc c) (param @ [c]) rows
      else (param, rows))"
  by pat_completeness auto
termination
  by (relation "measure (\<lambda>(m, c, param, rows). m - c)") auto

declare gauss_columns.simps [simp del]

text \<open>
  The rewriting loop from row \<open>r - 1\<close> down to row 0; \<open>p\<close> counts the
  parameter rows still to insert.  \<open>None\<close> is the early return 0.
\<close>

fun insert_params :: "nat \<Rightarrow> nat list \<Rightarrow> nat \<Rightarrow> nat \<Rightarrow> nat list \<Rightarrow> nat list option" where
  "insert_params m param 0 p rows = Some rows"
| "insert_params m param (Suc r) p rows =
     (if r + length param > m - 1 \<and> rows ! r \<noteq> 0 then None
      else if 0 < p \<and> r = param ! (p - 1)
           then insert_params m param r (p - 1) (rows[r := 2 ^ (m - r)])
           else insert_params m param r p (rows[r := rows ! (r - p)]))"

definition set_params :: "nat list \<Rightarrow> nat \<Rightarrow> nat list \<Rightarrow> nat list" where
  "set_params param p rows =
     fold (\<lambda>c rows. rows[param ! c := 2 * ((rows ! (param ! c)) div 2) OR (drop_bit c p AND 1)])
       [0..<length param] rows"

fun back_substitute :: "nat \<Rightarrow> nat list \<Rightarrow> nat \<Rightarrow> nat \<Rightarrow> nat" where
  "back_substitute m rows 0 tmp = tmp"
| "back_substitute m rows (Suc r) tmp =
     back_substitute m rows r
       (tmp OR push_bit (m - r) (unat (parity (of_nat ((rows ! r) AND (tmp OR 1))))))"

fun enum_solutions :: "nat \<Rightarrow> nat list \<Rightarrow> nat \<Rightarrow> nat \<Rightarrow> nat list \<Rightarrow> nat list" where
  "enum_solutions m param p 0 rows = []"
| "enum_solutions m param p (Suc cnt) rows =
     (let rows' = set_params param p rows
      in drop_bit 1 (back_substitute m rows' m 0) # enum_solutions m param (Suc p) cnt rows')"

definition solve_linear_system :: "bch_control \<Rightarrow> nat list \<Rightarrow> nat \<Rightarrow> nat list" where
  "solve_linear_system bch rows nsol =
     (let m = GF_M bch
      in case gauss_columns m 0 [] rows of (param, rows1) \<Rightarrow>
           let k = length param
           in case (if 0 < k then insert_params m param m k rows1 else Some rows1) of
                None \<Rightarrow> []
              | Some rows2 \<Rightarrow> if nsol \<noteq> 2 ^ k then [] else enum_solutions m param 0 nsol rows2)"

text \<open>
  \<open>find_affine4_roots\<close>: the matrix of the linear map, its transposition by
  block swaps of size 8, 4, 2 and 1, and the solver.  The inner loop steps
  \<open>k\<close> to the next index without bit \<open>j\<close>; the guard on the step makes
  the recursion total for arguments \<open>j\<close> that are not powers of two.
\<close>

definition transpose_step :: "nat \<Rightarrow> nat \<Rightarrow> nat \<Rightarrow> nat list \<Rightarrow> nat list" where
  "transpose_step j msk k rows =
     (let t = (drop_bit j (rows ! k) XOR rows ! (k + j)) AND msk;
          rows' = rows[k := rows ! k XOR push_bit j t]
      in rows'[k + j := rows' ! (k + j) XOR t])"

function transpose_inner :: "nat \<Rightarrow> nat \<Rightarrow> nat \<Rightarrow> nat list \<Rightarrow> nat list" where
  "transpose_inner j msk k rows =
     (if k < 16
      then let rows' = transpose_step j msk k rows;
               k' = nat (int (k + j + 1) AND NOT (int j))
           in if k < k' then transpose_inner j msk k' rows' else rows'
      else rows)"
  by pat_completeness auto
termination
  by (relation "measure (\<lambda>(j, msk, k, rows). 16 - k)") auto

declare transpose_inner.simps [simp del]

function transpose_outer :: "nat \<Rightarrow> nat \<Rightarrow> nat list \<Rightarrow> nat list" where
  "transpose_outer j msk rows =
     (if j \<noteq> 0
      then let rows' = transpose_inner j msk 0 rows; j' = j div 2
           in transpose_outer j' (to_u32 (msk XOR push_bit j' msk)) rows'
      else rows)"
  by pat_completeness auto
termination
  by (relation "measure (\<lambda>(j, msk, rows). j)") auto

declare transpose_outer.simps [simp del]

definition affine4_rows :: "bch_control \<Rightarrow> nat \<Rightarrow> nat \<Rightarrow> nat \<Rightarrow> nat list" where
  "affine4_rows bch a b c =
     (let j = a_log bch b; k = a_log bch a
      in fold (\<lambda>i rows. rows[i + 1 :=
                  a_pow_tab bch ! (4 * i)
                  XOR (if a \<noteq> 0 then a_pow_tab bch ! mod_s bch (k + 2 * i) else 0)
                  XOR (if b \<noteq> 0 then a_pow_tab bch ! mod_s bch (j + i) else 0)])
           [0..<GF_M bch] ((replicate 16 0)[0 := c]))"

definition find_affine4_roots :: "bch_control \<Rightarrow> nat \<Rightarrow> nat \<Rightarrow> nat \<Rightarrow> nat list" where
  "find_affine4_roots bch a b c =
     solve_linear_system bch (transpose_outer 8 0xff (affine4_rows bch a b c)) 4"

section \<open>Roots of polynomials of degree at most 4\<close>

text \<open>Roots are returned as logarithms of their inverses.\<close>

definition find_poly_deg1_roots :: "bch_control \<Rightarrow> gf_poly \<Rightarrow> nat list" where
  "find_poly_deg1_roots bch poly =
     (if poly_c poly ! 0 \<noteq> 0
      then [mod_s bch (GF_N bch - a_log_tab bch ! (poly_c poly ! 0) + a_log_tab bch ! (poly_c poly ! 1))]
      else [])"

function sum_xi :: "nat list \<Rightarrow> nat \<Rightarrow> nat \<Rightarrow> nat" where
  "sum_xi xi v r =
     (if v \<noteq> 0
      then let i = nat (deg v) in sum_xi xi (v XOR 2 ^ i) (r XOR xi ! i)
      else r)"
  by pat_completeness auto

lemma nat_deg: "nat (deg v) = fls v - 1"
  by (simp add: deg_def nat_diff_distrib')

lemma xor_top_less: "v \<noteq> 0 \<Longrightarrow> v XOR 2 ^ nat (deg v) < (v::nat)"
  using fls_bits [OF _ refl, of v]
  by (intro nat_less_of_top_bit [of v "nat (deg v)"]) (auto simp: nat_deg bit_xor_iff bit_exp_iff)

termination sum_xi
  by (relation "measure (\<lambda>(xi, v, r). v)") (auto simp: xor_top_less)

declare sum_xi.simps [simp del]

definition find_poly_deg2_roots :: "bch_control \<Rightarrow> gf_poly \<Rightarrow> nat list" where
  "find_poly_deg2_roots bch poly =
     (let c0 = poly_c poly ! 0; c1 = poly_c poly ! 1; c2 = poly_c poly ! 2
      in if c0 \<noteq> 0 \<and> c1 \<noteq> 0
         then let l0 = a_log_tab bch ! c0; l1 = a_log_tab bch ! c1; l2 = a_log_tab bch ! c2;
                  u = a_pow bch (int (l0 + l2 + 2 * (GF_N bch - l1)));
                  r = sum_xi (xi_tab bch) u 0
              in if gf_sqr bch r XOR r = u
                 then [modulo bch (2 * GF_N bch - l1 - a_log_tab bch ! r + l2),
                       modulo bch (2 * GF_N bch - l1 - a_log_tab bch ! (r XOR 1) + l2)]
                 else []
         else [])"

definition find_poly_deg3_roots :: "bch_control \<Rightarrow> gf_poly \<Rightarrow> nat list" where
  "find_poly_deg3_roots bch poly =
     (if poly_c poly ! 0 \<noteq> 0
      then let e3 = poly_c poly ! 3;
               c2 = gf_div bch (poly_c poly ! 0) e3;
               b2 = gf_div bch (poly_c poly ! 1) e3;
               a2 = gf_div bch (poly_c poly ! 2) e3;
               c = gf_mul bch a2 c2;
               b = gf_mul bch a2 b2 XOR c2;
               a = gf_sqr bch a2 XOR b2;
               tmp = find_affine4_roots bch a b c
           in if length tmp = 4 then map (a_ilog bch) (filter (\<lambda>x. x \<noteq> a2) tmp) else []
      else [])"

text \<open>
  The change of variables of \<open>find_poly_deg4_roots\<close>: the coefficients
  \<open>(a2, b2, c2)\<close> of the affine polynomial and the shift \<open>e\<close>;
  \<open>None\<close> is the early return on \<open>d = 0\<close>.
\<close>

definition deg4_affine ::
  "bch_control \<Rightarrow> nat \<Rightarrow> nat \<Rightarrow> nat \<Rightarrow> nat \<Rightarrow> (nat \<times> nat \<times> nat \<times> nat) option" where
  "deg4_affine bch a b c d =
     (if a \<noteq> 0
      then let f = gf_div bch c a;
               l0 = a_log bch f;
               l = l0 + (if odd l0 then GF_N bch else 0);
               e = (if c \<noteq> 0 then a_pow bch (int (l div 2)) else 0);
               d' = (if c \<noteq> 0 then (a_pow bch (2 * int l) XOR gf_mul bch b f) XOR d else d);
               b' = (if c \<noteq> 0 then gf_mul bch a e XOR b else b)
           in if d' = 0 then None
              else Some (gf_div bch b' d', gf_div bch a d', gf_inv bch d', e)
      else Some (b, c, d, 0))"

definition find_poly_deg4_roots :: "bch_control \<Rightarrow> gf_poly \<Rightarrow> nat list" where
  "find_poly_deg4_roots bch poly =
     (if poly_c poly ! 0 = 0 then []
      else let e4 = poly_c poly ! 4;
               d = gf_div bch (poly_c poly ! 0) e4;
               c = gf_div bch (poly_c poly ! 1) e4;
               b = gf_div bch (poly_c poly ! 2) e4;
               a = gf_div bch (poly_c poly ! 3) e4
           in case deg4_affine bch a b c d of
                None \<Rightarrow> []
              | Some (a2, b2, c2, e) \<Rightarrow>
                  let roots = find_affine4_roots bch a2 b2 c2
                  in if length roots = 4
                     then map (\<lambda>r. let f = (if a \<noteq> 0 then gf_inv bch r else r) in a_ilog bch (f XOR e)) roots
                     else [])"

section \<open>Euclidean division\<close>

definition gf_poly_copy :: "gf_poly \<Rightarrow> gf_poly \<Rightarrow> gf_poly" where
  "gf_poly_copy dst src =
     \<lparr>poly_deg = poly_deg src,
      poly_c = take (poly_deg src + 1) (poly_c src) @ drop (poly_deg src + 1) (poly_c dst)\<rparr>"

text \<open>\<open>gf_poly_logrep\<close>: logarithms of the coefficients of \<open>a\<close> divided by its leading one, -1 for zero.\<close>

definition gf_poly_logrep :: "bch_control \<Rightarrow> gf_poly \<Rightarrow> int list" where
  "gf_poly_logrep bch a =
     (let d = poly_deg a; l = GF_N bch - a_log bch (poly_c a ! d)
      in map (\<lambda>i. if poly_c a ! i \<noteq> 0 then int (mod_s bch (a_log bch (poly_c a ! i) + l)) else -1) [0..<d])"

text \<open>The body of the loop over \<open>j\<close> of \<open>gf_poly_mod\<close> for \<open>j = p + d\<close>.\<close>

definition poly_mod_step :: "bch_control \<Rightarrow> int list \<Rightarrow> nat \<Rightarrow> nat \<Rightarrow> nat list \<Rightarrow> nat list" where
  "poly_mod_step bch rep d j c =
     (if c ! j \<noteq> 0
      then let la = a_log bch (c ! j)
           in fold (\<lambda>i c. if 0 \<le> rep ! i
                         then c[j - d + i := c ! (j - d + i) XOR a_pow_tab bch ! mod_s bch (nat (rep ! i) + la)]
                         else c) [0..<d] c
      else c)"

fun trim_deg :: "nat list \<Rightarrow> nat \<Rightarrow> nat" where
  "trim_deg c 0 = 0"
| "trim_deg c (Suc d) = (if c ! Suc d = 0 then trim_deg c d else Suc d)"

text \<open>
  \<open>gf_poly_mod\<close> with the log representation \<open>rep\<close> of the divisor.  The
  callers pass a divisor of positive degree (for degree 0 the C loop, on an
  unsigned index, would not end).
\<close>

definition gf_poly_mod_rep :: "bch_control \<Rightarrow> gf_poly \<Rightarrow> gf_poly \<Rightarrow> int list \<Rightarrow> gf_poly" where
  "gf_poly_mod_rep bch a b rep =
     (let d = poly_deg b
      in if poly_deg a < d then a
         else let c = fold (poly_mod_step bch rep d) (rev [d..<Suc (poly_deg a)]) (poly_c a)
              in \<lparr>poly_deg = trim_deg c (d - 1), poly_c = c\<rparr>)"

definition gf_poly_mod :: "bch_control \<Rightarrow> gf_poly \<Rightarrow> gf_poly \<Rightarrow> int list option \<Rightarrow> gf_poly" where
  "gf_poly_mod bch a b rep =
     gf_poly_mod_rep bch a b (case rep of Some r \<Rightarrow> r | None \<Rightarrow> gf_poly_logrep bch b)"

text \<open>\<open>gf_poly_div\<close> returns the modified \<open>a\<close> and the quotient written over \<open>q\<close>.\<close>

definition gf_poly_div :: "bch_control \<Rightarrow> gf_poly \<Rightarrow> gf_poly \<Rightarrow> gf_poly \<Rightarrow> gf_poly \<times> gf_poly" where
  "gf_poly_div bch a b q =
     (if poly_deg b \<le> poly_deg a
      then let qd = poly_deg a - poly_deg b;
               a' = gf_poly_mod bch a b None
           in (a', \<lparr>poly_deg = qd,
                    poly_c = take (1 + qd) (drop (poly_deg b) (poly_c a')) @ drop (1 + qd) (poly_c q)\<rparr>)
      else (a, \<lparr>poly_deg = 0, poly_c = (poly_c q)[0 := 0]\<rparr>))"

lemma trim_deg_le: "trim_deg c d \<le> d"
  by (induction c d rule: trim_deg.induct) auto

lemma gf_poly_mod_deg_less: "0 < poly_deg b \<Longrightarrow> poly_deg (gf_poly_mod bch a b rep) < poly_deg b"
  by (auto simp: gf_poly_mod_def gf_poly_mod_rep_def Let_def intro!: le_less_trans [OF trim_deg_le])

function gcd_loop :: "bch_control \<Rightarrow> gf_poly \<Rightarrow> gf_poly \<Rightarrow> gf_poly" where
  "gcd_loop bch a b =
     (if 0 < poly_deg b then gcd_loop bch b (gf_poly_mod bch a b None) else a)"
  by pat_completeness auto
termination
  by (relation "measure (\<lambda>(bch, a, b). poly_deg b)") (auto simp: gf_poly_mod_deg_less)

declare gcd_loop.simps [simp del]

definition gf_poly_gcd :: "bch_control \<Rightarrow> gf_poly \<Rightarrow> gf_poly \<Rightarrow> gf_poly" where
  "gf_poly_gcd bch a b =
     (if poly_deg a < poly_deg b then gcd_loop bch b a else gcd_loop bch a b)"

section \<open>The Berlekamp trace algorithm\<close>

text \<open>One pass of the loop over \<open>j\<close>: add \<open>z\<close> to \<open>out\<close> and square it in place.\<close>

definition trace_add_sqr :: "bch_control \<Rightarrow> nat \<Rightarrow> nat list \<times> nat list \<Rightarrow> nat list \<times> nat list" where
  "trace_add_sqr bch j zo =
     (case zo of (zc, oc) \<Rightarrow>
       (zc[2 * j := gf_sqr bch (zc ! j), 2 * j + 1 := 0], oc[j := oc ! j XOR zc ! j]))"

definition trace_step ::
  "bch_control \<Rightarrow> gf_poly \<Rightarrow> int list \<Rightarrow> nat \<Rightarrow> gf_poly \<times> gf_poly \<Rightarrow> gf_poly \<times> gf_poly" where
  "trace_step bch f rep i zo =
     (case zo of (z, out) \<Rightarrow>
       case fold (trace_add_sqr bch) (rev [0..<Suc (poly_deg z)]) (poly_c z, poly_c out) of (zc, oc) \<Rightarrow>
         let out' = \<lparr>poly_deg = (if poly_deg out < poly_deg z then poly_deg z else poly_deg out), poly_c = oc\<rparr>;
             z' = \<lparr>poly_deg = poly_deg z, poly_c = zc\<rparr>
         in if i < GF_M bch - 1
            then (gf_poly_mod bch \<lparr>poly_deg = poly_deg z * 2, poly_c = zc\<rparr> f (Some rep), out')
            else (z', out'))"

definition compute_trace_bk_mod :: "bch_control \<Rightarrow> nat \<Rightarrow> gf_poly \<Rightarrow> gf_poly \<Rightarrow> gf_poly \<Rightarrow> gf_poly" where
  "compute_trace_bk_mod bch k f z out =
     (let z0 = \<lparr>poly_deg = 1, poly_c = (poly_c z)[0 := 0, 1 := a_pow_tab bch ! k]\<rparr>;
          out0 = \<lparr>poly_deg = 0, poly_c = replicate (poly_deg f + 1) 0 @ drop (poly_deg f + 1) (poly_c out)\<rparr>;
          out1 = snd (fold (trace_step bch f (gf_poly_logrep bch f)) [0..<GF_M bch] (z0, out0))
      in out1\<lparr>poly_deg := trim_deg (poly_c out1) (poly_deg out1)\<rparr>)"

text \<open>
  \<open>factor_polynomial\<close> returns the factors \<open>*g\<close> and \<open>*h\<close>.  The four
  \<open>poly_2t\<close> buffers start as zero polynomials here: each is written before it is read.
  The C code stores both factors over \<open>f\<close>, \<open>*h\<close> at offset
  \<open>12 * deg g\<close> bytes, past the \<open>8 + 4 * deg g\<close> bytes of \<open>*g\<close>, whose
  degree is at least 1; the model returns the two as values.
\<close>

definition poly_2t_buf :: "bch_control \<Rightarrow> gf_poly" where
  "poly_2t_buf bch = \<lparr>poly_deg = 0, poly_c = replicate (2 * GF_T bch + 1) 0\<rparr>"

definition factor_polynomial :: "bch_control \<Rightarrow> nat \<Rightarrow> gf_poly \<Rightarrow> gf_poly \<times> gf_poly option" where
  "factor_polynomial bch k f =
     (let buf = poly_2t_buf bch;
          tk = compute_trace_bk_mod bch k f buf buf
      in if 0 < poly_deg tk
         then let f2 = gf_poly_copy buf f;
                  gcd = gf_poly_gcd bch f2 tk
              in if poly_deg gcd < poly_deg f
                 then case gf_poly_div bch f gcd buf of (f', q) \<Rightarrow> (gf_poly_copy f' gcd, Some (gf_poly_copy buf q))
                 else (f, None)
         else (f, None))"

function find_poly_roots :: "bch_control \<Rightarrow> nat \<Rightarrow> gf_poly \<Rightarrow> nat list" where
  "find_poly_roots bch k poly =
     (if poly_deg poly = 1 then find_poly_deg1_roots bch poly
      else if poly_deg poly = 2 then find_poly_deg2_roots bch poly
      else if poly_deg poly = 3 then find_poly_deg3_roots bch poly
      else if poly_deg poly = 4 then find_poly_deg4_roots bch poly
      else if poly_deg poly \<noteq> 0 \<and> k \<le> GF_M bch
           then case factor_polynomial bch k poly of (f1, f2) \<Rightarrow>
                  find_poly_roots bch (k + 1) f1 @
                  (case f2 of Some f \<Rightarrow> find_poly_roots bch (k + 1) f | None \<Rightarrow> [])
           else [])"
  by pat_completeness auto
termination
  by (relation "measure (\<lambda>(bch, k, poly). GF_M bch + 1 - k)") auto

declare find_poly_roots.simps [simp del]

section \<open>Exhaustive search\<close>

text \<open>
  \<open>chien_search\<close>, compiled under \<open>USE_CHIEN_SEARCH\<close>.  The loop over
  \<open>i\<close> stops at the degree of the polynomial.
\<close>

definition chien_eval :: "bch_control \<Rightarrow> gf_poly \<Rightarrow> int list \<Rightarrow> nat \<Rightarrow> nat \<Rightarrow> nat" where
  "chien_eval bch p rep syn0 i =
     fold (\<lambda>j syn. if 0 \<le> rep ! j then syn XOR a_pow bch (rep ! j + int (j * i)) else syn)
       [1..<Suc (poly_deg p)] syn0"

function chien_loop :: "bch_control \<Rightarrow> gf_poly \<Rightarrow> int list \<Rightarrow> nat \<Rightarrow> nat \<Rightarrow> nat list \<Rightarrow> nat list" where
  "chien_loop bch p rep syn0 i roots =
     (if i \<le> GF_N bch
      then if chien_eval bch p rep syn0 i = 0
           then let roots' = roots @ [GF_N bch - i]
                in if length roots' = poly_deg p then roots'
                   else chien_loop bch p rep syn0 (Suc i) roots'
           else chien_loop bch p rep syn0 (Suc i) roots
      else roots)"
  by pat_completeness auto
termination
  by (relation "measure (\<lambda>(bch, p, rep, syn0, i, roots). Suc (GF_N bch) - i)") auto

declare chien_loop.simps [simp del]

definition chien_search :: "bch_control \<Rightarrow> nat \<Rightarrow> gf_poly \<Rightarrow> nat list" where
  "chien_search bch len p =
     (let k = 8 * len + ecc_bits bch;
          rep = gf_poly_logrep bch p @ [0];
          syn0 = gf_div bch (poly_c p ! 0) (poly_c p ! poly_deg p);
          roots = chien_loop bch p rep syn0 (GF_N bch + 1 - k) []
      in if length roots = poly_deg p then roots else [])"

end
