(* ===== verification/Bch_Decode.thy ===== *)
theory Bch_Decode
  imports Bch_Poly
begin

text \<open>
  The decoder of lib/bch.c: \<open>compute_syndromes\<close>, the simplified binary
  Berlekamp-Massey algorithm \<open>compute_error_locator_polynomial\<close> and
  \<open>decode_bch\<close> with its four ways of calling it.
\<close>

section \<open>Definitions\<close>

text \<open>
  \<open>compute_syndromes\<close>.  \<open>syn_bits\<close> is the \<open>while (poly)\<close> loop
  for the word whose lowest bit has weight \<open>s\<close> (negative in the last word,
  whose unused low bits are cleared first), \<open>syn_words\<close> the
  \<open>do ... while (s > 0)\<close> loop over the words, \<open>s\<close> being the value
  before the decrement.
\<close>

definition clear_extra_bits :: "nat \<Rightarrow> u32 list \<Rightarrow> u32 list" where
  "clear_extra_bits s ecc =
     (let m = s mod 32
      in if m \<noteq> 0 then ecc[s div 32 := ecc ! (s div 32) AND NOT (push_bit (32 - m) 1 - 1)] else ecc)"

definition syn_add :: "bch_control \<Rightarrow> int \<Rightarrow> nat list \<Rightarrow> nat list" where
  "syn_add bch e syn =
     fold (\<lambda>h syn. syn[2 * h := syn ! (2 * h) XOR a_pow bch ((int (2 * h) + 1) * e)]) [0..<GF_T bch] syn"

function syn_bits :: "bch_control \<Rightarrow> int \<Rightarrow> nat \<Rightarrow> nat list \<Rightarrow> nat list" where
  "syn_bits bch s poly syn =
     (if poly \<noteq> 0
      then let i = nat (deg poly) in syn_bits bch s (poly XOR 2 ^ i) (syn_add bch (int i + s) syn)
      else syn)"
  by pat_completeness auto
termination
  by (relation "measure (\<lambda>(bch, s, poly, syn). poly)") (auto simp: xor_top_less)

declare syn_bits.simps [simp del]

fun syn_words :: "bch_control \<Rightarrow> int \<Rightarrow> u32 list \<Rightarrow> nat list \<Rightarrow> nat list" where
  "syn_words bch s [] syn = syn"
| "syn_words bch s (w # ecc) syn =
     (let syn' = syn_bits bch (s - 32) (unat w) syn
      in if s - 32 > 0 then syn_words bch (s - 32) ecc syn' else syn')"

definition compute_syndromes :: "bch_control \<Rightarrow> u32 list \<Rightarrow> u32 list \<times> nat list" where
  "compute_syndromes bch ecc =
     (let ecc' = clear_extra_bits (ecc_bits bch) ecc;
          syn = syn_words bch (int (ecc_bits bch)) ecc' (replicate (2 * GF_T bch) 0)
      in (ecc', fold (\<lambda>j syn. syn[2 * j + 1 := gf_sqr bch (syn ! j)]) [0..<GF_T bch] syn))"

text \<open>
  The local variables of \<open>compute_error_locator_polynomial\<close>.
\<close>

record bm_state =
  bm_d :: nat
  bm_pd :: nat
  bm_pp :: int
  bm_pelp :: gf_poly
  bm_elp_copy :: gf_poly
  bm_elp :: gf_poly

text \<open>The branch \<open>if (d)\<close> of the loop body.\<close>

definition bm_update :: "bch_control \<Rightarrow> nat \<Rightarrow> bm_state \<Rightarrow> bm_state" where
  "bm_update bch i s =
     (let k = nat (2 * int i - bm_pp s);
          pelp = bm_pelp s;
          elp_copy = gf_poly_copy (bm_elp_copy s) (bm_elp s);
          tmp = a_log bch (bm_d s) + GF_N bch - a_log bch (bm_pd s);
          c = fold (\<lambda>j c. if poly_c pelp ! j \<noteq> 0
                        then c[j + k := c ! (j + k) XOR a_pow bch (int (tmp + a_log bch (poly_c pelp ! j)))]
                        else c) [0..<Suc (poly_deg pelp)] (poly_c (bm_elp s));
          tmp2 = poly_deg pelp + k
      in if tmp2 > poly_deg (bm_elp s)
         then s\<lparr>bm_elp := \<lparr>poly_deg = tmp2, poly_c = c\<rparr>, bm_elp_copy := elp_copy,
                bm_pelp := gf_poly_copy pelp elp_copy, bm_pd := bm_d s, bm_pp := 2 * int i\<rparr>
         else s\<lparr>bm_elp := \<lparr>poly_deg = poly_deg (bm_elp s), poly_c = c\<rparr>, bm_elp_copy := elp_copy\<rparr>)"

text \<open>The discrepancy of the next iteration.\<close>

definition bm_discrepancy :: "bch_control \<Rightarrow> nat list \<Rightarrow> nat \<Rightarrow> gf_poly \<Rightarrow> nat" where
  "bm_discrepancy bch syn i e =
     fold (\<lambda>j d. d XOR gf_mul bch (poly_c e ! j) (syn ! (2 * i + 2 - j))) [1..<Suc (poly_deg e)] (syn ! (2 * i + 2))"

definition bm_step :: "bch_control \<Rightarrow> nat list \<Rightarrow> nat \<Rightarrow> bm_state \<Rightarrow> bm_state" where
  "bm_step bch syn i s =
     (let s' = (if bm_d s \<noteq> 0 then bm_update bch i s else s)
      in if i < GF_T bch - 1 then s'\<lparr>bm_d := bm_discrepancy bch syn i (bm_elp s')\<rparr> else s')"

function bm_loop :: "bch_control \<Rightarrow> nat list \<Rightarrow> nat \<Rightarrow> bm_state \<Rightarrow> bm_state" where
  "bm_loop bch syn i s =
     (if i < GF_T bch \<and> poly_deg (bm_elp s) \<le> GF_T bch
      then bm_loop bch syn (Suc i) (bm_step bch syn i s)
      else s)"
  by pat_completeness auto
termination
  by (relation "measure (\<lambda>(bch, syn, i, s). GF_T bch - i)") auto

declare bm_loop.simps [simp del]

definition bm_init :: "bch_control \<Rightarrow> nat list \<Rightarrow> bm_state" where
  "bm_init bch syn =
     (let one = (poly_2t_buf bch)\<lparr>poly_c := (poly_c (poly_2t_buf bch))[0 := 1]\<rparr>
      in \<lparr>bm_d = syn ! 0, bm_pd = 1, bm_pp = -1, bm_pelp = one, bm_elp_copy = poly_2t_buf bch, bm_elp = one\<rparr>)"

definition compute_error_locator_polynomial :: "bch_control \<Rightarrow> nat list \<Rightarrow> int \<times> gf_poly" where
  "compute_error_locator_polynomial bch syn =
     (let e = bm_elp (bm_loop bch syn 0 (bm_init bch syn))
      in (if poly_deg e > GF_T bch then -1 else int (poly_deg e), e))"

text \<open>
  The final loop of \<open>decode_bch\<close> over the raw error locations.  The boolean
  is false when a location is out of range (\<open>err = -1; break\<close>).
\<close>

definition errloc_bit :: "nat \<Rightarrow> nat \<Rightarrow> nat" where
  "errloc_bit nbits e = (let p = nbits - 1 - e in 8 * (p div 8) + (7 - p mod 8))"

fun fix_errloc :: "nat \<Rightarrow> nat list \<Rightarrow> bool \<times> nat list" where
  "fix_errloc nbits [] = (True, [])"
| "fix_errloc nbits (e # es) =
     (if nbits \<le> e then (False, e # es)
      else case fix_errloc nbits es of (ok, es') \<Rightarrow> (ok, errloc_bit nbits e # es'))"

text \<open>
  Everything after the syndromes: locate the errors.  The result is the return
  value and the part of \<open>errloc\<close> that was written.
\<close>

definition locate_errors :: "bch_control \<Rightarrow> nat \<Rightarrow> nat list \<Rightarrow> int \<times> nat list" where
  "locate_errors bch len syn =
     (case compute_error_locator_polynomial bch syn of (err, e) \<Rightarrow>
        if err > 0
        then let roots = find_poly_roots bch 1 e
             in if err \<noteq> int (length roots) then (-EBADMSG, roots)
                else case fix_errloc (to_u32 (len * 8 + ecc_bits bch)) roots of
                       (ok, locs) \<Rightarrow> if ok then (err, locs) else (-EBADMSG, locs)
        else (if err = 0 then 0 else -EBADMSG, []))"

text \<open>
  \<open>decode_bch\<close>.  A null pointer is \<open>None\<close>; \<open>data\<close> is an address
  with the bytes found there.  \<open>8 * len\<close> is computed in 32-bit arithmetic.
\<close>

definition decode_bch ::
  "bch_control \<Rightarrow> (nat \<times> u8 list) option \<Rightarrow> nat \<Rightarrow> u8 list option \<Rightarrow> u8 list option \<Rightarrow> nat list option
     \<Rightarrow> int \<times> nat list \<times> bch_control" where
  "decode_bch bch data len recv_ecc calc_ecc syn =
     (if to_u32 (8 * len) > bch_n bch - ecc_bits bch then (-EINVAL, [], bch)
      else case syn of
        Some s \<Rightarrow> (case locate_errors bch len s of (r, locs) \<Rightarrow> (r, locs, bch))
      | None \<Rightarrow>
          (case (case calc_ecc of
                   Some ce \<Rightarrow> Some (bch\<lparr>ecc_buf := load_ecc8 bch ce\<rparr>)
                 | None \<Rightarrow> (case (data, recv_ecc) of
                              (Some (addr, bytes), Some _) \<Rightarrow> Some (fst (encode_bch bch addr (take len bytes) None))
                            | _ \<Rightarrow> None)) of
             None \<Rightarrow> (-EINVAL, [], bch)
           | Some bch1 \<Rightarrow>
               let bch2 = (case recv_ecc of
                             Some re \<Rightarrow>
                               let buf2 = load_ecc8 bch1 re
                               in bch1\<lparr>ecc_buf2 := buf2, ecc_buf := map2 (XOR) (ecc_buf bch1) buf2\<rparr>
                           | None \<Rightarrow> bch1)
               in if recv_ecc \<noteq> None \<and> list_all (\<lambda>w. w = 0) (ecc_buf bch2) then (0, [], bch2)
                  else case compute_syndromes bch2 (ecc_buf bch2) of (ecc', s) \<Rightarrow>
                    case locate_errors bch2 len s of (r, locs) \<Rightarrow> (r, locs, bch2\<lparr>ecc_buf := ecc'\<rparr>)))"


section \<open>Syndromes\<close>

text \<open>
  The value at \<open>a ^ e\<close> of the binary polynomial whose coefficient of degree
  \<open>k < len\<close> is \<open>P k\<close>.
\<close>

definition eval2 :: "nat \<Rightarrow> nat \<Rightarrow> nat \<Rightarrow> (nat \<Rightarrow> bool) \<Rightarrow> nat \<Rightarrow> nat" where
  "eval2 m p e P len = xsum (\<lambda>k. if P k then gf_alpha m p (e * k) else 0) len"

text \<open>The coefficient of degree \<open>k\<close> in a register that holds \<open>s\<close> left-justified bits.\<close>

definition ecc_coeff :: "nat \<Rightarrow> u32 list \<Rightarrow> nat \<Rightarrow> bool" where
  "ecc_coeff s ws k \<longleftrightarrow> bit (ws ! ((s - 1 - k) div 32)) (31 - (s - 1 - k) mod 32)"

lemma eval2_cong: "(\<And>k. k < n \<Longrightarrow> P k = Q k) \<Longrightarrow> eval2 m p e P n = eval2 m p e Q n"
  unfolding eval2_def by (rule xsum_cong) simp

lemma eval2_xor: "eval2 m p e (\<lambda>k. P k \<noteq> Q k) n = eval2 m p e P n XOR eval2 m p e Q n"
  unfolding eval2_def xsum_xor [symmetric] by (rule xsum_cong) auto

lemma eval2_single: "i < n \<Longrightarrow> eval2 m p e (\<lambda>k. k = i) n = gf_alpha m p (e * i)"
  unfolding eval2_def using xsum_single [of i n "\<lambda>k. gf_alpha m p (e * k)"] by simp

lemma syn_add_length [simp]: "length (syn_add bch e syn) = length syn"
proof -
  have "length (fold (\<lambda>h syn. syn[2 * h := syn ! (2 * h) XOR f h]) hs syn) = length syn" for f hs and syn :: "nat list"
    by (induction hs arbitrary: syn) simp_all
  then show ?thesis by (simp add: syn_add_def)
qed

lemma syn_add_nth:
  assumes "h < GF_T bch" and "length syn = 2 * GF_T bch"
  shows "syn_add bch e syn ! (2 * h) = syn ! (2 * h) XOR a_pow bch ((int (2 * h) + 1) * e)"
proof -
  have "fold (\<lambda>h syn. syn[2 * h := syn ! (2 * h) XOR f h]) [0..<n] syn ! (2 * h) =
      (if h < n then syn ! (2 * h) XOR f h else syn ! (2 * h))
      \<and> length (fold (\<lambda>h syn. syn[2 * h := syn ! (2 * h) XOR f h]) [0..<n] syn) = length syn" for f n
    using assms by (induction n) (auto simp: nth_list_update less_Suc_eq)
  with assms(1) show ?thesis unfolding syn_add_def by simp
qed

lemma syn_bits_length [simp]: "length (syn_bits bch s poly syn) = length syn"
proof (induction bch s poly syn rule: syn_bits.induct)
  case (1 bch s poly syn)
  then show ?case by (subst syn_bits.simps) (simp add: Let_def)
qed

lemma syn_bits_nth:
  assumes "h < GF_T bch" and "length syn = 2 * GF_T bch" and "poly < 2 ^ n"
  shows "syn_bits bch s poly syn ! (2 * h) =
         syn ! (2 * h) XOR xsum (\<lambda>i. if bit poly i then a_pow bch ((int (2 * h) + 1) * (int i + s)) else 0) n"
  using assms
proof (induction bch s poly syn rule: syn_bits.induct)
  case (1 bch s poly syn)
  let ?f = "\<lambda>i. a_pow bch ((int (2 * h) + 1) * (int i + s))"
  show ?case
  proof (cases "poly = 0")
    case True
    then show ?thesis by (subst syn_bits.simps) simp
  next
    case False
    define i where "i = nat (deg poly)"
    have i: "i = fls poly - 1" by (simp add: i_def nat_deg)
    note b = fls_bits [OF False i]
    have "(2::nat) ^ i < 2 ^ n" using b(1) "1.prems"(3) by (rule le_less_trans)
    then have "i < n" by simp
    have less: "poly XOR 2 ^ i < 2 ^ n"
      using xor_top_less [OF False] "1.prems"(3) by (simp add: i_def)
    have "xsum (\<lambda>k. if bit poly k then ?f k else 0) n =
        xsum (\<lambda>k. (if bit (poly XOR 2 ^ i) k then ?f k else 0) XOR (if k = i then ?f k else 0)) n"
      by (rule xsum_cong) (use b(2) in \<open>auto simp: bit_xor_iff bit_exp_iff\<close>)
    also have "\<dots> = xsum (\<lambda>k. if bit (poly XOR 2 ^ i) k then ?f k else 0) n XOR ?f i"
      unfolding xsum_xor using xsum_single [OF \<open>i < n\<close>, of ?f] by simp
    finally have sum: "xsum (\<lambda>k. if bit poly k then ?f k else 0) n = \<dots>" .
    have "syn_bits bch s poly syn = syn_bits bch s (poly XOR 2 ^ i) (syn_add bch (int i + s) syn)"
      using False by (subst syn_bits.simps) (simp add: i_def Let_def)
    then show ?thesis
      using "1.IH" [OF False i_def "1.prems"(1)] "1.prems" less
      by (simp only: sum) (simp add: syn_add_nth xor_simps)
  qed
qed

text \<open>The words of the register, most significant first, contribute the coefficients of degree below \<open>s\<close>.\<close>

lemma ecc_coeff_Cons:
  assumes "32 < s"
  shows "k < s - 32 \<Longrightarrow> ecc_coeff s (w # ws) k = ecc_coeff (s - 32) ws k"
    and "i < 32 \<Longrightarrow> ecc_coeff s (w # ws) (s - 32 + i) = bit w i"
proof -
  assume k: "k < s - 32"
  define j where "j = s - 32 - 1 - k"
  have j: "s - 1 - k = 32 + j" using k by (simp add: j_def)
  show "ecc_coeff s (w # ws) k = ecc_coeff (s - 32) ws k"
    using div_add_self1 [of 32 j] unfolding ecc_coeff_def j j_def [symmetric] by simp
next
  assume "i < 32"
  then have "s - 1 - (s - 32 + i) = 31 - i" using assms by simp
  moreover have "31 - (31 - i) mod 32 = i" using \<open>i < 32\<close> by simp
  ultimately show "ecc_coeff s (w # ws) (s - 32 + i) = bit w i"
    unfolding ecc_coeff_def by simp
qed

lemma ecc_coeff_last:
  assumes "k < s" and "s \<le> 32"
  shows "ecc_coeff s (w # ws) k = bit w (k + (32 - s))"
proof -
  have "31 - (s - 1 - k) mod 32 = k + (32 - s)" "(s - 1 - k) div 32 = 0" using assms by simp_all
  then show ?thesis unfolding ecc_coeff_def by (simp only: nth_Cons_0)
qed

lemma bit_unat_u32: "bit (unat (w :: u32)) k = bit w k"
  by (auto simp: bit_unsigned_iff dest: bit_imp_le_length)

lemma unat_u32_less: "unat (w :: u32) < 2 ^ 32"
  using unsigned_less [of w, where 'a = nat] by simp

definition extra_clear :: "nat \<Rightarrow> u32 list \<Rightarrow> bool" where
  "extra_clear s ws \<longleftrightarrow> (s mod 32 \<noteq> 0 \<longrightarrow> (\<forall>k < 32 - s mod 32. \<not> bit (ws ! (s div 32)) k))"

lemma syn_words_length [simp]: "length (syn_words bch s ws syn) = length syn"
  by (induction bch s ws syn rule: syn_words.induct) (simp_all add: Let_def)

lemma syn_words_nth:
  assumes "h < GF_T bch" and "length syn = 2 * GF_T bch" and "0 < s" and "s \<le> 32 * length ws" and "extra_clear s ws"
  shows "syn_words bch (int s) ws syn ! (2 * h) =
         syn ! (2 * h) XOR xsum (\<lambda>k. if ecc_coeff s ws k then a_pow bch ((int (2 * h) + 1) * int k) else 0) s"
  using assms
proof (induction ws arbitrary: s syn)
  case (Cons w ws)
  let ?f = "\<lambda>k. a_pow bch ((int (2 * h) + 1) * k)"
  let ?syn = "syn_bits bch (int s - 32) (unat w) syn"
  have bits: "?syn ! (2 * h) = syn ! (2 * h) XOR xsum (\<lambda>i. if bit w i then ?f (int i + (int s - 32)) else 0) 32"
    using syn_bits_nth [OF Cons.prems(1,2) unat_u32_less, of "int s - 32" w] by (simp only: bit_unat_u32)
  show ?case
  proof (cases "32 < s")
    case True
    have "s div 32 = Suc ((s - 32) div 32)" "s mod 32 = (s - 32) mod 32"
      using True by (simp_all add: le_div_geq le_mod_geq)
    then have "extra_clear (s - 32) ws" using Cons.prems(5) unfolding extra_clear_def by simp
    then have ih: "syn_words bch (int (s - 32)) ws ?syn ! (2 * h) =
        ?syn ! (2 * h) XOR xsum (\<lambda>k. if ecc_coeff (s - 32) ws k then ?f (int k) else 0) (s - 32)"
      using True Cons.prems by (intro Cons.IH) auto
    have "xsum (\<lambda>k. if ecc_coeff s (w # ws) k then ?f (int k) else 0) (s - 32 + 32) =
        xsum (\<lambda>k. if ecc_coeff (s - 32) ws k then ?f (int k) else 0) (s - 32) XOR
        xsum (\<lambda>i. if bit w i then ?f (int i + (int s - 32)) else 0) 32"
    proof -
      have "int (s - 32 + i) = int i + (int s - 32)" for i using True by (simp add: of_nat_diff)
      then show ?thesis
        unfolding xsum_append
        by (intro arg_cong2 [where f = "(XOR)"] xsum_cong) (simp_all only: ecc_coeff_Cons [OF True])
    qed
    with ih bits True show ?thesis
      by (simp add: Let_def of_nat_diff xor_simps)
  next
    case False
    have split: "xsum (\<lambda>i. if bit w i then ?f (int i + (int s - 32)) else 0) (32 - s + s) =
        xsum (\<lambda>k. if ecc_coeff s (w # ws) k then ?f (int k) else 0) s"
    proof -
      have low: "xsum (\<lambda>i. if bit w i then ?f (int i + (int s - 32)) else 0) (32 - s) = 0"
      proof (rule xsum_eq_0)
        fix k assume k: "k < 32 - s"
        then have "s mod 32 = s" "s div 32 = 0" using Cons.prems(3) by simp_all
        with Cons.prems(3,5) k have "\<not> bit w k" by (simp add: extra_clear_def)
        then show "(if bit w k then ?f (int k + (int s - 32)) else 0) = 0" by simp
      qed
      have "xsum (\<lambda>k. if bit w (32 - s + k) then ?f (int (32 - s + k) + (int s - 32)) else 0) s =
          xsum (\<lambda>k. if ecc_coeff s (w # ws) k then ?f (int k) else 0) s"
        by (rule xsum_cong) (use False in \<open>simp add: ecc_coeff_last of_nat_diff add.commute\<close>)
      with low show ?thesis unfolding xsum_append by simp
    qed
    with bits False show ?thesis by (simp add: Let_def)
  qed
qed simp


lemma clear_extra_bits_clear:
  assumes "s \<le> 32 * length ws"
  shows "extra_clear s (clear_extra_bits s ws)" and "length (clear_extra_bits s ws) = length ws"
proof -
  show "length (clear_extra_bits s ws) = length ws" by (simp add: clear_extra_bits_def Let_def)
  show "extra_clear s (clear_extra_bits s ws)"
  proof (cases "s mod 32 = 0")
    case False
    have "s div 32 < length ws"
      using False assms by (metis div_mult_mod_eq add_0_right le_eq_less_or_eq less_mult_imp_div_less
          mod_mult_self1_is_0 mult.commute)
    moreover have "bit (push_bit n 1 - 1 :: u32) k \<longleftrightarrow> k < n" if "n \<le> 31" "k < 32" for n k
      using that by (simp add: push_bit_of_1 bit_mask_iff flip: mask_eq_exp_minus_1)
    ultimately show ?thesis
      using False by (auto simp: extra_clear_def clear_extra_bits_def Let_def bit_and_iff bit_not_iff)
  qed (simp add: extra_clear_def)
qed

lemma clear_extra_bits_coeff:
  assumes "s \<le> 32 * length ws" and "k < s"
  shows "ecc_coeff s (clear_extra_bits s ws) k = ecc_coeff s ws k"
proof (cases "s mod 32 = 0 \<or> (s - 1 - k) div 32 \<noteq> s div 32")
  case True
  then show ?thesis by (auto simp: ecc_coeff_def clear_extra_bits_def Let_def)
next
  case False
  define m q r where "m = s mod 32" and "q = s div 32" and "r = (s - 1 - k) mod 32"
  have s: "s = 32 * q + m" by (simp add: m_def q_def)
  have "s - 1 - k = 32 * q + r" using False mult_div_mod_eq [of 32 "s - 1 - k"] by (simp add: q_def r_def)
  with s assms(2) have r: "r < m" by linarith
  have m: "m < 32" "0 < m" using False by (simp_all add: m_def)
  have "\<not> 31 - r < 32 - m" using r m by linarith
  then have mk: "\<not> bit (push_bit (32 - m) 1 - 1 :: u32) (31 - r)"
    by (simp add: push_bit_of_1 bit_mask_iff flip: mask_eq_exp_minus_1)
  have "q < length ws" using s assms(1) m(2) by linarith
  moreover have "(s - Suc k) mod 32 = r" "31 - r < 32" by (simp add: r_def, linarith)
  ultimately show ?thesis
    using mk r m False by (simp add: ecc_coeff_def clear_extra_bits_def Let_def bit_and_iff bit_not_iff flip: m_def q_def r_def)
qed

text \<open>The exponents of \<open>compute_syndromes\<close> fit in an \<open>int\<close>.\<close>

definition syn_range :: "bch_control \<Rightarrow> bool" where
  "syn_range bch \<longleftrightarrow> 0 < GF_T bch \<and> 0 < ecc_bits bch \<and> 2 * GF_T bch * ecc_bits bch < 2 ^ 31"

lemma a_pow_syn:
  assumes ok: "gf_ok p bch" and r: "syn_range bch" and h: "h < GF_T bch" and k: "k < ecc_bits bch"
  shows "a_pow bch ((int (2 * h) + 1) * int k) = gf_alpha (GF_M bch) p ((2 * h + 1) * k)"
proof -
  have "(2 * h + 1) * k \<le> 2 * GF_T bch * ecc_bits bch"
    using h k by (intro mult_le_mono) simp_all
  also have "\<dots> < 2 ^ 32" using r by (simp add: syn_range_def)
  finally have "int ((2 * h + 1) * k) < int (2 ^ 32)" by (simp only: of_nat_less_iff)
  moreover have "(int (2 * h) + 1) * int k = int ((2 * h + 1) * k)" by (simp add: algebra_simps)
  ultimately show ?thesis using a_pow_alpha [OF ok, of "int ((2 * h + 1) * k)"]
    by (simp only: nat_int of_nat_0_le_iff of_nat_power of_nat_numeral)
qed

lemma gf_sqr_alpha: "gf_ok p bch \<Longrightarrow> gf_sqr bch (gf_alpha (GF_M bch) p i) = gf_alpha (GF_M bch) p (2 * i)"
  by (simp add: gf_sqr_mul gf_mul_alpha mult_2)

lemma gf_sqr_xor:
  assumes "gf_ok p bch" and "a \<le> GF_N bch" and "b \<le> GF_N bch"
  shows "gf_sqr bch (a XOR b) = gf_sqr bch a XOR gf_sqr bch b"
  using assms gf.sqr_xor [of bch a b] by (auto simp: gf_sqr_mul)

lemma eval2_le_N: "gf_ok p bch \<Longrightarrow> eval2 (GF_M bch) p e P n \<le> GF_N bch"
  unfolding eval2_def
  by (induction n) (simp_all add: gf_xor_closed gf_alpha_le_N)

text \<open>Squaring is a field automorphism that fixes binary coefficients.\<close>

lemma eval2_sqr:
  assumes ok: "gf_ok p bch"
  shows "gf_sqr bch (eval2 (GF_M bch) p e P n) = eval2 (GF_M bch) p (2 * e) P n"
proof (induction n)
  case (Suc n)
  have le: "eval2 (GF_M bch) p e P n \<le> GF_N bch" "(if P n then gf_alpha (GF_M bch) p (e * n) else 0) \<le> GF_N bch"
    using eval2_le_N [OF ok] gf_alpha_le_N [OF ok] by simp_all
  have "gf_sqr bch (if P n then gf_alpha (GF_M bch) p (e * n) else 0) =
      (if P n then gf_alpha (GF_M bch) p (2 * e * n) else 0)"
    using gf_sqr_alpha [OF ok] by (simp add: gf_sqr_def [of _ 0] mult.assoc)
  with Suc gf_sqr_xor [OF ok le] show ?case by (simp add: eval2_def)
qed (simp add: eval2_def gf_sqr_def)

text \<open>The second loop fills the odd entries from the first half.\<close>

lemma syn_square_loop:
  assumes "length syn = 2 * t" and odd: "\<And>h. h < t \<Longrightarrow> syn ! (2 * h) = S (2 * h + 1)"
    and sq: "\<And>j. f (S j) = S (2 * j)" and "n \<le> t"
  shows "let r = fold (\<lambda>j syn. syn[2 * j + 1 := f (syn ! j)]) [0..<n] syn
         in length r = 2 * t \<and> (\<forall>j < 2 * t. even j \<or> j < 2 * n \<longrightarrow> r ! j = S (j + 1))"
  using \<open>n \<le> t\<close>
proof (induction n)
  case 0
  have "syn ! j = S (j + 1)" if "j < 2 * t" "even j" for j
    using odd [of "j div 2"] that by simp
  with assms(1) show ?case by simp
next
  case (Suc n)
  define r where "r = fold (\<lambda>j syn. syn[2 * j + 1 := f (syn ! j)]) [0..<n] syn"
  have ih: "length r = 2 * t" "\<And>j. j < 2 * t \<Longrightarrow> even j \<or> j < 2 * n \<Longrightarrow> r ! j = S (j + 1)"
    using Suc by (auto simp: Let_def r_def)
  have "r ! n = S (n + 1)" using ih(2) [of n] Suc.prems by (cases n) auto
  then have "f (r ! n) = S (2 * n + 2)" using sq [of "n + 1"] by simp
  then have "r[2 * n + 1 := f (r ! n)] ! j = S (j + 1)"
    if "j < 2 * t" "even j \<or> j < 2 * Suc n" for j
  proof (cases "j = 2 * n + 1")
    case True
    with that \<open>f (r ! n) = S (2 * n + 2)\<close> ih(1) show ?thesis by simp
  next
    case False
    have "j < 2 * n \<or> j = 2 * n" if "j < 2 * Suc n" using that False by arith
    with that(2) have "even j \<or> j < 2 * n" by auto
    with False ih that show ?thesis by simp
  qed
  moreover have "fold (\<lambda>j syn. syn[2 * j + 1 := f (syn ! j)]) [0..<Suc n] syn = r[2 * n + 1 := f (r ! n)]"
    by (simp add: r_def)
  ultimately show ?case using ih(1) unfolding Let_def by simp
qed

lemma compute_syndromes_eval:
  assumes ok: "gf_ok p bch" and r: "syn_range bch" and len: "ecc_bits bch \<le> 32 * length ecc"
  shows "length (snd (compute_syndromes bch ecc)) = 2 * GF_T bch"
    and "j < 2 * GF_T bch \<Longrightarrow>
           snd (compute_syndromes bch ecc) ! j = eval2 (GF_M bch) p (j + 1) (ecc_coeff (ecc_bits bch) ecc) (ecc_bits bch)"
proof -
  let ?s = "ecc_bits bch" and ?t = "GF_T bch"
  let ?S = "\<lambda>j. eval2 (GF_M bch) p j (ecc_coeff ?s ecc) ?s"
  let ?ecc = "clear_extra_bits ?s ecc"
  define syn where "syn = syn_words bch (int ?s) ?ecc (replicate (2 * ?t) 0)"
  have lsyn: "length syn = 2 * ?t" by (simp add: syn_def)
  have "syn ! (2 * h) = ?S (2 * h + 1)" if h: "h < ?t" for h
  proof -
    have "0 < ?s" using r by (simp add: syn_range_def)
    then have "syn ! (2 * h) = xsum (\<lambda>k. if ecc_coeff ?s ?ecc k then a_pow bch ((int (2 * h) + 1) * int k) else 0) ?s"
      unfolding syn_def using h len clear_extra_bits_clear [OF len] by (subst syn_words_nth) simp_all
    also have "\<dots> = ?S (2 * h + 1)"
      unfolding eval2_def
      by (rule xsum_cong) (simp only: clear_extra_bits_coeff [OF len] a_pow_syn [OF ok r h])
    finally show ?thesis .
  qed
  from syn_square_loop [OF lsyn this, where f = "gf_sqr bch" and n = ?t] eval2_sqr [OF ok]
  show "length (snd (compute_syndromes bch ecc)) = 2 * ?t"
    and "j < 2 * ?t \<Longrightarrow> snd (compute_syndromes bch ecc) ! j = ?S (j + 1)"
    by (simp_all add: compute_syndromes_def Let_def syn_def)
qed


section \<open>Properties\<close>

text \<open>
  C10: \<open>compute_syndromes\<close> evaluates the parity polynomial.  Over correct
  field tables, entry \<open>j\<close> of its result is the value at
  \<open>a ^ (j + 1)\<close> of the binary polynomial held left-justified in the words,
  for all \<open>2 * t\<close> entries; the odd entries are obtained by squaring.
\<close>

theorem compute_syndromes_evaluates:
  assumes "gf_ok p bch" and "syn_range bch" and "ecc_bits bch \<le> 32 * length ecc" and "j < 2 * GF_T bch"
  shows "snd (compute_syndromes bch ecc) ! j =
         eval2 (GF_M bch) p (j + 1) (ecc_coeff (ecc_bits bch) ecc) (ecc_bits bch)"
  by (rule compute_syndromes_eval(2) [OF assms])

theorem compute_syndromes_evaluates_witness:
  "snd (compute_syndromes bch_3_tables [0xA0000000]) ! 1 = eval2 3 11 2 (ecc_coeff 3 [0xA0000000]) 3"
proof -
  have s: "GF_M bch_3_tables = 3" "GF_T bch_3_tables = 1" "ecc_bits bch_3_tables = 3"
    by (simp_all add: bch_3_tables_def bch_3_def GF_M_def GF_T_def)
  show ?thesis
    using compute_syndromes_evaluates [OF gf_ok_3, of "[0xA0000000]" 1] by (simp add: s syn_range_def) (simp add: numeral_2_eq_2)
qed

text \<open>
  The length check is computed in 32-bit arithmetic: a length of \<open>2 ^ 29\<close> bytes
  wraps to 0 and passes it.
\<close>

lemma decode_bch_length_wraps:
  "fst (decode_bch bch data (2 ^ 29) re ce (Some syn)) = fst (locate_errors bch (2 ^ 29) syn)"
  by (simp add: decode_bch_def to_u32_def split: prod.splits)

end
