(* ===== verification/Bch_Codeword.thy ===== *)
theory Bch_Codeword
  imports Bch_Decode
begin

text \<open>
  What the encoder and the decoder of lib/bch.c mean together.  A received word
  is read as a binary polynomial: the parity bits are its \<open>ecc_bits\<close> low
  coefficients, the message bits the coefficients above.  The syndromes are
  proved to be the values of that polynomial at the powers of the root, a word
  produced by \<open>encode_bch\<close> has all syndromes zero and is accepted by
  \<open>decode_bch\<close>, and a flipped bit of data or parity adds a power of the root to each
  syndrome.
\<close>

section \<open>The register as a polynomial\<close>

lemma ecc_coeff_val:
  assumes "k < s" and "s \<le> 32 * length ws"
  shows "ecc_coeff s ws k \<longleftrightarrow> bit (ecc_val ws) (32 * length ws - s + k)"
proof -
  define q r where "q = (s - 1 - k) div 32" and "r = (s - 1 - k) mod 32"
  have "s - 1 - k = 32 * q + r" "r < 32" by (simp_all add: q_def r_def)
  moreover from this have q: "q < length ws" using assms by linarith
  ultimately have "32 * length ws - s + k = 32 * (length ws - 1 - q) + (31 - r)"
    using assms by (simp add: diff_mult_distrib2)
  moreover have "bit (ecc_val ws) (32 * (length ws - 1 - q) + (31 - r)) = bit (ws ! q) (31 - r)"
    using q by (subst bit_ecc_val_word [of ws "length ws - 1"]) simp_all
  ultimately show ?thesis unfolding ecc_coeff_def q_def [symmetric] r_def [symmetric] by (simp only:)
qed

lemma bit_ecc_val_msb:
  assumes "x < 32 * length ws"
  shows "bit (ecc_val ws) (32 * length ws - 1 - x) \<longleftrightarrow> bit (ws ! (x div 32)) (31 - x mod 32)"
  using ecc_coeff_val [of "32 * length ws - 1 - x" "32 * length ws" ws] assms by (simp add: ecc_coeff_def)

text \<open>The value at \<open>a ^ e\<close> of the \<open>len\<close> top bits of a \<open>W\<close>-bit register.\<close>

definition reg_eval :: "nat \<Rightarrow> nat \<Rightarrow> nat \<Rightarrow> nat \<Rightarrow> nat \<Rightarrow> int \<Rightarrow> nat" where
  "reg_eval m p e W len V = eval2 m p e (\<lambda>k. bit V (W - len + k)) len"

lemma reg_eval_xor: "reg_eval m p e W n (U XOR V) = reg_eval m p e W n U XOR reg_eval m p e W n V"
  unfolding reg_eval_def eval2_xor [symmetric] by (rule eval2_cong) (simp add: bit_xor_iff)

lemma reg_eval_0 [simp]: "reg_eval m p e W n 0 = 0"
  by (simp add: reg_eval_def eval2_def)

lemma reg_eval_top:
  assumes "0 < n" and "n \<le> W"
  shows "reg_eval m p e W n (2 ^ (W - 1)) = gf_alpha m p (e * (n - 1))"
proof -
  have "reg_eval m p e W n (2 ^ (W - 1)) = eval2 m p e (\<lambda>k. k = n - 1) n"
    unfolding reg_eval_def by (rule eval2_cong) (use assms in \<open>auto simp: bit_exp_iff\<close>)
  then show ?thesis using eval2_single [of "n - 1" n] assms by simp
qed

text \<open>
  A feedback polynomial that vanishes at \<open>a ^ e\<close>: the leading term equals the
  rest, and nothing is fed into the unused low bits.
\<close>

definition vanishes :: "nat \<Rightarrow> nat \<Rightarrow> nat \<Rightarrow> nat \<Rightarrow> nat \<Rightarrow> int \<Rightarrow> bool" where
  "vanishes m p e W n G \<longleftrightarrow>
     reg_eval m p e W n G = gf_alpha m p (e * n) \<and> (\<forall>k < W - n. \<not> bit G k)"

definition low_clear :: "nat \<Rightarrow> nat \<Rightarrow> int \<Rightarrow> bool" where
  "low_clear W n V \<longleftrightarrow> (\<forall>k < W - n. \<not> bit V k)"

lemma bit_lfsr:
  "bit (lfsr W G V) k \<longleftrightarrow> (k < W \<and> 0 < k \<and> bit V (k - 1)) \<noteq> (bit V (W - 1) \<and> bit G k)"
  by (cases k) (auto simp: lfsr_def bit_xor_iff bit_take_bit_iff bit_double_iff)

lemma gf_mul_zero [simp]: "gf_mul bch a 0 = 0" "gf_mul bch 0 a = 0"
  by (simp_all add: gf_mul_def)

lemma gf_mul_xsum:
  assumes ok: "gf_ok p bch" and a: "a \<le> GF_N bch" and f: "\<And>k. f k \<le> GF_N bch"
  shows "gf_mul bch a (xsum f n) = xsum (\<lambda>k. gf_mul bch a (f k)) n \<and> xsum f n \<le> GF_N bch"
proof (induction n)
  case (Suc n)
  then show ?case
    using a f gf_mul_xor_right [OF ok, of "xsum f n" "f n" a] gf_xor_closed [OF ok] by auto
qed simp

lemma lfsr_eval:
  assumes ok: "gf_ok p bch" and n: "0 < n" "n \<le> W" and G: "vanishes (GF_M bch) p e W n G"
    and V: "low_clear W n V"
  shows "reg_eval (GF_M bch) p e W n (lfsr W G V) =
         gf_mul bch (gf_alpha (GF_M bch) p e) (reg_eval (GF_M bch) p e W n V)"
    and "low_clear W n (lfsr W G V)"
proof -
  let ?al = "gf_alpha (GF_M bch) p"
  define f where "f k = (if 0 < k \<and> bit V (W - n + (k - 1)) then ?al (e * k) else 0)" for k
  have fb: "bit V (W - n + k - 1) = bit V (W - n + (k - 1))" if "0 < k" for k using that by simp
  have "reg_eval (GF_M bch) p e W n (lfsr W G V) =
      xsum (\<lambda>k. f k XOR (if bit V (W - 1) \<and> bit G (W - n + k) then ?al (e * k) else 0)) n"
    unfolding reg_eval_def eval2_def
  proof (rule xsum_cong)
    fix k assume k: "k < n"
    have "\<not> bit V (W - n - 1)" if "0 < W - n" using that V by (simp add: low_clear_def)
    then have "(W - n + k < W \<and> 0 < W - n + k \<and> bit V (W - n + k - 1)) \<longleftrightarrow>
        0 < k \<and> bit V (W - n + (k - 1))"
      using k n by (cases k) auto
    then show "(if bit (lfsr W G V) (W - n + k) then ?al (e * k) else 0) =
        f k XOR (if bit V (W - 1) \<and> bit G (W - n + k) then ?al (e * k) else 0)"
      unfolding bit_lfsr f_def by auto
  qed
  also have "\<dots> = xsum f n XOR (if bit V (W - 1) then ?al (e * n) else 0)"
    using G by (cases "bit V (W - 1)") (simp_all add: xsum_xor vanishes_def reg_eval_def eval2_def)
  also have "\<dots> = xsum f (Suc n)"
  proof -
    have "W - n + (n - 1) = W - 1" using n by simp
    then show ?thesis using n by (simp add: f_def)
  qed
  also have "\<dots> = xsum (\<lambda>k. f (Suc k)) n" by (simp add: xsum_Suc_shift f_def del: xsum.simps)
  also have "\<dots> = xsum (\<lambda>k. gf_mul bch (?al e) (if bit V (W - n + k) then ?al (e * k) else 0)) n"
    by (rule xsum_cong) (simp add: f_def gf_mul_alpha [OF ok] add.commute)
  also have "\<dots> = gf_mul bch (?al e) (reg_eval (GF_M bch) p e W n V)"
    unfolding reg_eval_def eval2_def
    using gf_mul_xsum [OF ok gf_alpha_le_N [OF ok], of "\<lambda>k. if bit V (W - n + k) then ?al (e * k) else 0" e n]
      gf_alpha_le_N [OF ok] by simp
  finally show "reg_eval (GF_M bch) p e W n (lfsr W G V) = \<dots>" .
  show "low_clear W n (lfsr W G V)"
    using V G by (auto simp: low_clear_def vanishes_def bit_lfsr)
qed

text \<open>The message part of a word: the coefficient of degree \<open>k\<close> above the parity bits.\<close>

definition msg_eval :: "nat \<Rightarrow> nat \<Rightarrow> nat \<Rightarrow> nat \<Rightarrow> bool list \<Rightarrow> nat" where
  "msg_eval m p e n bs =
     xsum (\<lambda>k. if bs ! (length bs - 1 - k) then gf_alpha m p (e * (n + k)) else 0) (length bs)"

lemma msg_eval_Cons:
  "msg_eval m p e n (b # bs) =
     msg_eval m p e n bs XOR (if b then gf_alpha m p (e * (n + length bs)) else 0)"
proof -
  have "xsum (\<lambda>k. if (b # bs) ! (length bs - k) then gf_alpha m p (e * (n + k)) else 0) (length bs) =
      xsum (\<lambda>k. if bs ! (length bs - 1 - k) then gf_alpha m p (e * (n + k)) else 0) (length bs)"
  proof (rule xsum_cong)
    fix k assume "k < length bs"
    then have "length bs - k = Suc (length bs - 1 - k)" by simp
    then show "(if (b # bs) ! (length bs - k) then gf_alpha m p (e * (n + k)) else 0) =
        (if bs ! (length bs - 1 - k) then gf_alpha m p (e * (n + k)) else 0)" by (simp only: nth_Cons_Suc)
  qed
  then show ?thesis by (simp add: msg_eval_def)
qed

lemma reg_eval_le_N: "gf_ok p bch \<Longrightarrow> reg_eval (GF_M bch) p e W n V \<le> GF_N bch"
  by (simp add: reg_eval_def eval2_le_N)

lemma lfsr_bits_eval:
  assumes ok: "gf_ok p bch" and n: "0 < n" "n \<le> W" and G: "vanishes (GF_M bch) p e W n G"
    and V: "low_clear W n V"
  shows "reg_eval (GF_M bch) p e W n (lfsr_bits W G V bs) =
         gf_mul bch (gf_alpha (GF_M bch) p (e * length bs)) (reg_eval (GF_M bch) p e W n V)
         XOR msg_eval (GF_M bch) p e n bs \<and> low_clear W n (lfsr_bits W G V bs)"
  using V
proof (induction bs arbitrary: V)
  case Nil
  have "gf_mul bch 1 (reg_eval (GF_M bch) p e W n V) = reg_eval (GF_M bch) p e W n V"
    by (rule gf_mul_one [OF ok reg_eval_le_N [OF ok]])
  with Nil show ?case by (simp add: msg_eval_def)
next
  case (Cons b bs)
  let ?al = "gf_alpha (GF_M bch) p" and ?ev = "reg_eval (GF_M bch) p e W n"
  let ?B = "if b then 2 ^ (W - 1) else 0 :: int" and ?b = "\<lambda>i. if b then ?al i else 0"
  have lc: "low_clear W n (V XOR ?B)"
    using Cons.prems n by (auto simp: low_clear_def bit_xor_iff bit_exp_iff)
  have top: "?ev ?B = ?b (e * (n - 1))" using reg_eval_top [OF n] by simp
  have le: "?ev V \<le> GF_N bch" "?al i \<le> GF_N bch" "?b i \<le> GF_N bch" for i
    using reg_eval_le_N [OF ok] gf_alpha_le_N [OF ok] by simp_all
  have "e + e * (n - 1) = e * n" using n by (simp add: algebra_simps)
  then have step: "?ev (lfsr_bit W G V b) = gf_mul bch (?al e) (?ev V) XOR ?b (e * n)"
    using lfsr_eval(1) [OF ok n G lc] gf_mul_xor_right [OF ok le(1), of "?b (e * (n - 1))" "?al e"] le
    by (auto simp: lfsr_bit_def reg_eval_xor top gf_mul_alpha [OF ok])
  have ih: "?ev (lfsr_bits W G (lfsr_bit W G V b) bs) =
      gf_mul bch (?al (e * length bs)) (?ev (lfsr_bit W G V b)) XOR msg_eval (GF_M bch) p e n bs
      \<and> low_clear W n (lfsr_bits W G (lfsr_bit W G V b) bs)"
    using Cons.IH lfsr_eval(2) [OF ok n G lc] by (simp add: lfsr_bit_def)
  have "gf_mul bch (?al (e * length bs)) (?ev (lfsr_bit W G V b)) =
      gf_mul bch (?al (e * length bs)) (gf_mul bch (?al e) (?ev V)) XOR ?b (e * length bs + e * n)"
    using gf_mul_xor_right [OF ok gf_mul_closed [OF ok le(2,1)], of "?b (e * n)" "?al (e * length bs)"] le
    by (auto simp: step gf_mul_alpha [OF ok])
  also have "gf_mul bch (?al (e * length bs)) (gf_mul bch (?al e) (?ev V)) = gf_mul bch (?al (e * Suc (length bs))) (?ev V)"
    using gf_mul_assoc [OF ok le(2,2,1), of "e * length bs" e] by (simp add: gf_mul_alpha [OF ok] add.commute)
  finally show ?case
    using ih by (simp add: msg_eval_Cons algebra_simps xor_simps)
qed

section \<open>Syndromes of a received word\<close>

text \<open>
  The invariant of an initialised control structure: correct field tables,
  correct remainder tables for a feedback polynomial \<open>G\<close> that vanishes at
  the first \<open>2 * t\<close> powers of the root, and sizes in range.
\<close>

definition code_ok :: "nat \<Rightarrow> int \<Rightarrow> bch_control \<Rightarrow> bool" where
  "code_ok p G bch \<longleftrightarrow>
     gf_ok p bch \<and> mod8_ok G bch \<and> syn_range bch \<and> ecc_bits bch \<le> GF_M bch * GF_T bch \<and>
     ecc_bits bch \<le> bch_n bch \<and> bch_n bch < 2 ^ 31 \<and>
     (\<forall>e. 1 \<le> e \<and> e \<le> 2 * GF_T bch \<longrightarrow>
        vanishes (GF_M bch) p e (32 * BCH_ECC_WORDS bch) (ecc_bits bch) G)"

text \<open>The value at \<open>a ^ e\<close> of the word made of message bytes and parity words.\<close>

definition word_eval :: "nat \<Rightarrow> bch_control \<Rightarrow> nat \<Rightarrow> u8 list \<Rightarrow> u32 list \<Rightarrow> nat" where
  "word_eval p bch e data ecc =
     eval2 (GF_M bch) p e (ecc_coeff (ecc_bits bch) ecc) (ecc_bits bch)
     XOR msg_eval (GF_M bch) p e (ecc_bits bch) (message_bits data)"

lemma code_ok_facts:
  assumes "code_ok p G bch"
  shows "gf_ok p bch" "mod8_ok G bch" "syn_range bch" "0 < ecc_bits bch"
    "0 < BCH_ECC_WORDS bch" "ecc_bits bch \<le> 32 * BCH_ECC_WORDS bch" "0 < GF_M bch * GF_T bch"
    "GF_N bch = bch_n bch"
    "1 \<le> e \<Longrightarrow> e \<le> 2 * GF_T bch \<Longrightarrow> vanishes (GF_M bch) p e (32 * BCH_ECC_WORDS bch) (ecc_bits bch) G"
proof -
  show "gf_ok p bch" "mod8_ok G bch" "syn_range bch" "0 < ecc_bits bch" "0 < BCH_ECC_WORDS bch"
    using assms by (simp_all add: code_ok_def syn_range_def mod8_ok_def)
  then show "0 < GF_M bch * GF_T bch" using assms unfolding code_ok_def by linarith
  show "1 \<le> e \<Longrightarrow> e \<le> 2 * GF_T bch \<Longrightarrow> vanishes (GF_M bch) p e (32 * BCH_ECC_WORDS bch) (ecc_bits bch) G"
    using assms by (simp add: code_ok_def)
  have "GF_M bch * GF_T bch \<le> 32 * BCH_ECC_WORDS bch" unfolding BCH_ECC_WORDS_def DIV_ROUND_UP_def by linarith
  with assms show "ecc_bits bch \<le> 32 * BCH_ECC_WORDS bch" by (simp add: code_ok_def)
  show "GF_N bch = bch_n bch" by (simp add: GF_N_def)
qed

lemma ecc_buf_upd: "ecc_buf (bch\<lparr>ecc_buf := x\<rparr>) = x"
  by simp

lemma encode_bch_length: "0 < BCH_ECC_WORDS bch \<Longrightarrow> length (ecc_buf (fst (encode_bch bch addr data None))) = BCH_ECC_WORDS bch"
  by (simp only: encode_bch_def Let_def fst_conv ecc_buf_upd if_distrib [of length]
      encode_bch_unaligned_length enc_words_length option.case length_replicate if_cancel)

lemma eval2_reg:
  assumes "length ws = BCH_ECC_WORDS bch" and "ecc_bits bch \<le> 32 * BCH_ECC_WORDS bch"
  shows "eval2 m p e (ecc_coeff (ecc_bits bch) ws) (ecc_bits bch) =
         reg_eval m p e (32 * BCH_ECC_WORDS bch) (ecc_bits bch) (ecc_val ws)"
  unfolding reg_eval_def by (rule eval2_cong) (simp add: ecc_coeff_val assms)

text \<open>The parity register after encoding is the remainder: its value equals that of the message part.\<close>

lemma encode_bch_eval:
  assumes ok: "code_ok p G bch" and e: "1 \<le> e" "e \<le> 2 * GF_T bch"
  shows "eval2 (GF_M bch) p e (ecc_coeff (ecc_bits bch) (ecc_buf (fst (encode_bch bch addr data None)))) (ecc_bits bch) =
         msg_eval (GF_M bch) p e (ecc_bits bch) (message_bits data)"
    and "low_clear (32 * BCH_ECC_WORDS bch) (ecc_bits bch) (ecc_val (ecc_buf (fst (encode_bch bch addr data None))))"
proof -
  note f = code_ok_facts [OF ok]
  have "ecc_val (ecc_buf (fst (encode_bch bch addr data None))) =
      lfsr_bits (32 * BCH_ECC_WORDS bch) G 0 (message_bits data)"
    using encode_bch_buf [OF f(2), of addr data None] by (simp add: ecc_start_def)
  then show "eval2 (GF_M bch) p e (ecc_coeff (ecc_bits bch) (ecc_buf (fst (encode_bch bch addr data None)))) (ecc_bits bch) =
         msg_eval (GF_M bch) p e (ecc_bits bch) (message_bits data)"
    and "low_clear (32 * BCH_ECC_WORDS bch) (ecc_bits bch) (ecc_val (ecc_buf (fst (encode_bch bch addr data None))))"
    using lfsr_bits_eval [OF f(1,4,6) f(9) [OF e], of 0 "message_bits data"]
    by (simp_all add: eval2_reg [OF encode_bch_length [OF f(5)] f(6)] low_clear_def)
qed

lemma ecc_coeff_xor:
  assumes "length xs = length ys" and "k < s" and "s \<le> 32 * length xs"
  shows "ecc_coeff s (map2 (XOR) xs ys) k = (ecc_coeff s xs k \<noteq> ecc_coeff s ys k)"
proof -
  have "(s - 1 - k) div 32 < length xs" using assms(2,3) by (simp add: less_mult_imp_div_less)
  with assms(1) show ?thesis by (simp add: ecc_coeff_def bit_xor_iff)
qed

text \<open>The difference of the calculated and the received parity has the values of the received word.\<close>

lemma received_eval:
  assumes ok: "code_ok p G bch" and len: "length re = BCH_ECC_WORDS bch" and e: "1 \<le> e" "e \<le> 2 * GF_T bch"
  shows "eval2 (GF_M bch) p e (ecc_coeff (ecc_bits bch)
           (map2 (XOR) (ecc_buf (fst (encode_bch bch addr data None))) re)) (ecc_bits bch) =
         word_eval p bch e data re"
proof -
  note f = code_ok_facts [OF ok]
  let ?c = "ecc_buf (fst (encode_bch bch addr data None))"
  have lc: "length ?c = BCH_ECC_WORDS bch" by (rule encode_bch_length [OF f(5)])
  have "eval2 (GF_M bch) p e (ecc_coeff (ecc_bits bch) (map2 (XOR) ?c re)) (ecc_bits bch) =
      eval2 (GF_M bch) p e (\<lambda>k. ecc_coeff (ecc_bits bch) ?c k \<noteq> ecc_coeff (ecc_bits bch) re k) (ecc_bits bch)"
    by (rule eval2_cong, rule ecc_coeff_xor) (use f(6) lc len in simp_all)
  also have "\<dots> = word_eval p bch e data re"
    unfolding eval2_xor word_eval_def
    using encode_bch_eval(1) [OF ok e] by (simp add: xor.commute)
  finally show ?thesis .
qed

text \<open>A word made by \<open>encode_bch\<close> is a codeword: all its syndromes are zero.\<close>

lemma codeword_syndromes:
  assumes "code_ok p G bch" and "1 \<le> e" "e \<le> 2 * GF_T bch"
  shows "word_eval p bch e data (ecc_buf (fst (encode_bch bch addr data None))) = 0"
  using encode_bch_eval(1) [OF assms] by (simp add: word_eval_def)

section \<open>The work of the decoder on a received word\<close>

lemma a_log_alpha:
  assumes "gf_ok p bch" and "d < GF_N bch"
  shows "a_log bch (gf_alpha (GF_M bch) p d) = d"
  using assms by (auto simp: gf_ok_def a_log_def)

text \<open>The work buffers of the structure do not matter for its parameters.\<close>

lemma buf_upd_simps [simp]:
  "GF_M (bch\<lparr>ecc_buf := x\<rparr>) = GF_M bch" "GF_M (bch\<lparr>ecc_buf2 := x\<rparr>) = GF_M bch"
  "GF_T (bch\<lparr>ecc_buf := x\<rparr>) = GF_T bch" "GF_T (bch\<lparr>ecc_buf2 := x\<rparr>) = GF_T bch"
  "GF_N (bch\<lparr>ecc_buf := x\<rparr>) = GF_N bch" "GF_N (bch\<lparr>ecc_buf2 := x\<rparr>) = GF_N bch"
  by (simp_all add: GF_M_def GF_T_def GF_N_def)

lemma buf_upd_ok [simp]:
  "gf_ok p (bch\<lparr>ecc_buf := x\<rparr>) = gf_ok p bch" "gf_ok p (bch\<lparr>ecc_buf2 := x\<rparr>) = gf_ok p bch"
  "syn_range (bch\<lparr>ecc_buf := x\<rparr>) = syn_range bch" "syn_range (bch\<lparr>ecc_buf2 := x\<rparr>) = syn_range bch"
  "load_ecc8 (bch\<lparr>ecc_buf := x\<rparr>) = load_ecc8 bch"
  by (simp_all add: gf_ok_def syn_range_def load_ecc8_def BCH_ECC_WORDS_def BCH_ECC_BYTES_def fun_eq_iff)

lemma encode_bch_fst: "fst (encode_bch bch addr data ecc) = bch\<lparr>ecc_buf := ecc_buf (fst (encode_bch bch addr data ecc))\<rparr>"
  by (simp only: encode_bch_def Let_def fst_conv ecc_buf_upd)

lemma load_ecc8_encode: "load_ecc8 (fst (encode_bch bch addr data ecc)) = load_ecc8 bch"
  by (subst encode_bch_fst) simp

definition parity_diff :: "bch_control \<Rightarrow> nat \<Rightarrow> u8 list \<Rightarrow> u8 list \<Rightarrow> u32 list" where
  "parity_diff bch addr data re =
     map2 (XOR) (ecc_buf (fst (encode_bch bch addr data None))) (load_ecc8 bch re)"

lemma decode_bch_received:
  assumes "8 * len \<le> bch_n bch - ecc_bits bch" and "bch_n bch < 2 ^ 31" and "length data = len"
  shows "\<exists>bch2. (\<exists>b b'. bch2 = bch\<lparr>ecc_buf2 := b', ecc_buf := b\<rparr>) \<and>
           GF_M bch2 = GF_M bch \<and> GF_T bch2 = GF_T bch \<and> GF_N bch2 = GF_N bch \<and> ecc_bits bch2 = ecc_bits bch \<and>
           gf_ok p bch2 = gf_ok p bch \<and> syn_range bch2 = syn_range bch \<and>
           (let r = decode_bch bch (Some (addr, data)) len (Some re) None None in (fst r, fst (snd r))) =
              (if list_all (\<lambda>w. w = 0) (parity_diff bch addr data re) then (0, [])
               else locate_errors bch2 len (snd (compute_syndromes bch2 (parity_diff bch addr data re))))"
proof -
  let ?c = "ecc_buf (fst (encode_bch bch addr data None))"
  let ?bch2 = "bch\<lparr>ecc_buf := ?c, ecc_buf2 := load_ecc8 bch re, ecc_buf := parity_diff bch addr data re\<rparr>"
  have chk: "\<not> to_u32 (8 * len) > bch_n bch - ecc_bits bch"
    using assms(1,2) by (subst to_u32_id) simp_all
  have "decode_bch bch (Some (addr, data)) len (Some re) None None =
      (if list_all (\<lambda>w. w = 0) (parity_diff bch addr data re) then (0, [], ?bch2)
       else case compute_syndromes ?bch2 (parity_diff bch addr data re) of (ecc', s) \<Rightarrow>
         case locate_errors ?bch2 len s of (r, locs) \<Rightarrow> (r, locs, ?bch2\<lparr>ecc_buf := ecc'\<rparr>))"
    unfolding decode_bch_def
    using chk assms(3) encode_bch_fst [of bch addr data None]
    by (simp add: parity_diff_def Let_def load_ecc8_encode)
  moreover have "\<exists>b b'. ?bch2 = bch\<lparr>ecc_buf2 := b', ecc_buf := b\<rparr>"
    by (rule exI [of _ "parity_diff bch addr data re"], rule exI [of _ "load_ecc8 bch re"]) simp
  ultimately show ?thesis
    by (intro exI [of _ ?bch2]) (auto simp: Let_def split: prod.splits)
qed

section \<open>Bits of byte strings\<close>

text \<open>Bit \<open>x\<close> of a byte string in transmission order, most significant bit of a byte first.\<close>

definition byte_bit :: "u8 list \<Rightarrow> nat \<Rightarrow> bool" where
  "byte_bit src x \<longleftrightarrow> bit (src ! (x div 8)) (7 - x mod 8)"

text \<open>The correction statement of the documentation: \<^verbatim>\<open>data[e/8] ^= 1 << (e % 8)\<close>.\<close>

definition flip_bit8 :: "nat \<Rightarrow> u8 list \<Rightarrow> u8 list" where
  "flip_bit8 e data = data[e div 8 := data ! (e div 8) XOR push_bit (e mod 8) 1]"

text \<open>Transmission order and the numbering of \<open>errloc\<close>: both directions are the same map.\<close>

definition bit_order :: "nat \<Rightarrow> nat" where
  "bit_order x = 8 * (x div 8) + (7 - x mod 8)"

lemma bit_order_div_mod: "bit_order x div 8 = x div 8" "bit_order x mod 8 = 7 - x mod 8"
proof -
  define y where "y = 7 - x mod 8"
  have "y < 8" unfolding y_def by linarith
  then show "bit_order x div 8 = x div 8" "bit_order x mod 8 = 7 - x mod 8"
    unfolding bit_order_def y_def [symmetric] by simp_all
qed

lemma bit_order_inv [simp]: "bit_order (bit_order x) = x"
proof -
  have "7 - (7 - x mod 8) = x mod 8" using mod_less_divisor [of 8 x] by linarith
  then show ?thesis
    unfolding bit_order_def [of "bit_order x"] bit_order_div_mod by simp
qed

lemma bit_order_less: "bit_order x < 8 * n \<longleftrightarrow> x < 8 * n"
proof -
  have "y < 8 * n \<longleftrightarrow> y div 8 < n" for y by (simp add: div_less_iff_less_mult mult.commute)
  then show ?thesis using bit_order_div_mod(1) by simp
qed

lemma errloc_bit_order: "errloc_bit nbits e = bit_order (nbits - 1 - e)"
  by (simp add: errloc_bit_def bit_order_def Let_def)

lemma byte_bit_flip:
  assumes "e < 8 * length data" and "x < 8 * length data"
  shows "byte_bit (flip_bit8 e data) x = (byte_bit data x \<noteq> (x = bit_order e))"
proof (cases "x div 8 = e div 8")
  case True
  have "x div 8 < length data" using assms(2) by (simp add: less_mult_imp_div_less)
  moreover have "x = bit_order e \<longleftrightarrow> 7 - x mod 8 = e mod 8"
  proof -
    have "x = bit_order e \<longleftrightarrow> bit_order x = e" by (metis bit_order_inv)
    also have "\<dots> \<longleftrightarrow> bit_order x mod 8 = e mod 8"
      using True bit_order_div_mod(1) [of x] by (metis mult_div_mod_eq)
    finally show ?thesis by (simp add: bit_order_div_mod)
  qed
  ultimately show ?thesis
    using True by (auto simp: byte_bit_def flip_bit8_def bit_xor_iff bit_exp_iff)
next
  case False
  then have "x \<noteq> bit_order e" using bit_order_div_mod(1) by metis
  with False show ?thesis by (simp add: byte_bit_def flip_bit8_def)
qed

lemma message_bits_length [simp]: "length (message_bits data) = 8 * length data"
  by (induction data) (simp_all add: message_bits_def)

lemma message_bits_nth: "x < 8 * length data \<Longrightarrow> message_bits data ! x = byte_bit data x"
proof (induction data arbitrary: x)
  case (Cons d data)
  have byte: "byte_bits d ! r = bit d (7 - r)" if "r < 8" for r
    using that by (auto simp: byte_bits_def less_Suc_eq numeral_eq_Suc)
  show ?case
  proof (cases "x < 8")
    case True
    then show ?thesis using byte [of x] by (simp add: message_bits_def nth_append byte_bit_def)
  next
    case False
    then obtain y where y: "x = 8 + y" by (metis le_iff_add not_less)
    then have "x div 8 = Suc (y div 8)" using div_add_self1 [of 8 y] by simp
    with Cons y show ?thesis by (simp add: message_bits_def nth_append byte_bit_def)
  qed
qed simp

lemma bit_be32: "r < 32 \<Longrightarrow> bit (be32 a b c d) (31 - r) = byte_bit [a, b, c, d] r"
proof -
  assume r: "r < 32"
  define i z where "i = r div 8" and "z = 7 - r mod 8"
  define y where "y = r mod 8"
  have y: "r = 8 * i + y" "y < 8" by (simp_all add: i_def y_def)
  have z: "z = 7 - y" "z < 8" unfolding z_def y_def by (rule refl, linarith)
  have i: "i < 4" using r y by linarith
  have k: "31 - r = 8 * (3 - i) + z" using y z i by (simp add: diff_mult_distrib2)
  from i consider "i = 0" | "i = 1" | "i = 2" | "i = 3" by linarith
  then have "bit (be32 a b c d) (8 * (3 - i) + z) = bit ([a, b, c, d] ! i) z"
    by cases (use z(2) in \<open>simp_all add: bit_be32_if\<close>)
  then show ?thesis by (simp add: k byte_bit_def i_def z_def)
qed

lemma load_full_words_nth:
  "i < n \<Longrightarrow> load_full_words n src ! i = be32 (src ! (4 * i)) (src ! (4 * i + 1)) (src ! (4 * i + 2)) (src ! (4 * i + 3))
     \<or> length src < 4 * n"
proof (induction n arbitrary: src i)
  case (Suc n)
  show ?case
  proof (cases i)
    case (Suc k)
    show ?thesis
    proof (cases "length src < 4 * Suc n")
      case False
      then have "load_full_words n (drop 4 src) ! k = be32 (drop 4 src ! (4 * k)) (drop 4 src ! (4 * k + 1))
          (drop 4 src ! (4 * k + 2)) (drop 4 src ! (4 * k + 3))"
        using Suc.IH [of k "drop 4 src"] Suc Suc.prems by auto
      with False Suc show ?thesis by (simp add: add.commute)
    qed simp
  qed (simp add: numeral_eq_Suc)
qed simp

text \<open>The bits of the loaded register are the bits of the bytes, followed by zeros.\<close>

lemma load_ecc8_bit:
  assumes mt: "0 < GF_M bch * GF_T bch" and len: "length e = BCH_ECC_BYTES bch"
    and x: "x < 32 * BCH_ECC_WORDS bch"
  shows "bit (load_ecc8 bch e ! (x div 32)) (31 - x mod 32) \<longleftrightarrow> x < 8 * BCH_ECC_BYTES bch \<and> byte_bit e x"
proof -
  note sz = ecc_sizes [OF mt]
  define n cnt where "n = BCH_ECC_WORDS bch - 1" and "cnt = BCH_ECC_BYTES bch - 4 * n"
  define pad where "pad = take cnt (drop (4 * n) e) @ replicate (4 - cnt) 0"
  define i r where "i = x div 32" and "r = x mod 32"
  have r: "r < 32" "x = 32 * i + r" "i \<le> n" using x sz by (simp_all add: i_def r_def n_def less_mult_imp_div_less less_Suc_eq_le [symmetric])
  have cnt: "0 < cnt" "cnt \<le> 4" "length e = 4 * n + cnt" "BCH_ECC_BYTES bch = 4 * n + cnt"
    using sz len by (simp_all add: cnt_def n_def)
  have load: "load_ecc8 bch e = load_full_words n e @ [be32 (pad ! 0) (pad ! 1) (pad ! 2) (pad ! 3)]"
    by (simp add: load_ecc8_def Let_def n_def cnt_def pad_def)
  have "x = r + 8 * (4 * i)" using r(2) by simp
  then have xd: "x div 8 = 4 * i + r div 8" "x mod 8 = r mod 8"
    using div_mult_self2 [of 8 r "4 * i"] mod_mult_self2 [of r 8 "4 * i"] by (simp_all only:)
  have r8: "r div 8 < 4" using r(1) by (simp add: less_mult_imp_div_less)
  have nth4: "[src ! k, src ! (k + 1), src ! (k + 2), src ! (k + 3)] ! (r div 8) = src ! (k + r div 8)"
    for src :: "u8 list" and k
  proof -
    from r8 consider "r div 8 = 0" | "r div 8 = 1" | "r div 8 = 2" | "r div 8 = 3" by linarith
    then show ?thesis by cases simp_all
  qed
  show ?thesis
  proof (cases "i < n")
    case True
    then have "load_ecc8 bch e ! i = be32 (e ! (4 * i)) (e ! (4 * i + 1)) (e ! (4 * i + 2)) (e ! (4 * i + 3))"
      using load_full_words_nth [of i n e] cnt(3) by (simp add: load nth_append)
    then have "bit (load_ecc8 bch e ! i) (31 - r) = byte_bit e x"
      using bit_be32 [OF r(1)] nth4 [of e "4 * i"] by (simp add: byte_bit_def xd)
    moreover have "x < 8 * BCH_ECC_BYTES bch" using True r cnt by linarith
    ultimately show ?thesis by (simp add: i_def r_def)
  next
    case False
    then have i: "i = n" using r(3) by simp
    have "bit (load_ecc8 bch e ! i) (31 - r) = bit (pad ! (r div 8)) (7 - r mod 8)"
      using bit_be32 [OF r(1)] nth4 [of pad 0] by (simp add: load nth_append i byte_bit_def numeral_2_eq_2)
    also have "\<dots> \<longleftrightarrow> x < 8 * BCH_ECC_BYTES bch \<and> byte_bit e x"
    proof (cases "r div 8 < cnt")
      case True
      then have "r < 8 * cnt" by (simp add: div_less_iff_less_mult mult.commute)
      then have "x < 8 * BCH_ECC_BYTES bch" using r(2) i cnt(4) by linarith
      with True cnt(3) xd i show ?thesis by (simp add: pad_def nth_append byte_bit_def)
    next
      case False
      then have "8 * cnt \<le> r" by (simp add: not_less less_eq_div_iff_mult_less_eq mult.commute)
      moreover have "pad ! (r div 8) = 0" using False r8 cnt by (simp add: pad_def nth_append)
      ultimately show ?thesis using cnt r i by simp
    qed
    finally show ?thesis by (simp add: i_def r_def)
  qed
qed

lemma byte_bit_word_bytes: "r < 32 \<Longrightarrow> byte_bit (word_bytes w) r = bit w (31 - r)"
proof -
  assume r: "r < 32"
  have "be32 (word_bytes w ! 0) (word_bytes w ! 1) (word_bytes w ! 2) (word_bytes w ! 3) = w"
    by (rule bit_word_eqI) (auto simp: bit_be32_if word_bytes_def bit_unsigned_iff bit_drop_bit_eq bit_and_ff)
  moreover have "[word_bytes w ! 0, word_bytes w ! 1, word_bytes w ! 2, word_bytes w ! 3] = word_bytes w"
    by (simp add: word_bytes_def)
  ultimately show ?thesis using bit_be32 [OF r] by metis
qed

lemma byte_bit_append:
  "byte_bit (xs @ ys) x = (if x < 8 * length xs then byte_bit xs x else byte_bit ys (x - 8 * length xs))"
proof (cases "x < 8 * length xs")
  case True
  then show ?thesis by (simp add: byte_bit_def nth_append less_mult_imp_div_less)
next
  case False
  then obtain y where y: "x = y + 8 * length xs" by (metis add.commute le_iff_add not_less)
  have "x div 8 = y div 8 + length xs" "x mod 8 = y mod 8" unfolding y by simp_all
  then show ?thesis using False by (simp add: byte_bit_def nth_append y)
qed

lemma byte_bit_words:
  "x < 32 * length ws \<Longrightarrow> byte_bit (concat (map word_bytes ws)) x = bit (ws ! (x div 32)) (31 - x mod 32)"
proof (induction ws arbitrary: x)
  case (Cons w ws)
  have len: "length (word_bytes w) = 4" by (simp add: word_bytes_def)
  show ?case
  proof (cases "x < 32")
    case True
    then show ?thesis by (simp add: byte_bit_append len byte_bit_word_bytes)
  next
    case False
    then obtain y where y: "x = y + 32" by (metis add.commute le_iff_add not_less)
    have "x div 32 = Suc (y div 32)" "x mod 32 = y mod 32" unfolding y by simp_all
    then show ?thesis using Cons y by (simp add: byte_bit_append len)
  qed
qed simp

lemma length_words_bytes [simp]: "length (concat (map word_bytes ws)) = 4 * length ws"
  by (induction ws) (simp_all add: word_bytes_def)

lemma store_ecc8_take:
  assumes mt: "0 < GF_M bch * GF_T bch" and len: "length buf = BCH_ECC_WORDS bch"
  shows "store_ecc8 bch buf = take (BCH_ECC_BYTES bch) (concat (map word_bytes buf))"
proof -
  note sz = ecc_sizes [OF mt]
  obtain n where n: "BCH_ECC_WORDS bch = Suc n" using sz(1) by (cases "BCH_ECC_WORDS bch") auto
  have buf: "buf = take n buf @ [buf ! n]" using len n by (metis lessI take_Suc_conv_app_nth take_all_iff order.refl)
  have "concat (map word_bytes buf) = concat (map word_bytes (take n buf)) @ word_bytes (buf ! n)"
    by (subst buf) simp
  moreover have "length (concat (map word_bytes (take n buf))) = 4 * n" using len n by simp
  ultimately show ?thesis
    using sz n by (simp add: store_ecc8_def)
qed

text \<open>Storing and loading the register loses nothing but the unused low bits, which encoding leaves clear.\<close>

lemma load_store_bits:
  assumes mt: "0 < GF_M bch * GF_T bch" and len: "length buf = BCH_ECC_WORDS bch" and x: "x < 8 * BCH_ECC_BYTES bch"
  shows "byte_bit (store_ecc8 bch buf) x = bit (buf ! (x div 32)) (31 - x mod 32)"
proof -
  have "x < 32 * length buf" using x ecc_sizes(3) [OF mt] len by linarith
  moreover have "x div 8 < BCH_ECC_BYTES bch" using x by (simp add: less_mult_imp_div_less)
  ultimately show ?thesis
    using byte_bit_words [of x buf] by (simp add: store_ecc8_take [OF mt len] byte_bit_def)
qed

lemma store_ecc8_length:
  assumes "0 < GF_M bch * GF_T bch" and "length buf = BCH_ECC_WORDS bch"
  shows "length (store_ecc8 bch buf) = BCH_ECC_BYTES bch"
  using ecc_sizes(3) [OF assms(1)] by (simp add: store_ecc8_take [OF assms] assms(2) min_def)

lemma load_store_ecc8:
  assumes mt: "0 < GF_M bch * GF_T bch" and len: "length buf = BCH_ECC_WORDS bch"
    and n: "n \<le> GF_M bch * GF_T bch" and lc: "low_clear (32 * BCH_ECC_WORDS bch) n (ecc_val buf)"
  shows "load_ecc8 bch (store_ecc8 bch buf) = buf"
proof (rule nth_equalityI)
  note sz = ecc_sizes [OF mt]
  show l: "length (load_ecc8 bch (store_ecc8 bch buf)) = length buf" using load_ecc8_length [OF sz(1)] len by simp
  fix i assume "i < length (load_ecc8 bch (store_ecc8 bch buf))"
  then have i: "i < BCH_ECC_WORDS bch" using l len by simp
  show "load_ecc8 bch (store_ecc8 bch buf) ! i = buf ! i"
  proof (rule bit_word_eqI)
    fix k assume "k < LENGTH(32)"
    then have k: "k < 32" by simp
    define x where "x = 32 * i + (31 - k)"
    obtain y where y: "y = 31 - k" "y < 32" "31 - y = k" using k by simp
    have xd: "x div 32 = i" "31 - x mod 32 = k" unfolding x_def y(1) [symmetric] using y(2,3) by simp_all
    have x: "x < 32 * BCH_ECC_WORDS bch" using i k by (simp add: x_def)
    have "bit (load_ecc8 bch (store_ecc8 bch buf) ! i) k \<longleftrightarrow> x < 8 * BCH_ECC_BYTES bch \<and> byte_bit (store_ecc8 bch buf) x"
      using load_ecc8_bit [OF mt store_ecc8_length [OF mt len] x] by (simp only: xd)
    also have "\<dots> \<longleftrightarrow> bit (buf ! i) k"
    proof (cases "x < 8 * BCH_ECC_BYTES bch")
      case True
      then show ?thesis using load_store_bits [OF mt len True] by (simp only: xd simp_thms)
    next
      case False
      have "GF_M bch * GF_T bch \<le> 8 * BCH_ECC_BYTES bch" unfolding BCH_ECC_BYTES_def DIV_ROUND_UP_def by linarith
      then have "32 * (BCH_ECC_WORDS bch - 1 - i) + k < 32 * BCH_ECC_WORDS bch - n"
        using False n i k by (simp add: x_def diff_mult_distrib2)
      then have "\<not> bit (ecc_val buf) (32 * (BCH_ECC_WORDS bch - 1 - i) + k)"
        using lc by (simp add: low_clear_def)
      moreover have "bit (ecc_val buf) (32 * (BCH_ECC_WORDS bch - 1 - i) + k) = bit (buf ! i) k"
        using i k len by (subst bit_ecc_val_word [of buf "BCH_ECC_WORDS bch - 1"]) simp_all
      ultimately show ?thesis using False by simp
    qed
    finally show "bit (load_ecc8 bch (store_ecc8 bch buf) ! i) k = bit (buf ! i) k" .
  qed
qed

section \<open>Encoding, flipping a bit, decoding\<close>

text \<open>The parity bytes that \<open>encode_bch\<close> stores when the caller passes a zeroed buffer.\<close>

definition parity_bytes :: "bch_control \<Rightarrow> nat \<Rightarrow> u8 list \<Rightarrow> u8 list" where
  "parity_bytes bch addr data = the (snd (encode_bch bch addr data (Some (replicate (BCH_ECC_BYTES bch) 0))))"

lemma be32_zero: "be32 0 0 0 0 = 0"
  by (simp add: be32_def)

lemma load_zero_words:
  assumes "0 < GF_M bch * GF_T bch"
  shows "load_ecc8 bch (replicate (BCH_ECC_BYTES bch) 0) = replicate (BCH_ECC_WORDS bch) 0"
proof (rule nth_equalityI)
  note sz = ecc_sizes [OF assms]
  show "length (load_ecc8 bch (replicate (BCH_ECC_BYTES bch) 0)) = length (replicate (BCH_ECC_WORDS bch) 0)"
    using load_ecc8_length [OF sz(1)] by simp
  fix i assume "i < length (load_ecc8 bch (replicate (BCH_ECC_BYTES bch) 0))"
  then have i: "i < BCH_ECC_WORDS bch" using load_ecc8_length [OF sz(1)] by simp
  have "load_ecc8 bch (replicate (BCH_ECC_BYTES bch) 0) ! i = 0"
  proof (rule bit_word_eqI)
    fix k assume "k < LENGTH(32)"
    then obtain y where y: "y = 31 - k" "y < 32" "31 - y = k" by simp
    have "32 * i + y < 32 * BCH_ECC_WORDS bch" using i y(2) by simp
    from load_ecc8_bit [OF assms length_replicate this, of 0]
    show "bit (load_ecc8 bch (replicate (BCH_ECC_BYTES bch) 0) ! i) k = bit (0 :: u32) k"
      using y(2,3) by (auto simp: byte_bit_def less_mult_imp_div_less)
  qed
  with i show "load_ecc8 bch (replicate (BCH_ECC_BYTES bch) 0) ! i = replicate (BCH_ECC_WORDS bch) 0 ! i" by simp
qed

lemma parity_bytes_store:
  assumes "0 < GF_M bch * GF_T bch"
  shows "parity_bytes bch addr data = store_ecc8 bch (ecc_buf (fst (encode_bch bch addr data None)))"
  by (simp only: parity_bytes_def encode_bch_def Let_def option.case load_zero_words [OF assms] snd_conv fst_conv
      option.map option.sel ecc_buf_upd)

text \<open>\<open>encode_bch\<close> does not depend on the alignment of the data.\<close>

lemma ecc_val_inj: "length xs = length ys \<Longrightarrow> ecc_val xs = ecc_val ys \<Longrightarrow> xs = ys"
proof (rule nth_equalityI)
  assume len: "length xs = length ys" and eq: "ecc_val xs = ecc_val ys"
  fix i assume i: "i < length xs"
  show "xs ! i = ys ! i"
  proof (rule bit_word_eqI)
    fix k assume "k < LENGTH(32)"
    then show "bit (xs ! i) k = bit (ys ! i) k"
      using bit_ecc_val_word [of xs "length xs - 1" "length xs - 1 - i" k]
        bit_ecc_val_word [of ys "length ys - 1" "length ys - 1 - i" k] i len eq by simp
  qed
qed

lemma encode_bch_aligned:
  assumes ok: "mod8_ok G bch"
  shows "ecc_buf (fst (encode_bch bch addr data None)) = ecc_buf (fst (encode_bch bch addr' data None))"
proof -
  have w: "0 < BCH_ECC_WORDS bch" using ok by (simp add: mod8_ok_def)
  show ?thesis
    using encode_bch_buf [OF ok, of _ data None] encode_bch_length [OF w] by (intro ecc_val_inj) simp_all
qed

lemma load_parity:
  assumes ok: "code_ok p G bch"
  shows "load_ecc8 bch (parity_bytes bch addr data) = ecc_buf (fst (encode_bch bch addr data None))"
proof -
  note f = code_ok_facts [OF ok]
  have "1 \<le> 2 * GF_T bch" using f(3) by (simp add: syn_range_def)
  with encode_bch_eval(2) [OF ok, of 1] show ?thesis
    unfolding parity_bytes_store [OF f(7)] using ok
    by (intro load_store_ecc8 [OF f(7) encode_bch_length [OF f(5)], of "ecc_bits bch"]) (simp_all add: code_ok_def)
qed

lemma msg_eval_flip:
  assumes q: "q < length bs" and eq: "length bs' = length bs" "\<And>x. x < length bs \<Longrightarrow> bs' ! x = (bs ! x \<noteq> (x = q))"
  shows "msg_eval m p e n bs' = msg_eval m p e n bs XOR gf_alpha m p (e * (n + (length bs - 1 - q)))"
proof -
  have "msg_eval m p e n bs' = xsum (\<lambda>k. (if bs ! (length bs - 1 - k) then gf_alpha m p (e * (n + k)) else 0) XOR
      (if k = length bs - 1 - q then gf_alpha m p (e * (n + k)) else 0)) (length bs)"
    unfolding msg_eval_def eq(1)
  proof (rule xsum_cong)
    fix k assume k: "k < length bs"
    then have "length bs - 1 - k < length bs" "(length bs - 1 - k = q) = (k = length bs - 1 - q)" using q by auto
    then show "(if bs' ! (length bs - 1 - k) then gf_alpha m p (e * (n + k)) else 0) =
      (if bs ! (length bs - 1 - k) then gf_alpha m p (e * (n + k)) else 0) XOR
      (if k = length bs - 1 - q then gf_alpha m p (e * (n + k)) else 0)" by (auto simp: eq(2))
  qed
  also have "\<dots> = msg_eval m p e n bs XOR gf_alpha m p (e * (n + (length bs - 1 - q)))"
    unfolding xsum_xor msg_eval_def using xsum_single [of "length bs - 1 - q" "length bs"] q by simp
  finally show ?thesis .
qed

text \<open>The degree of the coefficient that a bit of the data, or a used bit of the parity bytes, stands for.\<close>

definition data_degree :: "bch_control \<Rightarrow> nat \<Rightarrow> nat \<Rightarrow> nat" where
  "data_degree bch len pos = ecc_bits bch + (8 * len - 1 - bit_order pos)"

definition parity_degree :: "bch_control \<Rightarrow> nat \<Rightarrow> nat" where
  "parity_degree bch pos = ecc_bits bch - 1 - bit_order pos"

lemma flip_bit8_length [simp]: "length (flip_bit8 pos data) = length data"
  by (simp add: flip_bit8_def)

lemma word_eval_data_flip:
  assumes e: "pos < 8 * length data"
  shows "word_eval p bch x (flip_bit8 pos data) ecc = word_eval p bch x data ecc XOR gf_alpha (GF_M bch) p (x * data_degree bch (length data) pos)"
proof -
  let ?data = "flip_bit8 pos data" and ?q = "bit_order pos" and ?L = "ecc_bits bch"
  have q: "?q < 8 * length data" using e by (simp add: bit_order_less)
  have "msg_eval (GF_M bch) p x ?L (message_bits ?data) =
      msg_eval (GF_M bch) p x ?L (message_bits data) XOR gf_alpha (GF_M bch) p (x * data_degree bch (length data) pos)"
    using msg_eval_flip [of ?q "message_bits data" "message_bits ?data"] q byte_bit_flip [OF e]
    by (simp add: message_bits_nth data_degree_def)
  then show ?thesis by (simp add: word_eval_def xor.assoc)
qed

lemma errloc_data_degree:
  assumes "pos < 8 * len"
  shows "data_degree bch len pos < 8 * len + ecc_bits bch" "ecc_bits bch \<le> data_degree bch len pos"
    "errloc_bit (8 * len + ecc_bits bch) (data_degree bch len pos) = pos"
proof -
  have q: "bit_order pos < 8 * len" using assms by (simp add: bit_order_less)
  then show "data_degree bch len pos < 8 * len + ecc_bits bch" "ecc_bits bch \<le> data_degree bch len pos" by (auto simp: data_degree_def)
  have "8 * len + ecc_bits bch - 1 - data_degree bch len pos = bit_order pos" using q by (simp add: data_degree_def)
  then show "errloc_bit (8 * len + ecc_bits bch) (data_degree bch len pos) = pos" by (simp add: errloc_bit_order)
qed

lemma ecc_coeff_load:
  assumes ok: "code_ok p G bch" and len: "length re = BCH_ECC_BYTES bch" and k: "k < ecc_bits bch"
  shows "ecc_coeff (ecc_bits bch) (load_ecc8 bch re) k = byte_bit re (ecc_bits bch - 1 - k)"
proof -
  note f = code_ok_facts [OF ok]
  have "GF_M bch * GF_T bch \<le> 8 * BCH_ECC_BYTES bch" unfolding BCH_ECC_BYTES_def DIV_ROUND_UP_def by linarith
  then have "ecc_bits bch - 1 - k < 8 * BCH_ECC_BYTES bch" using k ok unfolding code_ok_def by linarith
  moreover have "ecc_bits bch - 1 - k < 32 * BCH_ECC_WORDS bch" using k f(6) by linarith
  ultimately show ?thesis
    using load_ecc8_bit [OF f(7) len, of "ecc_bits bch - 1 - k"] by (simp add: ecc_coeff_def)
qed

lemma ecc_bits_bytes: "code_ok p G bch \<Longrightarrow> ecc_bits bch \<le> 8 * BCH_ECC_BYTES bch"
proof -
  assume ok: "code_ok p G bch"
  have "GF_M bch * GF_T bch \<le> 8 * BCH_ECC_BYTES bch" unfolding BCH_ECC_BYTES_def DIV_ROUND_UP_def by linarith
  then show ?thesis using ok by (simp add: code_ok_def)
qed

lemma parity_bytes_length: "code_ok p G bch \<Longrightarrow> length (parity_bytes bch addr data) = BCH_ECC_BYTES bch"
proof -
  assume ok: "code_ok p G bch"
  note f = code_ok_facts [OF ok]
  show ?thesis using store_ecc8_length [OF f(7) encode_bch_length [OF f(5)]] by (simp add: parity_bytes_store [OF f(7)])
qed

lemma word_eval_parity_flip:
  assumes ok: "code_ok p G bch" and e: "bit_order pos < ecc_bits bch" and lre: "length re = BCH_ECC_BYTES bch"
  shows "word_eval p bch x data (load_ecc8 bch (flip_bit8 pos re)) =
    word_eval p bch x data (load_ecc8 bch re) XOR gf_alpha (GF_M bch) p (x * parity_degree bch pos)"
proof -
  let ?q = "bit_order pos" and ?L = "ecc_bits bch" and ?d = "parity_degree bch pos"
  note LB = ecc_bits_bytes [OF ok]
  then have pos: "pos < 8 * length re" using e lre bit_order_less [of pos "BCH_ECC_BYTES bch"] by simp
  have "eval2 (GF_M bch) p x (ecc_coeff ?L (load_ecc8 bch (flip_bit8 pos re))) ?L =
      eval2 (GF_M bch) p x (\<lambda>k. ecc_coeff ?L (load_ecc8 bch re) k \<noteq> (k = ?d)) ?L"
  proof (rule eval2_cong)
    fix k assume k: "k < ?L"
    have "(?L - 1 - k = ?q) = (k = ?d)" using k e by (auto simp: parity_degree_def)
    then show "ecc_coeff ?L (load_ecc8 bch (flip_bit8 pos re)) k = (ecc_coeff ?L (load_ecc8 bch re) k \<noteq> (k = ?d))"
      using byte_bit_flip [OF pos, of "?L - 1 - k"] k LB lre by (simp add: ecc_coeff_load [OF ok])
  qed
  also have "\<dots> = eval2 (GF_M bch) p x (ecc_coeff ?L (load_ecc8 bch re)) ?L XOR gf_alpha (GF_M bch) p (x * ?d)"
    unfolding eval2_xor using eval2_single [of ?d ?L] e by (simp add: parity_degree_def)
  finally show ?thesis by (simp add: word_eval_def xor_simps)
qed

lemma errloc_parity_degree:
  assumes e: "bit_order pos < ecc_bits bch"
  shows "parity_degree bch pos < ecc_bits bch" "errloc_bit (8 * len + ecc_bits bch) (parity_degree bch pos) = 8 * len + pos"
proof -
  show "parity_degree bch pos < ecc_bits bch" using e by (simp add: parity_degree_def)
  have "8 * len + ecc_bits bch - 1 - parity_degree bch pos = 8 * len + bit_order pos" using e by (simp add: parity_degree_def)
  moreover have "bit_order (8 * n + y) = 8 * n + bit_order y" for n y
    using div_mult_self4 [of 8 n y] mod_mult_self4 [of 8 n y] unfolding bit_order_def by (simp add: add_mult_distrib2)
  ultimately show "errloc_bit (8 * len + ecc_bits bch) (parity_degree bch pos) = 8 * len + pos"
    unfolding errloc_bit_order by (simp only: bit_order_inv)
qed

lemma decode_clean:
  assumes ok: "code_ok p G bch" and len: "8 * length data \<le> bch_n bch - ecc_bits bch"
  shows "\<exists>bch'. decode_bch bch (Some (addr', data)) (length data) (Some (parity_bytes bch addr data)) None None = (0, [], bch')"
proof -
  note f = code_ok_facts [OF ok]
  have n: "bch_n bch < 2 ^ 31" using ok by (simp add: code_ok_def)
  have "list_all (\<lambda>w. w = 0) (parity_diff bch addr' data (parity_bytes bch addr data))"
    unfolding parity_diff_def load_parity [OF ok] encode_bch_aligned [OF f(2), of addr' data addr]
    by (simp add: list_all_length)
  with decode_bch_received [OF len n refl, of p addr' "parity_bytes bch addr data"] show ?thesis
    by (cases "decode_bch bch (Some (addr', data)) (length data) (Some (parity_bytes bch addr data)) None None")
      (auto simp: Let_def)
qed

end
