(* ===== verification/Bch_Init.thy ===== *)
theory Bch_Init
  imports Bch_Codeword "HOL-Library.Multiset"
begin

text \<open>
  Construction of a control structure in lib/bch.c: \<open>build_deg2_base\<close>,
  \<open>compute_generator_polynomial\<close>, \<open>init_bch\<close> and
  \<open>free_bch\<close>.
\<close>

section \<open>Definitions\<close>

text \<open>
  \<open>build_deg2_base\<close>: the search for an element of trace 1, the loop over
  \<open>x\<close> with the two candidates \<open>y\<close> and \<open>y ^ ak\<close>, and the
  flags \<open>xi\<close>.
\<close>

definition trace_sum :: "bch_control \<Rightarrow> nat \<Rightarrow> nat" where
  "trace_sum bch i = fold (\<lambda>j sum. sum XOR a_pow bch (int (i * 2 ^ j))) [0..<GF_M bch] 0"

definition find_trace_one :: "bch_control \<Rightarrow> nat" where
  "find_trace_one bch =
     (case find (\<lambda>i. trace_sum bch i \<noteq> 0) [0..<GF_M bch] of
        Some i \<Rightarrow> a_pow_tab bch ! i | None \<Rightarrow> 0)"

definition deg2_accept :: "bch_control \<Rightarrow> bool list \<Rightarrow> nat \<Rightarrow> bool" where
  "deg2_accept bch flags y \<longleftrightarrow> y \<noteq> 0 \<and> a_log bch y < GF_M bch \<and> \<not> flags ! a_log bch y"

function deg2_loop :: "bch_control \<Rightarrow> nat \<Rightarrow> nat \<Rightarrow> nat \<Rightarrow> bool list \<Rightarrow> nat list \<Rightarrow> nat \<times> nat list" where
  "deg2_loop bch ak x remaining flags xi =
     (if x \<le> GF_N bch \<and> remaining \<noteq> 0
      then let y = gf_sqr bch x XOR x
           in if deg2_accept bch flags y
              then deg2_loop bch ak (Suc x) (remaining - 1) (flags[a_log bch y := True]) (xi[a_log bch y := x])
              else if deg2_accept bch flags (y XOR ak)
              then deg2_loop bch ak (Suc x) (remaining - 1)
                     (flags[a_log bch (y XOR ak) := True]) (xi[a_log bch (y XOR ak) := x])
              else deg2_loop bch ak (Suc x) remaining flags xi
      else (remaining, xi))"
  by pat_completeness auto
termination
  by (relation "measure (\<lambda>(bch, ak, x, remaining, flags, xi). Suc (GF_N bch) - x)") auto

declare deg2_loop.simps [simp del]

definition build_deg2_base :: "bch_control \<Rightarrow> int \<times> bch_control" where
  "build_deg2_base bch =
     (case deg2_loop bch (find_trace_one bch) 0 (GF_M bch) (replicate (GF_M bch) False) (xi_tab bch) of
        (remaining, xi) \<Rightarrow> (if remaining \<noteq> 0 then -1 else 0, bch\<lparr>xi_tab := xi\<rparr>))"

text \<open>
  \<open>compute_generator_polynomial\<close>: the table of the exponents of the roots,
  the product of the linear factors, and the left-justified bit representation.
\<close>

fun mark_roots :: "bch_control \<Rightarrow> nat \<Rightarrow> nat \<Rightarrow> bool list \<Rightarrow> bool list" where
  "mark_roots bch 0 r roots = roots"
| "mark_roots bch (Suc j) r roots = mark_roots bch j (mod_s bch (2 * r)) (roots[r := True])"

definition gen_roots :: "bch_control \<Rightarrow> bool list" where
  "gen_roots bch =
     fold (\<lambda>i roots. mark_roots bch (GF_M bch) (2 * i + 1) roots) [0..<GF_T bch] (replicate (bch_n bch + 1) False)"

text \<open>
  Multiplication of \<open>g\<close> by \<open>X + r\<close> in place: the new leading coefficient,
  the loop from \<open>j = deg\<close> down to 1, and the constant term.
\<close>

definition mul_root :: "bch_control \<Rightarrow> nat \<Rightarrow> gf_poly \<Rightarrow> gf_poly" where
  "mul_root bch r g =
     (let c0 = (poly_c g)[poly_deg g + 1 := 1];
          c1 = fold (\<lambda>j c. c[j := gf_mul bch (c ! j) r XOR c ! (j - 1)]) (rev [1..<Suc (poly_deg g)]) c0
      in \<lparr>poly_deg = poly_deg g + 1, poly_c = c1[0 := gf_mul bch (c1 ! 0) r]\<rparr>)"

definition gen_poly :: "bch_control \<Rightarrow> gf_poly" where
  "gen_poly bch =
     (let roots = gen_roots bch;
          g0 = \<lparr>poly_deg = 0, poly_c = (replicate (GF_M bch * GF_T bch + 1) 0)[0 := 1]\<rparr>
      in fold (\<lambda>i g. if roots ! i then mul_root bch (a_pow_tab bch ! i) g else g) [0..<GF_N bch] g0)"

definition gen_pack_word :: "nat list \<Rightarrow> nat \<Rightarrow> nat \<Rightarrow> u32" where
  "gen_pack_word c n nbits =
     fold (\<lambda>j w. if c ! (n - 1 - j) \<noteq> 0 then w OR push_bit (31 - j) 1 else w) [0..<nbits] 0"

function gen_pack :: "nat list \<Rightarrow> nat \<Rightarrow> u32 list" where
  "gen_pack c n =
     (if 0 < n then let nbits = (if n > 32 then 32 else n) in gen_pack_word c n nbits # gen_pack c (n - nbits)
      else [])"
  by pat_completeness auto
termination
  by (relation "measure (\<lambda>(c, n). n)") auto

declare gen_pack.simps [simp del]

text \<open>
  Memory allocation may fail: \<open>alloc i\<close> says whether the \<open>i\<close>-th call of
  \<open>kmalloc\<close> (or \<open>kzalloc\<close>) made by \<open>init_bch\<close> succeeds.  The
  control structure itself is call 0, the buffers of the structure are calls 1
  to 13, those of \<open>compute_generator_polynomial\<close> calls 14 to 16.
\<close>

definition compute_generator_polynomial ::
  "(nat \<Rightarrow> bool) \<Rightarrow> bch_control \<Rightarrow> u32 list option \<times> bch_control" where
  "compute_generator_polynomial alloc bch =
     (if \<not> (alloc 14 \<and> alloc 15 \<and> alloc 16) then (None, bch)
      else let g = gen_poly bch
           in (Some (gen_pack (poly_c g) (poly_deg g + 1)), bch\<lparr>ecc_bits := poly_deg g\<rparr>))"

definition prim_poly_tab :: "nat list" where
  "prim_poly_tab = [0x25, 0x43, 0x83, 0x11d, 0x211, 0x409, 0x805, 0x1053, 0x201b, 0x402b, 0x8003]"

text \<open>
  \<open>init_bch\<close>.  \<open>const_params\<close> is \<open>Some (M, T)\<close> when the kernel is
  built with \<open>CONFIG_BCH_CONST_PARAMS\<close>.  The contents of freshly allocated
  buffers are immaterial and taken to be zero.  \<open>None\<close> is the null pointer;
  every failure releases the structure through \<open>free_bch\<close>.  The product \<open>m * t\<close>
  of the sanity check is the exact one; in the code it is a signed 32-bit product,
  which overflows for \<open>t\<close> of about \<open>2 ^ 31 / m\<close> and more, far beyond every code
  (\<open>m * t < 2 ^ 15\<close>).
\<close>

definition fresh_bch :: "nat \<Rightarrow> nat \<Rightarrow> bch_control" where
  "fresh_bch m t =
     (let n = 2 ^ m - 1; words = DIV_ROUND_UP (m * t) 32
      in \<lparr>bch_m = m, bch_n = n, bch_t = t, ecc_bits = 0, ecc_bytes = DIV_ROUND_UP (m * t) 8,
          a_pow_tab = replicate (1 + n) 0, a_log_tab = replicate (1 + n) 0,
          mod8_tab = replicate (words * 1024) 0, ecc_buf = replicate words 0, ecc_buf2 = replicate words 0,
          xi_tab = replicate m 0\<rparr>)"

definition init_bch :: "(nat \<times> nat) option \<Rightarrow> (nat \<Rightarrow> bool) \<Rightarrow> int \<Rightarrow> int \<Rightarrow> nat \<Rightarrow> bch_control option" where
  "init_bch const_params alloc m t prim_poly =
     (if (case const_params of Some (M, T) \<Rightarrow> m \<noteq> int M \<or> t \<noteq> int T | None \<Rightarrow> False) then None
      else if m < 5 \<or> m > 15 then None
      else if t < 1 \<or> m * t \<ge> 2 ^ nat m - 1 then None
      else let poly = (if prim_poly = 0 then prim_poly_tab ! nat (m - 5) else prim_poly);
               bch0 = fresh_bch (nat m) (nat t)
           in if \<not> list_all alloc [0..<14] then None
              else case build_gf_tables bch0 poly of (err, bch1) \<Rightarrow>
                if err \<noteq> 0 then None
                else case compute_generator_polynomial alloc bch1 of
                  (None, _) \<Rightarrow> None
                | (Some genpoly, bch2) \<Rightarrow>
                    (case build_deg2_base (build_mod8_tables bch2 genpoly) of
                       (err2, bch3) \<Rightarrow> if err2 \<noteq> 0 then None else Some bch3))"


section \<open>The generator polynomial\<close>

text \<open>A polynomial as its coefficient function, and multiplication by \<open>X + r\<close>.\<close>

definition coeff_fun :: "gf_poly \<Rightarrow> nat \<Rightarrow> nat" where
  "coeff_fun g k = (if k \<le> poly_deg g then poly_c g ! k else 0)"

definition mul_lin :: "bch_control \<Rightarrow> nat \<Rightarrow> (nat \<Rightarrow> nat) \<Rightarrow> nat \<Rightarrow> nat" where
  "mul_lin bch r f k = gf_mul bch (f k) r XOR (if k = 0 then 0 else f (k - 1))"

definition one_fun :: "nat \<Rightarrow> nat" where
  "one_fun k = (if k = 0 then 1 else 0)"

text \<open>What the loop of \<open>compute_generator_polynomial\<close> keeps: a monic polynomial in an array with room.\<close>

definition monic :: "nat \<Rightarrow> gf_poly \<Rightarrow> bool" where
  "monic sz g \<longleftrightarrow> length (poly_c g) = sz \<and> poly_deg g < sz \<and> poly_c g ! poly_deg g = 1"

lemma shift_loop_nth:
  assumes "d < length c"
  shows "length (fold (\<lambda>j c. c[j := gf_mul bch (c ! j) r XOR c ! (j - 1)]) (rev [1..<Suc d]) c) = length c \<and>
         fold (\<lambda>j c. c[j := gf_mul bch (c ! j) r XOR c ! (j - 1)]) (rev [1..<Suc d]) c ! k =
           (if 1 \<le> k \<and> k \<le> d then gf_mul bch (c ! k) r XOR c ! (k - 1) else c ! k)"
  using assms
proof (induction d arbitrary: c)
  case (Suc d)
  let ?F = "\<lambda>j c. c[j := gf_mul bch (c ! j) r XOR c ! (j - 1)]"
  let ?c = "?F (Suc d) c"
  have "fold ?F (rev [1..<Suc (Suc d)]) c = fold ?F (rev [1..<Suc d]) ?c" by simp
  moreover have "length (fold ?F (rev [1..<Suc d]) ?c) = length ?c \<and>
      fold ?F (rev [1..<Suc d]) ?c ! k = (if 1 \<le> k \<and> k \<le> d then gf_mul bch (?c ! k) r XOR ?c ! (k - 1) else ?c ! k)"
    using Suc.prems by (intro Suc.IH) simp
  ultimately show ?case
    using Suc.prems by (simp only:) (auto simp: nth_list_update le_Suc_eq)
qed simp

lemma mul_root_correct:
  assumes g: "monic sz g" and room: "poly_deg g + 1 < sz" and one: "gf_mul bch 0 r = 0"
  shows "monic sz (mul_root bch r g)" and "poly_deg (mul_root bch r g) = poly_deg g + 1"
    and "coeff_fun (mul_root bch r g) = mul_lin bch r (coeff_fun g)"
proof -
  define c0 where "c0 = (poly_c g)[poly_deg g + 1 := 1]"
  define c1 where "c1 = fold (\<lambda>j c. c[j := gf_mul bch (c ! j) r XOR c ! (j - 1)]) (rev [1..<Suc (poly_deg g)]) c0"
  have len: "length c0 = sz" "poly_deg g < length c0" using g by (simp_all add: c0_def monic_def)
  have c1: "length c1 = sz"
    "c1 ! k = (if 1 \<le> k \<and> k \<le> poly_deg g then gf_mul bch (c0 ! k) r XOR c0 ! (k - 1) else c0 ! k)" for k
    using shift_loop_nth [OF len(2), of bch r] len(1) unfolding c1_def [symmetric] by auto
  have res: "mul_root bch r g = \<lparr>poly_deg = poly_deg g + 1, poly_c = c1[0 := gf_mul bch (c1 ! 0) r]\<rparr>"
    by (simp add: mul_root_def Let_def c0_def c1_def)
  have c0: "c0 ! k = (if k = poly_deg g + 1 then 1 else poly_c g ! k)" for k
    using room g by (simp add: c0_def monic_def nth_list_update_if)
  show "monic sz (mul_root bch r g)" "poly_deg (mul_root bch r g) = poly_deg g + 1"
    using room c1 c0 by (simp_all add: res monic_def)
  show "coeff_fun (mul_root bch r g) = mul_lin bch r (coeff_fun g)"
  proof
    fix k
    consider "k = 0" | "1 \<le> k" "k \<le> poly_deg g" | "k = poly_deg g + 1" | "poly_deg g + 1 < k" by linarith
    then show "coeff_fun (mul_root bch r g) k = mul_lin bch r (coeff_fun g) k"
      by cases (use g room in \<open>auto simp: res coeff_fun_def mul_lin_def c1 c0 monic_def\<close>)
  qed
qed

text \<open>The value of a polynomial at \<open>a ^ e\<close>, and the effect of a linear factor on it.\<close>

definition fun_eval :: "bch_control \<Rightarrow> nat \<Rightarrow> nat \<Rightarrow> (nat \<Rightarrow> nat) \<Rightarrow> nat \<Rightarrow> nat" where
  "fun_eval bch p e f n = xsum (\<lambda>k. gf_mul bch (f k) (gf_alpha (GF_M bch) p (e * k))) n"

lemma fun_eval_mul_lin:
  assumes ok: "gf_ok p bch" and f: "\<And>k. f k \<le> GF_N bch" and r: "r \<le> GF_N bch" and n: "\<And>k. n \<le> k \<Longrightarrow> f k = 0"
  shows "fun_eval bch p e (mul_lin bch r f) (Suc n) =
         gf_mul bch (gf_alpha (GF_M bch) p e XOR r) (fun_eval bch p e f n)"
proof -
  let ?al = "\<lambda>k. gf_alpha (GF_M bch) p (e * k)" and ?a = "gf_alpha (GF_M bch) p e"
  let ?t = "\<lambda>k. gf_mul bch (f k) (?al k)"
  note al = gf_alpha_le_N [OF ok] and cl = gf_mul_closed [OF ok]
  have t: "?t k \<le> GF_N bch" for k by (rule cl [OF f al])
  have sum: "gf_mul bch x (xsum ?t n) = xsum (\<lambda>k. gf_mul bch x (?t k)) n" "xsum ?t n \<le> GF_N bch" if "x \<le> GF_N bch" for x
    using gf_mul_xsum [OF ok that, of ?t n] t by simp_all
  have "fun_eval bch p e (mul_lin bch r f) (Suc n) =
      xsum (\<lambda>k. gf_mul bch r (?t k) XOR gf_mul bch (if k = 0 then 0 else f (k - 1)) (?al k)) (Suc n)"
    unfolding fun_eval_def
  proof (rule xsum_cong)
    fix k
    have "gf_mul bch (mul_lin bch r f k) (?al k) =
        gf_mul bch (gf_mul bch (f k) r) (?al k) XOR gf_mul bch (if k = 0 then 0 else f (k - 1)) (?al k)"
      unfolding mul_lin_def by (rule gf_mul_xor [OF ok cl [OF f r] _ al]) (simp add: f)
    also have "gf_mul bch (gf_mul bch (f k) r) (?al k) = gf_mul bch r (?t k)"
      using gf_mul_assoc [OF ok r f al, of k "e * k"] gf_mul_commute [OF ok f r, of k] by simp
    finally show "gf_mul bch (mul_lin bch r f k) (?al k) =
        gf_mul bch r (?t k) XOR gf_mul bch (if k = 0 then 0 else f (k - 1)) (?al k)" .
  qed
  also have "\<dots> = xsum (\<lambda>k. gf_mul bch r (?t k)) (Suc n) XOR
      xsum (\<lambda>k. gf_mul bch (if k = 0 then 0 else f (k - 1)) (?al k)) (Suc n)"
    by (rule xsum_xor)
  also have "xsum (\<lambda>k. gf_mul bch (if k = 0 then 0 else f (k - 1)) (?al k)) (Suc n) = xsum (\<lambda>k. gf_mul bch ?a (?t k)) n"
  proof -
    have "gf_mul bch (f k) (?al (Suc k)) = gf_mul bch ?a (?t k)" for k
    proof -
      have "gf_mul bch (f k) (?al (Suc k)) = gf_mul bch (f k) (gf_mul bch ?a (?al k))"
        by (simp add: gf_mul_alpha [OF ok])
      also have "\<dots> = gf_mul bch (gf_mul bch (f k) ?a) (?al k)" by (rule gf_mul_assoc [OF ok f al al, symmetric])
      also have "gf_mul bch (f k) ?a = gf_mul bch ?a (f k)" by (rule gf_mul_commute [OF ok f al])
      also have "gf_mul bch (gf_mul bch ?a (f k)) (?al k) = gf_mul bch ?a (?t k)" by (rule gf_mul_assoc [OF ok al f al])
      finally show ?thesis .
    qed
    then show ?thesis by (simp add: xsum_Suc_shift del: xsum.simps)
  qed
  also have "xsum (\<lambda>k. gf_mul bch r (?t k)) (Suc n) = xsum (\<lambda>k. gf_mul bch r (?t k)) n" using n [of n] by simp
  finally show ?thesis
    unfolding fun_eval_def gf_mul_xor [OF ok al r sum(2) [OF r]]
    using sum(1) [OF r] sum(1) [OF al] by (simp add: xor.commute)
qed


definition lin_prod :: "bch_control \<Rightarrow> nat list \<Rightarrow> nat \<Rightarrow> nat" where
  "lin_prod bch rs = fold (mul_lin bch) rs one_fun"

lemma mul_lin_range:
  assumes "gf_ok p bch" and "\<And>k. f k \<le> GF_N bch" and "r \<le> GF_N bch"
  shows "mul_lin bch r f k \<le> GF_N bch"
  using assms by (simp add: mul_lin_def gf_xor_closed [OF assms(1)] gf_mul_closed [OF assms(1)])

lemma mul_lin_commute:
  assumes ok: "gf_ok p bch" and f: "\<And>k. f k \<le> GF_N bch" and r: "r \<le> GF_N bch" and s: "s \<le> GF_N bch"
  shows "mul_lin bch r (mul_lin bch s f) = mul_lin bch s (mul_lin bch r f)"
proof
  fix k
  define f1 where "f1 = (if k = 0 then 0 else f (k - 1))"
  define f2 where "f2 = (if k \<le> 1 then 0 else f (k - 2))"
  have le: "f k \<le> GF_N bch" "f1 \<le> GF_N bch" using f by (simp_all add: f1_def)
  have expand: "mul_lin bch x (mul_lin bch y f) k =
      (gf_mul bch (gf_mul bch (f k) y) x XOR gf_mul bch f1 x) XOR (gf_mul bch f1 y XOR f2)"
    if xy: "x \<le> GF_N bch" "y \<le> GF_N bch" for x y
  proof -
    have hd: "mul_lin bch y f k = gf_mul bch (f k) y XOR f1" by (simp add: mul_lin_def f1_def)
    have tl: "(if k = 0 then 0 else mul_lin bch y f (k - 1)) = gf_mul bch f1 y XOR f2"
      by (cases k) (auto simp: mul_lin_def f1_def f2_def numeral_2_eq_2)
    show ?thesis
      unfolding mul_lin_def [of bch x] hd tl
      using gf_mul_xor [OF ok gf_mul_closed [OF ok le(1) xy(2)] le(2) xy(1)] by simp
  qed
  have "gf_mul bch (gf_mul bch (f k) s) r = gf_mul bch (gf_mul bch (f k) r) s"
    using gf_mul_assoc [OF ok le(1) s r] gf_mul_assoc [OF ok le(1) r s] gf_mul_commute [OF ok r s] by simp
  then show "mul_lin bch r (mul_lin bch s f) k = mul_lin bch s (mul_lin bch r f) k"
    unfolding expand [OF r s] expand [OF s r] by (simp add: xor_simps)
qed

lemma fold_mul_lin_range:
  assumes "gf_ok p bch" and "\<And>k. f k \<le> GF_N bch" and "\<forall>r\<in>set rs. r \<le> GF_N bch"
  shows "fold (mul_lin bch) rs f k \<le> GF_N bch"
  using assms(2,3)
proof (induction rs arbitrary: f k)
  case (Cons r rs)
  have "mul_lin bch r f k \<le> GF_N bch" for k using Cons.prems by (intro mul_lin_range [OF assms(1)]) auto
  with Cons show ?case by simp
qed simp

lemma fold_mul_lin_front:
  assumes ok: "gf_ok p bch" and "\<And>k. f k \<le> GF_N bch" and "\<forall>r\<in>set rs. r \<le> GF_N bch" and "y \<in> set rs"
  shows "fold (mul_lin bch) rs f = fold (mul_lin bch) (remove1 y rs) (mul_lin bch y f)"
  using assms(2-)
proof (induction rs arbitrary: f)
  case (Cons r rs)
  have r: "r \<le> GF_N bch" "y \<le> GF_N bch" using Cons.prems by auto
  show ?case
  proof (cases "y = r")
    case False
    have "fold (mul_lin bch) rs (mul_lin bch r f) = fold (mul_lin bch) (remove1 y rs) (mul_lin bch y (mul_lin bch r f))"
      using Cons.prems False r mul_lin_range [OF ok] by (intro Cons.IH) auto
    with False show ?thesis using mul_lin_commute [OF ok Cons.prems(1) r] by simp
  qed simp
qed simp

lemma fold_mul_lin_perm:
  assumes ok: "gf_ok p bch" and "\<And>k. f k \<le> GF_N bch" and "\<forall>r\<in>set rs. r \<le> GF_N bch" and "mset rs = mset ss"
  shows "fold (mul_lin bch) rs f = fold (mul_lin bch) ss f"
  using assms(2-)
proof (induction ss arbitrary: rs f)
  case (Cons y ss)
  have y: "y \<in> set rs" using Cons.prems(3) by (metis list.set_intros(1) set_mset_mset)
  then have "fold (mul_lin bch) rs f = fold (mul_lin bch) (remove1 y rs) (mul_lin bch y f)"
    using fold_mul_lin_front [OF ok Cons.prems(1,2)] by simp
  also have "\<dots> = fold (mul_lin bch) ss (mul_lin bch y f)"
  proof (rule Cons.IH)
    show "mul_lin bch y f k \<le> GF_N bch" for k using Cons.prems(1,2) y by (intro mul_lin_range [OF ok]) auto
    show "\<forall>r\<in>set (remove1 y rs). r \<le> GF_N bch" using Cons.prems(2) set_remove1_subset by fastforce
    show "mset (remove1 y rs) = mset ss" using Cons.prems(3) by simp
  qed
  finally show ?case by simp
qed simp

lemma gf_sqr_le: "gf_ok p bch \<Longrightarrow> a \<le> GF_N bch \<Longrightarrow> gf_sqr bch a \<le> GF_N bch"
  by (simp add: gf_sqr_mul gf_mul_closed)

lemma sqr_mul_lin:
  assumes ok: "gf_ok p bch" and f: "\<And>k. f k \<le> GF_N bch" and r: "r \<le> GF_N bch"
  shows "(\<lambda>k. gf_sqr bch (mul_lin bch r f k)) = mul_lin bch (gf_sqr bch r) (\<lambda>k. gf_sqr bch (f k))"
proof
  fix k
  have "gf_sqr bch (gf_mul bch (f k) r) = gf_mul bch (gf_sqr bch (f k)) (gf_sqr bch r)"
  proof -
    let ?a = "f k"
    note c = gf_mul_closed [OF ok] and as = gf_mul_assoc [OF ok]
    have "gf_mul bch (gf_mul bch ?a r) (gf_mul bch ?a r) = gf_mul bch ?a (gf_mul bch r (gf_mul bch ?a r))"
      by (rule as [OF f r c [OF f r]])
    also have "gf_mul bch r (gf_mul bch ?a r) = gf_mul bch (gf_mul bch ?a r) r"
      by (rule gf_mul_commute [OF ok r c [OF f r]])
    also have "\<dots> = gf_mul bch ?a (gf_mul bch r r)" by (rule as [OF f r r])
    also have "gf_mul bch ?a (gf_mul bch ?a (gf_mul bch r r)) = gf_mul bch (gf_mul bch ?a ?a) (gf_mul bch r r)"
      by (rule as [OF f f c [OF r r], symmetric])
    finally show ?thesis by (simp add: gf_sqr_mul)
  qed
  then show "gf_sqr bch (mul_lin bch r f k) = mul_lin bch (gf_sqr bch r) (\<lambda>k. gf_sqr bch (f k)) k"
    unfolding mul_lin_def
    using gf_sqr_xor [OF ok gf_mul_closed [OF ok f r], of "if k = 0 then 0 else f (k - 1)"] f
    by (simp add: gf_sqr_def [of _ 0])
qed

lemma one_fun_range: "gf_ok p bch \<Longrightarrow> one_fun k \<le> GF_N bch"
  using gf_one_le by (simp add: one_fun_def)

lemma sqr_one_fun: "gf_ok p bch \<Longrightarrow> (\<lambda>k. gf_sqr bch (one_fun k)) = one_fun"
  using gf_mul_one [of p bch 1] gf_one_le [of p bch]
  by (auto simp: fun_eq_iff one_fun_def gf_sqr_mul gf_sqr_def [of _ 0])

text \<open>A product of linear factors whose roots are closed under squaring has binary coefficients.\<close>

lemma sqr_lin_prod:
  assumes ok: "gf_ok p bch" and "\<forall>r\<in>set rs. r \<le> GF_N bch"
  shows "(\<lambda>k. gf_sqr bch (lin_prod bch rs k)) = lin_prod bch (map (gf_sqr bch) rs)"
proof -
  have "(\<lambda>k. gf_sqr bch (fold (mul_lin bch) rs f k)) = fold (mul_lin bch) (map (gf_sqr bch) rs) (\<lambda>k. gf_sqr bch (f k))"
    if "\<And>k. f k \<le> GF_N bch" for f
    using that assms(2)
  proof (induction rs arbitrary: f)
    case (Cons r rs)
    then have r: "r \<le> GF_N bch" by simp
    have "(\<lambda>k. gf_sqr bch (fold (mul_lin bch) rs (mul_lin bch r f) k)) =
        fold (mul_lin bch) (map (gf_sqr bch) rs) (\<lambda>k. gf_sqr bch (mul_lin bch r f k))"
      using Cons.prems mul_lin_range [OF ok Cons.prems(1) r] by (intro Cons.IH) auto
    then show ?case using sqr_mul_lin [OF ok Cons.prems(1) r] by simp
  qed simp
  from this [OF one_fun_range [OF ok]] show ?thesis by (simp add: lin_prod_def sqr_one_fun [OF ok])
qed

lemma gf_sqr_inj:
  assumes ok: "gf_ok p bch" and a: "a \<le> GF_N bch" and b: "b \<le> GF_N bch" and eq: "gf_sqr bch a = gf_sqr bch b"
  shows "a = b"
proof -
  have "gf_mul bch (a XOR b) (a XOR b) = 0"
    using gf_sqr_xor [OF ok a b] eq by (simp add: gf_sqr_mul)
  then show ?thesis
    using gf_mul_eq_0 [OF ok gf_xor_closed [OF ok a b] gf_xor_closed [OF ok a b]] by (simp add: xor_eq_0_iff)
qed

lemma lin_prod_binary:
  assumes ok: "gf_ok p bch" and rs: "\<forall>r\<in>set rs. r \<le> GF_N bch" and "distinct rs"
    and closed: "\<And>r. r \<in> set rs \<Longrightarrow> gf_sqr bch r \<in> set rs"
  shows "lin_prod bch rs k = 0 \<or> lin_prod bch rs k = 1"
proof -
  have inj: "inj_on (gf_sqr bch) (set rs)" using gf_sqr_inj [OF ok] rs by (intro inj_onI) auto
  have "gf_sqr bch ` set rs = set rs"
    using closed inj by (intro card_subset_eq) (auto simp: card_image)
  then have "mset (map (gf_sqr bch) rs) = mset rs"
    using inj \<open>distinct rs\<close> by (subst set_eq_iff_mset_eq_distinct [symmetric]) (auto simp: distinct_map)
  then have "lin_prod bch (map (gf_sqr bch) rs) = lin_prod bch rs"
    unfolding lin_prod_def using rs gf_sqr_le [OF ok] one_fun_range [OF ok]
    by (intro fold_mul_lin_perm [OF ok]) auto
  then have sq: "gf_sqr bch (lin_prod bch rs k) = lin_prod bch rs k"
    using sqr_lin_prod [OF ok rs] by (auto simp: fun_eq_iff)
  have le: "lin_prod bch rs k \<le> GF_N bch"
    unfolding lin_prod_def by (rule fold_mul_lin_range [OF ok one_fun_range [OF ok] rs])
  have "gf_mul bch (lin_prod bch rs k) (lin_prod bch rs k) = gf_mul bch (lin_prod bch rs k) 1"
    using sq gf_mul_commute [OF ok le gf_one_le [OF ok]] gf_mul_one [OF ok le] by (simp add: gf_sqr_mul)
  then show ?thesis
    using gf_mul_left_cancel [OF ok le le] gf_one_le [OF ok] by fastforce
qed

lemma lin_prod_deg: "length rs < k \<Longrightarrow> lin_prod bch rs k = 0"
  by (induction rs arbitrary: k rule: rev_induct) (auto simp: lin_prod_def one_fun_def mul_lin_def)

lemma lin_prod_eval_root:
  assumes ok: "gf_ok p bch" and "\<forall>r\<in>set rs. r \<le> GF_N bch" and "gf_alpha (GF_M bch) p e \<in> set rs"
  shows "fun_eval bch p e (lin_prod bch rs) (Suc (length rs)) = 0"
  using assms(2,3)
proof (induction rs rule: rev_induct)
  case (snoc r rs)
  have le: "lin_prod bch rs k \<le> GF_N bch" for k
    unfolding lin_prod_def using snoc.prems one_fun_range [OF ok] by (intro fold_mul_lin_range [OF ok]) auto
  have "fun_eval bch p e (lin_prod bch (rs @ [r])) (Suc (length (rs @ [r]))) =
      fun_eval bch p e (mul_lin bch r (lin_prod bch rs)) (Suc (Suc (length rs)))"
    by (simp add: lin_prod_def)
  also have "\<dots> = gf_mul bch (gf_alpha (GF_M bch) p e XOR r) (fun_eval bch p e (lin_prod bch rs) (Suc (length rs)))"
    using le snoc.prems lin_prod_deg [of rs] by (intro fun_eval_mul_lin [OF ok]) (auto simp: less_eq_Suc_le)
  also have "\<dots> = 0"
  proof (cases "gf_alpha (GF_M bch) p e = r")
    case False
    then have "fun_eval bch p e (lin_prod bch rs) (Suc (length rs)) = 0" using snoc by auto
    then show ?thesis by simp
  qed simp
  finally show ?case .
qed simp


section \<open>The roots of the generator\<close>

definition root_exps :: "bch_control \<Rightarrow> nat set" where
  "root_exps bch = {((2 * h + 1) * 2 ^ j) mod GF_N bch | h j. h < GF_T bch \<and> j < GF_M bch}"

lemma mark_roots_length [simp]: "length (mark_roots bch j r roots) = length roots"
  by (induction bch j r roots rule: mark_roots.induct) simp_all

lemma mark_roots_nth:
  assumes "r < GF_N bch" and "GF_N bch < length roots"
  shows "mark_roots bch j r roots ! i \<longleftrightarrow> roots ! i \<or> (\<exists>l<j. i = (r * 2 ^ l) mod GF_N bch)"
  using assms
proof (induction bch j r roots rule: mark_roots.induct)
  case (2 bch j r roots)
  have s: "mod_s bch (2 * r) = (2 * r) mod GF_N bch" using "2.prems" by (intro mod_s_eq) simp
  have pw: "(mod_s bch (2 * r) * 2 ^ l) mod GF_N bch = (r * 2 ^ Suc l) mod GF_N bch" for l
    unfolding s mod_mult_left_eq by (simp add: ac_simps)
  have "mark_roots bch (Suc j) r roots ! i \<longleftrightarrow>
      roots[r := True] ! i \<or> (\<exists>l<j. i = (mod_s bch (2 * r) * 2 ^ l) mod GF_N bch)"
    using 2 s by simp
  also have "\<dots> \<longleftrightarrow> (roots ! i \<or> i = r) \<or> (\<exists>l<j. i = (r * 2 ^ Suc l) mod GF_N bch)"
    using "2.prems" by (simp only: pw) (simp add: nth_list_update_if)
  also have "\<dots> \<longleftrightarrow> roots ! i \<or> (\<exists>l<Suc j. i = (r * 2 ^ l) mod GF_N bch)"
    using "2.prems"(1) by (auto simp: less_Suc_eq_0_disj)
  finally show ?case .
qed simp

lemma gen_roots_nth:
  assumes n: "bch_n bch = GF_N bch" and t: "2 * GF_T bch \<le> GF_N bch" and i: "i < GF_N bch"
  shows "gen_roots bch ! i \<longleftrightarrow> i \<in> root_exps bch"
proof -
  let ?F = "\<lambda>h roots. mark_roots bch (GF_M bch) (2 * h + 1) roots"
  have "length (fold ?F [0..<k] (replicate (GF_N bch + 1) False)) = GF_N bch + 1 \<and>
      (fold ?F [0..<k] (replicate (GF_N bch + 1) False) ! i \<longleftrightarrow>
        (\<exists>h<k. \<exists>j<GF_M bch. i = ((2 * h + 1) * 2 ^ j) mod GF_N bch))" if "k \<le> GF_T bch" for k
    using that
  proof (induction k)
    case 0
    then show ?case using i by (simp del: replicate_Suc)
  next
    case (Suc k)
    define R where "R = fold ?F [0..<k] (replicate (GF_N bch + 1) False)"
    have R: "length R = GF_N bch + 1" "R ! i \<longleftrightarrow> (\<exists>h<k. \<exists>j<GF_M bch. i = ((2 * h + 1) * 2 ^ j) mod GF_N bch)"
      using Suc unfolding R_def [symmetric] by simp_all
    have "2 * k + 1 < GF_N bch" using Suc.prems t by linarith
    from mark_roots_nth [OF this, of R "GF_M bch" i] R
    have "mark_roots bch (GF_M bch) (2 * k + 1) R ! i \<longleftrightarrow>
        (\<exists>h<Suc k. \<exists>j<GF_M bch. i = ((2 * h + 1) * 2 ^ j) mod GF_N bch)"
      unfolding less_Suc_eq by (simp only: less_add_one) blast
    then show ?case unfolding fold_upt_Suc R_def [symmetric] using R(1) by (simp only: mark_roots_length)
  qed
  from this [OF order.refl] show ?thesis
    unfolding gen_roots_def root_exps_def n by blast
qed

lemma root_exps_less: "0 < GF_N bch \<Longrightarrow> i \<in> root_exps bch \<Longrightarrow> i < GF_N bch"
  by (auto simp: root_exps_def)

lemma root_exps_double:
  assumes N: "GF_N bch = 2 ^ GF_M bch - 1" and m: "0 < GF_M bch" and i: "i \<in> root_exps bch"
  shows "(2 * i) mod GF_N bch \<in> root_exps bch"
proof -
  from i obtain h j where hj: "i = ((2 * h + 1) * 2 ^ j) mod GF_N bch" "h < GF_T bch" "j < GF_M bch"
    by (auto simp: root_exps_def)
  have d: "(2 * i) mod GF_N bch = ((2 * h + 1) * 2 ^ Suc j) mod GF_N bch"
    unfolding hj(1) by (simp add: mod_mult_right_eq ac_simps)
  show ?thesis
  proof (cases "Suc j < GF_M bch")
    case True
    then show ?thesis unfolding d root_exps_def using hj(2) by blast
  next
    case False
    then have "Suc j = GF_M bch" using hj(3) by simp
    then have "(2::nat) ^ Suc j = GF_N bch + 1" using N by simp
    then have "(2 * h + 1) * 2 ^ Suc j = (2 * h + 1) + (2 * h + 1) * GF_N bch"
      by (simp only: add_mult_distrib2) simp
    then have "(2 * i) mod GF_N bch = ((2 * h + 1) * 2 ^ 0) mod GF_N bch"
      unfolding d by (simp only: mod_mult_self1 power_0 mult_1_right)
    then show ?thesis unfolding root_exps_def using hj(2) m by blast
  qed
qed

lemma root_exps_card: "card (root_exps bch) \<le> GF_M bch * GF_T bch"
proof -
  let ?f = "\<lambda>(h, j). ((2 * h + 1) * 2 ^ j) mod GF_N bch"
  have "root_exps bch = ?f ` ({..<GF_T bch} \<times> {..<GF_M bch})"
    by (auto simp: root_exps_def image_iff)
  then have "card (root_exps bch) \<le> card ({..<GF_T bch} \<times> {..<GF_M bch})"
    by (simp only: card_image_le finite_cartesian_product finite_lessThan)
  then show ?thesis by (simp add: mult.commute)
qed

text \<open>The first \<open>2 * t\<close> exponents are among them.\<close>

lemma root_exps_first:
  assumes e: "1 \<le> e" "e \<le> 2 * GF_T bch" and t: "2 * GF_T bch < GF_N bch" and N: "GF_N bch < 2 ^ GF_M bch"
  shows "e \<in> root_exps bch"
proof -
  obtain j q where q: "e = 2 ^ j * q" "odd q" using e(1) odd_part [of e] by auto
  then obtain h where h: "q = 2 * h + 1" by (elim oddE)
  have "1 * (2 * h + 1) \<le> e" unfolding q(1) h by (intro mult_le_mono1) simp
  then have hj: "h < GF_T bch" using e(2) by simp
  have "2 ^ j \<le> e" unfolding q(1) h by simp
  then have "2 ^ j \<le> 2 * GF_T bch" using e(2) by (rule order.trans)
  also have "\<dots> < 2 ^ GF_M bch" using t N by (rule less_trans)
  finally have "(2::nat) ^ j < 2 ^ GF_M bch" .
  then have "j < GF_M bch" by simp
  moreover have "e = ((2 * h + 1) * 2 ^ j) mod GF_N bch" using q h e(2) t by (simp add: mult.commute)
  ultimately show ?thesis using hj unfolding root_exps_def by blast
qed

text \<open>The loop over the marked exponents computes the product of the linear factors.\<close>

definition root_list :: "bch_control \<Rightarrow> nat list" where
  "root_list bch = map (\<lambda>i. a_pow_tab bch ! i) (filter (\<lambda>i. gen_roots bch ! i) [0..<GF_N bch])"

lemma gen_poly_prod:
  assumes len: "length (root_list bch) \<le> GF_M bch * GF_T bch"
  shows "coeff_fun (gen_poly bch) = lin_prod bch (root_list bch)"
    and "poly_deg (gen_poly bch) = length (root_list bch)"
    and "monic (GF_M bch * GF_T bch + 1) (gen_poly bch)"
proof -
  let ?roots = "gen_roots bch" and ?sz = "GF_M bch * GF_T bch + 1"
  let ?g0 = "\<lparr>poly_deg = 0, poly_c = (replicate ?sz 0)[0 := 1]\<rparr>"
  let ?F = "\<lambda>i g. if ?roots ! i then mul_root bch (a_pow_tab bch ! i) g else g"
  let ?L = "\<lambda>k. map (\<lambda>i. a_pow_tab bch ! i) (filter (\<lambda>i. ?roots ! i) [0..<k])"
  have mono: "length (?L k) \<le> length (root_list bch)" if "k \<le> GF_N bch" for k
  proof -
    have "[0..<GF_N bch] = [0..<k] @ [k..<GF_N bch]" using that by (metis le0 le_add_diff_inverse upt_add_eq_append)
    then show ?thesis by (simp add: root_list_def)
  qed
  have "coeff_fun (fold ?F [0..<k] ?g0) = lin_prod bch (?L k) \<and> poly_deg (fold ?F [0..<k] ?g0) = length (?L k) \<and>
      monic ?sz (fold ?F [0..<k] ?g0)" if "k \<le> GF_N bch" for k
    using that
  proof (induction k)
    case 0
    have "coeff_fun ?g0 = one_fun" by (auto simp: coeff_fun_def one_fun_def fun_eq_iff)
    then show ?case by (simp add: lin_prod_def monic_def)
  next
    case (Suc k)
    define g where "g = fold ?F [0..<k] ?g0"
    have g: "coeff_fun g = lin_prod bch (?L k)" "poly_deg g = length (?L k)" "monic ?sz g"
      using Suc unfolding g_def [symmetric] by simp_all
    show ?case
    proof (cases "?roots ! k")
      case True
      have "length (?L (Suc k)) \<le> GF_M bch * GF_T bch" using mono [OF Suc.prems] len by simp
      then have "poly_deg g + 1 < ?sz" using True g(2) by simp
      from mul_root_correct [OF g(3) this, of bch "a_pow_tab bch ! k"] True g show ?thesis
        unfolding fold_upt_Suc g_def [symmetric] by (simp add: lin_prod_def)
    next
      case False
      with g show ?thesis unfolding fold_upt_Suc g_def [symmetric] by simp
    qed
  qed
  from this [OF order.refl]
  show "coeff_fun (gen_poly bch) = lin_prod bch (root_list bch)" "poly_deg (gen_poly bch) = length (root_list bch)"
    "monic ?sz (gen_poly bch)"
    unfolding gen_poly_def Let_def root_list_def by blast+
qed


section \<open>The packed generator\<close>

lemma gen_pack_word_bit:
  assumes "nb \<le> 32" and "j < 32"
  shows "bit (gen_pack_word c n nb) (31 - j) \<longleftrightarrow> j < nb \<and> c ! (n - 1 - j) \<noteq> 0"
proof -
  let ?F = "\<lambda>j w. if c ! (n - 1 - j) \<noteq> 0 then w OR push_bit (31 - j) 1 else (w :: u32)"
  have "bit (fold ?F [0..<k] 0) (31 - j) \<longleftrightarrow> j < k \<and> c ! (n - 1 - j) \<noteq> 0" if "k \<le> 32" for k
    using that
  proof (induction k)
    case (Suc k)
    have "bit (push_bit (31 - k) 1 :: u32) (31 - j) \<longleftrightarrow> j = k"
      using Suc.prems assms(2) by (auto simp: bit_exp_iff)
    then show ?case unfolding fold_upt_Suc using Suc by (auto simp: bit_or_iff less_Suc_eq)
  qed simp
  from this [OF assms(1)] show ?thesis by (simp add: gen_pack_word_def)
qed

lemma gen_pack_length: "length (gen_pack c n) = (n + 31) div 32"
proof (induction c n rule: gen_pack.induct)
  case (1 c n)
  show ?case
  proof (cases "n > 32")
    case True
    then obtain k where k: "n = 32 + k" by (metis le_iff_add less_imp_le)
    then show ?thesis using 1 True by (subst gen_pack.simps) simp
  next
    case False
    show ?thesis
    proof (cases "n = 0")
      case False2: False
      have "gen_pack c n = [gen_pack_word c n n]" using False False2 by (subst gen_pack.simps) (simp add: gen_pack.simps [of c 0])
      moreover have "(n + 31) div 32 = 1" using False False2 by (intro div_nat_eqI) simp_all
      ultimately show ?thesis by simp
    qed (subst gen_pack.simps, simp)
  qed
qed

lemma gen_pack_bit:
  assumes "x < 32 * length (gen_pack c n)"
  shows "bit (gen_pack c n ! (x div 32)) (31 - x mod 32) \<longleftrightarrow> x < n \<and> c ! (n - 1 - x) \<noteq> 0"
  using assms
proof (induction c n arbitrary: x rule: gen_pack.induct)
  case (1 c n)
  have n: "0 < n" using "1.prems" by (cases "n = 0") (simp_all add: gen_pack.simps [of c 0])
  define nb where "nb = (if n > 32 then 32 else n)"
  have step: "gen_pack c n = gen_pack_word c n nb # gen_pack c (n - nb)"
    using n by (subst gen_pack.simps) (simp add: nb_def Let_def)
  show ?case
  proof (cases "x < 32")
    case True
    have "bit (gen_pack_word c n nb) (31 - x) \<longleftrightarrow> x < nb \<and> c ! (n - 1 - x) \<noteq> 0"
      using True by (intro gen_pack_word_bit) (simp_all add: nb_def)
    with True show ?thesis by (auto simp: step nb_def)
  next
    case False
    then obtain y where y: "x = 32 + y" by (metis le_iff_add not_less)
    have xd: "x div 32 = Suc (y div 32)" "x mod 32 = y mod 32" unfolding y using div_add_self1 [of 32 y] by simp_all
    have "y < 32 * length (gen_pack c (n - nb))" using "1.prems" y by (simp add: step)
    then have "bit (gen_pack c (n - nb) ! (y div 32)) (31 - y mod 32) \<longleftrightarrow> y < n - nb \<and> c ! (n - nb - 1 - y) \<noteq> 0"
      using "1.IH" [OF n, of nb y] by (simp add: nb_def)
    moreover have "y < n - nb \<and> c ! (n - nb - 1 - y) \<noteq> 0 \<longleftrightarrow> x < n \<and> c ! (n - 1 - x) \<noteq> 0"
      using n by (auto simp: y nb_def)
    ultimately show ?thesis by (simp add: step xd)
  qed
qed

lemma gen_pack_coeff:
  assumes "k < n"
  shows "ecc_coeff n (gen_pack c n) k \<longleftrightarrow> c ! k \<noteq> 0"
proof -
  have "n - 1 - k < 32 * length (gen_pack c n)" using assms unfolding gen_pack_length by linarith
  from gen_pack_bit [OF this] assms show ?thesis by (simp add: ecc_coeff_def)
qed

text \<open>
  The packed generator meets the requirements of \<open>build_mod8_tables\<close>.
\<close>

lemma gen_pack_gen_ok:
  assumes L: "0 < ecc_bits bch" "ecc_bits bch \<le> GF_M bch * GF_T bch" and lead: "c ! ecc_bits bch \<noteq> 0"
  shows "gen_ok bch (gen_pack c (ecc_bits bch + 1))"
proof -
  let ?n = "ecc_bits bch + 1" and ?g = "gen_pack c (ecc_bits bch + 1)"
  have len: "length ?g = DIV_ROUND_UP ?n 32" by (simp add: gen_pack_length DIV_ROUND_UP_def)
  have top: "bit (?g ! 0) 31"
    using gen_pack_bit [of 0 c ?n] lead by (simp add: gen_pack_length)
  have low: "\<not> bit (ecc_val ?g) k" if k: "k < 32 * length ?g - ?n" for k
  proof
    assume b: "bit (ecc_val ?g) k"
    define x where "x = 32 * length ?g - 1 - k"
    have x: "x < 32 * length ?g" "?n \<le> x" "k = 32 * length ?g - 1 - x" using k by (simp_all add: x_def)
    have "bit (?g ! (x div 32)) (31 - x mod 32)"
      using b bit_ecc_val_msb [OF x(1)] by (simp only: x(3))
    then show False using gen_pack_bit [OF x(1)] x(2) by simp
  qed
  show ?thesis
    unfolding gen_ok_def Let_def using L top low len by simp
qed

lemma feedback_coeff:
  assumes ok: "gen_ok bch g" and k: "k < ecc_bits bch"
  shows "bit (feedback bch g) (32 * BCH_ECC_WORDS bch - ecc_bits bch + k) \<longleftrightarrow> ecc_coeff (ecc_bits bch + 1) g k"
proof -
  let ?l = "BCH_ECC_WORDS bch" and ?L = "ecc_bits bch" and ?pl = "gen_plen bch"
  note sz = gen_sizes [OF ok]
  let ?pad = "gen_pad ?pl ?l g"
  have "bit (feedback bch g) (32 * ?l - ?L + k) \<longleftrightarrow> bit (ecc_val ?pad) (32 * length ?pad - (?L + 1) + k)"
  proof -
    have "32 * ?l - ?L + k < 32 * ?l" "31 + (32 * ?l - ?L + k) = 32 * length ?pad - (?L + 1) + k"
      using k sz(6) by simp_all
    then show ?thesis by (simp only: feedback_def gen_tail_def bit_take_bit_iff bit_drop_bit_eq o_apply simp_thms)
  qed
  also have "\<dots> \<longleftrightarrow> ecc_coeff (?L + 1) ?pad k"
    using k sz(6) by (intro ecc_coeff_val [symmetric]) simp_all
  also have "\<dots> \<longleftrightarrow> ecc_coeff (?L + 1) g k"
  proof -
    have "(?L - k) div 32 \<le> ?L div 32" by (simp add: div_le_mono)
    also have "?L div 32 < ?pl" unfolding gen_plen_def DIV_ROUND_UP_def by linarith
    finally have "(?L - k) div 32 < ?pl" .
    then show ?thesis using sz(3) by (simp add: ecc_coeff_def)
  qed
  finally show ?thesis .
qed

lemma feedback_low:
  assumes ok: "gen_ok bch g" and k: "k < 32 * BCH_ECC_WORDS bch - ecc_bits bch"
  shows "\<not> bit (feedback bch g) k"
proof -
  note sz = gen_sizes [OF ok]
  have "\<not> bit (ecc_val (gen_pad (gen_plen bch) (BCH_ECC_WORDS bch) g)) (31 + k)"
    using k sz(3) by (intro gen_pad_zero [OF ok]) (simp_all add: gen_plen_def)
  then show ?thesis by (simp add: feedback_def gen_tail_def bit_take_bit_iff bit_drop_bit_eq)
qed


section \<open>Initialisation establishes the code\<close>

text \<open>The parameter checks of \<open>init_bch\<close>.\<close>

definition params_ok :: "bch_control \<Rightarrow> bool" where
  "params_ok bch \<longleftrightarrow>
     5 \<le> GF_M bch \<and> GF_M bch \<le> 15 \<and> 1 \<le> GF_T bch \<and> GF_M bch * GF_T bch < 2 ^ GF_M bch - 1"

lemma root_list_facts:
  assumes ok: "gf_ok p bch" and pr: "params_ok bch"
  shows "length (root_list bch) \<le> GF_M bch * GF_T bch" and "\<forall>r\<in>set (root_list bch). r \<le> GF_N bch"
    and "distinct (root_list bch)" and "r \<in> set (root_list bch) \<Longrightarrow> gf_sqr bch r \<in> set (root_list bch)"
    and "1 \<le> e \<Longrightarrow> e \<le> 2 * GF_T bch \<Longrightarrow> gf_alpha (GF_M bch) p e \<in> set (root_list bch)"
    and "2 * GF_T bch < GF_N bch"
proof -
  note f = gf_ok_facts [OF ok]
  have n: "bch_n bch = GF_N bch" by (simp add: GF_N_def)
  show t: "2 * GF_T bch < GF_N bch"
  proof -
    have "2 * GF_T bch \<le> GF_M bch * GF_T bch" using pr by (intro mult_le_mono1) (simp add: params_ok_def)
    then show ?thesis using pr f(2) unfolding params_ok_def by linarith
  qed
  let ?I = "filter (\<lambda>i. gen_roots bch ! i) [0..<GF_N bch]"
  have set: "set ?I = root_exps bch"
    using gen_roots_nth [OF n] root_exps_less [OF f(3)] t by auto
  have list: "root_list bch = map (gf_alpha (GF_M bch) p) ?I"
    unfolding root_list_def by (rule map_cong) (use gf_ok_pow [OF ok] in auto)
  have sl: "set (root_list bch) = gf_alpha (GF_M bch) p ` root_exps bch"
    unfolding list set_map set ..
  have "length ?I = card (set ?I)" using distinct_filter [of "[0..<GF_N bch]"] distinct_card [of ?I] by simp
  then show "length (root_list bch) \<le> GF_M bch * GF_T bch"
    using root_exps_card [of bch] by (simp only: list length_map set)
  show "\<forall>r\<in>set (root_list bch). r \<le> GF_N bch" unfolding sl using gf_alpha_le_N [OF ok] by auto
  have "inj_on (gf_alpha (GF_M bch) p) (set ?I)"
    using a_log_alpha [OF ok] by (intro inj_onI) (metis (no_types, lifting) set root_exps_less [OF f(3)])
  then show "distinct (root_list bch)" unfolding list by (simp add: distinct_map)
  show "gf_sqr bch r \<in> set (root_list bch)" if "r \<in> set (root_list bch)"
  proof -
    from that obtain i where i: "i \<in> root_exps bch" "r = gf_alpha (GF_M bch) p i" unfolding sl by blast
    have "gf_sqr bch r = gf_alpha (GF_M bch) p ((2 * i) mod GF_N bch)"
      unfolding i(2) by (simp add: gf_sqr_alpha [OF ok] gf_alpha_mod_N [OF ok])
    moreover have "(2 * i) mod GF_N bch \<in> root_exps bch"
      using root_exps_double [OF f(2) _ i(1)] pr by (simp add: params_ok_def)
    ultimately show ?thesis unfolding sl by blast
  qed
  show "gf_alpha (GF_M bch) p e \<in> set (root_list bch)" if "1 \<le> e" "e \<le> 2 * GF_T bch"
    unfolding sl using root_exps_first [OF that t] f(2) by (simp add: image_eqI)
qed

lemma gen_poly_facts:
  assumes ok: "gf_ok p bch" and pr: "params_ok bch"
  defines "c \<equiv> poly_c (gen_poly bch)" and "L \<equiv> poly_deg (gen_poly bch)"
  shows "0 < L" and "L \<le> GF_M bch * GF_T bch" and "c ! L = 1" and "k \<le> L \<Longrightarrow> c ! k = 0 \<or> c ! k = 1"
    and "1 \<le> e \<Longrightarrow> e \<le> 2 * GF_T bch \<Longrightarrow> eval2 (GF_M bch) p e (\<lambda>k. c ! k \<noteq> 0) L = gf_alpha (GF_M bch) p (e * L)"
proof -
  note r = root_list_facts [OF ok pr] and g = gen_poly_prod [OF root_list_facts(1) [OF ok pr]]
  have L: "L = length (root_list bch)" by (simp add: L_def g(2))
  have "root_list bch \<noteq> []" using r(5) [of 1] pr by (auto simp: params_ok_def)
  then show "0 < L" by (simp add: L)
  show "L \<le> GF_M bch * GF_T bch" using r(1) by (simp add: L)
  show lead: "c ! L = 1" using g(3) by (simp add: monic_def c_def L_def)
  have coeff: "c ! k = lin_prod bch (root_list bch) k" if "k \<le> L" for k
    using that fun_cong [OF g(1), of k] by (simp add: coeff_fun_def c_def L_def)
  show bin: "c ! k = 0 \<or> c ! k = 1" if "k \<le> L" for k
    unfolding coeff [OF that] by (rule lin_prod_binary [OF ok r(2,3,4)])
  show "eval2 (GF_M bch) p e (\<lambda>k. c ! k \<noteq> 0) L = gf_alpha (GF_M bch) p (e * L)" if e: "1 \<le> e" "e \<le> 2 * GF_T bch"
  proof -
    have "fun_eval bch p e (lin_prod bch (root_list bch)) (Suc L) = eval2 (GF_M bch) p e (\<lambda>k. c ! k \<noteq> 0) (Suc L)"
      unfolding fun_eval_def eval2_def
    proof (rule xsum_cong)
      fix k assume "k < Suc L"
      then have k: "k \<le> L" by simp
      show "gf_mul bch (lin_prod bch (root_list bch) k) (gf_alpha (GF_M bch) p (e * k)) =
          (if c ! k \<noteq> 0 then gf_alpha (GF_M bch) p (e * k) else 0)"
        using bin [OF k] coeff [OF k] gf_mul_one [OF ok gf_alpha_le_N [OF ok]] by auto
    qed
    moreover have "fun_eval bch p e (lin_prod bch (root_list bch)) (Suc L) = 0"
      unfolding L by (rule lin_prod_eval_root [OF ok r(2) r(5) [OF e]])
    ultimately show ?thesis using lead by (simp add: eval2_def xor_eq_0_iff)
  qed
qed

lemma generator_code_ok:
  assumes ok: "gf_ok p bch" and pr: "params_ok bch"
  defines "bch2 \<equiv> bch\<lparr>ecc_bits := poly_deg (gen_poly bch)\<rparr>"
    and "gp \<equiv> gen_pack (poly_c (gen_poly bch)) (poly_deg (gen_poly bch) + 1)"
  shows "gen_ok bch2 gp" and "code_ok p (feedback bch2 gp) (build_mod8_tables bch2 gp)"
proof -
  note g = gen_poly_facts [OF ok pr] and f = gf_ok_facts [OF ok]
  let ?L = "poly_deg (gen_poly bch)" and ?c = "poly_c (gen_poly bch)" and ?B = "build_mod8_tables bch2 gp"
  have sel: "GF_M bch2 = GF_M bch" "GF_T bch2 = GF_T bch" "ecc_bits bch2 = ?L"
    by (simp_all add: bch2_def GF_M_def GF_T_def)
  show gok: "gen_ok bch2 gp"
    using gen_pack_gen_ok [of bch2 ?c] g(1-3) by (simp add: sel gp_def)
  have B: "GF_M ?B = GF_M bch" "GF_T ?B = GF_T bch" "GF_N ?B = GF_N bch" "ecc_bits ?B = ?L" "bch_n ?B = bch_n bch"
    "BCH_ECC_WORDS ?B = BCH_ECC_WORDS bch2" "gf_ok p ?B = gf_ok p bch"
    by (simp_all add: build_mod8_tables_def bch2_def Let_def GF_M_def GF_T_def GF_N_def BCH_ECC_WORDS_def gf_ok_def)
  have van: "vanishes (GF_M bch) p e (32 * BCH_ECC_WORDS bch2) ?L (feedback bch2 gp)"
    if e: "1 \<le> e" "e \<le> 2 * GF_T bch" for e
  proof -
    have "reg_eval (GF_M bch) p e (32 * BCH_ECC_WORDS bch2) ?L (feedback bch2 gp) =
        eval2 (GF_M bch) p e (\<lambda>k. ?c ! k \<noteq> 0) ?L"
      unfolding reg_eval_def
      by (rule eval2_cong) (use feedback_coeff [OF gok] gen_pack_coeff in \<open>simp add: sel gp_def\<close>)
    then show ?thesis using g(5) [OF e] feedback_low [OF gok] by (simp add: vanishes_def sel)
  qed
  have n: "bch_n bch = 2 ^ GF_M bch - 1" using f(2) by (simp add: GF_N_def)
  have small: "(2::nat) ^ GF_M bch \<le> 2 ^ 15" using pr by (intro power_increasing) (simp_all add: params_ok_def)
  have mt: "GF_M bch * GF_T bch < 2 ^ 15" using pr small unfolding params_ok_def by linarith
  have tm: "GF_T bch \<le> GF_M bch * GF_T bch" using pr by (simp add: params_ok_def)
  have tL: "GF_T bch \<le> 2 ^ 15 - 1" "?L \<le> 2 ^ 15 - 1" using mt tm g(2) by linarith+
  then have "2 * GF_T bch * ?L \<le> 2 * (2 ^ 15 - 1) * (2 ^ 15 - 1)" by (intro mult_le_mono) simp_all
  then have "syn_range ?B" using pr g(1) by (simp add: syn_range_def B params_ok_def)
  then show "code_ok p (feedback bch2 gp) ?B"
    unfolding code_ok_def using ok mod8_tables_ok [OF gok] van g(2) n pr small
    by (simp add: B params_ok_def)
qed


lemma default_poly:
  assumes "5 \<le> m" and "m \<le> 15"
  shows "field_poly m (prim_poly_tab ! (m - 5))"
proof -
  have "[0..<11] = [0, 1, 2, 3, 4, 5, 6, 7, 8, 9, 10]" by code_simp
  then have "list_all (\<lambda>k. field_poly (k + 5) (prim_poly_tab ! k)) [0..<11]"
    by (simp add: field_poly_def prim_poly_tab_def bit_iff_odd)
  moreover have "m - 5 \<in> set [0..<11]" using assms by simp
  ultimately have "field_poly (m - 5 + 5) (prim_poly_tab ! (m - 5))" by (simp only: list_all_iff)
  then show ?thesis using assms(1) by simp
qed

lemma degree_poly:
  assumes "2 ^ nat (deg p) = (2 :: nat) ^ m" and "0 < m" and "m < 16" and "odd p"
  shows "field_poly m p"
proof -
  have d: "fls p - 1 = m" using assms(1) by (simp add: nat_deg)
  have "p \<noteq> 0" using assms(4) by (metis even_zero)
  note b = fls_bits [OF this d [symmetric]]
  have "fls p = Suc m" using d assms(2) by simp
  then have "p < 2 ^ Suc m" using fls_upper [of p] by simp
  with b assms show ?thesis by (simp add: field_poly_def)
qed

lemma build_deg2_code_ok:
  assumes "code_ok p G bch"
  shows "code_ok p G (snd (build_deg2_base bch))"
proof -
  have "\<exists>xi. snd (build_deg2_base bch) = bch\<lparr>xi_tab := xi\<rparr>"
    by (auto simp: build_deg2_base_def split: prod.splits)
  then obtain xi where "snd (build_deg2_base bch) = bch\<lparr>xi_tab := xi\<rparr>" by blast
  moreover have "GF_M (bch\<lparr>xi_tab := xi\<rparr>) = GF_M bch" "GF_T (bch\<lparr>xi_tab := xi\<rparr>) = GF_T bch"
    "GF_N (bch\<lparr>xi_tab := xi\<rparr>) = GF_N bch" by (simp_all add: GF_M_def GF_T_def GF_N_def)
  moreover from this have "BCH_ECC_WORDS (bch\<lparr>xi_tab := xi\<rparr>) = BCH_ECC_WORDS bch" "gf_ok p (bch\<lparr>xi_tab := xi\<rparr>) = gf_ok p bch"
    "syn_range (bch\<lparr>xi_tab := xi\<rparr>) = syn_range bch" "mod8_ok G (bch\<lparr>xi_tab := xi\<rparr>) = mod8_ok G bch"
    by (simp_all add: BCH_ECC_WORDS_def gf_ok_def syn_range_def mod8_ok_def)
  ultimately show ?thesis using assms by (simp add: code_ok_def)
qed

text \<open>The stages of a successful initialisation: the field, the generator polynomial, the two tables.\<close>

lemma init_bch_stages:
  assumes init: "init_bch cp alloc m t prim_poly = Some bch" and odd: "prim_poly = 0 \<or> odd prim_poly"
  obtains p bch1 where "gf_ok p bch1" "params_ok bch1" "bch_m bch1 = nat m" "bch_t bch1 = nat t" "length (xi_tab bch1) = nat m"
    "build_deg2_base (build_mod8_tables (bch1\<lparr>ecc_bits := poly_deg (gen_poly bch1)\<rparr>)
       (gen_pack (poly_c (gen_poly bch1)) (poly_deg (gen_poly bch1) + 1))) = (0, bch)"
proof -
  define poly where "poly = (if prim_poly = 0 then prim_poly_tab ! nat (m - 5) else prim_poly)"
  define bch0 where "bch0 = fresh_bch (nat m) (nat t)"
  have r: "5 \<le> m" "m \<le> 15" "1 \<le> t" "m * t < 2 ^ nat m - 1"
    using init by (auto simp: init_bch_def split: if_splits option.splits)
  obtain bch1 gp bch2 where gf: "build_gf_tables bch0 poly = (0, bch1)"
    and gen: "compute_generator_polynomial alloc bch1 = (Some gp, bch2)"
    and base: "build_deg2_base (build_mod8_tables bch2 gp) = (0, bch)"
    using init unfolding init_bch_def poly_def [symmetric] bch0_def [symmetric] Let_def
    by (auto split: if_splits option.splits prod.splits)
  have b0: "GF_M bch0 = nat m" "GF_T bch0 = nat t" "GF_N bch0 = 2 ^ nat m - 1"
    "length (a_pow_tab bch0) = Suc (GF_N bch0)" "length (a_log_tab bch0) = Suc (GF_N bch0)"
    by (simp_all add: bch0_def fresh_bch_def Let_def GF_M_def GF_T_def GF_N_def)
  have p: "field_poly (GF_M bch0) poly"
  proof (cases "prim_poly = 0")
    case True
    then show ?thesis using default_poly [of "nat m"] r by (simp add: poly_def b0 nat_diff_distrib)
  next
    case False
    have "2 ^ nat (deg poly) = (2 :: nat) ^ GF_M bch0"
      using gf by (auto simp: build_gf_tables_def Let_def split: if_splits)
    then show ?thesis using False odd r by (intro degree_poly) (auto simp: poly_def b0)
  qed
  have ok: "gf_ok poly bch1" using build_gf_tables_gf_ok [OF p _ b0(4,5) gf] b0 by simp
  have b1: "GF_M bch1 = nat m" "GF_T bch1 = nat t" "bch_m bch1 = nat m" "bch_t bch1 = nat t" "length (xi_tab bch1) = nat m"
    using gf b0(1,2)
    by (auto simp: build_gf_tables_def Let_def GF_M_def GF_T_def bch0_def fresh_bch_def split: if_splits prod.splits)
  have "int (nat m * nat t) < int (2 ^ nat m - 1)" using r by (simp add: of_nat_diff)
  then have "nat m * nat t < 2 ^ nat m - 1" by (simp only: of_nat_less_iff)
  moreover have "5 \<le> nat m" "nat m \<le> 15" "1 \<le> nat t" using r by linarith+
  ultimately have pr: "params_ok bch1" by (simp add: params_ok_def b1)
  have gp: "bch2 = bch1\<lparr>ecc_bits := poly_deg (gen_poly bch1)\<rparr>"
      "gp = gen_pack (poly_c (gen_poly bch1)) (poly_deg (gen_poly bch1) + 1)"
    using gen by (auto simp: compute_generator_polynomial_def Let_def split: if_splits)
  show ?thesis by (rule that [OF ok pr b1(3-5)]) (use base gp in simp)
qed

lemma init_bch_code_ok:
  assumes init: "init_bch cp alloc m t prim_poly = Some bch" and odd: "prim_poly = 0 \<or> odd prim_poly"
  shows "\<exists>p G. code_ok p G bch" and "bch_m bch = nat m" and "bch_t bch = nat t"
proof -
  obtain p bch1 where b1: "gf_ok p bch1" "params_ok bch1" "bch_m bch1 = nat m" "bch_t bch1 = nat t"
    and base: "build_deg2_base (build_mod8_tables (bch1\<lparr>ecc_bits := poly_deg (gen_poly bch1)\<rparr>)
       (gen_pack (poly_c (gen_poly bch1)) (poly_deg (gen_poly bch1) + 1))) = (0, bch)" (is "build_deg2_base ?B = _")
    by (rule init_bch_stages [OF init odd]) (rule that)
  have bch: "bch = snd (build_deg2_base ?B)" using base by simp
  show "\<exists>p G. code_ok p G bch"
    unfolding bch using build_deg2_code_ok [OF generator_code_ok(2) [OF b1(1,2)]] by blast
  have "bch_m (snd (build_deg2_base b)) = bch_m b" "bch_t (snd (build_deg2_base b)) = bch_t b" for b
    by (simp_all add: build_deg2_base_def split: prod.splits)
  then show "bch_m bch = nat m" "bch_t bch = nat t"
    unfolding bch using b1 by (simp_all add: build_mod8_tables_def Let_def)
qed



section \<open>A concrete code: m = 5, t = 1, default polynomial\<close>

definition pow_5 :: "nat list" where
  "pow_5 = [1, 2, 4, 8, 16, 5, 10, 20, 13, 26, 17, 7, 14, 28, 29, 31, 27, 19, 3,
            6, 12, 24, 21, 15, 30, 25, 23, 11, 22, 9, 18, 1]"

definition log_5 :: "nat list" where
  "log_5 = [0, 0, 1, 18, 2, 5, 19, 11, 3, 29, 6, 27, 20, 8, 12, 23, 4, 10, 30, 17, 7,
            22, 28, 26, 21, 25, 9, 16, 13, 14, 24, 15]"

lemma gf_loop_5: "build_gf_loop 31 32 37 0 1 (replicate 32 0) (replicate 32 0) = (0, pow_5, log_5)"
  by (simp add: build_gf_loop.simps gf_next_def to_u16_def to_u32_def Let_def)
    (simp add: pow_5_def log_5_def numeral_eq_Suc)

lemma gf_tables_5:
  "build_gf_tables (fresh_bch 5 t) 37 = (0, (fresh_bch 5 t)\<lparr>a_pow_tab := pow_5, a_log_tab := log_5\<rparr>)"
proof -
  have "fls 37 = 6" by (rule fls_unique [of 5, simplified]) simp_all
  then have "deg 37 = 5" by (simp add: deg_def)
  moreover have "(0::nat) # replicate 31 0 = replicate 32 0" by (simp flip: replicate_Suc)
  ultimately show ?thesis
    using gf_loop_5 by (simp add: build_gf_tables_def Let_def fresh_bch_def GF_M_def GF_N_def)
qed

lemma trace_one_5:
  assumes "bch_m B = 5" and "bch_n B = 31" and "a_pow_tab B = pow_5"
  shows "find_trace_one B = 1"
proof -
  have "a_pow B 0 = 1" using assms by (simp add: a_pow_def pow_5_def modulo_def GF_N_def GF_M_def modulo_loop.simps)
  moreover have "[0..<5] = [0, 1, 2, 3, 4]" by code_simp
  ultimately show ?thesis using assms by (simp add: find_trace_one_def trace_sum_def GF_M_def pow_5_def)
qed

lemma deg2_base_5:
  assumes [simp]: "bch_m B = 5" "bch_n B = 31" "a_pow_tab B = pow_5" "a_log_tab B = log_5"
  shows "fst (build_deg2_base B) = 0"
proof -
  have r: "replicate 5 False = [False, False, False, False, False]" by (simp add: numeral_eq_Suc)
  have "fst (deg2_loop B 1 0 5 (replicate 5 False) (xi_tab B)) = 0"
    unfolding r
    by (simp add: deg2_loop.simps deg2_accept_def GF_M_def GF_N_def gf_sqr_def a_log_def mod_s_def
        pow_5_def log_5_def Let_def numeral_2_eq_2 [symmetric])
  then show ?thesis
    using trace_one_5 [of B] by (cases "deg2_loop B 1 0 5 (replicate 5 False) (xi_tab B)") (simp add: build_deg2_base_def GF_M_def)
qed

lemma init_5:
  assumes "1 \<le> t" "5 * t < 31"
  shows "\<exists>bch. init_bch None (\<lambda>_. True) 5 (int t) 0 = Some bch"
proof -
  define B1 where "B1 = (fresh_bch 5 t)\<lparr>a_pow_tab := pow_5, a_log_tab := log_5\<rparr>"
  obtain gp B2 where gp: "compute_generator_polynomial (\<lambda>_. True) B1 = (Some gp, B2)" and B2: "\<exists>x. B2 = B1\<lparr>ecc_bits := x\<rparr>"
    by (auto simp: compute_generator_polynomial_def Let_def)
  have "fst (build_deg2_base (build_mod8_tables B2 gp)) = 0"
    using B2 by (intro deg2_base_5) (auto simp: build_mod8_tables_def Let_def B1_def fresh_bch_def)
  then show ?thesis
    using gp gf_tables_5 [of t] assms unfolding B1_def [symmetric]
    by (cases "build_deg2_base (build_mod8_tables B2 gp)") (simp add: init_bch_def prim_poly_tab_def list_all_iff)
qed

lemma init_5_1: "\<exists>bch. init_bch None (\<lambda>_. True) 5 1 0 = Some bch"
  using init_5 [of 1] by simp

lemma init_sizes:
  assumes "init_bch cp alloc m t prim_poly = Some bch" and "prim_poly = 0 \<or> odd prim_poly"
  shows "bch_n bch = 2 ^ nat m - 1" and "ecc_bits bch \<le> nat m * nat t"
proof -
  obtain p G where ok: "code_ok p G bch" using init_bch_code_ok(1) [OF assms] by blast
  then have "gf_ok p bch" "ecc_bits bch \<le> GF_M bch * GF_T bch" by (simp_all add: code_ok_def)
  then show "bch_n bch = 2 ^ nat m - 1" "ecc_bits bch \<le> nat m * nat t"
    using init_bch_code_ok(2,3) [OF assms] gf_ok_facts(2) [of p bch] by (simp_all add: GF_N_def GF_M_def GF_T_def)
qed

section \<open>Properties of an initialised code\<close>

text \<open>
  C5: what \<open>init_bch\<close> establishes.  A structure it returns for the default
  polynomial or for an odd polynomial (every primitive polynomial is odd; the code
  does not check it and accepts some even ones, whose tables are not those of a
  field) satisfies the invariant \<open>code_ok\<close>: the log tables represent a
  field, the remainder tables implement the shift register of a generator
  polynomial that vanishes at \<open>a, ..., a ^ (2 * t)\<close>, and its sizes fit.
\<close>

theorem init_bch_establishes_code:
  assumes "init_bch cp alloc m t prim_poly = Some bch" and "prim_poly = 0 \<or> odd prim_poly"
  shows "(\<exists>p G. code_ok p G bch) \<and> bch_n bch = 2 ^ nat m - 1 \<and> ecc_bits bch \<le> nat m * nat t"
  using init_bch_code_ok(1) [OF assms] init_sizes [OF assms] by simp_all

theorem init_bch_establishes_code_witness:
  "\<exists>bch p G. init_bch None (\<lambda>_. True) 5 1 0 = Some bch \<and> code_ok p G bch \<and> bch_n bch = 31 \<and> ecc_bits bch \<le> 5"
proof -
  obtain bch where i: "init_bch None (\<lambda>_. True) 5 1 0 = Some bch" using init_5_1 by blast
  then show ?thesis using init_bch_establishes_code [OF i] by auto
qed

text \<open>
  C11: \<open>compute_generator_polynomial\<close> over a correct field returns a polynomial
  with binary coefficients, leading coefficient 1 and degree at most
  \<open>m * t\<close> (so the allocated array is never exceeded) that vanishes at the
  first \<open>2 * t\<close> powers of the root.
\<close>

theorem generator_polynomial_correct:
  assumes "gf_ok p bch" and "params_ok bch" and "1 \<le> e" and "e \<le> 2 * GF_T bch"
  shows "poly_deg (gen_poly bch) \<le> GF_M bch * GF_T bch
    \<and> poly_c (gen_poly bch) ! poly_deg (gen_poly bch) = 1
    \<and> (\<forall>k \<le> poly_deg (gen_poly bch). poly_c (gen_poly bch) ! k \<in> {0, 1})
    \<and> eval2 (GF_M bch) p e (\<lambda>k. poly_c (gen_poly bch) ! k \<noteq> 0) (Suc (poly_deg (gen_poly bch))) = 0"
proof -
  note g = gen_poly_facts [OF assms(1,2)]
  have "eval2 (GF_M bch) p e (\<lambda>k. poly_c (gen_poly bch) ! k \<noteq> 0) (Suc (poly_deg (gen_poly bch))) = 0"
    using g(5) [OF assms(3,4)] g(3) by (simp add: eval2_def)
  with g(2-4) show ?thesis by blast
qed

lemma gf_ok_5: "gf_ok 37 ((fresh_bch 5 1)\<lparr>a_pow_tab := pow_5, a_log_tab := log_5\<rparr>)"
proof -
  have "field_poly 5 37" using default_poly [of 5] by (simp add: prim_poly_tab_def)
  then show ?thesis
    by (intro build_gf_tables_gf_ok [OF _ _ _ _ gf_tables_5]) (simp_all add: fresh_bch_def GF_M_def GF_N_def Let_def)
qed

theorem generator_polynomial_correct_witness:
  "let B = (fresh_bch 5 1)\<lparr>a_pow_tab := pow_5, a_log_tab := log_5\<rparr>
   in gf_ok 37 B \<and> params_ok B \<and>
      eval2 5 37 2 (\<lambda>k. poly_c (gen_poly B) ! k \<noteq> 0) (Suc (poly_deg (gen_poly B))) = 0"
proof -
  let ?B = "(fresh_bch 5 1)\<lparr>a_pow_tab := pow_5, a_log_tab := log_5\<rparr>"
  have s: "GF_M ?B = 5" "GF_T ?B = 1" by (simp_all add: GF_M_def GF_T_def fresh_bch_def Let_def)
  then have "params_ok ?B" by (simp add: params_ok_def)
  with generator_polynomial_correct [OF gf_ok_5 this, of 2] gf_ok_5 show ?thesis
    unfolding Let_def by (simp only: s)
qed

end
