(* ===== verification/Exclusive.thy ===== *)
theory Exclusive
  imports Prelude
begin

text \<open>
  The contract of a service that hands out resources to one owner at a time:
  \<open>request\<close> either fails and changes nothing or gives a resource nobody
  held, and \<open>release\<close> takes it back.  gpiolib provides it for pins, the timer
  layer for timers and the resource trees for address ranges; the character and
  platform drivers are its clients.
\<close>

datatype ('e, 'r) client_call = Ask 'e 'r | Give_back 'r

fun calls_run :: "('e \<Rightarrow> 'r \<Rightarrow> 's \<Rightarrow> int \<times> 's) \<Rightarrow> ('r \<Rightarrow> 's \<Rightarrow> 's) \<Rightarrow> ('e, 'r) client_call list \<Rightarrow> 's \<Rightarrow> 's" where
  "calls_run request release [] s = s"
| "calls_run request release (Ask e r # cs) s = calls_run request release cs (snd (request e r s))"
| "calls_run request release (Give_back r # cs) s = calls_run request release cs (release r s)"

locale exclusive_resource =
  fixes inv :: "'s \<Rightarrow> bool"
    and held :: "'s \<Rightarrow> 'r set"
    and request :: "'e \<Rightarrow> 'r \<Rightarrow> 's \<Rightarrow> int \<times> 's"
    and release :: "'r \<Rightarrow> 's \<Rightarrow> 's"
  assumes request_inv: "inv s \<Longrightarrow> request e r s = (st, s') \<Longrightarrow> inv s'"
    and request_error: "inv s \<Longrightarrow> request e r s = (st, s') \<Longrightarrow> st < 0 \<Longrightarrow> s' = s"
    and request_ok: "inv s \<Longrightarrow> request e r s = (st, s') \<Longrightarrow> 0 \<le> st \<Longrightarrow> r \<notin> held s \<and> held s' = insert r (held s)"
    and release_inv: "inv s \<Longrightarrow> inv (release r s)"
    and release_held: "inv s \<Longrightarrow> held (release r s) = held s - {r}"
begin

lemma held_not_granted: "inv s \<Longrightarrow> request e r s = (st, s') \<Longrightarrow> r \<in> held s \<Longrightarrow> st < 0 \<and> s' = s"
  using request_ok request_error by (metis linorder_not_le)

lemma held_mono: "inv s \<Longrightarrow> request e r s = (st, s') \<Longrightarrow> held s \<subseteq> held s'"
  using request_ok request_error by (metis linorder_not_le subset_insertI subset_refl)

lemma request_held: "inv s \<Longrightarrow> request e r s = (st, s') \<Longrightarrow> held s' = (if 0 \<le> st then insert r (held s) else held s)"
  using request_ok request_error by (metis linorder_not_le)

text \<open>A request that is given back at once leaves the set of held resources as it was.\<close>

lemma request_release: "inv s \<Longrightarrow> request e r s = (st, s') \<Longrightarrow> 0 \<le> st \<Longrightarrow> held (release r s') = held s"
  using request_ok request_inv release_held by fastforce

text \<open>A resource stays with its owner through all calls but its own release.\<close>

lemma held_until_released:
  assumes "inv s" and "r \<in> held s" and "Give_back r \<notin> set cs"
  shows "inv (calls_run request release cs s) \<and> r \<in> held (calls_run request release cs s)"
  using assms
proof (induction cs arbitrary: s)
  case (Cons c cs)
  show ?case
  proof (cases c)
    case (Ask e r')
    obtain st s' where s': "request e r' s = (st, s')" by force
    have "inv s'" "r \<in> held s'" using request_inv [OF Cons.prems(1) s'] held_mono [OF Cons.prems(1) s'] Cons.prems(2) by auto
    with Cons.IH [of s'] Cons.prems(3) s' Ask show ?thesis by simp
  next
    case (Give_back r')
    with Cons.prems have "inv (release r' s)" "r \<in> held (release r' s)" by (auto simp: release_inv release_held)
    with Cons.IH [of "release r' s"] Cons.prems(3) Give_back show ?thesis by simp
  qed
qed simp

lemma release_all:
  assumes "inv s"
  shows "inv (fold release rs s) \<and> held (fold release rs s) = held s - set rs"
  using assms by (induction rs arbitrary: s) (auto simp: release_inv release_held)

end

end
