(* ===== verification/Gpiolib.thy ===== *)
theory Gpiolib
  imports Exclusive
begin

text \<open>
  The core of drivers/gpio/gpiolib.c: the descriptor table \<open>gpio_desc\<close>, chip
  registration (\<open>gpiochip_reserve\<close>, \<open>gpiochip_find_base\<close>,
  \<open>gpiochip_add\<close>, \<open>gpiochip_remove\<close>), exclusive ownership of pins
  (\<open>gpio_request\<close>, \<open>gpio_free\<close>), direction and value calls.  The
  hooks of a chip and \<open>try_module_get\<close> are outside this file: what they
  return is the argument \<open>env\<close>.  Each operation runs under \<open>gpio_lock\<close>
  or touches a pin that is already marked as requested, so it is one step.  The
  interface that drivers rely on is the locale \<open>exclusive_resource\<close>.
\<close>

section \<open>Data\<close>

text \<open>
  \<open>struct gpio_chip\<close>: identity (its address), number range, and which of the
  optional hooks are present.  A null chip pointer is \<open>None\<close>.
\<close>

record gpio_chip =
  chip_id :: nat
  base :: int
  ngpio :: nat
  has_request :: bool
  has_free :: bool
  has_direction_input :: bool
  has_get :: bool
  has_direction_output :: bool
  has_set :: bool

record gpio_desc =
  d_chip :: "gpio_chip option"
  FLAG_REQUESTED :: bool
  FLAG_IS_OUT :: bool
  FLAG_RESERVED :: bool

text \<open>\<open>mod_refs\<close> counts, for each chip, the references taken through it on the module that owns it.\<close>

record gpio_state =
  descs :: "gpio_desc list"
  mod_refs :: "nat \<Rightarrow> nat"

text \<open>
  Results of the calls that leave gpiolib during one operation:
  \<open>try_module_get\<close>, \<open>chip->request\<close>, \<open>chip->direction_input\<close>,
  \<open>chip->direction_output\<close> for each output value, and \<open>chip->get\<close>.
\<close>

record gpio_env =
  module_ok :: bool
  req_status :: int
  dir_in :: int
  dir_out :: "int \<Rightarrow> int"
  get_value :: int

definition ARCH_NR_GPIOS :: nat where
  "ARCH_NR_GPIOS = 256"

text \<open>A negative \<open>int\<close> converts to an unsigned value beyond the table.\<close>

definition gpio_is_valid :: "int \<Rightarrow> bool" where
  "gpio_is_valid number \<longleftrightarrow> 0 \<le> number \<and> number < int ARCH_NR_GPIOS"

section \<open>Registration\<close>

text \<open>
  \<open>gpiochip_find_base\<close>: the loop from the last number down.  \<open>i\<close> is
  one more than the loop variable, so that 0 ends the loop.
\<close>

function find_base_loop :: "gpio_desc list \<Rightarrow> nat \<Rightarrow> nat \<Rightarrow> nat \<Rightarrow> int" where
  "find_base_loop ds n i spare =
     (if i = 0 then -ENOSPC
      else let d = ds ! (i - 1)
           in if d_chip d = None \<and> \<not> FLAG_RESERVED d
              then if Suc spare = n then int (i - 1) else find_base_loop ds n (i - 1) (Suc spare)
              else case d_chip d of
                     Some c \<Rightarrow> find_base_loop ds n (i - 1 - (ngpio c - 1)) 0
                   | None \<Rightarrow> find_base_loop ds n (i - 1) 0)"
  by pat_completeness auto
termination
  by (relation "measure (\<lambda>(ds, n, i, spare). i)") auto

declare find_base_loop.simps [simp del]

definition gpiochip_find_base :: "gpio_state \<Rightarrow> nat \<Rightarrow> int" where
  "gpiochip_find_base s n = find_base_loop (descs s) n ARCH_NR_GPIOS 0"

text \<open>
  \<open>gpiochip_reserve\<close>: numbers are marked one by one; a conflict stops the loop
  and leaves the earlier marks in place.
\<close>

fun reserve_loop :: "nat \<Rightarrow> nat \<Rightarrow> gpio_desc list \<Rightarrow> int \<times> gpio_desc list" where
  "reserve_loop i 0 ds = (0, ds)"
| "reserve_loop i (Suc n) ds =
     (if d_chip (ds ! i) \<noteq> None \<or> FLAG_RESERVED (ds ! i) then (-EBUSY, ds)
      else reserve_loop (Suc i) n (ds[i := (ds ! i)\<lparr>FLAG_RESERVED := True\<rparr>]))"

definition gpiochip_reserve :: "int \<Rightarrow> int \<Rightarrow> gpio_state \<Rightarrow> int \<times> gpio_state" where
  "gpiochip_reserve start n s =
     (if \<not> gpio_is_valid start \<or> \<not> gpio_is_valid (start + n - 1) then (-EINVAL, s)
      else case reserve_loop (nat start) (nat n) (descs s) of (ret, ds) \<Rightarrow> (ret, s\<lparr>descs := ds\<rparr>))"

definition chip_range :: "gpio_chip \<Rightarrow> nat list" where
  "chip_range c = [nat (base c)..<nat (base c + int (ngpio c))]"

definition attach_chip :: "gpio_chip \<Rightarrow> nat \<Rightarrow> gpio_desc list \<Rightarrow> gpio_desc list" where
  "attach_chip c i ds =
     ds[i := \<lparr>d_chip = Some c, FLAG_REQUESTED = False, FLAG_IS_OUT = \<not> has_direction_input c, FLAG_RESERVED = False\<rparr>]"

text \<open>
  \<open>gpiochip_add\<close> returns the status, the state and the chip with its base.
  \<open>export\<close> is the result of \<open>gpiochip_export\<close> (0 without sysfs).
\<close>

definition gpiochip_add :: "int \<Rightarrow> gpio_chip \<Rightarrow> gpio_state \<Rightarrow> int \<times> gpio_chip \<times> gpio_state" where
  "gpiochip_add export chip s =
     (if (\<not> gpio_is_valid (base chip) \<or> \<not> gpio_is_valid (base chip + int (ngpio chip) - 1)) \<and> 0 \<le> base chip
      then (-EINVAL, chip, s)
      else let b = (if base chip < 0 then gpiochip_find_base s (ngpio chip) else base chip)
           in if b < 0 then (b, chip, s)
              else let c = chip\<lparr>base := b\<rparr>
                   in if \<exists>i\<in>set (chip_range c). d_chip (descs s ! i) \<noteq> None
                      then (-EBUSY, c, s)
                      else (export, c, s\<lparr>descs := fold (attach_chip c) (chip_range c) (descs s)\<rparr>))"

definition gpiochip_remove :: "gpio_chip \<Rightarrow> gpio_state \<Rightarrow> int \<times> gpio_state" where
  "gpiochip_remove chip s =
     (if \<exists>i\<in>set (chip_range chip). FLAG_REQUESTED (descs s ! i) then (-EBUSY, s)
      else (0, s\<lparr>descs := fold (\<lambda>i ds. ds[i := (ds ! i)\<lparr>d_chip := None\<rparr>]) (chip_range chip) (descs s)\<rparr>))"

section \<open>Ownership of pins\<close>

definition set_requested :: "bool \<Rightarrow> nat \<Rightarrow> gpio_state \<Rightarrow> gpio_state" where
  "set_requested b gpio s = s\<lparr>descs := (descs s)[gpio := (descs s ! gpio)\<lparr>FLAG_REQUESTED := b\<rparr>]\<rparr>"

definition module_get :: "gpio_chip \<Rightarrow> gpio_state \<Rightarrow> gpio_state" where
  "module_get c s = s\<lparr>mod_refs := (mod_refs s)(chip_id c := mod_refs s (chip_id c) + 1)\<rparr>"

definition module_put :: "gpio_chip \<Rightarrow> gpio_state \<Rightarrow> gpio_state" where
  "module_put c s = s\<lparr>mod_refs := (mod_refs s)(chip_id c := mod_refs s (chip_id c) - 1)\<rparr>"

definition gpio_request :: "gpio_env \<Rightarrow> nat \<Rightarrow> gpio_state \<Rightarrow> int \<times> gpio_state" where
  "gpio_request env gpio s =
     (if \<not> gpio_is_valid (int gpio) then (-EINVAL, s)
      else case d_chip (descs s ! gpio) of
        None \<Rightarrow> (-EINVAL, s)
      | Some c \<Rightarrow>
          if \<not> module_ok env then (-EINVAL, s)
          else let s1 = module_get c s
               in if FLAG_REQUESTED (descs s ! gpio) then (-EBUSY, module_put c s1)
                  else let s2 = set_requested True gpio s1
                       in if has_request c
                          then if req_status env < 0
                               then (req_status env, set_requested False gpio (module_put c s2))
                               else (req_status env, s2)
                          else (0, s2))"

definition gpio_free :: "nat \<Rightarrow> gpio_state \<Rightarrow> gpio_state" where
  "gpio_free gpio s =
     (if \<not> gpio_is_valid (int gpio) then s
      else case d_chip (descs s ! gpio) of
        None \<Rightarrow> s
      | Some c \<Rightarrow> if FLAG_REQUESTED (descs s ! gpio) then set_requested False gpio (module_put c s) else s)"

text \<open>
  \<open>gpio_ensure_requested\<close>: 0 when the pin was already requested or has no
  request hook, 1 when the caller must run the hook.
\<close>

definition gpio_ensure_requested :: "gpio_env \<Rightarrow> gpio_chip \<Rightarrow> nat \<Rightarrow> gpio_state \<Rightarrow> int \<times> gpio_state" where
  "gpio_ensure_requested env c gpio s =
     (if \<not> FLAG_REQUESTED (descs s ! gpio)
      then if \<not> module_ok env then (-EIO, s)
           else (if has_request c then 1 else 0, module_get c (set_requested True gpio s))
      else (0, s))"

section \<open>Direction and value\<close>

definition set_is_out :: "bool \<Rightarrow> nat \<Rightarrow> gpio_state \<Rightarrow> gpio_state" where
  "set_is_out b gpio s = s\<lparr>descs := (descs s)[gpio := (descs s ! gpio)\<lparr>FLAG_IS_OUT := b\<rparr>]\<rparr>"

text \<open>
  The common part of \<open>gpio_direction_input\<close> and \<open>gpio_direction_output\<close>
  after the checks of the hooks; \<open>hw\<close> is what the chip's hook returns.
\<close>

definition gpio_direction ::
  "gpio_env \<Rightarrow> (gpio_chip \<Rightarrow> bool) \<Rightarrow> int \<Rightarrow> bool \<Rightarrow> nat \<Rightarrow> gpio_state \<Rightarrow> int \<times> gpio_state" where
  "gpio_direction env hooks hw out gpio s =
     (if \<not> gpio_is_valid (int gpio) then (-EINVAL, s)
      else case d_chip (descs s ! gpio) of
        None \<Rightarrow> (-EINVAL, s)
      | Some c \<Rightarrow>
          if \<not> hooks c then (-EINVAL, s)
          else if int gpio < base c \<or> int gpio - base c \<ge> int (ngpio c) then (-EINVAL, s)
          else case gpio_ensure_requested env c gpio s of (status, s1) \<Rightarrow>
            if status < 0 then (status, s1)
            else if status \<noteq> 0 \<and> req_status env < 0 then (req_status env, s1)
            else (hw, if hw = 0 then set_is_out out gpio s1 else s1))"

definition gpio_direction_input :: "gpio_env \<Rightarrow> nat \<Rightarrow> gpio_state \<Rightarrow> int \<times> gpio_state" where
  "gpio_direction_input env = gpio_direction env (\<lambda>c. has_get c \<and> has_direction_input c) (dir_in env) False"

definition gpio_direction_output :: "gpio_env \<Rightarrow> nat \<Rightarrow> int \<Rightarrow> gpio_state \<Rightarrow> int \<times> gpio_state" where
  "gpio_direction_output env gpio value =
     gpio_direction env (\<lambda>c. has_set c \<and> has_direction_output c) (dir_out env value) True gpio"

text \<open>
  \<open>__gpio_get_value\<close> and \<open>__gpio_set_value\<close> trust their argument:
  \<open>None\<close> is a fault, an index outside the table or a null chip.  The set hook
  is called without a check; the result is the call that the chip receives
  (chip, offset, value).
\<close>

definition gpio_to_chip :: "nat \<Rightarrow> gpio_state \<Rightarrow> gpio_chip option" where
  "gpio_to_chip gpio s = (if gpio < length (descs s) then d_chip (descs s ! gpio) else None)"

definition gpio_get_value :: "gpio_env \<Rightarrow> nat \<Rightarrow> gpio_state \<Rightarrow> int option" where
  "gpio_get_value env gpio s =
     (case gpio_to_chip gpio s of None \<Rightarrow> None | Some c \<Rightarrow> Some (if has_get c then get_value env else 0))"

definition gpio_set_value :: "nat \<Rightarrow> int \<Rightarrow> gpio_state \<Rightarrow> (nat \<times> int \<times> int) option" where
  "gpio_set_value gpio value s =
     (case gpio_to_chip gpio s of
        None \<Rightarrow> None
      | Some c \<Rightarrow> if has_set c then Some (chip_id c, int gpio - base c, value) else None)"

definition gpiochip_is_requested :: "gpio_chip \<Rightarrow> nat \<Rightarrow> gpio_state \<Rightarrow> bool" where
  "gpiochip_is_requested chip offset s =
     (let gpio = base chip + int offset
      in gpio_is_valid gpio \<and> d_chip (descs s ! nat gpio) = Some chip \<and> FLAG_REQUESTED (descs s ! nat gpio))"


section \<open>The table invariant\<close>

definition chip_at :: "gpio_state \<Rightarrow> nat \<Rightarrow> gpio_chip option" where
  "chip_at s i = d_chip (descs s ! i)"

definition requested :: "gpio_state \<Rightarrow> nat set" where
  "requested s = {i. i < ARCH_NR_GPIOS \<and> FLAG_REQUESTED (descs s ! i)}"

definition owned_by :: "gpio_state \<Rightarrow> nat \<Rightarrow> nat set" where
  "owned_by s k = {i \<in> requested s. \<exists>c. chip_at s i = Some c \<and> chip_id c = k}"

text \<open>
  Requested pins have a chip; a chip occupies exactly its range; the references
  held on a module are the requested pins of its chips.
\<close>

definition chip_fits :: "gpio_chip \<Rightarrow> bool" where
  "chip_fits c \<longleftrightarrow> 0 \<le> base c \<and> base c + int (ngpio c) \<le> int ARCH_NR_GPIOS"

definition chip_layout :: "(nat \<Rightarrow> gpio_chip option) \<Rightarrow> bool" where
  "chip_layout at \<longleftrightarrow>
     (\<forall>i < ARCH_NR_GPIOS. \<forall>c. at i = Some c \<longrightarrow>
        chip_fits c \<and> i \<in> set (chip_range c) \<and> (\<forall>j \<in> set (chip_range c). at j = Some c))"

definition gpio_inv :: "gpio_state \<Rightarrow> bool" where
  "gpio_inv s \<longleftrightarrow>
     length (descs s) = ARCH_NR_GPIOS \<and>
     (\<forall>i \<in> requested s. chip_at s i \<noteq> None) \<and>
     chip_layout (chip_at s) \<and>
     (\<forall>k. mod_refs s k = card (owned_by s k))"

lemma chip_layoutD:
  assumes "chip_layout at" and "i < ARCH_NR_GPIOS" and "at i = Some c"
  shows "chip_fits c" and "i \<in> set (chip_range c)" and "j \<in> set (chip_range c) \<Longrightarrow> at j = Some c"
  using assms unfolding chip_layout_def by metis+

lemma requested_less: "i \<in> requested s \<Longrightarrow> i < ARCH_NR_GPIOS"
  by (simp add: requested_def)

lemma finite_owned_by [simp]: "finite (owned_by s k)"
  by (rule finite_subset [of _ "{..<ARCH_NR_GPIOS}"]) (auto simp: owned_by_def requested_def)

lemma gpio_valid_nat: "gpio_is_valid (int gpio) \<longleftrightarrow> gpio < ARCH_NR_GPIOS"
  by (simp add: gpio_is_valid_def)

lemma set_requested_simps:
  assumes "length (descs s) = ARCH_NR_GPIOS" and "gpio < ARCH_NR_GPIOS"
  shows "requested (set_requested b gpio s) = (if b then insert gpio (requested s) else requested s - {gpio})"
    and "chip_at (set_requested b gpio s) = chip_at s"
    and "mod_refs (set_requested b gpio s) = mod_refs s"
    and "length (descs (set_requested b gpio s)) = length (descs s)"
  using assms by (auto simp: requested_def chip_at_def set_requested_def nth_list_update fun_eq_iff split: if_splits)

lemma module_simps [simp]:
  "descs (module_get c s) = descs s" "descs (module_put c s) = descs s"
  "chip_at (module_get c s) = chip_at s" "chip_at (module_put c s) = chip_at s"
  "requested (module_get c s) = requested s" "requested (module_put c s) = requested s"
  by (simp_all add: module_get_def module_put_def chip_at_def requested_def fun_eq_iff)

lemma module_refs [simp]:
  "mod_refs (module_get c s) k = (if k = chip_id c then mod_refs s k + 1 else mod_refs s k)"
  "mod_refs (module_put c s) k = (if k = chip_id c then mod_refs s k - 1 else mod_refs s k)"
  by (simp_all add: module_get_def module_put_def)

lemma gpio_inv_same_chips:
  assumes "gpio_inv s" and "chip_at s' = chip_at s" and "length (descs s') = length (descs s)"
    and "\<And>i. i \<in> requested s' \<Longrightarrow> chip_at s i \<noteq> None" and "\<And>k. mod_refs s' k = card (owned_by s' k)"
  shows "gpio_inv s'"
  using assms unfolding gpio_inv_def by simp

lemma gpio_inv_parts:
  assumes "gpio_inv s"
  shows "length (descs s) = ARCH_NR_GPIOS" and "i \<in> requested s \<Longrightarrow> chip_at s i \<noteq> None"
    and "mod_refs s k = card (owned_by s k)"
    and "chip_layout (chip_at s)"
  using assms by (simp_all add: gpio_inv_def)

text \<open>Taking and dropping a pin together with its module reference keep the invariant.\<close>

lemma take_pin_inv:
  assumes inv: "gpio_inv s" and g: "gpio < ARCH_NR_GPIOS" and c: "chip_at s gpio = Some c"
    and free: "gpio \<notin> requested s"
  shows "gpio_inv (set_requested True gpio (module_get c s))"
    and "requested (set_requested True gpio (module_get c s)) = insert gpio (requested s)"
proof -
  have len: "length (descs (module_get c s)) = ARCH_NR_GPIOS" using inv by (simp add: gpio_inv_def)
  note sr = set_requested_simps [OF len g]
  show req: "requested (set_requested True gpio (module_get c s)) = insert gpio (requested s)" by (simp add: sr)
  have "owned_by (set_requested True gpio (module_get c s)) k =
      (if k = chip_id c then insert gpio (owned_by s k) else owned_by s k)" for k
    using c by (auto simp: owned_by_def sr)
  moreover have "gpio \<notin> owned_by s k" for k using free by (simp add: owned_by_def)
  ultimately have refs: "mod_refs (set_requested True gpio (module_get c s)) k =
      card (owned_by (set_requested True gpio (module_get c s)) k)" for k
    by (simp add: sr gpio_inv_parts(3) [OF inv])
  show "gpio_inv (set_requested True gpio (module_get c s))"
  proof (rule gpio_inv_same_chips [OF inv _ _ _ refs])
    show "chip_at (set_requested True gpio (module_get c s)) = chip_at s"
      "length (descs (set_requested True gpio (module_get c s))) = length (descs s)" by (simp_all add: sr)
    fix i assume "i \<in> requested (set_requested True gpio (module_get c s))"
    then show "chip_at s i \<noteq> None" using c gpio_inv_parts(2) [OF inv] unfolding req by blast
  qed
qed

lemma drop_pin_inv:
  assumes inv: "gpio_inv s" and g: "gpio \<in> requested s" and c: "chip_at s gpio = Some c"
  shows "gpio_inv (set_requested False gpio (module_put c s))"
    and "requested (set_requested False gpio (module_put c s)) = requested s - {gpio}"
proof -
  have len: "length (descs (module_put c s)) = ARCH_NR_GPIOS" using inv by (simp add: gpio_inv_def)
  note sr = set_requested_simps [OF len requested_less [OF g]]
  show req: "requested (set_requested False gpio (module_put c s)) = requested s - {gpio}" by (simp add: sr)
  have "owned_by (set_requested False gpio (module_put c s)) k =
      (if k = chip_id c then owned_by s k - {gpio} else owned_by s k)" for k
    using c by (auto simp: owned_by_def sr)
  moreover have "gpio \<in> owned_by s (chip_id c)" using g c by (simp add: owned_by_def)
  ultimately have refs: "mod_refs (set_requested False gpio (module_put c s)) k =
      card (owned_by (set_requested False gpio (module_put c s)) k)" for k
    by (simp add: sr gpio_inv_parts(3) [OF inv] card_Diff_singleton)
  show "gpio_inv (set_requested False gpio (module_put c s))"
  proof (rule gpio_inv_same_chips [OF inv _ _ _ refs])
    show "chip_at (set_requested False gpio (module_put c s)) = chip_at s"
      "length (descs (set_requested False gpio (module_put c s))) = length (descs s)" by (simp_all add: sr)
    fix i assume "i \<in> requested (set_requested False gpio (module_put c s))"
    then show "chip_at s i \<noteq> None" using gpio_inv_parts(2) [OF inv] unfolding req by blast
  qed
qed

lemma module_put_get: "module_put c (module_get c s) = s"
  by (simp add: module_put_def module_get_def fun_upd_idem)

lemma undo_take_pin:
  assumes "gpio_inv s" and "gpio < ARCH_NR_GPIOS" and "\<not> FLAG_REQUESTED (descs s ! gpio)"
  shows "set_requested False gpio (module_put c (set_requested True gpio (module_get c s))) = s"
proof -
  have "module_put c (set_requested True gpio (module_get c s)) = set_requested True gpio s"
    by (simp add: module_put_def module_get_def set_requested_def fun_upd_idem)
  moreover have "(descs s ! gpio)\<lparr>FLAG_REQUESTED := False\<rparr> = descs s ! gpio" using assms(3) by simp
  ultimately show ?thesis
    using assms(1,2) by (simp add: set_requested_def gpio_inv_def)
qed

section \<open>Requesting and freeing\<close>

lemma gpio_request_cases:
  assumes inv: "gpio_inv s" and res: "gpio_request env gpio s = (r, s')"
  shows "gpio_inv s'" and "r < 0 \<Longrightarrow> s' = s"
    and "0 \<le> r \<Longrightarrow> gpio \<notin> requested s \<and> requested s' = insert gpio (requested s) \<and> gpio < ARCH_NR_GPIOS
           \<and> chip_at s' = chip_at s"
proof -
  have "gpio_inv s' \<and> (r < 0 \<longrightarrow> s' = s) \<and>
      (0 \<le> r \<longrightarrow> gpio \<notin> requested s \<and> requested s' = insert gpio (requested s) \<and> gpio < ARCH_NR_GPIOS \<and> chip_at s' = chip_at s)"
  proof (cases "gpio < ARCH_NR_GPIOS \<and> module_ok env \<and> chip_at s gpio \<noteq> None \<and> \<not> FLAG_REQUESTED (descs s ! gpio)")
    case True
    then obtain c where c: "chip_at s gpio = Some c" and g: "gpio < ARCH_NR_GPIOS" and f: "gpio \<notin> requested s"
      by (auto simp: requested_def)
    note t = take_pin_inv [OF inv g c f] and u = undo_take_pin [OF inv g, of c]
    have len: "length (descs (module_get c s)) = ARCH_NR_GPIOS" using inv by (simp add: gpio_inv_def)
    show ?thesis
      using res True c t u f inv set_requested_simps(2) [OF len g, of True]
      by (auto simp: gpio_request_def gpio_valid_nat chip_at_def [symmetric] Let_def split: if_splits)
  next
    case False
    then have "r \<in> {-EINVAL, -EBUSY}" "s' = s"
      using res by (auto simp: gpio_request_def gpio_valid_nat chip_at_def Let_def module_put_get split: if_splits option.splits)
    with inv show ?thesis by (auto simp: errno_defs)
  qed
  then show "gpio_inv s'" "r < 0 \<Longrightarrow> s' = s"
    "0 \<le> r \<Longrightarrow> gpio \<notin> requested s \<and> requested s' = insert gpio (requested s) \<and> gpio < ARCH_NR_GPIOS \<and> chip_at s' = chip_at s"
    by blast+
qed

lemma gpio_free_facts:
  assumes inv: "gpio_inv s"
  shows "gpio_inv (gpio_free gpio s)" and "requested (gpio_free gpio s) = requested s - {gpio}"
    and "chip_at (gpio_free gpio s) = chip_at s"
proof -
  have "gpio_inv (gpio_free gpio s) \<and> requested (gpio_free gpio s) = requested s - {gpio} \<and> chip_at (gpio_free gpio s) = chip_at s"
  proof (cases "gpio \<in> requested s")
    case True
    then obtain c where c: "chip_at s gpio = Some c" using inv by (auto simp: gpio_inv_def)
    have len: "length (descs (module_put c s)) = ARCH_NR_GPIOS" using inv by (simp add: gpio_inv_def)
    have "gpio_free gpio s = set_requested False gpio (module_put c s)"
      using True c by (simp add: gpio_free_def gpio_valid_nat requested_def chip_at_def)
    with drop_pin_inv [OF inv True c] set_requested_simps(2) [OF len requested_less [OF True]] show ?thesis by simp
  next
    case False
    then have "gpio_free gpio s = s"
      by (auto simp: gpio_free_def gpio_valid_nat requested_def split: option.splits)
    with inv False show ?thesis by simp
  qed
  then show "gpio_inv (gpio_free gpio s)" "requested (gpio_free gpio s) = requested s - {gpio}"
    "chip_at (gpio_free gpio s) = chip_at s" by blast+
qed

interpretation pins: exclusive_resource gpio_inv requested gpio_request gpio_free
proof
  show "gpio_inv s'" if "gpio_inv s" "gpio_request e r s = (st, s')" for s e r st s'
    using gpio_request_cases(1) that .
  show "s' = s" if "gpio_inv s" "gpio_request e r s = (st, s')" "st < 0" for s e r st s'
    using gpio_request_cases(2) that .
  show "r \<notin> requested s \<and> requested s' = insert r (requested s)"
    if "gpio_inv s" "gpio_request e r s = (st, s')" "0 \<le> st" for s e r st s'
    using gpio_request_cases(3) [OF that] by blast
qed (simp_all add: gpio_free_facts)

section \<open>Dynamic allocation of numbers\<close>

definition unused :: "gpio_desc list \<Rightarrow> nat \<Rightarrow> bool" where
  "unused ds i \<longleftrightarrow> d_chip (ds ! i) = None \<and> \<not> FLAG_RESERVED (ds ! i)"

definition window :: "gpio_desc list \<Rightarrow> nat \<Rightarrow> nat \<Rightarrow> bool" where
  "window ds n j \<longleftrightarrow> j + n \<le> ARCH_NR_GPIOS \<and> (\<forall>i \<in> {j..<j + n}. unused ds i)"

lemma find_base_loop_step:
  "0 < i \<Longrightarrow> find_base_loop ds n i spare =
     (if unused ds (i - 1)
      then if Suc spare = n then int (i - 1) else find_base_loop ds n (i - 1) (Suc spare)
      else find_base_loop ds n (case d_chip (ds ! (i - 1)) of Some c \<Rightarrow> i - 1 - (ngpio c - 1) | None \<Rightarrow> i - 1) 0)"
  by (subst find_base_loop.simps) (auto simp: unused_def Let_def split: option.splits)

lemma find_base_loop_0 [simp]: "find_base_loop ds n 0 spare = -ENOSPC"
  by (simp add: find_base_loop.simps)

text \<open>
  A non-negative result is the start of a free window; the last \<open>spare\<close>
  descriptors visited are free and adjacent.
\<close>

lemma find_base_loop_sound:
  assumes "\<forall>k \<in> {i..<i + spare}. unused ds k" and "i + spare \<le> ARCH_NR_GPIOS" and "0 \<le> find_base_loop ds n i spare"
  shows "window ds n (nat (find_base_loop ds n i spare))"
  using assms
proof (induction i arbitrary: spare rule: less_induct)
  case (less i)
  show ?case
  proof (cases "i = 0")
    case True
    with less.prems show ?thesis by (simp add: errno_defs)
  next
    case False
    then obtain m where i: "i = Suc m" by (cases i) auto
    show ?thesis
    proof (cases "unused ds m")
      case True
      then have u: "\<forall>k \<in> {m..<m + Suc spare}. unused ds k"
        using less.prems(1) i by (auto simp: less_Suc_eq_le Suc_le_eq)
      show ?thesis
      proof (cases "Suc spare = n")
        case True
        with \<open>unused ds m\<close> u less.prems(2) show ?thesis
          by (simp add: find_base_loop_step i window_def)
      next
        case False
        with \<open>unused ds m\<close> u less.prems show ?thesis
          using less.IH [of m "Suc spare"] by (simp add: find_base_loop_step i)
      qed
    next
      case False
      let ?j = "case d_chip (ds ! m) of Some c \<Rightarrow> m - (ngpio c - 1) | None \<Rightarrow> m"
      have j: "?j \<le> m" by (simp split: option.splits)
      have e: "find_base_loop ds n i spare = find_base_loop ds n ?j 0"
        using False by (simp add: find_base_loop_step i cong: option.case_cong)
      show ?thesis unfolding e
        by (rule less.IH) (use j less.prems(2,3) e in \<open>simp_all add: i\<close>)
    qed
  qed
qed

text \<open>
  A chip met on the way down is met at its last descriptor, so that jumping over
  \<open>ngpio - 1\<close> descriptors passes over that chip and nothing else.
\<close>

lemma chip_range_iff: "chip_fits c \<Longrightarrow> i \<in> set (chip_range c) \<longleftrightarrow> base c \<le> int i \<and> int i < base c + int (ngpio c)"
  by (auto simp: chip_range_def chip_fits_def)

lemma chip_last:
  assumes lay: "chip_layout at" and m: "m < ARCH_NR_GPIOS" and c: "at m = Some c"
    and top: "Suc m < ARCH_NR_GPIOS \<Longrightarrow> at (Suc m) \<noteq> Some c"
  shows "int m = base c + int (ngpio c) - 1" and "1 \<le> ngpio c"
    and "m - (ngpio c - 1) = nat (base c)"
proof -
  note l = chip_layoutD [OF lay m c]
  note r = chip_range_iff [OF l(1)]
  have fit: "0 \<le> base c" "base c + int (ngpio c) \<le> int ARCH_NR_GPIOS" using l(1) by (simp_all add: chip_fits_def)
  have "Suc m \<notin> set (chip_range c)"
  proof
    assume a: "Suc m \<in> set (chip_range c)"
    then have "int (Suc m) < int ARCH_NR_GPIOS" using fit(2) unfolding r by linarith
    then show False using l(3) [OF a] top by simp
  qed
  with l(2) show *: "int m = base c + int (ngpio c) - 1" "1 \<le> ngpio c" by (simp_all add: r)
  then show "m - (ngpio c - 1) = nat (base c)" using fit by linarith
qed

lemma find_base_loop_complete:
  assumes lay: "chip_layout (\<lambda>k. d_chip (ds ! k))" and n: "spare < n" and i: "i + spare \<le> ARCH_NR_GPIOS"
    and top: "\<And>c. 0 < i \<Longrightarrow> i < ARCH_NR_GPIOS \<Longrightarrow> d_chip (ds ! (i - 1)) = Some c \<Longrightarrow> d_chip (ds ! i) \<noteq> Some c"
    and neg: "find_base_loop ds n i spare < 0" and j: "j + n \<le> i + spare"
  shows "\<not> window ds n j"
  using n i top neg j
proof (induction i arbitrary: spare rule: less_induct)
  case (less i)
  show ?case
  proof (cases "i = 0")
    case True
    with less.prems show ?thesis by simp
  next
    case False
    then obtain m where i: "i = Suc m" by (cases i) auto
    show ?thesis
    proof (cases "unused ds m")
      case True
      have "Suc spare \<noteq> n" and "find_base_loop ds n m (Suc spare) < 0"
        using True less.prems(4) by (auto simp: find_base_loop_step i split: if_splits)
      then show ?thesis
        using less.prems True by (intro less.IH [of m "Suc spare"]) (auto simp: i unused_def)
    next
      case False
      show ?thesis
      proof
        assume w: "window ds n j"
        then have free: "unused ds k" if "j \<le> k" "k < j + n" for k using that by (simp add: window_def)
        have "\<not> (j \<le> m \<and> m < j + n)" using free [of m] False by blast
        then have jm: "j + n \<le> m" using less.prems(1,5) i by linarith
        show False
        proof (cases "d_chip (ds ! m)")
          case None
          with False have "find_base_loop ds n m 0 < 0"
            using less.prems(4) by (simp add: find_base_loop_step i)
          then have "\<not> window ds n j"
            using less.prems jm None by (intro less.IH [of m 0]) (auto simp: i)
          with w show False by simp
        next
          case (Some c)
          have m: "m < ARCH_NR_GPIOS" using less.prems(2) i by simp
          have "d_chip (ds ! Suc m) \<noteq> Some c" if "Suc m < ARCH_NR_GPIOS"
            using less.prems(3) [of c] Some that by (simp add: i)
          note last = chip_last [OF lay m Some this]
          note l = chip_layoutD [OF lay m Some]
          have "find_base_loop ds n (nat (base c)) 0 < 0"
            using False Some less.prems(4) last(3) by (simp add: find_base_loop_step i)
          moreover have "j + n \<le> nat (base c)"
          proof (rule ccontr)
            assume "\<not> j + n \<le> nat (base c)"
            then have "j + n - 1 \<in> set (chip_range c)"
              using jm last(1) less.prems(1) by (simp add: chip_range_iff [OF l(1)])
            moreover have "unused ds (j + n - 1)" using less.prems(1) by (intro free) auto
            ultimately show False using l(3) by (auto simp: unused_def)
          qed
          ultimately have "\<not> window ds n j"
          proof (intro less.IH [of "nat (base c)" 0])
            show "nat (base c) < i" using last(1,2) i by linarith
            fix c' assume c': "0 < nat (base c)" "d_chip (ds ! (nat (base c) - 1)) = Some c'"
            have b: "nat (base c) \<in> set (chip_range c)" using last(2) l(1) by (simp add: chip_range_iff chip_fits_def)
            have bd: "nat (base c) - 1 < ARCH_NR_GPIOS" using last(1,2) m by linarith
            have "c' \<noteq> c"
              using chip_layoutD(2) [OF lay bd c'(2)] c'(1) l(1) by (auto simp: chip_range_iff)
            then show "d_chip (ds ! nat (base c)) \<noteq> Some c'" using l(3) [OF b] by simp
          qed (use less.prems(1,2) last(1,2) i in auto)
          with w show False by simp
        qed
      qed
    qed
  qed
qed

lemma find_base_loop_neg: "find_base_loop ds n i spare < 0 \<Longrightarrow> find_base_loop ds n i spare = -ENOSPC"
proof (induction i arbitrary: spare rule: less_induct)
  case (less i)
  show ?case
  proof (cases "i = 0")
    case False
    let ?j = "case d_chip (ds ! (i - 1)) of Some c \<Rightarrow> i - 1 - (ngpio c - 1) | None \<Rightarrow> i - 1"
    define r2 r3 where "r2 = find_base_loop ds n (i - 1) (Suc spare)" and "r3 = find_base_loop ds n ?j 0"
    have "?j < i" "i - 1 < i" using False by (simp_all split: option.splits)
    then have ih: "r2 < 0 \<Longrightarrow> r2 = -ENOSPC" "r3 < 0 \<Longrightarrow> r3 = -ENOSPC"
      unfolding r2_def r3_def by (blast intro: less.IH)+
    have "find_base_loop ds n i spare = (if unused ds (i - 1) then if Suc spare = n then int (i - 1) else r2 else r3)"
      unfolding r2_def r3_def using False by (intro find_base_loop_step) simp
    with ih less.prems show ?thesis by (simp split: if_split_asm)
  qed simp
qed

lemma layout_descs: "gpio_inv s \<Longrightarrow> chip_layout (\<lambda>k. d_chip (descs s ! k))"
  using gpio_inv_parts(4) [of s] by (simp add: chip_at_def [abs_def])

lemma find_base_window: "0 \<le> gpiochip_find_base s n \<Longrightarrow> window (descs s) n (nat (gpiochip_find_base s n))"
  unfolding gpiochip_find_base_def by (rule find_base_loop_sound) simp_all

text \<open>
  C14: \<open>gpiochip_find_base\<close> on a consistent table returns the start of a block
  of \<open>n\<close> adjacent descriptors without chip and without reservation that lies
  inside the table, and returns \<open>-ENOSPC\<close> exactly when there is no such block.
\<close>

theorem find_base_correct:
  assumes "gpio_inv s" and "0 < n"
  shows "if \<exists>j. window (descs s) n j
         then 0 \<le> gpiochip_find_base s n \<and> window (descs s) n (nat (gpiochip_find_base s n))
         else gpiochip_find_base s n = -ENOSPC"
proof (cases "0 \<le> gpiochip_find_base s n")
  case True
  with find_base_window show ?thesis by auto
next
  case False
  then have "\<not> window (descs s) n j" for j
    using find_base_loop_complete [OF layout_descs [OF assms(1)], of 0 n ARCH_NR_GPIOS j] assms(2)
    by (cases "j + n \<le> ARCH_NR_GPIOS") (auto simp: gpiochip_find_base_def window_def)
  with False show ?thesis using find_base_loop_neg by (simp add: gpiochip_find_base_def)
qed

section \<open>Registration keeps the table consistent\<close>

text \<open>An operation that changes neither chips, owners nor references keeps the invariant.\<close>

lemma gpio_inv_same:
  assumes "gpio_inv s" and "chip_at s' = chip_at s" and "length (descs s') = length (descs s)"
    and "requested s' = requested s" and "mod_refs s' = mod_refs s"
  shows "gpio_inv s'"
  using assms by (simp add: gpio_inv_def owned_by_def)

lemma reserve_loop_frame:
  assumes "reserve_loop i n ds = (r, ds')"
  shows "length ds' = length ds" and "d_chip (ds' ! k) = d_chip (ds ! k)"
    and "FLAG_REQUESTED (ds' ! k) = FLAG_REQUESTED (ds ! k)"
  using assms
  by (induction i n ds rule: reserve_loop.induct)
     (auto simp: list_update_field [where f = d_chip] list_update_field [where f = FLAG_REQUESTED] split: if_splits)

lemma gpiochip_reserve_inv:
  assumes "gpio_inv s" and "gpiochip_reserve start n s = (r, s')"
  shows "gpio_inv s'" and "requested s' = requested s" and "chip_at s' = chip_at s"
proof -
  have "length (descs s') = length (descs s) \<and> (\<forall>k. d_chip (descs s' ! k) = d_chip (descs s ! k)) \<and>
      (\<forall>k. FLAG_REQUESTED (descs s' ! k) = FLAG_REQUESTED (descs s ! k)) \<and> mod_refs s' = mod_refs s"
  proof (cases "\<not> gpio_is_valid start \<or> \<not> gpio_is_valid (start + n - 1)")
    case True
    then show ?thesis using assms(2) by (simp add: gpiochip_reserve_def)
  next
    case False
    obtain r' ds' where l: "reserve_loop (nat start) (nat n) (descs s) = (r', ds')" by force
    then have "s' = s\<lparr>descs := ds'\<rparr>" using assms(2) False by (simp add: gpiochip_reserve_def)
    with reserve_loop_frame [OF l] show ?thesis by simp
  qed
  then have *: "requested s' = requested s" "chip_at s' = chip_at s" "length (descs s') = length (descs s)" "mod_refs s' = mod_refs s"
    by (simp_all add: requested_def chip_at_def fun_eq_iff)
  then show "requested s' = requested s" "chip_at s' = chip_at s" "gpio_inv s'"
    using gpio_inv_same [OF assms(1)] by simp_all
qed

text \<open>Attaching a chip to a range of free descriptors.\<close>

lemma attach_fold:
  "length (fold (attach_chip c) is ds) = length ds"
  "i < length ds \<Longrightarrow> fold (attach_chip c) is ds ! i =
     (if i \<in> set is then \<lparr>d_chip = Some c, FLAG_REQUESTED = False, FLAG_IS_OUT = \<not> has_direction_input c, FLAG_RESERVED = False\<rparr>
      else ds ! i)"
  by (induction "is" arbitrary: ds) (auto simp: attach_chip_def nth_list_update)

lemma attach_inv:
  assumes inv: "gpio_inv s" and fit: "chip_fits c" and free: "\<forall>i \<in> set (chip_range c). chip_at s i = None"
    and s': "s' = s\<lparr>descs := fold (attach_chip c) (chip_range c) (descs s)\<rparr>"
  shows "gpio_inv s'" and "requested s' = requested s"
    and "i < ARCH_NR_GPIOS \<Longrightarrow> chip_at s' i = (if i \<in> set (chip_range c) then Some c else chip_at s i)"
proof -
  note len = gpio_inv_parts(1) [OF inv] and lay = gpio_inv_parts(4) [OF inv]
  have at: "chip_at s' i = (if i \<in> set (chip_range c) then Some c else chip_at s i)" if "i < ARCH_NR_GPIOS" for i
    using that len by (simp add: s' chip_at_def attach_fold)
  then show "i < ARCH_NR_GPIOS \<Longrightarrow> chip_at s' i = (if i \<in> set (chip_range c) then Some c else chip_at s i)" .
  have sub: "i \<in> set (chip_range c) \<Longrightarrow> i < ARCH_NR_GPIOS" if "chip_fits c" for i c
    using that by (auto simp: chip_range_def chip_fits_def)
  have out: "i \<notin> set (chip_range c)" if "i \<in> requested s" for i
    using gpio_inv_parts(2) [OF inv that] free by auto
  show req: "requested s' = requested s"
    using out len by (auto simp: requested_def s' attach_fold split: if_splits)
  have "chip_layout (chip_at s')"
    unfolding chip_layout_def
  proof (intro allI impI)
    fix i d assume i: "i < ARCH_NR_GPIOS" and d: "chip_at s' i = Some d"
    show "chip_fits d \<and> i \<in> set (chip_range d) \<and> (\<forall>j \<in> set (chip_range d). chip_at s' j = Some d)"
    proof (cases "i \<in> set (chip_range c)")
      case True
      with i d have "d = c" by (simp add: at)
      with True fit show ?thesis by (auto simp: at sub)
    next
      case False
      with i d have d': "chip_at s i = Some d" by (simp add: at)
      note l = chip_layoutD [OF lay i d']
      have "j \<notin> set (chip_range c)" if "j \<in> set (chip_range d)" for j using free l(3) [OF that] by auto
      with l show ?thesis by (auto simp: at sub)
    qed
  qed
  moreover have "owned_by s' k = owned_by s k" for k
    using out by (auto simp: owned_by_def req at requested_less)
  ultimately show "gpio_inv s'"
    using inv req out by (auto simp: gpio_inv_def at requested_less) (simp_all add: s' attach_fold)
qed

lemma gpiochip_add_inv:
  assumes inv: "gpio_inv s" and add: "gpiochip_add export chip s = (r, c, s')"
  shows "gpio_inv s'" and "requested s' = requested s"
    and "s' = s \<or> (s' = s\<lparr>descs := fold (attach_chip c) (chip_range c) (descs s)\<rparr> \<and> r = export \<and>
           chip_fits c \<and> (\<forall>i \<in> set (chip_range c). chip_at s i = None))"
proof -
  show *: "s' = s \<or> (s' = s\<lparr>descs := fold (attach_chip c) (chip_range c) (descs s)\<rparr> \<and> r = export \<and>
           chip_fits c \<and> (\<forall>i \<in> set (chip_range c). chip_at s i = None))"
  proof (cases "base chip < 0")
    case True
    show ?thesis
    proof (cases "0 \<le> gpiochip_find_base s (ngpio chip)")
      case found: True
      from find_base_window [OF found] have "chip_fits (chip\<lparr>base := gpiochip_find_base s (ngpio chip)\<rparr>)"
        using found by (simp add: window_def chip_fits_def) linarith
      with found True add show ?thesis
        by (auto simp: gpiochip_add_def Let_def chip_at_def split: if_splits)
    qed (use add True in \<open>auto simp: gpiochip_add_def Let_def split: if_splits\<close>)
  next
    case False
    with add show ?thesis
      by (auto simp: gpiochip_add_def Let_def chip_at_def chip_fits_def gpio_is_valid_def split: if_splits)
  qed
  then show "gpio_inv s'" "requested s' = requested s"
    using inv attach_inv(1,2) [OF inv] by blast+
qed

definition registered :: "gpio_chip \<Rightarrow> gpio_state \<Rightarrow> bool" where
  "registered c s \<longleftrightarrow> (\<exists>i < ARCH_NR_GPIOS. chip_at s i = Some c)"

lemma detach_fold:
  "length (fold (\<lambda>i ds. ds[i := (ds ! i)\<lparr>d_chip := None\<rparr>]) is ds) = length ds"
  "i < length ds \<Longrightarrow> fold (\<lambda>i ds. ds[i := (ds ! i)\<lparr>d_chip := None\<rparr>]) is ds ! i =
     (if i \<in> set is then (ds ! i)\<lparr>d_chip := None\<rparr> else ds ! i)"
  by (induction "is" arbitrary: ds) (auto simp: nth_list_update intro: list_update_field)

lemma gpiochip_remove_inv:
  assumes inv: "gpio_inv s" and reg: "registered c s" and rem: "gpiochip_remove c s = (r, s')"
  shows "gpio_inv s'" and "requested s' = requested s"
    and "r = 0 \<Longrightarrow> \<not> registered c s' \<and> set (chip_range c) \<inter> requested s = {}"
    and "r \<noteq> 0 \<Longrightarrow> r = -EBUSY \<and> s' = s \<and> set (chip_range c) \<inter> requested s \<noteq> {}"
proof -
  note len = gpio_inv_parts(1) [OF inv] and lay = gpio_inv_parts(4) [OF inv]
  obtain k where k: "k < ARCH_NR_GPIOS" "chip_at s k = Some c" using reg by (auto simp: registered_def)
  note l = chip_layoutD [OF lay k]
  have sub: "i < ARCH_NR_GPIOS" if "i \<in> set (chip_range c)" for i
    using that l(1) by (auto simp: chip_range_def chip_fits_def)
  have "(if set (chip_range c) \<inter> requested s \<noteq> {} then r = -EBUSY \<and> s' = s
      else r = 0 \<and> gpio_inv s' \<and> requested s' = requested s \<and> \<not> registered c s')"
  proof (cases "set (chip_range c) \<inter> requested s = {}")
    case True
    then have s': "s' = s\<lparr>descs := fold (\<lambda>i ds. ds[i := (ds ! i)\<lparr>d_chip := None\<rparr>]) (chip_range c) (descs s)\<rparr>" "r = 0"
      using rem sub by (auto simp: gpiochip_remove_def requested_def split: if_splits)
    have at: "chip_at s' i = (if i \<in> set (chip_range c) then None else chip_at s i)" if "i < ARCH_NR_GPIOS" for i
      using that len by (simp add: s' chip_at_def detach_fold)
    have req: "requested s' = requested s"
      using len by (auto simp: requested_def s' detach_fold split: if_splits)
    have "chip_layout (chip_at s')" unfolding chip_layout_def
    proof (intro allI impI)
      fix i d assume i: "i < ARCH_NR_GPIOS" and "chip_at s' i = Some d"
      then have d: "chip_at s i = Some d" and out: "i \<notin> set (chip_range c)" by (auto simp: at split: if_splits)
      note m = chip_layoutD [OF lay i d]
      have "chip_at s' j = Some d" if j: "j \<in> set (chip_range d)" for j
      proof -
        have "j \<notin> set (chip_range c)" using l(3) [of j] m(2) m(3) [OF j] out by auto
        moreover have "j < ARCH_NR_GPIOS" using j m(1) by (auto simp: chip_range_def chip_fits_def)
        ultimately show ?thesis using m(3) [OF j] by (simp add: at)
      qed
      with m show "chip_fits d \<and> i \<in> set (chip_range d) \<and> (\<forall>j \<in> set (chip_range d). chip_at s' j = Some d)" by blast
    qed
    moreover have "owned_by s' k = owned_by s k" for k
      using True by (auto simp: owned_by_def req at requested_less split: if_splits)
    moreover have "chip_at s' i \<noteq> None" if "i \<in> requested s" for i
      using gpio_inv_parts(2) [OF inv that] True that requested_less [OF that] by (auto simp: at)
    ultimately have "gpio_inv s'"
      using inv req by (simp add: gpio_inv_def) (simp add: s' detach_fold)
    moreover have "\<not> registered c s'"
      using chip_layoutD(2) [OF lay] by (auto simp: registered_def at split: if_splits)
    ultimately show ?thesis using True req s'(2) by simp
  next
    case False
    then show ?thesis using rem by (auto simp: gpiochip_remove_def requested_def split: if_splits)
  qed
  then show "gpio_inv s'" "requested s' = requested s"
    "r = 0 \<Longrightarrow> \<not> registered c s' \<and> set (chip_range c) \<inter> requested s = {}"
    "r \<noteq> 0 \<Longrightarrow> r = -EBUSY \<and> s' = s \<and> set (chip_range c) \<inter> requested s \<noteq> {}"
    using inv by (auto simp: errno_defs split: if_splits)
qed

section \<open>Direction calls\<close>

lemma set_is_out_simps [simp]:
  "chip_at (set_is_out b gpio s) = chip_at s" "requested (set_is_out b gpio s) = requested s"
  "mod_refs (set_is_out b gpio s) = mod_refs s" "length (descs (set_is_out b gpio s)) = length (descs s)"
  by (simp_all add: set_is_out_def chip_at_def requested_def fun_eq_iff list_update_field [where f = d_chip]
        list_update_field [where f = FLAG_REQUESTED])

lemma set_is_out_inv: "gpio_inv s \<Longrightarrow> gpio_inv (set_is_out b gpio s)"
  by (rule gpio_inv_same) simp_all

text \<open>
  A direction call that gets as far as the chip leaves the pin requested, taken
  over by \<open>gpio_ensure_requested\<close> when nobody had requested it.
\<close>

lemma gpio_direction_inv:
  assumes inv: "gpio_inv s" and dir: "gpio_direction env hooks hw out gpio s = (r, s')"
  shows "gpio_inv s'" and "requested s \<subseteq> requested s'" and "requested s' \<subseteq> insert gpio (requested s)"
    and "chip_at s' = chip_at s"
proof -
  let ?ok = "\<lambda>t. gpio_inv t \<and> requested s \<subseteq> requested t \<and> requested t \<subseteq> insert gpio (requested s) \<and> chip_at t = chip_at s"
  have out: "?ok (set_is_out b gpio t)" if "?ok t" for b t using that by (simp add: set_is_out_inv)
  have "?ok (snd (gpio_ensure_requested env c gpio s))" if g: "gpio < ARCH_NR_GPIOS" and c: "chip_at s gpio = Some c" for c
  proof (cases "gpio \<in> requested s \<or> \<not> module_ok env")
    case True
    then show ?thesis using inv g by (auto simp: gpio_ensure_requested_def requested_def)
  next
    case False
    have "module_get c (set_requested True gpio s) = set_requested True gpio (module_get c s)"
      by (simp add: module_get_def set_requested_def)
    moreover have "\<not> FLAG_REQUESTED (descs s ! gpio)" using False g by (simp add: requested_def)
    moreover have "length (descs (module_get c s)) = ARCH_NR_GPIOS" using inv by (simp add: gpio_inv_parts)
    ultimately show ?thesis
      using take_pin_inv [OF inv g c] set_requested_simps(2) [of "module_get c s" gpio] g False
      by (auto simp: gpio_ensure_requested_def)
  qed
  then have "?ok s'"
    using dir inv out by (fastforce simp: gpio_direction_def gpio_valid_nat chip_at_def split: if_splits option.splits prod.splits)
  then show "gpio_inv s'" "requested s \<subseteq> requested s'" "requested s' \<subseteq> insert gpio (requested s)"
    "chip_at s' = chip_at s" by blast+
qed

section \<open>Sequences of calls\<close>

datatype gpio_op =
    Reserve int int
  | Add int gpio_chip
  | Remove gpio_chip
  | Request gpio_env nat
  | Free nat
  | Direction_input gpio_env nat
  | Direction_output gpio_env nat int

text \<open>
  One call; a chip is removed by the code that registered it, so
  \<open>gpiochip_remove\<close> is called for a chip that is in the table.
\<close>

inductive gpio_step :: "gpio_state \<Rightarrow> gpio_op \<Rightarrow> gpio_state \<Rightarrow> bool" where
  reserve: "gpiochip_reserve start n s = (r, s') \<Longrightarrow> gpio_step s (Reserve start n) s'"
| add: "gpiochip_add export chip s = (r, c, s') \<Longrightarrow> gpio_step s (Add export chip) s'"
| remove: "registered chip s \<Longrightarrow> gpiochip_remove chip s = (r, s') \<Longrightarrow> gpio_step s (Remove chip) s'"
| request: "gpio_request env gpio s = (r, s') \<Longrightarrow> gpio_step s (Request env gpio) s'"
| free: "s' = gpio_free gpio s \<Longrightarrow> gpio_step s (Free gpio) s'"
| dir_in: "gpio_direction_input env gpio s = (r, s') \<Longrightarrow> gpio_step s (Direction_input env gpio) s'"
| dir_out: "gpio_direction_output env gpio value s = (r, s') \<Longrightarrow> gpio_step s (Direction_output env gpio value) s'"

inductive gpio_trace :: "gpio_state \<Rightarrow> gpio_op list \<Rightarrow> gpio_state \<Rightarrow> bool" where
  nil: "gpio_trace s [] s"
| snoc: "gpio_trace s ops s' \<Longrightarrow> gpio_step s' a s'' \<Longrightarrow> gpio_trace s (ops @ [a]) s''"

definition gpio_init :: gpio_state where
  "gpio_init = \<lparr>descs = replicate ARCH_NR_GPIOS
      \<lparr>d_chip = None, FLAG_REQUESTED = False, FLAG_IS_OUT = False, FLAG_RESERVED = False\<rparr>, mod_refs = \<lambda>_. 0\<rparr>"

lemma gpio_step_inv:
  assumes "gpio_inv s" and "gpio_step s a s'"
  shows "gpio_inv s'" and "g \<in> requested s \<Longrightarrow> a \<noteq> Free g \<Longrightarrow> g \<in> requested s'"
proof -
  from assms(2,1) have "gpio_inv s' \<and> (g \<in> requested s \<longrightarrow> a \<noteq> Free g \<longrightarrow> g \<in> requested s')"
  proof (induction rule: gpio_step.induct)
    case (reserve start n s r s')
    with gpiochip_reserve_inv [of s start n r s'] show ?case by simp
  next
    case (add export chip s r c s')
    with gpiochip_add_inv(1,2) [of s export chip r c s'] show ?case by simp
  next
    case (remove chip s r s')
    with gpiochip_remove_inv(1,2) [of s chip r s'] show ?case by simp
  next
    case (request env gpio s r s')
    with pins.request_inv [of s env gpio r s'] pins.held_mono [of s env gpio r s'] show ?case by blast
  next
    case (free s' gpio s)
    with gpio_free_facts [of s gpio] show ?case by simp
  next
    case (dir_in env gpio s r s')
    with gpio_direction_inv [of s env _ _ _ gpio r s'] show ?case unfolding gpio_direction_input_def by blast
  next
    case (dir_out env gpio v s r s')
    with gpio_direction_inv [of s env _ _ _ gpio r s'] show ?case unfolding gpio_direction_output_def by blast
  qed
  then show "gpio_inv s'" "g \<in> requested s \<Longrightarrow> a \<noteq> Free g \<Longrightarrow> g \<in> requested s'" by blast+
qed

lemma gpio_trace_inv:
  assumes "gpio_trace s ops s'" and "gpio_inv s"
  shows "gpio_inv s'" and "g \<in> requested s \<Longrightarrow> Free g \<notin> set ops \<Longrightarrow> g \<in> requested s'"
  using assms by (induction rule: gpio_trace.induct) (auto dest: gpio_step_inv)

lemma gpio_init_inv: "gpio_inv gpio_init"
  by (auto simp: gpio_inv_def gpio_init_def requested_def owned_by_def chip_layout_def chip_at_def)

text \<open>
  C13: After any sequence of gpiolib calls from the empty table every requested
  pin has a chip, every chip fills exactly its own range of the table, and the
  references held on a chip's module are its requested pins.
\<close>

theorem gpio_reachable_inv: "gpio_trace gpio_init ops s \<Longrightarrow> gpio_inv s"
  by (rule gpio_trace_inv(1) [OF _ gpio_init_inv])

definition soc_chip :: gpio_chip where
  "soc_chip = \<lparr>chip_id = 1, base = 32, ngpio = 32, has_request = True, has_free = True, has_direction_input = True,
     has_get = True, has_direction_output = True, has_set = True\<rparr>"

definition ok_env :: gpio_env where
  "ok_env = \<lparr>module_ok = True, req_status = 0, dir_in = 0, dir_out = \<lambda>_. 0, get_value = 0\<rparr>"

definition soc_table :: gpio_state where
  "soc_table = snd (snd (gpiochip_add 0 soc_chip gpio_init))"

lemma soc_table_trace: "gpio_trace gpio_init [Add 0 soc_chip] soc_table"
  by (metis append_Nil gpio_step.add gpio_trace.nil gpio_trace.snoc prod.collapse soc_table_def)

theorem gpio_reachable_inv_witness: "gpio_inv soc_table"
  by (rule gpio_reachable_inv [OF soc_table_trace])

theorem find_base_correct_witness:
  "gpio_inv gpio_init \<and> (if \<exists>j. window (descs gpio_init) 16 j
     then 0 \<le> gpiochip_find_base gpio_init 16 \<and> window (descs gpio_init) 16 (nat (gpiochip_find_base gpio_init 16))
     else gpiochip_find_base gpio_init 16 = -ENOSPC)"
  using find_base_correct [OF gpio_init_inv, of 16] gpio_init_inv by simp

text \<open>
  C12: From a successful \<open>gpio_request\<close> until the pin is freed, whatever other
  gpiolib calls run, every further request for the pin fails without effect and
  the pin's chip cannot be unregistered.
\<close>

theorem gpio_ownership_exclusive:
  assumes "gpio_trace gpio_init ops s" and "gpio_request env g s = (r, s1)" and "0 \<le> r"
    and "gpio_trace s1 ops' s2" and "Free g \<notin> set ops'"
  shows "fst (gpio_request env' g s2) < 0 \<and> snd (gpio_request env' g s2) = s2 \<and>
         (\<exists>c. chip_at s2 g = Some c \<and> gpiochip_remove c s2 = (-EBUSY, s2))"
proof -
  have inv: "gpio_inv s" using gpio_trace_inv(1) assms(1) gpio_init_inv .
  have inv1: "gpio_inv s1" and g: "g \<in> requested s1"
    using pins.request_inv [OF inv assms(2)] pins.request_ok [OF inv assms(2,3)] by auto
  have inv2: "gpio_inv s2" and g2: "g \<in> requested s2"
    using gpio_trace_inv [OF assms(4) inv1] g assms(5) by auto
  obtain c where c: "chip_at s2 g = Some c" using gpio_inv_parts(2) [OF inv2 g2] by auto
  have "registered c s2" using c requested_less [OF g2] by (auto simp: registered_def)
  moreover have "g \<in> set (chip_range c)" using chip_layoutD(2) [OF gpio_inv_parts(4) [OF inv2] requested_less [OF g2] c] .
  ultimately have "gpiochip_remove c s2 = (-EBUSY, s2)"
    using gpiochip_remove_inv(3,4) [OF inv2, of c "fst (gpiochip_remove c s2)" "snd (gpiochip_remove c s2)"] g2
    by (metis IntI empty_iff prod.collapse)
  then show ?thesis using c pins.held_not_granted [OF inv2 _ g2, of env'] by (metis prod.collapse)
qed

lemma soc_request: "fst (gpio_request ok_env 40 soc_table) = 0"
  by code_simp

theorem gpio_ownership_exclusive_witness:
  "fst (gpio_request ok_env 40 soc_table) = 0 \<and>
   fst (gpio_request ok_env 40 (snd (gpio_request ok_env 40 soc_table))) < 0"
proof -
  have "gpio_request ok_env 40 soc_table = (0, snd (gpio_request ok_env 40 soc_table))"
    using soc_request by (metis prod.collapse)
  from gpio_ownership_exclusive [OF soc_table_trace this _ gpio_trace.nil] soc_request show ?thesis by simp
qed

end
