(* ===== verification/Gpio2.thy ===== *)
theory Gpio2
  imports Gpiolib
begin

text \<open>
  drivers/parrot/char/gpio2.c, the character device through which the flight
  software reaches the pins.  The state has one \<open>gpio_info\<close> per open file, the
  gpiolib table, the interrupt handlers that are registered and the calls that
  chips receive.  The operations of this theory are calls that run without
  interruption; Gpio2_Conc splits the interrupt commands into the steps between
  which other calls and interrupts can run.  \<open>gpio_to_irq\<close> is platform code and a parameter; so are the
  outcomes of \<open>kzalloc\<close>, of copies from and to user memory and of
  \<open>request_irq\<close>.  \<open>GPIO_IRQ_WAIT\<close> blocks: \<open>Blocked\<close> means that the
  caller sleeps and the state is unchanged.  Reading or writing a pin that has no
  chip is \<open>Fault\<close>.
\<close>

section \<open>Data\<close>

text \<open>
  \<open>completed\<close> is the counter \<open>done\<close> of the completion, an \<open>unsigned int\<close>
  that \<open>complete\<close> increments without a check.
\<close>

record gpio_info =
  irq_pin :: int
  completed :: u32

text \<open>
  Open files are numbered; the number stands for the address of the
  \<open>gpio_info\<close>, which is the cookie of the interrupt handler.
\<close>

record gpio2_state =
  files :: "nat \<rightharpoonup> gpio_info"
  table :: gpio_state
  handlers :: "(int \<times> nat) set"
  chip_calls :: "(nat \<times> int \<times> int) list"

record gpio2_env =
  pins_env :: gpio_env
  irq_status :: int
  copy_out_ok :: bool
  signal_pending :: bool

text \<open>The argument of a command; \<open>None\<close> is a failing \<open>copy_from_user\<close>.\<close>

datatype gpio_cmd =
    GPIO_DIRECTION "(int \<times> int) option"
  | GPIO_READ "(int \<times> int) option"
  | GPIO_WRITE "(int \<times> int) option"
  | GPIO_IRQ_INIT "(int \<times> int) option"
  | GPIO_IRQ_FREE "(int \<times> int) option"
  | GPIO_IRQ_WAIT "(int \<times> int) option"
  | Other_cmd

text \<open>\<open>Done ret out s\<close>: the call returns \<open>ret\<close>; \<open>out\<close> is what it copied to the caller.\<close>

datatype outcome = Done int "int option" gpio2_state | Blocked | Fault

text \<open>Conversion of an \<open>int\<close> pin to the \<open>unsigned\<close> parameter of gpiolib.\<close>

definition pin_number :: "int \<Rightarrow> nat" where
  "pin_number pin = nat (pin mod 2 ^ 32)"

section \<open>Operations\<close>

text \<open>The handler dereferences its cookie; \<open>None\<close> is a use of freed memory.\<close>

definition gpio_handler :: "nat \<Rightarrow> gpio2_state \<Rightarrow> gpio2_state option" where
  "gpio_handler fd s =
     (case files s fd of
        None \<Rightarrow> None
      | Some info \<Rightarrow> Some (s\<lparr>files := (files s)(fd \<mapsto> info\<lparr>completed := completed info + 1\<rparr>)\<rparr>))"

definition gpio_open :: "bool \<Rightarrow> nat \<Rightarrow> gpio2_state \<Rightarrow> int \<times> gpio2_state" where
  "gpio_open alloc_ok fd s =
     (if \<not> alloc_ok then (-ENOMEM, s) else (0, s\<lparr>files := (files s)(fd \<mapsto> \<lparr>irq_pin = 0, completed = 0\<rparr>)\<rparr>))"

text \<open>\<open>free_irq\<close> and \<open>gpio_free\<close> of one pin, as \<open>gpio_release\<close> and \<open>GPIO_IRQ_FREE\<close> call them.\<close>

definition irq_free :: "(int \<Rightarrow> int) \<Rightarrow> nat \<Rightarrow> int \<Rightarrow> gpio2_state \<Rightarrow> gpio2_state" where
  "irq_free to_irq fd pin s =
     s\<lparr>handlers := handlers s - {(to_irq pin, fd)}, table := gpio_free (pin_number pin) (table s)\<rparr>"

definition gpio_release :: "(int \<Rightarrow> int) \<Rightarrow> nat \<Rightarrow> gpio2_state \<Rightarrow> int \<times> gpio2_state" where
  "gpio_release to_irq fd s =
     (case files s fd of
        None \<Rightarrow> (0, s)
      | Some info \<Rightarrow>
          let s1 = (if irq_pin info \<noteq> 0 then irq_free to_irq fd (irq_pin info) s else s)
          in (0, s1\<lparr>files := (files s1)(fd := None)\<rparr>))"

definition ioctl_direction :: "gpio2_env \<Rightarrow> (int \<times> int) option \<Rightarrow> gpio2_state \<Rightarrow> outcome" where
  "ioctl_direction env arg s =
     (case arg of
        None \<Rightarrow> Done (-EFAULT) None s
      | Some (pin, mode) \<Rightarrow>
          let gpio = pin_number pin;
              (ret, t) = (if mode = 0 then gpio_direction_input (pins_env env) gpio (table s)
                          else if mode = 1 then gpio_direction_output (pins_env env) gpio 0 (table s)
                          else if mode = 2 then gpio_direction_output (pins_env env) gpio 1 (table s)
                          else (0, table s))
          in Done ret None (s\<lparr>table := t\<rparr>))"

definition ioctl_read :: "gpio2_env \<Rightarrow> (int \<times> int) option \<Rightarrow> gpio2_state \<Rightarrow> outcome" where
  "ioctl_read env arg s =
     (case arg of
        None \<Rightarrow> Done (-EFAULT) None s
      | Some (pin, _) \<Rightarrow>
          case gpio_get_value (pins_env env) (pin_number pin) (table s) of
            None \<Rightarrow> Fault
          | Some v \<Rightarrow> if copy_out_ok env then Done 0 (Some v) s else Done (-EFAULT) None s)"

definition ioctl_write :: "(int \<times> int) option \<Rightarrow> gpio2_state \<Rightarrow> outcome" where
  "ioctl_write arg s =
     (case arg of
        None \<Rightarrow> Done (-EFAULT) None s
      | Some (pin, v) \<Rightarrow>
          case gpio_set_value (pin_number pin) v (table s) of
            None \<Rightarrow> Fault
          | Some call \<Rightarrow> Done 0 None (s\<lparr>chip_calls := chip_calls s @ [call]\<rparr>))"

text \<open>
  Modes 0, 1 and 2 are the edge triggers; the level triggers 3 and 4 are refused
  like every other number.
\<close>

definition ioctl_irq_init :: "(int \<Rightarrow> int) \<Rightarrow> gpio2_env \<Rightarrow> nat \<Rightarrow> gpio_info \<Rightarrow> (int \<times> int) option \<Rightarrow> gpio2_state \<Rightarrow> outcome" where
  "ioctl_irq_init to_irq env fd info arg s =
     (if irq_pin info \<noteq> 0 then Done (-EBUSY) None s
      else case arg of
        None \<Rightarrow> Done (-EFAULT) None s
      | Some (pin, mode) \<Rightarrow>
          if mode < 0 \<or> mode > 4 then Done (-EINVAL) None s
          else if mode \<notin> {0, 1, 2} then Done (-EINVAL) None s
          else case gpio_request (pins_env env) (pin_number pin) (table s) of (r, t) \<Rightarrow>
            if r \<noteq> 0 then Done (-EBUSY) None (s\<lparr>table := t\<rparr>)
            else if irq_status env \<noteq> 0 then Done (-EBUSY) None (s\<lparr>table := gpio_free (pin_number pin) t\<rparr>)
            else Done 0 None (s\<lparr>table := t, handlers := insert (to_irq pin, fd) (handlers s),
                               files := (files s)(fd \<mapsto> \<lparr>irq_pin = pin, completed = 0\<rparr>)\<rparr>))"

definition ioctl_irq_free :: "(int \<Rightarrow> int) \<Rightarrow> nat \<Rightarrow> gpio_info \<Rightarrow> (int \<times> int) option \<Rightarrow> gpio2_state \<Rightarrow> outcome" where
  "ioctl_irq_free to_irq fd info arg s =
     (case arg of
        None \<Rightarrow> Done (-EFAULT) None s
      | Some (pin, _) \<Rightarrow>
          if irq_pin info = 0 \<or> irq_pin info \<noteq> pin then Done (-EBUSY) None s
          else Done 0 None ((irq_free to_irq fd pin s)\<lparr>files := (files s)(fd \<mapsto> info\<lparr>irq_pin := 0\<rparr>)\<rparr>))"

text \<open>The result of \<open>wait_for_completion_interruptible\<close> is not used: an interrupted wait returns 0 too.\<close>

definition ioctl_irq_wait :: "gpio2_env \<Rightarrow> nat \<Rightarrow> gpio_info \<Rightarrow> (int \<times> int) option \<Rightarrow> gpio2_state \<Rightarrow> outcome" where
  "ioctl_irq_wait env fd info arg s =
     (case arg of
        None \<Rightarrow> Done (-EFAULT) None s
      | Some (pin, _) \<Rightarrow>
          if irq_pin info = 0 \<or> irq_pin info \<noteq> pin then Done (-EBUSY) None s
          else if completed info = 0 \<and> \<not> signal_pending env then Blocked
          else Done 0 None (s\<lparr>files := (files s)(fd \<mapsto> info\<lparr>completed := 0\<rparr>)\<rparr>))"

definition gpio_ioctl :: "(int \<Rightarrow> int) \<Rightarrow> gpio2_env \<Rightarrow> nat \<Rightarrow> gpio_info \<Rightarrow> gpio_cmd \<Rightarrow> gpio2_state \<Rightarrow> outcome" where
  "gpio_ioctl to_irq env fd info cmd s =
     (case cmd of
        GPIO_DIRECTION arg \<Rightarrow> ioctl_direction env arg s
      | GPIO_READ arg \<Rightarrow> ioctl_read env arg s
      | GPIO_WRITE arg \<Rightarrow> ioctl_write arg s
      | GPIO_IRQ_INIT arg \<Rightarrow> ioctl_irq_init to_irq env fd info arg s
      | GPIO_IRQ_FREE arg \<Rightarrow> ioctl_irq_free to_irq fd info arg s
      | GPIO_IRQ_WAIT arg \<Rightarrow> ioctl_irq_wait env fd info arg s
      | Other_cmd \<Rightarrow> Done (-ENOTTY) None s)"

text \<open>Module and device registration; \<open>reg\<close> is what \<open>misc_register\<close> returns.\<close>

definition gpio_probe :: "int \<Rightarrow> int" where
  "gpio_probe reg = (if reg < 0 then reg else 0)"

section \<open>Properties of single calls\<close>

text \<open>The commands that are one call of gpiolib leave files, handlers and requested pins alone.\<close>

lemma ioctl_direction_facts:
  assumes inv: "gpio_inv (table s)" and d: "ioctl_direction env arg s = Done r out s'"
  shows "gpio_inv (table s') \<and> requested (table s) \<subseteq> requested (table s') \<and> files s' = files s \<and> handlers s' = handlers s"
proof (cases arg)
  case None
  with d inv show ?thesis by (auto simp: ioctl_direction_def)
next
  case (Some a)
  obtain pin mode where a: "a = (pin, mode)" by force
  let ?g = "pin_number pin"
  consider (hw) hooks hw b where "gpio_direction (pins_env env) hooks hw b ?g (table s) = (r, table s')" "s' = s\<lparr>table := table s'\<rparr>"
    | (nop) "s' = s"
    using d by (auto simp: ioctl_direction_def Let_def Some a gpio_direction_input_def gpio_direction_output_def split: if_splits prod.splits)
  then show ?thesis
  proof cases
    case hw
    have "files s' = files s" "handlers s' = handlers s" by (subst hw(2); simp)+
    with gpio_direction_inv(1,2) [OF inv hw(1)] show ?thesis by simp
  next
    case nop
    with inv show ?thesis by simp
  qed
qed

definition pin_cmd :: "gpio_cmd \<Rightarrow> bool" where
  "pin_cmd cmd \<longleftrightarrow> (case cmd of GPIO_IRQ_INIT _ \<Rightarrow> False | GPIO_IRQ_FREE _ \<Rightarrow> False | GPIO_IRQ_WAIT _ \<Rightarrow> False | _ \<Rightarrow> True)"

lemma pin_cmd_facts:
  assumes inv: "gpio_inv (table s)" and p: "pin_cmd cmd" and d: "gpio_ioctl to_irq env fd info cmd s = Done r out s'"
  shows "gpio_inv (table s') \<and> requested (table s) \<subseteq> requested (table s') \<and> files s' = files s \<and> handlers s' = handlers s"
proof (cases "\<exists>a. cmd = GPIO_DIRECTION a")
  case True
  then obtain a where "cmd = GPIO_DIRECTION a" by blast
  with d ioctl_direction_facts [OF inv, of env a r out s'] show ?thesis by (simp add: gpio_ioctl_def)
next
  case False
  with d inv p show ?thesis
    by (auto simp: pin_cmd_def gpio_ioctl_def ioctl_read_def ioctl_write_def split: gpio_cmd.splits option.splits if_splits)
qed

text \<open>
  C18: A command faults exactly when it reads or writes a pin for which the
  table has no chip (or, for a write, no set hook); pin numbers are taken from the
  caller unchecked.
\<close>

theorem gpio_ioctl_fault_iff:
  "gpio_ioctl to_irq env fd info cmd s = Fault \<longleftrightarrow>
     (\<exists>pin v. (cmd = GPIO_READ (Some (pin, v)) \<and> gpio_to_chip (pin_number pin) (table s) = None) \<or>
              (cmd = GPIO_WRITE (Some (pin, v)) \<and>
                (case gpio_to_chip (pin_number pin) (table s) of None \<Rightarrow> True | Some c \<Rightarrow> \<not> has_set c)))"
  by (cases cmd)
     (auto simp: gpio_ioctl_def ioctl_direction_def ioctl_read_def ioctl_write_def ioctl_irq_init_def ioctl_irq_free_def
        ioctl_irq_wait_def gpio_get_value_def gpio_set_value_def Let_def split: option.splits if_splits prod.splits)

end
