(* ===== verification/Gpio2_Conc.thy ===== *)
theory Gpio2_Conc
  imports Gpio2
begin

text \<open>
  drivers/parrot/char/gpio2.c with its calls in progress.  The interrupt commands
  sleep (in \<open>copy_from_user\<close>, \<open>request_irq\<close>, \<open>free_irq\<close> and in the wait), the
  driver takes no lock (\<open>XXX need a mutex\<close>, line 153) and interrupts arrive at any
  time.  So a command is a sequence of steps, one per access to the shared
  state, and between two steps of a call the handler, other calls, also on the
  same file, and other drivers run.  \<open>call_enter\<close> and \<open>call_step\<close> are the
  steps; run without interruption they compute \<open>gpio_ioctl\<close>
  (\<open>ioctl_runs_alone\<close>).  The safety properties hold when the calls on one file
  do not overlap, with interrupts at every point; lemmas at the end show what
  happens when they do overlap, and which interrupts are lost.
\<close>

section \<open>Calls in progress\<close>

text \<open>
  Where a call stands, named after what it did last: in \<open>Init_copy\<close> it has seen
  that the file has no pin and copies its argument, in \<open>Init_registered\<close>
  \<open>request_irq\<close> has returned, in \<open>Init_stored\<close> \<open>irq_pin\<close> is assigned, and so on.
\<close>

datatype phase =
    Init_copy "(int \<times> int) option"
  | Init_requested int
  | Init_registered int
  | Init_stored
  | Free_copy "(int \<times> int) option"
  | Free_unregistered int
  | Free_returned
  | Wait_copy "(int \<times> int) option"
  | Wait_sleep
  | Wait_woken

text \<open>
  \<open>linked\<close> has the files whose completion has been initialised since they were
  opened: \<open>kzalloc\<close> leaves a wait queue of null pointers, which \<open>complete\<close> and a
  sleeping wait follow.
\<close>

record gpio2_conc =
  drv :: gpio2_state
  linked :: "nat set"
  calls :: "nat \<Rightarrow> phase list"

datatype progress = Goes phase gpio2_conc | Returns int gpio2_conc | Sleeps | Crashes

definition set_table :: "gpio_state \<Rightarrow> gpio2_conc \<Rightarrow> gpio2_conc" where
  "set_table t s = s\<lparr>drv := (drv s)\<lparr>table := t\<rparr>\<rparr>"

definition set_handlers :: "(int \<times> nat) set \<Rightarrow> gpio2_conc \<Rightarrow> gpio2_conc" where
  "set_handlers h s = s\<lparr>drv := (drv s)\<lparr>handlers := h\<rparr>\<rparr>"

definition set_info :: "nat \<Rightarrow> gpio_info \<Rightarrow> gpio2_conc \<Rightarrow> gpio2_conc" where
  "set_info fd info s = s\<lparr>drv := (drv s)\<lparr>files := (files (drv s))(fd \<mapsto> info)\<rparr>\<rparr>"

definition init_completion :: "nat \<Rightarrow> gpio_info \<Rightarrow> gpio2_conc \<Rightarrow> gpio2_conc" where
  "init_completion fd info s = (set_info fd (info\<lparr>completed := 0\<rparr>) s)\<lparr>linked := insert fd (linked s)\<rparr>"

text \<open>The handler: \<open>complete\<close> walks the wait queue.\<close>

definition conc_handler :: "nat \<Rightarrow> gpio2_conc \<Rightarrow> gpio2_conc option" where
  "conc_handler fd s =
     (if fd \<notin> linked s then None else map_option (\<lambda>d. s\<lparr>drv := d\<rparr>) (gpio_handler fd (drv s)))"

text \<open>A call up to its first sleep; the commands on pins are one call of gpiolib and return at once.\<close>

definition call_enter :: "(int \<Rightarrow> int) \<Rightarrow> gpio2_env \<Rightarrow> nat \<Rightarrow> gpio_cmd \<Rightarrow> gpio2_conc \<Rightarrow> progress" where
  "call_enter to_irq env fd cmd s =
     (case files (drv s) fd of
        None \<Rightarrow> Crashes
      | Some info \<Rightarrow>
          (case cmd of
             GPIO_IRQ_INIT arg \<Rightarrow> if irq_pin info \<noteq> 0 then Returns (-EBUSY) s else Goes (Init_copy arg) s
           | GPIO_IRQ_FREE arg \<Rightarrow> Goes (Free_copy arg) s
           | GPIO_IRQ_WAIT arg \<Rightarrow> Goes (Wait_copy arg) s
           | _ \<Rightarrow> (case gpio_ioctl to_irq env fd info cmd (drv s) of
                     Done r out d \<Rightarrow> Returns r (s\<lparr>drv := d\<rparr>)
                   | Blocked \<Rightarrow> Sleeps
                   | Fault \<Rightarrow> Crashes)))"

definition irq_init_step :: "(int \<Rightarrow> int) \<Rightarrow> gpio2_env \<Rightarrow> nat \<Rightarrow> gpio_info \<Rightarrow> phase \<Rightarrow> gpio2_conc \<Rightarrow> progress" where
  "irq_init_step to_irq env fd info ph s =
     (case ph of
        Init_copy (Some (pin, mode)) \<Rightarrow>
          if mode < 0 \<or> mode > 4 then Returns (-EINVAL) s
          else if mode \<notin> {0, 1, 2} then Returns (-EINVAL) s
          else (case gpio_request (pins_env env) (pin_number pin) (table (drv s)) of (r, t) \<Rightarrow>
            if r \<noteq> 0 then Returns (-EBUSY) (set_table t s) else Goes (Init_requested pin) (set_table t s))
      | Init_requested pin \<Rightarrow>
          if irq_status env \<noteq> 0 then Returns (-EBUSY) (set_table (gpio_free (pin_number pin) (table (drv s))) s)
          else Goes (Init_registered pin) (set_handlers (insert (to_irq pin, fd) (handlers (drv s))) s)
      | Init_registered pin \<Rightarrow> Goes Init_stored (set_info fd (info\<lparr>irq_pin := pin\<rparr>) s)
      | Init_stored \<Rightarrow> Returns 0 (init_completion fd info s)
      | _ \<Rightarrow> Returns (-EFAULT) s)"

definition irq_free_step :: "(int \<Rightarrow> int) \<Rightarrow> nat \<Rightarrow> gpio_info \<Rightarrow> phase \<Rightarrow> gpio2_conc \<Rightarrow> progress" where
  "irq_free_step to_irq fd info ph s =
     (case ph of
        Free_copy (Some (pin, _)) \<Rightarrow>
          if irq_pin info = 0 \<or> irq_pin info \<noteq> pin then Returns (-EBUSY) s
          else Goes (Free_unregistered pin) (set_handlers (handlers (drv s) - {(to_irq pin, fd)}) s)
      | Free_unregistered pin \<Rightarrow> Goes Free_returned (set_table (gpio_free (pin_number pin) (table (drv s))) s)
      | Free_returned \<Rightarrow> Returns 0 (set_info fd (info\<lparr>irq_pin := 0\<rparr>) s)
      | _ \<Rightarrow> Returns (-EFAULT) s)"

text \<open>
  \<open>wait_for_completion_interruptible\<close> takes one completion when there is one;
  otherwise it queues itself and sleeps until \<open>complete\<close> or a signal.
\<close>

definition irq_wait_step :: "gpio2_env \<Rightarrow> nat \<Rightarrow> gpio_info \<Rightarrow> phase \<Rightarrow> gpio2_conc \<Rightarrow> progress" where
  "irq_wait_step env fd info ph s =
     (case ph of
        Wait_copy (Some (pin, _)) \<Rightarrow>
          if irq_pin info = 0 \<or> irq_pin info \<noteq> pin then Returns (-EBUSY) s else Goes Wait_sleep s
      | Wait_sleep \<Rightarrow>
          if completed info \<noteq> 0 then Goes Wait_woken (set_info fd (info\<lparr>completed := completed info - 1\<rparr>) s)
          else if fd \<notin> linked s then Crashes
          else if signal_pending env then Goes Wait_woken s
          else Sleeps
      | Wait_woken \<Rightarrow> Returns 0 (init_completion fd info s)
      | _ \<Rightarrow> Returns (-EFAULT) s)"

definition call_step :: "(int \<Rightarrow> int) \<Rightarrow> gpio2_env \<Rightarrow> nat \<Rightarrow> phase \<Rightarrow> gpio2_conc \<Rightarrow> progress" where
  "call_step to_irq env fd ph s =
     (case files (drv s) fd of
        None \<Rightarrow> Crashes
      | Some info \<Rightarrow>
          (case ph of
             Free_copy _ \<Rightarrow> irq_free_step to_irq fd info ph s
           | Free_unregistered _ \<Rightarrow> irq_free_step to_irq fd info ph s
           | Free_returned \<Rightarrow> irq_free_step to_irq fd info ph s
           | Wait_copy _ \<Rightarrow> irq_wait_step env fd info ph s
           | Wait_sleep \<Rightarrow> irq_wait_step env fd info ph s
           | Wait_woken \<Rightarrow> irq_wait_step env fd info ph s
           | _ \<Rightarrow> irq_init_step to_irq env fd info ph s))"

lemmas call_defs = call_step_def irq_init_step_def irq_free_step_def irq_wait_step_def
lemmas set_defs = set_table_def set_handlers_def set_info_def init_completion_def

section \<open>A call that is not interrupted\<close>

fun alone :: "(int \<Rightarrow> int) \<Rightarrow> gpio2_env \<Rightarrow> nat \<Rightarrow> nat \<Rightarrow> progress \<Rightarrow> progress" where
  "alone to_irq env fd (Suc n) (Goes ph s) = alone to_irq env fd n (call_step to_irq env fd ph s)"
| "alone to_irq env fd n p = p"

lemma alone_Goes: "alone to_irq env fd (Suc n) (Goes ph s) = alone to_irq env fd n (call_step to_irq env fd ph s)"
  by simp




section \<open>Runs of the driver\<close>

datatype gpio2_event =
    Open bool nat
  | Release nat
  | Enter gpio2_env nat gpio_cmd
  | Advance gpio2_env nat phase
  | Interrupt int nat
  | Elsewhere gpio_op

text \<open>
  The pin that a file holds in gpiolib, and the pin whose interrupt is registered for
  it; \<open>phs\<close> are its calls in progress.
\<close>

definition pin_held :: "gpio_info \<Rightarrow> phase list \<Rightarrow> int \<Rightarrow> bool" where
  "pin_held info phs p \<longleftrightarrow>
     (case phs of
        [Init_requested q] \<Rightarrow> p = q
      | [Init_registered q] \<Rightarrow> p = q
      | [Free_returned] \<Rightarrow> False
      | _ \<Rightarrow> p = irq_pin info \<and> p \<noteq> 0)"

definition irq_held :: "gpio_info \<Rightarrow> phase list \<Rightarrow> int \<Rightarrow> bool" where
  "irq_held info phs p \<longleftrightarrow>
     (case phs of
        [Init_requested q] \<Rightarrow> False
      | [Init_registered q] \<Rightarrow> p = q
      | [Free_unregistered q] \<Rightarrow> False
      | [Free_returned] \<Rightarrow> False
      | _ \<Rightarrow> p = irq_pin info \<and> p \<noteq> 0)"

definition holds :: "gpio2_conc \<Rightarrow> nat \<Rightarrow> int \<Rightarrow> bool" where
  "holds s fd p \<longleftrightarrow> (\<exists>info. files (drv s) fd = Some info \<and> pin_held info (calls s fd) p)"

definition armed :: "gpio2_conc \<Rightarrow> nat \<Rightarrow> int \<Rightarrow> bool" where
  "armed s fd p \<longleftrightarrow> (\<exists>info. files (drv s) fd = Some info \<and> irq_held info (calls s fd) p)"

text \<open>What becomes of the calls of a file when one of them has made progress; \<open>rest\<close> are the others.\<close>

fun settle :: "nat \<Rightarrow> phase list \<Rightarrow> progress \<Rightarrow> gpio2_conc option" where
  "settle fd rest (Goes ph s) = Some (s\<lparr>calls := (calls s)(fd := rest @ [ph])\<rparr>)"
| "settle fd rest (Returns r s) = Some (s\<lparr>calls := (calls s)(fd := rest)\<rparr>)"
| "settle fd rest Sleeps = None"
| "settle fd rest Crashes = None"

text \<open>
  The kernel opens a file under a fresh number, makes calls only on open files,
  releases a file only when no call on it is in progress (each call holds a reference to
  the file) and runs a handler only while it is registered; \<open>free_irq\<close> waits for a
  running handler.  Other drivers call gpiolib in between; they do not free
  pins that are not theirs.
\<close>

inductive gpio2_step :: "(int \<Rightarrow> int) \<Rightarrow> gpio2_conc \<Rightarrow> gpio2_event \<Rightarrow> gpio2_conc \<Rightarrow> bool" for to_irq where
  open_file: "files (drv s) fd = None \<Longrightarrow> gpio_open ok fd (drv s) = (r, d) \<Longrightarrow>
    gpio2_step to_irq s (Open ok fd) (s\<lparr>drv := d, linked := linked s - {fd}\<rparr>)"
| release_file: "files (drv s) fd = Some info \<Longrightarrow> calls s fd = [] \<Longrightarrow> gpio_release to_irq fd (drv s) = (r, d) \<Longrightarrow>
    gpio2_step to_irq s (Release fd) (s\<lparr>drv := d\<rparr>)"
| enter: "files (drv s) fd = Some info \<Longrightarrow> settle fd (calls s fd) (call_enter to_irq env fd cmd s) = Some s' \<Longrightarrow>
    gpio2_step to_irq s (Enter env fd cmd) s'"
| advance: "ph \<in> set (calls s fd) \<Longrightarrow> settle fd (remove1 ph (calls s fd)) (call_step to_irq env fd ph s) = Some s' \<Longrightarrow>
    gpio2_step to_irq s (Advance env fd ph) s'"
| interrupt: "(irq, fd) \<in> handlers (drv s) \<Longrightarrow> conc_handler fd s = Some s' \<Longrightarrow> gpio2_step to_irq s (Interrupt irq fd) s'"
| elsewhere: "gpio_step (table (drv s)) a t \<Longrightarrow> (\<And>fd p. holds s fd p \<Longrightarrow> a \<noteq> Free (pin_number p)) \<Longrightarrow>
    gpio2_step to_irq s (Elsewhere a) (set_table t s)"

text \<open>A run all of whose states satisfy \<open>P\<close>; \<open>serial\<close> states have at most one call per file.\<close>

inductive gpio2_run :: "(int \<Rightarrow> int) \<Rightarrow> (gpio2_conc \<Rightarrow> bool) \<Rightarrow> gpio2_conc \<Rightarrow> gpio2_event list \<Rightarrow> gpio2_conc \<Rightarrow> bool"
  for to_irq P s where
  nil: "gpio2_run to_irq P s [] s"
| snoc: "gpio2_run to_irq P s es s' \<Longrightarrow> gpio2_step to_irq s' e s'' \<Longrightarrow> P s'' \<Longrightarrow> gpio2_run to_irq P s (es @ [e]) s''"

definition serial :: "gpio2_conc \<Rightarrow> bool" where
  "serial s \<longleftrightarrow> (\<forall>fd. length (calls s fd) \<le> 1)"

definition conc_init :: "gpio_state \<Rightarrow> gpio2_conc" where
  "conc_init t = \<lparr>drv = \<lparr>files = Map.empty, table = t, handlers = {}, chip_calls = []\<rparr>, linked = {}, calls = (\<lambda>_. [])\<rparr>"

text \<open>Pin 0 is the driver's mark for no pin.\<close>

definition inits_pin0 :: "gpio2_event \<Rightarrow> bool" where
  "inits_pin0 e \<longleftrightarrow> (case e of Enter env fd (GPIO_IRQ_INIT (Some (pin, mode))) \<Rightarrow> pin = 0 | _ \<Rightarrow> False)"

section \<open>Who holds which pin\<close>

text \<open>What a file's data must say for the place its call has reached; \<open>l\<close>: its completion is initialised.\<close>

definition file_ok :: "gpio_info \<Rightarrow> bool \<Rightarrow> phase list \<Rightarrow> bool" where
  "file_ok info l phs \<longleftrightarrow>
     (case phs of
        [] \<Rightarrow> irq_pin info \<noteq> 0 \<longrightarrow> l
      | [Init_copy arg] \<Rightarrow> irq_pin info = 0 \<and> (\<forall>mode. arg \<noteq> Some (0, mode))
      | [Init_requested q] \<Rightarrow> irq_pin info = 0 \<and> q \<noteq> 0
      | [Init_registered q] \<Rightarrow> irq_pin info = 0 \<and> q \<noteq> 0
      | [Init_stored] \<Rightarrow> irq_pin info \<noteq> 0
      | [Free_copy arg] \<Rightarrow> irq_pin info \<noteq> 0 \<longrightarrow> l
      | [Free_unregistered q] \<Rightarrow> irq_pin info = q \<and> q \<noteq> 0 \<and> l
      | [Free_returned] \<Rightarrow> irq_pin info \<noteq> 0 \<and> l
      | [Wait_copy arg] \<Rightarrow> irq_pin info \<noteq> 0 \<longrightarrow> l
      | [Wait_sleep] \<Rightarrow> irq_pin info \<noteq> 0 \<and> l
      | [Wait_woken] \<Rightarrow> irq_pin info \<noteq> 0 \<and> l
      | _ \<Rightarrow> False)"

text \<open>
  Files hold distinct pins, a held pin is requested, and the registered handlers are
  those of the files whose call has registered and not yet freed them.
\<close>

definition gpio2_inv :: "(int \<Rightarrow> int) \<Rightarrow> gpio2_conc \<Rightarrow> bool" where
  "gpio2_inv to_irq s \<longleftrightarrow>
     gpio_inv (table (drv s)) \<and>
     (\<forall>fd. files (drv s) fd = None \<longrightarrow> calls s fd = []) \<and>
     (\<forall>fd info. files (drv s) fd = Some info \<longrightarrow> file_ok info (fd \<in> linked s) (calls s fd)) \<and>
     (\<forall>fd p. holds s fd p \<longrightarrow> pin_number p \<in> requested (table (drv s))) \<and>
     (\<forall>fd fd' p p'. holds s fd p \<longrightarrow> holds s fd' p' \<longrightarrow> pin_number p = pin_number p' \<longrightarrow> fd = fd') \<and>
     (\<forall>irq fd. (irq, fd) \<in> handlers (drv s) \<longleftrightarrow> (\<exists>p. armed s fd p \<and> irq = to_irq p))"

lemma gpio2_invD:
  assumes "gpio2_inv to_irq s"
  shows "gpio_inv (table (drv s))"
    and "files (drv s) fd = None \<Longrightarrow> calls s fd = []"
    and "files (drv s) fd = Some info \<Longrightarrow> file_ok info (fd \<in> linked s) (calls s fd)"
    and "holds s fd p \<Longrightarrow> pin_number p \<in> requested (table (drv s))"
    and "holds s fd p \<Longrightarrow> holds s fd' p' \<Longrightarrow> pin_number p = pin_number p' \<Longrightarrow> fd = fd'"
    and "(irq, fd) \<in> handlers (drv s) \<longleftrightarrow> (\<exists>p. armed s fd p \<and> irq = to_irq p)"
  using assms unfolding gpio2_inv_def by blast+

lemma conc_init_inv: "gpio_inv t \<Longrightarrow> gpio2_inv to_irq (conc_init t)"
  by (simp add: gpio2_inv_def conc_init_def holds_def armed_def)

text \<open>\<open>elsewhere_same fd s s'\<close>: the other files, their calls and their handlers are as before.\<close>

definition elsewhere_same :: "nat \<Rightarrow> gpio2_conc \<Rightarrow> gpio2_conc \<Rightarrow> bool" where
  "elsewhere_same fd s s' \<longleftrightarrow>
     (\<forall>fd'. fd' \<noteq> fd \<longrightarrow> files (drv s') fd' = files (drv s) fd' \<and> calls s' fd' = calls s fd' \<and>
        (fd' \<in> linked s') = (fd' \<in> linked s) \<and> (\<forall>irq. ((irq, fd') \<in> handlers (drv s')) = ((irq, fd') \<in> handlers (drv s))))"

lemma elsewhere_holds:
  assumes "elsewhere_same fd s s'" and "fd' \<noteq> fd"
  shows "holds s' fd' p = holds s fd' p" and "armed s' fd' p = armed s fd' p"
  using assms by (simp_all add: elsewhere_same_def holds_def armed_def)

text \<open>
  The frame rule of the invariant: an operation on one file has to establish the
  clauses of that file, and must not free or take a pin of another.
\<close>

lemma inv_frame:
  assumes inv: "gpio2_inv to_irq s" and same: "elsewhere_same fd s s'" and t: "gpio_inv (table (drv s'))"
    and none: "files (drv s') fd = None \<Longrightarrow> calls s' fd = []"
    and ok: "\<And>info. files (drv s') fd = Some info \<Longrightarrow> file_ok info (fd \<in> linked s') (calls s' fd)"
    and mine: "\<And>p. holds s' fd p \<Longrightarrow> pin_number p \<in> requested (table (drv s')) \<and>
                 (\<forall>fd' p'. fd' \<noteq> fd \<longrightarrow> holds s fd' p' \<longrightarrow> pin_number p' \<noteq> pin_number p)"
    and others: "\<And>fd' p. fd' \<noteq> fd \<Longrightarrow> holds s fd' p \<Longrightarrow> pin_number p \<in> requested (table (drv s'))"
    and h: "\<And>irq. (irq, fd) \<in> handlers (drv s') \<longleftrightarrow> (\<exists>p. armed s' fd p \<and> irq = to_irq p)"
  shows "gpio2_inv to_irq s'"
proof -
  note i = gpio2_invD [OF inv] and e = elsewhere_holds [OF same] and d = same [unfolded elsewhere_same_def, rule_format]
  show ?thesis unfolding gpio2_inv_def
  proof (intro conjI allI impI)
    show "gpio_inv (table (drv s'))" by (rule t)
    show "calls s' fd' = []" if "files (drv s') fd' = None" for fd'
      using that none d [of fd'] i(2) [of fd'] by (cases "fd' = fd") auto
    show "file_ok info (fd' \<in> linked s') (calls s' fd')" if "files (drv s') fd' = Some info" for fd' info
      using that ok d [of fd'] i(3) [of fd'] by (cases "fd' = fd") auto
    show "pin_number p \<in> requested (table (drv s'))" if "holds s' fd' p" for fd' p
      using that mine others e [of fd'] by (cases "fd' = fd") auto
    show "fd1 = fd2" if "holds s' fd1 p1" "holds s' fd2 p2" "pin_number p1 = pin_number p2" for fd1 fd2 p1 p2
      using that mine [of p1] mine [of p2] e [of fd1] e [of fd2] i(5) [of fd1 p1 fd2 p2]
      by (cases "fd1 = fd"; cases "fd2 = fd") auto
    show "((irq, fd') \<in> handlers (drv s')) = (\<exists>p. armed s' fd' p \<and> irq = to_irq p)" for irq fd'
      using h d [of fd'] e [of fd'] i(6) [of irq fd'] by (cases "fd' = fd") auto
  qed
qed

text \<open>The same when gpiolib keeps all requested pins and the file holds no pin it did not hold before.\<close>

lemma inv_keep:
  assumes inv: "gpio2_inv to_irq s" and same: "elsewhere_same fd s s'"
    and t: "gpio_inv (table (drv s'))" "requested (table (drv s)) \<subseteq> requested (table (drv s'))"
    and "files (drv s') fd = None \<Longrightarrow> calls s' fd = []"
    and "\<And>info. files (drv s') fd = Some info \<Longrightarrow> file_ok info (fd \<in> linked s') (calls s' fd)"
    and mine: "\<And>p. holds s' fd p \<Longrightarrow> holds s fd p"
    and h: "\<And>irq. (irq, fd) \<in> handlers (drv s') \<longleftrightarrow> (\<exists>p. armed s' fd p \<and> irq = to_irq p)"
  shows "gpio2_inv to_irq s'"
proof (rule inv_frame [OF inv same t(1) assms(5,6)])
  note i = gpio2_invD [OF inv]
  show "pin_number p \<in> requested (table (drv s')) \<and> (\<forall>fd' p'. fd' \<noteq> fd \<longrightarrow> holds s fd' p' \<longrightarrow> pin_number p' \<noteq> pin_number p)"
    if "holds s' fd p" for p using i(4) [OF mine [OF that]] i(5) [OF mine [OF that]] t(2) by (metis subsetD)
  show "pin_number p \<in> requested (table (drv s'))" if "holds s fd' p" for fd' p using i(4) [OF that] t(2) by blast
qed (rule h | assumption)+

section \<open>Every step keeps the invariant\<close>

lemmas view_defs = elsewhere_same_def holds_def armed_def

lemma settle_some:
  assumes "settle fd rest p = Some s'"
  obtains ph s1 where "p = Goes ph s1" "s' = s1\<lparr>calls := (calls s1)(fd := rest @ [ph])\<rparr>"
  | r s1 where "p = Returns r s1" "s' = s1\<lparr>calls := (calls s1)(fd := rest)\<rparr>"
  using assms by (cases p) auto

lemma serial_call: "serial s \<Longrightarrow> ph \<in> set (calls s fd) \<Longrightarrow> calls s fd = [ph]"
  using in_set_conv_decomp [of ph "calls s fd"] by (force simp: serial_def dest: spec [of _ fd])

lemma holds_here: "files (drv s) fd = Some info \<Longrightarrow> holds s fd p = pin_held info (calls s fd) p"
  by (simp add: holds_def)

lemma armed_here: "files (drv s) fd = Some info \<Longrightarrow> armed s fd p = irq_held info (calls s fd) p"
  by (simp add: armed_def)

lemma irq_pin_held: "irq_held info phs p \<Longrightarrow> pin_held info phs p"
  by (cases phs; cases "hd phs"; cases "tl phs") (auto simp: pin_held_def irq_held_def)

lemma armed_holds: "armed s fd p \<Longrightarrow> holds s fd p"
  using irq_pin_held by (auto simp: holds_def armed_def)

text \<open>\<open>gpio_request\<close> as a step of \<open>GPIO_IRQ_INIT\<close>.\<close>

lemma init_request_inv:
  assumes inv: "gpio2_inv to_irq s" and f: "files (drv s) fd = Some info" and c: "calls s fd = [Init_copy (Some (pin, mode))]"
    and req: "gpio_request env (pin_number pin) (table (drv s)) = (r, t)"
  shows "r \<noteq> 0 \<Longrightarrow> gpio2_inv to_irq ((set_table t s)\<lparr>calls := (calls s)(fd := [])\<rparr>)"
    and "r = 0 \<Longrightarrow> gpio2_inv to_irq ((set_table t s)\<lparr>calls := (calls s)(fd := [Init_requested pin])\<rparr>)"
proof -
  note i = gpio2_invD [OF inv]
  have pin: "pin \<noteq> 0" "irq_pin info = 0" using i(3) [OF f] c by (auto simp: file_ok_def)
  have h: "(irq, fd) \<notin> handlers (drv s)" for irq using i(6) [of irq fd] f c pin by (simp add: armed_here irq_held_def)
  note t = pins.request_inv [OF i(1) req] pins.held_mono [OF i(1) req]
  show "gpio2_inv to_irq ((set_table t s)\<lparr>calls := (calls s)(fd := [])\<rparr>)"
    by (rule inv_keep [OF inv, of fd])
       (use t f pin h in \<open>auto simp: view_defs set_defs file_ok_def pin_held_def irq_held_def\<close>)
  show "gpio2_inv to_irq ((set_table t s)\<lparr>calls := (calls s)(fd := [Init_requested pin])\<rparr>)" if "r = 0"
  proof (rule inv_frame [OF inv, of fd])
    have new: "pin_number pin \<notin> requested (table (drv s))" "pin_number pin \<in> requested t"
      using pins.request_ok [OF i(1) req] that by auto
    have free: "pin_number p' \<noteq> pin_number pin" if "holds s fd' p'" for fd' p' using i(4) [OF that] new by auto
    show "pin_number p \<in> requested (table (drv ((set_table t s)\<lparr>calls := (calls s)(fd := [Init_requested pin])\<rparr>))) \<and>
        (\<forall>fd' p'. fd' \<noteq> fd \<longrightarrow> holds s fd' p' \<longrightarrow> pin_number p' \<noteq> pin_number p)"
      if "holds ((set_table t s)\<lparr>calls := (calls s)(fd := [Init_requested pin])\<rparr>) fd p" for p
    proof -
      from that f have "p = pin" by (simp add: holds_def set_defs pin_held_def)
      with new free show ?thesis by (auto simp: set_defs)
    qed
    show "pin_number p \<in> requested (table (drv ((set_table t s)\<lparr>calls := (calls s)(fd := [Init_requested pin])\<rparr>)))"
      if "holds s fd' p" for fd' p using i(4) [OF that] t(2) by (auto simp: set_defs)
  qed (use t f pin h in \<open>auto simp: view_defs set_defs file_ok_def irq_held_def\<close>)
qed

text \<open>\<open>gpio_free\<close> of the pin that a file holds.\<close>

lemma free_pin_inv:
  assumes inv: "gpio2_inv to_irq s" and hold: "holds s fd pin" and same: "elsewhere_same fd s s'"
    and t: "table (drv s') = gpio_free (pin_number pin) (table (drv s))"
    and none: "files (drv s') fd = None \<Longrightarrow> calls s' fd = []"
    and ok: "\<And>info. files (drv s') fd = Some info \<Longrightarrow> file_ok info (fd \<in> linked s') (calls s' fd)"
    and mine: "\<And>p. \<not> holds s' fd p" and h: "\<And>irq. (irq, fd) \<notin> handlers (drv s')"
  shows "gpio2_inv to_irq s'"
proof (rule inv_frame [OF inv same])
  note i = gpio2_invD [OF inv]
  note g = gpio_free_facts [OF i(1), of "pin_number pin"]
  show "gpio_inv (table (drv s'))" by (simp add: t g)
  show "pin_number p \<in> requested (table (drv s'))" if "fd' \<noteq> fd" "holds s fd' p" for fd' p
    using i(4) [OF that(2)] i(5) [OF that(2) hold] that(1) by (auto simp: t g)
  have "\<not> armed s' fd p" for p using mine armed_holds by blast
  with h show "((irq, fd) \<in> handlers (drv s')) = (\<exists>p. armed s' fd p \<and> irq = to_irq p)" for irq by simp
qed (use none ok mine in auto)

lemma call_step_inv:
  assumes inv: "gpio2_inv to_irq s" and f: "files (drv s) fd = Some info" and c: "calls s fd = [ph]"
    and step: "settle fd [] (call_step to_irq env fd ph s) = Some s'"
  shows "gpio2_inv to_irq s'"
proof -
  note i = gpio2_invD [OF inv]
  note ok = i(3) [OF f, unfolded c]
  have h: "((irq, fd) \<in> handlers (drv s)) = (\<exists>p. irq_held info [ph] p \<and> irq = to_irq p)" for irq
    using i(6) [of irq fd] f c by (simp add: armed_here)
  note all = call_step_def f view_defs set_defs file_ok_def pin_held_def irq_held_def
  have keep: "gpio2_inv to_irq s'"
    if "elsewhere_same fd s s'" "table (drv s') = table (drv s)" "\<exists>i'. files (drv s') fd = Some i' \<and>
        file_ok i' (fd \<in> linked s') (calls s' fd) \<and> (\<forall>p. pin_held i' (calls s' fd) p \<longrightarrow> pin_held info [ph] p) \<and>
        (\<forall>irq. ((irq, fd) \<in> handlers (drv s')) = (\<exists>p. irq_held i' (calls s' fd) p \<and> irq = to_irq p))"
    using that i(1) f c by (intro inv_keep [OF inv that(1)]) (auto simp: holds_here armed_here)
  show ?thesis
  proof (cases ph)
    case (Init_copy arg)
    show ?thesis
    proof (cases "\<exists>pin mode. arg = Some (pin, mode) \<and> mode \<in> {0, 1, 2}")
      case True
      then obtain pin mode where arg: "arg = Some (pin, mode)" "mode \<in> {0, 1, 2}" by blast
      obtain r t where req: "gpio_request (pins_env env) (pin_number pin) (table (drv s)) = (r, t)" by force
      from init_request_inv [OF inv f _ req] c step arg(2) show ?thesis
        by (auto simp: Init_copy arg(1) call_defs f req set_table_def split: if_splits)
    next
      case False
      then have "s' = s\<lparr>calls := (calls s)(fd := [])\<rparr>"
        using step by (cases arg) (auto simp: Init_copy call_defs f split: if_splits)
      then show ?thesis using ok h by (intro keep) (auto simp: Init_copy all)
    qed
  next
    case (Init_requested pin)
    show ?thesis
    proof (cases "irq_status env = 0")
      case True
      then show ?thesis using ok h step by (intro keep) (auto simp: Init_requested all irq_init_step_def)
    next
      case False
      then have s': "s' = (set_table (gpio_free (pin_number pin) (table (drv s))) s)\<lparr>calls := (calls s)(fd := [])\<rparr>"
        using step by (simp add: Init_requested call_defs f set_table_def)
      have "holds s fd pin" using f c by (simp add: holds_here pin_held_def Init_requested)
      then show ?thesis using ok h f by (intro free_pin_inv [OF inv]) (auto simp: s' Init_requested all)
    qed
  next
    case (Free_unregistered pin)
    then have s': "s' = (set_table (gpio_free (pin_number pin) (table (drv s))) s)\<lparr>calls := (calls s)(fd := [Free_returned])\<rparr>"
      using step by (simp add: call_defs f set_table_def)
    have "holds s fd pin" using f c ok by (simp add: holds_here pin_held_def file_ok_def Free_unregistered)
    then show ?thesis using ok h f by (intro free_pin_inv [OF inv]) (auto simp: s' Free_unregistered all)
  next
    case (Free_copy arg)
    then show ?thesis using ok h step
      by (intro keep) (auto simp: all irq_free_step_def split: option.splits if_splits)
  next
    case (Wait_copy arg)
    then show ?thesis using ok h step
      by (intro keep) (auto simp: all irq_wait_step_def split: option.splits if_splits)
  qed (use ok h step in \<open>intro keep; auto simp: all irq_init_step_def irq_free_step_def irq_wait_step_def split: if_splits\<close>)+
qed

lemma call_enter_inv:
  assumes inv: "gpio2_inv to_irq s" and f: "files (drv s) fd = Some info" and ser: "serial s'"
    and p0: "\<not> inits_pin0 (Enter env fd cmd)" and step: "settle fd (calls s fd) (call_enter to_irq env fd cmd s) = Some s'"
  shows "gpio2_inv to_irq s'"
proof -
  note i = gpio2_invD [OF inv]
  have h: "((irq, fd) \<in> handlers (drv s)) = (\<exists>p. irq_held info (calls s fd) p \<and> irq = to_irq p)" for irq
    using i(6) [of irq fd] f by (simp add: armed_here)
  have start: "gpio2_inv to_irq s'"
    if s': "s' = s\<lparr>calls := (calls s)(fd := calls s fd @ [ph])\<rparr>" and ok: "file_ok info (fd \<in> linked s) [] \<Longrightarrow> file_ok info (fd \<in> linked s) [ph]"
      and "pin_held info [ph] = pin_held info []" "irq_held info [ph] = irq_held info []" for ph
  proof -
    have c: "calls s fd = []" using ser [unfolded serial_def, rule_format, of fd] by (simp add: s')
    show ?thesis using that i(1) i(3) [OF f] f c h by (intro inv_keep [OF inv, of fd]) (auto simp: view_defs)
  qed
  note all = call_enter_def f file_ok_def pin_held_def irq_held_def
  consider (init) arg where "cmd = GPIO_IRQ_INIT arg" "irq_pin info = 0" | (busy) arg where "cmd = GPIO_IRQ_INIT arg" "irq_pin info \<noteq> 0"
    | (free) arg where "cmd = GPIO_IRQ_FREE arg" | (wait) arg where "cmd = GPIO_IRQ_WAIT arg" | (pin) "pin_cmd cmd"
    by (cases cmd) (auto simp: pin_cmd_def)
  then show ?thesis
  proof cases
    case init
    have arg: "\<forall>mode. arg \<noteq> Some (0, mode)" using p0 by (auto simp: init inits_pin0_def)
    show ?thesis by (rule start [of "Init_copy arg"]) (use step arg in \<open>auto simp: init all\<close>)
  next
    case busy
    then have "s' = s" using step by (simp add: call_enter_def f)
    with inv show ?thesis by simp
  next
    case free
    show ?thesis by (rule start [of "Free_copy arg"]) (use step in \<open>auto simp: free all\<close>)
  next
    case wait
    show ?thesis by (rule start [of "Wait_copy arg"]) (use step in \<open>auto simp: wait all\<close>)
  next
    case pin
    then obtain r out d where d: "gpio_ioctl to_irq env fd info cmd (drv s) = Done r out d" and s': "s' = s\<lparr>drv := d\<rparr>"
      using step by (cases cmd) (auto simp: pin_cmd_def call_enter_def f split: outcome.splits)
    from pin_cmd_facts [OF i(1) pin d] f h i(3) [OF f] show ?thesis
      by (intro inv_keep [OF inv, of fd]) (auto simp: s' view_defs)
  qed
qed

lemma release_inv:
  assumes inv: "gpio2_inv to_irq s" and f: "files (drv s) fd = Some info" and c: "calls s fd = []"
    and rel: "gpio_release to_irq fd (drv s) = (r, d)"
  shows "gpio2_inv to_irq (s\<lparr>drv := d\<rparr>)"
proof -
  note i = gpio2_invD [OF inv]
  have h: "((irq, fd) \<in> handlers (drv s)) = (irq_pin info \<noteq> 0 \<and> irq = to_irq (irq_pin info))" for irq
    using i(6) [of irq fd] f c by (auto simp: armed_here irq_held_def)
  show ?thesis
  proof (cases "irq_pin info = 0")
    case True
    then have d: "d = (drv s)\<lparr>files := (files (drv s))(fd := None)\<rparr>" using rel f by (simp add: gpio_release_def Let_def)
    show ?thesis using i(1) c h True by (intro inv_keep [OF inv, of fd]) (auto simp: d view_defs)
  next
    case False
    then have d: "d = (irq_free to_irq fd (irq_pin info) (drv s))\<lparr>files := (files (drv s))(fd := None)\<rparr>"
      using rel f by (simp add: gpio_release_def irq_free_def)
    have hold: "holds s fd (irq_pin info)" using f c False by (simp add: holds_here pin_held_def)
    show ?thesis
      by (rule free_pin_inv [OF inv hold]) (use c h in \<open>auto simp: d irq_free_def view_defs\<close>)
  qed
qed

lemma gpio2_step_inv:
  assumes step: "gpio2_step to_irq s e s'" and inv: "gpio2_inv to_irq s" and ser: "serial s" "serial s'" and p0: "\<not> inits_pin0 e"
  shows "gpio2_inv to_irq s'"
proof -
  note i = gpio2_invD [OF inv]
  from step show ?thesis
  proof cases
    case (open_file fd ok r d)
    have "(irq, fd) \<notin> handlers (drv s)" for irq using i(6) [of irq fd] open_file(3) by (simp add: armed_def)
    with open_file i(1) i(2) [OF open_file(3)] show ?thesis
      by (intro inv_keep [OF inv, of fd])
         (auto simp: gpio_open_def view_defs file_ok_def pin_held_def irq_held_def split: if_splits)
  next
    case (release_file fd info r d)
    with release_inv [OF inv release_file(3,4,5)] show ?thesis by simp
  next
    case (enter fd info env cmd)
    with call_enter_inv [OF inv enter(2) ser(2)] p0 show ?thesis by simp
  next
    case (advance ph fd env)
    have c: "calls s fd = [ph]" by (rule serial_call [OF ser(1) advance(2)])
    then obtain info where "files (drv s) fd = Some info" using i(2) [of fd] by (cases "files (drv s) fd") auto
    from call_step_inv [OF inv this c] advance(3) c show ?thesis by simp
  next
    case (interrupt irq fd)
    then obtain info where f: "files (drv s) fd = Some info" and s': "s' = set_info fd (info\<lparr>completed := completed info + 1\<rparr>) s"
      by (auto simp: conc_handler_def gpio_handler_def set_info_def split: if_splits option.splits)
    have h: "((irq, fd) \<in> handlers (drv s)) = (\<exists>p. irq_held info (calls s fd) p \<and> irq = to_irq p)" for irq
      using i(6) [of irq fd] f by (simp add: armed_here)
    have pin: "irq_pin (info\<lparr>completed := n\<rparr>) = irq_pin info" for n by simp
    have same: "file_ok (info\<lparr>completed := n\<rparr>) = file_ok info" "pin_held (info\<lparr>completed := n\<rparr>) = pin_held info"
        "irq_held (info\<lparr>completed := n\<rparr>) = irq_held info" for n
      unfolding fun_eq_iff file_ok_def pin_held_def irq_held_def pin by simp_all
    show ?thesis using i(1) i(3) [OF f] f h by (intro inv_keep [OF inv, of fd]) (auto simp: s' view_defs set_info_def same)
  next
    case (elsewhere a t)
    note t = gpio_step_inv [OF i(1) elsewhere(3)]
    show ?thesis using inv t elsewhere(4)
      by (auto simp: gpio2_inv_def elsewhere set_table_def holds_def armed_def)
  qed
qed

lemma gpio2_run_serial: "gpio2_run to_irq P s es s' \<Longrightarrow> P s \<Longrightarrow> P s'"
  by (induction rule: gpio2_run.induct) auto

lemma gpio2_run_inv:
  assumes "gpio2_run to_irq serial s es s'" and "gpio2_inv to_irq s" and "serial s" and "\<forall>e \<in> set es. \<not> inits_pin0 e"
  shows "gpio2_inv to_irq s'"
  using assms
proof (induction rule: gpio2_run.induct)
  case (snoc es s' e s'')
  have "serial s'" by (rule gpio2_run_serial [OF snoc.hyps(1) snoc.prems(2)])
  with snoc gpio2_step_inv [OF snoc.hyps(2)] show ?case by simp
qed simp

lemma conc_init_serial: "serial (conc_init t)"
  by (simp add: serial_def conc_init_def)

lemma reachable_inv:
  assumes "gpio_inv t" and "gpio2_run to_irq serial (conc_init t) es s" and "\<forall>e \<in> set es. \<not> inits_pin0 e"
  shows "gpio2_inv to_irq s"
  by (rule gpio2_run_inv [OF assms(2) conc_init_inv [OF assms(1)] conc_init_serial assms(3)])

section \<open>Properties of the driver\<close>

text \<open>
  C15: In every run in which the calls on one file do not overlap and no interrupt is
  requested on pin 0, with interrupts, calls on other files and other gpiolib clients
  between any two steps of a call: files hold distinct pins and a held pin is
  requested; a registered handler belongs to an open file, so that an
  interrupt never uses freed memory; and the handler finds its wait queue
  initialised except while the first \<open>GPIO_IRQ_INIT\<close> of the file is between
  \<open>request_irq\<close> and \<open>init_completion\<close>.
\<close>

theorem gpio2_no_use_after_free:
  assumes "gpio_inv t" and "gpio2_run to_irq serial (conc_init t) es s" and "\<forall>e \<in> set es. \<not> inits_pin0 e"
  shows "(\<forall>fd p. holds s fd p \<longrightarrow> pin_number p \<in> requested (table (drv s))) \<and>
         (\<forall>fd fd' p p'. holds s fd p \<longrightarrow> holds s fd' p' \<longrightarrow> pin_number p = pin_number p' \<longrightarrow> fd = fd') \<and>
         (\<forall>irq fd. (irq, fd) \<in> handlers (drv s) \<longrightarrow>
            gpio_handler fd (drv s) \<noteq> None \<and> (\<exists>p. holds s fd p \<and> irq = to_irq p) \<and>
            (conc_handler fd s = None \<longrightarrow> (\<exists>p. calls s fd \<in> {[Init_registered p], [Init_stored]})))"
proof -
  note i = gpio2_invD [OF reachable_inv [OF assms]]
  have "gpio_handler fd (drv s) \<noteq> None \<and> (\<exists>p. holds s fd p \<and> irq = to_irq p) \<and>
      (conc_handler fd s = None \<longrightarrow> (\<exists>p. calls s fd \<in> {[Init_registered p], [Init_stored]}))"
    if "(irq, fd) \<in> handlers (drv s)" for irq fd
  proof -
    from that i(6) obtain p where p: "armed s fd p" "irq = to_irq p" by blast
    then obtain info where f: "files (drv s) fd = Some info" and h: "irq_held info (calls s fd) p" by (auto simp: armed_def)
    have "fd \<in> linked s \<or> (\<exists>p. calls s fd \<in> {[Init_registered p], [Init_stored]})"
      using i(3) [OF f] h
      by (cases "calls s fd"; cases "hd (calls s fd)"; cases "tl (calls s fd)") (auto simp: file_ok_def irq_held_def)
    with f p armed_holds [OF p(1)] show ?thesis by (auto simp: gpio_handler_def conc_handler_def)
  qed
  with i(4,5) show ?thesis by blast
qed

text \<open>
  C16: Closing a file at the end of such a run (calls on one file do not overlap, no
  interrupt on pin 0) leaves no handler of that file, returns its pin to gpiolib,
  and keeps what all other files hold requested.
\<close>

theorem gpio_release_cleans_up:
  assumes "gpio_inv t" and "gpio2_run to_irq serial (conc_init t) es s" and "\<forall>e \<in> set es. \<not> inits_pin0 e"
    and "files (drv s) fd = Some info" and "calls s fd = []" and "gpio_release to_irq fd (drv s) = (r, d)"
  shows "r = 0 \<and> files d fd = None \<and> (\<forall>irq. (irq, fd) \<notin> handlers d) \<and>
         (irq_pin info \<noteq> 0 \<longrightarrow> requested (table d) = requested (table (drv s)) - {pin_number (irq_pin info)}) \<and>
         (\<forall>fd' p. fd' \<noteq> fd \<longrightarrow> holds s fd' p \<longrightarrow> holds (s\<lparr>drv := d\<rparr>) fd' p \<and> pin_number p \<in> requested (table d))"
proof -
  have inv: "gpio2_inv to_irq s" by (rule reachable_inv [OF assms(1-3)])
  note i = gpio2_invD [OF release_inv [OF inv assms(4-6)]]
  have r: "r = 0" and f: "files d = (files (drv s))(fd := None)"
    using assms(4,6) by (auto simp: gpio_release_def Let_def irq_free_def split: if_splits)
  have "(irq, fd) \<notin> handlers d" for irq using i(6) [of irq fd] f by (simp add: armed_def)
  moreover have "requested (table d) = requested (table (drv s)) - {pin_number (irq_pin info)}" if "irq_pin info \<noteq> 0"
    using that assms(4,6) gpio_free_facts(2) [OF gpio2_invD(1) [OF inv]] by (auto simp: gpio_release_def irq_free_def)
  moreover have "holds (s\<lparr>drv := d\<rparr>) fd' p \<and> pin_number p \<in> requested (table d)" if "fd' \<noteq> fd" "holds s fd' p" for fd' p
  proof -
    have "holds (s\<lparr>drv := d\<rparr>) fd' p" using that by (simp add: holds_def f)
    with i(4) [OF this] show ?thesis by simp
  qed
  ultimately show ?thesis using r f by simp
qed

section \<open>Interrupts and waits\<close>





lemma pin_cmd_files: "pin_cmd cmd \<Longrightarrow> gpio_ioctl to_irq env fd info cmd s = Done r out s' \<Longrightarrow> files s' = files s"
  by (cases cmd)
     (auto simp: pin_cmd_def gpio_ioctl_def ioctl_direction_def ioctl_read_def ioctl_write_def Let_def
        split: option.splits if_splits prod.splits)

lemma call_enter_files:
  assumes "settle fd rest (call_enter to_irq env fd cmd s) = Some s'"
  shows "files (drv s') = files (drv s)" and "fd' \<noteq> fd \<Longrightarrow> calls s' fd' = calls s fd'"
  using assms pin_cmd_files [of cmd]
  by (cases cmd; auto simp: call_enter_def pin_cmd_def split: option.splits if_splits outcome.splits)+

lemma call_step_other:
  assumes "settle fd rest (call_step to_irq env fd ph s) = Some s'" and "fd' \<noteq> fd"
  shows "files (drv s') fd' = files (drv s) fd'" and "calls s' fd' = calls s fd'"
  using assms
  by (cases ph; auto simp: call_defs set_defs split: option.splits if_splits prod.splits)+







section \<open>Concrete runs\<close>

text \<open>Runs of calls and interrupts as a function; \<open>m\<close> bounds the calls in progress on one file.\<close>

definition exec_event :: "(int \<Rightarrow> int) \<Rightarrow> gpio2_event \<Rightarrow> gpio2_conc \<Rightarrow> (nat \<times> gpio2_conc) option" where
  "exec_event to_irq e s =
     (case e of
        Open ok fd \<Rightarrow>
          if files (drv s) fd = None then Some (fd, s\<lparr>drv := snd (gpio_open ok fd (drv s)), linked := linked s - {fd}\<rparr>) else None
      | Release fd \<Rightarrow>
          if files (drv s) fd \<noteq> None \<and> calls s fd = [] then Some (fd, s\<lparr>drv := snd (gpio_release to_irq fd (drv s))\<rparr>) else None
      | Enter env fd cmd \<Rightarrow>
          if files (drv s) fd = None then None
          else map_option (Pair fd) (settle fd (calls s fd) (call_enter to_irq env fd cmd s))
      | Advance env fd ph \<Rightarrow>
          if ph \<in> set (calls s fd) then map_option (Pair fd) (settle fd (remove1 ph (calls s fd)) (call_step to_irq env fd ph s)) else None
      | Interrupt irq fd \<Rightarrow> if (irq, fd) \<in> handlers (drv s) then map_option (Pair fd) (conc_handler fd s) else None
      | Elsewhere a \<Rightarrow> None)"

fun exec :: "(int \<Rightarrow> int) \<Rightarrow> nat \<Rightarrow> gpio2_event list \<Rightarrow> gpio2_conc \<Rightarrow> gpio2_conc option" where
  "exec to_irq m [] s = Some s"
| "exec to_irq m (e # es) s =
     (case exec_event to_irq e s of
        None \<Rightarrow> None
      | Some (fd, s') \<Rightarrow> if length (calls s' fd) \<le> m then exec to_irq m es s' else None)"

lemma exec_event_step: "exec_event to_irq e s = Some (fd, s') \<Longrightarrow> gpio2_step to_irq s e s'"
  by (cases e) (auto simp: exec_event_def prod_eq_iff split: if_splits option.splits intro!: gpio2_step.intros)

lemma exec_event_calls: "exec_event to_irq e s = Some (fd, s') \<Longrightarrow> fd' \<noteq> fd \<Longrightarrow> calls s' fd' = calls s fd'"
  by (cases e)
     (auto simp: exec_event_def conc_handler_def call_enter_files(2) call_step_other(2) split: if_splits option.splits)

lemma gpio2_run_Cons:
  assumes "gpio2_run to_irq P s' es s''" and "gpio2_step to_irq s e s'" and "P s'"
  shows "gpio2_run to_irq P s (e # es) s''"
  using assms
proof (induction rule: gpio2_run.induct)
  case nil
  then show ?case using gpio2_run.snoc [OF gpio2_run.nil] by fastforce
next
  case (snoc es s1 e1 s2)
  then show ?case using gpio2_run.snoc [of to_irq P s "e # es"] by auto
qed

lemma exec_run: "exec to_irq m es s = Some s' \<Longrightarrow> gpio2_run to_irq (\<lambda>_. True) s es s'"
proof (induction es arbitrary: s)
  case (Cons e es)
  then obtain fd s1 where e: "exec_event to_irq e s = Some (fd, s1)" "exec to_irq m es s1 = Some s'"
    by (auto split: option.splits if_splits)
  from gpio2_run_Cons [OF Cons.IH [OF e(2)] exec_event_step [OF e(1)]] show ?case by simp
qed (simp add: gpio2_run.nil)

lemma exec_serial: "exec to_irq 1 es s = Some s' \<Longrightarrow> serial s \<Longrightarrow> gpio2_run to_irq serial s es s'"
proof (induction es arbitrary: s)
  case (Cons e es)
  then obtain fd s1 where e: "exec_event to_irq e s = Some (fd, s1)" "length (calls s1 fd) \<le> 1" "exec to_irq 1 es s1 = Some s'"
    by (auto split: option.splits if_splits)
  have "serial s1" unfolding serial_def
  proof
    fix fd'
    show "length (calls s1 fd') \<le> 1"
      using e(2) exec_event_calls [OF e(1), of fd'] Cons.prems(2) by (cases "fd' = fd") (auto simp: serial_def)
  qed
  with Cons.IH [OF e(3)] exec_event_step [OF e(1)] show ?case by (blast intro: gpio2_run_Cons)
qed (simp add: gpio2_run.nil)

definition gpio2_ok :: gpio2_env where
  "gpio2_ok = \<lparr>pins_env = ok_env, irq_status = 0, copy_out_ok = True, signal_pending = False\<rparr>"

definition open_init :: "int \<Rightarrow> gpio2_event list" where
  "open_init pin = [Open True 3, Enter gpio2_ok 3 (GPIO_IRQ_INIT (Some (pin, 0))), Advance gpio2_ok 3 (Init_copy (Some (pin, 0))),
     Advance gpio2_ok 3 (Init_requested pin)]"

definition store_pin :: "int \<Rightarrow> gpio2_event list" where
  "store_pin pin = [Advance gpio2_ok 3 (Init_registered pin), Advance gpio2_ok 3 Init_stored]"

definition file3 :: "(gpio_info option) \<Rightarrow> bool \<Rightarrow> (int \<times> nat) set \<Rightarrow> gpio_state \<Rightarrow> phase list \<Rightarrow> gpio2_conc" where
  "file3 info l h t phs = \<lparr>drv = \<lparr>files = (\<lambda>fd. if fd = 3 then info else None), table = t, handlers = h, chip_calls = []\<rparr>,
     linked = (if l then {3} else {}), calls = (\<lambda>fd. if fd = 3 then phs else [])\<rparr>"

definition pin40 :: gpio_state where
  "pin40 = snd (gpio_request ok_env 40 soc_table)"

lemma request_40: "gpio_request ok_env 40 soc_table = (0, pin40)"
  unfolding pin40_def using soc_request by (metis prod.collapse)

lemma pin_number_small: "0 \<le> p \<Longrightarrow> p < 2 ^ 32 \<Longrightarrow> pin_number p = nat p"
  by (simp add: pin_number_def)

lemmas run_defs = exec_event_def conc_init_def gpio_open_def call_enter_def call_defs set_defs gpio2_ok_def open_init_def store_pin_def
  file3_def fun_eq_iff pin_number_small request_40 conc_handler_def gpio_handler_def

lemma exec_init_40:
  "exec (\<lambda>g. g + 160) 1 (open_init 40) (conc_init soc_table) =
     Some (file3 (Some \<lparr>irq_pin = 0, completed = 0\<rparr>) False {(200, 3)} pin40 [Init_registered 40])"
  "exec (\<lambda>g. g + 160) 1 (open_init 40 @ store_pin 40) (conc_init soc_table) =
     Some (file3 (Some \<lparr>irq_pin = 40, completed = 0\<rparr>) True {(200, 3)} pin40 [])"
  by (simp_all add: run_defs)

lemmas init_40 = exec_serial [OF exec_init_40(2) conc_init_serial]

lemma soc_table_inv: "gpio_inv soc_table"
  using gpio_trace_inv(1) [OF soc_table_trace gpio_init_inv] .

lemma init_40_pin: "\<forall>e \<in> set (open_init 40 @ store_pin 40). \<not> inits_pin0 e"
  by (simp add: open_init_def store_pin_def inits_pin0_def)

theorem gpio2_no_use_after_free_witness:
  "(200, 3) \<in> handlers (drv (file3 (Some \<lparr>irq_pin = 40, completed = 0\<rparr>) True {(200, 3)} pin40 [])) \<and>
   gpio_handler 3 (drv (file3 (Some \<lparr>irq_pin = 40, completed = 0\<rparr>) True {(200, 3)} pin40 [])) \<noteq> None"
  using gpio2_no_use_after_free [OF soc_table_inv init_40 init_40_pin] by (simp add: file3_def)

theorem gpio_release_cleans_up_witness:
  "\<exists>d. gpio_release (\<lambda>g. g + 160) 3 (drv (file3 (Some \<lparr>irq_pin = 40, completed = 0\<rparr>) True {(200, 3)} pin40 [])) = (0, d) \<and>
     (\<forall>irq. (irq, 3) \<notin> handlers d) \<and> requested (table d) = requested pin40 - {40}"
proof -
  let ?s = "file3 (Some \<lparr>irq_pin = 40, completed = 0\<rparr>) True {(200, 3)} pin40 []"
  obtain r d where rel: "gpio_release (\<lambda>g. g + 160) 3 (drv ?s) = (r, d)" by force
  from gpio_release_cleans_up [OF soc_table_inv init_40 init_40_pin _ _ rel] rel show ?thesis
    by (simp add: file3_def pin_number_small)
qed



section \<open>What the missing lock allows\<close>

text \<open>
  Two overlapping \<open>GPIO_IRQ_INIT\<close> on one file both see that it has no pin; the second
  overwrites the pin of the first, and after the file is closed the handler of
  the first is still registered for freed memory.
\<close>

lemma request_41: "fst (gpio_request ok_env 41 pin40) = 0"
  unfolding pin40_def by code_simp

definition overlap :: "gpio2_event list" where
  "overlap = [Open True 3, Enter gpio2_ok 3 (GPIO_IRQ_INIT (Some (40, 0))), Enter gpio2_ok 3 (GPIO_IRQ_INIT (Some (41, 0))),
     Advance gpio2_ok 3 (Init_copy (Some (40, 0))), Advance gpio2_ok 3 (Init_requested 40),
     Advance gpio2_ok 3 (Init_registered 40), Advance gpio2_ok 3 Init_stored,
     Advance gpio2_ok 3 (Init_copy (Some (41, 0))), Advance gpio2_ok 3 (Init_requested 41),
     Advance gpio2_ok 3 (Init_registered 41), Advance gpio2_ok 3 Init_stored, Release 3]"

lemma overlapping_inits_leak:
  "\<exists>s. gpio2_run (\<lambda>g. g + 160) (\<lambda>_. True) (conc_init soc_table) overlap s \<and>
     (200, 3) \<in> handlers (drv s) \<and> gpio_handler 3 (drv s) = None"
proof -
  obtain t where t: "gpio_request ok_env 41 pin40 = (0, t)" using request_41 by (metis prod.collapse)
  have "exec (\<lambda>g. g + 160) 2 overlap (conc_init soc_table) = Some (file3 None True {(200, 3)} (gpio_free 41 t) [])"
    by (simp add: overlap_def run_defs t gpio_release_def irq_free_def Let_def)
  from exec_run [OF this] show ?thesis by (intro exI conjI) (auto simp: file3_def gpio_handler_def)
qed

text \<open>An interrupt between \<open>request_irq\<close> and the first \<open>init_completion\<close> follows a null pointer.\<close>

lemma early_interrupt_crashes:
  "\<exists>s. gpio2_run (\<lambda>g. g + 160) serial (conc_init soc_table) (open_init 40) s \<and>
     (200, 3) \<in> handlers (drv s) \<and> gpio_handler 3 (drv s) \<noteq> None \<and> conc_handler 3 s = None"
  by (intro exI conjI, rule exec_serial [OF exec_init_40(1) conc_init_serial])
     (simp_all add: file3_def gpio_handler_def conc_handler_def)

text \<open>
  An interrupt between the end of a wait and its \<open>init_completion\<close> is lost: the
  second of two interrupts is forgotten and the next wait sleeps.
\<close>

definition two_interrupts :: "gpio2_event list" where
  "two_interrupts = [Interrupt 200 3, Enter gpio2_ok 3 (GPIO_IRQ_WAIT (Some (40, 0))), Advance gpio2_ok 3 (Wait_copy (Some (40, 0))),
     Advance gpio2_ok 3 Wait_sleep, Interrupt 200 3, Advance gpio2_ok 3 Wait_woken,
     Enter gpio2_ok 3 (GPIO_IRQ_WAIT (Some (40, 0))), Advance gpio2_ok 3 (Wait_copy (Some (40, 0)))]"

lemma late_interrupt_lost:
  "\<exists>s. gpio2_run (\<lambda>g. g + 160) serial (conc_init soc_table) (open_init 40 @ store_pin 40 @ two_interrupts) s \<and>
     calls s 3 = [Wait_sleep] \<and> call_step (\<lambda>g. g + 160) gpio2_ok 3 Wait_sleep s = Sleeps"
proof -
  have "exec (\<lambda>g. g + 160) 1 (open_init 40 @ store_pin 40 @ two_interrupts) (conc_init soc_table) =
      Some (file3 (Some \<lparr>irq_pin = 40, completed = 0\<rparr>) True {(200, 3)} pin40 [Wait_sleep])"
    by (simp add: two_interrupts_def run_defs)
  from exec_serial [OF this conc_init_serial] show ?thesis
    by (intro exI conjI) (auto simp: file3_def call_defs gpio2_ok_def)
qed

text \<open>
  Pin 0 is not recorded as owned: after opening a file, requesting interrupts on pin
  0 and closing the file, the handler is still registered for the closed file
  and the next interrupt uses freed memory.
\<close>

definition soc0_table :: gpio_state where
  "soc0_table = snd (snd (gpiochip_add 0 (soc_chip\<lparr>base := 0\<rparr>) gpio_init))"

lemma soc0_request: "fst (gpio_request ok_env 0 soc0_table) = 0"
  by code_simp

lemma gpio2_pin0_leaks:
  "\<exists>s. gpio2_run (\<lambda>g. g + 160) serial (conc_init soc0_table) (open_init 0 @ store_pin 0 @ [Release 3]) s \<and>
     (160, 3) \<in> handlers (drv s) \<and> gpio_handler 3 (drv s) = None"
proof -
  obtain t where t: "gpio_request ok_env 0 soc0_table = (0, t)" using soc0_request by (metis prod.collapse)
  have "exec (\<lambda>g. g + 160) 1 (open_init 0 @ store_pin 0 @ [Release 3]) (conc_init soc0_table) = Some (file3 None True {(160, 3)} t [])"
    by (simp add: run_defs t gpio_release_def irq_free_def Let_def)
  from exec_serial [OF this conc_init_serial] show ?thesis by (intro exI conjI) (auto simp: file3_def gpio_handler_def)
qed

end
