(* ===== verification/Dmtimer.thy ===== *)
theory Dmtimer
  imports Exclusive
begin

text \<open>
  The part of arch/arm/plat-omap/dmtimer.c that the PWM driver uses: reservation
  of the twelve general purpose timers and the register accesses that configure
  and run one.  A timer is its flags and its register file; a register reads back
  what was written.  The register values after a software reset and the clock
  rates of the platform are parameters (\<open>dm_env\<close>).
\<close>

section \<open>Data\<close>

datatype dm_reg = CTRL | LOAD | MATCH | TRIGGER | STAT | IF_CTRL | OCP_CFG

record dm_timer =
  fclk_rate :: nat
  reserved :: bool
  enabled :: bool
  posted :: bool
  regs :: "dm_reg \<Rightarrow> u32"

record dm_env =
  reset_regs :: "dm_reg \<Rightarrow> u32"
  source_rate :: "nat \<Rightarrow> nat"

definition NO_DM_TIMERS :: nat where
  "NO_DM_TIMERS = 12"

text \<open>Bits of the control register.\<close>

definition CTRL_ST :: u32 where "CTRL_ST = push_bit 0 1"
definition CTRL_AR :: u32 where "CTRL_AR = push_bit 1 1"
definition CTRL_PRE :: u32 where "CTRL_PRE = push_bit 5 1"
definition CTRL_CE :: u32 where "CTRL_CE = push_bit 6 1"
definition CTRL_SCPWM :: u32 where "CTRL_SCPWM = push_bit 7 1"
definition CTRL_PT :: u32 where "CTRL_PT = push_bit 12 1"
definition CTRL_GPOCFG :: u32 where "CTRL_GPOCFG = push_bit 14 1"

lemmas ctrl_bits = CTRL_ST_def CTRL_AR_def CTRL_PRE_def CTRL_CE_def CTRL_SCPWM_def CTRL_PT_def CTRL_GPOCFG_def

definition OMAP_TIMER_SRC_SYS_CLK :: nat where "OMAP_TIMER_SRC_SYS_CLK = 0"
definition OMAP_TIMER_SRC_32_KHZ :: nat where "OMAP_TIMER_SRC_32_KHZ = 1"
definition OMAP_TIMER_TRIGGER_OVERFLOW_AND_COMPARE :: nat where "OMAP_TIMER_TRIGGER_OVERFLOW_AND_COMPARE = 2"

section \<open>Register access\<close>

definition omap_dm_timer_read_reg :: "dm_timer \<Rightarrow> dm_reg \<Rightarrow> u32" where
  "omap_dm_timer_read_reg t r = regs t r"

definition omap_dm_timer_write_reg :: "dm_reg \<Rightarrow> u32 \<Rightarrow> dm_timer \<Rightarrow> dm_timer" where
  "omap_dm_timer_write_reg r v t = t\<lparr>regs := (regs t)(r := v)\<rparr>"

definition omap_dm_timer_set_source :: "dm_env \<Rightarrow> nat \<Rightarrow> dm_timer \<Rightarrow> dm_timer" where
  "omap_dm_timer_set_source env source t = t\<lparr>fclk_rate := source_rate env source\<rparr>"

text \<open>The first timer is not reset on this CPU class.\<close>

definition omap_dm_timer_reset :: "dm_env \<Rightarrow> nat \<Rightarrow> dm_timer \<Rightarrow> dm_timer" where
  "omap_dm_timer_reset env i t =
     (let t1 = (if i \<noteq> 0 then (omap_dm_timer_write_reg IF_CTRL 6 t)\<lparr>regs := reset_regs env\<rparr> else t);
          t2 = omap_dm_timer_set_source env OMAP_TIMER_SRC_32_KHZ t1;
          l = omap_dm_timer_read_reg t2 OCP_CFG OR push_bit 3 2 OR push_bit 8 2 OR push_bit 2 1;
          t3 = omap_dm_timer_write_reg OCP_CFG l t2;
          t4 = omap_dm_timer_write_reg IF_CTRL (push_bit 2 1) t3
      in t4\<lparr>posted := True\<rparr>)"

definition omap_dm_timer_enable :: "dm_timer \<Rightarrow> dm_timer" where
  "omap_dm_timer_enable t = (if enabled t then t else t\<lparr>enabled := True\<rparr>)"

definition omap_dm_timer_disable :: "dm_timer \<Rightarrow> dm_timer" where
  "omap_dm_timer_disable t = (if \<not> enabled t then t else t\<lparr>enabled := False\<rparr>)"

definition omap_dm_timer_prepare :: "dm_env \<Rightarrow> nat \<Rightarrow> dm_timer \<Rightarrow> dm_timer" where
  "omap_dm_timer_prepare env i t = omap_dm_timer_reset env i (omap_dm_timer_enable t)"

section \<open>Reservation\<close>

text \<open>Timers are numbered from 1; the result is the index in \<open>dm_timers\<close>, or \<open>None\<close> for a null pointer.\<close>

definition omap_dm_timer_request_specific :: "dm_env \<Rightarrow> int \<Rightarrow> dm_timer list \<Rightarrow> nat option \<times> dm_timer list" where
  "omap_dm_timer_request_specific env n ts =
     (if n \<le> 0 \<or> n > int NO_DM_TIMERS \<or> reserved (ts ! nat (n - 1)) then (None, ts)
      else let i = nat (n - 1)
           in (Some i, ts[i := omap_dm_timer_prepare env i ((ts ! i)\<lparr>reserved := True\<rparr>)]))"

definition omap_dm_timer_free :: "dm_env \<Rightarrow> nat \<Rightarrow> dm_timer list \<Rightarrow> dm_timer list" where
  "omap_dm_timer_free env i ts =
     ts[i := (omap_dm_timer_disable (omap_dm_timer_reset env i (omap_dm_timer_enable (ts ! i))))\<lparr>reserved := False\<rparr>]"

section \<open>Running a timer\<close>

definition omap_dm_timer_trigger :: "dm_timer \<Rightarrow> dm_timer" where
  "omap_dm_timer_trigger = omap_dm_timer_write_reg TRIGGER 0"

definition omap_dm_timer_start :: "dm_timer \<Rightarrow> dm_timer" where
  "omap_dm_timer_start t =
     (let l = omap_dm_timer_read_reg t CTRL
      in if l AND CTRL_ST = 0 then omap_dm_timer_write_reg CTRL (l OR CTRL_ST) t else t)"

definition omap_dm_timer_stop :: "dm_timer \<Rightarrow> dm_timer" where
  "omap_dm_timer_stop t =
     (let l = omap_dm_timer_read_reg t CTRL
      in if l AND CTRL_ST \<noteq> 0
         then omap_dm_timer_write_reg STAT 2 (omap_dm_timer_write_reg CTRL (l AND NOT 1) t) else t)"

definition omap_dm_timer_set_load :: "bool \<Rightarrow> u32 \<Rightarrow> dm_timer \<Rightarrow> dm_timer" where
  "omap_dm_timer_set_load autoreload v t =
     (let l = omap_dm_timer_read_reg t CTRL;
          l = (if autoreload then l OR CTRL_AR else l AND NOT CTRL_AR)
      in omap_dm_timer_write_reg TRIGGER 0 (omap_dm_timer_write_reg LOAD v (omap_dm_timer_write_reg CTRL l t)))"

definition omap_dm_timer_set_match :: "bool \<Rightarrow> u32 \<Rightarrow> dm_timer \<Rightarrow> dm_timer" where
  "omap_dm_timer_set_match enable v t =
     (let l = omap_dm_timer_read_reg t CTRL;
          l = (if enable then l OR CTRL_CE else l AND NOT CTRL_CE)
      in omap_dm_timer_write_reg MATCH v (omap_dm_timer_write_reg CTRL l t))"

definition omap_dm_timer_set_pwm :: "bool \<Rightarrow> bool \<Rightarrow> nat \<Rightarrow> dm_timer \<Rightarrow> dm_timer" where
  "omap_dm_timer_set_pwm def_on toggle trig t =
     (let l = omap_dm_timer_read_reg t CTRL;
          l = l AND NOT (CTRL_GPOCFG OR CTRL_SCPWM OR CTRL_PT OR push_bit 10 3);
          l = (if def_on then l OR CTRL_SCPWM else l);
          l = (if toggle then l OR CTRL_PT else l);
          l = l OR push_bit 10 (of_nat trig)
      in omap_dm_timer_write_reg CTRL l t)"

definition omap_dm_timer_set_prescaler :: "int \<Rightarrow> dm_timer \<Rightarrow> dm_timer" where
  "omap_dm_timer_set_prescaler prescaler t =
     (let l = omap_dm_timer_read_reg t CTRL AND NOT (CTRL_PRE OR push_bit 2 7);
          l = (if 0 \<le> prescaler \<and> prescaler \<le> 7 then l OR CTRL_PRE OR push_bit 2 (of_int prescaler) else l)
      in omap_dm_timer_write_reg CTRL l t)"

lemmas dm_timer_defs = omap_dm_timer_read_reg_def omap_dm_timer_write_reg_def omap_dm_timer_trigger_def
  omap_dm_timer_start_def omap_dm_timer_stop_def omap_dm_timer_set_load_def omap_dm_timer_set_match_def
  omap_dm_timer_set_pwm_def omap_dm_timer_set_prescaler_def omap_dm_timer_set_source_def

section \<open>Reservation is exclusive\<close>

lemma reserved_frame [simp]:
  "reserved (omap_dm_timer_enable t) = reserved t" "reserved (omap_dm_timer_disable t) = reserved t"
  "reserved (omap_dm_timer_reset env i t) = reserved t" "reserved (omap_dm_timer_prepare env i t) = reserved t"
  "reserved (omap_dm_timer_trigger t) = reserved t" "reserved (omap_dm_timer_start t) = reserved t"
  "reserved (omap_dm_timer_stop t) = reserved t" "reserved (omap_dm_timer_set_load a v t) = reserved t"
  "reserved (omap_dm_timer_set_match a v t) = reserved t" "reserved (omap_dm_timer_set_pwm d g k t) = reserved t"
  "reserved (omap_dm_timer_set_prescaler p t) = reserved t" "reserved (omap_dm_timer_set_source env c t) = reserved t"
  by (simp_all add: dm_timer_defs omap_dm_timer_enable_def omap_dm_timer_disable_def omap_dm_timer_reset_def
        omap_dm_timer_prepare_def Let_def)

definition timers_ok :: "dm_timer list \<Rightarrow> bool" where
  "timers_ok ts \<longleftrightarrow> length ts = NO_DM_TIMERS"

definition reserved_ids :: "dm_timer list \<Rightarrow> int set" where
  "reserved_ids ts = {n. 1 \<le> n \<and> n \<le> int NO_DM_TIMERS \<and> reserved (ts ! nat (n - 1))}"

text \<open>The two calls with an error number for the null pointer, as the contract wants them.\<close>

definition timer_request :: "dm_env \<Rightarrow> int \<Rightarrow> dm_timer list \<Rightarrow> int \<times> dm_timer list" where
  "timer_request env n ts =
     (case omap_dm_timer_request_specific env n ts of (None, ts') \<Rightarrow> (-ENODEV, ts') | (Some _, ts') \<Rightarrow> (0, ts'))"

definition timer_release :: "dm_env \<Rightarrow> int \<Rightarrow> dm_timer list \<Rightarrow> dm_timer list" where
  "timer_release env n ts = (if 1 \<le> n \<and> n \<le> int NO_DM_TIMERS then omap_dm_timer_free env (nat (n - 1)) ts else ts)"

lemma nat_pred_eq: "1 \<le> a \<Longrightarrow> 1 \<le> b \<Longrightarrow> nat (a - 1) = nat (b - 1) \<longleftrightarrow> a = (b :: int)"
  by auto

interpretation timers: exclusive_resource timers_ok reserved_ids timer_request "timer_release env" for env
proof
  show "timers_ok s'" if "timers_ok s" "timer_request e r s = (st, s')" for s e r st s'
    using that by (auto simp: timer_request_def omap_dm_timer_request_specific_def timers_ok_def Let_def split: if_splits)
  show "s' = s" if "timers_ok s" "timer_request e r s = (st, s')" "st < 0" for s e r st s'
    using that by (auto simp: timer_request_def omap_dm_timer_request_specific_def Let_def split: if_splits)
  show "r \<notin> reserved_ids s \<and> reserved_ids s' = insert r (reserved_ids s)"
    if "timers_ok s" "timer_request e r s = (st, s')" "0 \<le> st" for s e r st s'
    using that
    by (auto simp: timer_request_def omap_dm_timer_request_specific_def timers_ok_def reserved_ids_def Let_def errno_defs
         nth_list_update nat_pred_eq split: if_splits)
qed (auto simp: timer_release_def omap_dm_timer_free_def timers_ok_def reserved_ids_def nth_list_update nat_pred_eq split: if_splits)

end
