(* ===== verification/Omap_Pwm.thy ===== *)
theory Omap_Pwm
  imports Dmtimer
begin

text \<open>
  drivers/parrot/char/pwm/omap_pwm.c: twelve PWM channels on the general purpose
  timers.  Counts and register values are natural numbers with the stores into
  32-bit objects written out.  \<open>None\<close> is a fault: the use of a null timer
  pointer, of an element after the end of the channel array, or a division by 0.
\<close>

section \<open>Data\<close>

definition PWM_NB_TIMER :: nat where "PWM_NB_TIMER = 12"
definition MAX_UINT32 :: nat where "MAX_UINT32 = 2 ^ 32 - 1"
definition PWM_WIDTH_MAX :: nat where "PWM_WIDTH_MAX = 10000"

record s_omap_pwm =
  timer :: "nat option"
  pwm_active :: bool
  ratio :: nat
  freq :: nat

record omap_pwm_state =
  omap_pwm :: "s_omap_pwm list"
  pwm_precision_mask :: nat
  dm_timers :: "dm_timer list"

definition set_chan :: "nat \<Rightarrow> (s_omap_pwm \<Rightarrow> s_omap_pwm) \<Rightarrow> omap_pwm_state \<Rightarrow> omap_pwm_state" where
  "set_chan n f s = s\<lparr>omap_pwm := (omap_pwm s)[n := f (omap_pwm s ! n)]\<rparr>"

text \<open>A call on \<open>omap_pwm[n].timer\<close>.\<close>

definition on_timer :: "nat \<Rightarrow> (dm_timer \<Rightarrow> dm_timer) \<Rightarrow> omap_pwm_state \<Rightarrow> omap_pwm_state option" where
  "on_timer n f s =
     (if n < PWM_NB_TIMER
      then case timer (omap_pwm s ! n) of
             None \<Rightarrow> None
           | Some i \<Rightarrow> Some (s\<lparr>dm_timers := (dm_timers s)[i := f (dm_timers s ! i)]\<rparr>)
      else None)"

section \<open>Reservation of channels\<close>

definition omap_pwm_is_active :: "nat \<Rightarrow> omap_pwm_state \<Rightarrow> bool" where
  "omap_pwm_is_active n s \<longleftrightarrow> n < PWM_NB_TIMER \<and> pwm_active (omap_pwm s ! n)"

text \<open>A timer that was just reserved: toggle on overflow and match, both at the current mask.\<close>

definition setup_timer :: "nat \<Rightarrow> dm_timer \<Rightarrow> dm_timer" where
  "setup_timer m t =
     omap_dm_timer_set_prescaler 0
       (omap_dm_timer_set_match True (of_nat m)
         (omap_dm_timer_set_load True (of_nat m)
           (omap_dm_timer_set_pwm False True OMAP_TIMER_TRIGGER_OVERFLOW_AND_COMPARE t)))"

definition omap_pwm_set_active :: "dm_env \<Rightarrow> nat \<Rightarrow> bool \<Rightarrow> omap_pwm_state \<Rightarrow> int \<times> omap_pwm_state" where
  "omap_pwm_set_active env n active s =
     (if active
      then case omap_dm_timer_request_specific env (int n) (dm_timers s) of
             (None, ts) \<Rightarrow> (-ENODEV, set_chan n (\<lambda>c. c\<lparr>timer := None\<rparr>) (s\<lparr>dm_timers := ts\<rparr>))
           | (Some i, ts) \<Rightarrow>
               (0, set_chan n (\<lambda>c. c\<lparr>timer := Some i, pwm_active := True\<rparr>)
                     (s\<lparr>dm_timers := ts[i := setup_timer (pwm_precision_mask s) (ts ! i)]\<rparr>))
      else let s1 = (case timer (omap_pwm s ! n) of
                       None \<Rightarrow> s
                     | Some i \<Rightarrow> s\<lparr>dm_timers := omap_dm_timer_free env i (dm_timers s)\<rparr>)
           in (0, set_chan n (\<lambda>c. c\<lparr>pwm_active := False\<rparr>) s1))"

text \<open>The result of \<open>omap_pwm_set_active\<close> is dropped.\<close>

definition omap_pwm_request :: "dm_env \<Rightarrow> nat \<Rightarrow> omap_pwm_state \<Rightarrow> (int \<times> omap_pwm_state) option" where
  "omap_pwm_request env n s =
     (if n \<ge> PWM_NB_TIMER then Some (-EINVAL, s)
      else if omap_pwm_is_active n s then Some (-EBUSY, s)
      else Some (0, snd (omap_pwm_set_active env n True s)))"

definition omap_pwm_release :: "dm_env \<Rightarrow> nat \<Rightarrow> omap_pwm_state \<Rightarrow> (int \<times> omap_pwm_state) option" where
  "omap_pwm_release env n s =
     (if n \<ge> PWM_NB_TIMER then Some (-EINVAL, s)
      else if \<not> omap_pwm_is_active n s then Some (-EBUSY, s)
      else Some (0, snd (omap_pwm_set_active env n False s)))"

section \<open>Running and configuring a channel\<close>

definition omap_pwm_start :: "nat \<Rightarrow> omap_pwm_state \<Rightarrow> (int \<times> omap_pwm_state) option" where
  "omap_pwm_start n s =
     (if n > PWM_NB_TIMER then Some (-EINVAL, s)
      else map_option (Pair 0)
             (on_timer n (\<lambda>t. omap_dm_timer_trigger (omap_dm_timer_start (omap_dm_timer_enable t))) s))"

definition omap_pwm_stop :: "nat \<Rightarrow> omap_pwm_state \<Rightarrow> (int \<times> omap_pwm_state) option" where
  "omap_pwm_stop n s =
     (if n > PWM_NB_TIMER then Some (-EINVAL, s)
      else map_option (Pair 0) (on_timer n (\<lambda>t. omap_dm_timer_disable (omap_dm_timer_stop t)) s))"

text \<open>
  \<open>compute_ratio\<close>: the product is at most \<open>10000 * (2 ^ 32 - 1) + 5000\<close> and
  does not wrap in 64 bits; \<open>-EINVAL\<close> is converted to unsigned.
\<close>

definition compute_ratio :: "nat \<Rightarrow> nat \<Rightarrow> nat" where
  "compute_ratio m r =
     (if r > PWM_WIDTH_MAX then 2 ^ 32 - nat EINVAL
      else let val = to_u32 ((r * (MAX_UINT32 - m) + PWM_WIDTH_MAX div 2) div PWM_WIDTH_MAX)
           in if val = MAX_UINT32 - m \<and> val \<noteq> 0 then MAX_UINT32 - m - 1 else val)"

definition omap_pwm_set_width :: "nat \<Rightarrow> nat \<Rightarrow> omap_pwm_state \<Rightarrow> (int \<times> omap_pwm_state) option" where
  "omap_pwm_set_width n r s =
     (if n > PWM_NB_TIMER then Some (-EINVAL, s)
      else if r > PWM_WIDTH_MAX then Some (-EINVAL, s)
      else map_option (Pair 0)
             (on_timer n (omap_dm_timer_set_match True
                 (of_nat (to_u32 (pwm_precision_mask s + compute_ratio (pwm_precision_mask s) r))))
               (set_chan n (\<lambda>c. c\<lparr>ratio := r\<rparr>) s)))"

text \<open>
  The divisor is 0 as long as no frequency was set on any channel; the division
  is then a fault (\<open>__div0\<close>).
\<close>

definition omap_pwm_get_width :: "nat \<Rightarrow> omap_pwm_state \<Rightarrow> (int \<times> nat) option" where
  "omap_pwm_get_width n s =
     (if n > PWM_NB_TIMER then Some (-EINVAL, 0)
      else if n = PWM_NB_TIMER then None
      else if MAX_UINT32 - pwm_precision_mask s = 0 then None
      else Some (0, to_u32 (compute_ratio (pwm_precision_mask s) (ratio (omap_pwm s ! n)) * PWM_WIDTH_MAX
                              div (MAX_UINT32 - pwm_precision_mask s))))"

definition omap_pwm_set_freq :: "dm_env \<Rightarrow> nat \<Rightarrow> nat \<Rightarrow> omap_pwm_state \<Rightarrow> (int \<times> omap_pwm_state) option" where
  "omap_pwm_set_freq env n f s =
     (if n > PWM_NB_TIMER then Some (-EINVAL, s)
      else case on_timer n (omap_dm_timer_set_source env OMAP_TIMER_SRC_SYS_CLK) s of
        None \<Rightarrow> None
      | Some s1 \<Rightarrow>
          let clk_speed = to_u32 (source_rate env OMAP_TIMER_SRC_SYS_CLK)
          in if f \<ge> clk_speed div 2 \<or> f = 0 then Some (-EINVAL, s1)
             else let pwm_ratio = (clk_speed div 2) div f;
                      pwm_speed = (clk_speed div 2) div pwm_ratio;
                      m = MAX_UINT32 - pwm_ratio;
                      s2 = (set_chan n (\<lambda>c. c\<lparr>freq := pwm_speed\<rparr>) s1)\<lparr>pwm_precision_mask := m\<rparr>
                  in case on_timer n (omap_dm_timer_set_load True (of_nat m)) s2 of
                       None \<Rightarrow> None
                     | Some s3 \<Rightarrow>
                         case omap_pwm_get_width n s3 of
                           None \<Rightarrow> None
                         | Some (_, r) \<Rightarrow>
                             case omap_pwm_set_width n r s3 of
                               None \<Rightarrow> None
                             | Some (_, s4) \<Rightarrow> Some (0, s4))"

definition omap_pwm_get_freq :: "nat \<Rightarrow> omap_pwm_state \<Rightarrow> (int \<times> nat) option" where
  "omap_pwm_get_freq n s =
     (if n > PWM_NB_TIMER then Some (-EINVAL, 0)
      else if n = PWM_NB_TIMER then None
      else Some (0, freq (omap_pwm s ! n)))"

definition omap_pwm_init :: "dm_timer list \<Rightarrow> omap_pwm_state" where
  "omap_pwm_init ts =
     \<lparr>omap_pwm = replicate PWM_NB_TIMER \<lparr>timer = None, pwm_active = False, ratio = 0, freq = 0\<rparr>,
      pwm_precision_mask = MAX_UINT32, dm_timers = ts\<rparr>"

section \<open>Widths\<close>

text \<open>With a period of \<open>P\<close> counts the match lies inside the period and never at its end.\<close>

lemma compute_ratio_eq:
  assumes "r \<le> PWM_WIDTH_MAX" and "m \<le> MAX_UINT32"
  defines "P \<equiv> MAX_UINT32 - m" and "v \<equiv> (r * (MAX_UINT32 - m) + 5000) div 10000"
  shows "compute_ratio m r = (if v = P \<and> v \<noteq> 0 then P - 1 else v)" and "v \<le> P"
proof -
  define x where "x = r * P"
  have "x \<le> 10000 * P" using assms(1) unfolding x_def PWM_WIDTH_MAX_def by (rule mult_le_mono1)
  then have "(x + 5000) div 10000 \<le> P" by linarith
  then show "v \<le> P" by (simp add: v_def P_def x_def)
  also have "P \<le> MAX_UINT32" by (simp add: P_def)
  finally have "v \<le> MAX_UINT32" .
  then have e: "to_u32 v = v" by (intro to_u32_id) (simp add: MAX_UINT32_def)
  have "\<not> r > PWM_WIDTH_MAX" "PWM_WIDTH_MAX div 2 = 5000" using assms(1) by (simp_all add: PWM_WIDTH_MAX_def)
  then have "compute_ratio m r = (if to_u32 v = P \<and> to_u32 v \<noteq> 0 then P - 1 else to_u32 v)"
    unfolding compute_ratio_def Let_def v_def P_def by (simp only: PWM_WIDTH_MAX_def if_False)
  then show "compute_ratio m r = (if v = P \<and> v \<noteq> 0 then P - 1 else v)" by (simp only: e)
qed

lemma compute_ratio_less:
  assumes "r \<le> PWM_WIDTH_MAX" and "m < MAX_UINT32"
  shows "compute_ratio m r < MAX_UINT32 - m"
  using compute_ratio_eq [OF assms(1) less_imp_le [OF assms(2)]] assms(2) by auto

text \<open>The width read back after a write, for a period of more than 5000 counts.\<close>

lemma width_quantisation:
  fixes P r v w :: nat
  assumes P: "5000 < P" and r: "r \<le> 10000"
    and v: "v = (r * P + 5000) div 10000" and w: "w = (if v = P \<and> v \<noteq> 0 then P - 1 else v) * 10000 div P"
  shows "w \<le> r" and "r \<le> w + 2"
proof -
  define x where "x = r * P"
  have vb: "v * 10000 \<le> x + 5000" "x + 5000 < v * 10000 + 10000" unfolding v x_def by linarith+
  define u where "u = (if v = P \<and> v \<noteq> 0 then P - 1 else v)"
  have u: "u \<le> v" "v \<le> u + 1" by (auto simp: u_def)
  have wb: "w * P \<le> u * 10000" "u * 10000 < (w + 1) * P"
    using P dividend_less_times_div [of P "u * 10000"] unfolding w u_def [symmetric]
    by (simp_all add: mult.commute [of _ P] times_div_less_eq_dividend)
  have "w * P \<le> x + 5000" using wb(1) u(1) vb(1) by linarith
  also have "\<dots> < (r + 1) * P" using P by (simp add: x_def algebra_simps)
  finally have "w < r + 1" by (simp only: mult_less_cancel2)
  then show "w \<le> r" by simp
  show "r \<le> w + 2"
  proof (cases "v = P")
    case True
    have "r * P \<le> 10000 * P" using r by (rule mult_le_mono1)
    also have "\<dots> = u * 10000 + 10000" using True P by (simp add: u_def algebra_simps)
    also have "\<dots> < (w + 1) * P + 2 * P" using wb(2) P by linarith
    also have "\<dots> = (w + 3) * P" by (simp add: algebra_simps)
    finally have "r < w + 3" by (simp only: mult_less_cancel2)
    then show ?thesis by simp
  next
    case False
    then have "u = v" by (simp add: u_def)
    with wb(2) vb(2) have "x < (w + 1) * P + 5000" by linarith
    also have "\<dots> < (w + 2) * P" using P by (simp add: algebra_simps)
    finally have "r < w + 2" unfolding x_def by (simp only: mult_less_cancel2)
    then show ?thesis by simp
  qed
qed

lemma on_timer_Some:
  assumes "on_timer n f s = Some s'"
  obtains i where "n < PWM_NB_TIMER" and "timer (omap_pwm s ! n) = Some i"
    and "s' = s\<lparr>dm_timers := (dm_timers s)[i := f (dm_timers s ! i)]\<rparr>"
  using assms by (auto simp: on_timer_def split: if_splits option.splits)

text \<open>The channel table as the operations leave it: twelve channels, timer pointers inside the timer table, the mask a 32-bit value.\<close>

definition pwm_wf :: "omap_pwm_state \<Rightarrow> bool" where
  "pwm_wf s \<longleftrightarrow>
     length (omap_pwm s) = PWM_NB_TIMER \<and> length (dm_timers s) = NO_DM_TIMERS \<and> pwm_precision_mask s \<le> MAX_UINT32 \<and>
     (\<forall>n < PWM_NB_TIMER. \<forall>i. timer (omap_pwm s ! n) = Some i \<longrightarrow> i < NO_DM_TIMERS) \<and>
     (\<forall>n < PWM_NB_TIMER. ratio (omap_pwm s ! n) \<le> PWM_WIDTH_MAX)"

lemma u32_of_nat: "x \<le> MAX_UINT32 \<Longrightarrow> unat (of_nat x :: u32) = x"
  by (simp add: MAX_UINT32_def unat_of_nat)

lemma set_match_regs:
  "regs (omap_dm_timer_set_match True v t) MATCH = v" "regs (omap_dm_timer_set_match True v t) LOAD = regs t LOAD"
  "bit (regs (omap_dm_timer_set_match True v t) CTRL) 6"
  by (simp_all add: dm_timer_defs CTRL_CE_def bit_or_iff bit_push_bit_iff)

lemma set_width_effect:
  assumes wf: "pwm_wf s" and ok: "omap_pwm_set_width n r s = Some (0, s')" and t: "timer (omap_pwm s ! n) = Some i"
  shows "n < PWM_NB_TIMER" and "r \<le> PWM_WIDTH_MAX" and "i < length (dm_timers s)" and "length (omap_pwm s) = PWM_NB_TIMER"
    and "s' = (set_chan n (\<lambda>c. c\<lparr>ratio := r\<rparr>) s)\<lparr>dm_timers := (dm_timers s)[i := omap_dm_timer_set_match True
       (of_nat (to_u32 (pwm_precision_mask s + compute_ratio (pwm_precision_mask s) r))) (dm_timers s ! i)]\<rparr>"
proof -
  let ?m = "pwm_precision_mask s"
  show r: "r \<le> PWM_WIDTH_MAX" using ok by (auto simp: omap_pwm_set_width_def errno_defs split: if_splits)
  obtain j where j: "n < PWM_NB_TIMER" "timer (omap_pwm (set_chan n (\<lambda>c. c\<lparr>ratio := r\<rparr>) s) ! n) = Some j"
    and s': "s' = (set_chan n (\<lambda>c. c\<lparr>ratio := r\<rparr>) s)\<lparr>dm_timers := (dm_timers s)[j := omap_dm_timer_set_match True
       (of_nat (to_u32 (?m + compute_ratio ?m r))) (dm_timers s ! j)]\<rparr>"
    using ok r by (auto simp: omap_pwm_set_width_def set_chan_def errno_defs elim!: on_timer_Some split: if_splits)
  show "n < PWM_NB_TIMER" by (rule j(1))
  show len: "length (omap_pwm s) = PWM_NB_TIMER" "i < length (dm_timers s)"
    using wf t j(1) by (auto simp: pwm_wf_def)
  then have "j = i" using j t by (simp add: set_chan_def)
  with s' show "s' = (set_chan n (\<lambda>c. c\<lparr>ratio := r\<rparr>) s)\<lparr>dm_timers := (dm_timers s)[i := omap_dm_timer_set_match True
       (of_nat (to_u32 (?m + compute_ratio ?m r))) (dm_timers s ! i)]\<rparr>" by simp
qed

lemma set_width_regs:
  assumes "pwm_wf s" and "omap_pwm_set_width n r s = Some (0, s')" and "timer (omap_pwm s ! n) = Some i"
    and "pwm_precision_mask s < MAX_UINT32"
  shows "unat (regs (dm_timers s' ! i) MATCH) = pwm_precision_mask s + compute_ratio (pwm_precision_mask s) r"
    and "unat (regs (dm_timers s' ! i) MATCH) < MAX_UINT32"
    and "regs (dm_timers s' ! i) LOAD = regs (dm_timers s ! i) LOAD" and "bit (regs (dm_timers s' ! i) CTRL) 6"
proof -
  let ?m = "pwm_precision_mask s"
  note e = set_width_effect [OF assms(1-3)]
  have lt: "?m + compute_ratio ?m r < MAX_UINT32" using compute_ratio_less [OF e(2) assms(4)] by linarith
  then have "to_u32 (?m + compute_ratio ?m r) = ?m + compute_ratio ?m r" by (simp add: MAX_UINT32_def)
  with e(3) u32_of_nat [OF less_imp_le [OF lt]]
  show "unat (regs (dm_timers s' ! i) MATCH) = ?m + compute_ratio ?m r"
    "regs (dm_timers s' ! i) LOAD = regs (dm_timers s ! i) LOAD" "bit (regs (dm_timers s' ! i) CTRL) 6"
    by (simp_all add: e(5) set_match_regs del: of_nat_add)
  with lt show "unat (regs (dm_timers s' ! i) MATCH) < MAX_UINT32" by simp
qed

text \<open>
  C22: A successful \<open>omap_pwm_set_width\<close> programs a match value at or after
  the mask of the last frequency that was set on any channel and strictly before the
  overflow, with comparison enabled and the reload value unchanged; so the match
  lies between the channel's reload value and the overflow if that last frequency was
  the channel's own (its reload value is the mask).  The width that is read
  back is below the requested one by at most 0.02\%, if the period of the last
  frequency has more than 5000 counts.
\<close>

theorem pwm_width_bounds:
  assumes "pwm_wf s" and "omap_pwm_set_width n r s = Some (0, s')" and "timer (omap_pwm s ! n) = Some i"
    and "pwm_precision_mask s < MAX_UINT32"
  shows "pwm_precision_mask s \<le> unat (regs (dm_timers s' ! i) MATCH) \<and> unat (regs (dm_timers s' ! i) MATCH) < MAX_UINT32 \<and>
         bit (regs (dm_timers s' ! i) CTRL) 6 \<and> regs (dm_timers s' ! i) LOAD = regs (dm_timers s ! i) LOAD \<and>
         (unat (regs (dm_timers s ! i) LOAD) = pwm_precision_mask s \<longrightarrow>
            unat (regs (dm_timers s' ! i) LOAD) \<le> unat (regs (dm_timers s' ! i) MATCH)) \<and>
         (\<exists>w. omap_pwm_get_width n s' = Some (0, w) \<and>
              (5000 < MAX_UINT32 - pwm_precision_mask s \<longrightarrow> w \<le> r \<and> r \<le> w + 2))"
proof -
  let ?m = "pwm_precision_mask s"
  note e = set_width_effect [OF assms(1-3)] and regs = set_width_regs [OF assms]
  have lt: "compute_ratio ?m r < MAX_UINT32 - ?m" by (rule compute_ratio_less [OF e(2) assms(4)])
  have "omap_pwm_get_width n s' = Some (0, compute_ratio ?m r * 10000 div (MAX_UINT32 - ?m))"
  proof -
    have "compute_ratio ?m r * 10000 div (MAX_UINT32 - ?m) \<le> 10000"
      using lt by (metis div_le_mono less_imp_le mult_le_mono1 nonzero_mult_div_cancel_left mult.commute not_less_zero)
    then have "to_u32 (compute_ratio ?m r * 10000 div (MAX_UINT32 - ?m)) = compute_ratio ?m r * 10000 div (MAX_UINT32 - ?m)"
      by (intro to_u32_id) simp
    then show ?thesis
      using e(1,4) assms(4) by (simp add: omap_pwm_get_width_def e(5) set_chan_def PWM_WIDTH_MAX_def)
  qed
  moreover have "w \<le> r \<and> r \<le> w + 2" if "5000 < MAX_UINT32 - ?m" "w = compute_ratio ?m r * 10000 div (MAX_UINT32 - ?m)" for w
  proof -
    have "r \<le> 10000" using e(2) by (simp add: PWM_WIDTH_MAX_def)
    from width_quantisation [OF that(1) this refl that(2) [unfolded compute_ratio_eq(1) [OF e(2) less_imp_le [OF assms(4)]]]]
    show ?thesis by blast
  qed
  ultimately show ?thesis using regs by auto
qed

section \<open>Frequencies\<close>

lemma get_width_returns:
  assumes "n < PWM_NB_TIMER" and "pwm_precision_mask s < MAX_UINT32"
  obtains e w where "omap_pwm_get_width n s = Some (e, w)"
  using assms by (simp add: omap_pwm_get_width_def)

lemma get_width_le:
  assumes "omap_pwm_get_width n s = Some (e, r)" and "ratio (omap_pwm s ! n) \<le> PWM_WIDTH_MAX" and "pwm_precision_mask s < MAX_UINT32"
  shows "r \<le> PWM_WIDTH_MAX"
proof -
  define P c where "P = MAX_UINT32 - pwm_precision_mask s" and "c = compute_ratio (pwm_precision_mask s) (ratio (omap_pwm s ! n))"
  have "c < P" unfolding c_def P_def by (rule compute_ratio_less [OF assms(2,3)])
  then have "c * PWM_WIDTH_MAX div P \<le> PWM_WIDTH_MAX"
    by (metis div_le_mono less_imp_le mult_le_mono1 nonzero_mult_div_cancel_left not_less_zero)
  moreover have "to_u32 x \<le> x" for x by (simp add: to_u32_def)
  ultimately have "to_u32 (c * PWM_WIDTH_MAX div P) \<le> PWM_WIDTH_MAX" using le_trans by blast
  then show ?thesis using assms(1) by (auto simp: omap_pwm_get_width_def c_def P_def split: if_splits)
qed

lemma set_load_regs:
  "regs (omap_dm_timer_set_load True v t) LOAD = v" "regs (omap_dm_timer_set_load True v t) MATCH = regs t MATCH"
  by (simp_all add: dm_timer_defs Let_def)

text \<open>The state that a successful \<open>omap_pwm_set_freq\<close> passes to \<open>omap_pwm_set_width\<close>.\<close>

lemma set_freq_steps:
  assumes wf: "pwm_wf s" and ok: "omap_pwm_set_freq env n f s = Some (0, s')" and t: "timer (omap_pwm s ! n) = Some i"
  defines "C \<equiv> to_u32 (source_rate env OMAP_TIMER_SRC_SYS_CLK) div 2"
  obtains s3 r where "0 < f" and "f < C" and "n < PWM_NB_TIMER" and "omap_pwm_set_width n r s3 = Some (0, s')"
    and "pwm_wf s3" and "pwm_precision_mask s3 = MAX_UINT32 - C div f" and "timer (omap_pwm s3 ! n) = Some i"
    and "freq (omap_pwm s3 ! n) = C div (C div f)" and "unat (regs (dm_timers s3 ! i) LOAD) = MAX_UINT32 - C div f"
    and "r \<le> PWM_WIDTH_MAX"
proof -
  have n: "n \<le> PWM_NB_TIMER" using ok by (auto simp: omap_pwm_set_freq_def errno_defs split: if_splits)
  obtain s1 where s1: "on_timer n (omap_dm_timer_set_source env OMAP_TIMER_SRC_SYS_CLK) s = Some s1"
    using ok n by (auto simp: omap_pwm_set_freq_def split: option.splits)
  then have nb: "n < PWM_NB_TIMER" by (rule on_timer_Some)
  have f: "0 < f" "f < C" using ok n s1 by (auto simp: omap_pwm_set_freq_def Let_def C_def errno_defs split: if_splits)
  define P m where "P = C div f" and "m = MAX_UINT32 - P"
  have P: "0 < P" using f by (simp add: P_def div_greater_zero_iff)
  have i: "i < NO_DM_TIMERS" and len: "length (omap_pwm s) = PWM_NB_TIMER" "length (dm_timers s) = NO_DM_TIMERS"
    using wf t nb by (auto simp: pwm_wf_def)
  define s2 where "s2 = (set_chan n (\<lambda>c. c\<lparr>freq := C div P\<rparr>) s1)\<lparr>pwm_precision_mask := m\<rparr>"
  have s1_eq: "s1 = s\<lparr>dm_timers := (dm_timers s)[i := omap_dm_timer_set_source env OMAP_TIMER_SRC_SYS_CLK (dm_timers s ! i)]\<rparr>"
    using s1 t by (auto elim: on_timer_Some)
  have t2: "timer (omap_pwm s2 ! n) = Some i" using t len nb by (simp add: s2_def s1_eq set_chan_def)
  define s3 where "s3 = s2\<lparr>dm_timers := (dm_timers s2)[i := omap_dm_timer_set_load True (of_nat m) (dm_timers s2 ! i)]\<rparr>"
  have s3: "on_timer n (omap_dm_timer_set_load True (of_nat m)) s2 = Some s3"
    using t2 nb by (simp add: on_timer_def s3_def)
  obtain e r where r: "omap_pwm_get_width n s3 = Some (e, r)"
    by (rule get_width_returns [OF nb, of s3]) (use P in \<open>simp_all add: s3_def s2_def m_def MAX_UINT32_def\<close>)
  have wf3: "pwm_wf s3"
    using wf nb len by (auto simp: pwm_wf_def s3_def s2_def s1_eq set_chan_def nth_list_update m_def split: if_splits)
  have m3: "pwm_precision_mask s3 = m" by (simp add: s3_def s2_def)
  have rl: "r \<le> PWM_WIDTH_MAX"
    by (rule get_width_le [OF r]) (use wf3 nb m3 P in \<open>auto simp: pwm_wf_def m_def MAX_UINT32_def\<close>)
  have "case omap_pwm_set_width n r s3 of None \<Rightarrow> False | Some (_, s4) \<Rightarrow> s4 = s'"
    using ok n s1 s3 r f by (auto simp: omap_pwm_set_freq_def Let_def C_def [symmetric] P_def [symmetric] m_def [symmetric]
        s2_def [symmetric] split: option.splits)
  then have "omap_pwm_set_width n r s3 = Some (0, s')"
    using n rl by (auto simp: omap_pwm_set_width_def split: option.splits)
  then show thesis
    by (rule that [OF f nb]) (use wf3 m3 t2 rl len i nb P in \<open>simp_all add: P_def [symmetric] m_def s3_def s2_def s1_eq set_chan_def set_load_regs u32_of_nat\<close>)
qed

text \<open>
  C21: A successful \<open>omap_pwm_set_freq\<close> reports a frequency that is at least
  the requested one and exceeds it by less than one part in the number of counts
  of the period, programs the reload value for that period, and leaves the match
  value between the reload value and the overflow.
\<close>

theorem pwm_set_freq_correct:
  assumes "pwm_wf s" and "omap_pwm_set_freq env n f s = Some (0, s')" and "timer (omap_pwm s ! n) = Some i"
  defines "C \<equiv> to_u32 (source_rate env OMAP_TIMER_SRC_SYS_CLK) div 2"
  defines "P \<equiv> C div f"
  shows "0 < P \<and> (\<exists>f'. omap_pwm_get_freq n s' = Some (0, f') \<and> f \<le> f' \<and> f' * P < f * P + f) \<and>
         unat (regs (dm_timers s' ! i) LOAD) = MAX_UINT32 - P \<and>
         unat (regs (dm_timers s' ! i) LOAD) \<le> unat (regs (dm_timers s' ! i) MATCH) \<and>
         unat (regs (dm_timers s' ! i) MATCH) < MAX_UINT32"
proof -
  from assms(1-3) obtain s3 r where f: "0 < f" "f < C" and nb: "n < PWM_NB_TIMER"
    and w: "omap_pwm_set_width n r s3 = Some (0, s')" "pwm_wf s3" "timer (omap_pwm s3 ! n) = Some i"
    and m: "pwm_precision_mask s3 = MAX_UINT32 - P" and fr: "freq (omap_pwm s3 ! n) = C div P"
    and ld: "unat (regs (dm_timers s3 ! i) LOAD) = MAX_UINT32 - P"
    unfolding P_def C_def by (rule set_freq_steps)
  have P: "0 < P" using f by (simp add: P_def div_greater_zero_iff)
  then have "pwm_precision_mask s3 < MAX_UINT32" by (simp add: m MAX_UINT32_def)
  note regs = set_width_regs [OF w(2,1,3) this]
  have "f * P \<le> C" by (simp add: P_def)
  then have le: "f \<le> C div P" using P by (simp add: less_eq_div_iff_mult_less_eq)
  have "C div P * P \<le> C" by simp
  also have "C < f * P + f" unfolding P_def by (rule dividend_less_times_div [OF f(1), unfolded add.commute [of f]])
  finally have up: "C div P * P < f * P + f" .
  have "omap_pwm_get_freq n s' = Some (0, C div P)"
    using nb fr set_width_effect(4,5) [OF w(2,1,3)] by (simp add: omap_pwm_get_freq_def set_chan_def)
  with P le up regs ld m show ?thesis by auto
qed

section \<open>Every operation keeps the tables well formed\<close>

lemma pwm_wf_chan:
  assumes "pwm_wf s" and "\<And>c i. timer (g c) = Some i \<Longrightarrow> timer c = Some i \<or> i < NO_DM_TIMERS"
    and "\<And>c. ratio c \<le> PWM_WIDTH_MAX \<Longrightarrow> ratio (g c) \<le> PWM_WIDTH_MAX"
  shows "pwm_wf (set_chan n g s)"
proof (cases "n < PWM_NB_TIMER")
  case True
  have "i < NO_DM_TIMERS" if "k < PWM_NB_TIMER" "timer ((omap_pwm s)[n := g (omap_pwm s ! n)] ! k) = Some i" for k i
    using assms(1) that True assms(2) [of "omap_pwm s ! n" i] by (cases "k = n") (auto simp: pwm_wf_def)
  moreover have "ratio ((omap_pwm s)[n := g (omap_pwm s ! n)] ! k) \<le> PWM_WIDTH_MAX" if "k < PWM_NB_TIMER" for k
    using assms(1) that True assms(3) [of "omap_pwm s ! n"] by (cases "k = n") (auto simp: pwm_wf_def)
  ultimately show ?thesis using assms(1) by (simp add: pwm_wf_def set_chan_def)
next
  case False
  then have "set_chan n g s = s" using assms(1) by (simp add: set_chan_def pwm_wf_def list_update_beyond)
  with assms(1) show ?thesis by simp
qed

lemma pwm_wf_timers: "pwm_wf s \<Longrightarrow> length ts = NO_DM_TIMERS \<Longrightarrow> pwm_wf (s\<lparr>dm_timers := ts\<rparr>)"
  by (simp add: pwm_wf_def)

lemma on_timer_wf: "on_timer n f s = Some s' \<Longrightarrow> pwm_wf s \<Longrightarrow> pwm_wf s'"
  by (erule on_timer_Some) (auto intro!: pwm_wf_timers simp: pwm_wf_def)

lemma omap_pwm_set_active_wf:
  assumes wf: "pwm_wf s"
  shows "pwm_wf (snd (omap_pwm_set_active env n active s))"
proof (cases active)
  case False
  have "pwm_wf (s\<lparr>dm_timers := omap_dm_timer_free env i (dm_timers s)\<rparr>)" for i
    using wf by (intro pwm_wf_timers) (auto simp: omap_dm_timer_free_def pwm_wf_def)
  with False wf show ?thesis
    by (auto simp: omap_pwm_set_active_def Let_def split: option.splits intro!: pwm_wf_chan)
next
  case True
  obtain t ts where q: "omap_dm_timer_request_specific env (int n) (dm_timers s) = (t, ts)" by force
  have len: "length ts = NO_DM_TIMERS" and t: "\<And>i. t = Some i \<Longrightarrow> i < NO_DM_TIMERS"
    using q wf by (auto simp: omap_dm_timer_request_specific_def pwm_wf_def Let_def split: if_splits)
  have "pwm_wf (s\<lparr>dm_timers := us\<rparr>)" if "length us = NO_DM_TIMERS" for us using pwm_wf_timers [OF wf that] .
  with True len t show ?thesis
    by (auto simp: omap_pwm_set_active_def q split: option.splits intro!: pwm_wf_chan)
qed

lemma omap_pwm_request_wf: "omap_pwm_request env n s = Some (r, s') \<Longrightarrow> pwm_wf s \<Longrightarrow> pwm_wf s'"
  by (auto simp: omap_pwm_request_def omap_pwm_set_active_wf split: if_splits)

lemma omap_pwm_release_wf: "omap_pwm_release env n s = Some (r, s') \<Longrightarrow> pwm_wf s \<Longrightarrow> pwm_wf s'"
  by (auto simp: omap_pwm_release_def omap_pwm_set_active_wf split: if_splits)

lemma omap_pwm_start_wf: "omap_pwm_start n s = Some (r, s') \<Longrightarrow> pwm_wf s \<Longrightarrow> pwm_wf s'"
  by (auto simp: omap_pwm_start_def dest: on_timer_wf split: if_splits)

lemma omap_pwm_stop_wf: "omap_pwm_stop n s = Some (r, s') \<Longrightarrow> pwm_wf s \<Longrightarrow> pwm_wf s'"
  by (auto simp: omap_pwm_stop_def dest: on_timer_wf split: if_splits)

lemma omap_pwm_set_width_wf: "omap_pwm_set_width n w s = Some (r, s') \<Longrightarrow> pwm_wf s \<Longrightarrow> pwm_wf s'"
  by (auto simp: omap_pwm_set_width_def intro: pwm_wf_chan dest!: on_timer_wf split: if_splits)

lemma omap_pwm_set_freq_wf:
  assumes "omap_pwm_set_freq env n f s = Some (r, s')" and "pwm_wf s"
  shows "pwm_wf s'"
proof -
  have mask: "pwm_wf ((set_chan n (\<lambda>c. c\<lparr>freq := y\<rparr>) t)\<lparr>pwm_precision_mask := MAX_UINT32 - x\<rparr>)" if "pwm_wf t" for t x y
    using pwm_wf_chan [OF that, of "\<lambda>c. c\<lparr>freq := y\<rparr>" n] by (simp add: pwm_wf_def)
  show ?thesis
    using assms mask
    by (auto simp: omap_pwm_set_freq_def Let_def split: if_splits option.splits dest: on_timer_wf)
      (erule omap_pwm_set_width_wf, erule on_timer_wf, blast intro: on_timer_wf)
qed

text \<open>On a channel that has its timer, configuration calls return.\<close>

lemma on_timer_returns:
  assumes "n < PWM_NB_TIMER" and "timer (omap_pwm s ! n) \<noteq> None"
  obtains s' where "on_timer n f s = Some s'" and "omap_pwm s' = omap_pwm s"
  using assms by (auto simp: on_timer_def)

lemma set_chan_timer: "n < length (omap_pwm s) \<Longrightarrow> timer (g (omap_pwm s ! n)) = timer (omap_pwm s ! n) \<Longrightarrow>
    timer (omap_pwm (set_chan n g s) ! n) = timer (omap_pwm s ! n)"
  by (simp add: set_chan_def)

lemma omap_pwm_set_width_returns:
  assumes "n < PWM_NB_TIMER" and "timer (omap_pwm s ! n) \<noteq> None" and "n < length (omap_pwm s)"
  obtains r s' where "omap_pwm_set_width n w s = Some (r, s')"
proof (cases "w > PWM_WIDTH_MAX")
  case True
  with assms(1) show ?thesis by (intro that) (simp add: omap_pwm_set_width_def)
next
  case False
  have "timer (omap_pwm (set_chan n (\<lambda>c. c\<lparr>ratio := w\<rparr>) s) ! n) \<noteq> None"
    using assms(2,3) by (simp add: set_chan_timer)
  then obtain s' where "on_timer n (omap_dm_timer_set_match True
      (of_nat (to_u32 (pwm_precision_mask s + compute_ratio (pwm_precision_mask s) w))))
      (set_chan n (\<lambda>c. c\<lparr>ratio := w\<rparr>) s) = Some s'"
    by (rule on_timer_returns [OF assms(1)])
  with False assms(1) show ?thesis by (intro that) (simp add: omap_pwm_set_width_def)
qed

lemma omap_pwm_set_freq_returns:
  assumes n: "n < PWM_NB_TIMER" and t: "timer (omap_pwm s ! n) \<noteq> None" and len: "n < length (omap_pwm s)"
  shows "\<exists>r s'. omap_pwm_set_freq env n f s = Some (r, s') \<and>
    (0 < f \<and> f < to_u32 (source_rate env OMAP_TIMER_SRC_SYS_CLK) div 2 \<longrightarrow> r = 0)"
proof -
  define C where "C = to_u32 (source_rate env OMAP_TIMER_SRC_SYS_CLK) div 2"
  obtain s1 where s1: "on_timer n (omap_dm_timer_set_source env OMAP_TIMER_SRC_SYS_CLK) s = Some s1" "omap_pwm s1 = omap_pwm s"
    by (rule on_timer_returns [OF n t])
  define s2 where "s2 = (set_chan n (\<lambda>c. c\<lparr>freq := C div (C div f)\<rparr>) s1)\<lparr>pwm_precision_mask := MAX_UINT32 - C div f\<rparr>"
  have t2: "timer (omap_pwm s2 ! n) \<noteq> None" "n < length (omap_pwm s2)"
    using t len s1(2) by (simp_all add: s2_def set_chan_def)
  obtain s3 where s3: "on_timer n (omap_dm_timer_set_load True (of_nat (MAX_UINT32 - C div f))) s2 = Some s3" "omap_pwm s3 = omap_pwm s2"
    by (rule on_timer_returns [OF n t2(1)])
  show ?thesis
  proof (cases "f \<ge> C \<or> f = 0")
    case True
    then have "omap_pwm_set_freq env n f s = Some (-EINVAL, s1)"
      using n s1(1) by (simp add: omap_pwm_set_freq_def C_def [symmetric] Let_def)
    with True show ?thesis by (auto simp: C_def [symmetric])
  next
    case False
    then have "0 < C div f" by (simp add: div_greater_zero_iff)
    moreover have "pwm_precision_mask s3 = MAX_UINT32 - C div f" using s3(1) by (auto simp: s2_def elim!: on_timer_Some)
    ultimately have "pwm_precision_mask s3 < MAX_UINT32" by (simp add: MAX_UINT32_def)
    then obtain e w where w: "omap_pwm_get_width n s3 = Some (e, w)" by (rule get_width_returns [OF n])
    obtain r s4 where s4: "omap_pwm_set_width n w s3 = Some (r, s4)"
      using omap_pwm_set_width_returns [OF n] t2 s3(2) by metis
    have "omap_pwm_set_freq env n f s = Some (0, s4)"
      using n s1(1) s3(1) w s4 False
      by (simp add: omap_pwm_set_freq_def C_def [symmetric] s2_def [symmetric] Let_def)
    then show ?thesis by simp
  qed
qed

lemma omap_pwm_init_wf: "length ts = NO_DM_TIMERS \<Longrightarrow> pwm_wf (omap_pwm_init ts)"
  by (simp add: pwm_wf_def omap_pwm_init_def)

section \<open>A concrete controller\<close>

text \<open>Twelve unused timers and a system clock of 26 MHz.\<close>

definition fresh_timers :: "dm_timer list" where
  "fresh_timers = replicate NO_DM_TIMERS \<lparr>fclk_rate = 0, reserved = False, enabled = False, posted = False, regs = \<lambda>_. 0\<rparr>"

definition clk26 :: dm_env where
  "clk26 = \<lparr>reset_regs = \<lambda>_. 0, source_rate = \<lambda>_. 26000000\<rparr>"

definition after :: "(int \<times> omap_pwm_state) option \<Rightarrow> omap_pwm_state" where
  "after r = snd (the r)"

definition chan2_ready :: omap_pwm_state where
  "chan2_ready = after (omap_pwm_request clk26 2 (omap_pwm_init fresh_timers))"

definition chan2_1kHz :: omap_pwm_state where
  "chan2_1kHz = after (omap_pwm_set_freq clk26 2 1000 chan2_ready)"

lemma chan2_ready_facts: "pwm_wf chan2_ready \<and> timer (omap_pwm chan2_ready ! 2) = Some 1 \<and> length (omap_pwm chan2_ready) = 12"
proof -
  have "omap_pwm_request clk26 2 (omap_pwm_init fresh_timers) = Some (0, chan2_ready)"
    by (simp add: chan2_ready_def after_def omap_pwm_request_def omap_pwm_is_active_def omap_pwm_init_def PWM_NB_TIMER_def)
  moreover have "timer (omap_pwm chan2_ready ! 2) = Some 1 \<and> length (omap_pwm chan2_ready) = 12"
    by (simp add: chan2_ready_def after_def omap_pwm_request_def omap_pwm_is_active_def omap_pwm_init_def PWM_NB_TIMER_def
         omap_pwm_set_active_def omap_dm_timer_request_specific_def fresh_timers_def NO_DM_TIMERS_def set_chan_def)
  ultimately show ?thesis using omap_pwm_request_wf omap_pwm_init_wf by (simp add: fresh_timers_def)
qed

lemma chan2_1kHz_eq: "omap_pwm_set_freq clk26 2 1000 chan2_ready = Some (0, chan2_1kHz)"
  using omap_pwm_set_freq_returns [of 2 chan2_ready clk26 1000] chan2_ready_facts
  by (auto simp: chan2_1kHz_def after_def PWM_NB_TIMER_def clk26_def)

theorem pwm_set_freq_correct_witness:
  "omap_pwm_set_freq clk26 2 1000 chan2_ready = Some (0, chan2_1kHz) \<and>
   unat (regs (dm_timers chan2_1kHz ! 1) LOAD) = MAX_UINT32 - 13000"
  using pwm_set_freq_correct [of chan2_ready clk26 2 1000 chan2_1kHz 1] chan2_ready_facts chan2_1kHz_eq
  by (simp add: clk26_def)

lemma chan2_1kHz_facts:
  "pwm_wf chan2_1kHz" "timer (omap_pwm chan2_1kHz ! 2) = Some 1" "pwm_precision_mask chan2_1kHz = MAX_UINT32 - 13000"
  "unat (regs (dm_timers chan2_1kHz ! 1) LOAD) = MAX_UINT32 - 13000" "length (omap_pwm chan2_1kHz) = 12"
proof -
  from chan2_ready_facts have r: "pwm_wf chan2_ready" "timer (omap_pwm chan2_ready ! 2) = Some 1" by auto
  show wf: "pwm_wf chan2_1kHz" by (rule omap_pwm_set_freq_wf [OF chan2_1kHz_eq r(1)])
  then show "length (omap_pwm chan2_1kHz) = 12" by (simp add: pwm_wf_def PWM_NB_TIMER_def)
  obtain s3 w where s3: "omap_pwm_set_width 2 w s3 = Some (0, chan2_1kHz)" "pwm_wf s3" "timer (omap_pwm s3 ! 2) = Some 1"
    and m: "pwm_precision_mask s3 = MAX_UINT32 - 13000" and l: "unat (regs (dm_timers s3 ! 1) LOAD) = MAX_UINT32 - 13000"
    by (rule set_freq_steps [OF r(1) chan2_1kHz_eq r(2)]) (simp add: clk26_def)
  note e = set_width_effect [OF s3(2,1,3)]
  show "timer (omap_pwm chan2_1kHz ! 2) = Some 1" "pwm_precision_mask chan2_1kHz = MAX_UINT32 - 13000"
    using s3(3) m e(1,4) by (simp_all add: e(5) set_chan_def)
  show "unat (regs (dm_timers chan2_1kHz ! 1) LOAD) = MAX_UINT32 - 13000"
    using set_width_regs(3) [OF s3(2,1,3)] l m by (simp add: MAX_UINT32_def)
qed

theorem pwm_width_bounds_witness:
  "\<exists>s' w. omap_pwm_set_width 2 2500 chan2_1kHz = Some (0, s') \<and> omap_pwm_get_width 2 s' = Some (0, w) \<and> 2498 \<le> w \<and> w \<le> 2500"
proof -
  obtain s' where ok: "omap_pwm_set_width 2 2500 chan2_1kHz = Some (0, s')"
    using chan2_1kHz_facts(2,5)
    by (auto simp: omap_pwm_set_width_def on_timer_def set_chan_def PWM_NB_TIMER_def PWM_WIDTH_MAX_def)
  from pwm_width_bounds [OF chan2_1kHz_facts(1) ok chan2_1kHz_facts(2)] ok show ?thesis
    by (auto simp: chan2_1kHz_facts(3) MAX_UINT32_def)
qed

text \<open>
  The mask is shared: with channel 2 at 1 kHz and channel 3 then set to 100 Hz, the next
  width of channel 2 programs a match below the reload value of channel 2, which
  its counter never reaches.
\<close>

definition two_chans :: omap_pwm_state where
  "two_chans = after (omap_pwm_request clk26 3 (after (omap_pwm_request clk26 2 (omap_pwm_init fresh_timers))))"

definition low_freq :: omap_pwm_state where
  "low_freq = after (omap_pwm_set_freq clk26 3 100 (after (omap_pwm_set_freq clk26 2 1000 two_chans)))"

lemma replicate_12: "replicate 12 x = [x, x, x, x, x, x, x, x, x, x, x, x]"
  by (simp add: numeral_eq_Suc)

lemmas pwm_eval = after_def omap_pwm_request_def omap_pwm_is_active_def omap_pwm_init_def PWM_NB_TIMER_def
  omap_pwm_set_active_def omap_dm_timer_request_specific_def fresh_timers_def NO_DM_TIMERS_def set_chan_def replicate_12 Let_def
  nth_list_update omap_pwm_set_freq_def on_timer_def clk26_def to_u32_def MAX_UINT32_def omap_pwm_get_width_def
  omap_pwm_set_width_def PWM_WIDTH_MAX_def compute_ratio_def

lemma two_chans_facts:
  "omap_pwm two_chans ! 2 = \<lparr>timer = Some 1, pwm_active = True, ratio = 0, freq = 0\<rparr> \<and>
   omap_pwm two_chans ! 3 = \<lparr>timer = Some 2, pwm_active = True, ratio = 0, freq = 0\<rparr> \<and>
   pwm_precision_mask two_chans = 4294967295 \<and> length (omap_pwm two_chans) = 12 \<and> length (dm_timers two_chans) = 12"
  unfolding two_chans_def by (simp add: pwm_eval)

lemma shared_mask_match_below_load:
  "\<exists>s'. omap_pwm_set_width 2 2500 low_freq = Some (0, s') \<and>
     unat (regs (dm_timers s' ! 1) MATCH) = 4294967295 - 97500 \<and> unat (regs (dm_timers s' ! 1) LOAD) = 4294967295 - 13000"
  unfolding low_freq_def by (simp add: pwm_eval two_chans_facts set_match_regs set_load_regs)

end
