(* ===== verification/Pwm.thy ===== *)
theory Pwm
  imports Omap_Pwm
begin

text \<open>
  drivers/parrot/char/pwm/pwm.c: the character device in front of a PWM
  controller driver.  The controller is reached through \<open>struct pwm_ops\<close>, here
  a record of functions over the controller's state \<open>'d\<close>; the locale
  \<open>pwm_backend\<close> says what the device relies on, and it is interpreted on the
  operations of omap_pwm.c.  All commands run under one mutex, so each is a step.
  \<open>None\<close> is a fault inside the controller driver.
\<close>

section \<open>Data\<close>

text \<open>A get operation returns its status and the value it stores when the status is 0.\<close>

record 'd pwm_ops =
  pwm_max :: nat
  pwm_start :: "nat \<Rightarrow> 'd \<Rightarrow> (int \<times> 'd) option"
  pwm_stop :: "nat \<Rightarrow> 'd \<Rightarrow> (int \<times> 'd) option"
  pwm_request :: "nat \<Rightarrow> 'd \<Rightarrow> (int \<times> 'd) option"
  pwm_release :: "nat \<Rightarrow> 'd \<Rightarrow> (int \<times> 'd) option"
  pwm_set_width :: "nat \<Rightarrow> nat \<Rightarrow> 'd \<Rightarrow> (int \<times> 'd) option"
  pwm_set_freq :: "nat \<Rightarrow> nat \<Rightarrow> 'd \<Rightarrow> (int \<times> 'd) option"
  pwm_get_width :: "nat \<Rightarrow> 'd \<Rightarrow> (int \<times> nat) option"
  pwm_get_freq :: "nat \<Rightarrow> 'd \<Rightarrow> (int \<times> nat) option"

definition PWM_ID_NONE :: nat where
  "PWM_ID_NONE = 2 ^ 32 - 1"

text \<open>
  The device: the registered controller, the \<open>id_used\<close> of every open file, the
  references on the controller's module, and the controller's state.
\<close>

record 'd pwm_device =
  dev_ops :: "'d pwm_ops option"
  id_used :: "nat \<rightharpoonup> nat"
  module_users :: nat
  controller :: 'd

text \<open>
  A file's \<open>id_used\<close> is read and written through \<open>idu\<close>; each command
  returns the status, the new \<open>id_used\<close> and the new controller state.
\<close>

section \<open>Commands\<close>

definition ioctl_pwm_request :: "'d pwm_ops \<Rightarrow> nat \<Rightarrow> nat \<Rightarrow> 'd \<Rightarrow> (int \<times> nat \<times> 'd) option" where
  "ioctl_pwm_request ops idu n d =
     (if idu \<noteq> PWM_ID_NONE then Some (-EBUSY, idu, d)
      else case pwm_request ops n d of
             None \<Rightarrow> None
           | Some (err, d') \<Rightarrow> if err \<noteq> 0 then Some (-EBUSY, idu, d') else Some (0, n, d'))"

definition ioctl_pwm_release :: "'d pwm_ops \<Rightarrow> nat \<Rightarrow> nat \<Rightarrow> 'd \<Rightarrow> (int \<times> nat \<times> 'd) option" where
  "ioctl_pwm_release ops idu n d =
     (if idu \<noteq> n then Some (-EINVAL, idu, d)
      else case pwm_release ops n d of None \<Rightarrow> None | Some (_, d') \<Rightarrow> Some (0, PWM_ID_NONE, d'))"

definition ioctl_pwm_start :: "'d pwm_ops \<Rightarrow> nat \<Rightarrow> 'd \<Rightarrow> (int \<times> 'd) option" where
  "ioctl_pwm_start ops idu d = (if idu = PWM_ID_NONE then Some (-EINVAL, d) else pwm_start ops idu d)"

definition ioctl_pwm_stop :: "'d pwm_ops \<Rightarrow> nat \<Rightarrow> 'd \<Rightarrow> (int \<times> 'd) option" where
  "ioctl_pwm_stop ops idu d = (if idu = PWM_ID_NONE then Some (-EINVAL, d) else pwm_stop ops idu d)"

definition ioctl_pwm_set_freq :: "'d pwm_ops \<Rightarrow> nat \<Rightarrow> nat \<Rightarrow> 'd \<Rightarrow> (int \<times> 'd) option" where
  "ioctl_pwm_set_freq ops idu f d = (if idu = PWM_ID_NONE then Some (-EINVAL, d) else pwm_set_freq ops idu f d)"

definition ioctl_pwm_set_width :: "'d pwm_ops \<Rightarrow> nat \<Rightarrow> nat \<Rightarrow> 'd \<Rightarrow> (int \<times> 'd) option" where
  "ioctl_pwm_set_width ops idu w d = (if idu = PWM_ID_NONE then Some (-EINVAL, d) else pwm_set_width ops idu w d)"

text \<open>A variable that no call has written has the value \<open>junk\<close>.\<close>

definition ioctl_pwm_get_freq :: "'d pwm_ops \<Rightarrow> nat \<Rightarrow> nat \<Rightarrow> 'd \<Rightarrow> (int \<times> nat) option" where
  "ioctl_pwm_get_freq ops junk idu d =
     (if idu = PWM_ID_NONE then Some (-EINVAL, junk)
      else map_option (\<lambda>(err, v). (err, if err = 0 then v else junk)) (pwm_get_freq ops idu d))"

definition ioctl_pwm_get_width :: "'d pwm_ops \<Rightarrow> nat \<Rightarrow> nat \<Rightarrow> 'd \<Rightarrow> (int \<times> nat) option" where
  "ioctl_pwm_get_width ops junk idu d =
     (if idu = PWM_ID_NONE then Some (-EINVAL, junk)
      else map_option (\<lambda>(err, v). (err, if err = 0 then v else junk)) (pwm_get_width ops idu d))"

section \<open>File operations\<close>

record open_env =
  interrupted :: bool
  kzalloc_ok :: bool
  try_module_get_ok :: bool

definition pwm_open :: "open_env \<Rightarrow> nat \<Rightarrow> 'd pwm_device \<Rightarrow> int \<times> 'd pwm_device" where
  "pwm_open env fd dev =
     (if interrupted env then (-ERESTARTSYS, dev)
      else case dev_ops dev of
             None \<Rightarrow> (-EINVAL, dev)
           | Some ops \<Rightarrow>
               if \<not> kzalloc_ok env then (-ENOMEM, dev)
               else if \<not> try_module_get_ok env then (-EBUSY, dev)
               else (0, dev\<lparr>id_used := (id_used dev)(fd \<mapsto> PWM_ID_NONE), module_users := module_users dev + 1\<rparr>))"

definition pwm_close :: "'d pwm_ops \<Rightarrow> nat \<Rightarrow> nat \<Rightarrow> 'd pwm_device \<Rightarrow> 'd pwm_device option" where
  "pwm_close ops fd idu dev =
     (case (if idu \<noteq> PWM_ID_NONE then ioctl_pwm_release ops idu idu (controller dev) else Some (0, idu, controller dev)) of
        None \<Rightarrow> None
      | Some (_, _, d) \<Rightarrow>
          Some (dev\<lparr>id_used := (id_used dev)(fd := None), module_users := module_users dev - 1, controller := d\<rparr>))"

text \<open>
  Commands with the value at the user's address, \<open>None\<close> when it cannot be
  read.  \<open>put_ok\<close> says whether the result can be stored there.
\<close>

datatype pwm_cmd =
    PWM_REQUEST "nat option"
  | PWM_RELEASE "nat option"
  | PWM_START
  | PWM_STOP
  | PWM_SET_FREQ "nat option"
  | PWM_SET_WIDTH "nat option"
  | PWM_GET_FREQ
  | PWM_GET_WIDTH
  | PWM_MAX
  | PWM_other

record ioctl_env =
  sig_pending :: bool
  put_ok :: bool
  stack_junk :: nat

text \<open>\<open>get_user\<close> stores 0 into its variable when it fails (arch/arm/lib/getuser.S).\<close>

definition got_user :: "nat option \<Rightarrow> nat" where
  "got_user arg = (case arg of None \<Rightarrow> 0 | Some n \<Rightarrow> n)"

text \<open>What a command does to the file's \<open>id_used\<close> and to the controller, and the value it gives to \<open>put_user\<close>.\<close>

definition pwm_command ::
  "'d pwm_ops \<Rightarrow> ioctl_env \<Rightarrow> pwm_cmd \<Rightarrow> nat \<Rightarrow> 'd \<Rightarrow> (int \<times> nat option \<times> nat \<times> 'd) option" where
  "pwm_command ops env cmd idu d =
     (let plain = map_option (\<lambda>(r, d'). (r, None, idu, d'));
          used = map_option (\<lambda>(r, idu', d'). (r, None, idu', d'));
          got = map_option (\<lambda>(r, v). if put_ok env then (r, Some v, idu, d) else (-EFAULT, None, idu, d))
      in case cmd of
           PWM_REQUEST arg \<Rightarrow> used (ioctl_pwm_request ops idu (got_user arg) d)
         | PWM_RELEASE arg \<Rightarrow> used (ioctl_pwm_release ops idu (got_user arg) d)
         | PWM_START \<Rightarrow> plain (ioctl_pwm_start ops idu d)
         | PWM_STOP \<Rightarrow> plain (ioctl_pwm_stop ops idu d)
         | PWM_SET_FREQ None \<Rightarrow> Some (-EFAULT, None, idu, d)
         | PWM_SET_FREQ (Some f) \<Rightarrow> plain (ioctl_pwm_set_freq ops idu f d)
         | PWM_SET_WIDTH None \<Rightarrow> Some (-EFAULT, None, idu, d)
         | PWM_SET_WIDTH (Some w) \<Rightarrow> plain (ioctl_pwm_set_width ops idu w d)
         | PWM_GET_FREQ \<Rightarrow> got (ioctl_pwm_get_freq ops (stack_junk env) idu d)
         | PWM_GET_WIDTH \<Rightarrow> got (ioctl_pwm_get_width ops (stack_junk env) idu d)
         | PWM_MAX \<Rightarrow> got (Some (0, pwm_max ops))
         | PWM_other \<Rightarrow> Some (-ENOTTY, None, idu, d))"

definition pwm_ioctl ::
  "ioctl_env \<Rightarrow> nat \<Rightarrow> nat \<Rightarrow> pwm_cmd \<Rightarrow> 'd pwm_device \<Rightarrow> (int \<times> nat option \<times> 'd pwm_device) option" where
  "pwm_ioctl env fd idu cmd dev =
     (case dev_ops dev of
        None \<Rightarrow> Some (-EINVAL, None, dev)
      | Some ops \<Rightarrow>
          if sig_pending env then Some (-ERESTARTSYS, None, dev)
          else map_option (\<lambda>(r, out, idu', d). (r, out, dev\<lparr>id_used := (id_used dev)(fd \<mapsto> idu'), controller := d\<rparr>))
                 (pwm_command ops env cmd idu (controller dev)))"

text \<open>\<open>complete\<close>: every callback pointer is set.\<close>

definition register_pwm :: "bool \<Rightarrow> 'd pwm_ops \<Rightarrow> 'd pwm_device \<Rightarrow> int \<times> 'd pwm_device" where
  "register_pwm complete ops dev =
     (if dev_ops dev \<noteq> None then (-EBUSY, dev)
      else if \<not> (pwm_max ops \<noteq> 0 \<and> complete) then (-EINVAL, dev)
      else (0, dev\<lparr>dev_ops := Some ops\<rparr>))"

text \<open>\<open>same\<close>: the pointer passed is the registered one.\<close>

definition unregister_pwm :: "bool \<Rightarrow> 'd pwm_device \<Rightarrow> int \<times> 'd pwm_device" where
  "unregister_pwm same dev = (if \<not> same then (-EINVAL, dev) else (0, dev\<lparr>dev_ops := None\<rparr>))"

section \<open>The contract with the controller driver\<close>

text \<open>
  Consistency of the device with its controller: the active channels are the ones
  that files use, no two files use the same one, and each open file holds a
  reference on the controller's module.
\<close>

definition dev_inv :: "'d pwm_ops \<Rightarrow> ('d \<Rightarrow> bool) \<Rightarrow> ('d \<Rightarrow> nat set) \<Rightarrow> 'd pwm_device \<Rightarrow> bool" where
  "dev_inv ops cinv act dev \<longleftrightarrow>
     dev_ops dev = Some ops \<and> cinv (controller dev) \<and>
     act (controller dev) = {n. n \<noteq> PWM_ID_NONE \<and> (\<exists>fd. id_used dev fd = Some n)} \<and>
     (\<forall>fd fd' n. id_used dev fd = Some n \<longrightarrow> id_used dev fd' = Some n \<longrightarrow> n \<noteq> PWM_ID_NONE \<longrightarrow> fd = fd') \<and>
     finite (dom (id_used dev)) \<and> module_users dev = card (dom (id_used dev))"

lemma dev_invD:
  assumes "dev_inv ops cinv act dev"
  shows "dev_ops dev = Some ops" and "cinv (controller dev)"
    and "n \<in> act (controller dev) \<longleftrightarrow> n \<noteq> PWM_ID_NONE \<and> (\<exists>fd. id_used dev fd = Some n)"
    and "id_used dev fd = Some n \<Longrightarrow> id_used dev fd' = Some n \<Longrightarrow> n \<noteq> PWM_ID_NONE \<Longrightarrow> fd = fd'"
    and "finite (dom (id_used dev))" and "module_users dev = card (dom (id_used dev))"
  using assms unfolding dev_inv_def by blast+

lemma dev_invI:
  assumes "dev_ops dev = Some ops" and "cinv (controller dev)"
    and "\<And>n. n \<in> act (controller dev) \<longleftrightarrow> n \<noteq> PWM_ID_NONE \<and> (\<exists>fd. id_used dev fd = Some n)"
    and "\<And>fd fd' n. id_used dev fd = Some n \<Longrightarrow> id_used dev fd' = Some n \<Longrightarrow> n \<noteq> PWM_ID_NONE \<Longrightarrow> fd = fd'"
    and "finite (dom (id_used dev))" and "module_users dev = card (dom (id_used dev))"
  shows "dev_inv ops cinv act dev"
  unfolding dev_inv_def using assms by blast

text \<open>The channel a file uses changes in three ways: it stays, it is taken, it is given up.\<close>

definition id_change :: "nat \<Rightarrow> nat \<Rightarrow> nat set \<Rightarrow> nat set \<Rightarrow> bool" where
  "id_change idu idu' a a' \<longleftrightarrow>
     (idu' = idu \<and> a' = a) \<or>
     (idu = PWM_ID_NONE \<and> idu' \<noteq> PWM_ID_NONE \<and> idu' \<notin> a \<and> a' = insert idu' a) \<or>
     (idu' = PWM_ID_NONE \<and> a' = a - {idu})"

lemma dev_inv_others:
  assumes "dev_inv ops cinv act dev" and "id_used dev fd = Some idu"
  shows "n \<in> act (controller dev) \<longleftrightarrow> n \<noteq> PWM_ID_NONE \<and> (idu = n \<or> (\<exists>fd'. fd' \<noteq> fd \<and> id_used dev fd' = Some n))"
    and "idu \<noteq> PWM_ID_NONE \<Longrightarrow> fd' \<noteq> fd \<Longrightarrow> id_used dev fd' \<noteq> Some idu"
  using dev_invD(3,4) [OF assms(1)] assms(2) by (metis option.inject)+

lemma fun_upd_used:
  "(\<exists>fd'. (m(fd := x)) fd' = Some n) \<longleftrightarrow> x = Some n \<or> (\<exists>fd'. fd' \<noteq> fd \<and> m fd' = Some n)"
  by (metis fun_upd_apply)

lemma dev_inv_id_change:
  assumes di: "dev_inv ops cinv act dev" and f: "id_used dev fd = Some idu" and c: "id_change idu idu' (act (controller dev)) (act d)"
    and d: "cinv d"
  shows "dev_inv ops cinv act (dev\<lparr>id_used := (id_used dev)(fd \<mapsto> idu'), controller := d\<rparr>)"
proof (rule dev_invI)
  note i = dev_invD [OF di]
  show "n \<in> act (controller (dev\<lparr>id_used := (id_used dev)(fd \<mapsto> idu'), controller := d\<rparr>)) \<longleftrightarrow>
      n \<noteq> PWM_ID_NONE \<and> (\<exists>fd'. id_used (dev\<lparr>id_used := (id_used dev)(fd \<mapsto> idu'), controller := d\<rparr>) fd' = Some n)" for n
    using c dev_inv_others [OF di f] unfolding id_change_def
    by (auto simp add: fun_upd_used simp del: fun_upd_apply)
  show "fd1 = fd2" if "id_used (dev\<lparr>id_used := (id_used dev)(fd \<mapsto> idu'), controller := d\<rparr>) fd1 = Some n"
    "id_used (dev\<lparr>id_used := (id_used dev)(fd \<mapsto> idu'), controller := d\<rparr>) fd2 = Some n" "n \<noteq> PWM_ID_NONE" for fd1 fd2 n
    using that c f i(3) [of n] i(4) [of fd1 n fd2] i(4) [of fd n] unfolding id_change_def by (auto split: if_splits)
  have "dom ((id_used dev)(fd \<mapsto> idu')) = dom (id_used dev)" using f by auto
  then show "finite (dom (id_used (dev\<lparr>id_used := (id_used dev)(fd \<mapsto> idu'), controller := d\<rparr>)))"
    "module_users (dev\<lparr>id_used := (id_used dev)(fd \<mapsto> idu'), controller := d\<rparr>) =
       card (dom (id_used (dev\<lparr>id_used := (id_used dev)(fd \<mapsto> idu'), controller := d\<rparr>)))"
    using i(5,6) by simp_all
qed (use dev_invD(1) [OF di] d in simp_all)

lemma dev_inv_close:
  assumes di: "dev_inv ops cinv act dev" and f: "id_used dev fd = Some idu" and d: "cinv d" "act d = act (controller dev) - {idu}"
    and none: "PWM_ID_NONE \<notin> act (controller dev)"
  shows "dev_inv ops cinv act (dev\<lparr>id_used := (id_used dev)(fd := None), module_users := module_users dev - 1, controller := d\<rparr>)"
proof (rule dev_invI)
  note i = dev_invD [OF di]
  let ?dev = "dev\<lparr>id_used := (id_used dev)(fd := None), module_users := module_users dev - 1, controller := d\<rparr>"
  show "n \<in> act (controller ?dev) \<longleftrightarrow> n \<noteq> PWM_ID_NONE \<and> (\<exists>fd'. id_used ?dev fd' = Some n)" for n
    using d(2) dev_inv_others [OF di f] by (simp add: fun_upd_used del: fun_upd_apply) metis
  show "fd1 = fd2" if "id_used ?dev fd1 = Some n" "id_used ?dev fd2 = Some n" "n \<noteq> PWM_ID_NONE" for fd1 fd2 n
    using that i(4) [of fd1 n fd2] by (auto split: if_splits)
  have "dom ((id_used dev)(fd := None)) = dom (id_used dev) - {fd}" by auto
  then show "finite (dom (id_used ?dev))" "module_users ?dev = card (dom (id_used ?dev))"
    using i(5,6) f by (simp_all add: card_Diff_singleton domI)
qed (use dev_invD(1) [OF di] d in simp_all)

lemma dev_inv_open:
  assumes di: "dev_inv ops cinv act dev" and f: "id_used dev fd = None"
  shows "dev_inv ops cinv act (dev\<lparr>id_used := (id_used dev)(fd \<mapsto> PWM_ID_NONE), module_users := module_users dev + 1\<rparr>)"
proof (rule dev_invI)
  note i = dev_invD [OF di]
  let ?dev = "dev\<lparr>id_used := (id_used dev)(fd \<mapsto> PWM_ID_NONE), module_users := module_users dev + 1\<rparr>"
  show "n \<in> act (controller ?dev) \<longleftrightarrow> n \<noteq> PWM_ID_NONE \<and> (\<exists>fd'. id_used ?dev fd' = Some n)" for n
    using i(3) [of n] f by (simp add: fun_upd_used del: fun_upd_apply) (metis option.distinct(1))
  show "fd1 = fd2" if "id_used ?dev fd1 = Some n" "id_used ?dev fd2 = Some n" "n \<noteq> PWM_ID_NONE" for fd1 fd2 n
    using that i(4) [of fd1 n fd2] by (auto split: if_splits)
  show "finite (dom (id_used ?dev))" "module_users ?dev = card (dom (id_used ?dev))"
    using i(5,6) f by (simp_all add: card_insert_if domIff)
qed (use dev_invD(1,2) [OF di] in simp_all)

text \<open>Runs: calls on files that are not open do not reach the driver.\<close>

datatype pwm_event =
    PWM_open_file open_env nat
  | PWM_close_file nat
  | PWM_call ioctl_env nat pwm_cmd

definition pwm_exec :: "pwm_event \<Rightarrow> 'd pwm_device \<Rightarrow> 'd pwm_device option" where
  "pwm_exec e dev =
     (case e of
        PWM_open_file env fd \<Rightarrow> Some (if id_used dev fd = None then snd (pwm_open env fd dev) else dev)
      | PWM_close_file fd \<Rightarrow>
          (case (id_used dev fd, dev_ops dev) of (Some idu, Some ops) \<Rightarrow> pwm_close ops fd idu dev | _ \<Rightarrow> Some dev)
      | PWM_call env fd cmd \<Rightarrow>
          (case id_used dev fd of
             None \<Rightarrow> Some dev
           | Some idu \<Rightarrow> map_option (\<lambda>(r, out, dev'). dev') (pwm_ioctl env fd idu cmd dev)))"

fun pwm_run :: "pwm_event list \<Rightarrow> 'd pwm_device \<Rightarrow> 'd pwm_device option" where
  "pwm_run [] dev = Some dev"
| "pwm_run (e # es) dev = (case pwm_exec e dev of None \<Rightarrow> None | Some dev' \<Rightarrow> pwm_run es dev')"

text \<open>The channels that a command may ask the controller for.\<close>

definition asks :: "(nat \<Rightarrow> bool) \<Rightarrow> pwm_event \<Rightarrow> bool" where
  "asks good e \<longleftrightarrow> (case e of PWM_call env fd (PWM_REQUEST arg) \<Rightarrow> good (got_user arg) | _ \<Rightarrow> True)"

text \<open>A file that has a channel asks for its width while the controller is not ready.\<close>

definition asks_width_early :: "('d \<Rightarrow> bool) \<Rightarrow> pwm_event \<Rightarrow> 'd pwm_device \<Rightarrow> bool" where
  "asks_width_early ready e dev \<longleftrightarrow>
     (case e of
        PWM_call env fd PWM_GET_WIDTH \<Rightarrow> id_used dev fd \<noteq> None \<and> id_used dev fd \<noteq> Some PWM_ID_NONE \<and> \<not> ready (controller dev)
      | _ \<Rightarrow> False)"

text \<open>
  What the device relies on: requests for good channels are exclusive, a channel in
  use can be released, and every operation on a channel in use returns and changes
  no ownership; only the width can be asked for too early, when the controller is not
  \<open>ready\<close>.
\<close>

locale pwm_backend =
  fixes ops :: "'d pwm_ops"
    and cinv :: "'d \<Rightarrow> bool"
    and act :: "'d \<Rightarrow> nat set"
    and good :: "nat \<Rightarrow> bool"
    and ready :: "'d \<Rightarrow> bool"
  assumes request: "cinv d \<Longrightarrow> good n \<Longrightarrow> \<exists>r d'. pwm_request ops n d = Some (r, d') \<and> cinv d' \<and>
      (if r = 0 then n \<notin> act d \<and> act d' = insert n (act d) else act d' = act d)"
    and release: "cinv d \<Longrightarrow> n \<in> act d \<or> n = PWM_ID_NONE \<Longrightarrow>
      \<exists>r d'. pwm_release ops n d = Some (r, d') \<and> cinv d' \<and> act d' = act d - {n}"
    and start: "cinv d \<Longrightarrow> n \<in> act d \<Longrightarrow> \<exists>r d'. pwm_start ops n d = Some (r, d') \<and> cinv d' \<and> act d' = act d"
    and stop: "cinv d \<Longrightarrow> n \<in> act d \<Longrightarrow> \<exists>r d'. pwm_stop ops n d = Some (r, d') \<and> cinv d' \<and> act d' = act d"
    and set_freq: "cinv d \<Longrightarrow> n \<in> act d \<Longrightarrow> \<exists>r d'. pwm_set_freq ops n f d = Some (r, d') \<and> cinv d' \<and> act d' = act d"
    and set_width: "cinv d \<Longrightarrow> n \<in> act d \<Longrightarrow> \<exists>r d'. pwm_set_width ops n w d = Some (r, d') \<and> cinv d' \<and> act d' = act d"
    and gets: "cinv d \<Longrightarrow> n \<in> act d \<Longrightarrow> pwm_get_freq ops n d \<noteq> None \<and> (ready d \<longrightarrow> pwm_get_width ops n d \<noteq> None)"
    and none_free: "cinv d \<Longrightarrow> PWM_ID_NONE \<notin> act d"
begin

lemma plain_command:
  assumes "cinv d" and "idu = PWM_ID_NONE \<or> idu \<in> act d"
    and "\<And>n. n \<in> act d \<Longrightarrow> \<exists>r d'. f n d = Some (r, d') \<and> cinv d' \<and> act d' = act d"
  shows "\<exists>r out idu' d'. map_option (\<lambda>(r, d'). (r, None, idu, d')) (if idu = PWM_ID_NONE then Some (-EINVAL, d) else f idu d) =
      Some (r, out, idu', d') \<and> cinv d' \<and> id_change idu idu' (act d) (act d')"
proof (cases "idu = PWM_ID_NONE")
  case False
  with assms(2,3) obtain r d' where "f idu d = Some (r, d')" "cinv d'" "act d' = act d" by blast
  with False show ?thesis by (simp add: id_change_def)
qed (use assms(1) in \<open>simp add: id_change_def\<close>)

lemma request_command:
  assumes "cinv d" and "good n"
  shows "\<exists>r idu' d'. ioctl_pwm_request ops idu n d = Some (r, idu', d') \<and> cinv d' \<and> id_change idu idu' (act d) (act d')"
proof (cases "idu = PWM_ID_NONE")
  case True
  from request [OF assms] obtain r d' where q: "pwm_request ops n d = Some (r, d')" "cinv d'"
    "if r = 0 then n \<notin> act d \<and> act d' = insert n (act d) else act d' = act d" by blast
  with True none_free [OF q(2)] show ?thesis
    by (cases "r = 0") (auto simp: ioctl_pwm_request_def id_change_def)
qed (use assms(1) in \<open>simp add: ioctl_pwm_request_def id_change_def\<close>)

lemma release_command:
  assumes "cinv d" and "idu = PWM_ID_NONE \<or> idu \<in> act d"
  shows "\<exists>r idu' d'. ioctl_pwm_release ops idu n d = Some (r, idu', d') \<and> cinv d' \<and> id_change idu idu' (act d) (act d')"
proof (cases "idu = n")
  case True
  from release [OF assms(1), of idu] assms(2) obtain r d' where "pwm_release ops idu d = Some (r, d')" "cinv d'" "act d' = act d - {idu}"
    by blast
  with True show ?thesis by (auto simp: ioctl_pwm_release_def id_change_def)
qed (use assms(1) in \<open>simp add: ioctl_pwm_release_def id_change_def\<close>)

lemma get_command:
  assumes "cinv d" and "idu = PWM_ID_NONE \<or> idu \<in> act d"
  shows "\<exists>r v. ioctl_pwm_get_freq ops junk idu d = Some (r, v)"
    and "idu = PWM_ID_NONE \<or> ready d \<Longrightarrow> \<exists>r v. ioctl_pwm_get_width ops junk idu d = Some (r, v)"
  using gets [OF assms(1), of idu] assms(2) by (auto simp: ioctl_pwm_get_freq_def ioctl_pwm_get_width_def)

text \<open>Every command returns and changes the ownership of its own file only.\<close>

lemma command_returns:
  assumes d: "cinv d" and idu: "idu = PWM_ID_NONE \<or> idu \<in> act d" and ask: "\<And>arg. cmd = PWM_REQUEST arg \<Longrightarrow> good (got_user arg)"
    and width: "cmd = PWM_GET_WIDTH \<Longrightarrow> idu = PWM_ID_NONE \<or> ready d"
  shows "\<exists>r out idu' d'. pwm_command ops env cmd idu d = Some (r, out, idu', d') \<and> cinv d' \<and> id_change idu idu' (act d) (act d')"
proof (cases cmd)
  case (PWM_REQUEST arg)
  with request_command [OF d ask, of arg idu] show ?thesis by (auto simp: pwm_command_def)
next
  case (PWM_RELEASE arg)
  with release_command [OF d idu, of "got_user arg"] show ?thesis by (auto simp: pwm_command_def)
next
  case PWM_START
  then have "pwm_command ops env cmd idu d = map_option (\<lambda>(r, d'). (r, None, idu, d')) (ioctl_pwm_start ops idu d)"
    by (simp add: pwm_command_def)
  then show ?thesis unfolding ioctl_pwm_start_def
    by (simp only:) (rule plain_command [where f = "pwm_start ops", OF d idu start [OF d]])
next
  case PWM_STOP
  then have "pwm_command ops env cmd idu d = map_option (\<lambda>(r, d'). (r, None, idu, d')) (ioctl_pwm_stop ops idu d)"
    by (simp add: pwm_command_def)
  then show ?thesis unfolding ioctl_pwm_stop_def
    by (simp only:) (rule plain_command [where f = "pwm_stop ops", OF d idu stop [OF d]])
next
  case (PWM_SET_FREQ arg)
  show ?thesis
  proof (cases arg)
    case (Some x)
    with PWM_SET_FREQ have "pwm_command ops env cmd idu d = map_option (\<lambda>(r, d'). (r, None, idu, d')) (ioctl_pwm_set_freq ops idu x d)"
      by (simp add: pwm_command_def)
    then show ?thesis unfolding ioctl_pwm_set_freq_def
      by (simp only:) (rule plain_command [where f = "\<lambda>n. pwm_set_freq ops n x", OF d idu set_freq [OF d]])
  qed (use d PWM_SET_FREQ in \<open>simp add: pwm_command_def id_change_def\<close>)
next
  case (PWM_SET_WIDTH arg)
  show ?thesis
  proof (cases arg)
    case (Some x)
    with PWM_SET_WIDTH have "pwm_command ops env cmd idu d = map_option (\<lambda>(r, d'). (r, None, idu, d')) (ioctl_pwm_set_width ops idu x d)"
      by (simp add: pwm_command_def)
    then show ?thesis unfolding ioctl_pwm_set_width_def
      by (simp only:) (rule plain_command [where f = "\<lambda>n. pwm_set_width ops n x", OF d idu set_width [OF d]])
  qed (use d PWM_SET_WIDTH in \<open>simp add: pwm_command_def id_change_def\<close>)
next
  case PWM_GET_FREQ
  with d get_command(1) [OF d idu, of "stack_junk env"] show ?thesis
    by (cases "put_ok env") (auto simp: pwm_command_def id_change_def)
next
  case PWM_GET_WIDTH
  with d get_command(2) [OF d idu width, of "stack_junk env"] show ?thesis
    by (cases "put_ok env") (auto simp: pwm_command_def id_change_def)
qed (use d in \<open>cases "put_ok env"; simp add: pwm_command_def id_change_def\<close>)+

lemma exec_returns:
  assumes di: "dev_inv ops cinv act dev" and ask: "asks good e" and early: "\<not> asks_width_early ready e dev"
  shows "\<exists>dev'. pwm_exec e dev = Some dev' \<and> dev_inv ops cinv act dev'"
proof -
  note i = dev_invD [OF di]
  have idu: "idu = PWM_ID_NONE \<or> idu \<in> act (controller dev)" if "id_used dev fd = Some idu" for fd idu
    using i(3) [of idu] that by auto
  show ?thesis
  proof (cases e)
    case (PWM_open_file env fd)
    have "dev_inv ops cinv act (dev\<lparr>id_used := (id_used dev)(fd \<mapsto> PWM_ID_NONE), module_users := module_users dev + 1\<rparr>)"
      if "id_used dev fd = None"
      by (rule dev_inv_open [OF di that])
    with di i(1) PWM_open_file show ?thesis by (auto simp: pwm_exec_def pwm_open_def)
  next
    case (PWM_close_file fd)
    show ?thesis
    proof (cases "id_used dev fd")
      case (Some idu)
      obtain r n d where c: "(if idu \<noteq> PWM_ID_NONE then ioctl_pwm_release ops idu idu (controller dev) else Some (0, idu, controller dev)) =
          Some (r, n, d)" "cinv d" "act d = act (controller dev) - {idu}"
      proof (cases "idu = PWM_ID_NONE")
        case True
        with none_free [OF i(2)] i(2) show ?thesis by (intro that [of 0 idu "controller dev"]) auto
      next
        case False
        with release [OF i(2), of idu] idu [OF Some] obtain r d where
          "pwm_release ops idu (controller dev) = Some (r, d)" "cinv d" "act d = act (controller dev) - {idu}" by blast
        with False show ?thesis by (intro that [of 0 PWM_ID_NONE d]) (simp_all add: ioctl_pwm_release_def)
      qed
      then have "pwm_close ops fd idu dev =
          Some (dev\<lparr>id_used := (id_used dev)(fd := None), module_users := module_users dev - 1, controller := d\<rparr>)"
        by (simp only: pwm_close_def option.case prod.case)
      with dev_inv_close [OF di Some c(2,3) none_free [OF i(2)]] Some i(1) PWM_close_file show ?thesis
        by (simp add: pwm_exec_def)
    qed (use di PWM_close_file in \<open>simp add: pwm_exec_def\<close>)
  next
    case (PWM_call env fd cmd)
    show ?thesis
    proof (cases "id_used dev fd")
      case (Some idu)
      have good: "good (got_user arg)" if "cmd = PWM_REQUEST arg" for arg
        using ask that PWM_call by (simp add: asks_def)
      have "idu = PWM_ID_NONE \<or> ready (controller dev)" if "cmd = PWM_GET_WIDTH"
        using early that PWM_call Some by (auto simp: asks_width_early_def)
      from command_returns [OF i(2) idu [OF Some] good this, where env = env] obtain r out idu' d' where
        c: "pwm_command ops env cmd idu (controller dev) = Some (r, out, idu', d')" "cinv d'" "id_change idu idu' (act (controller dev)) (act d')"
        by blast
      from dev_inv_id_change [OF di Some c(3,2)] c(1) Some i(1) PWM_call di show ?thesis
        by (simp add: pwm_exec_def pwm_ioctl_def)
    qed (use di PWM_call in \<open>simp add: pwm_exec_def\<close>)
  qed
qed

lemma exec_inv:
  assumes di: "dev_inv ops cinv act dev" and ask: "asks good e" and ex: "pwm_exec e dev = Some dev'"
  shows "dev_inv ops cinv act dev'"
proof (cases "asks_width_early ready e dev")
  case True
  then obtain env fd idu where e: "e = PWM_call env fd PWM_GET_WIDTH" and f: "id_used dev fd = Some idu"
    by (auto simp: asks_width_early_def split: pwm_event.splits pwm_cmd.splits)
  have "dev' = dev \<or> dev' = dev\<lparr>id_used := (id_used dev)(fd \<mapsto> idu), controller := controller dev\<rparr>"
    using ex dev_invD(1) [OF di] f
    by (auto simp: e pwm_exec_def pwm_ioctl_def pwm_command_def split: if_splits)
  with di dev_inv_id_change [OF di f, of idu "controller dev"] dev_invD(2) [OF di] show ?thesis
    by (auto simp: id_change_def)
next
  case False
  from exec_returns [OF di ask False] ex show ?thesis by auto
qed

text \<open>A run returns, or it faults where the width is asked for too early.\<close>

lemma run_returns:
  assumes "dev_inv ops cinv act dev" and "\<forall>e \<in> set es. asks good e"
  shows "case pwm_run es dev of
      Some dev' \<Rightarrow> dev_inv ops cinv act dev'
    | None \<Rightarrow> \<exists>es1 e es2 dev1. es = es1 @ e # es2 \<and> pwm_run es1 dev = Some dev1 \<and> asks_width_early ready e dev1"
  using assms
proof (induction es arbitrary: dev)
  case (Cons e es)
  show ?case
  proof (cases "pwm_exec e dev")
    case None
    with exec_returns [OF Cons.prems(1), of e] Cons.prems(2) have "asks_width_early ready e dev" by auto
    with None show ?thesis by (auto intro!: exI [of _ "[]"])
  next
    case (Some dev1)
    have di: "dev_inv ops cinv act dev1" by (rule exec_inv [OF Cons.prems(1) _ Some]) (use Cons.prems(2) in simp)
    with Cons.IH [OF di] Cons.prems(2) Some show ?thesis
    proof (cases "pwm_run es dev1")
      case None
      with Cons.IH [OF di] Cons.prems(2) obtain es1 e' es2 dev2 where
        "es = es1 @ e' # es2" "pwm_run es1 dev1 = Some dev2" "asks_width_early ready e' dev2" by auto
      with None Some show ?thesis by (auto intro!: exI [of _ "e # es1"])
    qed simp
  qed
qed simp

end

section \<open>The OMAP controller provides the contract\<close>

definition omap_pwm_ops :: "dm_env \<Rightarrow> omap_pwm_state pwm_ops" where
  "omap_pwm_ops env =
     \<lparr>pwm_max = PWM_NB_TIMER - 1, pwm_start = omap_pwm_start, pwm_stop = omap_pwm_stop,
      pwm_request = omap_pwm_request env, pwm_release = omap_pwm_release env,
      pwm_set_width = omap_pwm_set_width, pwm_set_freq = omap_pwm_set_freq env,
      pwm_get_width = omap_pwm_get_width, pwm_get_freq = omap_pwm_get_freq\<rparr>"

text \<open>
  \<open>A\<close> is the set of channels whose timers no other driver reserves.  Channel
  0 is never in it: timer numbers start at 1.
\<close>

definition active_chans :: "omap_pwm_state \<Rightarrow> nat set" where
  "active_chans d = {n. n < PWM_NB_TIMER \<and> pwm_active (omap_pwm d ! n)}"

definition omap_inv :: "nat set \<Rightarrow> omap_pwm_state \<Rightarrow> bool" where
  "omap_inv A d \<longleftrightarrow>
     pwm_wf d \<and> A \<subseteq> {1..<PWM_NB_TIMER} \<and> active_chans d \<subseteq> A \<and>
     (\<forall>n \<in> active_chans d. timer (omap_pwm d ! n) = Some (n - 1)) \<and>
     (\<forall>n \<in> A. reserved (dm_timers d ! (n - 1)) \<longleftrightarrow> n \<in> active_chans d)"

definition good_chan :: "nat set \<Rightarrow> nat \<Rightarrow> bool" where
  "good_chan A n \<longleftrightarrow> n \<in> A \<or> PWM_NB_TIMER \<le> n"

lemma omap_invD:
  assumes "omap_inv A d"
  shows "pwm_wf d" and "A \<subseteq> {1..<PWM_NB_TIMER}" and "active_chans d \<subseteq> A"
    and "n \<in> active_chans d \<Longrightarrow> timer (omap_pwm d ! n) = Some (n - 1)"
    and "n \<in> A \<Longrightarrow> reserved (dm_timers d ! (n - 1)) \<longleftrightarrow> n \<in> active_chans d"
  using assms unfolding omap_inv_def by blast+

lemma omap_inv_lengths:
  assumes "omap_inv A d"
  shows "length (omap_pwm d) = PWM_NB_TIMER" and "length (dm_timers d) = NO_DM_TIMERS"
  using omap_invD(1) [OF assms] by (simp_all add: pwm_wf_def)

text \<open>Operations that leave the reservations and the active flags alone.\<close>

lemma omap_inv_frame:
  assumes "omap_inv A d" and "pwm_wf d'"
    and "\<And>n. n < PWM_NB_TIMER \<Longrightarrow> timer (omap_pwm d' ! n) = timer (omap_pwm d ! n) \<and> pwm_active (omap_pwm d' ! n) = pwm_active (omap_pwm d ! n)"
    and "\<And>i. reserved (dm_timers d' ! i) = reserved (dm_timers d ! i)"
  shows "omap_inv A d' \<and> active_chans d' = active_chans d"
proof -
  have a: "active_chans d' = active_chans d" using assms(3) by (auto simp: active_chans_def)
  moreover have "timer (omap_pwm d' ! n) = timer (omap_pwm d ! n)" if "n \<in> active_chans d" for n
    using that assms(3) by (simp add: active_chans_def)
  ultimately show ?thesis using assms(1,2,4) by (simp add: omap_inv_def)
qed

definition same_owners :: "omap_pwm_state \<Rightarrow> omap_pwm_state \<Rightarrow> bool" where
  "same_owners d d' \<longleftrightarrow> (\<forall>n. timer (omap_pwm d' ! n) = timer (omap_pwm d ! n) \<and> pwm_active (omap_pwm d' ! n) = pwm_active (omap_pwm d ! n)) \<and>
     (\<forall>i. reserved (dm_timers d' ! i) = reserved (dm_timers d ! i))"

lemma same_owners_trans: "same_owners a b \<Longrightarrow> same_owners b c \<Longrightarrow> same_owners a c"
  by (simp add: same_owners_def)

lemma on_timer_owners:
  assumes "on_timer n f d = Some d'" and "\<And>t. reserved (f t) = reserved t"
  shows "same_owners d d'"
  using assms(1)
proof (rule on_timer_Some)
  fix i assume "d' = d\<lparr>dm_timers := (dm_timers d)[i := f (dm_timers d ! i)]\<rparr>"
  then show ?thesis using list_update_field [of reserved "f (dm_timers d ! i)" "dm_timers d" i] assms(2) by (simp add: same_owners_def)
qed

lemma set_chan_owners:
  "(\<And>c. timer (g c) = timer c) \<Longrightarrow> (\<And>c. pwm_active (g c) = pwm_active c) \<Longrightarrow> same_owners d (set_chan n g d)"
  by (simp add: same_owners_def set_chan_def list_update_field [where f = timer] list_update_field [where f = pwm_active])

lemma same_owners_refl: "same_owners d d"
  by (simp add: same_owners_def)

lemma set_width_owners:
  assumes "omap_pwm_set_width n w d = Some (r, d')"
  shows "same_owners d d'"
proof (cases "n > PWM_NB_TIMER \<or> w > PWM_WIDTH_MAX")
  case True
  with assms show ?thesis by (auto simp: omap_pwm_set_width_def same_owners_refl split: if_splits)
next
  case False
  define v :: u32 where "v = of_nat (to_u32 (pwm_precision_mask d + compute_ratio (pwm_precision_mask d) w))"
  have "omap_pwm_set_width n w d =
      map_option (Pair 0) (on_timer n (omap_dm_timer_set_match True v) (set_chan n (\<lambda>c. c\<lparr>ratio := w\<rparr>) d))"
    unfolding v_def omap_pwm_set_width_def using False by (simp only: if_False de_Morgan_disj simp_thms)
  with assms have "on_timer n (omap_dm_timer_set_match True v) (set_chan n (\<lambda>c. c\<lparr>ratio := w\<rparr>) d) = Some d'"
    by (simp add: map_option_eq_Some)
  note t = on_timer_owners [OF this reserved_frame(9)]
  have "same_owners d (set_chan n (\<lambda>c. c\<lparr>ratio := w\<rparr>) d)" by (rule set_chan_owners) simp_all
  from same_owners_trans [OF this t] show ?thesis .
qed

lemma set_freq_owners:
  assumes "omap_pwm_set_freq env n f d = Some (r, d')"
  shows "same_owners d d'"
proof (cases "n > PWM_NB_TIMER")
  case True
  with assms show ?thesis by (simp add: omap_pwm_set_freq_def same_owners_refl)
next
  case False
  then obtain d1 where d1: "on_timer n (omap_dm_timer_set_source env OMAP_TIMER_SRC_SYS_CLK) d = Some d1"
    using assms by (auto simp: omap_pwm_set_freq_def split: option.splits)
  note o1 = on_timer_owners [OF d1 reserved_frame(12)]
  show ?thesis
  proof (cases "f \<ge> to_u32 (source_rate env OMAP_TIMER_SRC_SYS_CLK) div 2 \<or> f = 0")
    case True
    with False assms d1 o1 show ?thesis by (auto simp: omap_pwm_set_freq_def Let_def)
  next
    case ok: False
    define C where "C = to_u32 (source_rate env OMAP_TIMER_SRC_SYS_CLK) div 2"
    define x m v where "x = C div (C div f)" and "m = MAX_UINT32 - C div f" and "v = (of_nat m :: u32)"
    have "omap_pwm_set_freq env n f d =
        (case on_timer n (omap_dm_timer_set_load True v) ((set_chan n (\<lambda>c. c\<lparr>freq := x\<rparr>) d1)\<lparr>pwm_precision_mask := m\<rparr>) of
           None \<Rightarrow> None
         | Some s3 \<Rightarrow> case omap_pwm_get_width n s3 of None \<Rightarrow> None
           | Some (_, r) \<Rightarrow> case omap_pwm_set_width n r s3 of None \<Rightarrow> None | Some (_, s4) \<Rightarrow> Some (0, s4))"
      using False ok d1 by (simp add: omap_pwm_set_freq_def Let_def C_def x_def m_def v_def)
    with assms obtain d3 r3 w where d3: "on_timer n (omap_dm_timer_set_load True v)
        ((set_chan n (\<lambda>c. c\<lparr>freq := x\<rparr>) d1)\<lparr>pwm_precision_mask := m\<rparr>) = Some d3" and w: "omap_pwm_set_width n w d3 = Some (r3, d')"
      by (auto split: option.splits prod.splits)
    have "same_owners d1 ((set_chan n (\<lambda>c. c\<lparr>freq := x\<rparr>) d1)\<lparr>pwm_precision_mask := m\<rparr>)"
      using set_chan_owners [of "\<lambda>c. c\<lparr>freq := x\<rparr>" d1 n] by (simp add: same_owners_def)
    then show ?thesis
      using o1 on_timer_owners [OF d3 reserved_frame(8)] set_width_owners [OF w] same_owners_trans by blast
  qed
qed

lemma omap_op_frame:
  assumes "omap_inv A d" and "pwm_wf d'" and "same_owners d d'"
  shows "omap_inv A d' \<and> active_chans d' = active_chans d"
  using assms(3) by (intro omap_inv_frame [OF assms(1,2)]) (auto simp: same_owners_def)

lemma active_timer:
  assumes "omap_inv A d" and "n \<in> active_chans d"
  shows "n < PWM_NB_TIMER" and "timer (omap_pwm d ! n) \<noteq> None" and "n < length (omap_pwm d)"
  using assms omap_invD(4) [OF assms] omap_inv_lengths(1) [OF assms(1)] by (auto simp: active_chans_def)

text \<open>Starting and stopping return on a channel in use.\<close>

lemma on_timer_op:
  assumes i: "omap_inv A d" and n: "n \<in> active_chans d" and f: "\<And>t. reserved (f t) = reserved t"
  shows "\<exists>d'. on_timer n f d = Some d' \<and> omap_inv A d' \<and> active_chans d' = active_chans d"
proof -
  obtain d' where d': "on_timer n f d = Some d'" by (rule on_timer_returns [OF active_timer(1,2) [OF i n]])
  with omap_op_frame [OF i on_timer_wf [OF d' omap_invD(1) [OF i]] on_timer_owners [OF d' f]] show ?thesis by blast
qed

text \<open>Requests and releases move the active flag together with the reservation of the timer.\<close>

lemma omap_request_op:
  assumes i: "omap_inv A d" and g: "good_chan A n"
  shows "\<exists>r d'. omap_pwm_request env n d = Some (r, d') \<and> omap_inv A d' \<and>
    (if r = 0 then n \<notin> active_chans d \<and> active_chans d' = insert n (active_chans d) else active_chans d' = active_chans d)"
proof (cases "PWM_NB_TIMER \<le> n \<or> omap_pwm_is_active n d")
  case True
  with i show ?thesis by (auto simp: omap_pwm_request_def errno_defs)
next
  case False
  then have n: "n \<in> A" "n < PWM_NB_TIMER" "1 \<le> n" "n \<notin> active_chans d"
    using g omap_invD(2) [OF i] by (auto simp: good_chan_def active_chans_def omap_pwm_is_active_def)
  note len = omap_inv_lengths [OF i]
  have nt: "n - 1 < NO_DM_TIMERS" using n(2) by (simp add: PWM_NB_TIMER_def NO_DM_TIMERS_def)
  have free: "\<not> reserved (dm_timers d ! (n - 1))" using omap_invD(5) [OF i n(1)] n(4) by simp
  have idx: "nat (int n - 1) = n - 1" using n(3) by linarith
  obtain t' where t': "reserved t'" and d': "snd (omap_pwm_set_active env n True d) =
      set_chan n (\<lambda>c. c\<lparr>timer := Some (n - 1), pwm_active := True\<rparr>) (d\<lparr>dm_timers := (dm_timers d)[n - 1 := t']\<rparr>)"
  proof (rule that [of "setup_timer (pwm_precision_mask d) (omap_dm_timer_prepare env (n - 1) ((dm_timers d ! (n - 1))\<lparr>reserved := True\<rparr>))"])
    show "reserved (setup_timer (pwm_precision_mask d) (omap_dm_timer_prepare env (n - 1) ((dm_timers d ! (n - 1))\<lparr>reserved := True\<rparr>)))"
      by (simp add: setup_timer_def)
  qed (use free n(2,3) len nt idx in
        \<open>simp add: omap_pwm_set_active_def omap_dm_timer_request_specific_def Let_def PWM_NB_TIMER_def NO_DM_TIMERS_def\<close>)
  let ?d = "snd (omap_pwm_set_active env n True d)"
  have act: "active_chans ?d = insert n (active_chans d)"
    unfolding d' using n(2) len by (auto simp: active_chans_def set_chan_def nth_list_update)
  have "omap_inv A ?d"
    unfolding omap_inv_def act
  proof (intro conjI ballI)
    show "pwm_wf ?d" by (rule omap_pwm_set_active_wf [OF omap_invD(1) [OF i]])
    show "A \<subseteq> {1..<PWM_NB_TIMER}" "insert n (active_chans d) \<subseteq> A" using omap_invD(2,3) [OF i] n(1) by auto
    show "timer (omap_pwm ?d ! k) = Some (k - 1)" if "k \<in> insert n (active_chans d)" for k
      using that omap_invD(4) [OF i, of k] n(2) len unfolding d' by (cases "k = n") (auto simp: set_chan_def)
    show "reserved (dm_timers ?d ! (k - 1)) \<longleftrightarrow> k \<in> insert n (active_chans d)" if "k \<in> A" for k
    proof (cases "k = n")
      case False
      moreover have "1 \<le> k" using that omap_invD(2) [OF i] by auto
      ultimately have "k - 1 \<noteq> n - 1" using n(3) by linarith
      with False omap_invD(5) [OF i that] show ?thesis unfolding d' by (simp add: set_chan_def)
    qed (use t' nt len in \<open>simp add: d' set_chan_def\<close>)
  qed
  with act n False show ?thesis by (auto simp: omap_pwm_request_def)
qed

lemma omap_release_op:
  assumes i: "omap_inv A d" and n: "n \<in> active_chans d"
  shows "\<exists>r d'. omap_pwm_release env n d = Some (r, d') \<and> omap_inv A d' \<and> active_chans d' = active_chans d - {n}"
proof -
  note len = omap_inv_lengths [OF i] and t = omap_invD(4) [OF i n]
  have nb: "n < PWM_NB_TIMER" "1 \<le> n" "n - 1 < NO_DM_TIMERS"
    using n omap_invD(2,3) [OF i] by (auto simp: active_chans_def PWM_NB_TIMER_def NO_DM_TIMERS_def)
  let ?d = "snd (omap_pwm_set_active env n False d)"
  obtain t' where t': "\<not> reserved t'" and d': "?d = set_chan n (\<lambda>c. c\<lparr>pwm_active := False\<rparr>) (d\<lparr>dm_timers := (dm_timers d)[n - 1 := t']\<rparr>)"
    by (rule that [of "(omap_dm_timer_disable (omap_dm_timer_reset env (n - 1) (omap_dm_timer_enable (dm_timers d ! (n - 1)))))\<lparr>reserved := False\<rparr>"])
       (simp_all add: omap_pwm_set_active_def t omap_dm_timer_free_def)
  have act: "active_chans ?d = active_chans d - {n}"
    unfolding d' using nb(1) len by (auto simp: active_chans_def set_chan_def nth_list_update)
  have "omap_inv A ?d"
    unfolding omap_inv_def act
  proof (intro conjI ballI)
    show "pwm_wf ?d" by (rule omap_pwm_set_active_wf [OF omap_invD(1) [OF i]])
    show "A \<subseteq> {1..<PWM_NB_TIMER}" "active_chans d - {n} \<subseteq> A" using omap_invD(2,3) [OF i] by auto
    show "timer (omap_pwm ?d ! k) = Some (k - 1)" if "k \<in> active_chans d - {n}" for k
      using that omap_invD(4) [OF i, of k] unfolding d' by (simp add: set_chan_def)
    show "reserved (dm_timers ?d ! (k - 1)) \<longleftrightarrow> k \<in> active_chans d - {n}" if "k \<in> A" for k
    proof (cases "k = n")
      case False
      moreover have "1 \<le> k" using that omap_invD(2) [OF i] by auto
      ultimately have "k - 1 \<noteq> n - 1" using nb(2) by linarith
      with False omap_invD(5) [OF i that] show ?thesis unfolding d' by (simp add: set_chan_def)
    qed (use t' nb len in \<open>simp add: d' set_chan_def\<close>)
  qed
  with act n nb show ?thesis by (auto simp: omap_pwm_release_def omap_pwm_is_active_def active_chans_def)
qed

interpretation omap: pwm_backend "omap_pwm_ops env" "omap_inv A" active_chans "good_chan A" "\<lambda>d. pwm_precision_mask d \<noteq> MAX_UINT32"
  for env A
proof
  fix d n assume i: "omap_inv A d"
  show "good_chan A n \<Longrightarrow> \<exists>r d'. pwm_request (omap_pwm_ops env) n d = Some (r, d') \<and> omap_inv A d' \<and>
      (if r = 0 then n \<notin> active_chans d \<and> active_chans d' = insert n (active_chans d) else active_chans d' = active_chans d)"
    using omap_request_op [OF i] by (simp add: omap_pwm_ops_def)
  show none: "PWM_ID_NONE \<notin> active_chans d" by (simp add: active_chans_def PWM_ID_NONE_def PWM_NB_TIMER_def)
  show "\<exists>r d'. pwm_release (omap_pwm_ops env) n d = Some (r, d') \<and> omap_inv A d' \<and> active_chans d' = active_chans d - {n}"
    if "n \<in> active_chans d \<or> n = PWM_ID_NONE"
  proof (cases "n = PWM_ID_NONE")
    case True
    then have "omap_pwm_release env n d = Some (-EINVAL, d)"
      by (simp add: omap_pwm_release_def PWM_ID_NONE_def PWM_NB_TIMER_def)
    with i none True show ?thesis by (simp add: omap_pwm_ops_def)
  next
    case False
    with that omap_release_op [OF i, of n] show ?thesis by (simp add: omap_pwm_ops_def)
  qed
  assume n: "n \<in> active_chans d"
  note a = active_timer [OF i n] and wf = omap_invD(1) [OF i]
  have le: "\<not> n > PWM_NB_TIMER" using a(1) by simp
  show "\<exists>r d'. pwm_start (omap_pwm_ops env) n d = Some (r, d') \<and> omap_inv A d' \<and> active_chans d' = active_chans d"
    using on_timer_op [OF i n, of "\<lambda>t. omap_dm_timer_trigger (omap_dm_timer_start (omap_dm_timer_enable t))"] le
    by (auto simp: omap_pwm_ops_def omap_pwm_start_def)
  show "\<exists>r d'. pwm_stop (omap_pwm_ops env) n d = Some (r, d') \<and> omap_inv A d' \<and> active_chans d' = active_chans d"
    using on_timer_op [OF i n, of "\<lambda>t. omap_dm_timer_disable (omap_dm_timer_stop t)"] le
    by (auto simp: omap_pwm_ops_def omap_pwm_stop_def)
  show "\<exists>r d'. pwm_set_freq (omap_pwm_ops env) n f d = Some (r, d') \<and> omap_inv A d' \<and> active_chans d' = active_chans d" for f
  proof -
    obtain r d' where d': "omap_pwm_set_freq env n f d = Some (r, d')" using omap_pwm_set_freq_returns [OF a] by blast
    with omap_op_frame [OF i omap_pwm_set_freq_wf [OF d' wf] set_freq_owners [OF d']] show ?thesis by (simp add: omap_pwm_ops_def)
  qed
  show "\<exists>r d'. pwm_set_width (omap_pwm_ops env) n w d = Some (r, d') \<and> omap_inv A d' \<and> active_chans d' = active_chans d" for w
  proof -
    obtain r d' where d': "omap_pwm_set_width n w d = Some (r, d')" by (rule omap_pwm_set_width_returns [OF a])
    with omap_op_frame [OF i omap_pwm_set_width_wf [OF d' wf] set_width_owners [OF d']] show ?thesis by (simp add: omap_pwm_ops_def)
  qed
  have "pwm_precision_mask d \<le> MAX_UINT32" using wf by (simp add: pwm_wf_def)
  then show "pwm_get_freq (omap_pwm_ops env) n d \<noteq> None \<and> (pwm_precision_mask d \<noteq> MAX_UINT32 \<longrightarrow> pwm_get_width (omap_pwm_ops env) n d \<noteq> None)"
    using a(1) by (simp add: omap_pwm_ops_def omap_pwm_get_freq_def omap_pwm_get_width_def)
qed

section \<open>Properties of the device with the OMAP controller\<close>

definition pwm_boot :: "dm_env \<Rightarrow> dm_timer list \<Rightarrow> omap_pwm_state pwm_device" where
  "pwm_boot env ts =
     snd (register_pwm True (omap_pwm_ops env)
            \<lparr>dev_ops = None, id_used = Map.empty, module_users = 0, controller = omap_pwm_init ts\<rparr>)"

definition free_chans :: "dm_timer list \<Rightarrow> nat set" where
  "free_chans ts = {n. 1 \<le> n \<and> n < PWM_NB_TIMER \<and> \<not> reserved (ts ! (n - 1))}"

lemma pwm_boot_inv:
  assumes "length ts = NO_DM_TIMERS"
  shows "dev_inv (omap_pwm_ops env) (omap_inv (free_chans ts)) active_chans (pwm_boot env ts)"
proof (rule dev_invI)
  have a: "active_chans (omap_pwm_init ts) = {}" by (auto simp: active_chans_def omap_pwm_init_def)
  have "omap_inv (free_chans ts) (omap_pwm_init ts)"
    unfolding omap_inv_def a using omap_pwm_init_wf [OF assms] by (auto simp: free_chans_def omap_pwm_init_def)
  then show "omap_inv (free_chans ts) (controller (pwm_boot env ts))"
    by (simp add: pwm_boot_def register_pwm_def omap_pwm_ops_def)
  show "n \<in> active_chans (controller (pwm_boot env ts)) \<longleftrightarrow> n \<noteq> PWM_ID_NONE \<and> (\<exists>fd. id_used (pwm_boot env ts) fd = Some n)" for n
    using a by (simp add: pwm_boot_def register_pwm_def omap_pwm_ops_def)
qed (simp_all add: pwm_boot_def register_pwm_def omap_pwm_ops_def PWM_NB_TIMER_def)

text \<open>
  C20: As long as files ask only for channels whose timers are free at boot, or
  for numbers beyond the last channel, a sequence of opens, closes and commands
  faults at most at a \<open>PWM_GET_WIDTH\<close> on a requested channel while the mask has
  its initial value, that is before a frequency was set (the division by 0 of
  omap_pwm.c, line 201).  Every other sequence runs to its end, and then no two
  files use the same channel, every channel in use has its own reserved timer,
  and the references on the controller's module are the open files.
\<close>

theorem pwm_run_safe:
  assumes "length ts = NO_DM_TIMERS" and "\<forall>e \<in> set es. asks (good_chan (free_chans ts)) e"
  shows "case pwm_run es (pwm_boot env ts) of
           Some dev \<Rightarrow>
             (\<forall>fd fd' n. id_used dev fd = Some n \<longrightarrow> id_used dev fd' = Some n \<longrightarrow> n \<noteq> PWM_ID_NONE \<longrightarrow> fd = fd') \<and>
             (\<forall>fd n. id_used dev fd = Some n \<longrightarrow> n \<noteq> PWM_ID_NONE \<longrightarrow>
                timer (omap_pwm (controller dev) ! n) = Some (n - 1) \<and> reserved (dm_timers (controller dev) ! (n - 1))) \<and>
             module_users dev = card (dom (id_used dev))
         | None \<Rightarrow>
             \<exists>es1 call fd es2 dev n. es = es1 @ PWM_call call fd PWM_GET_WIDTH # es2 \<and> pwm_run es1 (pwm_boot env ts) = Some dev \<and>
               id_used dev fd = Some n \<and> n \<noteq> PWM_ID_NONE \<and> pwm_precision_mask (controller dev) = MAX_UINT32"
proof (cases "pwm_run es (pwm_boot env ts)")
  case None
  with omap.run_returns [OF pwm_boot_inv [OF assms(1), of env] assms(2)] obtain es1 e es2 dev where
    es: "es = es1 @ e # es2" "pwm_run es1 (pwm_boot env ts) = Some dev"
    and e: "asks_width_early (\<lambda>d. pwm_precision_mask d \<noteq> MAX_UINT32) e dev" by auto
  from e obtain call fd n where "e = PWM_call call fd PWM_GET_WIDTH" "id_used dev fd = Some n" "n \<noteq> PWM_ID_NONE"
    "pwm_precision_mask (controller dev) = MAX_UINT32"
    by (auto simp: asks_width_early_def split: pwm_event.splits pwm_cmd.splits)
  with None es show ?thesis by (simp only: option.case) blast
next
  case (Some dev)
  with omap.run_returns [OF pwm_boot_inv [OF assms(1), of env] assms(2)]
  have di: "dev_inv (omap_pwm_ops env) (omap_inv (free_chans ts)) active_chans dev" by simp
  note i = dev_invD [OF di]
  have "timer (omap_pwm (controller dev) ! n) = Some (n - 1) \<and> reserved (dm_timers (controller dev) ! (n - 1))"
    if "id_used dev fd = Some n" "n \<noteq> PWM_ID_NONE" for fd n
    using i(3) [of n] that omap_invD(3,4,5) [OF i(2)] by blast
  with Some i(4,6) show ?thesis by auto
qed

definition ok_open :: open_env where
  "ok_open = \<lparr>interrupted = False, kzalloc_ok = True, try_module_get_ok = True\<rparr>"

definition ok_ioctl :: ioctl_env where
  "ok_ioctl = \<lparr>sig_pending = False, put_ok = True, stack_junk = 0\<rparr>"

theorem pwm_run_safe_witness:
  "length fresh_timers = NO_DM_TIMERS \<and>
   (\<exists>dev. pwm_run [PWM_open_file ok_open 1, PWM_call ok_ioctl 1 (PWM_REQUEST (Some 4)), PWM_call ok_ioctl 1 PWM_START]
      (pwm_boot clk26 fresh_timers) = Some dev \<and> module_users dev = card (dom (id_used dev)))"
proof -
  let ?es = "[PWM_open_file ok_open 1, PWM_call ok_ioctl 1 (PWM_REQUEST (Some 4)), PWM_call ok_ioctl 1 PWM_START]"
  have len: "length fresh_timers = NO_DM_TIMERS" by (simp add: fresh_timers_def)
  have "\<forall>e \<in> set ?es. asks (good_chan (free_chans fresh_timers)) e"
    by (simp add: fresh_timers_def asks_def good_chan_def free_chans_def got_user_def NO_DM_TIMERS_def PWM_NB_TIMER_def)
  note safe = pwm_run_safe [OF len this, of clk26]
  have "\<not> (\<exists>es1 call fd es2. ?es = es1 @ PWM_call call fd PWM_GET_WIDTH # es2)"
    by (auto simp: Cons_eq_append_conv)
  with safe len show ?thesis by (cases "pwm_run ?es (pwm_boot clk26 fresh_timers)") auto
qed

text \<open>
  Channel 0 has no timer behind it: its request succeeds for two files at
  once, and starting it uses a null pointer.
\<close>

lemma pwm_channel0_faults:
  "\<exists>dev. pwm_run [PWM_open_file ok_open 1, PWM_open_file ok_open 2, PWM_call ok_ioctl 1 (PWM_REQUEST (Some 0)),
        PWM_call ok_ioctl 2 (PWM_REQUEST (Some 0))] (pwm_boot clk26 fresh_timers) = Some dev \<and>
     id_used dev 1 = Some 0 \<and> id_used dev 2 = Some 0 \<and> pwm_exec (PWM_call ok_ioctl 1 PWM_START) dev = None"
  by (simp add: pwm_exec_def pwm_open_def pwm_ioctl_def pwm_command_def ioctl_pwm_request_def ioctl_pwm_start_def
       omap_pwm_ops_def omap_pwm_request_def omap_pwm_is_active_def omap_pwm_set_active_def omap_dm_timer_request_specific_def
       omap_pwm_start_def on_timer_def set_chan_def pwm_boot_def register_pwm_def omap_pwm_init_def ok_open_def ok_ioctl_def
       got_user_def PWM_NB_TIMER_def PWM_ID_NONE_def)

text \<open>Asking for the width before any frequency was set divides by 0.\<close>

lemma pwm_early_width_faults:
  "pwm_run [PWM_open_file ok_open 1, PWM_call ok_ioctl 1 (PWM_REQUEST (Some 4)), PWM_call ok_ioctl 1 PWM_GET_WIDTH]
     (pwm_boot clk26 fresh_timers) = None"
  by (simp add: pwm_exec_def pwm_open_def pwm_ioctl_def pwm_command_def ioctl_pwm_request_def ioctl_pwm_get_width_def
       omap_pwm_ops_def omap_pwm_request_def omap_pwm_is_active_def omap_pwm_set_active_def omap_dm_timer_request_specific_def
       omap_pwm_get_width_def set_chan_def pwm_boot_def register_pwm_def omap_pwm_init_def ok_open_def ok_ioctl_def
       got_user_def PWM_NB_TIMER_def PWM_ID_NONE_def fresh_timers_def NO_DM_TIMERS_def MAX_UINT32_def)

end
