(* ===== verification/Kfifo.thy ===== *)
theory Kfifo
  imports Prelude
begin

text \<open>
  kernel/kfifo.c: the byte queue on a ring buffer whose size is a power of two and
  whose indices \<open>in\<close> and \<open>out\<close> are free-running 32-bit counters.  The
  abstract queue is a list of at most \<open>size\<close> bytes (locale
  \<open>bounded_fifo\<close>).  The last part splits \<open>__kfifo_put\<close> and
  \<open>__kfifo_get\<close> into their steps and interleaves one writer with one reader.
\<close>

section \<open>Data\<close>

record kfifo =
  buffer :: "u8 list"
  fsize :: u32
  fin :: u32
  fout :: u32

definition is_power_of_2 :: "u32 \<Rightarrow> bool" where
  "is_power_of_2 n \<longleftrightarrow> n \<noteq> 0 \<and> n AND (n - 1) = 0"

text \<open>A shift by 32 gives 0, as the ARM register shift does.\<close>

definition roundup_pow_of_two :: "u32 \<Rightarrow> u32" where
  "roundup_pow_of_two n = push_bit (fls (unat (n - 1))) 1"

text \<open>\<open>memcpy(dst + off, src, n)\<close> on byte lists.\<close>

definition memcpy_at :: "u8 list \<Rightarrow> nat \<Rightarrow> u8 list \<Rightarrow> nat \<Rightarrow> u8 list" where
  "memcpy_at dst off src n = take off dst @ take n src @ drop (off + n) dst"

section \<open>Operations\<close>

text \<open>
  \<open>None\<close> is \<open>BUG_ON\<close>, \<open>Inl\<close> an error pointer.  The contents of a
  fresh buffer are what the allocator left there.
\<close>

definition kfifo_init :: "bool \<Rightarrow> u8 list \<Rightarrow> u32 \<Rightarrow> (int + kfifo) option" where
  "kfifo_init kmalloc_ok buf n =
     (if \<not> is_power_of_2 n then None
      else if \<not> kmalloc_ok then Some (Inl (-ENOMEM))
      else Some (Inr \<lparr>buffer = buf, fsize = n, fin = 0, fout = 0\<rparr>))"

definition kfifo_alloc :: "(u32 \<Rightarrow> u8 list option) \<Rightarrow> bool \<Rightarrow> u32 \<Rightarrow> (int + kfifo) option" where
  "kfifo_alloc kmalloc kmalloc_ok n =
     (if \<not> is_power_of_2 n \<and> n > 0x80000000 then None
      else let m = (if \<not> is_power_of_2 n then roundup_pow_of_two n else n)
           in case kmalloc m of
                None \<Rightarrow> Some (Inl (-ENOMEM))
              | Some buf \<Rightarrow> kfifo_init kmalloc_ok buf m)"

definition kfifo_put_unlocked :: "kfifo \<Rightarrow> u8 list \<Rightarrow> u32 \<Rightarrow> u32 \<times> kfifo" where
  "kfifo_put_unlocked fifo buf len =
     (let len = min len (fsize fifo - fin fifo + fout fifo);
          off = fin fifo AND (fsize fifo - 1);
          l = min len (fsize fifo - off);
          b1 = memcpy_at (buffer fifo) (unat off) buf (unat l);
          b2 = memcpy_at b1 0 (drop (unat l) buf) (unat (len - l))
      in (len, fifo\<lparr>buffer := b2, fin := fin fifo + len\<rparr>))"

definition kfifo_get_unlocked :: "kfifo \<Rightarrow> u32 \<Rightarrow> u32 \<times> u8 list \<times> kfifo" where
  "kfifo_get_unlocked fifo len =
     (let len = min len (fin fifo - fout fifo);
          off = fout fifo AND (fsize fifo - 1);
          l = min len (fsize fifo - off);
          data = take (unat l) (drop (unat off) (buffer fifo)) @ take (unat (len - l)) (buffer fifo)
      in (len, data, fifo\<lparr>fout := fout fifo + len\<rparr>))"

definition kfifo_reset :: "kfifo \<Rightarrow> kfifo" where
  "kfifo_reset fifo = fifo\<lparr>fin := 0, fout := 0\<rparr>"

definition kfifo_put :: "kfifo \<Rightarrow> u8 list \<Rightarrow> u32 \<Rightarrow> u32 \<times> kfifo" where
  "kfifo_put fifo buf len = kfifo_put_unlocked fifo buf len"

definition kfifo_get :: "kfifo \<Rightarrow> u32 \<Rightarrow> u32 \<times> u8 list \<times> kfifo" where
  "kfifo_get fifo len =
     (case kfifo_get_unlocked fifo len of (n, data, f) \<Rightarrow>
        (n, data, if fin f = fout f then f\<lparr>fin := 0, fout := 0\<rparr> else f))"

definition kfifo_len :: "kfifo \<Rightarrow> u32" where
  "kfifo_len fifo = fin fifo - fout fifo"

section \<open>Ring arithmetic\<close>

text \<open>The size is \<open>2 ^ p\<close> with \<open>p \<le> 31\<close>, and the buffer has that many bytes.\<close>

definition kfifo_inv :: "nat \<Rightarrow> kfifo \<Rightarrow> bool" where
  "kfifo_inv p f \<longleftrightarrow> p \<le> 31 \<and> fsize f = push_bit p 1 \<and> length (buffer f) = 2 ^ p \<and> unat (fin f - fout f) \<le> 2 ^ p"

definition contents :: "kfifo \<Rightarrow> u8 list" where
  "contents f = map (\<lambda>k. buffer f ! ((unat (fout f) + k) mod length (buffer f))) [0..<unat (fin f - fout f)]"

lemma len32: "LENGTH(32) = (32::nat)"
  by simp

lemma unat_min: "unat (min a b) = min (unat a) (unat b)"
  by (simp add: min_def word_le_nat_alt)

lemma unat_size:
  assumes "p \<le> 31"
  shows "unat (push_bit p 1 :: u32) = 2 ^ p"
proof -
  have "(2::nat) ^ p \<le> 2 ^ 31" using power_increasing [OF assms, of "2::nat"] by simp
  then have "(2::nat) ^ p < 2 ^ 32" by simp
  moreover have "(push_bit p 1 :: u32) = of_nat (2 ^ p)" by (simp add: push_bit_eq_mult)
  ultimately show ?thesis by (simp only: unat_of_nat len32 mod_less)
qed

lemma and_size_mask:
  assumes "p \<le> 31"
  shows "unat (w AND (push_bit p 1 - 1 :: u32)) = unat w mod 2 ^ p"
proof -
  have "push_bit p 1 - 1 = (mask p :: u32)" by (simp add: mask_eq_exp_minus_1 push_bit_eq_mult)
  then have "w AND (push_bit p 1 - 1) = take_bit p w" by (simp add: take_bit_eq_mask)
  then have "unat (w AND (push_bit p 1 - 1)) = take_bit p (unat w)" by (simp only: unsigned_take_bit_eq)
  then show ?thesis by (simp only: take_bit_eq_mod)
qed

lemma unat_add_ring:
  assumes "p \<le> 31"
  shows "unat (a + of_nat k :: u32) mod 2 ^ p = (unat a + k) mod 2 ^ p"
proof -
  have "p \<le> 32" using assms by simp
  then have "(2::nat) ^ p dvd 2 ^ 32" by (rule le_imp_power_dvd)
  then have m: "x mod 2 ^ 32 mod 2 ^ p = x mod 2 ^ p" for x :: nat by (rule mod_mod_cancel)
  have "unat (a + of_nat k :: u32) = (unat a + unat (of_nat k :: u32)) mod 2 ^ 32" by (simp add: unat_word_ariths)
  also have "\<dots> = (unat a + k) mod 2 ^ 32" by (simp add: unat_of_nat mod_add_right_eq)
  finally show ?thesis by (simp only: m)
qed

lemma kfifo_invD:
  assumes "kfifo_inv p f"
  shows "p \<le> 31" and "unat (fsize f) = 2 ^ p" and "length (buffer f) = 2 ^ p" and "unat (fin f - fout f) \<le> 2 ^ p"
    and "unat (w AND (fsize f - 1)) = unat w mod 2 ^ p"
    and "unat (fsize f - fin f + fout f) = 2 ^ p - unat (fin f - fout f)"
    and "unat (fin f) mod 2 ^ p = (unat (fout f) + unat (fin f - fout f)) mod 2 ^ p"
proof -
  show p: "p \<le> 31" and len: "length (buffer f) = 2 ^ p" and c: "unat (fin f - fout f) \<le> 2 ^ p"
    using assms by (simp_all add: kfifo_inv_def)
  have sz: "fsize f = push_bit p 1" using assms by (simp add: kfifo_inv_def)
  show u: "unat (fsize f) = 2 ^ p" unfolding sz by (rule unat_size [OF p])
  show "unat (w AND (fsize f - 1)) = unat w mod 2 ^ p" unfolding sz by (rule and_size_mask [OF p])
  have e: "fsize f - fin f + fout f = fsize f - (fin f - fout f)" by simp
  have "fin f - fout f \<le> fsize f" using c u by (simp add: word_le_nat_alt)
  then show "unat (fsize f - fin f + fout f) = 2 ^ p - unat (fin f - fout f)" unfolding e by (simp only: unat_sub u)
  show "unat (fin f) mod 2 ^ p = (unat (fout f) + unat (fin f - fout f)) mod 2 ^ p"
    using unat_add_ring [OF p, of "fout f" "unat (fin f - fout f)"] by simp
qed

text \<open>The distance from one ring position to another, and the effect of the two copies of a put.\<close>

lemma ring_distance:
  fixes N :: nat
  assumes "e < N" and "off = x mod N" and "j = (x + e) mod N"
  shows "(if off \<le> j then j - off else j + N - off) = e"
proof -
  have "off < N" using assms by simp
  have "j = (off + e) mod N" using assms by (simp add: mod_add_left_eq)
  then have "j = (if off + e < N then off + e else off + e - N)"
    using \<open>off < N\<close> assms(1) by (simp add: mod_if)
  then show ?thesis using \<open>off < N\<close> assms(1) by auto
qed

lemma memcpy_at_simps:
  assumes "off + n \<le> length b" and "n \<le> length src"
  shows "length (memcpy_at b off src n) = length b"
    and "j < length b \<Longrightarrow> memcpy_at b off src n ! j = (if off \<le> j \<and> j < off + n then src ! (j - off) else b ! j)"
  using assms by (auto simp: memcpy_at_def nth_append)

lemma ring_put:
  assumes "off < N" and "length b = N" and "n \<le> N" and "n \<le> length src"
  defines "l \<equiv> min n (N - off)"
  shows "length (memcpy_at (memcpy_at b off src l) 0 (drop l src) (n - l)) = N"
    and "j < N \<Longrightarrow> memcpy_at (memcpy_at b off src l) 0 (drop l src) (n - l) ! j =
      (if (if off \<le> j then j - off else j + N - off) < n
       then src ! (if off \<le> j then j - off else j + N - off) else b ! j)"
proof -
  let ?b1 = "memcpy_at b off src l"
  have l: "off + l \<le> length b" "l \<le> length src" using assms by auto
  note m1 = memcpy_at_simps [OF l]
  have "n - l \<le> N" "n - l \<le> length src - l" using assms(3,4) by linarith+
  then have l2: "0 + (n - l) \<le> length ?b1" "n - l \<le> length (drop l src)" using assms(2) by (simp_all add: m1(1))
  note m2 = memcpy_at_simps [OF l2]
  show "length (memcpy_at ?b1 0 (drop l src) (n - l)) = N" using assms(2) by (simp add: m2(1) m1(1))
  assume j: "j < N"
  have "memcpy_at ?b1 0 (drop l src) (n - l) ! j = (if j < n - l then drop l src ! j else ?b1 ! j)"
    using m2(2) [of j] j assms(2) by (simp add: m1(1))
  also have "\<dots> = (if j < n - l then src ! (l + j) else if off \<le> j \<and> j < off + l then src ! (j - off) else b ! j)"
    using m1(2) [of j] j assms(2) l(2) by simp
  also have "\<dots> = (if (if off \<le> j then j - off else j + N - off) < n
       then src ! (if off \<le> j then j - off else j + N - off) else b ! j)"
  proof (cases "n \<le> N - off")
    case True
    then have "l = n" by (simp add: l_def)
    with True j assms(1) show ?thesis by auto
  next
    case False
    then have "l = N - off" by (simp add: l_def)
    moreover from this have "j + N - off = l + j" "j < n - l \<longleftrightarrow> l + j < n" using assms(1) by linarith+
    ultimately show ?thesis using False j assms(1,3) by (cases "off \<le> j") auto
  qed
  finally show "memcpy_at ?b1 0 (drop l src) (n - l) ! j =
      (if (if off \<le> j then j - off else j + N - off) < n
       then src ! (if off \<le> j then j - off else j + N - off) else b ! j)" .
qed

lemma ring_get:
  assumes "off = x mod N" and "length b = N" and "n \<le> N" and "0 < N"
  defines "l \<equiv> min n (N - off)"
  shows "take l (drop off b) @ take (n - l) b = map (\<lambda>k. b ! ((x + k) mod N)) [0..<n]"
proof (rule nth_equalityI)
  have off: "off < N" using assms by simp
  show len: "length (take l (drop off b) @ take (n - l) b) = length (map (\<lambda>k. b ! ((x + k) mod N)) [0..<n])"
    using assms(2,3) off by (auto simp: l_def min_def)
  fix i assume "i < length (take l (drop off b) @ take (n - l) b)"
  with len have i: "i < n" by simp
  have "(x + i) mod N = (off + i) mod N" using assms(1) by (simp add: mod_add_left_eq)
  also have "\<dots> = (if off + i < N then off + i else off + i - N)" using off i assms(3) by (simp add: mod_if)
  finally show "(take l (drop off b) @ take (n - l) b) ! i = map (\<lambda>k. b ! ((x + k) mod N)) [0..<n] ! i"
    using i off assms(2,3) by (auto simp: nth_append l_def min_def add.commute)
qed

section \<open>The ring implements a bounded list\<close>

lemma kfifo_put_effect:
  assumes inv: "kfifo_inv p f" and len: "unat len \<le> length buf"
  defines "n \<equiv> min (unat len) (2 ^ p - length (contents f))"
  shows "unat (fst (kfifo_put_unlocked f buf len)) = n"
    and "kfifo_inv p (snd (kfifo_put_unlocked f buf len))"
    and "contents (snd (kfifo_put_unlocked f buf len)) = contents f @ take n buf"
proof -
  let ?N = "2 ^ p :: nat"
  note i = kfifo_invD [OF inv]
  define c where "c = unat (fin f - fout f)"
  have cl: "length (contents f) = c" by (simp add: contents_def c_def)
  define m where "m = min len (fsize f - fin f + fout f)"
  have m: "unat m = n" by (simp add: m_def n_def cl unat_min i(6) c_def)
  define off where "off = fin f AND (fsize f - 1)"
  have off: "unat off = unat (fin f) mod ?N" by (simp add: off_def i(5))
  have "off \<le> fsize f" using i(2) off by (simp add: word_le_nat_alt mod_le_divisor)
  then have rest: "unat (fsize f - off) = ?N - unat off" by (simp only: unat_sub i(2))
  define l where "l = min m (fsize f - off)"
  have l: "unat l = min n (?N - unat off)" by (simp add: l_def unat_min m rest)
  have "l \<le> m" by (simp add: l_def)
  then have ml: "unat (m - l) = n - unat l" by (simp add: unat_sub m)
  define b2 where "b2 = memcpy_at (memcpy_at (buffer f) (unat off) buf (unat l)) 0 (drop (unat l) buf) (n - unat l)"
  have r: "kfifo_put_unlocked f buf len = (m, f\<lparr>buffer := b2, fin := fin f + m\<rparr>)"
    by (simp add: kfifo_put_unlocked_def Let_def m_def [symmetric] off_def [symmetric] l_def [symmetric] ml b2_def)
  have nN: "n \<le> ?N - c" "n \<le> length buf" using len by (simp_all add: n_def cl)
  have offN: "unat off < ?N" by (simp add: off)
  have nN': "n \<le> ?N" using nN(1) by simp
  note rp = ring_put [OF offN i(3) nN' nN(2), folded l, folded b2_def]
  have c': "unat (fin f + m - fout f) = c + n"
  proof -
    have "c \<le> ?N" using i(4) by (simp add: c_def)
    then have "c + n \<le> ?N" using nN(1) by linarith
    also have "?N \<le> 2 ^ 31" using power_increasing [OF i(1), of "2::nat"] by simp
    finally have "c + n < 2 ^ 32" by simp
    moreover have "fin f + m - fout f = (fin f - fout f) + m" by simp
    ultimately show ?thesis by (simp only: unat_word_ariths c_def [symmetric] m len32 mod_less)
  qed
  show "unat (fst (kfifo_put_unlocked f buf len)) = n" by (simp add: r m)
  have cN: "c \<le> ?N" using i(4) by (simp add: c_def)
  show "kfifo_inv p (snd (kfifo_put_unlocked f buf len))"
    using inv nN(1) cN by (simp add: r kfifo_inv_def rp(1) c')
  show "contents (snd (kfifo_put_unlocked f buf len)) = contents f @ take n buf"
  proof (rule nth_equalityI)
    show "length (contents (snd (kfifo_put_unlocked f buf len))) = length (contents f @ take n buf)"
      using nN(2) by (simp add: r contents_def c' c_def)
    fix k assume "k < length (contents (snd (kfifo_put_unlocked f buf len)))"
    then have k: "k < c + n" by (simp add: r contents_def c')
    define x e where "x = unat (fout f) + c" and "e = (if k < c then ?N - c + k else k - c)"
    have j: "(unat (fout f) + k) mod ?N = (x + e) mod ?N"
      using cN by (simp add: x_def e_def) (metis add.commute add.left_commute le_add_diff_inverse2 mod_add_self1)
    have e: "e < ?N" using k nN(1) cN by (auto simp: e_def)
    have "unat off = x mod ?N" using off i(7) by (simp add: x_def c_def)
    note d = ring_distance [OF e this j]
    have "contents (snd (kfifo_put_unlocked f buf len)) ! k = b2 ! ((unat (fout f) + k) mod ?N)"
      using k by (simp add: r contents_def c' rp(1))
    also have "\<dots> = (if e < n then buf ! e else buffer f ! ((unat (fout f) + k) mod ?N))"
      using rp(2) [of "(unat (fout f) + k) mod ?N"] unfolding d by simp
    also have "\<dots> = (contents f @ take n buf) ! k"
      using k nN cN i(3) by (auto simp: nth_append contents_def c_def [symmetric] e_def)
    finally show "contents (snd (kfifo_put_unlocked f buf len)) ! k = (contents f @ take n buf) ! k" .
  qed
qed

lemma kfifo_get_effect:
  assumes inv: "kfifo_inv p f"
  shows "unat (fst (kfifo_get_unlocked f len)) = min (unat len) (length (contents f))"
    and "fst (snd (kfifo_get_unlocked f len)) = take (unat len) (contents f)"
    and "kfifo_inv p (snd (snd (kfifo_get_unlocked f len)))"
    and "contents (snd (snd (kfifo_get_unlocked f len))) = drop (unat len) (contents f)"
proof -
  let ?N = "2 ^ p :: nat"
  note i = kfifo_invD [OF inv]
  define c where "c = unat (fin f - fout f)"
  have cl: "length (contents f) = c" by (simp add: contents_def c_def)
  define m where "m = min len (fin f - fout f)"
  define n where "n = min (unat len) c"
  have m: "unat m = n" by (simp add: m_def n_def unat_min c_def)
  define off where "off = fout f AND (fsize f - 1)"
  have off: "unat off = unat (fout f) mod ?N" by (simp add: off_def i(5))
  have "off \<le> fsize f" using i(2) off by (simp add: word_le_nat_alt mod_le_divisor)
  then have rest: "unat (fsize f - off) = ?N - unat off" by (simp only: unat_sub i(2))
  define l where "l = min m (fsize f - off)"
  have l: "unat l = min n (?N - unat off)" by (simp add: l_def unat_min m rest)
  have "l \<le> m" by (simp add: l_def)
  then have ml: "unat (m - l) = n - unat l" by (simp add: unat_sub m)
  have nc: "n \<le> c" "c \<le> ?N" using i(4) by (simp_all add: n_def c_def)
  then have nN: "n \<le> ?N" by simp
  have r: "kfifo_get_unlocked f len =
      (m, map (\<lambda>k. buffer f ! ((unat (fout f) + k) mod ?N)) [0..<n], f\<lparr>fout := fout f + m\<rparr>)"
    using ring_get [OF off i(3) nN, folded l]
    by (simp add: kfifo_get_unlocked_def Let_def m_def [symmetric] off_def [symmetric] l_def [symmetric] ml)
  have tk: "take (unat len) (contents f) = take n (contents f)" and dr: "drop (unat len) (contents f) = drop n (contents f)"
    by (simp_all add: n_def cl min_def)
  show "unat (fst (kfifo_get_unlocked f len)) = min (unat len) (length (contents f))" by (simp add: r m n_def cl)
  have cont: "contents f = map (\<lambda>k. buffer f ! ((unat (fout f) + k) mod ?N)) [0..<c]"
    by (simp add: contents_def c_def i(3))
  show "fst (snd (kfifo_get_unlocked f len)) = take (unat len) (contents f)"
    unfolding tk using nc(1) by (simp add: r cont take_map take_upt)
  have c': "unat (fin f - (fout f + m)) = c - n"
  proof -
    have e: "fin f - (fout f + m) = (fin f - fout f) - m" by simp
    have "m \<le> fin f - fout f" by (simp add: m_def)
    then show ?thesis unfolding e by (simp only: unat_sub m c_def)
  qed
  show "kfifo_inv p (snd (snd (kfifo_get_unlocked f len)))"
    using inv nc by (simp add: r kfifo_inv_def c')
  have idx: "(unat (fout f + m) + k) mod ?N = (unat (fout f) + (n + k)) mod ?N" for k
  proof -
    have mn: "m = of_nat n" by (simp add: m [symmetric])
    have "(unat (fout f + m) + k) mod ?N = (unat (fout f + of_nat n) mod ?N + k) mod ?N"
      unfolding mn by (simp only: mod_add_left_eq)
    also have "\<dots> = ((unat (fout f) + n) mod ?N + k) mod ?N" by (simp only: unat_add_ring [OF i(1)])
    finally show ?thesis by (simp only: mod_add_left_eq add.assoc)
  qed
  show "contents (snd (snd (kfifo_get_unlocked f len))) = drop (unat len) (contents f)"
  proof -
    have "drop n (contents f) = map (\<lambda>k. buffer f ! ((unat (fout f) + k) mod ?N)) [n..<c]" by (simp add: cont drop_map drop_upt)
    then show ?thesis unfolding dr by (simp only:) (rule nth_equalityI; simp add: r contents_def c' i(3) idx)
  qed
qed

lemma kfifo_reset_inv: "kfifo_inv p f \<Longrightarrow> kfifo_inv p (kfifo_reset f)" "contents (kfifo_reset f) = []"
  by (simp_all add: kfifo_reset_def kfifo_inv_def contents_def)

lemma kfifo_get_locked:
  assumes "kfifo_inv p f"
  shows "fst (kfifo_get f len) = fst (kfifo_get_unlocked f len)" and "fst (snd (kfifo_get f len)) = take (unat len) (contents f)"
    and "kfifo_inv p (snd (snd (kfifo_get f len)))" and "contents (snd (snd (kfifo_get f len))) = drop (unat len) (contents f)"
proof -
  note e = kfifo_get_effect [OF assms, of len]
  obtain n d g where g: "kfifo_get_unlocked f len = (n, d, g)" by (metis prod.exhaust)
  have "kfifo_inv p (g\<lparr>fin := 0, fout := 0\<rparr>)" "contents (g\<lparr>fin := 0, fout := 0\<rparr>) = []"
    using kfifo_reset_inv(1) [of p g] kfifo_reset_inv(2) [of g] e(3) g by (simp_all add: kfifo_reset_def)
  moreover have "contents g = []" if "fin g = fout g" using that by (simp add: contents_def)
  ultimately show "fst (kfifo_get f len) = fst (kfifo_get_unlocked f len)" "fst (snd (kfifo_get f len)) = take (unat len) (contents f)"
    "kfifo_inv p (snd (snd (kfifo_get f len)))" "contents (snd (snd (kfifo_get f len))) = drop (unat len) (contents f)"
    using e g by (simp_all add: kfifo_get_def)
qed

section \<open>The abstract queue\<close>

datatype 'b fifo_op = Enq "'b list" | Deq nat

fun fifo_run :: "('f \<Rightarrow> 'b list \<Rightarrow> nat \<times> 'f) \<Rightarrow> ('f \<Rightarrow> nat \<Rightarrow> 'b list \<times> 'f) \<Rightarrow> 'b fifo_op list \<Rightarrow> 'f \<Rightarrow> 'b list \<times> 'b list \<times> 'f" where
  "fifo_run put get [] f = ([], [], f)"
| "fifo_run put get (Enq xs # ops) f =
     (case put f xs of (n, f1) \<Rightarrow> case fifo_run put get ops f1 of (a, r, f2) \<Rightarrow> (take n xs @ a, r, f2))"
| "fifo_run put get (Deq n # ops) f =
     (case get f n of (d, f1) \<Rightarrow> case fifo_run put get ops f1 of (a, r, f2) \<Rightarrow> (a, d @ r, f2))"

locale bounded_fifo =
  fixes finv :: "'f \<Rightarrow> bool"
    and capacity :: nat
    and limit :: nat
    and view :: "'f \<Rightarrow> 'b list"
    and put :: "'f \<Rightarrow> 'b list \<Rightarrow> nat \<times> 'f"
    and get :: "'f \<Rightarrow> nat \<Rightarrow> 'b list \<times> 'f"
  assumes put: "finv f \<Longrightarrow> length xs < limit \<Longrightarrow>
      finv (snd (put f xs)) \<and> fst (put f xs) = min (length xs) (capacity - length (view f)) \<and>
      view (snd (put f xs)) = view f @ take (fst (put f xs)) xs"
    and get: "finv f \<Longrightarrow> n < limit \<Longrightarrow> finv (snd (get f n)) \<and> fst (get f n) = take n (view f) \<and> view (snd (get f n)) = drop n (view f)"
    and bounded: "finv f \<Longrightarrow> length (view f) \<le> capacity"
begin

text \<open>What was accepted is what was delivered, in order, followed by what is still queued.\<close>

lemma run_fifo:
  assumes "finv f" and "\<forall>op \<in> set ops. case op of Enq xs \<Rightarrow> length xs < limit | Deq n \<Rightarrow> n < limit"
    and "fifo_run put get ops f = (a, r, f')"
  shows "finv f' \<and> view f @ a = r @ view f'"
  using assms
proof (induction ops arbitrary: f a r)
  case (Cons op ops)
  show ?case
  proof (cases op)
    case (Enq xs)
    obtain n f1 where p: "put f xs = (n, f1)" by force
    obtain a1 where a1: "fifo_run put get ops f1 = (a1, r, f')" "a = take n xs @ a1"
      using Cons.prems(3) by (auto simp: Enq p split: prod.splits)
    have f1: "finv f1" "view f1 = view f @ take n xs" using put [OF Cons.prems(1), of xs] Cons.prems(2) by (auto simp: Enq p)
    from Cons.IH [OF f1(1) _ a1(1)] Cons.prems(2) show ?thesis by (simp add: f1(2) a1(2))
  next
    case (Deq n)
    obtain d f1 where p: "get f n = (d, f1)" by force
    obtain r1 where r1: "fifo_run put get ops f1 = (a, r1, f')" "r = d @ r1"
      using Cons.prems(3) by (auto simp: Deq p split: prod.splits)
    have f1: "finv f1" "d = take n (view f)" "view f1 = drop n (view f)" using get [OF Cons.prems(1), of n] Cons.prems(2) by (auto simp: Deq p)
    from Cons.IH [OF f1(1) _ r1(1)] Cons.prems(2) have "finv f' \<and> drop n (view f) @ a = r1 @ view f'" by (simp add: f1(3))
    then show ?thesis by (metis append.assoc append_take_drop_id f1(2) r1(2))
  qed
qed auto

end

definition kput :: "kfifo \<Rightarrow> u8 list \<Rightarrow> nat \<times> kfifo" where
  "kput f xs = (case kfifo_put f xs (of_nat (length xs)) of (n, f') \<Rightarrow> (unat n, f'))"

definition kget :: "kfifo \<Rightarrow> nat \<Rightarrow> u8 list \<times> kfifo" where
  "kget f n = snd (kfifo_get f (of_nat n))"

interpretation kf: bounded_fifo "kfifo_inv p" "2 ^ p" "2 ^ 32" contents kput kget for p
proof
  fix f :: kfifo and xs :: "u8 list" and n :: nat
  assume inv: "kfifo_inv p f"
  show "length (contents f) \<le> 2 ^ p" using kfifo_invD(4) [OF inv] by (simp add: contents_def)
  have u: "unat (of_nat k :: u32) = k" if "k < 2 ^ 32" for k using that by (simp only: unat_of_nat len32 mod_less)
  show "kfifo_inv p (snd (kput f xs)) \<and> fst (kput f xs) = min (length xs) (2 ^ p - length (contents f)) \<and>
      contents (snd (kput f xs)) = contents f @ take (fst (kput f xs)) xs" if "length xs < 2 ^ 32"
    using kfifo_put_effect [OF inv, of "of_nat (length xs)" xs] u [OF that]
    by (simp add: kput_def kfifo_put_def case_prod_beta)
  show "kfifo_inv p (snd (kget f n)) \<and> fst (kget f n) = take n (contents f) \<and> contents (snd (kget f n)) = drop n (contents f)"
    if "n < 2 ^ 32"
    using kfifo_get_locked [OF inv, of "of_nat n"] u [OF that] by (simp add: kget_def)
qed

section \<open>Properties of the queue\<close>

text \<open>The bit trick of \<open>is_power_of_2\<close>.\<close>

lemma nat_and_pred_eq_0:
  assumes "0 < x" and "x AND (x - 1) = (0::nat)"
  obtains j where "x = 2 ^ j"
proof -
  obtain j q where x: "x = 2 ^ j * q" "odd q" using odd_part [OF assms(1)] by blast
  then obtain r where q: "q = 2 * r + 1" by (auto elim: oddE)
  define t :: nat where "t = 2 ^ j - 1"
  have "x - 1 = (q - 1) * 2 ^ j + t" using q by (simp add: x(1) t_def algebra_simps)
  then have "(x - 1) div 2 ^ j = (q - 1) + t div 2 ^ j" by (metis div_mult_self3 power_not_zero zero_neq_numeral)
  moreover have "t div 2 ^ j = 0" by (simp add: t_def)
  ultimately have "drop_bit j (x - 1) = q - 1" by (simp add: drop_bit_eq_div)
  moreover have "drop_bit j x = q" by (simp add: drop_bit_eq_div x(1))
  ultimately have "drop_bit j (x AND (x - 1)) = q AND (q - 1)" by (simp only: drop_bit_and)
  also have "\<dots> = 2 * r" by (subst and_rec) (simp add: q)
  finally have "drop_bit j (0::nat) = 2 * r" unfolding assms(2) .
  then have "r = 0" by simp
  with q x(1) show ?thesis by (intro that [of j]) simp
qed

lemma power_of_2_word:
  assumes "is_power_of_2 n"
  obtains p where "p \<le> 31" and "n = push_bit p 1"
proof -
  have n: "n \<noteq> 0" "n AND (n - 1) = 0" using assms by (simp_all add: is_power_of_2_def)
  have "unat (n AND (n - 1)) = unat n AND (unat n - 1)"
    using n(1) by (simp add: unsigned_and_eq unat_minus_one)
  then have "unat n AND (unat n - 1) = 0" using n(2) by simp
  moreover have "0 < unat n" using n(1) by (simp add: unat_gt_0)
  ultimately obtain p where p: "unat n = 2 ^ p" using nat_and_pred_eq_0 by blast
  have "unat n < 2 ^ LENGTH(32)" by (rule unsigned_less)
  then have "(2::nat) ^ p < 2 ^ 32" by (simp only: p len32)
  then have "p < 32" by (simp only: power_strict_increasing_iff one_less_numeral_iff semiring_norm)
  then have "p \<le> 31" by simp
  moreover have "n = push_bit p 1"
    by (rule word_unat_eq_iff [THEN iffD2]) (simp only: p unat_size [OF \<open>p \<le> 31\<close>])
  ultimately show ?thesis by (rule that)
qed

lemma kfifo_init_inv:
  assumes "kfifo_init True buf n = Some (Inr f)" and "length buf = unat n"
  obtains p where "kfifo_inv p f" and "unat n = 2 ^ p" and "fin f = 0" and "fout f = 0"
proof -
  have pow: "is_power_of_2 n" and f: "f = \<lparr>buffer = buf, fsize = n, fin = 0, fout = 0\<rparr>"
    using assms(1) by (auto simp: kfifo_init_def split: if_splits)
  obtain p where p: "p \<le> 31" "n = push_bit p 1" by (rule power_of_2_word [OF pow])
  have u: "unat n = 2 ^ p" unfolding p(2) by (rule unat_size [OF p(1)])
  with p assms(2) show ?thesis by (intro that [of p]) (simp_all add: f kfifo_inv_def)
qed

lemma roundup_bounds:
  assumes "0 < unat n" and "unat n \<le> 2 ^ 31"
  shows "\<exists>p \<le> 31. roundup_pow_of_two n = push_bit p 1 \<and> unat n \<le> 2 ^ p \<and> 2 ^ p < 2 * unat n"
proof (intro exI conjI)
  define x where "x = unat n - 1"
  have n: "n \<noteq> 0" using assms(1) by auto
  then have x: "unat (n - 1) = x" by (simp add: unat_minus_one x_def)
  show "roundup_pow_of_two n = push_bit (fls x) 1" by (simp add: roundup_pow_of_two_def x)
  show "unat n \<le> 2 ^ fls x" using fls_upper [of x] assms(1) by (simp add: x_def)
  have low: "x = 0 \<or> 2 ^ (fls x - 1) \<le> x" using fls_lower by blast
  then show "2 ^ fls x < 2 * unat n"
  proof (cases "x = 0")
    case False
    then have "(2::nat) ^ fls x = 2 * 2 ^ (fls x - 1)" by (cases "fls x") auto
    with low False show ?thesis by (simp add: x_def)
  qed (use assms(1) in simp)
  show "fls x \<le> 31"
  proof (rule ccontr)
    assume big: "\<not> fls x \<le> 31"
    then have "x \<noteq> 0" by (cases "x = 0") simp_all
    with low have "2 ^ (fls x - 1) \<le> x" by simp
    moreover have "(2::nat) ^ 31 \<le> 2 ^ (fls x - 1)" using big by (intro power_increasing) auto
    ultimately have "2 ^ 31 \<le> x" by (rule le_trans [rotated])
    with assms show False by (simp add: x_def)
  qed
qed

text \<open>
  C25: \<open>kfifo_alloc\<close> for a size between 1 and \<open>2 ^ 31\<close>, when the
  allocations succeed, returns an empty fifo whose capacity is at least the
  requested size and less than twice it.
\<close>

theorem kfifo_alloc_capacity:
  assumes "0 < unat n" and "unat n \<le> 2 ^ 31" and "\<And>m. \<exists>buf. kmalloc m = Some buf \<and> length buf = unat m"
  shows "\<exists>f p. kfifo_alloc kmalloc True n = Some (Inr f) \<and> kfifo_inv p f \<and> contents f = [] \<and>
           unat n \<le> 2 ^ p \<and> 2 ^ p < 2 * unat n"
proof -
  have le: "\<not> n > 0x80000000" using assms(2) by (simp add: word_less_nat_alt)
  define m where "m = (if \<not> is_power_of_2 n then roundup_pow_of_two n else n)"
  obtain p where p: "p \<le> 31" "m = push_bit p 1" "unat n \<le> 2 ^ p" "2 ^ p < 2 * unat n"
  proof (cases "is_power_of_2 n")
    case True
    then obtain p where p: "p \<le> 31" "n = push_bit p 1" by (rule power_of_2_word)
    with True unat_size [OF p(1)] assms(1) show ?thesis by (intro that [of p]) (simp_all add: m_def)
  next
    case False
    with roundup_bounds [OF assms(1,2)] show ?thesis by (auto simp: m_def intro: that)
  qed
  obtain buf where buf: "kmalloc m = Some buf" "length buf = unat m" using assms(3) by blast
  have "is_power_of_2 m"
  proof -
    have "m - 1 = mask p" unfolding p(2) by (simp add: mask_eq_exp_minus_1 push_bit_eq_mult)
    then have "m AND (m - 1) = take_bit p m" by (simp add: take_bit_eq_mask)
    also have "\<dots> = 0" unfolding p(2) by (simp only: take_bit_push_bit diff_self_eq_0 take_bit_0 push_bit_of_0)
    finally have "m AND (m - 1) = 0" .
    moreover have "unat m \<noteq> 0" unfolding p(2) unat_size [OF p(1)] by simp
    ultimately show ?thesis unfolding is_power_of_2_def by auto
  qed
  then have a: "kfifo_alloc kmalloc True n = Some (Inr \<lparr>buffer = buf, fsize = m, fin = 0, fout = 0\<rparr>)"
    using le buf(1) by (simp add: kfifo_alloc_def m_def [symmetric] Let_def kfifo_init_def)
  have "kfifo_inv p \<lparr>buffer = buf, fsize = m, fin = 0, fout = 0\<rparr>"
    using p(1,2) buf(2) unat_size [OF p(1)] by (simp add: kfifo_inv_def)
  with a p(3,4) show ?thesis by (intro exI conjI) (assumption | simp add: contents_def)+
qed

theorem kfifo_alloc_capacity_witness:
  "\<exists>f p. kfifo_alloc (\<lambda>m. Some (replicate (unat m) 0)) True 5 = Some (Inr f) \<and> kfifo_inv p f \<and> 5 \<le> (2::nat) ^ p \<and> 2 ^ p < (10::nat)"
  using kfifo_alloc_capacity [of 5 "\<lambda>m. Some (replicate (unat m) 0)"] by auto

text \<open>
  C24: A fifo obtained from \<open>kfifo_init\<close> delivers exactly the bytes it
  accepted, in order and without loss, over every sequence of puts and gets, and
  never holds more than its size; the indices may wrap around 32 bits any number
  of times.
\<close>

theorem kfifo_is_bounded_queue:
  assumes "kfifo_init True buf n = Some (Inr f)" and "length buf = unat n"
    and "\<forall>op \<in> set ops. case op of Enq xs \<Rightarrow> length xs < 2 ^ 32 | Deq k \<Rightarrow> k < 2 ^ 32"
    and "fifo_run kput kget ops f = (accepted, delivered, f')"
  shows "accepted = delivered @ contents f' \<and> length (contents f') \<le> unat n \<and> kfifo_len f' = of_nat (length (contents f'))"
proof -
  obtain p where p: "kfifo_inv p f" "unat n = 2 ^ p" "fin f = 0" "fout f = 0" using kfifo_init_inv [OF assms(1,2)] .
  from kf.run_fifo [OF p(1) assms(3,4)] have r: "kfifo_inv p f'" "contents f @ accepted = delivered @ contents f'" by auto
  moreover have "contents f = []" using p(3,4) by (simp add: contents_def)
  ultimately show ?thesis using kf.bounded [OF r(1)] p(2) by (simp add: kfifo_len_def contents_def)
qed

theorem kfifo_is_bounded_queue_witness:
  "\<exists>f a d f'. kfifo_init True [0, 0, 0, 0] 4 = Some (Inr f) \<and>
     fifo_run kput kget [Enq [1, 2, 3], Deq 2, Enq [4, 5, 6, 7], Deq 9] f = (a, d, f') \<and> a = d @ contents f'"
proof -
  define f where "f = \<lparr>buffer = [0, 0, 0, 0], fsize = (4 :: u32), fin = 0, fout = 0\<rparr>"
  have i: "kfifo_init True [0, 0, 0, 0] 4 = Some (Inr f)"
    by (simp add: kfifo_init_def is_power_of_2_def f_def)
  obtain a d f' where r: "fifo_run kput kget [Enq [1, 2, 3], Deq 2, Enq [4, 5, 6, 7], Deq 9] f = (a, d, f')"
    by (metis prod.exhaust)
  have "a = d @ contents f'"
    using kfifo_is_bounded_queue [OF i _ _ r] by simp
  with i r show ?thesis by blast
qed

section \<open>One reader and one writer without a lock\<close>

text \<open>
  The steps of the unlocked operations as the memory barriers order them.  The
  writer samples \<open>out\<close>, copies its bytes one by one and then advances
  \<open>in\<close>; the reader samples \<open>in\<close>, copies and then advances \<open>out\<close>.
  The code copies with two calls of \<open>memcpy\<close>, up to the end of the buffer and
  from its beginning; here each byte is a step of its own, at the index
  that these calls give it, so that every state in which a \<open>memcpy\<close> can be
  observed by the other side is a state of the model.
  \<open>sent\<close> and \<open>received\<close> record the bytes of completed operations.
\<close>

datatype writer = W_idle | W_copy "u8 list" nat
datatype reader = R_idle | R_copy nat "u8 list"

record spsc =
  ring :: kfifo
  writer :: writer
  reader :: reader
  sent :: "u8 list"
  received :: "u8 list"

definition ring_index :: "kfifo \<Rightarrow> u32 \<Rightarrow> nat \<Rightarrow> nat" where
  "ring_index f start i = unat ((start + of_nat i) AND (fsize f - 1))"

inductive spsc_step :: "spsc \<Rightarrow> spsc \<Rightarrow> bool" where
  w_sample: "writer s = W_idle \<Longrightarrow> length data < 2 ^ 32 \<Longrightarrow>
    n = unat (min (of_nat (length data)) (fsize (ring s) - fin (ring s) + fout (ring s))) \<Longrightarrow>
    spsc_step s (s\<lparr>writer := W_copy (take n data) 0\<rparr>)"
| w_byte: "writer s = W_copy data i \<Longrightarrow> i < length data \<Longrightarrow>
    spsc_step s (s\<lparr>ring := (ring s)\<lparr>buffer := (buffer (ring s))[ring_index (ring s) (fin (ring s)) i := data ! i]\<rparr>,
                   writer := W_copy data (Suc i)\<rparr>)"
| w_publish: "writer s = W_copy data (length data) \<Longrightarrow>
    spsc_step s (s\<lparr>ring := (ring s)\<lparr>fin := fin (ring s) + of_nat (length data)\<rparr>, writer := W_idle, sent := sent s @ data\<rparr>)"
| r_sample: "reader s = R_idle \<Longrightarrow> n = unat (min len (fin (ring s) - fout (ring s))) \<Longrightarrow>
    spsc_step s (s\<lparr>reader := R_copy n []\<rparr>)"
| r_byte: "reader s = R_copy n acc \<Longrightarrow> length acc < n \<Longrightarrow>
    spsc_step s (s\<lparr>reader := R_copy n (acc @ [buffer (ring s) ! ring_index (ring s) (fout (ring s)) (length acc)])\<rparr>)"
| r_publish: "reader s = R_copy n acc \<Longrightarrow> length acc = n \<Longrightarrow>
    spsc_step s (s\<lparr>ring := (ring s)\<lparr>fout := fout (ring s) + of_nat n\<rparr>, reader := R_idle, received := received s @ acc\<rparr>)"

inductive spsc_reach :: "kfifo \<Rightarrow> spsc \<Rightarrow> bool" for f where
  start: "spsc_reach f \<lparr>ring = f, writer = W_idle, reader = R_idle, sent = [], received = []\<rparr>"
| step: "spsc_reach f s \<Longrightarrow> spsc_step s s' \<Longrightarrow> spsc_reach f s'"

text \<open>
  The queued bytes are in the ring; the bytes that the writer has copied are
  behind them, the bytes that the reader has copied are the first of them.
\<close>

definition counters_ok :: "nat \<Rightarrow> spsc \<Rightarrow> bool" where
  "counters_ok p s \<longleftrightarrow>
     p \<le> 31 \<and> fsize (ring s) = push_bit p 1 \<and> length (buffer (ring s)) = 2 ^ p \<and>
     fin (ring s) = of_nat (length (sent s)) \<and> fout (ring s) = of_nat (length (received s)) \<and>
     length (sent s) \<le> length (received s) + 2 ^ p \<and>
     length (received s) \<le> length (sent s) \<and> received s = take (length (received s)) (sent s)"

definition queued_ok :: "nat \<Rightarrow> u8 list \<Rightarrow> u8 list \<Rightarrow> nat \<Rightarrow> bool" where
  "queued_ok p b S r \<longleftrightarrow> (\<forall>k. r \<le> k \<longrightarrow> k < length S \<longrightarrow> b ! (k mod 2 ^ p) = S ! k)"

fun writer_ok :: "nat \<Rightarrow> u8 list \<Rightarrow> u8 list \<Rightarrow> nat \<Rightarrow> writer \<Rightarrow> bool" where
  "writer_ok p b S r W_idle = True"
| "writer_ok p b S r (W_copy data i) =
     (i \<le> length data \<and> length S + length data \<le> r + 2 ^ p \<and> (\<forall>j < i. b ! ((length S + j) mod 2 ^ p) = data ! j))"

fun reader_ok :: "u8 list \<Rightarrow> nat \<Rightarrow> reader \<Rightarrow> bool" where
  "reader_ok S r R_idle = True"
| "reader_ok S r (R_copy n acc) = (length acc \<le> n \<and> r + n \<le> length S \<and> acc = take (length acc) (drop r S))"

definition spsc_inv :: "nat \<Rightarrow> spsc \<Rightarrow> bool" where
  "spsc_inv p s \<longleftrightarrow>
     counters_ok p s \<and> queued_ok p (buffer (ring s)) (sent s) (length (received s)) \<and>
     writer_ok p (buffer (ring s)) (sent s) (length (received s)) (writer s) \<and>
     reader_ok (sent s) (length (received s)) (reader s)"

lemma ring_index_eq:
  assumes "counters_ok p s"
  shows "ring_index (ring s) (of_nat a) i = (a + i) mod 2 ^ p"
proof -
  have p: "p \<le> 31" "fsize (ring s) = push_bit p 1" using assms by (simp_all add: counters_ok_def)
  show ?thesis
    using unat_add_ring [OF p(1), of 0 "a + i"] unfolding ring_index_def p(2) and_size_mask [OF p(1)] by simp
qed

lemma mod_window_neq:
  fixes a b N :: nat
  assumes "a < b" and "b < a + N"
  shows "a mod N \<noteq> b mod N"
proof
  assume "a mod N = b mod N"
  then have "N dvd b - a" using assms(1) mod_eq_dvd_iff_nat [of a b N] by simp
  with assms show False by (auto dest: dvd_imp_le)
qed

text \<open>What the samples see.\<close>

lemma sampled_space:
  assumes "counters_ok p s"
  shows "unat (fsize (ring s) - fin (ring s) + fout (ring s)) = length (received s) + 2 ^ p - length (sent s)"
    and "unat (fin (ring s) - fout (ring s)) = length (sent s) - length (received s)"
proof -
  note c = assms [unfolded counters_ok_def]
  define d where "d = length (sent s) - length (received s)"
  have "length (sent s) \<le> length (received s) + 2 ^ p" using c by blast
  then have d: "d \<le> 2 ^ p" unfolding d_def by linarith
  have p: "p \<le> 31" using c by simp
  have N: "(2::nat) ^ p \<le> 2 ^ 31" using power_increasing [OF p, of "2::nat"] by simp
  have "fin (ring s) - fout (ring s) = of_nat d" using c by (simp add: d_def)
  moreover have "unat (of_nat d :: u32) = d" using d N by (simp add: unat_of_nat)
  ultimately show "unat (fin (ring s) - fout (ring s)) = length (sent s) - length (received s)" by (simp add: d_def)
  then have inv: "kfifo_inv p (ring s)" using c d by (simp add: kfifo_inv_def d_def)
  from kfifo_invD(6) [OF inv] \<open>unat (fin (ring s) - fout (ring s)) = _\<close> c
  show "unat (fsize (ring s) - fin (ring s) + fout (ring s)) = length (received s) + 2 ^ p - length (sent s)" by simp
qed

lemma spsc_invD:
  assumes "spsc_inv p s"
  shows "counters_ok p s" and "queued_ok p (buffer (ring s)) (sent s) (length (received s))"
    and "writer_ok p (buffer (ring s)) (sent s) (length (received s)) (writer s)"
    and "reader_ok (sent s) (length (received s)) (reader s)"
  using assms by (simp_all add: spsc_inv_def)

lemma counters_okD:
  assumes "counters_ok p s"
  shows "length (buffer (ring s)) = 2 ^ p" and "fin (ring s) = of_nat (length (sent s))"
    and "fout (ring s) = of_nat (length (received s))" and "length (sent s) \<le> length (received s) + 2 ^ p"
    and "length (received s) \<le> length (sent s)" and "received s = take (length (received s)) (sent s)"
  using assms unfolding counters_ok_def by blast+

text \<open>A byte of the writer lands on a free position.\<close>

lemma writer_byte_queued:
  assumes "queued_ok p b S r" and "length S + i < r + 2 ^ p"
  shows "queued_ok p (b[(length S + i) mod 2 ^ p := v]) S r"
  unfolding queued_ok_def
proof (intro allI impI)
  fix k assume k: "r \<le> k" "k < length S"
  have "k mod 2 ^ p \<noteq> (length S + i) mod 2 ^ p" using k assms(2) by (intro mod_window_neq) auto
  with assms(1) k show "b[(length S + i) mod 2 ^ p := v] ! (k mod 2 ^ p) = S ! k" by (simp add: queued_ok_def)
qed

lemma writer_byte_copied:
  assumes "writer_ok p b S r (W_copy data i)" and "i < length data" and "length b = 2 ^ p" and "r \<le> length S"
  shows "writer_ok p (b[(length S + i) mod 2 ^ p := data ! i]) S r (W_copy data (Suc i))"
proof -
  have "b[(length S + i) mod 2 ^ p := data ! i] ! ((length S + j) mod 2 ^ p) = data ! j" if "j < Suc i" for j
  proof (cases "j = i")
    case False
    with that have "(length S + j) mod 2 ^ p \<noteq> (length S + i) mod 2 ^ p"
      using assms by (intro mod_window_neq) auto
    with False that assms(1) show ?thesis by simp
  qed (use assms(3) in simp)
  with assms show ?thesis by simp
qed

lemma spsc_step_inv:
  assumes "spsc_step s s'" and inv: "spsc_inv p s"
  shows "spsc_inv p s'"
proof -
  note i = spsc_invD [OF inv] and c = counters_okD [OF spsc_invD(1) [OF inv]]
  note sp = sampled_space [OF i(1)] and ix = ring_index_eq [OF i(1)]
  from assms(1) show ?thesis
  proof cases
    case (w_sample data n)
    have "n \<le> length (received s) + 2 ^ p - length (sent s)" unfolding w_sample unat_min sp by simp
    with i c show ?thesis unfolding w_sample(1) by (auto simp: spsc_inv_def counters_ok_def)
  next
    case (w_byte data i)
    have w: "writer_ok p (buffer (ring s)) (sent s) (length (received s)) (W_copy data i)" using spsc_invD(3) [OF inv] w_byte by simp
    then have "length (sent s) + i < length (received s) + 2 ^ p" using w_byte(3) by simp
    from writer_byte_queued [OF spsc_invD(2) [OF inv] this] writer_byte_copied [OF w w_byte(3) c(1,5)] spsc_invD(1,4) [OF inv]
    show ?thesis unfolding w_byte(1) by (simp add: spsc_inv_def counters_ok_def ix)
  next
    case (w_publish data)
    have w: "length (sent s) + length data \<le> length (received s) + 2 ^ p"
      "\<And>j. j < length data \<Longrightarrow> buffer (ring s) ! ((length (sent s) + j) mod 2 ^ p) = data ! j"
      using i(3) w_publish(2) by auto
    have "queued_ok p (buffer (ring s)) (sent s @ data) (length (received s))"
      unfolding queued_ok_def
    proof (intro allI impI)
      fix k assume "length (received s) \<le> k" "k < length (sent s @ data)"
      then show "buffer (ring s) ! (k mod 2 ^ p) = (sent s @ data) ! k"
        using i(2) w(2) [of "k - length (sent s)"] by (cases "k < length (sent s)") (auto simp: queued_ok_def nth_append)
    qed
    moreover have "reader_ok (sent s @ data) (length (received s)) (reader s)"
      using i(4) by (cases "reader s") auto
    ultimately show ?thesis using i(1) c w(1) unfolding w_publish(1) by (auto simp: spsc_inv_def counters_ok_def)
  next
    case (r_sample n len)
    have "n \<le> length (sent s) - length (received s)" unfolding r_sample unat_min sp by simp
    with i c show ?thesis unfolding r_sample(1) by (auto simp: spsc_inv_def counters_ok_def)
  next
    case (r_byte n acc)
    have r: "length acc \<le> n" "length (received s) + n \<le> length (sent s)" "acc = take (length acc) (drop (length (received s)) (sent s))"
      using i(4) r_byte(2) by simp_all
    have "buffer (ring s) ! ring_index (ring s) (fout (ring s)) (length acc) = sent s ! (length (received s) + length acc)"
      using i(2) r(2) r_byte(3) unfolding c(3) ix by (simp add: queued_ok_def)
    moreover have "acc @ [sent s ! (length (received s) + length acc)] = take (Suc (length acc)) (drop (length (received s)) (sent s))"
      using r r_byte(3) by (subst take_Suc_conv_app_nth) auto
    ultimately show ?thesis using i r(2) r_byte(3) unfolding r_byte(1) by (simp add: spsc_inv_def counters_ok_def)
  next
    case (r_publish n acc)
    have r: "length (received s) + n \<le> length (sent s)" "acc = take n (drop (length (received s)) (sent s))"
      using i(4) r_publish(2,3) by auto
    have t: "received s @ acc = take (length (received s) + n) (sent s)" using c(6) r(2) by (metis take_add)
    have "writer_ok p (buffer (ring s)) (sent s) (length (received s) + n) (writer s)"
      using i(3) by (cases "writer s") auto
    moreover have "queued_ok p (buffer (ring s)) (sent s) (length (received s) + n)" using i(2) by (simp add: queued_ok_def)
    ultimately show ?thesis
      using i(1) c r(1) r_publish(3) t unfolding r_publish(1) by (auto simp: spsc_inv_def counters_ok_def)
  qed
qed

lemma spsc_reach_inv:
  assumes "spsc_reach f s" and "kfifo_inv p f" and "fin f = 0" and "fout f = 0"
  shows "spsc_inv p s"
  using assms
proof (induction rule: spsc_reach.induct)
  case start
  then show ?case by (simp add: spsc_inv_def counters_ok_def queued_ok_def kfifo_inv_def)
qed (auto intro: spsc_step_inv)

text \<open>
  C23: With one reader and one writer and no lock, in every interleaving of the
  steps of \<open>__kfifo_put\<close> and \<open>__kfifo_get\<close> the bytes received are a
  prefix of the bytes sent, and at most \<open>size\<close> bytes are in flight, and the
  ring holds exactly the bytes sent and not yet received.
\<close>

theorem kfifo_lockfree_spsc:
  assumes "kfifo_init True buf n = Some (Inr f)" and "length buf = unat n" and "spsc_reach f s"
  shows "received s = take (length (received s)) (sent s) \<and> length (sent s) \<le> length (received s) + unat n \<and>
         contents (ring s) = drop (length (received s)) (sent s)"
proof -
  obtain p where p: "kfifo_inv p f" "unat n = 2 ^ p" "fin f = 0" "fout f = 0" using kfifo_init_inv [OF assms(1,2)] .
  have inv: "spsc_inv p s" by (rule spsc_reach_inv [OF assms(3) p(1,3,4)])
  note c = counters_okD [OF spsc_invD(1) [OF inv]] and sp = sampled_space(2) [OF spsc_invD(1) [OF inv]]
  have p31: "p \<le> 31" using spsc_invD(1) [OF inv] by (simp add: counters_ok_def)
  have "(unat (fout (ring s)) + k) mod 2 ^ p = (length (received s) + k) mod 2 ^ p" for k
  proof -
    have "unat (fout (ring s)) mod 2 ^ p = length (received s) mod 2 ^ p"
      using unat_add_ring [OF p31, of 0 "length (received s)"] by (simp add: c(3))
    then show ?thesis by (rule mod_add_cong) (rule refl)
  qed
  then have "contents (ring s) ! k = drop (length (received s)) (sent s) ! k" if "k < length (sent s) - length (received s)" for k
    using that spsc_invD(2) [OF inv] c(1,5) sp by (simp add: contents_def queued_ok_def)
  then have "contents (ring s) = drop (length (received s)) (sent s)"
    by (intro nth_equalityI) (simp_all add: contents_def sp)
  with c(4,6) p(2) show ?thesis by simp
qed

theorem kfifo_lockfree_spsc_witness:
  "\<exists>f s. kfifo_init True [0, 0] 2 = Some (Inr f) \<and> spsc_reach f s \<and> writer s = W_copy [7] 0 \<and>
     contents (ring s) = drop (length (received s)) (sent s)"
proof -
  define f where "f = \<lparr>buffer = [0, 0], fsize = (2 :: u32), fin = 0, fout = 0\<rparr>"
  define s where "s = \<lparr>ring = f, writer = W_copy [7] 0, reader = R_idle, sent = [], received = []\<rparr>"
  have i: "kfifo_init True [0, 0] 2 = Some (Inr f)" by (simp add: kfifo_init_def is_power_of_2_def f_def)
  have r: "spsc_reach f s"
    using spsc_reach.step [OF spsc_reach.start spsc_step.w_sample [of _ "[7]" 1]]
    by (simp add: f_def s_def min_def)
  have "contents (ring s) = drop (length (received s)) (sent s)"
    using kfifo_lockfree_spsc [OF i _ r] by simp
  with i r show ?thesis by (auto simp: s_def)
qed

end
