(* ===== verification/Semaphore.thy ===== *)
theory Semaphore
  imports Prelude
begin

text \<open>
  kernel/semaphore.c: counting semaphores.  Every operation runs under the
  semaphore's spinlock, except that a waiter releases it while it sleeps, so the
  steps are: a call up to its return or to the first sleep, and the continuation of
  a sleeping task when the scheduler runs it again.  Signals, the remaining time and
  the moments of waking come from the outside and are part of the events.
  \<open>returns\<close> and \<open>ups\<close> record the history of completed calls.
\<close>

section \<open>Data\<close>

text \<open>The sleep states that the four blocking entry points use.\<close>

datatype task_state = TASK_UNINTERRUPTIBLE | TASK_INTERRUPTIBLE | TASK_KILLABLE

datatype pending_signal = No_signal | Signal | Fatal_signal

text \<open>The count is an \<open>unsigned int\<close>, which \<open>up\<close> increments without a check.\<close>

record semaphore =
  count :: u32
  wait_list :: "nat list"

text \<open>
  A sleeping task has a \<open>semaphore_waiter\<close> on its stack: its state, the timeout
  it passed to \<open>schedule_timeout\<close> and its \<open>up\<close> flag.
\<close>

record waiter =
  wstate :: task_state
  timeout :: int
  up_flag :: bool

record sem_world =
  sem :: semaphore
  sleeping :: "nat \<rightharpoonup> waiter"
  returns :: "(nat \<times> int) list"
  ups :: nat

definition MAX_SCHEDULE_TIMEOUT :: int where
  "MAX_SCHEDULE_TIMEOUT = 2 ^ 31 - 1"

definition signal_pending_state :: "task_state \<Rightarrow> pending_signal \<Rightarrow> bool" where
  "signal_pending_state st sig =
     (case st of
        TASK_UNINTERRUPTIBLE \<Rightarrow> False
      | TASK_INTERRUPTIBLE \<Rightarrow> sig \<noteq> No_signal
      | TASK_KILLABLE \<Rightarrow> sig = Fatal_signal)"

section \<open>Operations\<close>

definition returned :: "nat \<Rightarrow> int \<Rightarrow> sem_world \<Rightarrow> sem_world" where
  "returned t r w = w\<lparr>sleeping := (sleeping w)(t := None), returns := returns w @ [(t, r)]\<rparr>"

definition dequeue :: "nat \<Rightarrow> sem_world \<Rightarrow> sem_world" where
  "dequeue t w = w\<lparr>sem := (sem w)\<lparr>wait_list := remove1 t (wait_list (sem w))\<rparr>\<rparr>"

text \<open>One pass of the loop in \<open>__down_common\<close> up to the sleep or the return.\<close>

definition down_loop :: "nat \<Rightarrow> task_state \<Rightarrow> int \<Rightarrow> pending_signal \<Rightarrow> sem_world \<Rightarrow> sem_world" where
  "down_loop t st tmo sig w =
     (if signal_pending_state st sig then returned t (-EINTR) (dequeue t w)
      else if tmo \<le> 0 then returned t (-ETIME) (dequeue t w)
      else w\<lparr>sleeping := (sleeping w)(t \<mapsto> \<lparr>wstate = st, timeout = tmo, up_flag = False\<rparr>)\<rparr>)"

definition down_common :: "nat \<Rightarrow> task_state \<Rightarrow> int \<Rightarrow> pending_signal \<Rightarrow> sem_world \<Rightarrow> sem_world" where
  "down_common t st tmo sig w =
     down_loop t st tmo sig (w\<lparr>sem := (sem w)\<lparr>wait_list := wait_list (sem w) @ [t]\<rparr>\<rparr>)"

text \<open>The part that \<open>down\<close>, \<open>down_interruptible\<close>, \<open>down_killable\<close> and \<open>down_timeout\<close> share.\<close>

definition down_with :: "task_state \<Rightarrow> int \<Rightarrow> nat \<Rightarrow> pending_signal \<Rightarrow> sem_world \<Rightarrow> sem_world" where
  "down_with st tmo t sig w =
     (if count (sem w) > 0 then returned t 0 (w\<lparr>sem := (sem w)\<lparr>count := count (sem w) - 1\<rparr>\<rparr>)
      else down_common t st tmo sig w)"

definition down :: "nat \<Rightarrow> pending_signal \<Rightarrow> sem_world \<Rightarrow> sem_world" where
  "down = down_with TASK_UNINTERRUPTIBLE MAX_SCHEDULE_TIMEOUT"

definition down_interruptible :: "nat \<Rightarrow> pending_signal \<Rightarrow> sem_world \<Rightarrow> sem_world" where
  "down_interruptible = down_with TASK_INTERRUPTIBLE MAX_SCHEDULE_TIMEOUT"

definition down_killable :: "nat \<Rightarrow> pending_signal \<Rightarrow> sem_world \<Rightarrow> sem_world" where
  "down_killable = down_with TASK_KILLABLE MAX_SCHEDULE_TIMEOUT"

definition down_timeout :: "int \<Rightarrow> nat \<Rightarrow> pending_signal \<Rightarrow> sem_world \<Rightarrow> sem_world" where
  "down_timeout jiffies = down_with TASK_UNINTERRUPTIBLE jiffies"

text \<open>
  The new count goes through an \<open>int\<close>: with more than \<open>2 ^ 31\<close> permits it is negative
  and the call fails although permits are there.
\<close>

definition down_trylock :: "nat \<Rightarrow> sem_world \<Rightarrow> sem_world" where
  "down_trylock t w =
     (let c = count (sem w) - 1
      in if 0 \<le> sint c then returned t 0 (w\<lparr>sem := (sem w)\<lparr>count := c\<rparr>\<rparr>) else returned t 1 w)"

definition up :: "sem_world \<Rightarrow> sem_world" where
  "up w =
     (case wait_list (sem w) of
        [] \<Rightarrow> w\<lparr>sem := (sem w)\<lparr>count := count (sem w) + 1\<rparr>, ups := ups w + 1\<rparr>
      | t # ts \<Rightarrow> w\<lparr>sem := (sem w)\<lparr>wait_list := ts\<rparr>, sleeping := (sleeping w)(t := map_option (\<lambda>x. x\<lparr>up_flag := True\<rparr>) (sleeping w t)),
                     ups := ups w + 1\<rparr>)"

text \<open>A sleeping task continues after \<open>schedule_timeout\<close> returned \<open>tmo\<close>.\<close>

definition resume :: "nat \<Rightarrow> waiter \<Rightarrow> int \<Rightarrow> pending_signal \<Rightarrow> sem_world \<Rightarrow> sem_world" where
  "resume t x tmo sig w = (if up_flag x then returned t 0 w else down_loop t (wstate x) tmo sig w)"

section \<open>Interleavings\<close>

datatype sem_event =
    Down task_state int nat pending_signal
  | Trylock nat
  | Up
  | Resume nat int pending_signal

text \<open>
  A task that sleeps in one call makes no other call.  \<open>schedule_timeout\<close>
  returns the time that is left, and \<open>MAX_SCHEDULE_TIMEOUT\<close> for that argument.
\<close>

inductive sem_step :: "sem_world \<Rightarrow> sem_event \<Rightarrow> sem_world \<Rightarrow> bool" where
  down: "sleeping w t = None \<Longrightarrow> sem_step w (Down st tmo t sig) (down_with st tmo t sig w)"
| trylock: "sleeping w t = None \<Longrightarrow> sem_step w (Trylock t) (down_trylock t w)"
| up: "sem_step w Up (up w)"
| resume: "sleeping w t = Some x \<Longrightarrow> tmo \<le> timeout x \<Longrightarrow> 0 \<le> tmo \<Longrightarrow> (timeout x = MAX_SCHEDULE_TIMEOUT \<Longrightarrow> tmo = MAX_SCHEDULE_TIMEOUT) \<Longrightarrow>
    sem_step w (Resume t tmo sig) (resume t x tmo sig w)"

inductive sem_run :: "sem_world \<Rightarrow> sem_event list \<Rightarrow> sem_world \<Rightarrow> bool" for w where
  nil: "sem_run w [] w"
| snoc: "sem_run w es w' \<Longrightarrow> sem_step w' e w'' \<Longrightarrow> sem_run w (es @ [e]) w''"

definition sem_init :: "u32 \<Rightarrow> sem_world" where
  "sem_init val = \<lparr>sem = \<lparr>count = val, wait_list = []\<rparr>, sleeping = Map.empty, returns = [], ups = 0\<rparr>"

section \<open>Invariant\<close>

fun waits :: "waiter option \<Rightarrow> bool" where
  "waits None = False"
| "waits (Some x) = (\<not> up_flag x)"

fun granted :: "waiter option \<Rightarrow> bool" where
  "granted None = False"
| "granted (Some x) = up_flag x"

definition waiting_of :: "(nat \<rightharpoonup> waiter) \<Rightarrow> nat set" where
  "waiting_of m = {t. waits (m t)}"

definition woken_of :: "(nat \<rightharpoonup> waiter) \<Rightarrow> nat set" where
  "woken_of m = {t. granted (m t)}"

abbreviation waiting :: "sem_world \<Rightarrow> nat set" where
  "waiting w \<equiv> waiting_of (sleeping w)"

abbreviation woken :: "sem_world \<Rightarrow> nat set" where
  "woken w \<equiv> woken_of (sleeping w)"

lemma sleeping_upd_simps [simp]:
  "waiting_of (m(t := x)) = (if waits x then insert t (waiting_of m) else waiting_of m - {t})"
  "woken_of (m(t := x)) = (if granted x then insert t (woken_of m) else woken_of m - {t})"
  by (auto simp: waiting_of_def woken_of_def)

definition acquired_of :: "(nat \<times> int) list \<Rightarrow> nat" where
  "acquired_of rs = length (filter (\<lambda>(t, r). r = 0) rs)"

abbreviation acquired :: "sem_world \<Rightarrow> nat" where
  "acquired w \<equiv> acquired_of (returns w)"

lemma acquired_snoc [simp]: "acquired_of (rs @ [(t, r)]) = acquired_of rs + (if r = 0 then 1 else 0)"
  by (simp add: acquired_of_def)

text \<open>
  Permits: those in the count, those of completed acquisitions and those on their way
  to a woken task are the initial ones and one per \<open>up\<close>, modulo \<open>2 ^ 32\<close>, and
  exactly while the total fits into the count.
\<close>

definition conserved :: "u32 \<Rightarrow> u32 \<Rightarrow> nat \<Rightarrow> nat \<Rightarrow> nat \<Rightarrow> bool" where
  "conserved val c a k n \<longleftrightarrow>
     c + of_nat (a + k) = val + of_nat n \<and> (unat val + n < 2 ^ 32 \<longrightarrow> unat c + a + k = unat val + n)"

lemma conserved_grant: "conserved val c a k n \<Longrightarrow> c > 0 \<Longrightarrow> conserved val (c - 1) (a + 1) k n"
proof -
  assume c: "conserved val c a k n" "c > 0"
  then have "unat (c - 1) = unat c - 1" "0 < unat c" by (simp_all add: unat_minus_one word_gt_0 unat_gt_0)
  with c(1) show ?thesis by (auto simp: conserved_def algebra_simps)
qed

lemma conserved_count: "conserved val c a k n \<Longrightarrow> conserved val (c + 1) a k (n + 1)"
proof -
  assume c: "conserved val c a k n"
  have "unat (c + 1) = unat c + 1" if "unat val + (n + 1) < 2 ^ 32"
    using that c by (simp add: conserved_def unat_word_ariths)
  with c show ?thesis by (auto simp: conserved_def algebra_simps)
qed

lemma conserved_wake: "conserved val c a k n \<Longrightarrow> conserved val c a (k + 1) (n + 1)"
  by (auto simp: conserved_def algebra_simps)

lemma conserved_return: "conserved val c a (k + 1) n \<Longrightarrow> conserved val c (a + 1) k n"
  by (auto simp: conserved_def algebra_simps)

text \<open>
  The wait list is the set of tasks that sleep without having been granted the
  semaphore; nobody waits while the count is positive; permits are conserved.
\<close>

definition sem_inv :: "u32 \<Rightarrow> sem_world \<Rightarrow> bool" where
  "sem_inv val w \<longleftrightarrow>
     distinct (wait_list (sem w)) \<and> set (wait_list (sem w)) = waiting w \<and>
     (count (sem w) > 0 \<longrightarrow> wait_list (sem w) = []) \<and>
     finite (woken w) \<and> conserved val (count (sem w)) (acquired w) (card (woken w)) (ups w)"

lemma sem_invD:
  assumes "sem_inv val w"
  shows "distinct (wait_list (sem w))" and "set (wait_list (sem w)) = waiting w"
    and "count (sem w) > 0 \<Longrightarrow> wait_list (sem w) = []" and "finite (woken w)"
    and "conserved val (count (sem w)) (acquired w) (card (woken w)) (ups w)"
  using assms by (simp_all add: sem_inv_def)

lemma not_sleeping: "sleeping w t = None \<Longrightarrow> t \<notin> waiting w \<and> t \<notin> woken w"
  by (simp add: waiting_of_def woken_of_def)

lemma sem_invI:
  assumes "distinct (wait_list (sem w))" and "set (wait_list (sem w)) = waiting w" and "count (sem w) > 0 \<Longrightarrow> wait_list (sem w) = []"
    and "finite (woken w)" and "conserved val (count (sem w)) (acquired w) (card (woken w)) (ups w)"
  shows "sem_inv val w"
  using assms by (simp add: sem_inv_def)

lemma grant_inv:
  assumes inv: "sem_inv val w" and t: "sleeping w t = None" and c: "count (sem w) > 0"
  shows "sem_inv val (returned t 0 (w\<lparr>sem := (sem w)\<lparr>count := count (sem w) - 1\<rparr>\<rparr>))"
proof -
  have "conserved val (count (sem w) - 1) (acquired w + 1) (card (woken w)) (ups w)"
    by (rule conserved_grant [OF sem_invD(5) [OF inv] c])
  then show ?thesis using sem_invD [OF inv] not_sleeping [OF t] c by (intro sem_invI) (simp_all add: returned_def)
qed

lemma down_common_inv:
  assumes inv: "sem_inv val w" and t: "sleeping w t = None" and c: "count (sem w) = 0"
  shows "sem_inv val (down_common t st tmo sig w)"
proof -
  note i = sem_invD [OF inv] and n = not_sleeping [OF t]
  define u where "u = w\<lparr>sem := (sem w)\<lparr>wait_list := wait_list (sem w) @ [t]\<rparr>\<rparr>"
  have r: "remove1 t (wait_list (sem w) @ [t]) = wait_list (sem w)" using i(2) n by (simp add: remove1_append)
  have err: "sem_inv val (returned t e (dequeue t u))" if "e \<noteq> 0" for e
    using i n that r by (intro sem_invI) (simp_all add: u_def returned_def dequeue_def)
  have slp: "sem_inv val (u\<lparr>sleeping := (sleeping u)(t \<mapsto> \<lparr>wstate = st, timeout = tmo, up_flag = False\<rparr>)\<rparr>)"
    using i n c by (intro sem_invI) (simp_all add: u_def)
  have e: "down_common t st tmo sig w = down_loop t st tmo sig u" unfolding u_def down_common_def ..
  have "sem_inv val (down_loop t st tmo sig u)" using err [of "-EINTR"] err [of "-ETIME"] slp by (simp add: down_loop_def errno_defs)
  then show ?thesis unfolding e .
qed

lemma resume_inv:
  assumes inv: "sem_inv val w" and t: "sleeping w t = Some x"
  shows "sem_inv val (resume t x tmo sig w)"
proof (cases "up_flag x")
  case True
  then have k: "t \<in> woken w" "t \<notin> waiting w" using t by (auto simp: waiting_of_def woken_of_def)
  have "card (woken w - {t}) + 1 = card (woken w)" using card_Suc_Diff1 [OF sem_invD(4) [OF inv] k(1)] by simp
  then have "conserved val (count (sem w)) (acquired w + 1) (card (woken w - {t})) (ups w)"
    using sem_invD(5) [OF inv] by (intro conserved_return) simp
  moreover have "resume t x tmo sig w = returned t 0 w" using True by (simp add: resume_def)
  ultimately show ?thesis using sem_invD [OF inv] k by (simp only:) (intro sem_invI; simp add: returned_def)
next
  case False
  note i = sem_invD [OF inv]
  have k: "t \<in> waiting w" "t \<notin> woken w" using t False by (auto simp: waiting_of_def woken_of_def)
  have err: "sem_inv val (returned t e (dequeue t w))" if "e \<noteq> 0" for e
    using i(1,2,4,5) i(3) k that by (intro sem_invI; auto simp: returned_def dequeue_def)
  have slp: "sem_inv val (w\<lparr>sleeping := (sleeping w)(t \<mapsto> \<lparr>wstate = wstate x, timeout = tmo, up_flag = False\<rparr>)\<rparr>)"
    using i k by (intro sem_invI; auto)
  have e: "resume t x tmo sig w = down_loop t (wstate x) tmo sig w" using False by (simp add: resume_def)
  have "sem_inv val (down_loop t (wstate x) tmo sig w)"
    using err [of "-EINTR"] err [of "-ETIME"] slp by (simp add: down_loop_def errno_defs)
  then show ?thesis unfolding e .
qed

lemma up_inv:
  assumes inv: "sem_inv val w"
  shows "sem_inv val (up w)"
proof (cases "wait_list (sem w)")
  case Nil
  with sem_invD [OF inv] conserved_count [OF sem_invD(5) [OF inv]] show ?thesis by (simp add: up_def sem_inv_def)
next
  case (Cons t ts)
  note i = sem_invD [OF inv]
  have "t \<in> waiting w" using i(2) Cons by auto
  then obtain x where x: "sleeping w t = Some x" "\<not> up_flag x" "t \<notin> woken w"
    by (cases "sleeping w t") (auto simp: waiting_of_def woken_of_def)
  have c: "count (sem w) = 0" using i(3) Cons by (auto simp: word_gt_0)
  have ts: "distinct ts" "set ts = waiting w - {t}" using i(1,2) Cons by auto
  have e: "up w = w\<lparr>sem := (sem w)\<lparr>wait_list := ts\<rparr>, sleeping := (sleeping w)(t \<mapsto> x\<lparr>up_flag := True\<rparr>), ups := ups w + 1\<rparr>"
    by (simp add: up_def Cons x(1))
  show ?thesis unfolding e
  proof (rule sem_invI)
    let ?z = "w\<lparr>sem := (sem w)\<lparr>wait_list := ts\<rparr>, sleeping := (sleeping w)(t \<mapsto> x\<lparr>up_flag := True\<rparr>), ups := ups w + 1\<rparr>"
    show "distinct (wait_list (sem ?z))" "set (wait_list (sem ?z)) = waiting ?z" "finite (woken ?z)"
      using ts i(4) by simp_all
    show "count (sem ?z) > 0 \<Longrightarrow> wait_list (sem ?z) = []" using c by simp
    show "conserved val (count (sem ?z)) (acquired ?z) (card (woken ?z)) (ups ?z)"
      using conserved_wake [OF i(5)] i(4) x(3) by simp
  qed
qed

lemma down_with_inv:
  assumes "sem_inv val w" and "sleeping w t = None"
  shows "sem_inv val (down_with st tmo t sig w)"
proof (cases "count (sem w) > 0")
  case True
  from grant_inv [OF assms True] show ?thesis unfolding down_with_def using True by (simp only: if_True)
next
  case False
  then have "count (sem w) = 0" by (simp add: word_gt_0)
  from down_common_inv [OF assms this] show ?thesis unfolding down_with_def using False by (simp only: if_False)
qed

lemma trylock_inv:
  assumes "sem_inv val w" and "sleeping w t = None"
  shows "sem_inv val (down_trylock t w)"
proof (cases "0 \<le> sint (count (sem w) - 1)")
  case True
  have "count (sem w) \<noteq> 0"
  proof
    assume "count (sem w) = 0"
    with True show False by simp
  qed
  then have pos: "count (sem w) > 0" by (simp add: word_gt_0)
  from True have "down_trylock t w = returned t 0 (w\<lparr>sem := (sem w)\<lparr>count := count (sem w) - 1\<rparr>\<rparr>)"
    unfolding down_trylock_def Let_def by (simp only: if_True)
  with grant_inv [OF assms pos] show ?thesis by (simp only:)
next
  case False
  then have "down_trylock t w = returned t 1 w" by (simp add: down_trylock_def)
  moreover have "sem_inv val (returned t 1 w)"
    using sem_invD [OF assms(1)] not_sleeping [OF assms(2)] by (intro sem_invI; simp add: returned_def)
  ultimately show ?thesis by (simp only:)
qed

lemma sem_step_inv: "sem_step w e w' \<Longrightarrow> sem_inv val w \<Longrightarrow> sem_inv val w'"
  by (erule sem_step.cases) (auto intro: down_with_inv trylock_inv up_inv resume_inv)

lemma sem_run_inv: "sem_run w es w' \<Longrightarrow> sem_inv val w \<Longrightarrow> sem_inv val w'"
  by (induction rule: sem_run.induct) (auto intro: sem_step_inv)

lemma sem_init_inv: "sem_inv val (sem_init val)"
  by (simp add: sem_inv_def sem_init_def waiting_of_def woken_of_def acquired_of_def conserved_def)

text \<open>
  C26: In every interleaving of \<open>down\<close> variants, \<open>down_trylock\<close>,
  \<open>up\<close> and wake-ups on a semaphore initialised to \<open>val\<close>, no task sleeps waiting
  while the count is positive, and the 32-bit count, the successful acquisitions and
  the permits granted to woken tasks together are \<open>val\<close> and one per \<open>up\<close>, modulo
  \<open>2 ^ 32\<close>; while \<open>val\<close> and the \<open>up\<close> calls stay below \<open>2 ^ 32\<close> they are so exactly,
  and at most that many acquisitions succeed.
\<close>

theorem semaphore_conserves_permits:
  assumes "sem_run (sem_init val) es w"
  shows "(count (sem w) > 0 \<longrightarrow> waiting w = {}) \<and>
         count (sem w) + of_nat (acquired w + card (woken w)) = val + of_nat (ups w) \<and>
         (unat val + ups w < 2 ^ 32 \<longrightarrow>
            unat (count (sem w)) + acquired w + card (woken w) = unat val + ups w \<and> acquired w \<le> unat val + ups w)"
  using sem_invD [OF sem_run_inv [OF assms sem_init_inv]] unfolding conserved_def by auto

text \<open>The count wraps: an \<open>up\<close> on a full count leaves no permit at all.\<close>

lemma up_wraps: "count (sem (up (sem_init (- 1)))) = 0"
  by (simp add: up_def sem_init_def)

section \<open>First come, first served\<close>

definition ahead :: "nat list \<Rightarrow> nat \<Rightarrow> nat" where
  "ahead xs t = length (takeWhile (\<lambda>u. u \<noteq> t) xs)"

lemma ahead_snoc: "t \<in> set xs \<Longrightarrow> ahead (xs @ ys) t = ahead xs t"
  by (induction xs) (auto simp: ahead_def)

lemma ahead_remove1: "ahead (remove1 u xs) t \<le> ahead xs t" if "u \<noteq> t" for u
  using that by (induction xs) (auto simp: ahead_def)

text \<open>A task inside \<open>down()\<close>: it cannot be interrupted and has no time limit.\<close>

definition patient :: "sem_world \<Rightarrow> nat \<Rightarrow> bool" where
  "patient w t \<longleftrightarrow> (\<exists>x. sleeping w t = Some x \<and> wstate x = TASK_UNINTERRUPTIBLE \<and> timeout x = MAX_SCHEDULE_TIMEOUT)"

text \<open>
  \<open>in_line w0 t k w\<close>: since \<open>w0\<close> task \<open>t\<close> has got the semaphore, or has
  been granted it, or fewer than \<open>k\<close> tasks are ahead of it.
\<close>

definition got_it :: "sem_world \<Rightarrow> nat \<Rightarrow> sem_world \<Rightarrow> bool" where
  "got_it w0 t w \<longleftrightarrow> (t, 0) \<in> set (drop (length (returns w0)) (returns w))"

definition in_line :: "sem_world \<Rightarrow> nat \<Rightarrow> nat \<Rightarrow> sem_world \<Rightarrow> bool" where
  "in_line w0 t k w \<longleftrightarrow>
     got_it w0 t w \<or> t \<in> woken w \<or>
     (t \<in> set (wait_list (sem w)) \<and> ahead (wait_list (sem w)) t < k \<and> patient w t)"

lemma got_it_mono:
  assumes "got_it w0 t w" and "length (returns w0) \<le> length (returns w)" and "returns w' = returns w @ rs"
  shows "got_it w0 t w'"
  using assms by (simp add: got_it_def)

lemma step_returns:
  assumes "sem_step w e w'"
  shows "\<exists>rs. returns w' = returns w @ rs"
  using assms
  by (cases rule: sem_step.cases)
     (auto simp: down_with_def down_common_def down_loop_def down_trylock_def up_def resume_def returned_def dequeue_def Let_def
        split: list.splits)

text \<open>What another task's step leaves alone.\<close>

lemma down_loop_frame:
  assumes "t \<noteq> u"
  shows "sleeping (down_loop u st tmo sig w) t = sleeping w t"
    and "wait_list (sem (down_loop u st tmo sig w)) = wait_list (sem w) \<or>
         wait_list (sem (down_loop u st tmo sig w)) = remove1 u (wait_list (sem w))"
  using assms by (auto simp: down_loop_def returned_def dequeue_def)

lemma down_with_frame:
  assumes "t \<noteq> u" and "t \<in> set (wait_list (sem w))"
  shows "sleeping (down_with st tmo u sig w) t = sleeping w t"
    and "t \<in> set (wait_list (sem (down_with st tmo u sig w)))"
    and "ahead (wait_list (sem (down_with st tmo u sig w))) t \<le> ahead (wait_list (sem w)) t"
proof -
  let ?w = "w\<lparr>sem := (sem w)\<lparr>wait_list := wait_list (sem w) @ [u]\<rparr>\<rparr>"
  have a: "ahead (wait_list (sem w) @ [u]) t = ahead (wait_list (sem w)) t" by (rule ahead_snoc [OF assms(2)])
  show "sleeping (down_with st tmo u sig w) t = sleeping w t"
    using assms(1) down_loop_frame(1) [OF assms(1), of st tmo sig ?w] by (simp add: down_with_def down_common_def returned_def)
  show "t \<in> set (wait_list (sem (down_with st tmo u sig w)))"
    using assms down_loop_frame(2) [OF assms(1), of st tmo sig ?w] by (auto simp: down_with_def down_common_def returned_def)
  show "ahead (wait_list (sem (down_with st tmo u sig w))) t \<le> ahead (wait_list (sem w)) t"
    using a assms(1) down_loop_frame(2) [OF assms(1), of st tmo sig ?w] ahead_remove1 [of u t "wait_list (sem w) @ [u]"]
    by (auto simp: down_with_def down_common_def returned_def)
qed

lemma in_line_woken:
  assumes "t \<in> woken w" and "sem_inv val w" and "sem_step w e w'" and "length (returns w0) \<le> length (returns w)"
  shows "in_line w0 t k w'"
  using assms(3)
proof cases
  case (down u st tmo sig)
  then have "u \<noteq> t" using assms(1) by (auto simp: woken_of_def)
  then show ?thesis using down assms(1) down_loop_frame(1) [of t u]
    by (auto simp: in_line_def woken_of_def down_with_def down_common_def returned_def)
next
  case (trylock u)
  then have "u \<noteq> t" using assms(1) by (auto simp: woken_of_def)
  then show ?thesis using trylock assms(1) by (auto simp: in_line_def woken_of_def down_trylock_def returned_def Let_def)
next
  case up
  have "t \<notin> set (wait_list (sem w))"
    using assms(1) sem_invD(2) [OF assms(2)] by (cases "sleeping w t") (auto simp: woken_of_def waiting_of_def)
  then show ?thesis using up assms(1) by (auto simp: in_line_def woken_of_def Semaphore.up_def split: list.splits)
next
  case (resume u x tmo sig)
  show ?thesis
  proof (cases "u = t")
    case True
    then have "w' = returned t 0 w" using resume assms(1) by (simp add: Semaphore.resume_def woken_of_def)
    then show ?thesis using assms(4) by (simp add: in_line_def got_it_def returned_def)
  next
    case False
    then show ?thesis using resume assms(1) down_loop_frame(1) [of t u]
      by (auto simp: in_line_def woken_of_def Semaphore.resume_def returned_def)
  qed
qed

lemma in_line_waiting:
  assumes t: "t \<in> set (wait_list (sem w))" "ahead (wait_list (sem w)) t < k" "patient w t"
    and inv: "sem_inv val w" and step: "sem_step w e w'"
  shows "in_line w0 t (if e = Up then k - 1 else k) w'"
  using step
proof cases
  case (down u st tmo sig)
  then have "t \<noteq> u" using t(3) by (auto simp: patient_def)
  from down_with_frame [OF this t(1), of st tmo sig] t(2,3) down show ?thesis by (auto simp: in_line_def patient_def)
next
  case (trylock u)
  then have "t \<noteq> u" using t(3) by (auto simp: patient_def)
  then show ?thesis using trylock t by (auto simp: in_line_def patient_def down_trylock_def returned_def Let_def)
next
  case up
  obtain h ts where wl: "wait_list (sem w) = h # ts" using t(1) by (cases "wait_list (sem w)") auto
  show ?thesis
  proof (cases "h = t")
    case True
    then show ?thesis using up wl t(3) by (auto simp: in_line_def woken_of_def patient_def Semaphore.up_def)
  next
    case False
    then have "t \<in> set ts" "ahead ts t < k - 1" using t(1,2) wl by (auto simp: ahead_def)
    then show ?thesis using up wl t(3) False by (auto simp: in_line_def patient_def Semaphore.up_def)
  qed
next
  case (resume u x tmo sig)
  show ?thesis
  proof (cases "u = t")
    case True
    have x: "wstate x = TASK_UNINTERRUPTIBLE" "timeout x = MAX_SCHEDULE_TIMEOUT" using resume(3) t(3) True by (auto simp: patient_def)
    have "\<not> up_flag x"
      using t(1) sem_invD(2) [OF inv] resume(3) True by (auto simp: waiting_of_def)
    moreover have "tmo = MAX_SCHEDULE_TIMEOUT" using resume(6) x(2) by simp
    ultimately have "w' = w\<lparr>sleeping := (sleeping w)(t \<mapsto> \<lparr>wstate = TASK_UNINTERRUPTIBLE, timeout = MAX_SCHEDULE_TIMEOUT, up_flag = False\<rparr>)\<rparr>"
      using resume(2) True x(1)
      by (simp add: Semaphore.resume_def down_loop_def signal_pending_state_def MAX_SCHEDULE_TIMEOUT_def)
    with resume(1) t show ?thesis by (simp add: in_line_def patient_def)
  next
    case False
    from down_loop_frame [OF False [symmetric], of "wstate x" tmo sig w] ahead_remove1 [OF False, of "wait_list (sem w)"] False resume t
    show ?thesis by (auto simp: in_line_def patient_def Semaphore.resume_def returned_def)
  qed
qed

lemma in_line_run:
  assumes run: "sem_run w0 es w" and inv: "sem_inv val w0"
    and t: "t \<in> set (wait_list (sem w0))" "ahead (wait_list (sem w0)) t < k" "patient w0 t"
  shows "in_line w0 t (k - length (filter (\<lambda>e. e = Up) es)) w \<and> length (returns w0) \<le> length (returns w)"
  using run
proof (induction rule: sem_run.induct)
  case nil
  with t show ?case by (simp add: in_line_def)
next
  case (snoc es w e w')
  have iw: "sem_inv val w" by (rule sem_run_inv [OF snoc.hyps(1) inv])
  obtain rs where rs: "returns w' = returns w @ rs" using step_returns [OF snoc.hyps(2)] by blast
  have len: "length (returns w0) \<le> length (returns w)" using snoc.IH by simp
  let ?k = "k - length (filter (\<lambda>e. e = Up) es)"
  consider "got_it w0 t w" | "t \<in> woken w" | "t \<in> set (wait_list (sem w))" "ahead (wait_list (sem w)) t < ?k" "patient w t"
    using snoc.IH by (auto simp: in_line_def)
  then have "in_line w0 t (if e = Up then ?k - 1 else ?k) w'"
  proof cases
    case 1
    from got_it_mono [OF this len rs] show ?thesis by (simp add: in_line_def)
  next
    case 2
    from in_line_woken [OF this iw snoc.hyps(2) len] show ?thesis .
  next
    case 3
    from in_line_waiting [OF this iw snoc.hyps(2)] show ?thesis .
  qed
  moreover have "(if e = Up then ?k - 1 else ?k) = k - length (filter (\<lambda>e. e = Up) (es @ [e]))" by simp
  ultimately show ?case using len rs by simp
qed

text \<open>
  C27: Waiters are served in order: a task that sleeps in \<open>down()\<close> with
  \<open>n\<close> tasks ahead of it on the wait list has acquired the semaphore, or has
  been granted it and returns at its next turn, as soon as \<open>n + 1\<close> further
  \<open>up\<close> calls were made, whatever later callers, signals and time-outs do.
\<close>

theorem semaphore_fifo_service:
  assumes "sem_run (sem_init val) es0 w0" and "t \<in> set (wait_list (sem w0))" and "patient w0 t"
    and "sem_run w0 es w" and "ahead (wait_list (sem w0)) t < length (filter (\<lambda>e. e = Up) es)"
  shows "got_it w0 t w \<or> (\<exists>x. sleeping w t = Some x \<and> (\<forall>tmo sig. (t, 0) \<in> set (returns (resume t x tmo sig w))))"
proof -
  have inv: "sem_inv val w0" by (rule sem_run_inv [OF assms(1) sem_init_inv])
  have "in_line w0 t 0 w"
    using in_line_run [OF assms(4) inv assms(2) assms(5) assms(3)] by simp
  then consider "got_it w0 t w" | "t \<in> woken w" by (auto simp: in_line_def)
  then show ?thesis
  proof cases
    case 2
    then obtain x where "sleeping w t = Some x" "up_flag x" by (cases "sleeping w t") (auto simp: woken_of_def)
    then show ?thesis by (auto simp: resume_def returned_def)
  qed simp
qed

definition one_waiter :: sem_world where
  "one_waiter = down 7 No_signal (sem_init 0)"

lemma one_waiter_run: "sem_run (sem_init 0) [Down TASK_UNINTERRUPTIBLE MAX_SCHEDULE_TIMEOUT 7 No_signal] one_waiter"
  using sem_run.snoc [OF sem_run.nil sem_step.down, of "sem_init 0" 7 TASK_UNINTERRUPTIBLE MAX_SCHEDULE_TIMEOUT No_signal]
  by (simp add: one_waiter_def down_def sem_init_def)

lemma one_waiter_facts: "wait_list (sem one_waiter) = [7]" "patient one_waiter 7"
  by (simp_all add: one_waiter_def down_def down_with_def down_common_def down_loop_def sem_init_def signal_pending_state_def
        MAX_SCHEDULE_TIMEOUT_def patient_def)

theorem semaphore_conserves_permits_witness:
  "unat (count (sem one_waiter)) + acquired one_waiter + card (woken one_waiter) = 0"
  using semaphore_conserves_permits [OF one_waiter_run]
  by (simp add: one_waiter_def down_def down_with_def down_common_def down_loop_def sem_init_def signal_pending_state_def
        MAX_SCHEDULE_TIMEOUT_def)

theorem semaphore_fifo_service_witness:
  "sem_run one_waiter [Up] (up one_waiter) \<and>
   (got_it one_waiter 7 (up one_waiter) \<or>
    (\<exists>x. sleeping (up one_waiter) 7 = Some x \<and> (\<forall>tmo sig. (7, 0) \<in> set (returns (resume 7 x tmo sig (up one_waiter))))))"
proof -
  have r: "sem_run one_waiter [Up] (up one_waiter)"
    using sem_run.snoc [OF sem_run.nil sem_step.up, of one_waiter] by simp
  have "got_it one_waiter 7 (up one_waiter) \<or>
      (\<exists>x. sleeping (up one_waiter) 7 = Some x \<and> (\<forall>tmo sig. (7, 0) \<in> set (returns (resume 7 x tmo sig (up one_waiter)))))"
    by (rule semaphore_fifo_service [OF one_waiter_run _ one_waiter_facts(2) r]) (simp_all add: one_waiter_facts ahead_def)
  with r show ?thesis by simp
qed

end
