(* ===== verification/Rwsem.thy ===== *)
theory Rwsem
  imports Prelude
begin

text \<open>
  lib/rwsem-spinlock.c: reader-writer semaphores.  All changes happen under the
  wait lock; a sleeping task only waits for its waiter to be cleared, which is the
  moment at which it holds the semaphore.  The state has, beside the fields of
  \<open>struct rw_semaphore\<close>, the tasks that hold it for reading and for writing.
\<close>

section \<open>Data\<close>

datatype rw_flag = RWSEM_WAITING_FOR_READ | RWSEM_WAITING_FOR_WRITE

record rw_semaphore =
  activity :: int
  rw_waiters :: "(nat \<times> rw_flag) list"
  readers :: "nat set"
  writers :: "nat set"

definition init_rwsem :: rw_semaphore where
  "init_rwsem = \<lparr>activity = 0, rw_waiters = [], readers = {}, writers = {}\<rparr>"

section \<open>Waking\<close>

text \<open>Clearing \<open>waiter->task\<close>: the waiting call returns with the lock it asked for.\<close>

definition grant :: "nat \<times> rw_flag \<Rightarrow> rw_semaphore \<Rightarrow> rw_semaphore" where
  "grant x s =
     (case snd x of
        RWSEM_WAITING_FOR_READ \<Rightarrow> s\<lparr>readers := insert (fst x) (readers s)\<rparr>
      | RWSEM_WAITING_FOR_WRITE \<Rightarrow> s\<lparr>writers := insert (fst x) (writers s)\<rparr>)"

text \<open>The loop over the readers at the front of the queue; the number woken is added to \<open>activity\<close>.\<close>

fun wake_readers :: "(nat \<times> rw_flag) list \<Rightarrow> int \<Rightarrow> rw_semaphore \<Rightarrow> rw_semaphore" where
  "wake_readers [] n s = s\<lparr>rw_waiters := [], activity := activity s + n\<rparr>"
| "wake_readers (x # xs) n s =
     (if snd x = RWSEM_WAITING_FOR_READ then wake_readers xs (n + 1) (grant x s)
      else s\<lparr>rw_waiters := x # xs, activity := activity s + n\<rparr>)"

text \<open>Called with a non-empty wait list.\<close>

definition rwsem_do_wake :: "bool \<Rightarrow> rw_semaphore \<Rightarrow> rw_semaphore" where
  "rwsem_do_wake wakewrite s =
     (let w = hd (rw_waiters s)
      in if \<not> wakewrite
         then if snd w = RWSEM_WAITING_FOR_WRITE then s else wake_readers (rw_waiters s) 0 s
         else if snd w = RWSEM_WAITING_FOR_WRITE
              then grant w (s\<lparr>activity := -1, rw_waiters := tl (rw_waiters s)\<rparr>)
              else wake_readers (rw_waiters s) 0 s)"

definition rwsem_wake_one_writer :: "rw_semaphore \<Rightarrow> rw_semaphore" where
  "rwsem_wake_one_writer s = grant (hd (rw_waiters s)) (s\<lparr>activity := -1, rw_waiters := tl (rw_waiters s)\<rparr>)"

section \<open>Operations\<close>

definition down_read :: "nat \<Rightarrow> rw_semaphore \<Rightarrow> rw_semaphore" where
  "down_read t s =
     (if activity s \<ge> 0 \<and> rw_waiters s = [] then s\<lparr>activity := activity s + 1, readers := insert t (readers s)\<rparr>
      else s\<lparr>rw_waiters := rw_waiters s @ [(t, RWSEM_WAITING_FOR_READ)]\<rparr>)"

definition down_read_trylock :: "nat \<Rightarrow> rw_semaphore \<Rightarrow> int \<times> rw_semaphore" where
  "down_read_trylock t s =
     (if activity s \<ge> 0 \<and> rw_waiters s = [] then (1, s\<lparr>activity := activity s + 1, readers := insert t (readers s)\<rparr>)
      else (0, s))"

definition down_write :: "nat \<Rightarrow> rw_semaphore \<Rightarrow> rw_semaphore" where
  "down_write t s =
     (if activity s = 0 \<and> rw_waiters s = [] then s\<lparr>activity := -1, writers := insert t (writers s)\<rparr>
      else s\<lparr>rw_waiters := rw_waiters s @ [(t, RWSEM_WAITING_FOR_WRITE)]\<rparr>)"

definition down_write_trylock :: "nat \<Rightarrow> rw_semaphore \<Rightarrow> int \<times> rw_semaphore" where
  "down_write_trylock t s =
     (if activity s = 0 \<and> rw_waiters s = [] then (1, s\<lparr>activity := -1, writers := insert t (writers s)\<rparr>)
      else (0, s))"

definition up_read :: "nat \<Rightarrow> rw_semaphore \<Rightarrow> rw_semaphore" where
  "up_read t s =
     (let s1 = s\<lparr>activity := activity s - 1, readers := readers s - {t}\<rparr>
      in if activity s1 = 0 \<and> rw_waiters s1 \<noteq> [] then rwsem_wake_one_writer s1 else s1)"

definition up_write :: "nat \<Rightarrow> rw_semaphore \<Rightarrow> rw_semaphore" where
  "up_write t s =
     (let s1 = s\<lparr>activity := 0, writers := writers s - {t}\<rparr>
      in if rw_waiters s1 \<noteq> [] then rwsem_do_wake True s1 else s1)"

definition downgrade_write :: "nat \<Rightarrow> rw_semaphore \<Rightarrow> rw_semaphore" where
  "downgrade_write t s =
     (let s1 = s\<lparr>activity := 1, writers := writers s - {t}, readers := insert t (readers s)\<rparr>
      in if rw_waiters s1 \<noteq> [] then rwsem_do_wake False s1 else s1)"

section \<open>Interleavings\<close>

text \<open>
  Each call is one atomic step under the wait lock.  A task calls a \<open>down\<close>
  only when it neither holds nor waits, and releases only what it holds.
\<close>

datatype rw_op =
  Down_read nat | Down_read_trylock nat | Down_write nat | Down_write_trylock nat
| Up_read nat | Up_write nat | Downgrade_write nat

definition holders :: "rw_semaphore \<Rightarrow> nat set" where
  "holders s = readers s \<union> writers s"

definition waiting :: "rw_semaphore \<Rightarrow> nat list" where
  "waiting s = map fst (rw_waiters s)"

definition idle :: "nat \<Rightarrow> rw_semaphore \<Rightarrow> bool" where
  "idle t s \<longleftrightarrow> t \<notin> holders s \<and> t \<notin> set (waiting s)"

fun allowed :: "rw_op \<Rightarrow> rw_semaphore \<Rightarrow> bool" where
  "allowed (Down_read t) s \<longleftrightarrow> idle t s"
| "allowed (Down_read_trylock t) s \<longleftrightarrow> idle t s"
| "allowed (Down_write t) s \<longleftrightarrow> idle t s"
| "allowed (Down_write_trylock t) s \<longleftrightarrow> idle t s"
| "allowed (Up_read t) s \<longleftrightarrow> t \<in> readers s"
| "allowed (Up_write t) s \<longleftrightarrow> t \<in> writers s"
| "allowed (Downgrade_write t) s \<longleftrightarrow> t \<in> writers s"

fun perform :: "rw_op \<Rightarrow> rw_semaphore \<Rightarrow> rw_semaphore" where
  "perform (Down_read t) s = down_read t s"
| "perform (Down_read_trylock t) s = snd (down_read_trylock t s)"
| "perform (Down_write t) s = down_write t s"
| "perform (Down_write_trylock t) s = snd (down_write_trylock t s)"
| "perform (Up_read t) s = up_read t s"
| "perform (Up_write t) s = up_write t s"
| "perform (Downgrade_write t) s = downgrade_write t s"

inductive rw_step :: "rw_semaphore \<Rightarrow> rw_op \<Rightarrow> rw_semaphore \<Rightarrow> bool" where
  "allowed e s \<Longrightarrow> rw_step s e (perform e s)"

inductive rw_reach :: "rw_semaphore \<Rightarrow> bool" where
  start: "rw_reach init_rwsem"
| step: "rw_reach s \<Longrightarrow> rw_step s e s' \<Longrightarrow> rw_reach s'"

inductive_simps rw_step_simps: "rw_step s e s'"

section \<open>Invariant\<close>

text \<open>
  \<open>activity\<close> counts the readers, or is -1 with one writer; nobody waits for an
  idle semaphore; behind readers the first waiter is a writer.
\<close>

definition rw_excl :: "rw_semaphore \<Rightarrow> bool" where
  "rw_excl s \<longleftrightarrow>
     (activity s = -1 \<and> readers s = {} \<and> (\<exists>t. writers s = {t})) \<or>
     (activity s = int (card (readers s)) \<and> finite (readers s) \<and> writers s = {})"

definition rw_queue :: "rw_semaphore \<Rightarrow> bool" where
  "rw_queue s \<longleftrightarrow>
     (rw_waiters s \<noteq> [] \<longrightarrow> activity s \<noteq> 0) \<and>
     (rw_waiters s \<noteq> [] \<longrightarrow> activity s > 0 \<longrightarrow> snd (hd (rw_waiters s)) = RWSEM_WAITING_FOR_WRITE) \<and>
     distinct (waiting s) \<and> set (waiting s) \<inter> holders s = {}"

definition rw_inv :: "rw_semaphore \<Rightarrow> bool" where
  "rw_inv s \<longleftrightarrow> rw_excl s \<and> rw_queue s"

lemma init_rwsem_inv: "rw_inv init_rwsem"
  by (simp add: rw_inv_def rw_excl_def rw_queue_def init_rwsem_def waiting_def holders_def)

subsection \<open>Waking\<close>

abbreviation is_reader :: "nat \<times> rw_flag \<Rightarrow> bool" where
  "is_reader x \<equiv> snd x = RWSEM_WAITING_FOR_READ"

lemma not_reader [simp]: "snd x \<noteq> RWSEM_WAITING_FOR_READ \<longleftrightarrow> snd x = RWSEM_WAITING_FOR_WRITE"
  by (cases "snd x") simp_all

lemma wake_readers_fields:
  "rw_waiters (wake_readers xs n s) = dropWhile is_reader xs"
  "activity (wake_readers xs n s) = activity s + n + int (length (takeWhile is_reader xs))"
  "readers (wake_readers xs n s) = readers s \<union> fst ` set (takeWhile is_reader xs)"
  "writers (wake_readers xs n s) = writers s"
  by (induction xs n s rule: wake_readers.induct) (auto simp: grant_def)

lemma woken_split:
  assumes "distinct (map fst xs)"
  shows "card (fst ` set (takeWhile is_reader xs)) = length (takeWhile is_reader xs)"
    and "distinct (map fst (dropWhile is_reader xs))"
    and "fst ` set (takeWhile is_reader xs) \<inter> fst ` set (dropWhile is_reader xs) = {}"
    and "fst ` set xs = fst ` set (takeWhile is_reader xs) \<union> fst ` set (dropWhile is_reader xs)"
proof -
  let ?r = "takeWhile is_reader xs" and ?d = "dropWhile is_reader xs"
  have e: "map fst xs = map fst ?r @ map fst ?d" by (metis map_append takeWhile_dropWhile_id)
  from assms have d: "distinct (map fst ?r @ map fst ?d)" unfolding e .
  then show "card (fst ` set ?r) = length ?r"
    using distinct_card [of "map fst ?r"] by simp
  show "distinct (map fst ?d)" using d by simp
  show "fst ` set ?r \<inter> fst ` set ?d = {}" using d by simp
  show "fst ` set xs = fst ` set ?r \<union> fst ` set ?d"
    using arg_cong [OF e, of set] by simp
qed

lemma wake_readers_excl:
  assumes "activity s = int (card (readers s))" "finite (readers s)" "writers s = {}"
    and "distinct (map fst xs)" "fst ` set xs \<inter> readers s = {}"
  shows "rw_excl (wake_readers xs 0 s)"
proof -
  let ?g = "fst ` set (takeWhile is_reader xs)"
  have "card (readers s \<union> ?g) = card (readers s) + card ?g"
    by (rule card_Un_disjoint) (use assms(2,5) woken_split(4) [OF assms(4)] in auto)
  then show ?thesis
    using assms(1-3) woken_split(1) [OF assms(4)] by (simp add: rw_excl_def wake_readers_fields)
qed

lemma wake_readers_queue:
  assumes "activity s \<ge> 0" "activity s > 0 \<or> (xs \<noteq> [] \<and> is_reader (hd xs))" "writers s = {}"
    and "distinct (map fst xs)" "fst ` set xs \<inter> readers s = {}"
  shows "rw_queue (wake_readers xs 0 s)"
proof -
  note f = wake_readers_fields and w = woken_split [OF assms(4)]
  have pos: "activity (wake_readers xs 0 s) > 0"
    unfolding f using assms(1,2) by (cases xs) auto
  have hd: "snd (hd (dropWhile is_reader xs)) = RWSEM_WAITING_FOR_WRITE" if "dropWhile is_reader xs \<noteq> []"
    using hd_dropWhile [OF that] by simp
  show ?thesis
    unfolding rw_queue_def
  proof (intro conjI impI)
    show "activity (wake_readers xs 0 s) \<noteq> 0" using pos by simp
    show "snd (hd (rw_waiters (wake_readers xs 0 s))) = RWSEM_WAITING_FOR_WRITE"
      if "rw_waiters (wake_readers xs 0 s) \<noteq> []" using hd that by (simp add: f)
    show "distinct (waiting (wake_readers xs 0 s))" using w(2) by (simp add: waiting_def f)
    show "set (waiting (wake_readers xs 0 s)) \<inter> holders (wake_readers xs 0 s) = {}"
      using w(3,4) assms(3,5) by (auto simp: waiting_def holders_def f)
  qed
qed

lemma wake_readers_inv:
  assumes "activity s = int (card (readers s))" "finite (readers s)" "writers s = {}"
    and "activity s > 0 \<or> (xs \<noteq> [] \<and> is_reader (hd xs))"
    and "distinct (map fst xs)" "fst ` set xs \<inter> readers s = {}"
  shows "rw_inv (wake_readers xs 0 s)"
  unfolding rw_inv_def
  using wake_readers_excl [OF assms(1,2,3,5,6)] wake_readers_queue [OF _ assms(4,3,5,6)] assms(1) by simp

text \<open>Handing the semaphore to the writer at the head of the queue.\<close>

lemma wake_writer_inv:
  assumes "rw_waiters s = (t, RWSEM_WAITING_FOR_WRITE) # xs" "readers s = {}" "writers s = {}"
    and "distinct (waiting s)"
  shows "rw_inv (grant (t, RWSEM_WAITING_FOR_WRITE) (s\<lparr>activity := -1, rw_waiters := xs\<rparr>))"
  using assms by (auto simp: rw_inv_def rw_excl_def rw_queue_def grant_def waiting_def holders_def)

subsection \<open>Every call keeps the invariant\<close>

lemma rw_invD:
  assumes "rw_inv s"
  shows "distinct (waiting s)" "set (waiting s) \<inter> holders s = {}"
    and "rw_waiters s \<noteq> [] \<Longrightarrow> activity s \<noteq> 0"
    and "rw_waiters s \<noteq> [] \<Longrightarrow> activity s > 0 \<Longrightarrow> snd (hd (rw_waiters s)) = RWSEM_WAITING_FOR_WRITE"
    and "activity s \<ge> -1"
  using assms by (auto simp: rw_inv_def rw_queue_def rw_excl_def)

lemma rw_inv_reading:
  assumes "rw_inv s" "activity s \<ge> 0 \<or> t \<in> readers s"
  shows "activity s = int (card (readers s))" "finite (readers s)" "writers s = {}"
  using assms by (auto simp: rw_inv_def rw_excl_def)

lemma rw_inv_writing:
  assumes "rw_inv s" "t \<in> writers s"
  shows "activity s = -1" "readers s = {}" "writers s = {t}"
  using assms by (auto simp: rw_inv_def rw_excl_def)

lemma enqueue_inv:
  assumes "rw_inv s" "idle t s" "activity s \<noteq> 0" "rw_waiters s = [] \<Longrightarrow> activity s > 0 \<Longrightarrow> f = RWSEM_WAITING_FOR_WRITE"
  shows "rw_inv (s\<lparr>rw_waiters := rw_waiters s @ [(t, f)]\<rparr>)"
  using assms by (auto simp: rw_inv_def rw_excl_def rw_queue_def waiting_def holders_def idle_def hd_append)

lemma take_read_inv:
  assumes "rw_inv s" "idle t s" "activity s \<ge> 0" "rw_waiters s = []"
  shows "rw_inv (s\<lparr>activity := activity s + 1, readers := insert t (readers s)\<rparr>)"
  using assms by (auto simp: rw_inv_def rw_excl_def rw_queue_def waiting_def holders_def idle_def)

lemma take_write_inv:
  assumes "rw_inv s" "activity s = 0" "rw_waiters s = []"
  shows "rw_inv (s\<lparr>activity := -1, writers := insert t (writers s)\<rparr>)"
  using assms by (auto simp: rw_inv_def rw_excl_def rw_queue_def waiting_def holders_def)

lemma down_inv:
  assumes "rw_inv s" "idle t s"
  shows "rw_inv (down_read t s)" "rw_inv (snd (down_read_trylock t s))"
    and "rw_inv (down_write t s)" "rw_inv (snd (down_write_trylock t s))"
proof -
  note i = rw_invD [OF assms(1)]
  show "rw_inv (down_read t s)"
  proof (cases "activity s \<ge> 0 \<and> rw_waiters s = []")
    case True
    then show ?thesis using assms take_read_inv by (simp add: down_read_def)
  next
    case False
    then show ?thesis using i enqueue_inv [OF assms, of RWSEM_WAITING_FOR_READ] by (auto simp: down_read_def)
  qed
  show "rw_inv (snd (down_read_trylock t s))"
    using assms take_read_inv by (simp add: down_read_trylock_def)
  show "rw_inv (down_write t s)"
    using assms i take_write_inv enqueue_inv by (auto simp: down_write_def)
  show "rw_inv (snd (down_write_trylock t s))"
    using assms take_write_inv by (simp add: down_write_trylock_def)
qed

lemma up_read_inv:
  assumes "rw_inv s" "t \<in> readers s"
  shows "rw_inv (up_read t s)"
proof -
  note i = rw_invD [OF assms(1)] and r = rw_inv_reading [OF assms(1) disjI2 [OF assms(2)]]
  have pos: "activity s > 0" using r assms(2) card_gt_0_iff [of "readers s"] by auto
  have card: "int (card (readers s - {t})) = activity s - 1"
    using r assms(2) pos by (simp add: card_Diff_singleton of_nat_diff)
  show ?thesis
  proof (cases "activity s = 1 \<and> rw_waiters s \<noteq> []")
    case True
    then obtain u xs where u: "rw_waiters s = (u, RWSEM_WAITING_FOR_WRITE) # xs"
      using i(4) pos by (cases "rw_waiters s") auto
    have "readers s - {t} = {}" using card True r(2) by simp
    then show ?thesis
      using wake_writer_inv [of "s\<lparr>activity := 0, readers := readers s - {t}\<rparr>" u xs] u r(3) i(1) True
      by (simp add: up_read_def rwsem_wake_one_writer_def waiting_def)
  next
    case False
    have "set (waiting s) \<inter> (readers s - {t}) = {}" using i(2) by (auto simp: holders_def)
    moreover have "up_read t s = s\<lparr>activity := activity s - 1, readers := readers s - {t}\<rparr>"
      using False by (auto simp: up_read_def)
    ultimately show ?thesis
      using i card r pos False
      by (auto simp: rw_inv_def rw_excl_def rw_queue_def waiting_def holders_def)
  qed
qed

lemma rwsem_do_wake_cases:
  assumes "rw_waiters s = x # xs"
  shows "snd x = RWSEM_WAITING_FOR_WRITE \<Longrightarrow>
      rwsem_do_wake w s = (if w then grant x (s\<lparr>activity := -1, rw_waiters := xs\<rparr>) else s)"
    and "is_reader x \<Longrightarrow> rwsem_do_wake w s = wake_readers (x # xs) 0 s"
  using assms by (simp_all add: rwsem_do_wake_def)

lemma up_write_inv:
  assumes "rw_inv s" "t \<in> writers s"
  shows "rw_inv (up_write t s)"
proof (cases "rw_waiters s")
  case Nil
  then show ?thesis using rw_inv_writing [OF assms]
    by (simp add: up_write_def rw_inv_def rw_excl_def rw_queue_def waiting_def holders_def)
next
  case (Cons x xs)
  define s1 where "s1 = s\<lparr>activity := 0, writers := writers s - {t}\<rparr>"
  note w = rw_inv_writing [OF assms] and i = rw_invD(1,2) [OF assms(1)]
  have e: "up_write t s = rwsem_do_wake True s1" using Cons by (simp add: up_write_def s1_def)
  have s1: "activity s1 = 0" "readers s1 = {}" "writers s1 = {}" "rw_waiters s1 = x # xs" "waiting s1 = waiting s"
    using w Cons by (simp_all add: s1_def waiting_def)
  show ?thesis
  proof (cases "is_reader x")
    case True
    then show ?thesis
      using wake_readers_inv [of s1 "x # xs"] s1 i(1) Cons rwsem_do_wake_cases(2) [OF s1(4) True] e
      by (simp add: waiting_def del: wake_readers.simps)
  next
    case False
    then have f: "snd x = RWSEM_WAITING_FOR_WRITE" by simp
    then have "x = (fst x, RWSEM_WAITING_FOR_WRITE)" by (simp add: prod_eq_iff)
    with f show ?thesis
      using wake_writer_inv [of s1 "fst x" xs] s1 i(1) rwsem_do_wake_cases(1) [OF s1(4) f, of True] e by simp
  qed
qed

lemma downgrade_write_inv:
  assumes "rw_inv s" "t \<in> writers s"
  shows "rw_inv (downgrade_write t s)"
proof -
  define s1 where "s1 = s\<lparr>activity := 1, writers := writers s - {t}, readers := insert t (readers s)\<rparr>"
  note w = rw_inv_writing [OF assms] and i = rw_invD(1,2) [OF assms(1)]
  have s1: "activity s1 = 1" "readers s1 = {t}" "writers s1 = {}" "rw_waiters s1 = rw_waiters s" "waiting s1 = waiting s"
    using w by (simp_all add: s1_def waiting_def)
  have e: "downgrade_write t s = (if rw_waiters s \<noteq> [] then rwsem_do_wake False s1 else s1)"
    by (simp add: downgrade_write_def s1_def)
  have d: "t \<notin> set (waiting s)" using i(2) w by (auto simp: holders_def)
  show ?thesis
  proof (cases "rw_waiters s = [] \<or> \<not> is_reader (hd (rw_waiters s))")
    case True
    then have "downgrade_write t s = s1"
      using e rwsem_do_wake_cases(1) [of s1 "hd (rw_waiters s)" "tl (rw_waiters s)" False] s1(4)
      by (cases "rw_waiters s") auto
    then show ?thesis using s1 i(1) d True by (auto simp: rw_inv_def rw_excl_def rw_queue_def holders_def)
  next
    case False
    then obtain x xs where x: "rw_waiters s = x # xs" "is_reader x"
      by (cases "rw_waiters s"; cases "snd (hd (rw_waiters s))") auto
    have "fst ` set (x # xs) \<inter> readers s1 = {}" using d x s1 by (auto simp: waiting_def)
    then show ?thesis
      using wake_readers_inv [of s1 "x # xs"] s1 i(1) x rwsem_do_wake_cases(2) [of s1 x xs False] e
      by (simp add: waiting_def del: wake_readers.simps)
  qed
qed

lemma rw_step_inv: "rw_step s e s' \<Longrightarrow> rw_inv s \<Longrightarrow> rw_inv s'"
  by (cases e) (auto simp: rw_step_simps down_inv up_read_inv up_write_inv downgrade_write_inv)

lemma rw_reach_inv: "rw_reach s \<Longrightarrow> rw_inv s"
  by (induction rule: rw_reach.induct) (auto intro: init_rwsem_inv rw_step_inv)

section \<open>Service\<close>

text \<open>
  The effect of any call on the queue: a prefix \<open>g\<close> of it is granted what it
  asked for, at most the caller is appended, and while somebody waits nobody else
  gets the semaphore.
\<close>

fun released :: "rw_op \<Rightarrow> nat set" where
  "released (Up_read t) = {t}"
| "released (Up_write t) = {t}"
| "released _ = {}"

definition has_lock :: "rw_semaphore \<Rightarrow> nat \<times> rw_flag \<Rightarrow> bool" where
  "has_lock s x \<longleftrightarrow> (case snd x of RWSEM_WAITING_FOR_READ \<Rightarrow> fst x \<in> readers s | RWSEM_WAITING_FOR_WRITE \<Rightarrow> fst x \<in> writers s)"

definition served :: "rw_op \<Rightarrow> rw_semaphore \<Rightarrow> rw_semaphore \<Rightarrow> bool" where
  "served e s s' \<longleftrightarrow> (\<exists>g r n new.
     rw_waiters s = g @ r \<and> rw_waiters s' = r @ n \<and> list_all (has_lock s') g \<and>
     holders s' = (holders s - released e) \<union> fst ` set g \<union> new \<and> (rw_waiters s \<noteq> [] \<longrightarrow> new = {}))"

lemma servedI:
  assumes "rw_waiters s = g @ r" "rw_waiters s' = r @ n" "list_all (has_lock s') g"
    and "holders s' = (holders s - released e) \<union> fst ` set g \<union> new" "rw_waiters s \<noteq> [] \<Longrightarrow> new = {}"
  shows "served e s s'"
  unfolding served_def using assms by blast

lemma served_down:
  "served (Down_read t) s (down_read t s)" "served (Down_read_trylock t) s (snd (down_read_trylock t s))"
  "served (Down_write t) s (down_write t s)" "served (Down_write_trylock t) s (snd (down_write_trylock t s))"
proof -
  have q: "served e s s'" if "released e = {}" "holders s' = holders s" "rw_waiters s' = rw_waiters s @ n" for e s' n
    by (rule servedI [of s "[]" "rw_waiters s" s' n e "{}"]) (use that in simp_all)
  have g: "served e s s'" if "released e = {}" "holders s' = insert t (holders s)" "rw_waiters s' = []" "rw_waiters s = []" for e s'
    by (rule servedI [of s "[]" "[]" s' "[]" e "{t}"]) (use that in simp_all)
  show "served (Down_read t) s (down_read t s)"
    by (cases "activity s \<ge> 0 \<and> rw_waiters s = []") (auto simp: down_read_def holders_def intro: g q)
  show "served (Down_read_trylock t) s (snd (down_read_trylock t s))"
    by (cases "activity s \<ge> 0 \<and> rw_waiters s = []") (auto simp: down_read_trylock_def holders_def intro: g q)
  show "served (Down_write t) s (down_write t s)"
    by (cases "activity s = 0 \<and> rw_waiters s = []") (auto simp: down_write_def holders_def intro: g q)
  show "served (Down_write_trylock t) s (snd (down_write_trylock t s))"
    by (cases "activity s = 0 \<and> rw_waiters s = []") (auto simp: down_write_trylock_def holders_def intro: g q)
qed

lemma served_no_wake:
  "holders s1 = holders s - released e \<Longrightarrow> rw_waiters s1 = rw_waiters s \<Longrightarrow> served e s s1"
  by (rule servedI [of s "[]" "rw_waiters s" s1 "[]" e "{}"]) simp_all

lemma served_do_wake:
  assumes "holders s1 = holders s - released e" "rw_waiters s1 = rw_waiters s" "rw_waiters s \<noteq> []"
  shows "served e s (rwsem_do_wake w s1)"
proof -
  obtain x xs where x: "rw_waiters s1 = x # xs" using assms(2,3) by (metis neq_Nil_conv)
  consider "is_reader x" | "snd x = RWSEM_WAITING_FOR_WRITE" "w" | "snd x = RWSEM_WAITING_FOR_WRITE" "\<not> w"
    by (cases "snd x") auto
  then show ?thesis
  proof cases
    case 1
    let ?g = "takeWhile is_reader (x # xs)" and ?s' = "wake_readers (x # xs) 0 s1"
    have "list_all (has_lock ?s') ?g"
      by (force simp: list_all_iff has_lock_def wake_readers_fields split: rw_flag.split dest: set_takeWhileD
          simp del: wake_readers.simps takeWhile.simps)
    then have "served e s ?s'"
      by (intro servedI [of s ?g "dropWhile is_reader (x # xs)" ?s' "[]" e "{}"])
        (use assms x in \<open>auto simp: holders_def wake_readers_fields simp del: wake_readers.simps takeWhile.simps dropWhile.simps\<close>)
    then show ?thesis using rwsem_do_wake_cases(2) [OF x 1] by simp
  next
    case 2
    let ?s' = "grant x (s1\<lparr>activity := -1, rw_waiters := xs\<rparr>)"
    have "served e s ?s'"
      by (rule servedI [of s "[x]" xs ?s' "[]" e "{}"])
        (use assms x 2 in \<open>auto simp: holders_def grant_def has_lock_def\<close>)
    then show ?thesis using rwsem_do_wake_cases(1) [OF x 2(1)] 2 by simp
  next
    case 3
    then show ?thesis using rwsem_do_wake_cases(1) [OF x 3(1)] served_no_wake [OF assms(1,2)] by simp
  qed
qed

text \<open>The head that \<open>up_read\<close> wakes without a look at its flags is a writer.\<close>

lemma wake_one_writer_eq:
  assumes "rw_waiters s \<noteq> []" "snd (hd (rw_waiters s)) = RWSEM_WAITING_FOR_WRITE"
  shows "rwsem_wake_one_writer s = rwsem_do_wake True s"
  using assms by (simp add: rwsem_wake_one_writer_def rwsem_do_wake_def)

lemma up_read_eq:
  assumes "rw_inv s" "t \<in> readers s"
  defines "s1 \<equiv> s\<lparr>activity := activity s - 1, readers := readers s - {t}\<rparr>"
  shows "up_read t s = (if activity s = 1 \<and> rw_waiters s \<noteq> [] then rwsem_do_wake True s1 else s1)"
proof -
  have "rwsem_wake_one_writer s1 = rwsem_do_wake True s1" if "activity s = 1" "rw_waiters s \<noteq> []"
    using wake_one_writer_eq [of s1] rw_invD(4) [OF assms(1)] that by (simp add: s1_def)
  then show ?thesis by (auto simp: up_read_def Let_def s1_def)
qed

lemma served_release:
  assumes "holders s1 = holders s - released e" "rw_waiters s1 = rw_waiters s"
  shows "served e s (if b \<and> rw_waiters s \<noteq> [] then rwsem_do_wake w s1 else s1)"
  using served_do_wake [OF assms] served_no_wake [OF assms] by simp

lemma served_up:
  assumes "rw_inv s"
  shows "t \<in> readers s \<Longrightarrow> served (Up_read t) s (up_read t s)"
    and "t \<in> writers s \<Longrightarrow> served (Up_write t) s (up_write t s)"
    and "t \<in> writers s \<Longrightarrow> served (Downgrade_write t) s (downgrade_write t s)"
proof -
  show "served (Up_read t) s (up_read t s)" if t: "t \<in> readers s"
  proof -
    have "holders (s\<lparr>activity := activity s - 1, readers := readers s - {t}\<rparr>) = holders s - {t}"
      using rw_inv_reading(3) [OF assms disjI2 [OF t]] by (auto simp: holders_def)
    then show ?thesis unfolding up_read_eq [OF assms t] by (intro served_release) simp_all
  qed
  show "served (Up_write t) s (up_write t s)" if t: "t \<in> writers s"
  proof -
    have "holders (s\<lparr>activity := 0, writers := writers s - {t}\<rparr>) = holders s - {t}"
      using rw_inv_writing [OF assms t] by (simp add: holders_def)
    then show ?thesis using served_release [where b = True] by (simp add: up_write_def Let_def)
  qed
  show "served (Downgrade_write t) s (downgrade_write t s)" if t: "t \<in> writers s"
  proof -
    have "holders (s\<lparr>activity := 1, writers := writers s - {t}, readers := insert t (readers s)\<rparr>) = holders s"
      using rw_inv_writing [OF assms t] by (simp add: holders_def)
    then show ?thesis using served_release [where b = True] by (simp add: downgrade_write_def Let_def)
  qed
qed

lemma rw_step_served: "rw_step s e s' \<Longrightarrow> rw_inv s \<Longrightarrow> served e s s'"
  by (cases e) (auto simp: rw_step_simps served_down served_up)

subsection \<open>Bounded waiting\<close>

definition rw_ahead :: "nat \<Rightarrow> rw_semaphore \<Rightarrow> nat" where
  "rw_ahead t s = length (takeWhile (\<lambda>u. u \<noteq> t) (waiting s))"

text \<open>A run through which task \<open>t\<close> waits all the time, with the number of releases in it.\<close>

inductive rw_waits :: "nat \<Rightarrow> rw_semaphore \<Rightarrow> nat \<Rightarrow> rw_semaphore \<Rightarrow> bool" for t s0 where
  refl: "t \<in> set (waiting s0) \<Longrightarrow> rw_waits t s0 0 s0"
| step: "rw_waits t s0 n s \<Longrightarrow> rw_step s e s' \<Longrightarrow> t \<in> set (waiting s') \<Longrightarrow>
    rw_waits t s0 (n + card (released e)) s'"

lemma takeWhile_neq_append:
  "t \<notin> set xs \<Longrightarrow> t \<in> set ys \<Longrightarrow>
   length (takeWhile (\<lambda>u. u \<noteq> t) (xs @ ys @ zs)) = length xs + length (takeWhile (\<lambda>u. u \<noteq> t) ys)"
  by (induction xs) (auto simp: takeWhile_append1)

lemma released_holder: "allowed e s \<Longrightarrow> released e \<subseteq> holders s"
  by (cases e) (auto simp: holders_def)

lemma rw_inv_finite: "rw_inv s \<Longrightarrow> finite (holders s)"
  by (auto simp: rw_inv_def rw_excl_def holders_def)

lemma holders_pos: "rw_inv s \<Longrightarrow> rw_waiters s \<noteq> [] \<Longrightarrow> 0 < card (holders s)"
  using rw_inv_finite [of s] by (auto simp: rw_inv_def rw_excl_def rw_queue_def holders_def card_gt_0_iff)

text \<open>While \<open>t\<close> waits, holders plus tasks ahead of it shrink by one with every release and never grow.\<close>

lemma rw_step_measure:
  assumes "rw_inv s" "rw_step s e s'" "t \<in> set (waiting s)" "t \<in> set (waiting s')"
  shows "card (holders s') + rw_ahead t s' + card (released e) = card (holders s) + rw_ahead t s"
proof -
  have ne: "rw_waiters s \<noteq> []" using assms(3) by (auto simp: waiting_def)
  obtain g r n where g: "rw_waiters s = g @ r" "rw_waiters s' = r @ n"
      "holders s' = (holders s - released e) \<union> fst ` set g"
    using rw_step_served [OF assms(2,1)] ne unfolding served_def by auto
  have inv': "rw_inv s'" by (rule rw_step_inv [OF assms(2,1)])
  have d: "distinct (map fst g)" "fst ` set g \<inter> holders s = {}"
    using rw_invD(1,2) [OF assms(1)] g(1) by (auto simp: waiting_def)
  have "t \<notin> fst ` set g" using rw_invD(2) [OF inv'] assms(4) g(3) by auto
  then have t: "t \<notin> set (map fst g)" "t \<in> set (map fst r)"
    using assms(3) g(1) by (auto simp: waiting_def)
  have a: "rw_ahead t s = length g + length (takeWhile (\<lambda>u. u \<noteq> t) (map fst r))"
    "rw_ahead t s' = length (takeWhile (\<lambda>u. u \<noteq> t) (map fst r))"
    using takeWhile_neq_append [OF t, of "[]"] takeWhile_neq_append [of t "[]", OF _ t(2), of "map fst n"] g(1,2)
    by (simp_all add: rw_ahead_def waiting_def)
  have rel: "released e \<subseteq> holders s" using released_holder assms(2) by (auto simp: rw_step_simps)
  note fin = rw_inv_finite [OF assms(1)]
  have "card (holders s') = card (holders s - released e) + card (fst ` set g)"
    unfolding g(3) by (rule card_Un_disjoint) (use fin d(2) in auto)
  moreover have "card (fst ` set g) = length g" using distinct_card [OF d(1)] by simp
  moreover have "card (holders s - released e) + card (released e) = card (holders s)"
    using card_Diff_subset [OF finite_subset [OF rel fin] rel] card_mono [OF fin rel] by simp
  ultimately show ?thesis using a by simp
qed

lemma rw_waits_measure:
  "rw_waits t s0 n s \<Longrightarrow> rw_inv s0 \<Longrightarrow>
   rw_inv s \<and> t \<in> set (waiting s) \<and> card (holders s) + rw_ahead t s + n = card (holders s0) + rw_ahead t s0"
proof (induction rule: rw_waits.induct)
  case (step n s e s')
  then show ?case using rw_step_measure [of s e s' t] rw_step_inv [of s e s'] by simp
qed simp

section \<open>Properties\<close>

text \<open>
  C28: In every interleaving of the calls, a writer excludes everybody else;
  \<open>activity\<close> is -1 exactly while somebody writes and otherwise the number
  of readers; a queue is never left behind a free semaphore; and the waiter that
  \<open>up_read\<close> wakes as a writer is one.
\<close>

theorem rwsem_mutual_exclusion:
  assumes "rw_reach s"
  shows "card (writers s) \<le> 1 \<and> (writers s \<noteq> {} \<longrightarrow> readers s = {}) \<and>
         activity s = (if writers s \<noteq> {} then -1 else int (card (readers s))) \<and>
         (rw_waiters s \<noteq> [] \<longrightarrow> holders s \<noteq> {}) \<and>
         (readers s \<noteq> {} \<longrightarrow> rw_waiters s \<noteq> [] \<longrightarrow> snd (hd (rw_waiters s)) = RWSEM_WAITING_FOR_WRITE)"
proof -
  have inv: "rw_inv s" by (rule rw_reach_inv [OF assms])
  then have ex: "rw_excl s" by (simp add: rw_inv_def)
  have "card (writers s) \<le> 1" "writers s \<noteq> {} \<longrightarrow> readers s = {}"
    "activity s = (if writers s \<noteq> {} then -1 else int (card (readers s)))"
    using ex by (auto simp: rw_excl_def)
  moreover have "rw_waiters s \<noteq> [] \<longrightarrow> holders s \<noteq> {}" using holders_pos [OF inv] by auto
  moreover have "readers s \<noteq> {} \<longrightarrow> rw_waiters s \<noteq> [] \<longrightarrow> snd (hd (rw_waiters s)) = RWSEM_WAITING_FOR_WRITE"
    using rw_invD(4) [OF inv] ex card_gt_0_iff [of "readers s"] by (auto simp: rw_excl_def)
  ultimately show ?thesis by blast
qed

text \<open>
  C29: Service is first come, first served and waiting is bounded.  Each call
  grants a prefix of the queue what it asked for and, while somebody waits, gives
  the semaphore to nobody else; so a task that waits is passed over by at most as
  many releases as there are holders and tasks ahead of it, less one.
\<close>

theorem rwsem_bounded_waiting:
  assumes "rw_reach s0" "rw_waits t s0 n s" "rw_step s e s'"
  shows "n < card (holders s0) + rw_ahead t s0 \<and> served e s s' \<and> (t \<notin> set (waiting s') \<longrightarrow> t \<in> holders s')"
proof -
  have m: "rw_inv s" "t \<in> set (waiting s)" "card (holders s) + rw_ahead t s + n = card (holders s0) + rw_ahead t s0"
    using rw_waits_measure [OF assms(2) rw_reach_inv [OF assms(1)]] by blast+
  have "0 < card (holders s)" using holders_pos [OF m(1)] m(2) by (cases "rw_waiters s") (auto simp: waiting_def)
  with m(3) have "n < card (holders s0) + rw_ahead t s0" by simp
  moreover have sv: "served e s s'" by (rule rw_step_served [OF assms(3) m(1)])
  moreover have "t \<notin> set (waiting s') \<longrightarrow> t \<in> holders s'"
    using sv m(2) unfolding served_def waiting_def by (elim exE conjE) (simp add: image_Un, blast)
  ultimately show ?thesis by blast
qed

definition rw_contended :: rw_semaphore where
  "rw_contended = \<lparr>activity = 1, rw_waiters = [(2, RWSEM_WAITING_FOR_WRITE)], readers = {1}, writers = {}\<rparr>"

lemma rw_contended_reach: "rw_reach rw_contended"
proof -
  have 1: "rw_reach (perform (Down_read 1) init_rwsem)"
    by (rule rw_reach.step [OF rw_reach.start rw_step.intros])
      (simp add: idle_def init_rwsem_def waiting_def holders_def)
  have "rw_reach (perform (Down_write 2) (perform (Down_read 1) init_rwsem))"
    by (rule rw_reach.step [OF 1 rw_step.intros])
      (simp add: idle_def init_rwsem_def waiting_def holders_def down_read_def)
  then show ?thesis by (simp add: down_read_def down_write_def init_rwsem_def rw_contended_def)
qed

theorem rwsem_mutual_exclusion_witness:
  "rw_reach rw_contended \<and> card (writers rw_contended) \<le> 1 \<and> holders rw_contended \<noteq> {}"
  using rwsem_mutual_exclusion [OF rw_contended_reach] rw_contended_reach by (auto simp: rw_contended_def)

theorem rwsem_bounded_waiting_witness:
  "0 < card (holders rw_contended) + rw_ahead 2 rw_contended \<and> 2 \<in> holders (up_read 1 rw_contended)"
proof -
  have w: "rw_waits 2 rw_contended 0 rw_contended"
    by (rule rw_waits.refl) (simp add: rw_contended_def waiting_def)
  have st: "rw_step rw_contended (Up_read 1) (up_read 1 rw_contended)"
    using rw_step.intros [of "Up_read 1" rw_contended] by (simp add: rw_contended_def)
  have q: "2 \<notin> set (waiting (up_read 1 rw_contended))"
    by (simp add: rw_contended_def up_read_def rwsem_wake_one_writer_def grant_def waiting_def)
  show ?thesis using rwsem_bounded_waiting [OF rw_contended_reach w st] q by simp
qed

end
