(* ===== verification/Resource.thy ===== *)
theory Resource
  imports Prelude "HOL-Library.Multiset"
begin

text \<open>
  kernel/resource.c: the trees of I/O port and memory regions.  A node has its
  inclusive range, its flags and the list of its children; the \<open>parent\<close> and
  \<open>sibling\<close> pointers of \<open>struct resource\<close> are the shape of the tree,
  and \<open>rid\<close> stands for the address of a node.  Ranges are of the 32-bit type
  \<open>resource_size_t\<close> and wrap.  Every function runs under \<open>resource_lock\<close>,
  so that its body is one atomic step.
\<close>

section \<open>Data\<close>

datatype resource =
  Res (rid: nat) (rname: string) (rstart: u32) (rend: u32) (rflags: u32) (child: "resource list")

definition set_child :: "resource list \<Rightarrow> resource \<Rightarrow> resource" where
  "set_child cs r = Res (rid r) (rname r) (rstart r) (rend r) (rflags r) cs"

definition set_range :: "u32 \<Rightarrow> u32 \<Rightarrow> resource \<Rightarrow> resource" where
  "set_range s e r = Res (rid r) (rname r) s e (rflags r) (child r)"

definition IORESOURCE_IO :: u32 where "IORESOURCE_IO = 0x100"
definition IORESOURCE_MEM :: u32 where "IORESOURCE_MEM = 0x200"
definition IORESOURCE_SIZEALIGN :: u32 where "IORESOURCE_SIZEALIGN = 0x20000"
definition IORESOURCE_STARTALIGN :: u32 where "IORESOURCE_STARTALIGN = 0x40000"
definition IORESOURCE_EXCLUSIVE :: u32 where "IORESOURCE_EXCLUSIVE = 0x08000000"
definition IORESOURCE_BUSY :: u32 where "IORESOURCE_BUSY = 0x80000000"

definition busy :: "resource \<Rightarrow> bool" where
  "busy r \<longleftrightarrow> rflags r AND IORESOURCE_BUSY \<noteq> 0"

definition iomem_resource :: resource where
  "iomem_resource = Res 0 ''PCI mem'' 0 (- 1) IORESOURCE_MEM []"

text \<open>The order in which \<open>r_next\<close> visits the nodes.\<close>

fun preorder :: "resource \<Rightarrow> resource list" where
  "preorder (Res i nm s e f cs) = Res i nm s e f cs # concat (map preorder cs)"

definition descendants :: "resource \<Rightarrow> resource list" where
  "descendants r = concat (map preorder (child r))"

text \<open>The address that \<open>kzalloc\<close> returns is not in use in the tree.\<close>

definition fresh_id :: "resource \<Rightarrow> nat" where
  "fresh_id r = Suc (foldr max (map rid (preorder r)) 0)"

section \<open>Requesting and releasing\<close>

text \<open>
  \<open>__request_resource\<close>: the conflict is \<open>root\<close> itself or one of its
  children, named by its position.
\<close>

datatype conflict = Root | Child nat

fun request_children :: "resource \<Rightarrow> resource list \<Rightarrow> nat + resource list" where
  "request_children new [] = Inr [new]"
| "request_children new (t # ts) =
     (if rstart t > rend new then Inr (new # t # ts)
      else if rend t < rstart new
           then (case request_children new ts of Inl k \<Rightarrow> Inl (Suc k) | Inr l \<Rightarrow> Inr (t # l))
      else Inl 0)"

definition request_resource_locked :: "resource \<Rightarrow> resource \<Rightarrow> conflict + resource" where
  "request_resource_locked root new =
     (if rend new < rstart new then Inl Root
      else if rstart new < rstart root then Inl Root
      else if rend new > rend root then Inl Root
      else case request_children new (child root) of
             Inl k \<Rightarrow> Inl (Child k)
           | Inr cs \<Rightarrow> Inr (set_child cs root))"

definition request_resource :: "resource \<Rightarrow> resource \<Rightarrow> int \<times> resource" where
  "request_resource root new =
     (case request_resource_locked root new of Inl _ \<Rightarrow> (-EBUSY, root) | Inr r \<Rightarrow> (0, r))"

text \<open>
  Applies an operation to the parent of the node with a given address and the
  node's position below it; None when no node has that address (\<open>parent\<close> is
  NULL and the C code faults).
\<close>

fun position :: "nat \<Rightarrow> resource list \<Rightarrow> nat option" where
  "position i [] = None"
| "position i (r # rs) = (if rid r = i then Some 0 else map_option Suc (position i rs))"

fun at_parent :: "nat \<Rightarrow> (resource \<Rightarrow> nat \<Rightarrow> int \<times> resource) \<Rightarrow> resource \<Rightarrow> (int \<times> resource) option"
  and at_parent_list :: "nat \<Rightarrow> (resource \<Rightarrow> nat \<Rightarrow> int \<times> resource) \<Rightarrow> resource list \<Rightarrow> (int \<times> resource list) option" where
  "at_parent i f (Res j nm s e fl cs) =
     (case position i cs of
        Some k \<Rightarrow> Some (f (Res j nm s e fl cs) k)
      | None \<Rightarrow> map_option (\<lambda>(x, cs'). (x, Res j nm s e fl cs')) (at_parent_list i f cs))"
| "at_parent_list i f [] = None"
| "at_parent_list i f (r # rs) =
     (case at_parent i f r of
        Some (x, r') \<Rightarrow> Some (x, r' # rs)
      | None \<Rightarrow> map_option (\<lambda>(x, rs'). (x, r # rs')) (at_parent_list i f rs))"

definition release_resource_locked :: "resource \<Rightarrow> nat \<Rightarrow> int \<times> resource" where
  "release_resource_locked parent k = (0, set_child (take k (child parent) @ drop (Suc k) (child parent)) parent)"

definition release_resource :: "nat \<Rightarrow> resource \<Rightarrow> (int \<times> resource) option" where
  "release_resource old root = at_parent old release_resource_locked root"

section \<open>Inserting\<close>

text \<open>
  The run of siblings, from the first conflict on, that the new resource covers:
  its length, or the position of a node that overlaps it only in part.
\<close>

fun covered_run :: "resource \<Rightarrow> resource list \<Rightarrow> nat + nat" where
  "covered_run new [] = Inr 0"
| "covered_run new (n # ns) =
     (if rstart n < rstart new \<or> rend n > rend new then Inl 0
      else if ns = [] \<or> rstart (hd ns) > rend new then Inr 1
      else case covered_run new ns of Inl k \<Rightarrow> Inl (Suc k) | Inr m \<Rightarrow> Inr (Suc m))"

definition take_over :: "resource \<Rightarrow> resource \<Rightarrow> nat \<Rightarrow> resource + resource" where
  "take_over parent new k =
     (case covered_run new (drop k (child parent)) of
        Inl j \<Rightarrow> Inl (child parent ! (k + j))
      | Inr m \<Rightarrow> Inr (set_child (take k (child parent)
                    @ set_child (take m (drop k (child parent))) new # drop (k + m) (child parent)) parent))"

lemma request_children_index: "request_children new cs = Inl k \<Longrightarrow> k < length cs"
  by (induction new cs arbitrary: k rule: request_children.induct) (auto split: if_splits sum.splits)

lemma request_index: "request_resource_locked p new = Inl (Child k) \<Longrightarrow> k < length (child p)"
  by (auto simp: request_resource_locked_def intro: request_children_index split: if_splits sum.splits)

lemma size_child [simp]: "k < length (child p) \<Longrightarrow> size (child p ! k) < size p"
  by (cases p) (auto simp: less_Suc_eq_le intro: size_list_estimation' nth_mem)

text \<open>
  \<open>__insert_resource\<close>, descending while one child covers the new resource.
  The conflict that it returns is the node; None is the conflict with the node the
  search started from.
\<close>

function insert_resource_locked :: "resource \<Rightarrow> resource \<Rightarrow> resource option + resource" where
  "insert_resource_locked parent new =
     (case request_resource_locked parent new of
        Inr p \<Rightarrow> Inr p
      | Inl Root \<Rightarrow> Inl None
      | Inl (Child k) \<Rightarrow>
          let first = child parent ! k
          in if rstart first > rstart new \<or> rend first < rend new \<or>
                rstart first = rstart new \<and> rend first = rend new
             then (case take_over parent new k of Inl c \<Rightarrow> Inl (Some c) | Inr p \<Rightarrow> Inr p)
             else (case insert_resource_locked first new of
                     Inl None \<Rightarrow> Inl (Some first)
                   | Inl (Some c) \<Rightarrow> Inl (Some c)
                   | Inr f \<Rightarrow> Inr (set_child ((child parent)[k := f]) parent)))"
  by pat_completeness auto
termination
  by (relation "measure (\<lambda>(p, _). size p)") (auto dest: request_index)

declare insert_resource_locked.simps [simp del]

definition insert_resource :: "resource \<Rightarrow> resource \<Rightarrow> int \<times> resource" where
  "insert_resource parent new =
     (case insert_resource_locked parent new of Inl _ \<Rightarrow> (-EBUSY, parent) | Inr p \<Rightarrow> (0, p))"

text \<open>The loop of \<open>insert_resource_expand_to_fit\<close>; it returns the tree and the new resource.\<close>

definition expand :: "resource \<Rightarrow> resource \<Rightarrow> resource" where
  "expand c new = set_range (if rstart c < rstart new then rstart c else rstart new)
                            (if rend c > rend new then rend c else rend new) new"

partial_function (option) expand_loop :: "resource \<Rightarrow> resource \<Rightarrow> (resource \<times> resource) option" where
  "expand_loop root new =
     (case insert_resource_locked root new of
        Inr r \<Rightarrow> Some (r, new)
      | Inl None \<Rightarrow> Some (root, new)
      | Inl (Some c) \<Rightarrow> expand_loop root (expand c new))"

definition insert_resource_expand_to_fit :: "bool \<Rightarrow> resource \<Rightarrow> resource \<Rightarrow> (resource \<times> resource) option" where
  "insert_resource_expand_to_fit has_parent root new =
     (if has_parent then Some (root, new) else expand_loop root new)"

definition adjust_resource_locked :: "u32 \<Rightarrow> u32 \<Rightarrow> resource \<Rightarrow> nat \<Rightarrow> int \<times> resource" where
  "adjust_resource_locked start sz parent k =
     (let en = start + sz - 1; res = child parent ! k
      in if start < rstart parent \<or> en > rend parent then (-EBUSY, parent)
         else if list_ex (\<lambda>c. rstart c < start \<or> rend c > en) (child res) then (-EBUSY, parent)
         else if Suc k < length (child parent) \<and> rstart (child parent ! Suc k) \<le> en then (-EBUSY, parent)
         else if k \<noteq> 0 \<and> start \<le> rend (child parent ! (k - 1)) then (-EBUSY, parent)
         else (0, set_child ((child parent)[k := set_range start en res]) parent))"

definition adjust_resource :: "nat \<Rightarrow> u32 \<Rightarrow> u32 \<Rightarrow> resource \<Rightarrow> (int \<times> resource) option" where
  "adjust_resource res start sz root = at_parent res (adjust_resource_locked start sz) root"

text \<open>
  \<open>__reserve_region_with_split\<close>: the recursion is not bounded by the code, so
  that None is a recursion that never ends.  \<open>alloc n\<close> is the outcome of the
  \<open>n\<close>-th \<open>kzalloc\<close>; the count of calls is threaded through.
\<close>

definition region :: "nat \<Rightarrow> string \<Rightarrow> u32 \<Rightarrow> u32 \<Rightarrow> u32 \<Rightarrow> resource" where
  "region i nm s e fl = Res i nm s e fl []"

definition conflict_node :: "resource \<Rightarrow> conflict \<Rightarrow> resource" where
  "conflict_node root c = (case c of Root \<Rightarrow> root | Child k \<Rightarrow> child root ! k)"

partial_function (option) reserve_split ::
  "(nat \<Rightarrow> bool) \<Rightarrow> string \<Rightarrow> u32 \<Rightarrow> u32 \<Rightarrow> nat \<times> resource \<Rightarrow> (nat \<times> resource) option" where
  "reserve_split alloc nm start en st =
     (case st of (n, root) \<Rightarrow>
        if \<not> alloc n then Some (Suc n, root)
        else case request_resource_locked root (region (fresh_id root) nm start en IORESOURCE_BUSY) of
          Inr r \<Rightarrow> Some (Suc n, r)
        | Inl c \<Rightarrow>
            let q = conflict_node root c
            in if rstart q \<le> start \<and> rend q \<ge> en then Some (Suc n, root)
               else Option.bind
                      (if rstart q > start then reserve_split alloc nm start (rstart q - 1) (Suc n, root)
                       else Some (Suc n, root))
                      (\<lambda>st1. if rend q < en then reserve_split alloc nm (rend q + 1) en st1 else Some st1))"

definition reserve_region_with_split :: "(nat \<Rightarrow> bool) \<Rightarrow> string \<Rightarrow> u32 \<Rightarrow> u32 \<Rightarrow> resource \<Rightarrow> resource option" where
  "reserve_region_with_split alloc nm start en root = map_option snd (reserve_split alloc nm start en (0, root))"

definition resource_size :: "resource \<Rightarrow> u32" where
  "resource_size r = rend r - rstart r + 1"

definition resource_alignment :: "resource \<Rightarrow> u32" where
  "resource_alignment r =
     (let f = rflags r AND (IORESOURCE_SIZEALIGN OR IORESOURCE_STARTALIGN)
      in if f = IORESOURCE_SIZEALIGN then resource_size r
         else if f = IORESOURCE_STARTALIGN then rstart r else 0)"

section \<open>Allocating a free range\<close>

definition ALIGN :: "u32 \<Rightarrow> u32 \<Rightarrow> u32" where
  "ALIGN x a = (x + (a - 1)) AND NOT (a - 1)"

text \<open>\<open>alignf\<close> may change the candidate range; \<open>this\<close> is the list of children still to pass.\<close>

type_synonym align_fn = "u32 \<times> u32 \<Rightarrow> u32 \<Rightarrow> u32 \<Rightarrow> u32 \<times> u32"

fun find_loop :: "u32 \<Rightarrow> u32 \<Rightarrow> u32 \<Rightarrow> u32 \<Rightarrow> u32 \<Rightarrow> align_fn option \<Rightarrow> u32 \<Rightarrow> resource list \<Rightarrow> int \<times> u32 \<times> u32" where
  "find_loop root_end sz mn mx align alignf start this =
     (let en = (case this of [] \<Rightarrow> root_end | t # _ \<Rightarrow> rstart t - 1);
          s1 = (if start < mn then mn else start);
          e1 = (if en > mx then mx else en);
          s2 = ALIGN s1 align;
          (s3, e3) = (case alignf of None \<Rightarrow> (s2, e1) | Some f \<Rightarrow> f (s2, e1) sz align)
      in if s3 < e3 \<and> e3 - s3 \<ge> sz - 1 then (0, s3, s3 + sz - 1)
         else case this of
                [] \<Rightarrow> (-EBUSY, s3, e3)
              | t # ts \<Rightarrow> find_loop root_end sz mn mx align alignf (rend t + 1) ts)"

declare find_loop.simps [simp del]

definition find_resource ::
  "resource \<Rightarrow> u32 \<Rightarrow> u32 \<Rightarrow> u32 \<Rightarrow> u32 \<Rightarrow> align_fn option \<Rightarrow> int \<times> u32 \<times> u32" where
  "find_resource root sz mn mx align alignf =
     (case child root of
        t # ts \<Rightarrow> if rstart t = 0 then find_loop (rend root) sz mn mx align alignf (rend t + 1) ts
                  else find_loop (rend root) sz mn mx align alignf (rstart root) (t # ts)
      | [] \<Rightarrow> find_loop (rend root) sz mn mx align alignf (rstart root) [])"

definition allocate_resource ::
  "resource \<Rightarrow> resource \<Rightarrow> u32 \<Rightarrow> u32 \<Rightarrow> u32 \<Rightarrow> u32 \<Rightarrow> align_fn option \<Rightarrow> int \<times> resource \<times> resource" where
  "allocate_resource root new sz mn mx align alignf =
     (case find_resource root sz mn mx align alignf of (err, s, e) \<Rightarrow>
        let new' = set_range s e new
        in if err \<ge> 0
           then (case request_resource_locked root new' of
                   Inl _ \<Rightarrow> (-EBUSY, root, new')
                 | Inr r \<Rightarrow> (err, r, new'))
           else (err, root, new'))"

section \<open>Busy regions\<close>

text \<open>The loop of \<open>__request_region\<close>, which descends into children that are not busy.\<close>

function region_loop :: "resource \<Rightarrow> resource \<Rightarrow> resource option" where
  "region_loop parent res =
     (case request_resource_locked parent res of
        Inr p \<Rightarrow> Some p
      | Inl Root \<Rightarrow> None
      | Inl (Child k) \<Rightarrow>
          if busy (child parent ! k) then None
          else map_option (\<lambda>c. set_child ((child parent)[k := c]) parent) (region_loop (child parent ! k) res))"
  by pat_completeness auto
termination
  by (relation "measure (\<lambda>(p, _). size p)") (auto dest: request_index)

declare region_loop.simps [simp del]

text \<open>Returns the address of the new region and the tree; \<open>alloc\<close> is the outcome of \<open>kzalloc\<close>.\<close>

definition request_region ::
  "bool \<Rightarrow> resource \<Rightarrow> u32 \<Rightarrow> u32 \<Rightarrow> string \<Rightarrow> u32 \<Rightarrow> nat option \<times> resource" where
  "request_region alloc parent start n nm flags =
     (if \<not> alloc then (None, parent)
      else let i = fresh_id parent
           in case region_loop parent (region i nm start (start + n - 1) (IORESOURCE_BUSY OR flags)) of
                None \<Rightarrow> (None, parent)
              | Some p \<Rightarrow> (Some i, p))"

definition check_region :: "bool \<Rightarrow> resource \<Rightarrow> u32 \<Rightarrow> u32 \<Rightarrow> (int \<times> resource) option" where
  "check_region alloc parent start n =
     (case request_region alloc parent start n ''check-region'' 0 of
        (None, p) \<Rightarrow> Some (-EBUSY, p)
      | (Some i, p) \<Rightarrow> map_option (\<lambda>(_, p'). (0, p')) (release_resource i p))"

text \<open>The loop of \<open>__release_region\<close>; None is the warning about a region that does not exist.\<close>

fun release_list :: "u32 \<Rightarrow> u32 \<Rightarrow> resource list \<Rightarrow> resource list option" where
  "release_list start en [] = None"
| "release_list start en (Res i nm s e f cs # rs) =
     (if s \<le> start \<and> e \<ge> en
      then if \<not> busy (Res i nm s e f cs)
           then map_option (\<lambda>cs'. Res i nm s e f cs' # rs) (release_list start en cs)
           else if s \<noteq> start \<or> e \<noteq> en then None
           else Some rs
      else map_option (\<lambda>rs'. Res i nm s e f cs # rs') (release_list start en rs))"

definition release_region :: "resource \<Rightarrow> u32 \<Rightarrow> u32 \<Rightarrow> resource" where
  "release_region parent start n =
     (case release_list start (start + n - 1) (child parent) of
        None \<Rightarrow> parent
      | Some cs \<Rightarrow> set_child cs parent)"

section \<open>Well-formed trees\<close>

text \<open>Siblings are in order and disjoint, and lie in the range of their parent.\<close>

definition before :: "resource \<Rightarrow> resource \<Rightarrow> bool" where
  "before a b \<longleftrightarrow> rend a < rstart b"

fun wf_res :: "resource \<Rightarrow> bool" where
  "wf_res (Res i nm s e f cs) \<longleftrightarrow>
     s \<le> e \<and> sorted_wrt before cs \<and> (\<forall>c \<in> set cs. s \<le> rstart c \<and> rend c \<le> e \<and> wf_res c)"

definition wf_kids :: "u32 \<Rightarrow> u32 \<Rightarrow> resource list \<Rightarrow> bool" where
  "wf_kids lo hi cs \<longleftrightarrow> sorted_wrt before cs \<and> (\<forall>c \<in> set cs. lo \<le> rstart c \<and> rend c \<le> hi \<and> wf_res c)"

text \<open>The regions of a tree, each with its address, range and flags, and those below its root.\<close>

definition stamp :: "resource \<Rightarrow> nat \<times> u32 \<times> u32 \<times> u32" where
  "stamp r = (rid r, rstart r, rend r, rflags r)"

definition regions :: "resource \<Rightarrow> (nat \<times> u32 \<times> u32 \<times> u32) multiset" where
  "regions r = mset (map stamp (preorder r))"

definition kid_regions :: "resource list \<Rightarrow> (nat \<times> u32 \<times> u32 \<times> u32) multiset" where
  "kid_regions cs = (\<Sum>c\<leftarrow>cs. regions c)"

lemma set_child_simps [simp]:
  "rid (set_child cs r) = rid r" "rname (set_child cs r) = rname r" "rstart (set_child cs r) = rstart r"
  "rend (set_child cs r) = rend r" "rflags (set_child cs r) = rflags r" "child (set_child cs r) = cs"
  "stamp (set_child cs r) = stamp r" "busy (set_child cs r) = busy r" "set_child (child r) r = r"
  "set_child ds (set_child cs r) = set_child ds r"
  by (simp_all add: set_child_def stamp_def busy_def)

lemma set_range_simps [simp]:
  "rid (set_range s e r) = rid r" "rname (set_range s e r) = rname r" "rstart (set_range s e r) = s"
  "rend (set_range s e r) = e" "rflags (set_range s e r) = rflags r" "child (set_range s e r) = child r"
  by (simp_all add: set_range_def)

lemma region_simps [simp]:
  "rid (region i nm s e f) = i" "rstart (region i nm s e f) = s" "rend (region i nm s e f) = e"
  "rflags (region i nm s e f) = f" "child (region i nm s e f) = []" "rname (region i nm s e f) = nm"
  by (simp_all add: region_def)

lemma preorder_eq: "preorder r = r # descendants r"
  by (cases r) (simp add: descendants_def)

lemma regions_eq: "regions r = add_mset (stamp r) (kid_regions (child r))"
proof -
  have "mset (map stamp (concat (map preorder cs))) = kid_regions cs" for cs
    by (induction cs) (simp_all add: kid_regions_def regions_def)
  then show ?thesis by (simp add: regions_def preorder_eq descendants_def)
qed

lemma kid_regions_simps [simp]:
  "kid_regions [] = {#}" "kid_regions (c # cs) = regions c + kid_regions cs"
  "kid_regions (cs @ ds) = kid_regions cs + kid_regions ds"
  by (simp_all add: kid_regions_def)

lemma wf_res_iff: "wf_res r \<longleftrightarrow> rstart r \<le> rend r \<and> wf_kids (rstart r) (rend r) (child r)"
  by (cases r) (simp add: wf_kids_def)

lemma wf_res_range: "wf_res r \<Longrightarrow> rstart r \<le> rend r"
  by (simp add: wf_res_iff)

declare wf_res.simps [simp del]

lemma wf_kids_Nil [simp]: "wf_kids lo hi []"
  by (simp add: wf_kids_def)

lemma wf_kids_Cons:
  "wf_kids lo hi (c # cs) \<longleftrightarrow>
     lo \<le> rstart c \<and> rend c \<le> hi \<and> wf_res c \<and> (\<forall>d \<in> set cs. rend c < rstart d) \<and> wf_kids lo hi cs"
  by (auto simp: wf_kids_def before_def)

lemma wf_kids_append:
  "wf_kids lo hi (cs @ ds) \<longleftrightarrow>
     wf_kids lo hi cs \<and> wf_kids lo hi ds \<and> (\<forall>c \<in> set cs. \<forall>d \<in> set ds. rend c < rstart d)"
  by (auto simp: wf_kids_def before_def sorted_wrt_append)

lemma wf_kidsD: "wf_kids lo hi cs \<Longrightarrow> c \<in> set cs \<Longrightarrow> lo \<le> rstart c \<and> rstart c \<le> rend c \<and> rend c \<le> hi \<and> wf_res c"
  using wf_res_range by (auto simp: wf_kids_def)

lemma wf_set_child: "wf_res r \<Longrightarrow> wf_kids (rstart r) (rend r) cs \<Longrightarrow> wf_res (set_child cs r)"
  by (simp add: wf_res_iff)

lemma wf_child: "wf_res r \<Longrightarrow> k < length (child r) \<Longrightarrow> wf_res (child r ! k)"
  using wf_kidsD [OF _ nth_mem] by (auto simp: wf_res_iff [of r])

subsection \<open>Requesting\<close>

definition overlaps :: "resource \<Rightarrow> resource \<Rightarrow> bool" where
  "overlaps a b \<longleftrightarrow> rstart a \<le> rend b \<and> rstart b \<le> rend a"

definition contains :: "resource \<Rightarrow> resource \<Rightarrow> bool" where
  "contains a b \<longleftrightarrow> rstart a \<le> rstart b \<and> rend b \<le> rend a"

text \<open>Success splits the children into those before and those after the new node.\<close>

lemma request_children_Inr:
  "request_children new cs = Inr cs' \<Longrightarrow> wf_kids lo hi cs \<Longrightarrow>
   \<exists>l r. cs = l @ r \<and> cs' = l @ new # r \<and> (\<forall>c \<in> set l. rend c < rstart new) \<and> (\<forall>c \<in> set r. rend new < rstart c)"
proof (induction new cs arbitrary: cs' rule: request_children.induct)
  case (1 new)
  then show ?case by simp
next
  case (2 new t ts)
  show ?case
  proof (cases "rstart t > rend new")
    case True
    have w: "rstart t \<le> rend t" "\<forall>d \<in> set ts. rend t < rstart d"
      using "2.prems"(2) wf_res_range by (auto simp: wf_kids_Cons)
    have "rend new < rstart d" if "d \<in> set ts" for d using True w(1) bspec [OF w(2) that] by order
    with True have "\<forall>c \<in> set (t # ts). rend new < rstart c" by simp
    with True "2.prems"(1) show ?thesis by (intro exI [of _ "[]"] exI [of _ "t # ts"]) simp
  next
    case False
    with "2.prems"(1) obtain l where t: "rend t < rstart new" "request_children new ts = Inr l" "cs' = t # l"
      by (simp split: if_splits sum.splits)
    have "wf_kids lo hi ts" using "2.prems"(2) by (simp add: wf_kids_Cons)
    from "2.IH" [OF False t(1,2) this]
    obtain a b where "ts = a @ b" "l = a @ new # b" "\<forall>c \<in> set a. rend c < rstart new" "\<forall>c \<in> set b. rend new < rstart c"
      by (elim exE conjE)
    with t show ?thesis by (intro exI [of _ "t # a"] exI [of _ b]) simp
  qed
qed

lemma request_children_Inl:
  "request_children new cs = Inl k \<Longrightarrow> overlaps (cs ! k) new \<and> (\<forall>j < k. rend (cs ! j) < rstart new)"
proof (induction new cs arbitrary: k rule: request_children.induct)
  case (2 new t ts)
  show ?case
  proof (cases "rend t < rstart new \<and> \<not> rstart t > rend new")
    case True
    with "2.prems" obtain j where j: "k = Suc j" "request_children new ts = Inl j"
      by (auto split: sum.splits)
    then show ?thesis using "2.IH" [OF _ _ j(2)] True by (auto simp: nth_Cons split: nat.split)
  next
    case False
    with "2.prems" show ?thesis by (auto simp: overlaps_def split: if_splits)
  qed
qed simp

lemma request_locked_Inr:
  assumes "request_resource_locked p new = Inr p'" "wf_res p"
  obtains l r where "child p = l @ r" "p' = set_child (l @ new # r) p" "contains p new" "rstart new \<le> rend new"
    "\<forall>c \<in> set l. rend c < rstart new" "\<forall>c \<in> set r. rend new < rstart c"
proof -
  from assms obtain cs where cs: "request_children new (child p) = Inr cs" "p' = set_child cs p"
      "contains p new" "rstart new \<le> rend new"
    by (auto simp: request_resource_locked_def contains_def not_less split: if_splits sum.splits)
  obtain l r where "child p = l @ r" "cs = l @ new # r" "\<forall>c \<in> set l. rend c < rstart new" "\<forall>c \<in> set r. rend new < rstart c"
    using request_children_Inr [OF cs(1)] assms(2) unfolding wf_res_iff [of p] by blast
  with cs show ?thesis using that by blast
qed

lemma request_locked_Child:
  assumes "request_resource_locked p new = Inl (Child k)"
  shows "k < length (child p)" "overlaps (child p ! k) new" "\<forall>j < k. rend (child p ! j) < rstart new"
    and "contains p new" "rstart new \<le> rend new"
  using assms request_children_Inl [of new "child p" k] request_children_index [of new "child p" k]
  by (auto simp: request_resource_locked_def contains_def not_less split: if_splits sum.splits)

lemma request_locked_wf:
  assumes "request_resource_locked p new = Inr p'" "wf_res p" "wf_res new"
  shows "wf_res p'" "regions p' = regions p + regions new" "stamp p' = stamp p"
proof -
  obtain l r where lr: "child p = l @ r" "p' = set_child (l @ new # r) p" "contains p new"
      "\<forall>c \<in> set l. rend c < rstart new" "\<forall>c \<in> set r. rend new < rstart c"
    using request_locked_Inr [OF assms(1,2)] by metis
  have k: "wf_kids (rstart p) (rend p) (l @ r)" using assms(2) lr(1) by (simp add: wf_res_iff)
  then have "wf_kids (rstart p) (rend p) (l @ new # r)"
    using lr(3-) assms(3) by (simp add: wf_kids_append wf_kids_Cons contains_def)
  then show "wf_res p'" using lr(2) assms(2) wf_set_child by simp
  show "regions p' = regions p + regions new" "stamp p' = stamp p"
    using lr(1,2) by (simp_all add: regions_eq [of p] regions_eq [of "set_child _ _"])
qed

text \<open>Replacing a child by one with the same range.\<close>

lemma wf_kids_update:
  assumes "wf_kids lo hi cs" "k < length cs" "wf_res c" "rstart c = rstart (cs ! k)" "rend c = rend (cs ! k)"
  shows "wf_kids lo hi (cs[k := c])"
proof -
  have e: "cs = take k cs @ cs ! k # drop (Suc k) cs" by (rule id_take_nth_drop [OF assms(2)])
  from assms(1) have "wf_kids lo hi (take k cs @ cs ! k # drop (Suc k) cs)" using e by simp
  then show ?thesis
    unfolding upd_conv_take_nth_drop [OF assms(2)]
    using assms(3-5) by (simp add: wf_kids_append wf_kids_Cons)
qed

lemma kid_regions_update:
  assumes "k < length cs"
  shows "kid_regions (cs[k := c]) + regions (cs ! k) = kid_regions cs + regions c"
proof -
  have "kid_regions cs = kid_regions (take k cs @ cs ! k # drop (Suc k) cs)"
    using id_take_nth_drop [OF assms] by simp
  then show ?thesis unfolding upd_conv_take_nth_drop [OF assms] by simp
qed

lemma descend_wf:
  assumes "wf_res p" "k < length (child p)" "wf_res c" "stamp c = stamp (child p ! k)" "regions c = regions (child p ! k) + R"
  shows "wf_res (set_child ((child p)[k := c]) p)" "regions (set_child ((child p)[k := c]) p) = regions p + R"
proof -
  have "wf_kids (rstart p) (rend p) ((child p)[k := c])"
    by (rule wf_kids_update) (use assms in \<open>simp_all add: wf_res_iff [of p] stamp_def\<close>)
  then show "wf_res (set_child ((child p)[k := c]) p)" by (rule wf_set_child [OF assms(1)])
  have "kid_regions ((child p)[k := c]) + regions (child p ! k) = kid_regions (child p) + R + regions (child p ! k)"
    using kid_regions_update [OF assms(2), of c] assms(5) by (simp add: ac_simps)
  then show "regions (set_child ((child p)[k := c]) p) = regions p + R"
    by (simp add: regions_eq [of p] regions_eq [of "set_child _ _"])
qed

subsection \<open>Inserting\<close>

lemma covered_run_Inl:
  "covered_run new ns = Inl k \<Longrightarrow> k < length ns \<and> \<not> contains new (ns ! k)"
  by (induction new ns arbitrary: k rule: covered_run.induct)
    (auto simp: contains_def split: if_splits sum.splits)

lemma covered_run_Inr:
  "covered_run new ns = Inr m \<Longrightarrow> wf_kids lo hi ns \<Longrightarrow> ns \<noteq> [] \<Longrightarrow>
   m \<le> length ns \<and> (\<forall>c \<in> set (take m ns). contains new c) \<and> (\<forall>c \<in> set (drop m ns). rend new < rstart c)"
proof (induction new ns arbitrary: m rule: covered_run.induct)
  case (2 new n ns)
  have c: "contains new n" using "2.prems"(1) by (auto simp: contains_def split: if_splits)
  then have nc: "\<not> (rstart n < rstart new \<or> rend n > rend new)" by (simp add: contains_def not_less)
  have w: "wf_kids lo hi ns" using "2.prems"(2) by (simp add: wf_kids_Cons)
  show ?case
  proof (cases "ns = [] \<or> rstart (hd ns) > rend new")
    case True
    then have m: "m = 1" using "2.prems"(1) nc by (simp split: if_splits)
    have "rend new < rstart d" if "d \<in> set ns" for d
    proof (cases ns)
      case (Cons a as)
      have "rend new < rstart a" "rstart a \<le> rend a" using True Cons w wf_res_range by (auto simp: wf_kids_Cons)
      moreover have "d = a \<or> rend a < rstart d" using that Cons w by (auto simp: wf_kids_Cons)
      ultimately show ?thesis by (elim disjE) (simp, order)
    qed (use that in simp)
    with c m show ?thesis by simp
  next
    case False
    with "2.prems"(1) nc obtain j where j: "m = Suc j" "covered_run new ns = Inr j"
      by (auto split: if_splits sum.splits)
    have "ns \<noteq> []" using False by simp
    from "2.IH" [OF nc False j(2) w this] c j(1) show ?thesis by simp
  qed
qed simp

lemma take_over_wf:
  assumes p: "wf_res p" and new: "contains p new" "rstart new \<le> rend new"
    and k: "k < length (child p)" "\<forall>j < k. rend (child p ! j) < rstart new"
    and t: "take_over p new k = Inr p'"
  shows "wf_res p'" "regions p' = add_mset (stamp new) (regions p)" "stamp p' = stamp p"
proof -
  let ?l = "take k (child p)" and ?d = "drop k (child p)"
  obtain m where m: "covered_run new ?d = Inr m"
      "p' = set_child (?l @ set_child (take m ?d) new # drop m ?d) p"
    using t by (auto simp: take_over_def add.commute split: sum.splits)
  have w: "wf_kids (rstart p) (rend p) (?l @ ?d)" using p by (simp add: wf_res_iff)
  then have wl: "wf_kids (rstart p) (rend p) ?l" and wd: "wf_kids (rstart p) (rend p) ?d"
    by (simp_all only: wf_kids_append)
  have ne: "?d \<noteq> []" using k(1) by simp
  have td: "child p = ?l @ take m ?d @ drop m ?d" by (simp only: append_take_drop_id)
  note c = covered_run_Inr [OF m(1) wd ne]
  have wtd: "wf_kids (rstart p) (rend p) (take m ?d @ drop m ?d)" using wd by (simp only: append_take_drop_id)
  have sl: "\<forall>c \<in> set ?l. rend c < rstart new" using k by (auto simp: in_set_conv_nth)
  have "wf_kids (rstart new) (rend new) (take m ?d)"
    using wtd c by (simp add: wf_kids_def contains_def sorted_wrt_append)
  then have wn: "wf_res (set_child (take m ?d) new)" using new(2) by (simp add: wf_res_iff)
  have "wf_kids (rstart p) (rend p) (?l @ set_child (take m ?d) new # drop m ?d)"
    unfolding wf_kids_append wf_kids_Cons
  proof (intro conjI ballI)
    show "wf_kids (rstart p) (rend p) (drop m ?d)" using wtd by (simp only: wf_kids_append)
    show "rend c < rstart d" if "c \<in> set ?l" "d \<in> set (set_child (take m ?d) new # drop m ?d)" for c d
    proof (cases "d \<in> set ?d")
      case True
      then show ?thesis using w that(1) by (simp only: wf_kids_append)
    next
      case False
      then have "d = set_child (take m ?d) new" using that(2) set_drop_subset [of m ?d] by auto
      then show ?thesis using sl that(1) by simp
    qed
  qed (use wl wn new(1) c in \<open>simp_all add: contains_def\<close>)
  then show "wf_res p'" using m(2) wf_set_child [OF p] by simp
  have "kid_regions (child p) = kid_regions ?l + kid_regions (take m ?d) + kid_regions (drop m ?d)"
    using arg_cong [OF td, of kid_regions] by (simp only: kid_regions_simps add.assoc)
  then show "regions p' = add_mset (stamp new) (regions p)" "stamp p' = stamp p"
    using m(2) by (simp_all add: regions_eq [of p] regions_eq [of "set_child _ _"])
qed

abbreviation stops_at :: "resource \<Rightarrow> resource \<Rightarrow> bool" where
  "stops_at f new \<equiv> rstart f > rstart new \<or> rend f < rend new \<or> rstart f = rstart new \<and> rend f = rend new"

lemma insert_locked_cases:
  "request_resource_locked p new = Inr r \<Longrightarrow> insert_resource_locked p new = Inr r"
  "request_resource_locked p new = Inl Root \<Longrightarrow> insert_resource_locked p new = Inl None"
  "request_resource_locked p new = Inl (Child k) \<Longrightarrow> stops_at (child p ! k) new \<Longrightarrow>
     insert_resource_locked p new = (case take_over p new k of Inl c \<Rightarrow> Inl (Some c) | Inr q \<Rightarrow> Inr q)"
  "request_resource_locked p new = Inl (Child k) \<Longrightarrow> \<not> stops_at (child p ! k) new \<Longrightarrow>
     insert_resource_locked p new =
       (case insert_resource_locked (child p ! k) new of
          Inl None \<Rightarrow> Inl (Some (child p ! k))
        | Inl (Some c) \<Rightarrow> Inl (Some c)
        | Inr f \<Rightarrow> Inr (set_child ((child p)[k := f]) p))"
  by (subst insert_resource_locked.simps, auto simp: Let_def)+

text \<open>
  \<open>insert_resource\<close> keeps the tree well-formed and all regions in it, and adds
  exactly the new one.
\<close>

lemma insert_locked_wf:
  "insert_resource_locked p new = Inr p' \<Longrightarrow> wf_res p \<Longrightarrow> child new = [] \<Longrightarrow>
   wf_res p' \<and> regions p' = add_mset (stamp new) (regions p) \<and> stamp p' = stamp p"
proof (induction p new arbitrary: p' rule: insert_resource_locked.induct)
  case (1 p new)
  show ?case
  proof (cases "request_resource_locked p new")
    case (Inr r)
    then have "p' = r" using "1.prems"(1) insert_locked_cases(1) by simp
    moreover have "wf_res new"
      using Inr "1.prems"(2,3) request_locked_Inr by (metis wf_res_iff wf_kids_Nil)
    ultimately show ?thesis
      using request_locked_wf [OF Inr "1.prems"(2)] "1.prems"(3) by (simp add: regions_eq [of new])
  next
    case (Inl c)
    then obtain k where k: "c = Child k"
      using "1.prems"(1) by (cases c) (simp_all add: insert_locked_cases(2))
    note q = request_locked_Child [OF Inl [unfolded k]]
    let ?f = "child p ! k"
    show ?thesis
    proof (cases "stops_at ?f new")
      case True
      then have "take_over p new k = Inr p'"
        using "1.prems"(1) Inl k by (simp add: insert_locked_cases(3) split: sum.splits)
      then show ?thesis using take_over_wf [OF "1.prems"(2) q(4,5,1,3)] by blast
    next
      case False
      then obtain f where f: "insert_resource_locked ?f new = Inr f" "p' = set_child ((child p)[k := f]) p"
        using "1.prems"(1) insert_locked_cases(4) [OF Inl [unfolded k] False] by (simp split: sum.splits option.splits)
      have "wf_res f \<and> regions f = add_mset (stamp new) (regions ?f) \<and> stamp f = stamp ?f"
        using "1.IH" [OF Inl k _ False f(1) wf_child [OF "1.prems"(2) q(1)] "1.prems"(3)] by simp
      then show ?thesis
        using descend_wf [OF "1.prems"(2) q(1), of f "{#stamp new#}"] f(2) by simp
    qed
  qed
qed

subsection \<open>The conflicts of an insertion\<close>

text \<open>
  A node that an insertion reports, other than the root, is one that the new
  resource does not cover and that lies in the root's range.
\<close>

lemma take_over_Inl:
  "take_over p new k = Inl c \<Longrightarrow> k < length (child p) \<Longrightarrow> c \<in> set (child p) \<and> \<not> contains new c"
  using covered_run_Inl [of new "drop k (child p)"] by (auto simp: take_over_def split: sum.splits)

lemma insert_locked_None: "insert_resource_locked p new = Inl None \<longleftrightarrow> \<not> (contains p new \<and> rstart new \<le> rend new)"
proof (cases "request_resource_locked p new")
  case (Inl c)
  show ?thesis
  proof (cases c)
    case Root
    with Inl show ?thesis
      by (auto simp: insert_locked_cases(2) request_resource_locked_def contains_def split: if_splits sum.splits)
  next
    case (Child k)
    then have "insert_resource_locked p new \<noteq> Inl None"
      using Inl by (cases "stops_at (child p ! k) new") (auto simp: insert_locked_cases(3,4) split: sum.splits option.splits)
    then show ?thesis using request_locked_Child(4,5) Inl Child by blast
  qed
next
  case (Inr r)
  then show ?thesis
    by (auto simp: insert_locked_cases(1) request_resource_locked_def contains_def split: if_splits sum.splits)
qed

lemma contains_trans: "contains a b \<Longrightarrow> contains b c \<Longrightarrow> contains a c"
  by (auto simp: contains_def intro: order_trans)

lemma child_contained: "wf_res p \<Longrightarrow> c \<in> set (child p) \<Longrightarrow> contains p c"
  using wf_kidsD by (auto simp: wf_res_iff [of p] contains_def)

lemma insert_locked_Some:
  "insert_resource_locked p new = Inl (Some c) \<Longrightarrow> wf_res p \<Longrightarrow> \<not> contains new c \<and> contains p c"
proof (induction p new rule: insert_resource_locked.induct)
  case (1 p new)
  obtain k where k: "request_resource_locked p new = Inl (Child k)"
  proof (cases "request_resource_locked p new")
    case (Inl x)
    then show ?thesis using that "1.prems"(1) by (cases x) (simp_all add: insert_locked_cases(2))
  qed (use "1.prems"(1) insert_locked_cases(1) in simp)
  note q = request_locked_Child [OF k]
  show ?case
  proof (cases "stops_at (child p ! k) new")
    case True
    then have "take_over p new k = Inl c"
      using "1.prems"(1) by (simp add: insert_locked_cases(3) [OF k] split: sum.splits)
    then show ?thesis using take_over_Inl [OF _ q(1)] child_contained [OF "1.prems"(2)] by blast
  next
    case False
    have "insert_resource_locked (child p ! k) new \<noteq> Inl None"
      using False q(5) by (simp add: insert_locked_None contains_def not_less)
    then have "insert_resource_locked (child p ! k) new = Inl (Some c)"
      using "1.prems"(1) False by (simp add: insert_locked_cases(4) [OF k] split: sum.splits option.splits)
    then have "\<not> contains new c \<and> contains (child p ! k) c"
      using "1.IH" [OF k refl refl False] wf_child [OF "1.prems"(2) q(1)] by blast
    then show ?thesis using contains_trans child_contained [OF "1.prems"(2) nth_mem [OF q(1)]] by blast
  qed
qed

subsection \<open>Expansion ends\<close>

text \<open>The number of addresses outside the range of the new resource, which every round makes smaller.\<close>

definition outside :: "resource \<Rightarrow> nat" where
  "outside new = unat (rstart new) + (2 ^ 32 - unat (rend new))"

lemma expand_simps [simp]:
  "rstart (expand c new) = min (rstart c) (rstart new)" "rend (expand c new) = max (rend c) (rend new)"
  "child (expand c new) = child new" "rid (expand c new) = rid new" "rflags (expand c new) = rflags new"
  by (auto simp: expand_def min_def max_def)

lemma outside_decreases: "\<not> contains new c \<Longrightarrow> outside (expand c new) < outside new"
proof -
  assume "\<not> contains new c"
  then have d: "rstart c < rstart new \<or> rend new < rend c" by (auto simp: contains_def)
  have u: "unat (rend x) < 2 ^ 32" for x using unsigned_less [of "rend x", where ?'a = nat] by simp
  have m: "unat (min a b) = min (unat a) (unat b)" "unat (max a b) = max (unat a) (unat b)" for a b :: u32
    by (simp_all add: min_def max_def word_le_nat_alt)
  show ?thesis
    using d u [of c] u [of new] unfolding outside_def expand_simps m word_less_nat_alt by linarith
qed

lemma expand_loop_returns:
  "wf_res root \<Longrightarrow> child new = [] \<Longrightarrow>
   \<exists>r new'. expand_loop root new = Some (r, new') \<and> wf_res r \<and> stamp r = stamp root \<and> contains new' new \<and>
     (if contains root new \<and> rstart new \<le> rend new
      then regions r = add_mset (stamp new') (regions root) \<and> contains root new' else r = root \<and> new' = new)"
proof (induction "outside new" arbitrary: new rule: less_induct)
  case less
  show ?case
  proof (cases "insert_resource_locked root new")
    case (Inr r)
    have "insert_resource_locked root new \<noteq> Inl None" using Inr by simp
    then have "contains root new \<and> rstart new \<le> rend new" unfolding insert_locked_None by blast
    then show ?thesis
      using Inr insert_locked_wf [OF Inr less.prems]
      by (subst expand_loop.simps) (simp add: contains_def)
  next
    case (Inl x)
    show ?thesis
    proof (cases x)
      case None
      with Inl have "\<not> (contains root new \<and> rstart new \<le> rend new)" using insert_locked_None by blast
      with Inl None less.prems show ?thesis
        by (subst expand_loop.simps) (simp add: contains_def)
    next
      case (Some c)
      have ne: "insert_resource_locked root new \<noteq> Inl None" using Inl Some by simp
      then have nw: "contains root new" "rstart new \<le> rend new" unfolding insert_locked_None by blast+
      have c: "\<not> contains new c" "contains root c"
        using insert_locked_Some [of root new c] Inl Some less.prems(1) by blast+
      have e: "contains root (expand c new)" "rstart (expand c new) \<le> rend (expand c new)" "contains (expand c new) new"
        using nw c(2) by (auto simp: contains_def min_le_iff_disj le_max_iff_disj)
      obtain r new' where r: "expand_loop root (expand c new) = Some (r, new')" "wf_res r" "contains new' (expand c new)" "stamp r = stamp root"
          "regions r = add_mset (stamp new') (regions root)" "contains root new'"
        using less.hyps [OF outside_decreases [OF c(1)] less.prems(1)] less.prems(2) e(1,2) by auto
      have "expand_loop root new = Some (r, new')" using Inl Some r(1) by (subst expand_loop.simps) simp
      with r nw contains_trans [OF r(3) e(3)] show ?thesis by simp
    qed
  qed
qed

subsection \<open>Releasing and adjusting\<close>

lemma position_index: "position i cs = Some k \<Longrightarrow> k < length cs \<and> rid (cs ! k) = i"
  by (induction cs arbitrary: k) (auto split: if_splits)

lemma stamp_eq_iff: "stamp a = stamp b \<longleftrightarrow> rid a = rid b \<and> rstart a = rstart b \<and> rend a = rend b \<and> rflags a = rflags b"
  by (simp add: stamp_def)

text \<open>An operation on one parent that keeps its subtree well-formed keeps the tree so.\<close>

definition keeps_wf :: "(resource \<Rightarrow> nat \<Rightarrow> int \<times> resource) \<Rightarrow> bool" where
  "keeps_wf f \<longleftrightarrow>
     (\<forall>p k. wf_res p \<and> k < length (child p) \<longrightarrow> wf_res (snd (f p k)) \<and> stamp (snd (f p k)) = stamp p)"

lemma at_parent_wf:
  shows "at_parent i f r = Some (x, r') \<Longrightarrow> keeps_wf f \<Longrightarrow> wf_res r \<Longrightarrow> wf_res r' \<and> stamp r' = stamp r"
    and "at_parent_list i f cs = Some (x, cs') \<Longrightarrow> keeps_wf f \<Longrightarrow> wf_kids lo hi cs \<Longrightarrow>
           wf_kids lo hi cs' \<and> map rstart cs' = map rstart cs \<and> map rend cs' = map rend cs"
proof (induction i f r and i f cs arbitrary: x r' and x cs' lo hi rule: at_parent_at_parent_list.induct)
  case (1 i f j nm s e fl cs)
  let ?r = "Res j nm s e fl cs"
  show ?case
  proof (cases "position i cs")
    case (Some k)
    then have "f ?r k = (x, r')" "k < length (child ?r)" using 1(2) position_index [OF Some] by simp_all
    then show ?thesis using 1(3,4) unfolding keeps_wf_def by (metis snd_conv)
  next
    case None
    with 1(2) obtain cs' where cs: "at_parent_list i f cs = Some (x, cs')" "r' = Res j nm s e fl cs'" by auto
    then have "wf_kids s e cs'" using 1(1) [OF None cs(1) 1(3)] 1(4) by (simp add: wf_res_iff [of ?r])
    then show ?thesis using 1(4) cs(2) by (simp add: wf_res_iff [of ?r] wf_res_iff [of "Res j nm s e fl cs'"] stamp_def)
  qed
next
  case (3 i f r rs)
  have w: "wf_res r" "wf_kids lo hi rs" using 3(5) by (simp_all add: wf_kids_Cons)
  have sub: "wf_kids lo hi (c # cs)"
    if "wf_res c" "wf_kids lo hi cs" "rstart c = rstart r" "rend c = rend r" "map rstart cs = map rstart rs" for c cs
  proof -
    have "rstart ` set cs = rstart ` set rs" using that(5) by (metis list.set_map)
    then have "\<forall>d \<in> set cs. rend c < rstart d"
      using 3(5) that(4) by (auto simp: wf_kids_Cons) (metis image_eqI image_iff)
    then show ?thesis using 3(5) that by (simp add: wf_kids_Cons)
  qed
  show ?case
  proof (cases "at_parent i f r")
    case None
    with 3(3) obtain rs' where rs: "at_parent_list i f rs = Some (x, rs')" "cs' = r # rs'" by auto
    with 3(2) [OF None rs(1) 3(4) w(2)] w sub show ?thesis by simp
  next
    case (Some y)
    with 3(3) obtain q where q: "at_parent i f r = Some (x, q)" "cs' = q # rs" by (cases y) auto
    with 3(1) [OF q(1) 3(4) w(1)] w sub show ?thesis by (simp add: stamp_eq_iff)
  qed
qed simp

lemma release_locked_wf:
  assumes "wf_res p" "k < length (child p)" "release_resource_locked p k = (x, p')"
  shows "wf_res p' \<and> stamp p' = stamp p"
proof -
  have "wf_kids (rstart p) (rend p) (take k (child p) @ child p ! k # drop (Suc k) (child p))"
    using assms(1) id_take_nth_drop [OF assms(2)] by (simp add: wf_res_iff)
  then have "wf_kids (rstart p) (rend p) (take k (child p) @ drop (Suc k) (child p))"
    by (simp add: wf_kids_append wf_kids_Cons)
  then show ?thesis using assms(3) wf_set_child [OF assms(1)] by (auto simp: release_resource_locked_def)
qed

lemma adjust_locked_cases:
  obtains "adjust_resource_locked start sz p k = (-EBUSY, p)"
  | "adjust_resource_locked start sz p k = (0, set_child ((child p)[k := set_range start (start + sz - 1) (child p ! k)]) p)"
    "rstart p \<le> start" "start + sz - 1 \<le> rend p"
    "\<not> list_ex (\<lambda>c. rstart c < start \<or> rend c > start + sz - 1) (child (child p ! k))"
    "\<not> (Suc k < length (child p) \<and> rstart (child p ! Suc k) \<le> start + sz - 1)"
    "\<not> (k \<noteq> 0 \<and> start \<le> rend (child p ! (k - 1)))"
proof -
  let ?en = "start + sz - 1"
  consider "start < rstart p \<or> ?en > rend p"
    | "list_ex (\<lambda>c. rstart c < start \<or> rend c > ?en) (child (child p ! k))"
    | "Suc k < length (child p) \<and> rstart (child p ! Suc k) \<le> ?en"
    | "k \<noteq> 0 \<and> start \<le> rend (child p ! (k - 1))"
    | "\<not> (start < rstart p \<or> ?en > rend p)" "\<not> list_ex (\<lambda>c. rstart c < start \<or> rend c > ?en) (child (child p ! k))"
      "\<not> (Suc k < length (child p) \<and> rstart (child p ! Suc k) \<le> ?en)" "\<not> (k \<noteq> 0 \<and> start \<le> rend (child p ! (k - 1)))"
    by blast
  then show ?thesis
  proof cases
    case 5
    have "adjust_resource_locked start sz p k = (0, set_child ((child p)[k := set_range start ?en (child p ! k)]) p)"
      unfolding adjust_resource_locked_def Let_def by (simp only: 5 if_False)
    moreover have "rstart p \<le> start" "?en \<le> rend p" using 5(1) by (simp_all add: not_less)
    ultimately show ?thesis using that(2) 5(2-4) by blast
  qed (rule that(1), simp add: adjust_resource_locked_def Let_def)+
qed

lemma adjust_locked_wf:
  assumes p: "wf_res p" and k: "k < length (child p)" and r: "start \<le> start + sz - 1"
    and a: "adjust_resource_locked start sz p k = (x, p')"
  shows "wf_res p' \<and> stamp p' = stamp p"
proof (cases rule: adjust_locked_cases [of start sz p k])
  case 1
  then show ?thesis using p a by simp
next
  case 2
  define en where "en = start + sz - 1"
  let ?c = "child p ! k" and ?l = "take k (child p)" and ?r = "drop (Suc k) (child p)"
  have g: "rstart p \<le> start" "en \<le> rend p" "\<not> list_ex (\<lambda>c. rstart c < start \<or> rend c > en) (child ?c)"
      "Suc k < length (child p) \<Longrightarrow> en < rstart (child p ! Suc k)" "k \<noteq> 0 \<Longrightarrow> rend (child p ! (k - 1)) < start"
      "p' = set_child ((child p)[k := set_range start en ?c]) p"
    using 2(2-) a unfolding 2(1) en_def [symmetric] by simp_all
  have g3: "\<forall>c \<in> set (child ?c). start \<le> rstart c \<and> rend c \<le> en"
    using g(3) by (auto simp: list_ex_iff)
  have w: "wf_kids (rstart p) (rend p) (?l @ ?c # ?r)"
    using p id_take_nth_drop [OF k] by (simp add: wf_res_iff)
  have kc: "wf_kids (rstart ?c) (rend ?c) (child ?c)" using wf_child [OF p k] by (simp add: wf_res_iff [of ?c])
  have c: "wf_res (set_range start en ?c)"
    unfolding wf_res_iff [of "set_range _ _ _"] using r kc g3 by (simp add: en_def wf_kids_def)
  have st: "sorted_wrt before (child p)" "\<forall>c \<in> set (child p). rstart c \<le> rend c"
    using w wf_kidsD [OF w] unfolding id_take_nth_drop [OF k, symmetric] by (simp_all add: wf_kids_def)
  have l: "rend d < start" if d: "d \<in> set ?l" for d
  proof -
    obtain j where j: "j < k" "d = child p ! j" using d by (auto simp: in_set_conv_nth)
    then have "rend (child p ! (k - 1)) < start" using g(5) by simp
    moreover have "j = k - 1 \<or> rend d < rstart (child p ! (k - 1))"
      using sorted_wrt_nth_less [OF st(1), of j "k - 1"] j k by (cases "j = k - 1") (auto simp: before_def)
    moreover have "rstart (child p ! (k - 1)) \<le> rend (child p ! (k - 1))" using st(2) k by simp
    ultimately show ?thesis using j(2) by (elim disjE) (simp, order)
  qed
  have rr: "en < rstart d" if d: "d \<in> set ?r" for d
  proof -
    obtain j where j: "Suc k + j < length (child p)" "d = child p ! (Suc k + j)"
    proof -
      obtain i where "i < length ?r" "d = ?r ! i" using d by (metis in_set_conv_nth)
      then show ?thesis by (intro that [of i]) simp_all
    qed
    then have "en < rstart (child p ! Suc k)" using g(4) by simp
    moreover have "j = 0 \<or> rend (child p ! Suc k) < rstart d"
      using sorted_wrt_nth_less [OF st(1), of "Suc k" "Suc k + j"] j by (cases "j = 0") (auto simp: before_def)
    moreover have "rstart (child p ! Suc k) \<le> rend (child p ! Suc k)" using st(2) j(1) by simp
    ultimately show ?thesis using j(2) by (elim disjE) (simp, order)
  qed
  have "wf_kids (rstart p) (rend p) (?l @ set_range start en ?c # ?r)"
    using w c l rr g(1,2) unfolding wf_kids_append wf_kids_Cons by simp
  then show ?thesis
    using g(6) wf_set_child [OF p] unfolding upd_conv_take_nth_drop [OF k] by simp
qed

lemma release_resource_wf:
  "release_resource i r = Some (x, r') \<Longrightarrow> wf_res r \<Longrightarrow> wf_res r' \<and> stamp r' = stamp r"
  unfolding release_resource_def 
  using at_parent_wf(1) release_locked_wf unfolding keeps_wf_def by (metis prod.collapse)

lemma adjust_resource_wf:
  "adjust_resource i start sz r = Some (x, r') \<Longrightarrow> start \<le> start + sz - 1 \<Longrightarrow> wf_res r \<Longrightarrow> wf_res r' \<and> stamp r' = stamp r"
  unfolding adjust_resource_def 
  using at_parent_wf(1) adjust_locked_wf unfolding keeps_wf_def by (metis prod.collapse)

end
