(* ===== verification/Resource_Region.thy ===== *)
theory Resource_Region
  imports Resource Exclusive
begin

text \<open>
  Busy regions of kernel/resource.c (\<open>__request_region\<close>,
  \<open>__release_region\<close>): when a range can be requested, that a release undoes
  the request, and that the regions are an exclusive resource of their users.
\<close>

section \<open>Busy regions\<close>

lemma region_loop_cases:
  "request_resource_locked p res = Inr r \<Longrightarrow> region_loop p res = Some r"
  "request_resource_locked p res = Inl Root \<Longrightarrow> region_loop p res = None"
  "request_resource_locked p res = Inl (Child k) \<Longrightarrow> busy (child p ! k) \<Longrightarrow> region_loop p res = None"
  "request_resource_locked p res = Inl (Child k) \<Longrightarrow> \<not> busy (child p ! k) \<Longrightarrow>
     region_loop p res = map_option (\<lambda>c. set_child ((child p)[k := c]) p) (region_loop (child p ! k) res)"
  by (subst region_loop.simps, simp)+

lemma region_loop_wf:
  "region_loop p res = Some p' \<Longrightarrow> wf_res p \<Longrightarrow> child res = [] \<Longrightarrow>
   wf_res p' \<and> regions p' = add_mset (stamp res) (regions p) \<and> stamp p' = stamp p"
proof (induction p res arbitrary: p' rule: region_loop.induct)
  case (1 p res)
  show ?case
  proof (cases "request_resource_locked p res")
    case (Inr r)
    then have "p' = r" using "1.prems"(1) region_loop_cases(1) by simp
    moreover have "wf_res res"
      using Inr "1.prems"(2,3) request_locked_Inr by (metis wf_res_iff wf_kids_Nil)
    ultimately show ?thesis
      using request_locked_wf [OF Inr "1.prems"(2)] "1.prems"(3) by (simp add: regions_eq [of res])
  next
    case (Inl c)
    then obtain k where k: "c = Child k"
      using "1.prems"(1) by (cases c) (simp_all add: region_loop_cases(2))
    note q = request_locked_Child [OF Inl [unfolded k]]
    have nb: "\<not> busy (child p ! k)" using "1.prems"(1) region_loop_cases(3) Inl k by force
    then obtain f where f: "region_loop (child p ! k) res = Some f" "p' = set_child ((child p)[k := f]) p"
      using "1.prems"(1) region_loop_cases(4) [OF Inl [unfolded k] nb] by auto
    have "wf_res f \<and> regions f = add_mset (stamp res) (regions (child p ! k)) \<and> stamp f = stamp (child p ! k)"
      using "1.IH" [OF Inl k nb f(1) wf_child [OF "1.prems"(2) q(1)] "1.prems"(3)] .
    then show ?thesis
      using descend_wf [OF "1.prems"(2) q(1), of f "{#stamp res#}"] f(2) by simp
  qed
qed

text \<open>Only the children of the node that is returned differ.\<close>

lemma region_loop_shape: "region_loop p res = Some p' \<Longrightarrow> p' = set_child (child p') p"
proof (cases "request_resource_locked p res")
  case (Inr r)
  then show "region_loop p res = Some p' \<Longrightarrow> ?thesis"
    by (auto simp: region_loop_cases(1) request_resource_locked_def split: if_splits sum.splits)
next
  case (Inl c)
  then show "region_loop p res = Some p' \<Longrightarrow> ?thesis"
    by (cases c) (subst (asm) region_loop.simps, auto split: if_splits)+
qed

lemma kids_apart:
  assumes "wf_kids lo hi cs" "i < length cs" "j < length cs" "i \<noteq> j"
  shows "\<not> overlaps (cs ! i) (cs ! j)"
proof -
  have s: "sorted_wrt before cs" using assms(1) by (simp add: wf_kids_def)
  consider "i < j" | "j < i" using assms(4) by linarith
  then show ?thesis
    using sorted_wrt_nth_less [OF s, of i j] sorted_wrt_nth_less [OF s, of j i] assms(2,3)
    by cases (auto simp: before_def overlaps_def)
qed

lemma preorder_contained: "d \<in> set (preorder p) \<Longrightarrow> wf_res p \<Longrightarrow> contains p d \<and> wf_res d"
proof (induction p arbitrary: d)
  case (Res i nm s e f cs)
  let ?p = "Res i nm s e f cs"
  consider "d = ?p" | c where "c \<in> set cs" "d \<in> set (preorder c)" using Res.prems(1) by auto
  then show ?case
  proof cases
    case 2
    then have "contains ?p c" "wf_res c"
      using child_contained [OF Res.prems(2)] Res.prems(2) by (auto simp: wf_res_iff [of ?p] wf_kids_def)
    then show ?thesis using Res.IH [OF 2] contains_trans by blast
  qed (use Res.prems(2) in \<open>simp add: contains_def\<close>)
qed

lemma overlaps_contains: "overlaps d r \<Longrightarrow> contains c d \<Longrightarrow> overlaps c r"
  by (auto simp: overlaps_def contains_def intro: order_trans)

lemma overlaps_sym: "overlaps a b \<longleftrightarrow> overlaps b a"
  by (auto simp: overlaps_def)

text \<open>A range can be requested when every region that meets it is not busy and contains it.\<close>

definition free_for :: "resource \<Rightarrow> resource \<Rightarrow> bool" where
  "free_for res p \<longleftrightarrow> rstart res \<le> rend res \<and> contains p res \<and>
     (\<forall>d \<in> set (descendants p). overlaps d res \<longrightarrow> \<not> busy d \<and> contains d res)"

lemma in_descendants: "d \<in> set (descendants p) \<longleftrightarrow> (\<exists>k < length (child p). d \<in> set (preorder (child p ! k)))"
  unfolding descendants_def set_concat set_map by (auto simp: in_set_conv_nth [of _ "child p"]) (use nth_mem in blast)

lemma child_in_descendants: "k < length (child p) \<Longrightarrow> child p ! k \<in> set (descendants p)"
  unfolding in_descendants preorder_eq by auto

lemma free_for_child:
  assumes "wf_res p" "k < length (child p)" "overlaps (child p ! k) res" "rstart res \<le> rend res" "\<not> busy (child p ! k)"
  shows "free_for res p \<longleftrightarrow> free_for res (child p ! k)"
proof
  let ?c = "child p ! k"
  note c = child_in_descendants [OF assms(2)]
  assume f: "free_for res p"
  then have "contains ?c res" using c assms(3) by (auto simp: free_for_def)
  moreover have "set (descendants ?c) \<subseteq> set (descendants p)"
    using assms(2) unfolding in_descendants [of _ p] subset_iff preorder_eq [of ?c] by (metis list.set_intros(2) preorder_eq)
  ultimately show "free_for res ?c" using f unfolding free_for_def by blast
next
  let ?c = "child p ! k"
  assume f: "free_for res ?c"
  then have c: "contains ?c res" by (simp add: free_for_def)
  have "\<not> busy d \<and> contains d res" if d: "d \<in> set (descendants p)" "overlaps d res" for d
  proof -
    obtain j where j: "j < length (child p)" "d \<in> set (preorder (child p ! j))" using iffD1 [OF in_descendants d(1)] by blast
    have "contains (child p ! j) d" using preorder_contained [OF j(2) wf_child [OF assms(1) j(1)]] by blast
    then have "overlaps (child p ! j) res" using overlaps_contains d(2) by blast
    then have "overlaps (child p ! j) ?c" using overlaps_contains overlaps_sym c by blast
    then have "j = k" using kids_apart [of "rstart p" "rend p" "child p" j k] assms(1,2) j(1) by (auto simp: wf_res_iff [of p])
    then show ?thesis using j(2) f c assms(5) d(2) by (auto simp: preorder_eq free_for_def)
  qed
  moreover have "contains p ?c" using child_contained assms(1,2) by simp
  ultimately show "free_for res p" using assms(4) c contains_trans by (auto simp: free_for_def)
qed

lemma region_loop_iff: "wf_res p \<Longrightarrow> region_loop p res \<noteq> None \<longleftrightarrow> free_for res p"
proof (induction p res rule: region_loop.induct)
  case (1 p res)
  show ?case
  proof (cases "request_resource_locked p res")
    case (Inr r)
    obtain ls rs where lr: "child p = ls @ rs" "contains p res" "rstart res \<le> rend res"
        "\<forall>c \<in> set ls. rend c < rstart res" "\<forall>c \<in> set rs. rend res < rstart c"
      using request_locked_Inr [OF Inr "1.prems"] by metis
    have "\<not> overlaps d res" if dd: "d \<in> set (descendants p)" for d
    proof
      assume o: "overlaps d res"
      obtain j where j: "j < length (child p)" "d \<in> set (preorder (child p ! j))" using iffD1 [OF in_descendants dd] by blast
      then have "overlaps (child p ! j) res"
        using preorder_contained [OF j(2) wf_child [OF "1.prems" j(1)]] overlaps_contains [OF o] by blast
      moreover have "child p ! j \<in> set ls \<union> set rs" using nth_mem [OF j(1)] lr(1) by simp
      ultimately show False using lr(4,5) by (auto simp: overlaps_def)
    qed
    then show ?thesis using lr(2,3) region_loop_cases(1) [OF Inr] by (auto simp: free_for_def)
  next
    case (Inl c)
    show ?thesis
    proof (cases c)
      case Root
      then have "\<not> (contains p res \<and> rstart res \<le> rend res)"
        using Inl insert_locked_None insert_locked_cases(2) by blast
      then show ?thesis using Inl Root region_loop_cases(2) by (auto simp: free_for_def)
    next
      case (Child k)
      note q = request_locked_Child [OF Inl [unfolded Child]]
      show ?thesis
      proof (cases "busy (child p ! k)")
        case True
        show ?thesis using child_in_descendants [OF q(1)] True q(2) region_loop_cases(3) [OF Inl [unfolded Child] True] by (auto simp: free_for_def)
      next
        case False
        then show ?thesis
          using "1.IH" [OF Inl Child False wf_child [OF "1.prems" q(1)]] free_for_child [OF "1.prems" q(1,2,5)]
            region_loop_cases(4) [OF Inl [unfolded Child] False] by simp
      qed
    qed
  qed
qed

section \<open>Releasing a region\<close>

lemma release_list_Cons:
  shows "\<not> (rstart r \<le> start \<and> rend r \<ge> en) \<Longrightarrow>
      release_list start en (r # rs) = map_option ((#) r) (release_list start en rs)"
    and "rstart r \<le> start \<Longrightarrow> rend r \<ge> en \<Longrightarrow> \<not> busy r \<Longrightarrow>
      release_list start en (r # rs) = map_option (\<lambda>cs. set_child cs r # rs) (release_list start en (child r))"
    and "rstart r \<le> start \<Longrightarrow> rend r \<ge> en \<Longrightarrow> busy r \<Longrightarrow>
      release_list start en (r # rs) = (if rstart r = start \<and> rend r = en then Some rs else None)"
proof -
  obtain i nm s e f cs where r: "r = Res i nm s e f cs" by (cases r)
  show "\<not> (rstart r \<le> start \<and> rend r \<ge> en) \<Longrightarrow>
      release_list start en (r # rs) = map_option ((#) r) (release_list start en rs)"
    unfolding r by auto
  show "rstart r \<le> start \<Longrightarrow> rend r \<ge> en \<Longrightarrow> \<not> busy r \<Longrightarrow>
      release_list start en (r # rs) = map_option (\<lambda>cs. set_child cs r # rs) (release_list start en (child r))"
    unfolding r set_child_def by simp
  show "rstart r \<le> start \<Longrightarrow> rend r \<ge> en \<Longrightarrow> busy r \<Longrightarrow>
      release_list start en (r # rs) = (if rstart r = start \<and> rend r = en then Some rs else None)"
    unfolding r by simp
qed

lemma release_list_skip:
  "\<forall>c \<in> set l. rend c < start \<Longrightarrow> start \<le> en \<Longrightarrow> release_list start en (l @ xs) = map_option ((@) l) (release_list start en xs)"
proof (induction l)
  case (Cons c l)
  then have "\<not> rend c \<ge> en" by (auto dest: order.strict_trans2)
  then show ?case using Cons by (simp add: release_list_Cons(1) option.map_comp comp_def)
qed (cases "release_list start en xs"; simp)

lemma release_request_region:
  "region_loop p res = Some p' \<Longrightarrow> wf_res p \<Longrightarrow> busy res \<Longrightarrow>
   release_list (rstart res) (rend res) (child p') = Some (child p)"
proof (induction p res arbitrary: p' rule: region_loop.induct)
  case (1 p res)
  show ?case
  proof (cases "request_resource_locked p res")
    case (Inr r)
    then have r: "p' = r" using "1.prems"(1) region_loop_cases(1) by simp
    obtain ls rs where "child p = ls @ rs" "r = set_child (ls @ res # rs) p" "rstart res \<le> rend res" "\<forall>c \<in> set ls. rend c < rstart res"
      using request_locked_Inr [OF Inr "1.prems"(2)] by metis
    then show ?thesis using r "1.prems"(3) by (simp add: release_list_skip release_list_Cons(3))
  next
    case (Inl c)
    then obtain k where k: "c = Child k"
      using "1.prems"(1) by (cases c) (simp_all add: region_loop_cases(2))
    note q = request_locked_Child [OF Inl [unfolded k]]
    let ?c = "child p ! k"
    have nb: "\<not> busy ?c" using "1.prems"(1) region_loop_cases(3) Inl k by force
    then obtain f where f: "region_loop ?c res = Some f" "p' = set_child ((child p)[k := f]) p"
      using "1.prems"(1) region_loop_cases(4) [OF Inl [unfolded k] nb] by auto
    have w: "wf_res ?c" by (rule wf_child [OF "1.prems"(2) q(1)])
    have ih: "release_list (rstart res) (rend res) (child f) = Some (child ?c)"
      by (rule "1.IH" [OF Inl k nb f(1) w "1.prems"(3)])
    have "free_for res ?c" using region_loop_iff [OF w] f(1) by blast
    then have cr: "contains ?c res" by (simp add: free_for_def)
    have fi: "rstart f = rstart ?c" "rend f = rend ?c" "busy f = busy ?c" "set_child (child ?c) f = ?c"
      by (subst region_loop_shape [OF f(1)], simp)+
    have l: "\<forall>c \<in> set (take k (child p)). rend c < rstart res" using q(1,3) by (auto simp: in_set_conv_nth)
    have "release_list (rstart res) (rend res) (take k (child p) @ f # drop (Suc k) (child p)) =
        Some (take k (child p) @ ?c # drop (Suc k) (child p))"
      using cr nb ih fi by (simp add: release_list_skip [OF l q(5)] release_list_Cons(2) contains_def)
    then show ?thesis
      unfolding f(2) set_child_simps upd_conv_take_nth_drop [OF q(1)] using id_take_nth_drop [OF q(1)] by simp
  qed
qed

lemma release_list_wf:
  "release_list start en cs = Some cs' \<Longrightarrow> wf_kids lo hi cs \<Longrightarrow>
   wf_kids lo hi cs' \<and> kid_regions cs' \<subseteq># kid_regions cs \<and> rstart ` set cs' \<subseteq> rstart ` set cs"
proof (induction start en cs arbitrary: cs' lo hi rule: release_list.induct)
  case (2 start en i nm s e f cs rs)
  let ?r = "Res i nm s e f cs"
  have w: "wf_res ?r" "wf_kids lo hi rs" "lo \<le> s" "e \<le> hi" "\<forall>d \<in> set rs. e < rstart d"
    using "2.prems"(2) by (simp_all add: wf_kids_Cons)
  consider "\<not> (s \<le> start \<and> en \<le> e)" | "s \<le> start" "en \<le> e" "\<not> busy ?r" | "s \<le> start" "en \<le> e" "busy ?r" by blast
  then show ?case
  proof cases
    case 1
    then obtain rs' where rs: "release_list start en rs = Some rs'" "cs' = ?r # rs'" using "2.prems"(1) by auto
    have ih: "wf_kids lo hi rs'" "kid_regions rs' \<subseteq># kid_regions rs" "rstart ` set rs' \<subseteq> rstart ` set rs"
      using "2.IH"(2) [OF 1 rs(1) w(2)] by blast+
    have "\<forall>d \<in> set rs'. e < rstart d" using ih(3) w(5) by (metis image_iff subset_iff)
    then show ?thesis using rs(2) ih w by (auto simp: wf_kids_Cons)
  next
    case 2
    then obtain ds where ds: "release_list start en cs = Some ds" "cs' = set_child ds ?r # rs"
      using "2.prems"(1) by (auto simp: set_child_def)
    have "wf_kids s e cs" using w(1) by (simp add: wf_res_iff [of ?r])
    then have ih: "wf_kids s e ds" "kid_regions ds \<subseteq># kid_regions cs"
      using "2.IH"(1) [OF conjI [OF 2(1,2)] 2(3) ds(1)] by blast+
    have "wf_res (set_child ds ?r)" using wf_set_child [OF w(1), of ds] ih(1) by simp
    then show ?thesis using ds(2) w ih(2) by (auto simp: wf_kids_Cons regions_eq [of ?r] regions_eq [of "set_child _ _"])
  next
    case 3
    then have "cs' = rs" using "2.prems"(1) by (simp split: if_splits)
    then show ?thesis using w by auto
  qed
qed simp

section \<open>Regions as an exclusive resource\<close>

text \<open>
  The busy ranges below a node.  As long as drivers only nest regions in nodes that
  are not busy, \<open>__request_region\<close> and \<open>__release_region\<close> hand out
  ranges to one owner at a time.
\<close>

definition busy_stamp :: "nat \<times> u32 \<times> u32 \<times> u32 \<Rightarrow> bool" where
  "busy_stamp x \<longleftrightarrow> (case x of (i, s, e, f) \<Rightarrow> f AND IORESOURCE_BUSY \<noteq> 0)"

definition stamp_range :: "nat \<times> u32 \<times> u32 \<times> u32 \<Rightarrow> u32 \<times> u32" where
  "stamp_range x = (case x of (i, s, e, f) \<Rightarrow> (s, e))"

definition busy_ranges :: "resource list \<Rightarrow> (u32 \<times> u32) multiset" where
  "busy_ranges cs = image_mset stamp_range (filter_mset busy_stamp (kid_regions cs))"

definition busy_leaves :: "resource list \<Rightarrow> bool" where
  "busy_leaves cs \<longleftrightarrow> (\<forall>c \<in> set cs. \<forall>d \<in> set (preorder c). busy d \<longrightarrow> child d = [])"

definition region_inv :: "resource \<Rightarrow> bool" where
  "region_inv r \<longleftrightarrow> wf_res r \<and> busy_leaves (child r) \<and> (\<forall>x. count (busy_ranges (child r)) x \<le> 1)"

definition held_regions :: "resource \<Rightarrow> (u32 \<times> u32) set" where
  "held_regions r = {(s, n). (s, s + n - 1) \<in># busy_ranges (child r)}"

lemma busy_stamp [simp]: "busy_stamp (stamp d) = busy d" "stamp_range (stamp d) = (rstart d, rend d)"
  by (simp_all add: busy_stamp_def stamp_def busy_def stamp_range_def)

lemma in_regions: "x \<in># regions r \<longleftrightarrow> (\<exists>d \<in> set (preorder r). x = stamp d)"
  by (auto simp: regions_def)

lemma in_kid_regions: "x \<in># kid_regions cs \<longleftrightarrow> (\<exists>c \<in> set cs. \<exists>d \<in> set (preorder c). x = stamp d)"
  by (induction cs) (auto simp: in_regions)

lemma in_busy_ranges:
  "x \<in># busy_ranges cs \<longleftrightarrow> (\<exists>c \<in> set cs. \<exists>d \<in> set (preorder c). busy d \<and> x = (rstart d, rend d))"
proof -
  have "x \<in># busy_ranges cs \<longleftrightarrow> (\<exists>y. y \<in># kid_regions cs \<and> busy_stamp y \<and> x = stamp_range y)"
    unfolding busy_ranges_def by (auto simp del: split_paired_Ex)
  then show ?thesis unfolding in_kid_regions by (metis busy_stamp)
qed

lemma busy_ranges_Nil [simp]: "busy_ranges [] = {#}"
  by (simp add: busy_ranges_def)

lemma busy_leaves_Cons: "busy_leaves (c # cs) \<longleftrightarrow> (busy c \<longrightarrow> child c = []) \<and> busy_leaves (child c) \<and> busy_leaves cs"
  by (cases c) (auto simp: busy_leaves_def)

lemma busy_leaves_append: "busy_leaves (cs @ ds) \<longleftrightarrow> busy_leaves cs \<and> busy_leaves ds"
  by (auto simp: busy_leaves_def)

lemma busy_leaves_update:
  assumes "busy_leaves cs" "k < length cs" "\<not> busy c" "busy_leaves (child c)"
  shows "busy_leaves (cs[k := c])"
proof -
  have "busy_leaves (take k cs @ cs ! k # drop (Suc k) cs)" using assms(1) id_take_nth_drop [OF assms(2)] by simp
  then show ?thesis
    unfolding upd_conv_take_nth_drop [OF assms(2)] using assms(3,4) by (simp add: busy_leaves_append busy_leaves_Cons)
qed

lemma busy_leaves_nth: "busy_leaves cs \<Longrightarrow> k < length cs \<Longrightarrow> busy_leaves (child (cs ! k))"
  by (metis busy_leaves_Cons busy_leaves_append id_take_nth_drop)

lemma region_loop_leaves:
  "region_loop p res = Some p' \<Longrightarrow> wf_res p \<Longrightarrow> busy_leaves (child p) \<Longrightarrow> child res = [] \<Longrightarrow> busy_leaves (child p')"
proof (induction p res arbitrary: p' rule: region_loop.induct)
  case (1 p res)
  show ?case
  proof (cases "request_resource_locked p res")
    case (Inr r)
    then have r: "p' = r" using "1.prems"(1) region_loop_cases(1) by simp
    obtain ls rs where "child p = ls @ rs" "r = set_child (ls @ res # rs) p"
      using request_locked_Inr [OF Inr "1.prems"(2)] by metis
    moreover have "busy_leaves []" by (simp add: busy_leaves_def)
    ultimately show ?thesis using r "1.prems"(3,4) by (simp add: busy_leaves_append busy_leaves_Cons)
  next
    case (Inl c)
    then obtain k where k: "c = Child k"
      using "1.prems"(1) by (cases c) (simp_all add: region_loop_cases(2))
    note q = request_locked_Child [OF Inl [unfolded k]]
    have nb: "\<not> busy (child p ! k)" using "1.prems"(1) region_loop_cases(3) Inl k by force
    then obtain f where f: "region_loop (child p ! k) res = Some f" "p' = set_child ((child p)[k := f]) p"
      using "1.prems"(1) region_loop_cases(4) [OF Inl [unfolded k] nb] by auto
    have "busy_leaves (child f)"
      using "1.IH" [OF Inl k nb f(1) wf_child [OF "1.prems"(2) q(1)] busy_leaves_nth [OF "1.prems"(3) q(1)] "1.prems"(4)] .
    moreover have "\<not> busy f" using nb by (subst region_loop_shape [OF f(1)]) simp
    ultimately show ?thesis using busy_leaves_update [OF "1.prems"(3) q(1)] f(2) by simp
  qed
qed

lemma release_list_Some:
  "release_list start en cs = Some cs' \<Longrightarrow> busy_leaves cs \<Longrightarrow>
   busy_leaves cs' \<and> busy_ranges cs = add_mset (start, en) (busy_ranges cs')"
proof (induction start en cs arbitrary: cs' rule: release_list.induct)
  case (2 start en i nm s e f cs rs)
  let ?r = "Res i nm s e f cs"
  have l: "busy ?r \<longrightarrow> cs = []" "busy_leaves cs" "busy_leaves rs" using "2.prems"(2) by (simp_all add: busy_leaves_Cons)
  have br: "busy_ranges (r # ds) = (if busy r then {#(rstart r, rend r)#} else {#}) + busy_ranges (child r) + busy_ranges ds" for r ds
    by (simp add: busy_ranges_def regions_eq [of r])
  consider "\<not> (s \<le> start \<and> en \<le> e)" | "s \<le> start" "en \<le> e" "\<not> busy ?r" | "s \<le> start" "en \<le> e" "busy ?r" by blast
  then show ?case
  proof cases
    case 1
    then obtain rs' where rs: "release_list start en rs = Some rs'" "cs' = ?r # rs'" using "2.prems"(1) by auto
    have ih: "busy_leaves rs' \<and> busy_ranges rs = add_mset (start, en) (busy_ranges rs')"
      by (rule "2.IH"(2) [OF 1 rs(1) l(3)])
    then show ?thesis using rs(2) l by (simp add: busy_leaves_Cons br)
  next
    case 2
    then obtain ds where ds: "release_list start en cs = Some ds" "cs' = set_child ds ?r # rs"
      using "2.prems"(1) by (auto simp: set_child_def)
    have ih: "busy_leaves ds \<and> busy_ranges cs = add_mset (start, en) (busy_ranges ds)"
      by (rule "2.IH"(1) [OF conjI [OF 2(1,2)] 2(3) ds(1) l(2)])
    then show ?thesis using ds(2) l 2(3) by (simp add: busy_leaves_Cons br)
  next
    case 3
    then have "cs' = rs" "s = start" "e = en" using "2.prems"(1) by (simp_all split: if_splits)
    then show ?thesis using l 3(3) by (simp add: br)
  qed
qed simp

lemma release_list_None:
  "release_list start en cs = None \<Longrightarrow> wf_kids lo hi cs \<Longrightarrow> busy_leaves cs \<Longrightarrow> start \<le> en \<Longrightarrow>
   (start, en) \<notin># busy_ranges cs"
proof (induction start en cs arbitrary: lo hi rule: release_list.induct)
  case (1 start en)
  then show ?case by simp
next
  case (2 start en i nm s e f cs rs)
  let ?r = "Res i nm s e f cs"
  have l: "busy ?r \<longrightarrow> cs = []" "busy_leaves cs" "busy_leaves rs" using "2.prems"(3) by (simp_all add: busy_leaves_Cons)
  have w: "wf_res ?r" "wf_kids lo hi rs" "\<forall>d \<in> set rs. e < rstart d"
    using "2.prems"(2) by (simp_all add: wf_kids_Cons)
  have sub: "contains ?r d" if "d \<in> set (preorder ?r)" for d using preorder_contained [OF that w(1)] by blast
  have later: "(start, en) \<notin># busy_ranges rs" if "s \<le> start" "en \<le> e"
  proof
    assume "(start, en) \<in># busy_ranges rs"
    then obtain c d where c: "c \<in> set rs" "d \<in> set (preorder c)" "start = rstart d" "en = rend d"
      by (auto simp: in_busy_ranges)
    then have "contains c d" using preorder_contained wf_kidsD [OF w(2)] by blast
    then have "e < start" using w(3) c by (auto simp: contains_def dest: less_le_trans)
    then show False using that(2) "2.prems"(4) by order
  qed
  have rs: "(start, en) \<notin># busy_ranges (?r # rs)"
    if "(start, en) \<notin># busy_ranges rs" "\<forall>d \<in> set (preorder ?r). busy d \<longrightarrow> (start, en) \<noteq> (rstart d, rend d)"
    using that by (auto simp: in_busy_ranges)
  consider "\<not> (s \<le> start \<and> en \<le> e)" | "s \<le> start" "en \<le> e" "\<not> busy ?r" | "s \<le> start" "en \<le> e" "busy ?r" by blast
  then show ?case
  proof cases
    case 1
    then have "release_list start en rs = None" using "2.prems"(1) by auto
    then have "(start, en) \<notin># busy_ranges rs" using "2.IH"(2) [OF 1 _ w(2) l(3) "2.prems"(4)] by blast
    moreover have "(start, en) \<noteq> (rstart d, rend d)" if "d \<in> set (preorder ?r)" for d
      using sub [OF that] 1 by (auto simp: contains_def)
    ultimately show ?thesis using rs by blast
  next
    case 2
    then have "release_list start en cs = None" using "2.prems"(1) by auto
    moreover have "wf_kids s e cs" using w(1) by (simp add: wf_res_iff [of ?r])
    ultimately have n: "(start, en) \<notin># busy_ranges cs"
      using "2.IH"(1) [OF conjI [OF 2(1,2)] 2(3) _ _ l(2) "2.prems"(4)] by blast
    have "busy d \<longrightarrow> (start, en) \<noteq> (rstart d, rend d)" if "d \<in> set (preorder ?r)" for d
      using that n 2(3) by (auto simp: in_busy_ranges)
    then show ?thesis using rs [OF later [OF 2(1,2)]] by blast
  next
    case 3
    then have "s \<noteq> start \<or> e \<noteq> en" using "2.prems"(1) by (auto split: if_splits)
    then have "busy d \<longrightarrow> (start, en) \<noteq> (rstart d, rend d)" if "d \<in> set (preorder ?r)" for d
      using that l(1) 3(3) by auto
    then show ?thesis using rs [OF later [OF 3(1,2)]] by blast
  qed
qed

text \<open>The calls in the form of the contract: NULL is an error.\<close>

definition region_request :: "bool \<times> string \<times> u32 \<Rightarrow> u32 \<times> u32 \<Rightarrow> resource \<Rightarrow> int \<times> resource" where
  "region_request e x p =
     (case e of (alloc, nm, flags) \<Rightarrow>
        case request_region alloc p (fst x) (snd x) nm flags of
          (None, p') \<Rightarrow> (-EBUSY, p')
        | (Some _, p') \<Rightarrow> (0, p'))"

definition region_release :: "u32 \<times> u32 \<Rightarrow> resource \<Rightarrow> resource" where
  "region_release x p = release_region p (fst x) (snd x)"

lemma busy_flag [simp]: "busy (region i nm s e (IORESOURCE_BUSY OR f))"
proof -
  have "bit ((IORESOURCE_BUSY OR f) AND IORESOURCE_BUSY) 31" by (simp add: bit_simps IORESOURCE_BUSY_def)
  then show ?thesis unfolding busy_def region_simps by (metis bit_0_eq bot_apply bot_bool_def)
qed

lemma region_request_cases:
  obtains "region_request e (s, n) p = (-EBUSY, p)"
  | p' i nm f where "region_request e (s, n) p = (0, p')" "region_loop p (region i nm s (s + n - 1) (IORESOURCE_BUSY OR f)) = Some p'"
proof -
  obtain alloc nm f where e: "e = (alloc, nm, f)" by (cases e)
  let ?l = "region_loop p (region (fresh_id p) nm s (s + n - 1) (IORESOURCE_BUSY OR f))"
  show ?thesis
  proof (cases "alloc \<and> ?l \<noteq> None")
    case True
    then obtain p' where "?l = Some p'" by blast
    moreover from this True have "region_request e (s, n) p = (0, p')" by (simp add: e region_request_def request_region_def)
    ultimately show ?thesis using that(2) by blast
  next
    case False
    then have "region_request e (s, n) p = (-EBUSY, p)" by (auto simp: e region_request_def request_region_def)
    then show ?thesis by (rule that(1))
  qed
qed

lemma region_loop_busy_ranges:
  assumes "region_loop p (region i nm s e (IORESOURCE_BUSY OR f)) = Some p'" "wf_res p"
  shows "busy_ranges (child p') = add_mset (s, e) (busy_ranges (child p))" "(s, e) \<notin># busy_ranges (child p)" "s \<le> e"
proof -
  let ?res = "region i nm s e (IORESOURCE_BUSY OR f)"
  have w: "regions p' = add_mset (stamp ?res) (regions p)" "stamp p' = stamp p"
    using region_loop_wf [OF assms] by simp_all
  then have "kid_regions (child p') = add_mset (stamp ?res) (kid_regions (child p))"
    unfolding regions_eq [of p] regions_eq [of p'] by simp
  then show "busy_ranges (child p') = add_mset (s, e) (busy_ranges (child p))" by (simp add: busy_ranges_def)
  have fr: "free_for ?res p" using region_loop_iff [OF assms(2)] assms(1) by blast
  then show "s \<le> e" by (simp add: free_for_def)
  then show "(s, e) \<notin># busy_ranges (child p)"
    using fr by (auto simp: in_busy_ranges free_for_def descendants_def overlaps_def)
qed

lemma held_insert:
  assumes "busy_ranges (child p') = add_mset (s, s + n - 1) (busy_ranges (child p))"
  shows "held_regions p' = insert (s, n) (held_regions p)"
  using assms by (auto simp: held_regions_def algebra_simps)

lemma count_add_mset_le: "(\<forall>x. count M x \<le> 1) \<Longrightarrow> a \<notin># M \<Longrightarrow> \<forall>x. count (add_mset a M) x \<le> 1"
  by (auto simp: not_in_iff)

lemma count_add_mset_leD: "\<forall>x. count (add_mset a M) x \<le> 1 \<Longrightarrow> (\<forall>x. count M x \<le> 1) \<and> a \<notin># M"
proof -
  assume c: "\<forall>x. count (add_mset a M) x \<le> 1"
  have "count M x \<le> count (add_mset a M) x" for x by simp
  then have "\<forall>x. count M x \<le> 1" using c le_trans by blast
  moreover have "count M a = 0" using spec [OF c, of a] by simp
  ultimately show ?thesis by (simp add: not_in_iff)
qed

interpretation regions: exclusive_resource region_inv held_regions region_request region_release
proof
  show "region_inv p'" if "region_inv p" "region_request e x p = (st, p')" for p e x st p'
  proof (cases rule: region_request_cases [of e "fst x" "snd x" p])
    case (2 q i nm f)
    have w: "wf_res p" "busy_leaves (child p)" "\<forall>y. count (busy_ranges (child p)) y \<le> 1"
      using that(1) by (simp_all add: region_inv_def)
    have "p' = q" using 2(1) that(2) by simp
    then show ?thesis
      using region_loop_wf [OF 2(2) w(1)] region_loop_leaves [OF 2(2) w(1,2)]
        count_add_mset_le [OF w(3) region_loop_busy_ranges(2) [OF 2(2) w(1)]] region_loop_busy_ranges(1) [OF 2(2) w(1)]
      by (simp add: region_inv_def)
  qed (use that in simp)
  show "p' = p" if "region_inv p" "region_request e x p = (st, p')" "st < 0" for p e x st p'
    by (cases rule: region_request_cases [of e "fst x" "snd x" p]) (use that in simp_all)
  show "x \<notin> held_regions p \<and> held_regions p' = insert x (held_regions p)"
    if "region_inv p" "region_request e x p = (st, p')" "0 \<le> st" for p e x st p'
  proof (cases rule: region_request_cases [of e "fst x" "snd x" p])
    case 1
    then show ?thesis using that by (simp add: errno_defs)
  next
    case (2 q i nm f)
    have w: "wf_res p" using that(1) by (simp add: region_inv_def)
    have "p' = q" using 2(1) that(2) by simp
    then show ?thesis
      using region_loop_busy_ranges(2) [OF 2(2) w] held_insert [OF region_loop_busy_ranges(1) [OF 2(2) w]]
      by (cases x) (simp add: held_regions_def)
  qed
  have rel: "region_inv (region_release x p) \<and> held_regions (region_release x p) = held_regions p - {x}"
    if "region_inv p" for x p
  proof -
    obtain s n where x: "x = (s, n)" by (cases x)
    let ?e = "s + n - 1"
    have w: "wf_res p" "busy_leaves (child p)" "\<forall>y. count (busy_ranges (child p)) y \<le> 1" "wf_kids (rstart p) (rend p) (child p)"
      using that by (simp_all add: region_inv_def wf_res_iff)
    show ?thesis
    proof (cases "release_list s ?e (child p)")
      case None
      have "(s, ?e) \<notin># busy_ranges (child p)"
      proof (cases "s \<le> ?e")
        case True
        then show ?thesis by (rule release_list_None [OF None w(4,2)])
      next
        case False
        then show ?thesis
          using preorder_contained wf_kidsD [OF w(4)] wf_res_range by (auto simp: in_busy_ranges)
      qed
      then show ?thesis using that None x by (auto simp: region_release_def release_region_def held_regions_def)
    next
      case (Some cs)
      have r: "busy_leaves cs" "busy_ranges (child p) = add_mset (s, ?e) (busy_ranges cs)"
        using release_list_Some [OF Some w(2)] by blast+
      have c: "\<forall>y. count (busy_ranges cs) y \<le> 1" "(s, ?e) \<notin># busy_ranges cs"
        using count_add_mset_leD [OF w(3) [unfolded r(2)]] by blast+
      have "held_regions p = insert (s, n) (held_regions (set_child cs p))"
        by (rule held_insert) (simp add: r(2))
      moreover have "(s, n) \<notin> held_regions (set_child cs p)" using c(2) by (simp add: held_regions_def)
      ultimately show ?thesis
        using Some x r(1) c(1) wf_set_child [OF w(1)] release_list_wf [OF Some w(4)]
        by (simp add: region_release_def release_region_def region_inv_def)
    qed
  qed
  show "region_inv (region_release x p)" if "region_inv p" for x p using rel [OF that] by blast
  show "held_regions (region_release x p) = held_regions p - {x}" if "region_inv p" for x p using rel [OF that] by blast
qed

text \<open>A held region refuses every request that meets it.\<close>

lemma held_blocks:
  assumes "region_inv p" "(s, n) \<in> held_regions p" "s' \<le> s + n - 1" "s \<le> s' + n' - 1"
  shows "request_region alloc p s' n' nm flags = (None, p)"
proof -
  have w: "wf_res p" using assms(1) by (simp add: region_inv_def)
  obtain c d where d: "c \<in> set (child p)" "d \<in> set (preorder c)" "busy d" "rstart d = s" "rend d = s + n - 1"
    using assms(2) by (auto simp: held_regions_def in_busy_ranges)
  then have "d \<in> set (descendants p)" by (auto simp: descendants_def)
  moreover have "overlaps d (region i nm s' (s' + n' - 1) f)" for i f using d(4,5) assms(3,4) by (simp add: overlaps_def)
  ultimately have "\<not> free_for (region (fresh_id p) nm s' (s' + n' - 1) (IORESOURCE_BUSY OR flags)) p"
    using d(3) by (auto simp: free_for_def)
  then have "region_loop p (region (fresh_id p) nm s' (s' + n' - 1) (IORESOURCE_BUSY OR flags)) = None"
    using region_loop_iff [OF w] by blast
  then show ?thesis by (simp add: request_region_def)
qed

end
