(* ===== verification/Resource_Alloc.thy ===== *)
theory Resource_Alloc
  imports Resource_Region
begin

text \<open>
  Reservation with splits and allocation of a free range (kernel/resource.c), the
  interleavings of all operations on a tree, and the properties of the trees.
\<close>

section \<open>Reserving with splits\<close>

definition spans :: "resource \<Rightarrow> u32 \<Rightarrow> u32 \<Rightarrow> bool" where
  "spans r start en \<longleftrightarrow> (\<forall>x. start \<le> x \<longrightarrow> x \<le> en \<longrightarrow> (\<exists>c \<in> set (child r). rstart c \<le> x \<and> x \<le> rend c))"

lemma unat_pred: "(a :: u32) < b \<Longrightarrow> unat (b - 1) = unat b - 1"
  by (rule unat_minus_one) auto

lemma unat_succ: "(a :: u32) < b \<Longrightarrow> unat (a + 1) = Suc (unat a)"
proof -
  assume "a < b"
  then have "unat a + 1 < 2 ^ LENGTH(32)"
    using unsigned_less [of b, where ?'a = nat] unfolding word_less_nat_alt by linarith
  then show ?thesis by (simp add: unat_word_ariths)
qed

lemma spans_mono: "spans r s e \<Longrightarrow> set (child r) \<subseteq> set (child r') \<Longrightarrow> spans r' s e"
  unfolding spans_def by blast

lemma spans_parts:
  assumes "c \<in> set (child r)" "rstart c > start \<Longrightarrow> spans r start (rstart c - 1)" "rend c < en \<Longrightarrow> spans r (rend c + 1) en"
  shows "spans r start en"
  unfolding spans_def
proof (intro allI impI)
  fix x assume x: "start \<le> x" "x \<le> en"
  consider "x < rstart c" | "rstart c \<le> x" "x \<le> rend c" | "rend c < x" by (meson linorder_not_le)
  then show "\<exists>c \<in> set (child r). rstart c \<le> x \<and> x \<le> rend c"
  proof cases
    case 1
    then have "x \<le> rstart c - 1" using unat_pred [OF 1] by (simp add: word_le_nat_alt word_less_nat_alt)
    then show ?thesis using assms(2) 1 x by (auto simp: spans_def)
  next
    case 3
    then have "rend c + 1 \<le> x" using unat_succ [OF 3] by (simp add: word_le_nat_alt word_less_nat_alt)
    then show ?thesis using assms(3) 3 x by (auto simp: spans_def)
  qed (use assms(1) in blast)
qed

definition split_ok :: "(nat \<Rightarrow> bool) \<Rightarrow> u32 \<Rightarrow> u32 \<Rightarrow> resource \<Rightarrow> resource \<Rightarrow> bool" where
  "split_ok alloc start en root r \<longleftrightarrow>
     wf_res r \<and> stamp r = stamp root \<and> set (child root) \<subseteq> set (child r) \<and> ((\<forall>i. alloc i) \<longrightarrow> spans r start en)"

lemma split_ok_request:
  assumes "request_resource_locked root new = Inr r" "wf_res root" "child new = []" "rstart new = start" "rend new = en"
  shows "split_ok alloc start en root r"
proof -
  obtain l rs where lr: "child root = l @ rs" "r = set_child (l @ new # rs) root" "rstart new \<le> rend new"
    using request_locked_Inr [OF assms(1,2)] by metis
  have "wf_res new" using lr(3) assms(3) by (simp add: wf_res_iff)
  then show ?thesis
    using request_locked_wf [OF assms(1,2)] lr assms(4,5) by (auto simp: split_ok_def spans_def)
qed

lemma reserve_split_returns:
  assumes "wf_res root" "rstart root \<le> start" "start \<le> en" "en \<le> rend root"
  shows "\<exists>m r. reserve_split alloc nm start en (n, root) = Some (m, r) \<and> split_ok alloc start en root r"
  using assms
proof (induction "unat en - unat start" arbitrary: start en n root rule: less_induct)
  case less
  let ?new = "region (fresh_id root) nm start en IORESOURCE_BUSY"
  show ?case
  proof (cases "alloc n")
    case False
    then show ?thesis using less.prems(1) by (subst reserve_split.simps) (auto simp: split_ok_def)
  next
    case al: True
    show ?thesis
    proof (cases "request_resource_locked root ?new")
      case (Inr r)
      then show ?thesis
        using al split_ok_request [OF Inr less.prems(1)] by (subst reserve_split.simps) simp
    next
      case (Inl x)
      have "contains root ?new" using less.prems by (simp add: contains_def)
      then have "x \<noteq> Root"
        using Inl insert_locked_None [of root ?new] insert_locked_cases(2) [of root ?new] less.prems(3) by auto
      then obtain k where k: "request_resource_locked root ?new = Inl (Child k)" using Inl by (cases x) auto
      note q = request_locked_Child [OF k]
      define c where "c = child root ! k"
      have c: "c \<in> set (child root)" "rstart c \<le> en" "start \<le> rend c" "rstart root \<le> rstart c" "rend c \<le> rend root"
        using q child_contained [OF less.prems(1) nth_mem [OF q(1)]] by (auto simp: c_def overlaps_def contains_def)
      obtain m1 r1 where 1: "(if rstart c > start then reserve_split alloc nm start (rstart c - 1) (Suc n, root) else Some (Suc n, root)) = Some (m1, r1)"
          "wf_res r1" "stamp r1 = stamp root" "set (child root) \<subseteq> set (child r1)"
          "(\<forall>i. alloc i) \<Longrightarrow> rstart c > start \<Longrightarrow> spans r1 start (rstart c - 1)"
      proof (cases "rstart c > start")
        case True
        note u = unat_pred [OF True]
        have lt: "unat (rstart c - 1) - unat start < unat en - unat start" "start \<le> rstart c - 1" "rstart c - 1 \<le> rend root"
          using True c less.prems(4) u by (simp_all add: word_le_nat_alt word_less_nat_alt)
        show ?thesis
          using less.hyps [OF lt(1) less.prems(1,2) lt(2,3), of "Suc n"] True that by (auto simp: split_ok_def)
      qed (use that less.prems in auto)
      have s1: "rstart r1 = rstart root" "rend r1 = rend root" using 1(3) by (simp_all add: stamp_eq_iff)
      obtain m2 r2 where 2: "(if rend c < en then reserve_split alloc nm (rend c + 1) en (m1, r1) else Some (m1, r1)) = Some (m2, r2)"
          "wf_res r2" "stamp r2 = stamp r1" "set (child r1) \<subseteq> set (child r2)"
          "(\<forall>i. alloc i) \<Longrightarrow> rend c < en \<Longrightarrow> spans r2 (rend c + 1) en"
      proof (cases "rend c < en")
        case True
        note u = unat_succ [OF True]
        have lt: "unat en - unat (rend c + 1) < unat en - unat start" "rstart r1 \<le> rend c + 1" "rend c + 1 \<le> en" "en \<le> rend r1"
          using True c less.prems u s1 by (simp_all add: word_le_nat_alt word_less_nat_alt)
        show ?thesis
          using less.hyps [OF lt(1) 1(2) lt(2-4), of m1] True that by (auto simp: split_ok_def)
      qed (use that 1 in auto)
      have "split_ok alloc start en root r2"
        using 1 2 c(1) spans_parts [of c r2 start en] spans_mono [OF 1(5) 2(4)] by (auto simp: split_ok_def)
      moreover have "reserve_split alloc nm start en (n, root) =
          (if rstart c \<le> start \<and> rend c \<ge> en then Some (Suc n, root) else Some (m2, r2))"
        by (subst reserve_split.simps) (simp add: al k conflict_node_def c_def [symmetric] 1(1) 2(1))
      moreover have "split_ok alloc start en root root" if "rstart c \<le> start" "rend c \<ge> en"
        using that less.prems(1) c(1) spans_parts [of c root start en] by (auto simp: split_ok_def)
      ultimately show ?thesis by auto
    qed
  qed
qed

text \<open>
  A range that is not inside the root conflicts with the root itself, and one of
  the two recursive calls is made with the same range again.
\<close>

lemma reserve_split_inside:
  "reserve_split alloc nm start en st = Some y \<Longrightarrow>
   (\<forall>i. alloc i) \<longrightarrow> start \<le> en \<longrightarrow> rstart (snd st) \<le> start \<and> en \<le> rend (snd st)"
proof (erule reserve_split.raw_induct
    [where P = "\<lambda>alloc nm start en st y. (\<forall>i. alloc i) \<longrightarrow> start \<le> en \<longrightarrow> rstart (snd st) \<le> start \<and> en \<le> rend (snd st)",
      rotated], intro impI)
  fix f alloc nm start en st y
  assume ih: "\<And>alloc nm start en st y. f alloc nm start en st = Some y \<Longrightarrow>
        (\<forall>i. alloc i) \<longrightarrow> start \<le> en \<longrightarrow> rstart (snd st) \<le> start \<and> en \<le> rend (snd st)"
    and body: "(case st of (n, root) \<Rightarrow>
        if \<not> alloc n then Some (Suc n, root)
        else case request_resource_locked root (region (fresh_id root) nm start en IORESOURCE_BUSY) of
          Inl c \<Rightarrow>
            let q = conflict_node root c
            in if rstart q \<le> start \<and> rend q \<ge> en then Some (Suc n, root)
               else Option.bind
                      (if rstart q > start then f alloc nm start (rstart q - 1) (Suc n, root) else Some (Suc n, root))
                      (\<lambda>st1. if rend q < en then f alloc nm (rend q + 1) en st1 else Some st1)
        | Inr r \<Rightarrow> Some (Suc n, r)) = Some y"
    and al: "\<forall>i. alloc i" and le: "start \<le> en"
  obtain n root where st: "st = (n, root)" by (cases st)
  show "rstart (snd st) \<le> start \<and> en \<le> rend (snd st)"
  proof (rule ccontr)
    assume bad: "\<not> ?thesis"
    let ?new = "region (fresh_id root) nm start en IORESOURCE_BUSY"
    have r: "request_resource_locked root ?new = Inl Root"
      using bad st by (auto simp: request_resource_locked_def not_le)
    have b: "Option.bind
          (if rstart root > start then f alloc nm start (rstart root - 1) (Suc n, root) else Some (Suc n, root))
          (\<lambda>st1. if rend root < en then f alloc nm (rend root + 1) en st1 else Some st1) = Some y"
      using body al unfolding st prod.case r sum.case Let_def conflict_node_def conflict.case
      by (simp only: if_not_P [OF bad [unfolded st snd_conv]] simp_thms if_False)
    show False
    proof (cases "rstart root > start")
      case True
      then obtain z where "f alloc nm start (rstart root - 1) (Suc n, root) = Some z"
        using b by (auto simp: bind_eq_Some_conv)
      moreover have "start \<le> rstart root - 1"
        using True unat_pred [OF True] by (simp add: word_le_nat_alt word_less_nat_alt)
      ultimately show False using ih al True by (metis linorder_not_le snd_conv)
    next
      case False
      then have lt: "rend root < en" using bad st by (simp add: not_less not_le)
      then have "f alloc nm (rend root + 1) en (Suc n, root) = Some y" using b False by simp
      moreover have "rend root + 1 \<le> en"
        using lt unat_succ [OF lt] by (simp add: word_le_nat_alt word_less_nat_alt)
      ultimately show False using ih al lt by (metis linorder_not_le snd_conv)
    qed
  qed
qed

section \<open>Allocation\<close>

lemma unat_align_down: "unat (x AND NOT (mask k)) = unat x div 2 ^ k * 2 ^ k" for x :: u32
proof -
  have "x AND NOT (mask k) = push_bit k (drop_bit k x)"
    by (rule bit_eqI) (auto simp: bit_simps)
  moreover have "unat x div 2 ^ k * 2 ^ k < 2 ^ 32"
    by (rule le_less_trans [OF div_times_less_eq_dividend]) (use unsigned_less [of x, where ?'a = nat] in simp)
  moreover have "unat (push_bit k (drop_bit k x)) = take_bit 32 (unat x div 2 ^ k * 2 ^ k)"
    using unsigned_less [of x, where ?'a = nat]
    by (simp only: unsigned_push_bit_eq unsigned_drop_bit_eq) (simp add: push_bit_eq_mult drop_bit_eq_div take_bit_nat_eq_self)
  ultimately show ?thesis by (simp add: take_bit_nat_eq_self)
qed

lemma ALIGN_unat:
  assumes "k < 32"
  shows "unat (ALIGN x (2 ^ k)) = (unat x + (2 ^ k - 1)) mod 2 ^ 32 div 2 ^ k * 2 ^ k"
proof -
  define y where "y = x + mask k"
  have a: "unat (ALIGN x (2 ^ k)) = unat y div 2 ^ k * 2 ^ k"
    unfolding ALIGN_def y_def mask_eq_exp_minus_1 [symmetric] by (rule unat_align_down)
  have m: "unat (mask k :: u32) = 2 ^ k - 1" 
  proof -
    have "unat (push_bit k 1 :: u32) = 2 ^ k"
      using assms by (simp only: unsigned_push_bit_eq) (simp add: push_bit_eq_mult take_bit_nat_eq_self)
    then have "unat (2 ^ k :: u32) = 2 ^ k" by (simp add: push_bit_eq_mult)
    moreover from this have "(2 ^ k :: u32) \<noteq> 0" by (metis power_not_zero unat_0 zero_neq_numeral)
    ultimately show ?thesis by (simp add: mask_eq_exp_minus_1 unat_minus_one)
  qed
  have "unat y = (unat x + (2 ^ k - 1)) mod 2 ^ 32" by (simp add: y_def unat_word_ariths m)
  then show ?thesis by (simp only: a)
qed

text \<open>\<open>ALIGN\<close> gives a multiple of the alignment: the next one, or 0 where the addition wraps.\<close>

lemma ALIGN_pow2:
  assumes "k < 32"
  shows "2 ^ k dvd unat (ALIGN x (2 ^ k))" "ALIGN x (2 ^ k) = 0 \<or> x \<le> ALIGN x (2 ^ k)"
proof -
  note a = ALIGN_unat [OF assms, of x]
  show "2 ^ k dvd unat (ALIGN x (2 ^ k))" by (simp add: a)
  define y where "y = (unat x + (2 ^ k - 1)) mod 2 ^ 32"
  have x: "unat x < 2 ^ 32" using unsigned_less [of x, where ?'a = nat] by simp
  have k: "(2 :: nat) ^ k \<le> 2 ^ 32" by (rule power_increasing) (use assms in simp_all)
  show "ALIGN x (2 ^ k) = 0 \<or> x \<le> ALIGN x (2 ^ k)"
  proof (cases "unat x + (2 ^ k - 1) < 2 ^ 32")
    case True
    then have "y = unat x + (2 ^ k - 1)" by (simp add: y_def)
    moreover have "y mod 2 ^ k < 2 ^ k" "(1 :: nat) \<le> 2 ^ k" by simp_all
    ultimately have "unat x \<le> y div 2 ^ k * 2 ^ k" using div_mult_mod_eq [of y "2 ^ k"] by linarith
    then show ?thesis unfolding word_le_nat_alt a y_def by simp
  next
    case False
    then have "y = unat x + (2 ^ k - 1) - 2 ^ 32" using x k by (simp add: y_def mod_if)
    moreover have "(1 :: nat) \<le> 2 ^ k" by simp
    ultimately have "y < 2 ^ k" using x by linarith
    then show ?thesis using a by (simp add: y_def unat_eq_0)
  qed
qed

definition slot_start :: "u32 \<Rightarrow> u32 \<Rightarrow> u32" where
  "slot_start mn start = (if start < mn then mn else start)"

definition slot_end :: "u32 \<Rightarrow> u32 \<Rightarrow> resource list \<Rightarrow> u32" where
  "slot_end R mx this = (let en = (case this of [] \<Rightarrow> R | t # _ \<Rightarrow> rstart t - 1) in if en > mx then mx else en)"

lemma slot_bounds: "mn \<le> slot_start mn start" "slot_end R mx this \<le> mx"
  by (auto simp: slot_start_def slot_end_def Let_def)

lemma find_loop_eq:
  "find_loop R sz mn mx al None start this =
     (let s = ALIGN (slot_start mn start) al; e = slot_end R mx this
      in if s < e \<and> e - s \<ge> sz - 1 then (0, s, s + sz - 1)
         else case this of [] \<Rightarrow> (-EBUSY, s, e) | t # ts \<Rightarrow> find_loop R sz mn mx al None (rend t + 1) ts)"
  unfolding slot_start_def slot_end_def
  by (subst find_loop.simps) (simp only: Let_def option.case prod.case)

lemma find_loop_found:
  "find_loop R sz mn mx al None start this = (0, s, e) \<Longrightarrow>
   \<exists>s1 e3. mn \<le> s1 \<and> s = ALIGN s1 al \<and> s < e3 \<and> e3 \<le> mx \<and> sz - 1 \<le> e3 - s \<and> e = s + sz - 1"
proof (induction this arbitrary: start)
  case Nil
  then show ?case
    using slot_bounds(1) [of mn start] slot_bounds(2) [of R mx "[]"] unfolding find_loop_eq [of _ _ _ _ _ _ "[]"] Let_def
    by (auto simp: errno_defs split: if_split_asm)
next
  case (Cons t ts)
  show ?case
    using Cons slot_bounds(1) [of mn start] slot_bounds(2) [of R mx "t # ts"] unfolding find_loop_eq [of _ _ _ _ _ _ "t # ts"] Let_def
    by (auto split: if_split_asm)
qed

lemma slot_fits:
  assumes "(s :: u32) < e3" "sz - 1 \<le> e3 - s"
  shows "s \<le> s + sz - 1" "s + sz - 1 \<le> e3" "s + sz - 1 - s = sz - 1"
proof -
  have d: "unat (e3 - s) = unat e3 - unat s" using assms(1) by (simp add: unat_sub word_less_nat_alt word_le_nat_alt)
  then have le: "unat (sz - 1) + unat s \<le> unat e3" using assms by (simp add: word_le_nat_alt word_less_nat_alt)
  then have "unat (s + (sz - 1)) = unat s + unat (sz - 1)"
    using unsigned_less [of e3, where ?'a = nat] by (simp add: unat_word_ariths)
  then show "s \<le> s + sz - 1" "s + sz - 1 \<le> e3"
    using le by (simp_all add: word_le_nat_alt add_diff_eq)
qed simp

lemma find_resource_loop:
  "\<exists>start this. find_resource root sz mn mx al af = find_loop (rend root) sz mn mx al af start this"
  by (cases "child root") (auto simp: find_resource_def)

lemma allocate_resource_cases:
  assumes "allocate_resource root new sz mn mx (2 ^ k) None = (err, root', new')" "k < 32" "wf_res root" "child new = []"
  shows "err = -EBUSY \<and> root' = root \<or>
    err = 0 \<and> wf_res root' \<and> regions root' = add_mset (stamp new') (regions root) \<and> stamp root' = stamp root \<and>
    contains root new' \<and> (\<forall>c \<in> set (child root). \<not> overlaps c new') \<and> rend new' - rstart new' = sz - 1 \<and>
    rend new' \<le> mx \<and> 2 ^ k dvd unat (rstart new') \<and> (rstart new' = 0 \<or> mn \<le> rstart new')"
proof -
  obtain err0 s e where f: "find_resource root sz mn mx (2 ^ k) None = (err0, s, e)" by (metis prod_cases3)
  obtain start this where l: "find_loop (rend root) sz mn mx (2 ^ k) None start this = (err0, s, e)"
    using find_resource_loop [of root sz mn mx "2 ^ k" None] f by metis
  have e01: "err0 = 0 \<or> err0 = -EBUSY"
    using l by (induction this arbitrary: start) (auto simp: find_loop_eq Let_def split: if_split_asm)
  let ?new = "set_range s e new"
  show ?thesis
  proof (cases "err0 = 0 \<and> (\<exists>r. request_resource_locked root ?new = Inr r)")
    case False
    then have "err = -EBUSY \<and> root' = root"
      using assms(1) f e01 by (auto simp: allocate_resource_def Let_def errno_defs split: sum.splits)
    then show ?thesis by blast
  next
    case True
    then obtain r where r: "request_resource_locked root ?new = Inr r" "err0 = 0" by blast
    then have o: "err = 0" "root' = r" "new' = ?new" using assms(1) f by (auto simp: allocate_resource_def)
    obtain s1 e3 where g: "mn \<le> s1" "s = ALIGN s1 (2 ^ k)" "s < e3" "e3 \<le> mx" "sz - 1 \<le> e3 - s" "e = s + sz - 1"
      using find_loop_found [OF l [unfolded r(2)]] by blast
    note sl = slot_fits [OF g(3,5)]
    obtain ls rs where q: "child root = ls @ rs" "contains root ?new" "rstart ?new \<le> rend ?new"
        "\<forall>c \<in> set ls. rend c < rstart ?new" "\<forall>c \<in> set rs. rend ?new < rstart c"
      using request_locked_Inr [OF r(1) assms(3)] by metis
    have w: "wf_res ?new" using q(3) assms(4) by (simp add: wf_res_iff)
    have "\<forall>c \<in> set (child root). \<not> overlaps c ?new" using q by (auto simp: overlaps_def not_le)
    moreover have "s = 0 \<or> mn \<le> s" using ALIGN_pow2(2) [OF assms(2), of s1] g(1,2) by (auto intro: order_trans)
    moreover have "regions ?new = {#stamp ?new#}" using assms(4) by (simp add: regions_eq [of ?new])
    ultimately show ?thesis
      using o request_locked_wf [OF r(1) assms(3) w] q(2) ALIGN_pow2(1) [OF assms(2), of s1] g sl
      by (auto intro: order_trans)
  qed
qed

text \<open>Below a multiple of the alignment the addition does not wrap.\<close>

lemma ALIGN_below:
  assumes "k < 32" "x \<le> a" "2 ^ k dvd unat a"
  shows "x \<le> ALIGN x (2 ^ k)" "ALIGN x (2 ^ k) \<le> a"
proof -
  define A X K where "A = unat a" and "X = unat x" and "K = (2 :: nat) ^ k"
  have le: "X \<le> A" using assms(2) by (simp add: A_def X_def word_le_nat_alt)
  have "K dvd 2 ^ 32" unfolding K_def by (rule le_imp_power_dvd) (use assms(1) in simp)
  then have K: "0 < K" "K dvd 2 ^ 32" "K dvd A" using assms(3) by (simp_all add: K_def A_def)
  have A: "A < 2 ^ 32" using unsigned_less [of a, where ?'a = nat] by (simp add: A_def)
  obtain q where q: "A = K * q" using K(3) by (auto simp: dvd_def)
  obtain n where n: "(2 :: nat) ^ 32 = K * n" using K(2) by (auto simp: dvd_def)
  have "q < n" using A q n K(1) by (metis nat_mult_less_cancel1)
  then have "K * (q + 1) \<le> K * n" by (intro mult_le_mono2) simp
  then have "A + K \<le> 2 ^ 32" using q n by simp
  then have nw: "(X + (K - 1)) mod 2 ^ 32 = X + (K - 1)" using le K(1) by simp
  have u: "unat (ALIGN x (2 ^ k)) = (X + (K - 1)) div K * K"
    using ALIGN_unat [OF assms(1), of x] nw by (simp add: X_def K_def)
  have "(X + (K - 1)) mod K < K" using K(1) by simp
  then have "X \<le> (X + (K - 1)) div K * K" using div_mult_mod_eq [of "X + (K - 1)" K] K(1) by linarith
  then show "x \<le> ALIGN x (2 ^ k)" by (simp add: word_le_nat_alt u X_def)
  have "X + (K - 1) < K * (q + 1)" using le q K(1) by simp
  then have "(X + (K - 1)) div K < q + 1" using K(1) by (simp add: div_less_iff_less_mult mult.commute)
  then have "(X + (K - 1)) div K * K \<le> q * K" by (intro mult_le_mono1) simp
  then show "ALIGN x (2 ^ k) \<le> a" by (simp add: word_le_nat_alt u A_def [symmetric] q mult.commute)
qed

text \<open>\<open>free_slot root a sz mn mx\<close>: \<open>sz\<close> addresses from \<open>a\<close> on are free in the root and within the bounds.\<close>

definition free_slot :: "resource \<Rightarrow> u32 \<Rightarrow> u32 \<Rightarrow> u32 \<Rightarrow> u32 \<Rightarrow> bool" where
  "free_slot root a sz mn mx \<longleftrightarrow>
     rstart root \<le> a \<and> mn \<le> a \<and> a \<le> a + sz - 1 \<and> a + sz - 1 \<le> mx \<and> a + sz - 1 \<le> rend root \<and>
     (\<forall>c \<in> set (child root). rend c < a \<or> a + sz - 1 < rstart c)"

lemma slot_accepts:
  assumes k: "k < 32" "2 ^ k dvd unat a" and sz: "2 \<le> sz" "a \<le> a + sz - 1" and s1: "s1 \<le> a" and e: "a + sz - 1 \<le> e"
  shows "s1 \<le> ALIGN s1 (2 ^ k)" "ALIGN s1 (2 ^ k) < e" "sz - 1 \<le> e - ALIGN s1 (2 ^ k)"
proof -
  note al = ALIGN_below [OF k(1) s1 k(2)]
  define s where "s = ALIGN s1 (2 ^ k)"
  have "a \<le> a + (sz - 1)" using sz(2) by (simp add: add_diff_eq)
  then have "unat (a + (sz - 1)) = unat a + unat (sz - 1)" by (simp add: no_olen_add_nat unat_word_ariths)
  moreover have two: "2 \<le> unat sz" using sz(1) by (simp add: word_le_nat_alt)
  moreover from two have "unat (sz - 1) = unat sz - 1" by (intro unat_minus_one) auto
  moreover have "unat s \<le> unat a" "unat (a + (sz - 1)) \<le> unat e" using al(2) e by (simp_all add: s_def word_le_nat_alt add_diff_eq)
  ultimately have le: "unat s + unat (sz - 1) \<le> unat e" "1 \<le> unat (sz - 1)" by linarith+
  then have lt: "s < e" by (simp add: word_less_nat_alt)
  then have "unat (e - s) = unat e - unat s" by (simp add: unat_sub)
  with le have "sz - 1 \<le> e - s" by (simp add: word_le_nat_alt)
  with lt al(1) show "s1 \<le> ALIGN s1 (2 ^ k)" "ALIGN s1 (2 ^ k) < e" "sz - 1 \<le> e - ALIGN s1 (2 ^ k)" by (simp_all add: s_def)
qed

lemma word_pred_less: "0 < (x :: u32) \<Longrightarrow> y \<le> x - 1 \<longleftrightarrow> y < x"
  using unat_pred [of 0 x] by (simp add: word_le_nat_alt word_less_nat_alt) linarith

lemma find_loop_complete:
  assumes k: "k < 32" "2 ^ k dvd unat a" and sz: "2 \<le> sz"
    and ab: "mn \<le> a" "a \<le> a + sz - 1" "a + sz - 1 \<le> mx" "a + sz - 1 \<le> R"
    and kids: "\<forall>c \<in> set this. rend c < a \<or> a + sz - 1 < rstart c" "wf_kids lo R this" "\<forall>c \<in> set this. start \<le> rstart c \<and> 0 < rstart c"
    and start: "start \<le> a"
  shows "\<exists>s. find_loop R sz mn mx (2 ^ k) None start this = (0, s, s + sz - 1) \<and> start \<le> s \<and> s \<le> s + sz - 1 \<and> s + sz - 1 \<le> R \<and>
    (\<forall>c \<in> set this. rend c < s \<or> s + sz - 1 < rstart c)"
  using kids start
proof (induction this arbitrary: start)
  case Nil
  have s1: "start \<le> slot_start mn start" "slot_start mn start \<le> a" using ab Nil by (auto simp: slot_start_def)
  have e: "a + sz - 1 \<le> slot_end R mx []" "slot_end R mx [] \<le> R" using ab by (auto simp: slot_end_def)
  note acc = slot_accepts [OF k sz ab(2) s1(2) e(1)]
  show ?case
    unfolding find_loop_eq [of _ _ _ _ _ _ "[]"] Let_def using acc slot_fits [OF acc(2,3)] e(2) order_trans [OF s1(1) acc(1)]
    by (auto intro: order_trans)
next
  case (Cons t ts)
  define s e where "s = ALIGN (slot_start mn start) (2 ^ k)" and "e = slot_end R mx (t # ts)"
  have w: "wf_res t" "\<forall>d \<in> set ts. rend t < rstart d" "wf_kids lo R ts" "rend t \<le> R" using Cons.prems(2) by (simp_all add: wf_kids_Cons)
  have t: "0 < rstart t" "rstart t \<le> rend t" using Cons.prems(3) wf_res_range [OF w(1)] by auto
  have s1: "start \<le> slot_start mn start" "slot_start mn start \<le> a" using ab Cons.prems(4) by (auto simp: slot_start_def)
  have al: "slot_start mn start \<le> s" unfolding s_def by (rule ALIGN_below(1) [OF k(1) s1(2) k(2)])
  have e: "e < rstart t" using t(1) word_pred_less [OF t(1), of e] by (auto simp: e_def slot_end_def Let_def)
  show ?case
  proof (cases "s < e \<and> sz - 1 \<le> e - s")
    case True
    then have "s + sz - 1 \<le> e" "s \<le> s + sz - 1" using slot_fits by blast+
    moreover have "\<forall>c \<in> set (t # ts). s + sz - 1 < rstart c"
      using \<open>s + sz - 1 \<le> e\<close> e w(2) t(2) by (auto intro: le_less_trans less_trans order.strict_trans1)
    moreover have "s + sz - 1 \<le> R" using \<open>s + sz - 1 \<le> e\<close> e t(2) w(4) by order
    ultimately show ?thesis
      unfolding find_loop_eq [of _ _ _ _ _ _ "t # ts"] Let_def s_def [symmetric] e_def [symmetric] using True order_trans [OF s1(1) al]
      by auto
  next
    case False
    have before: "rend t < a"
    proof (rule ccontr)
      assume "\<not> rend t < a"
      then have "a + sz - 1 < rstart t" using Cons.prems(1) by auto
      then have "a + sz - 1 \<le> e" using word_pred_less [OF t(1)] ab(3) by (auto simp: e_def slot_end_def Let_def)
      from slot_accepts [OF k sz ab(2) s1(2) this] False show False by (simp add: s_def)
    qed
    have next_start: "unat (rend t + 1) = unat (rend t) + 1" using unat_succ [OF before] by simp
    have "rend t + 1 \<le> a" "\<forall>c \<in> set ts. rend t + 1 \<le> rstart c \<and> 0 < rstart c"
      using before w(2) next_start Cons.prems(3) by (auto simp: word_le_nat_alt word_less_nat_alt)
    from Cons.IH [OF _ w(3) this(2,1)] Cons.prems(1) obtain s' where
      s': "find_loop R sz mn mx (2 ^ k) None (rend t + 1) ts = (0, s', s' + sz - 1)" "rend t + 1 \<le> s'" "s' \<le> s' + sz - 1"
        "s' + sz - 1 \<le> R" "\<forall>c \<in> set ts. rend c < s' \<or> s' + sz - 1 < rstart c" by auto
    have lt: "rend t < s'" using s'(2) next_start by (simp add: word_le_nat_alt word_less_nat_alt)
    have "start \<le> rstart t" using Cons.prems(3) by simp
    then have "start \<le> s'" using t(2) lt by order
    with s' lt show ?thesis
      unfolding find_loop_eq [of _ _ _ _ _ _ "t # ts"] Let_def s_def [symmetric] e_def [symmetric] using False by auto
  qed
qed

lemma request_free:
  assumes "contains root new" "rstart new \<le> rend new" "\<forall>c \<in> set (child root). \<not> overlaps c new"
  obtains r where "request_resource_locked root new = Inr r"
proof (cases "request_resource_locked root new")
  case (Inl x)
  then have "x \<noteq> Root" using assms(1,2) by (auto simp: request_resource_locked_def contains_def split: if_splits sum.splits)
  then obtain j where "request_resource_locked root new = Inl (Child j)" using Inl by (cases x) auto
  from request_locked_Child(1,2) [OF this] assms(3) show ?thesis by auto
qed (rule that)

lemma allocate_resource_complete:
  assumes wf: "wf_res root" and k: "k < 32" "2 ^ k dvd unat a" and sz: "2 \<le> sz" and free: "free_slot root a sz mn mx"
  shows "fst (allocate_resource root new sz mn mx (2 ^ k) None) = 0"
proof -
  have f: "rstart root \<le> a" "mn \<le> a" "a \<le> a + sz - 1" "a + sz - 1 \<le> mx" "a + sz - 1 \<le> rend root"
    "\<forall>c \<in> set (child root). rend c < a \<or> a + sz - 1 < rstart c" using free by (simp_all add: free_slot_def)
  have w: "wf_kids (rstart root) (rend root) (child root)" using wf by (simp add: wf_res_iff)
  obtain s where s: "find_resource root sz mn mx (2 ^ k) None = (0, s, s + sz - 1)" "rstart root \<le> s" "s \<le> s + sz - 1"
    "s + sz - 1 \<le> rend root" "\<forall>c \<in> set (child root). rend c < s \<or> s + sz - 1 < rstart c"
  proof (cases "\<exists>t ts. child root = t # ts \<and> rstart t = 0")
    case True
    then obtain t ts where t: "child root = t # ts" "rstart t = 0" by blast
    have wt: "\<forall>d \<in> set ts. rend t < rstart d" "wf_kids (rstart root) (rend root) ts" "rstart root \<le> rstart t"
      using w t(1) by (simp_all add: wf_kids_Cons)
    have before: "rend t < a" using f(6) t by auto
    have u: "unat (rend t + 1) = unat (rend t) + 1" using unat_succ [OF before] by simp
    have "rend t + 1 \<le> a" "\<forall>c \<in> set ts. rend t + 1 \<le> rstart c \<and> 0 < rstart c"
      using before wt(1) u by (auto simp: word_le_nat_alt word_less_nat_alt)
    from find_loop_complete [OF k sz f(2-5) _ wt(2) this(2,1)] f(6) t(1) obtain s where
      "find_loop (rend root) sz mn mx (2 ^ k) None (rend t + 1) ts = (0, s, s + sz - 1)" "rend t + 1 \<le> s" "s \<le> s + sz - 1"
      "s + sz - 1 \<le> rend root" "\<forall>c \<in> set ts. rend c < s \<or> s + sz - 1 < rstart c" by auto
    moreover from this(2) u have "rend t < s" by (simp add: word_le_nat_alt word_less_nat_alt)
    moreover have "rstart root = 0" using wt(3) t(2) by simp
    ultimately show ?thesis using t by (intro that [of s]) (simp_all add: find_resource_def)
  next
    case False
    have pos: "\<forall>c \<in> set (child root). rstart root \<le> rstart c \<and> 0 < rstart c"
    proof (cases "child root")
      case (Cons t ts)
      then have "rstart t \<noteq> 0" "\<forall>d \<in> set ts. rend t < rstart d" using False w by (auto simp: wf_kids_Cons)
      with Cons w show ?thesis by (auto simp: wf_kids_def word_gt_0)
    qed simp
    have e: "find_resource root sz mn mx (2 ^ k) None = find_loop (rend root) sz mn mx (2 ^ k) None (rstart root) (child root)"
      using False by (cases "child root") (auto simp: find_resource_def)
    from find_loop_complete [OF k sz f(2-6) w pos f(1)] show ?thesis unfolding e [symmetric] by (blast intro: that)
  qed
  let ?new = "set_range s (s + sz - 1) new"
  obtain r where "request_resource_locked root ?new = Inr r"
    by (rule request_free [of root ?new]) (use s(2-5) in \<open>auto simp: contains_def overlaps_def\<close>)
  with s(1) show ?thesis by (simp add: allocate_resource_def)
qed

section \<open>All operations on a tree\<close>

lemma allocate_resource_wf:
  assumes "allocate_resource root new sz mn mx al af = (err, root', new')" "wf_res root" "child new = []"
  shows "wf_res root' \<and> stamp root' = stamp root"
proof -
  obtain err0 s e where f: "find_resource root sz mn mx al af = (err0, s, e)" by (metis prod_cases3)
  show ?thesis
  proof (cases "request_resource_locked root (set_range s e new)")
    case (Inl c)
    then show ?thesis using assms f by (auto simp: allocate_resource_def Let_def split: if_splits)
  next
    case (Inr r)
    have "wf_res (set_range s e new)"
      using request_locked_Inr [OF Inr assms(2)] assms(3) by (metis wf_res_iff wf_kids_Nil set_range_simps(6))
    then have "wf_res r \<and> stamp r = stamp root" using request_locked_wf [OF Inr assms(2)] by blast
    then show ?thesis using assms(1,2) f Inr by (auto simp: allocate_resource_def Let_def split: if_splits)
  qed
qed

lemma reserve_split_wf:
  "reserve_split alloc nm start en st = Some y \<Longrightarrow> wf_res (snd st) \<longrightarrow> wf_res (snd y) \<and> stamp (snd y) = stamp (snd st)"
proof (erule reserve_split.raw_induct
    [where P = "\<lambda>alloc nm start en st y. wf_res (snd st) \<longrightarrow> wf_res (snd y) \<and> stamp (snd y) = stamp (snd st)",
      rotated], intro impI)
  fix f alloc nm start en st y
  assume ih: "\<And>alloc nm start en st y. f alloc nm start en st = Some y \<Longrightarrow>
        wf_res (snd st) \<longrightarrow> wf_res (snd y) \<and> stamp (snd y) = stamp (snd st)"
    and body: "(case st of (n, root) \<Rightarrow>
        if \<not> alloc n then Some (Suc n, root)
        else case request_resource_locked root (region (fresh_id root) nm start en IORESOURCE_BUSY) of
          Inl c \<Rightarrow>
            let q = conflict_node root c
            in if rstart q \<le> start \<and> rend q \<ge> en then Some (Suc n, root)
               else Option.bind
                      (if rstart q > start then f alloc nm start (rstart q - 1) (Suc n, root) else Some (Suc n, root))
                      (\<lambda>st1. if rend q < en then f alloc nm (rend q + 1) en st1 else Some st1)
        | Inr r \<Rightarrow> Some (Suc n, r)) = Some y"
    and w: "wf_res (snd st)"
  obtain n root where st: "st = (n, root)" by (cases st)
  let ?new = "region (fresh_id root) nm start en IORESOURCE_BUSY"
  show "wf_res (snd y) \<and> stamp (snd y) = stamp (snd st)"
  proof (cases "request_resource_locked root ?new")
    case (Inr r)
    then have "split_ok alloc start en root r" using split_ok_request [OF Inr] w st by simp
    then show ?thesis using body w Inr st by (auto simp: split_ok_def split: if_splits)
  next
    case (Inl c)
    define q where "q = conflict_node root c"
    have b: "y = (Suc n, root) \<or>
        Option.bind (if rstart q > start then f alloc nm start (rstart q - 1) (Suc n, root) else Some (Suc n, root))
          (\<lambda>st1. if rend q < en then f alloc nm (rend q + 1) en st1 else Some st1) = Some y"
      using body unfolding st prod.case Inl sum.case Let_def q_def [symmetric] by (metis option.inject)
    then show ?thesis
    proof
      assume "Option.bind (if rstart q > start then f alloc nm start (rstart q - 1) (Suc n, root) else Some (Suc n, root))
          (\<lambda>st1. if rend q < en then f alloc nm (rend q + 1) en st1 else Some st1) = Some y"
      then obtain z where z: "(if rstart q > start then f alloc nm start (rstart q - 1) (Suc n, root) else Some (Suc n, root)) = Some z"
          "(if rend q < en then f alloc nm (rend q + 1) en z else Some z) = Some y"
        by (auto simp only: bind_eq_Some_conv)
      have "wf_res (snd z) \<and> stamp (snd z) = stamp root"
        using z(1) ih w st by (metis option.inject snd_conv)
      then show ?thesis using z(2) ih st by (metis option.inject snd_conv)
    qed (use w st in simp)
  qed
qed

text \<open>
  One operation on the tree or on a subtree of it: the callers of
  \<open>request_resource\<close>, \<open>insert_resource\<close> and \<open>allocate_resource\<close>
  pass resources without children, and \<open>adjust_resource\<close> a range that does not
  wrap.
\<close>

inductive res_step :: "resource \<Rightarrow> resource \<Rightarrow> bool" where
  request: "child new = [] \<Longrightarrow> res_step r (snd (request_resource r new))"
| release: "release_resource i r = Some (x, r') \<Longrightarrow> res_step r r'"
| insert: "child new = [] \<Longrightarrow> res_step r (snd (insert_resource r new))"
| expand: "child new = [] \<Longrightarrow> insert_resource_expand_to_fit b r new = Some (r', new') \<Longrightarrow> res_step r r'"
| adjust: "start \<le> start + sz - 1 \<Longrightarrow> adjust_resource i start sz r = Some (x, r') \<Longrightarrow> res_step r r'"
| split: "reserve_region_with_split alloc nm start en r = Some r' \<Longrightarrow> res_step r r'"
| alloc: "child new = [] \<Longrightarrow> allocate_resource r new sz mn mx al af = (err, r', new') \<Longrightarrow> res_step r r'"
| request_region: "res_step r (snd (request_region al r start n nm flags))"
| release_region: "res_step r (release_region r start n)"
| subtree: "k < length (child r) \<Longrightarrow> res_step (child r ! k) c \<Longrightarrow> res_step r (set_child ((child r)[k := c]) r)"

inductive res_reach :: "resource \<Rightarrow> bool" where
  init: "res_reach iomem_resource"
| step: "res_reach r \<Longrightarrow> res_step r r' \<Longrightarrow> res_reach r'"

lemma request_resource_wf:
  assumes "wf_res r" "child new = []"
  shows "wf_res (snd (request_resource r new)) \<and> stamp (snd (request_resource r new)) = stamp r"
proof (cases "request_resource_locked r new")
  case (Inr q)
  have "wf_res new" using request_locked_Inr [OF Inr assms(1)] assms(2) by (metis wf_res_iff wf_kids_Nil)
  then show ?thesis using request_locked_wf [OF Inr assms(1)] Inr by (simp add: request_resource_def)
qed (use assms in \<open>simp add: request_resource_def\<close>)

lemma request_region_wf:
  assumes "wf_res r"
  shows "wf_res (snd (request_region al r start n nm flags)) \<and> stamp (snd (request_region al r start n nm flags)) = stamp r"
proof (cases "region_loop r (region (fresh_id r) nm start (start + n - 1) (IORESOURCE_BUSY OR flags))")
  case (Some q)
  then show ?thesis using assms region_loop_wf [OF Some assms] by (simp add: request_region_def)
qed (use assms in \<open>simp add: request_region_def\<close>)

lemma release_region_wf:
  assumes "wf_res r"
  shows "wf_res (release_region r start n) \<and> stamp (release_region r start n) = stamp r"
proof (cases "release_list start (start + n - 1) (child r)")
  case (Some cs)
  have "wf_kids (rstart r) (rend r) cs" using release_list_wf [OF Some] assms wf_res_iff [of r] by blast
  then show ?thesis using assms Some wf_set_child by (simp add: release_region_def)
qed (use assms in \<open>simp add: release_region_def\<close>)

lemma res_step_wf: "res_step r r' \<Longrightarrow> wf_res r \<Longrightarrow> wf_res r' \<and> stamp r' = stamp r"
proof (induction rule: res_step.induct)
  case (insert new r)
  then show ?case using insert_locked_wf [of r new] by (auto simp: insert_resource_def split: sum.split)
next
  case (expand new b r r' new')
  then show ?case using expand_loop_returns [of r new] by (auto simp: insert_resource_expand_to_fit_def split: if_splits)
next
  case (split alloc nm start en r r')
  then show ?case using reserve_split_wf [of alloc nm start en "(0, r)"] by (auto simp: reserve_region_with_split_def)
next
  case (subtree k r c)
  have "stamp c = stamp (child r ! k)" "wf_res c" using subtree wf_child by blast+
  then have "wf_kids (rstart r) (rend r) ((child r)[k := c])"
    using wf_kids_update [of "rstart r" "rend r" "child r" k c] subtree by (simp add: wf_res_iff [of r] stamp_eq_iff)
  then show ?case using wf_set_child subtree.prems by simp
qed (auto simp: request_resource_wf request_region_wf release_region_wf dest: release_resource_wf adjust_resource_wf allocate_resource_wf)

lemma res_reach_wf: "res_reach r \<Longrightarrow> wf_res r"
  by (induction rule: res_reach.induct)
    (auto simp: iomem_resource_def wf_res_iff [of "Res _ _ _ _ _ _"] dest: res_step_wf)

lemma laminar:
  "d \<in> set (preorder r) \<Longrightarrow> e \<in> set (preorder r) \<Longrightarrow> wf_res r \<Longrightarrow> contains d e \<or> contains e d \<or> \<not> overlaps d e"
proof (induction r arbitrary: d e)
  case (Res i nm s t f cs)
  let ?r = "Res i nm s t f cs"
  have w: "wf_kids s t cs" using Res.prems(3) by (simp add: wf_res_iff [of ?r])
  show ?case
  proof (cases "d = ?r \<or> e = ?r")
    case True
    then show ?thesis using preorder_contained [OF _ Res.prems(3)] Res.prems(1,2) by blast
  next
    case False
    then obtain j k where jk: "j < length cs" "d \<in> set (preorder (cs ! j))" "k < length cs" "e \<in> set (preorder (cs ! k))"
      using Res.prems(1,2) by (auto simp: in_set_conv_nth [of _ cs])
    have wj: "wf_res (cs ! j)" "wf_res (cs ! k)" using wf_kidsD [OF w] jk by simp_all
    show ?thesis
    proof (cases "j = k")
      case True
      then show ?thesis using Res.IH [OF nth_mem [OF jk(1)] jk(2)] jk(4) wj by simp
    next
      case False
      have "\<not> overlaps (cs ! j) (cs ! k)" by (rule kids_apart [OF w jk(1,3) False])
      then show ?thesis
        using preorder_contained [OF jk(2) wj(1)] preorder_contained [OF jk(4) wj(2)] overlaps_contains overlaps_sym by blast
    qed
  qed
qed

section \<open>Properties\<close>

text \<open>
  C30: Whatever operations run on the memory tree, with new resources that have no
  children and with \<open>adjust_resource\<close> only called for ranges that are not empty and
  do not wrap (the code does not check it, and \<open>adjust_to_nothing\<close> shows what
  happens otherwise), its regions stay properly nested: children lie in their parent's range, in order and disjoint, and any two
  regions of the tree either are nested or have no address in common.
\<close>

theorem resource_tree_nested:
  assumes "res_reach r"
  shows "wf_res r \<and>
    (\<forall>d \<in> set (preorder r). \<forall>e \<in> set (preorder r). contains d e \<or> contains e d \<or> \<not> overlaps d e)"
  using res_reach_wf [OF assms] laminar by blast

text \<open>
  C31: \<open>__request_region\<close> grants a range exactly when it is not empty, lies in
  the parent and every region that meets it contains it and is not busy; so no two
  busy regions handed out by it overlap.
\<close>

theorem request_region_granted_iff:
  assumes "wf_res p"
  shows "fst (request_region True p start n nm flags) \<noteq> None \<longleftrightarrow>
    start \<le> start + n - 1 \<and> rstart p \<le> start \<and> start + n - 1 \<le> rend p \<and>
    (\<forall>d \<in> set (descendants p). rstart d \<le> start + n - 1 \<and> start \<le> rend d \<longrightarrow>
       \<not> busy d \<and> rstart d \<le> start \<and> start + n - 1 \<le> rend d)"
proof -
  let ?res = "region (fresh_id p) nm start (start + n - 1) (IORESOURCE_BUSY OR flags)"
  have "fst (request_region True p start n nm flags) \<noteq> None \<longleftrightarrow> region_loop p ?res \<noteq> None"
    by (auto simp: request_region_def Let_def split: option.splits)
  then show ?thesis
    unfolding region_loop_iff [OF assms] free_for_def contains_def overlaps_def by simp
qed


text \<open>
  C33: The two loops without a bound end: \<open>insert_resource_expand_to_fit\<close>
  returns for every tree and resource, with the grown resource in the tree when its
  range lies in the root, and \<open>reserve_region_with_split\<close> returns for every
  range inside the root, with every address of the range covered when no allocation
  fails.
\<close>

theorem resource_loops_return:
  assumes "wf_res root" "child new = []"
  shows "(\<exists>r new'. insert_resource_expand_to_fit False root new = Some (r, new') \<and> wf_res r \<and> contains new' new \<and>
            (contains root new \<and> rstart new \<le> rend new \<longrightarrow> regions r = add_mset (stamp new') (regions root))) \<and>
         (rstart root \<le> start \<and> start \<le> en \<and> en \<le> rend root \<longrightarrow>
            (\<exists>r. reserve_region_with_split alloc nm start en root = Some r \<and> wf_res r \<and>
                 set (child root) \<subseteq> set (child r) \<and> ((\<forall>i. alloc i) \<longrightarrow> spans r start en)))"
proof -
  obtain r new' where "expand_loop root new = Some (r, new')" "wf_res r" "contains new' new"
      "contains root new \<and> rstart new \<le> rend new \<longrightarrow> regions r = add_mset (stamp new') (regions root)"
    using expand_loop_returns [OF assms] by auto
  moreover have "\<exists>r. reserve_region_with_split alloc nm start en root = Some r \<and> wf_res r \<and>
                 set (child root) \<subseteq> set (child r) \<and> ((\<forall>i. alloc i) \<longrightarrow> spans r start en)"
    if g: "rstart root \<le> start" "start \<le> en" "en \<le> rend root"
  proof -
    obtain m q where q: "reserve_split alloc nm start en (0, root) = Some (m, q)" "split_ok alloc start en root q"
      using reserve_split_returns [OF assms(1) g, where n = 0] by metis
    then show ?thesis by (auto simp: reserve_region_with_split_def split_ok_def)
  qed
  ultimately show ?thesis by (auto simp: insert_resource_expand_to_fit_def)
qed

text \<open>
  C34: \<open>reserve_region_with_split\<close> never returns for a range that is not
  inside the root, unless memory runs out: the conflict is the root itself and the
  function calls itself with the same range for ever.
\<close>

theorem reserve_split_recursion_unbounded:
  assumes "\<forall>i. alloc i" "start \<le> en" "\<not> (rstart root \<le> start \<and> en \<le> rend root)"
  shows "reserve_region_with_split alloc nm start en root = None"
proof (rule ccontr)
  assume "reserve_region_with_split alloc nm start en root \<noteq> None"
  then obtain y where "reserve_split alloc nm start en (0, root) = Some y" by (auto simp: reserve_region_with_split_def)
  from reserve_split_inside [OF this] assms show False by simp
qed

text \<open>
  C35: \<open>allocate_resource\<close> without an alignment function and with a power of two as
  alignment either fails with \<open>-EBUSY\<close> and leaves the tree alone, and then the root
  has no aligned free range of the requested size (2 or more) between the
  addresses \<open>min\<close> and \<open>max\<close>; or it adds a region of the requested size, aligned,
  free, inside the root and not above \<open>max\<close>, which respects \<open>min\<close> too unless it
  starts at address 0.
\<close>

theorem allocate_resource_bounds:
  assumes "allocate_resource root new sz mn mx (2 ^ k) None = (err, root', new')" "k < 32" "wf_res root" "child new = []"
  shows "err = -EBUSY \<and> root' = root \<and> (2 \<le> sz \<longrightarrow> \<not> (\<exists>a. 2 ^ k dvd unat a \<and> free_slot root a sz mn mx)) \<or>
    err = 0 \<and> wf_res root' \<and> regions root' = add_mset (stamp new') (regions root) \<and>
    contains root new' \<and> (\<forall>c \<in> set (child root). \<not> overlaps c new') \<and> rend new' - rstart new' = sz - 1 \<and>
    rend new' \<le> mx \<and> 2 ^ k dvd unat (rstart new') \<and> (rstart new' = 0 \<or> mn \<le> rstart new')"
proof -
  have "\<not> (\<exists>a. 2 ^ k dvd unat a \<and> free_slot root a sz mn mx)" if "err = -EBUSY" "2 \<le> sz"
    using allocate_resource_complete [OF assms(3,2) _ that(2), of _ mn mx new] assms(1) that(1) by (auto simp: errno_defs)
  with allocate_resource_cases [OF assms] show ?thesis by blast
qed

section \<open>Concrete trees\<close>

definition uart :: resource where
  "uart = Res 1 ''uart'' 0x48020000 0x48020FFF IORESOURCE_BUSY []"

definition iomem_uart :: resource where
  "iomem_uart = set_child [uart] iomem_resource"

lemma iomem_free: "descendants iomem_resource = []" "child iomem_resource = []"
  by (simp_all add: iomem_resource_def descendants_def)

lemma iomem_wf: "wf_res iomem_resource"
  by (rule res_reach_wf [OF res_reach.init])


lemma request_uart: "request_region True iomem_resource 0x48020000 0x1000 ''uart'' 0 = (Some 1, iomem_uart)"
  by code_simp

theorem resource_tree_nested_witness: "res_reach iomem_uart \<and> wf_res iomem_uart"
proof -
  have "res_reach iomem_uart"
    using res_reach.step [OF res_reach.init res_step.request_region, of True "0x48020000" "0x1000" "''uart''" 0] request_uart
    by simp
  then show ?thesis using resource_tree_nested by blast
qed

theorem request_region_granted_iff_witness: "fst (request_region True iomem_resource 0x48020000 0x1000 ''uart'' 0) \<noteq> None"
  unfolding request_region_granted_iff [OF iomem_wf] by (simp add: iomem_free) (simp add: iomem_resource_def)


theorem resource_loops_return_witness:
  "\<exists>r. reserve_region_with_split (\<lambda>_. True) ''ram'' 0x80000000 0x8FFFFFFF iomem_resource = Some r \<and> spans r 0x80000000 0x8FFFFFFF"
proof -
  have "rstart iomem_resource \<le> 0x80000000 \<and> (0x80000000 :: u32) \<le> 0x8FFFFFFF \<and> 0x8FFFFFFF \<le> rend iomem_resource"
    by (simp add: iomem_resource_def)
  then show ?thesis
    using resource_loops_return [OF iomem_wf, of uart "0x80000000" "0x8FFFFFFF" "\<lambda>_. True" "''ram''"]
    by (auto simp: uart_def)
qed

theorem reserve_split_recursion_unbounded_witness:
  "reserve_region_with_split (\<lambda>_. True) ''isa'' 0 0xFFFF (Res 0 ''bus'' 0x1000 0xFFFF IORESOURCE_IO []) = None"
  by (rule reserve_split_recursion_unbounded) simp_all

lemma allocate_page:
  "allocate_resource iomem_uart (region 2 ''dma'' 0 0 0) 0x1000 0x48020000 0x4FFFFFFF (2 ^ 12) None =
     (0, set_child [uart, region 2 ''dma'' 0x48021000 0x48021FFF 0] iomem_resource, region 2 ''dma'' 0x48021000 0x48021FFF 0)"
  by code_simp

theorem allocate_resource_bounds_witness:
  "fst (allocate_resource iomem_uart (region 2 ''dma'' 0 0 0) 0x1000 0x48020000 0x4FFFFFFF (2 ^ 12) None) = 0 \<and>
   wf_res (fst (snd (allocate_resource iomem_uart (region 2 ''dma'' 0 0 0) 0x1000 0x48020000 0x4FFFFFFF (2 ^ 12) None))) \<and>
   \<not> overlaps uart (snd (snd (allocate_resource iomem_uart (region 2 ''dma'' 0 0 0) 0x1000 0x48020000 0x4FFFFFFF (2 ^ 12) None)))"
proof -
  have "wf_res iomem_uart" using request_region_wf [OF iomem_wf, of True "0x48020000" "0x1000" "''uart''" 0] request_uart by simp
  from allocate_resource_bounds [OF allocate_page _ this] show ?thesis unfolding allocate_page by (simp add: errno_defs iomem_uart_def)
qed

text \<open>The lower bound is not respected when the alignment of a start address wraps.\<close>

lemma allocate_below_min:
  "allocate_resource (set_child [region 1 ''all'' 0x1000 0xFFFFF000 0] iomem_resource) (region 2 ''dma'' 0 0 0)
     0x1000 0x1000 0xFFFFFFFF (2 ^ 12) None =
   (0, set_child [region 2 ''dma'' 0 0xFFF 0, region 1 ''all'' 0x1000 0xFFFFF000 0] iomem_resource, region 2 ''dma'' 0 0xFFF 0)"
  by code_simp

text \<open>\<open>adjust_resource\<close> accepts size 0 and leaves a region that ends before it starts.\<close>

lemma adjust_to_nothing:
  "adjust_resource 1 0x48020000 0 iomem_uart =
     Some (0, set_child [Res 1 ''uart'' 0x48020000 0x4801FFFF IORESOURCE_BUSY []] iomem_resource)"
  by code_simp

text \<open>A gap of one address is not used, even for a request of size 1.\<close>

lemma allocate_single_address:
  "fst (allocate_resource (set_child [region 1 ''low'' 0 0xFF 0, region 2 ''high'' 0x101 0xFFFFFFFF 0] iomem_resource)
     (region 3 ''dma'' 0 0 0) 1 0 0xFFFFFFFF 1 None) = -EBUSY"
  by code_simp

end
