(* ===== verification/Power_Supply.thy ===== *)
theory Power_Supply
  imports Prelude
begin

text \<open>
  The power supply class (drivers/power/power_supply_core.c and
  power_supply_sysfs.c): registration with its unwinding, deferred change
  notifications, and the text that user space reads.  LED triggers are not
  configured on the target, so that \<open>power_supply_create_triggers\<close> is the empty
  function.  Supplies are numbered; the outcome of the driver core's
  \<open>device_create\<close> and \<open>device_create_file\<close> and of memory allocation is
  given by an environment.  None is an access through a pointer that is not valid.
\<close>

section \<open>Data\<close>

type_synonym psp = nat

definition POWER_SUPPLY_PROP_STATUS :: psp where "POWER_SUPPLY_PROP_STATUS = 0"
definition POWER_SUPPLY_PROP_CHARGE_TYPE :: psp where "POWER_SUPPLY_PROP_CHARGE_TYPE = 1"
definition POWER_SUPPLY_PROP_HEALTH :: psp where "POWER_SUPPLY_PROP_HEALTH = 2"
definition POWER_SUPPLY_PROP_PRESENT :: psp where "POWER_SUPPLY_PROP_PRESENT = 3"
definition POWER_SUPPLY_PROP_ONLINE :: psp where "POWER_SUPPLY_PROP_ONLINE = 4"
definition POWER_SUPPLY_PROP_TECHNOLOGY :: psp where "POWER_SUPPLY_PROP_TECHNOLOGY = 5"
definition POWER_SUPPLY_PROP_CAPACITY :: psp where "POWER_SUPPLY_PROP_CAPACITY = 29"
definition POWER_SUPPLY_PROP_CAPACITY_LEVEL :: psp where "POWER_SUPPLY_PROP_CAPACITY_LEVEL = 30"
definition POWER_SUPPLY_PROP_MODEL_NAME :: psp where "POWER_SUPPLY_PROP_MODEL_NAME = 37"

lemmas psp_defs = POWER_SUPPLY_PROP_STATUS_def POWER_SUPPLY_PROP_CHARGE_TYPE_def POWER_SUPPLY_PROP_HEALTH_def
  POWER_SUPPLY_PROP_PRESENT_def POWER_SUPPLY_PROP_ONLINE_def POWER_SUPPLY_PROP_TECHNOLOGY_def
  POWER_SUPPLY_PROP_CAPACITY_def POWER_SUPPLY_PROP_CAPACITY_LEVEL_def POWER_SUPPLY_PROP_MODEL_NAME_def

datatype power_supply_type =
  POWER_SUPPLY_TYPE_BATTERY | POWER_SUPPLY_TYPE_UPS | POWER_SUPPLY_TYPE_MAINS | POWER_SUPPLY_TYPE_USB

datatype propval = Intval int | Strval string

text \<open>The integer member of the union; properties below \<open>MODEL_NAME\<close> have one.\<close>

fun intval :: "propval \<Rightarrow> int" where
  "intval (Intval i) = i"
| "intval (Strval _) = 0"

fun strval :: "propval \<Rightarrow> string" where
  "strval (Strval s) = s"
| "strval (Intval _) = []"

record power_supply =
  ps_name :: string
  ps_type :: power_supply_type
  ps_properties :: "psp list"
  supplied_to :: "string list"
  get_property :: "psp \<Rightarrow> int \<times> propval"
  external_power_changed :: bool
  set_charged :: bool

text \<open>The pointer \<open>psy->dev\<close>: NULL, an error pointer, a registered device, or one that was freed.\<close>

datatype dev_ptr = Dev_null | Dev_err int | Dev_live | Dev_freed

datatype attr = Type_attr | Prop_attr psp

record ps_world =
  psys :: "nat \<Rightarrow> power_supply"
  dev :: "nat \<Rightarrow> dev_ptr"
  class_devices :: "nat list"
  files :: "nat \<Rightarrow> attr set"
  wake_locks :: "nat set"
  locked :: "nat set"
  changed :: "nat \<Rightarrow> bool"
  pending :: "nat list"
  notified :: "nat list"
  uevents :: "nat list"

record ps_env =
  device_create :: "nat \<Rightarrow> int"
  device_create_file :: "nat \<Rightarrow> attr \<Rightarrow> int"

section \<open>Attributes (power_supply_sysfs.c)\<close>

definition static_attrs :: "attr list" where
  "static_attrs = [Type_attr]"

text \<open>
  A loop of \<open>power_supply_create_attrs\<close>: on an error the files created so far,
  the last first, are removed again (\<open>done\<close> has those of the earlier loop too).
\<close>

fun create_files :: "(attr \<Rightarrow> int) \<Rightarrow> attr list \<Rightarrow> attr list \<Rightarrow> attr set \<Rightarrow> int \<times> attr set" where
  "create_files f done [] fs = (0, fs)"
| "create_files f done (a # as) fs =
     (if f a \<noteq> 0 then (f a, foldl (\<lambda>fs b. fs - {b}) fs done)
      else create_files f (a # done) as (insert a fs))"

definition power_supply_create_attrs :: "ps_env \<Rightarrow> nat \<Rightarrow> ps_world \<Rightarrow> int \<times> ps_world" where
  "power_supply_create_attrs env p w =
     (let f = device_create_file env p
      in case create_files f [] (static_attrs @ map Prop_attr (ps_properties (psys w p))) (files w p) of
           (rc, fs) \<Rightarrow> (rc, w\<lparr>files := (files w)(p := fs)\<rparr>))"

definition power_supply_remove_attrs :: "nat \<Rightarrow> ps_world \<Rightarrow> ps_world option" where
  "power_supply_remove_attrs p w =
     (case dev w p of
        Dev_live \<Rightarrow> Some (w\<lparr>files := (files w)(p := files w p - set static_attrs - Prop_attr ` set (ps_properties (psys w p)))\<rparr>)
      | Dev_null \<Rightarrow> Some w
      | _ \<Rightarrow> None)"

section \<open>Change notification (power_supply_core.c)\<close>

definition power_supply_changed :: "nat \<Rightarrow> ps_world \<Rightarrow> ps_world" where
  "power_supply_changed p w =
     w\<lparr>changed := (changed w)(p := True), locked := insert p (locked w),
       pending := (if p \<in> set (pending w) then pending w else pending w @ [p])\<rparr>"

text \<open>\<open>__power_supply_changed_work\<close> for one device of the class.\<close>

definition changed_work_one :: "power_supply \<Rightarrow> nat \<Rightarrow> ps_world \<Rightarrow> ps_world" where
  "changed_work_one psy d w =
     (if ps_name (psys w d) \<in> set (supplied_to psy) \<and> external_power_changed (psys w d)
      then w\<lparr>notified := notified w @ replicate (count_list (supplied_to psy) (ps_name (psys w d))) d\<rparr> else w)"

definition power_supply_changed_work :: "nat \<Rightarrow> ps_world \<Rightarrow> ps_world" where
  "power_supply_changed_work p w =
     (if changed w p
      then let w1 = fold (changed_work_one (psys w p)) (class_devices w) (w\<lparr>changed := (changed w)(p := False)\<rparr>)
           in w1\<lparr>uevents := uevents w1 @ [p], locked := locked w1 - {p}\<rparr>
      else w\<lparr>locked := locked w - {p}\<rparr>)"

definition flush_scheduled_work :: "ps_world \<Rightarrow> ps_world" where
  "flush_scheduled_work w = fold power_supply_changed_work (pending w) (w\<lparr>pending := []\<rparr>)"

text \<open>The loop of \<open>class_for_each_device\<close>: it stops at the first result that is not 0.\<close>

fun class_for_each_device :: "(nat \<Rightarrow> int) \<Rightarrow> nat list \<Rightarrow> int" where
  "class_for_each_device f [] = 0"
| "class_for_each_device f (d # ds) = (if f d \<noteq> 0 then f d else class_for_each_device f ds)"

definition online :: "power_supply \<Rightarrow> int" where
  "online psy = (case get_property psy POWER_SUPPLY_PROP_ONLINE of (ret, v) \<Rightarrow> if ret \<noteq> 0 then 0 else intval v)"

definition am_i_supplied_one :: "power_supply \<Rightarrow> power_supply \<Rightarrow> int" where
  "am_i_supplied_one psy epsy = (if ps_name psy \<in> set (supplied_to epsy) then online epsy else 0)"

definition power_supply_am_i_supplied :: "nat \<Rightarrow> ps_world \<Rightarrow> int" where
  "power_supply_am_i_supplied p w = class_for_each_device (\<lambda>d. am_i_supplied_one (psys w p) (psys w d)) (class_devices w)"

definition is_system_supplied_one :: "power_supply \<Rightarrow> int" where
  "is_system_supplied_one psy = (if ps_type psy \<noteq> POWER_SUPPLY_TYPE_BATTERY then online psy else 0)"

definition power_supply_is_system_supplied :: "ps_world \<Rightarrow> int" where
  "power_supply_is_system_supplied w = class_for_each_device (\<lambda>d. is_system_supplied_one (psys w d)) (class_devices w)"

text \<open>The call of \<open>set_charged\<close> is the second component.\<close>

definition power_supply_set_battery_charged :: "power_supply \<Rightarrow> int \<times> bool" where
  "power_supply_set_battery_charged psy =
     (if ps_type psy = POWER_SUPPLY_TYPE_BATTERY \<and> set_charged psy then (0, True) else (-EINVAL, False))"

definition power_supply_get_by_name :: "string \<Rightarrow> ps_world \<Rightarrow> nat option" where
  "power_supply_get_by_name name w = List.find (\<lambda>d. ps_name (psys w d) = name) (class_devices w)"

section \<open>Registration\<close>

text \<open>
  \<open>device_unregister\<close> of the driver core.  It removes the sysfs directory of the
  device, and with it the attribute files that are still there: files left
  behind by \<open>power_supply_create_attrs\<close> would not survive it.  That the
  unwinding of \<open>power_supply_create_attrs\<close> leaves none is the lemma
  \<open>create_attrs_error\<close> on that function alone.
\<close>

definition device_unregister :: "nat \<Rightarrow> ps_world \<Rightarrow> ps_world option" where
  "device_unregister p w =
     (if dev w p = Dev_live
      then Some (w\<lparr>dev := (dev w)(p := Dev_freed), class_devices := filter (\<lambda>d. d \<noteq> p) (class_devices w), files := (files w)(p := {})\<rparr>)
      else None)"

definition wake_lock_destroy :: "nat \<Rightarrow> ps_world \<Rightarrow> ps_world" where
  "wake_lock_destroy p w = w\<lparr>wake_locks := wake_locks w - {p}, locked := locked w - {p}\<rparr>"

definition power_supply_register :: "ps_env \<Rightarrow> nat \<Rightarrow> ps_world \<Rightarrow> (int \<times> ps_world) option" where
  "power_supply_register env p w =
     (if device_create env p \<noteq> 0 then Some (device_create env p, w\<lparr>dev := (dev w)(p := Dev_err (device_create env p))\<rparr>)
      else let w1 = w\<lparr>dev := (dev w)(p := Dev_live), class_devices := class_devices w @ [p], wake_locks := insert p (wake_locks w)\<rparr>
           in case power_supply_create_attrs env p w1 of (rc, w2) \<Rightarrow>
                if rc \<noteq> 0 then map_option (Pair rc) (device_unregister p (wake_lock_destroy p w2))
                else Some (0, power_supply_changed p w2))"

definition power_supply_unregister :: "nat \<Rightarrow> ps_world \<Rightarrow> ps_world option" where
  "power_supply_unregister p w =
     (case power_supply_remove_attrs p (flush_scheduled_work w) of
        None \<Rightarrow> None
      | Some w1 \<Rightarrow> device_unregister p (wake_lock_destroy p w1))"

section \<open>Text for user space (power_supply_sysfs.c)\<close>

definition status_text :: "string list" where
  "status_text = [''Unknown'', ''Charging'', ''Discharging'', ''Not charging'', ''Full'']"

definition charge_type :: "string list" where
  "charge_type = [''Unknown'', ''N/A'', ''Trickle'', ''Fast'']"

definition health_text :: "string list" where
  "health_text = [''Unknown'', ''Good'', ''Overheat'', ''Dead'', ''Over voltage'', ''Unspecified failure'', ''Cold'']"

definition technology_text :: "string list" where
  "technology_text = [''Unknown'', ''NiMH'', ''Li-ion'', ''Li-poly'', ''LiFe'', ''NiCd'', ''LiMn'']"

definition capacity_level_text :: "string list" where
  "capacity_level_text = [''Unknown'', ''Critical'', ''Low'', ''Normal'', ''High'', ''Full'']"

definition type_text :: "power_supply_type \<Rightarrow> string" where
  "type_text t = (case t of
     POWER_SUPPLY_TYPE_BATTERY \<Rightarrow> ''Battery'' | POWER_SUPPLY_TYPE_UPS \<Rightarrow> ''UPS''
   | POWER_SUPPLY_TYPE_MAINS \<Rightarrow> ''Mains'' | POWER_SUPPLY_TYPE_USB \<Rightarrow> ''USB'')"

text \<open>The names in \<open>power_supply_attrs\<close>, in the order of the enumeration.\<close>

definition power_supply_attrs :: "string list" where
  "power_supply_attrs =
     [''status'', ''charge_type'', ''health'', ''present'', ''online'', ''technology'', ''voltage_max'', ''voltage_min'',
      ''voltage_max_design'', ''voltage_min_design'', ''voltage_now'', ''voltage_avg'', ''current_now'', ''current_avg'',
      ''power_now'', ''power_avg'', ''charge_full_design'', ''charge_empty_design'', ''charge_full'', ''charge_empty'',
      ''charge_now'', ''charge_avg'', ''charge_counter'', ''energy_full_design'', ''energy_empty_design'', ''energy_full'',
      ''energy_empty'', ''energy_now'', ''energy_avg'', ''capacity'', ''capacity_level'', ''temp'', ''temp_ambient'',
      ''time_to_empty_now'', ''time_to_empty_avg'', ''time_to_full_now'', ''time_to_full_avg'',
      ''model_name'', ''manufacturer'', ''serial_number'']"

text \<open>\<open>%d\<close> of \<open>sprintf\<close>.\<close>

fun show_nat :: "nat \<Rightarrow> string" where
  "show_nat n = (if n < 10 then [char_of (48 + n)] else show_nat (n div 10) @ [char_of (48 + n mod 10)])"

declare show_nat.simps [simp del]

definition show_int :: "int \<Rightarrow> string" where
  "show_int i = (if i < 0 then CHR ''-'' # show_nat (nat (- i)) else show_nat (nat i))"

text \<open>An entry of one of the tables; None is an access outside of it.\<close>

definition text_entry :: "string list \<Rightarrow> int \<Rightarrow> string option" where
  "text_entry t i = (if 0 \<le> i \<and> nat i < length t then Some (t ! nat i) else None)"

definition power_supply_show_property :: "power_supply \<Rightarrow> psp \<Rightarrow> (int + string) option" where
  "power_supply_show_property psy off =
     (case get_property psy off of (ret, v) \<Rightarrow>
        if ret < 0 then Some (Inl ret)
        else map_option (\<lambda>t. Inr (t @ [CHR 0x0A]))
               (if off = POWER_SUPPLY_PROP_STATUS then text_entry status_text (intval v)
                else if off = POWER_SUPPLY_PROP_CHARGE_TYPE then text_entry charge_type (intval v)
                else if off = POWER_SUPPLY_PROP_HEALTH then text_entry health_text (intval v)
                else if off = POWER_SUPPLY_PROP_TECHNOLOGY then text_entry technology_text (intval v)
                else if off = POWER_SUPPLY_PROP_CAPACITY_LEVEL then text_entry capacity_level_text (intval v)
                else if off \<ge> POWER_SUPPLY_PROP_MODEL_NAME then Some (strval v)
                else Some (show_int (intval v))))"

definition power_supply_show_static_attrs :: "power_supply \<Rightarrow> string" where
  "power_supply_show_static_attrs psy = type_text (ps_type psy) @ [CHR 0x0A]"

definition toupper :: "char \<Rightarrow> char" where
  "toupper c = (let n = of_char c :: nat in if 97 \<le> n \<and> n \<le> 122 then char_of (n - 32) else c)"

text \<open>\<open>kstruprdup\<close>; None when \<open>kmalloc\<close> fails.\<close>

definition kstruprdup :: "bool \<Rightarrow> string \<Rightarrow> string option" where
  "kstruprdup alloc s = (if alloc then Some (map toupper s) else None)"

definition uevent_var :: "string \<Rightarrow> string \<Rightarrow> string" where
  "uevent_var attrname text = ''POWER_SUPPLY_'' @ attrname @ ''='' @ takeWhile (\<lambda>c. c \<noteq> CHR 0x0A) text"

text \<open>
  The second loop of \<open>power_supply_uevent\<close>.  \<open>alloc a\<close> is the outcome of
  \<open>kmalloc\<close> for attribute name \<open>a\<close>, \<open>add vars v\<close> the result of
  \<open>add_uevent_var\<close>.
\<close>

fun uevent_props ::
  "(string \<Rightarrow> bool) \<Rightarrow> (string list \<Rightarrow> string \<Rightarrow> int) \<Rightarrow> power_supply \<Rightarrow> psp list \<Rightarrow> string list \<Rightarrow> (int \<times> string list) option" where
  "uevent_props alloc add psy [] vars = Some (0, vars)"
| "uevent_props alloc add psy (p # ps) vars =
     (case power_supply_show_property psy p of
        None \<Rightarrow> None
      | Some (Inl ret) \<Rightarrow> if ret = -ENODEV then uevent_props alloc add psy ps vars else Some (ret, vars)
      | Some (Inr text) \<Rightarrow>
          (case kstruprdup (alloc (power_supply_attrs ! p)) (power_supply_attrs ! p) of
             None \<Rightarrow> Some (-ENOMEM, vars)
           | Some attrname \<Rightarrow>
               let v = uevent_var attrname text
               in if add vars v \<noteq> 0 then Some (add vars v, vars)
                  else uevent_props alloc add psy ps (vars @ [v])))"

definition power_supply_uevent ::
  "bool \<Rightarrow> (string \<Rightarrow> bool) \<Rightarrow> (string list \<Rightarrow> string \<Rightarrow> int) \<Rightarrow> nat \<Rightarrow> ps_world \<Rightarrow> (int \<times> string list) option" where
  "power_supply_uevent page alloc add p w =
     (let psy = psys w p; name = ''POWER_SUPPLY_NAME='' @ ps_name psy
      in if dev w p = Dev_null then Some (0, [])
         else if add [] name \<noteq> 0 then Some (add [] name, [])
         else if \<not> page then Some (-ENOMEM, [name])
         else case kstruprdup (alloc ''type'') ''type'' of
                None \<Rightarrow> Some (-ENOMEM, [name])
              | Some attrname \<Rightarrow>
                  let v = uevent_var attrname (power_supply_show_static_attrs psy)
                  in if add [name] v \<noteq> 0 then Some (add [name] v, [name])
                     else uevent_props alloc add psy (ps_properties psy) [name, v])"

section \<open>Registration is all or nothing\<close>

definition unused :: "nat \<Rightarrow> ps_world \<Rightarrow> bool" where
  "unused p w \<longleftrightarrow> p \<notin> set (class_devices w) \<and> files w p = {} \<and> p \<notin> wake_locks w \<and> p \<notin> locked w"

definition all_attrs :: "power_supply \<Rightarrow> attr list" where
  "all_attrs psy = static_attrs @ map Prop_attr (ps_properties psy)"

definition can_register :: "ps_env \<Rightarrow> nat \<Rightarrow> power_supply \<Rightarrow> bool" where
  "can_register env p psy \<longleftrightarrow> device_create env p = 0 \<and> list_all (\<lambda>a. device_create_file env p a = 0) (all_attrs psy)"

definition registered :: "nat \<Rightarrow> ps_world \<Rightarrow> ps_world" where
  "registered p w =
     power_supply_changed p (w\<lparr>dev := (dev w)(p := Dev_live), class_devices := class_devices w @ [p],
       wake_locks := insert p (wake_locks w), files := (files w)(p := set (all_attrs (psys w p)))\<rparr>)"

lemma create_files_ok: "list_all (\<lambda>a. f a = 0) as \<Longrightarrow> create_files f done as fs = (0, fs \<union> set as)"
  by (induction "as" arbitrary: "done" fs) auto

lemma foldl_remove: "foldl (\<lambda>fs b. fs - {b}) fs ds = fs - set ds"
  by (induction ds arbitrary: fs) auto

lemma create_files_error:
  "\<not> list_all (\<lambda>a. f a = 0) as \<Longrightarrow> \<exists>rc fs'. create_files f done as fs = (rc, fs') \<and> rc \<noteq> 0 \<and> fs' \<subseteq> fs - set done"
proof (induction "as" arbitrary: "done" fs)
  case (Cons a as')
  show ?case
  proof (cases "f a = 0")
    case True
    with Cons.prems have "\<not> list_all (\<lambda>a. f a = 0) as'" by simp
    then obtain rc fs' where "create_files f (a # done) as' (insert a fs) = (rc, fs')" "rc \<noteq> 0" "fs' \<subseteq> insert a fs - set (a # done)"
      using Cons.IH by blast
    with True show ?thesis by auto
  qed (simp add: foldl_remove)
qed simp

lemma create_attrs_ok:
  assumes "list_all (\<lambda>a. device_create_file env p a = 0) (all_attrs (psys w p))" "files w p = {}"
  shows "power_supply_create_attrs env p w = (0, w\<lparr>files := (files w)(p := set (all_attrs (psys w p)))\<rparr>)"
  using create_files_ok [OF assms(1), of "[]" "{}"] assms(2)
  by (simp add: power_supply_create_attrs_def all_attrs_def)

lemma create_attrs_error:
  assumes "\<not> list_all (\<lambda>a. device_create_file env p a = 0) (all_attrs (psys w p))" "files w p = {}"
  obtains rc where "power_supply_create_attrs env p w = (rc, w\<lparr>files := (files w)(p := {})\<rparr>)" "rc \<noteq> 0"
  using create_files_error [OF assms(1), of "[]" "{}"] assms(2)
  by (auto simp: power_supply_create_attrs_def all_attrs_def)

lemma register_ok:
  assumes "can_register env p (psys w p)" "unused p w"
  shows "power_supply_register env p w = Some (0, registered p w)"
proof -
  let ?w1 = "w\<lparr>dev := (dev w)(p := Dev_live), class_devices := class_devices w @ [p], wake_locks := insert p (wake_locks w)\<rparr>"
  have "power_supply_create_attrs env p ?w1 = (0, ?w1\<lparr>files := (files w)(p := set (all_attrs (psys w p)))\<rparr>)"
    using create_attrs_ok [of env p ?w1] assms by (simp add: can_register_def unused_def)
  then show ?thesis
    using assms by (simp add: power_supply_register_def can_register_def registered_def)
qed

lemma register_error:
  assumes "\<not> can_register env p (psys w p)" "unused p w"
  obtains rc d where "power_supply_register env p w = Some (rc, w\<lparr>dev := (dev w)(p := d)\<rparr>)" "rc \<noteq> 0" "d \<noteq> Dev_live" "d \<noteq> Dev_null"
proof (cases "device_create env p = 0")
  case False
  then show ?thesis using that [of "device_create env p" "Dev_err (device_create env p)"] by (simp add: power_supply_register_def)
next
  case True
  let ?w1 = "w\<lparr>dev := (dev w)(p := Dev_live), class_devices := class_devices w @ [p], wake_locks := insert p (wake_locks w)\<rparr>"
  have "\<not> list_all (\<lambda>a. device_create_file env p a = 0) (all_attrs (psys ?w1 p))" "files ?w1 p = {}"
    using assms True by (simp_all add: can_register_def unused_def)
  then obtain rc where rc: "power_supply_create_attrs env p ?w1 = (rc, ?w1\<lparr>files := (files w)(p := {})\<rparr>)" "rc \<noteq> 0"
    by (rule create_attrs_error) simp
  have "filter (\<lambda>d. d \<noteq> p) (class_devices w) = class_devices w" "(files w)(p := {}) = files w"
    using assms(2) fun_upd_idem [of "files w" p "{}"] by (auto simp: unused_def filter_id_conv)
  then have "power_supply_register env p w = Some (rc, w\<lparr>dev := (dev w)(p := Dev_freed)\<rparr>)"
    using True rc assms(2)
    by (simp add: power_supply_register_def device_unregister_def wake_lock_destroy_def unused_def)
  then show ?thesis using that rc(2) by blast
qed

section \<open>Deferred work\<close>

lemma changed_work_one_frame:
  "psys (changed_work_one psy d w) = psys w" "dev (changed_work_one psy d w) = dev w"
  "class_devices (changed_work_one psy d w) = class_devices w" "files (changed_work_one psy d w) = files w"
  "wake_locks (changed_work_one psy d w) = wake_locks w" "locked (changed_work_one psy d w) = locked w"
  by (simp_all add: changed_work_one_def)

lemma changed_work_fold_frame:
  "psys (fold (changed_work_one psy) ds w) = psys w" "dev (fold (changed_work_one psy) ds w) = dev w"
  "class_devices (fold (changed_work_one psy) ds w) = class_devices w" "files (fold (changed_work_one psy) ds w) = files w"
  "wake_locks (fold (changed_work_one psy) ds w) = wake_locks w" "locked (fold (changed_work_one psy) ds w) = locked w"
  by (induction ds arbitrary: w) (simp_all add: changed_work_one_frame)

lemma changed_work_frame:
  "psys (power_supply_changed_work p w) = psys w" "dev (power_supply_changed_work p w) = dev w"
  "class_devices (power_supply_changed_work p w) = class_devices w" "files (power_supply_changed_work p w) = files w"
  "wake_locks (power_supply_changed_work p w) = wake_locks w" "locked (power_supply_changed_work p w) = locked w - {p}"
  by (simp_all add: power_supply_changed_work_def Let_def changed_work_fold_frame)

lemma flush_frame:
  "psys (flush_scheduled_work w) = psys w" "dev (flush_scheduled_work w) = dev w"
  "class_devices (flush_scheduled_work w) = class_devices w" "files (flush_scheduled_work w) = files w"
  "wake_locks (flush_scheduled_work w) = wake_locks w" "locked (flush_scheduled_work w) = locked w - set (pending w)"
proof -
  have "psys (fold power_supply_changed_work ps v) = psys v \<and> dev (fold power_supply_changed_work ps v) = dev v \<and>
    class_devices (fold power_supply_changed_work ps v) = class_devices v \<and> files (fold power_supply_changed_work ps v) = files v \<and>
    wake_locks (fold power_supply_changed_work ps v) = wake_locks v \<and> locked (fold power_supply_changed_work ps v) = locked v - set ps" for ps v
    by (induction ps arbitrary: v) (auto simp: changed_work_frame)
  then show "psys (flush_scheduled_work w) = psys w" "dev (flush_scheduled_work w) = dev w"
    "class_devices (flush_scheduled_work w) = class_devices w" "files (flush_scheduled_work w) = files w"
    "wake_locks (flush_scheduled_work w) = wake_locks w" "locked (flush_scheduled_work w) = locked w - set (pending w)"
    by (simp_all add: flush_scheduled_work_def)
qed

text \<open>\<open>power_supply_unregister\<close> of a registered supply succeeds; of any other it faults.\<close>

lemma unregister_live:
  assumes "dev w p = Dev_live"
  obtains w' where "power_supply_unregister p w = Some w'" "psys w' = psys w" "dev w' = (dev w)(p := Dev_freed)"
    "class_devices w' = filter (\<lambda>d. d \<noteq> p) (class_devices w)" "files w' = (files w)(p := {})" "wake_locks w' = wake_locks w - {p}"
    "locked w' = locked w - set (pending w) - {p}"
  using assms that
  by (simp add: power_supply_unregister_def power_supply_remove_attrs_def device_unregister_def wake_lock_destroy_def flush_frame)

lemma unregister_fault: "dev w p \<noteq> Dev_live \<Longrightarrow> power_supply_unregister p w = None"
  by (cases "dev w p")
    (simp_all add: power_supply_unregister_def power_supply_remove_attrs_def device_unregister_def wake_lock_destroy_def flush_frame)

end
