(* ===== verification/Acpower.thy ===== *)
theory Acpower
  imports Power_Supply
begin

text \<open>
  drivers/parrot/power/acpower.c: the driver that reports a full battery, mains and
  USB power on boards without power management, as a client of the power supply
  class.  \<open>data_live\<close> says whether the driver's structure, which holds the three
  supplies, is allocated; \<open>battery_data\<close> whether the global pointer is set.
\<close>

section \<open>Properties of the supplies\<close>

definition acpower_usb_get_property :: "psp \<Rightarrow> int \<times> propval" where
  "acpower_usb_get_property psp =
     (if psp = POWER_SUPPLY_PROP_ONLINE then (0, Intval 1) else (-EINVAL, Intval 0))"

definition acpower_ac_get_property :: "psp \<Rightarrow> int \<times> propval" where
  "acpower_ac_get_property psp =
     (if psp = POWER_SUPPLY_PROP_ONLINE then (0, Intval 1) else (-EINVAL, Intval 0))"

definition POWER_SUPPLY_STATUS_FULL :: int where "POWER_SUPPLY_STATUS_FULL = 4"
definition POWER_SUPPLY_HEALTH_GOOD :: int where "POWER_SUPPLY_HEALTH_GOOD = 1"
definition POWER_SUPPLY_TECHNOLOGY_LION :: int where "POWER_SUPPLY_TECHNOLOGY_LION = 2"

definition acpower_battery_get_property :: "psp \<Rightarrow> int \<times> propval" where
  "acpower_battery_get_property psp =
     (if psp = POWER_SUPPLY_PROP_STATUS then (0, Intval POWER_SUPPLY_STATUS_FULL)
      else if psp = POWER_SUPPLY_PROP_HEALTH then (0, Intval POWER_SUPPLY_HEALTH_GOOD)
      else if psp = POWER_SUPPLY_PROP_PRESENT then (0, Intval 1)
      else if psp = POWER_SUPPLY_PROP_TECHNOLOGY then (0, Intval POWER_SUPPLY_TECHNOLOGY_LION)
      else if psp = POWER_SUPPLY_PROP_CAPACITY then (0, Intval 100)
      else (-EINVAL, Intval 0))"

definition acpower_battery :: power_supply where
  "acpower_battery = \<lparr>ps_name = ''battery'', ps_type = POWER_SUPPLY_TYPE_BATTERY,
     ps_properties = [POWER_SUPPLY_PROP_STATUS, POWER_SUPPLY_PROP_HEALTH, POWER_SUPPLY_PROP_PRESENT,
                      POWER_SUPPLY_PROP_TECHNOLOGY, POWER_SUPPLY_PROP_CAPACITY],
     supplied_to = [], get_property = acpower_battery_get_property, external_power_changed = False, set_charged = False\<rparr>"

definition acpower_ac :: power_supply where
  "acpower_ac = \<lparr>ps_name = ''ac'', ps_type = POWER_SUPPLY_TYPE_MAINS, ps_properties = [POWER_SUPPLY_PROP_ONLINE],
     supplied_to = [], get_property = acpower_ac_get_property, external_power_changed = False, set_charged = False\<rparr>"

definition acpower_usb :: power_supply where
  "acpower_usb = \<lparr>ps_name = ''usb'', ps_type = POWER_SUPPLY_TYPE_USB, ps_properties = [POWER_SUPPLY_PROP_ONLINE],
     supplied_to = [], get_property = acpower_usb_get_property, external_power_changed = False, set_charged = False\<rparr>"

section \<open>Probe and remove\<close>

record acp_world =
  ps :: ps_world
  data_live :: bool
  battery_data :: bool

definition BATTERY :: nat where "BATTERY = 0"
definition AC :: nat where "AC = 1"
definition USB :: nat where "USB = 2"

text \<open>\<open>kzalloc\<close> and the assignments to the three supplies.\<close>

definition acpower_alloc :: "acp_world \<Rightarrow> acp_world" where
  "acpower_alloc w =
     w\<lparr>data_live := True,
       ps := (ps w)\<lparr>psys := (psys (ps w))(BATTERY := acpower_battery, AC := acpower_ac, USB := acpower_usb),
                    dev := (dev (ps w))(BATTERY := Dev_null, AC := Dev_null, USB := Dev_null)\<rparr>\<rparr>"

definition kfree_data :: "acp_world \<Rightarrow> acp_world" where
  "kfree_data w = w\<lparr>data_live := False\<rparr>"

text \<open>The error labels, from \<open>err_usb_failed\<close> down.\<close>

definition err_ac_failed :: "int \<Rightarrow> acp_world \<Rightarrow> (int \<times> acp_world) option" where
  "err_ac_failed ret w = Some (ret, kfree_data w)"

definition err_battery_failed :: "int \<Rightarrow> acp_world \<Rightarrow> (int \<times> acp_world) option" where
  "err_battery_failed ret w =
     (case power_supply_unregister AC (ps w) of None \<Rightarrow> None | Some p \<Rightarrow> err_ac_failed ret (w\<lparr>ps := p\<rparr>))"

definition err_usb_failed :: "int \<Rightarrow> acp_world \<Rightarrow> (int \<times> acp_world) option" where
  "err_usb_failed ret w =
     (case power_supply_unregister USB (ps w) of None \<Rightarrow> None | Some p \<Rightarrow> err_battery_failed ret (w\<lparr>ps := p\<rparr>))"

definition acpower_battery_probe :: "bool \<Rightarrow> ps_env \<Rightarrow> acp_world \<Rightarrow> (int \<times> acp_world) option" where
  "acpower_battery_probe alloc env w0 =
     (if \<not> alloc then Some (-ENOMEM, w0)
      else let w = acpower_alloc w0
           in case power_supply_register env AC (ps w) of
                None \<Rightarrow> None
              | Some (r1, p1) \<Rightarrow>
                  if r1 \<noteq> 0 then err_ac_failed r1 (w\<lparr>ps := p1\<rparr>)
                  else case power_supply_register env BATTERY p1 of
                         None \<Rightarrow> None
                       | Some (r2, p2) \<Rightarrow>
                           if r2 \<noteq> 0 then err_battery_failed r2 (w\<lparr>ps := p2\<rparr>)
                           else case power_supply_register env USB p2 of
                                  None \<Rightarrow> None
                                | Some (r3, p3) \<Rightarrow>
                                    if r3 \<noteq> 0 then err_usb_failed r3 (w\<lparr>ps := p3\<rparr>)
                                    else Some (0, w\<lparr>ps := p3, battery_data := True\<rparr>))"

definition acpower_battery_remove :: "acp_world \<Rightarrow> (int \<times> acp_world) option" where
  "acpower_battery_remove w =
     (case power_supply_unregister BATTERY (ps w) of
        None \<Rightarrow> None
      | Some p1 \<Rightarrow>
          case power_supply_unregister AC p1 of
            None \<Rightarrow> None
          | Some p2 \<Rightarrow>
              case power_supply_unregister USB p2 of
                None \<Rightarrow> None
              | Some p3 \<Rightarrow> Some (0, (kfree_data (w\<lparr>ps := p3\<rparr>))\<lparr>battery_data := False\<rparr>))"

section \<open>Probe\<close>

text \<open>Nothing of the driver is registered.\<close>

definition acp_absent :: "acp_world \<Rightarrow> bool" where
  "acp_absent w \<longleftrightarrow> unused BATTERY (ps w) \<and> unused AC (ps w) \<and> unused USB (ps w)"

text \<open>What the rest of the system sees of the class: devices, attribute files, wake locks.\<close>

definition visible :: "acp_world \<Rightarrow> nat list \<times> (nat \<Rightarrow> attr set) \<times> nat set" where
  "visible w = (class_devices (ps w), files (ps w), wake_locks (ps w))"

lemma acp_ids [simp]:
  "BATTERY \<noteq> AC" "AC \<noteq> BATTERY" "BATTERY \<noteq> USB" "USB \<noteq> BATTERY" "AC \<noteq> USB" "USB \<noteq> AC"
  by (simp_all add: BATTERY_def AC_def USB_def)

lemma alloc_unused:
  "unused p (ps (acpower_alloc w)) = unused p (ps w)" "visible (acpower_alloc w) = visible w"
  "psys (ps (acpower_alloc w)) BATTERY = acpower_battery" "psys (ps (acpower_alloc w)) AC = acpower_ac"
  "psys (ps (acpower_alloc w)) USB = acpower_usb"
  by (simp_all add: unused_def acpower_alloc_def visible_def)

lemma registered_frame:
  "psys (registered p w) = psys w" "class_devices (registered p w) = class_devices w @ [p]"
  "wake_locks (registered p w) = insert p (wake_locks w)" "locked (registered p w) = insert p (locked w)"
  "files (registered p w) = (files w)(p := set (all_attrs (psys w p)))" "dev (registered p w) = (dev w)(p := Dev_live)"
  by (simp_all add: registered_def power_supply_changed_def)

lemma registered_unused: "q \<noteq> p \<Longrightarrow> unused q (registered p w) = unused q w"
  by (auto simp: unused_def registered_frame)

lemma probe_no_memory: "acpower_battery_probe False env w = Some (-ENOMEM, w)"
  by (simp add: acpower_battery_probe_def)

lemma probe_ac_fails:
  assumes "acp_absent w" "\<not> can_register env AC acpower_ac"
  obtains rc w' where "acpower_battery_probe True env w = Some (rc, w')" "rc \<noteq> 0" "visible w' = visible w" "\<not> data_live w'"
proof -
  have "\<not> can_register env AC (psys (ps (acpower_alloc w)) AC)" "unused AC (ps (acpower_alloc w))"
    using assms by (simp_all add: alloc_unused acp_absent_def)
  then obtain rc d where "power_supply_register env AC (ps (acpower_alloc w)) =
      Some (rc, (ps (acpower_alloc w))\<lparr>dev := (dev (ps (acpower_alloc w)))(AC := d)\<rparr>)" "rc \<noteq> 0"
    by (rule register_error)
  then show ?thesis
    using that alloc_unused(2) [of w]
    by (simp add: acpower_battery_probe_def Let_def err_ac_failed_def kfree_data_def visible_def)
qed

lemma probe_ac_ok:
  assumes "acp_absent w" "can_register env AC acpower_ac"
  shows "power_supply_register env AC (ps (acpower_alloc w)) = Some (0, registered AC (ps (acpower_alloc w)))"
    and "unused BATTERY (registered AC (ps (acpower_alloc w)))" "unused USB (registered AC (ps (acpower_alloc w)))"
  using register_ok [of env AC "ps (acpower_alloc w)"] assms
  by (simp_all add: alloc_unused acp_absent_def registered_unused)

lemma probe_battery_fails:
  assumes "acp_absent w" "can_register env AC acpower_ac" "\<not> can_register env BATTERY acpower_battery"
  obtains rc w' where "acpower_battery_probe True env w = Some (rc, w')" "rc \<noteq> 0" "visible w' = visible w" "\<not> data_live w'"
proof -
  define a where "a = acpower_alloc w"
  note ac = probe_ac_ok [OF assms(1,2), folded a_def]
  have "\<not> can_register env BATTERY (psys (registered AC (ps a)) BATTERY)"
    using assms(3) by (simp add: registered_frame a_def alloc_unused)
  then obtain rc d where r: "power_supply_register env BATTERY (registered AC (ps a)) =
      Some (rc, (registered AC (ps a))\<lparr>dev := (dev (registered AC (ps a)))(BATTERY := d)\<rparr>)" "rc \<noteq> 0"
    using ac(2) by (rule register_error)
  let ?p2 = "(registered AC (ps a))\<lparr>dev := (dev (registered AC (ps a)))(BATTERY := d)\<rparr>"
  have "dev ?p2 AC = Dev_live" by (simp add: registered_frame)
  then obtain p3 where u: "power_supply_unregister AC ?p2 = Some p3"
      "class_devices p3 = filter (\<lambda>d. d \<noteq> AC) (class_devices ?p2)" "files p3 = (files ?p2)(AC := {})" "wake_locks p3 = wake_locks ?p2 - {AC}"
    by (rule unregister_live)
  have "unused AC (ps a)" using assms(1) by (simp add: acp_absent_def a_def alloc_unused)
  then have "(class_devices p3, files p3, wake_locks p3) = visible a"
    using u(2-4) fun_upd_idem [of "files (ps a)" AC "{}"] by (auto simp: visible_def registered_frame unused_def filter_id_conv)
  then show ?thesis
    using that ac(1) r u(1) alloc_unused(2) [of w]
    by (simp add: acpower_battery_probe_def a_def [symmetric] err_battery_failed_def err_ac_failed_def kfree_data_def visible_def)
qed

lemma probe_battery_ok:
  assumes "acp_absent w" "can_register env AC acpower_ac" "can_register env BATTERY acpower_battery"
  defines "p2 \<equiv> registered BATTERY (registered AC (ps (acpower_alloc w)))"
  shows "power_supply_register env BATTERY (registered AC (ps (acpower_alloc w))) = Some (0, p2)" "unused USB p2"
    and "psys p2 USB = acpower_usb"
  using register_ok [of env BATTERY "registered AC (ps (acpower_alloc w))"] probe_ac_ok [OF assms(1,2)] assms(3)
  by (simp_all add: p2_def registered_unused registered_frame alloc_unused)

lemma probe_usb_fails:
  assumes "acp_absent w" "can_register env AC acpower_ac" "can_register env BATTERY acpower_battery" "\<not> can_register env USB acpower_usb"
  shows "acpower_battery_probe True env w = None"
proof -
  note b = probe_battery_ok [OF assms(1-3)]
  define p2 where "p2 = registered BATTERY (registered AC (ps (acpower_alloc w)))"
  have "\<not> can_register env USB (psys p2 USB)" "unused USB p2" using assms(4) b(2,3) by (simp_all add: p2_def)
  then obtain rc d where r: "power_supply_register env USB p2 = Some (rc, p2\<lparr>dev := (dev p2)(USB := d)\<rparr>)" "rc \<noteq> 0" "d \<noteq> Dev_live"
    by (rule register_error)
  then have "power_supply_unregister USB (p2\<lparr>dev := (dev p2)(USB := d)\<rparr>) = None" by (intro unregister_fault) simp
  then show ?thesis
    using probe_ac_ok(1) [OF assms(1,2)] b(1) r
    by (simp add: acpower_battery_probe_def p2_def [symmetric] err_usb_failed_def)
qed

lemma probe_all_ok:
  assumes "acp_absent w" "can_register env AC acpower_ac" "can_register env BATTERY acpower_battery" "can_register env USB acpower_usb"
  defines "p3 \<equiv> registered USB (registered BATTERY (registered AC (ps (acpower_alloc w))))"
  shows "acpower_battery_probe True env w = Some (0, (acpower_alloc w)\<lparr>ps := p3, battery_data := True\<rparr>)"
proof -
  note b = probe_battery_ok [OF assms(1-3)]
  have "power_supply_register env USB (registered BATTERY (registered AC (ps (acpower_alloc w)))) = Some (0, p3)"
    using register_ok [OF _ b(2)] b(3) assms(4) by (simp add: p3_def)
  then show ?thesis using probe_ac_ok(1) [OF assms(1,2)] b(1) by (simp add: acpower_battery_probe_def)
qed

section \<open>Remove\<close>

lemma remove_restores:
  assumes "acp_absent w" "p3 = registered USB (registered BATTERY (registered AC (ps (acpower_alloc w))))"
  obtains w' where "acpower_battery_remove ((acpower_alloc w)\<lparr>ps := p3, battery_data := True\<rparr>) = Some (0, w')"
    "visible w' = visible w" "\<not> data_live w'" "\<not> battery_data w'"
proof -
  let ?p0 = "ps (acpower_alloc w)"
  have "dev p3 BATTERY = Dev_live" by (simp add: assms(2) registered_frame)
  then obtain q1 where 1: "power_supply_unregister BATTERY p3 = Some q1" "dev q1 = (dev p3)(BATTERY := Dev_freed)"
      "class_devices q1 = filter (\<lambda>d. d \<noteq> BATTERY) (class_devices p3)" "files q1 = (files p3)(BATTERY := {})" "wake_locks q1 = wake_locks p3 - {BATTERY}"
    by (rule unregister_live)
  have "dev q1 AC = Dev_live" by (simp add: 1(2) assms(2) registered_frame)
  then obtain q2 where 2: "power_supply_unregister AC q1 = Some q2" "dev q2 = (dev q1)(AC := Dev_freed)"
      "class_devices q2 = filter (\<lambda>d. d \<noteq> AC) (class_devices q1)" "files q2 = (files q1)(AC := {})" "wake_locks q2 = wake_locks q1 - {AC}"
    by (rule unregister_live)
  have "dev q2 USB = Dev_live" by (simp add: 1(2) 2(2) assms(2) registered_frame)
  then obtain q3 where 3: "power_supply_unregister USB q2 = Some q3"
      "class_devices q3 = filter (\<lambda>d. d \<noteq> USB) (class_devices q2)" "files q3 = (files q2)(USB := {})" "wake_locks q3 = wake_locks q2 - {USB}"
    by (rule unregister_live)
  have u: "BATTERY \<notin> set (class_devices ?p0)" "AC \<notin> set (class_devices ?p0)" "USB \<notin> set (class_devices ?p0)"
      "files ?p0 BATTERY = {}" "files ?p0 AC = {}" "files ?p0 USB = {}" "BATTERY \<notin> wake_locks ?p0" "AC \<notin> wake_locks ?p0" "USB \<notin> wake_locks ?p0"
    using assms(1) by (simp_all add: acp_absent_def acpower_alloc_def unused_def)
  have "class_devices q3 = class_devices ?p0"
    using u(1-3) by (auto simp: 1 2 3 assms(2) registered_frame filter_empty_conv filter_id_conv)
  moreover have "files q3 = files ?p0"
    using u(4-6) by (intro ext) (simp add: 1 2 3 assms(2) registered_frame)
  moreover have "wake_locks q3 = wake_locks ?p0" using u(7-9) by (auto simp: 1 2 3 assms(2) registered_frame)
  ultimately have "visible ((acpower_alloc w)\<lparr>ps := q3, battery_data := False, data_live := False\<rparr>) = visible w"
    using alloc_unused(2) [of w] by (simp add: visible_def)
  then show ?thesis
    using that 1(1) 2(1) 3(1) by (simp add: acpower_battery_remove_def kfree_data_def visible_def)
qed

section \<open>Properties\<close>

text \<open>
  C36: \<open>power_supply_register\<close> is all or nothing: if creating the device and all
  its attribute files succeeds, the supply is in the class with exactly the attributes
  it declares, a wake lock and a pending change notification; if any of these fails it
  returns an error and the class is as before.
\<close>

theorem power_supply_register_atomic:
  assumes "unused p w"
  shows "\<exists>rc w'. power_supply_register env p w = Some (rc, w') \<and>
    (if device_create env p = 0 \<and> (\<forall>a \<in> set (all_attrs (psys w p)). device_create_file env p a = 0)
     then rc = 0 \<and> class_devices w' = class_devices w @ [p] \<and>
          files w' = (files w)(p := insert Type_attr (Prop_attr ` set (ps_properties (psys w p)))) \<and>
          wake_locks w' = insert p (wake_locks w) \<and> p \<in> set (pending w') \<and> changed w' p
     else rc \<noteq> 0 \<and> class_devices w' = class_devices w \<and> files w' = files w \<and> wake_locks w' = wake_locks w \<and>
          locked w' = locked w \<and> pending w' = pending w)"
proof (cases "can_register env p (psys w p)")
  case True
  then show ?thesis
    using register_ok [OF True assms]
    by (auto simp: can_register_def list_all_iff registered_frame registered_def power_supply_changed_def all_attrs_def static_attrs_def)
next
  case False
  then obtain rc d where "power_supply_register env p w = Some (rc, w\<lparr>dev := (dev w)(p := d)\<rparr>)" "rc \<noteq> 0"
    using assms by (rule register_error)
  then show ?thesis using False by (auto simp: can_register_def list_all_iff)
qed

text \<open>
  C37: Probing the AC driver is all or nothing, and removing it undoes the probe,
  with one exception: when the registration of the USB supply fails after the other two
  succeeded, the error path unregisters the supply that was never registered and the
  kernel accesses an invalid device pointer.
\<close>

theorem acpower_probe_correct:
  assumes "acp_absent w"
  shows "if alloc \<and> can_register env AC acpower_ac \<and> can_register env BATTERY acpower_battery
         then if can_register env USB acpower_usb
              then \<exists>w1 w2. acpower_battery_probe alloc env w = Some (0, w1) \<and>
                     class_devices (ps w1) = class_devices (ps w) @ [AC, BATTERY, USB] \<and>
                     acpower_battery_remove w1 = Some (0, w2) \<and> visible w2 = visible w \<and> \<not> data_live w2
              else acpower_battery_probe alloc env w = None
         else \<exists>rc w'. acpower_battery_probe alloc env w = Some (rc, w') \<and> rc \<noteq> 0 \<and> visible w' = visible w"
proof (cases "alloc \<and> can_register env AC acpower_ac \<and> can_register env BATTERY acpower_battery")
  case ok: True
  show ?thesis
  proof (cases "can_register env USB acpower_usb")
    case True
    define p3 where "p3 = registered USB (registered BATTERY (registered AC (ps (acpower_alloc w))))"
    have pr: "acpower_battery_probe alloc env w = Some (0, (acpower_alloc w)\<lparr>ps := p3, battery_data := True\<rparr>)"
      using probe_all_ok [OF assms, of env] ok True by (simp add: p3_def)
    obtain w' where "acpower_battery_remove ((acpower_alloc w)\<lparr>ps := p3, battery_data := True\<rparr>) = Some (0, w')"
        "visible w' = visible w" "\<not> data_live w'"
      by (rule remove_restores [OF assms p3_def])
    moreover have "class_devices p3 = class_devices (ps w) @ [AC, BATTERY, USB]"
      by (simp add: p3_def registered_frame acpower_alloc_def)
    ultimately show ?thesis using pr ok True by simp
  next
    case False
    then show ?thesis using probe_usb_fails [OF assms, of env] ok by simp
  qed
next
  case False
  have "\<exists>rc w'. acpower_battery_probe alloc env w = Some (rc, w') \<and> rc \<noteq> 0 \<and> visible w' = visible w"
  proof (cases alloc)
    case True
    then consider "\<not> can_register env AC acpower_ac"
      | "can_register env AC acpower_ac" "\<not> can_register env BATTERY acpower_battery" using False by blast
    then show ?thesis
    proof cases
      case 1
      then show ?thesis using probe_ac_fails [OF assms 1] True by metis
    next
      case 2
      then show ?thesis using probe_battery_fails [OF assms 2] True by metis
    qed
  qed (simp add: probe_no_memory errno_defs)
  then show ?thesis unfolding if_not_P [OF False] .
qed

lemma class_for_each_device_pos:
  "d \<in> set ds \<Longrightarrow> f d > 0 \<Longrightarrow> list_all (\<lambda>d. f d \<ge> 0) ds \<Longrightarrow> class_for_each_device f ds > 0"
  by (induction ds) auto

lemma battery_event:
  "uevent_props (\<lambda>_. True) (\<lambda>_ _. 0) acpower_battery (ps_properties acpower_battery)
     [''POWER_SUPPLY_NAME=battery'', ''POWER_SUPPLY_TYPE=Battery''] =
   Some (0, [''POWER_SUPPLY_NAME=battery'', ''POWER_SUPPLY_TYPE=Battery'', ''POWER_SUPPLY_STATUS=Full'',
             ''POWER_SUPPLY_HEALTH=Good'', ''POWER_SUPPLY_PRESENT=1'', ''POWER_SUPPLY_TECHNOLOGY=Li-ion'',
             ''POWER_SUPPLY_CAPACITY=100''])"
  by code_simp

lemma battery_type_event:
  "uevent_var (map toupper ''type'') (power_supply_show_static_attrs acpower_battery) = ''POWER_SUPPLY_TYPE=Battery''"
  by code_simp

lemma reports_in_tables:
  "\<forall>psy \<in> {acpower_battery, acpower_ac, acpower_usb}. \<forall>p \<in> set (ps_properties psy).
     \<exists>t. power_supply_show_property psy p = Some (Inr t)"
  by (simp add: power_supply_show_property_def acpower_battery_def acpower_ac_def acpower_usb_def acpower_battery_get_property_def
      acpower_ac_get_property_def acpower_usb_get_property_def psp_defs text_entry_def status_text_def health_text_def
      technology_text_def POWER_SUPPLY_STATUS_FULL_def POWER_SUPPLY_HEALTH_GOOD_def POWER_SUPPLY_TECHNOLOGY_LION_def)

lemma battery_uevent:
  assumes "dev w p \<noteq> Dev_null" "psys w p = acpower_battery"
  shows "power_supply_uevent True (\<lambda>_. True) (\<lambda>_ _. 0) p w =
        Some (0, [''POWER_SUPPLY_NAME=battery'', ''POWER_SUPPLY_TYPE=Battery'', ''POWER_SUPPLY_STATUS=Full'',
                  ''POWER_SUPPLY_HEALTH=Good'', ''POWER_SUPPLY_PRESENT=1'', ''POWER_SUPPLY_TECHNOLOGY=Li-ion'',
                  ''POWER_SUPPLY_CAPACITY=100''])"
proof -
  have n: "''POWER_SUPPLY_NAME='' @ ps_name acpower_battery = ''POWER_SUPPLY_NAME=battery''" by (simp add: acpower_battery_def)
  show ?thesis
    unfolding power_supply_uevent_def Let_def assms(2) n kstruprdup_def
    using assms(1) battery_event by (simp only: if_True if_False option.case simp_thms battery_type_event)
qed

lemma mains_supplies:
  assumes "AC \<in> set (class_devices w)" "psys w AC = acpower_ac" "list_all (\<lambda>d. online (psys w d) \<ge> 0) (class_devices w)"
  shows "power_supply_is_system_supplied w > 0"
  unfolding power_supply_is_system_supplied_def
proof (rule class_for_each_device_pos [OF assms(1)])
  show "is_system_supplied_one (psys w AC) > 0"
    by (simp add: assms(2) is_system_supplied_one_def online_def acpower_ac_def acpower_ac_get_property_def)
  show "list_all (\<lambda>d. is_system_supplied_one (psys w d) \<ge> 0) (class_devices w)"
    using assms(3) by (auto simp: list_all_iff is_system_supplied_one_def)
qed

section \<open>Concrete runs\<close>

definition boot :: acp_world where
  "boot = \<lparr>ps = \<lparr>psys = (\<lambda>_. acpower_ac), dev = (\<lambda>_. Dev_null), class_devices = [], files = (\<lambda>_. {}), wake_locks = {}, locked = {},
                   changed = (\<lambda>_. False), pending = [], notified = [], uevents = []\<rparr>, data_live = False, battery_data = False\<rparr>"

definition good_env :: ps_env where
  "good_env = \<lparr>device_create = (\<lambda>_. 0), device_create_file = (\<lambda>_ _. 0)\<rparr>"

text \<open>The environment in which the last registration fails.\<close>

definition no_usb_env :: ps_env where
  "no_usb_env = \<lparr>device_create = (\<lambda>p. if p = USB then -ENOMEM else 0), device_create_file = (\<lambda>_ _. 0)\<rparr>"

lemma boot_absent: "acp_absent boot"
  by (simp add: acp_absent_def boot_def unused_def)

theorem power_supply_register_atomic_witness:
  "\<exists>rc w'. power_supply_register good_env AC (ps boot) = Some (rc, w') \<and> rc = 0 \<and> class_devices w' = [AC]"
proof -
  have "unused AC (ps boot)" using boot_absent by (simp add: acp_absent_def)
  from power_supply_register_atomic [OF this, of good_env] show ?thesis by (auto simp: good_env_def boot_def)
qed

theorem acpower_probe_correct_witness: "acpower_battery_probe True no_usb_env boot = None"
  using acpower_probe_correct [OF boot_absent, of True no_usb_env]
  by (simp add: no_usb_env_def can_register_def list_all_iff errno_defs)

end
