(* ===== verification/Smsc43340.thy ===== *)
theory Smsc43340
  imports Gpiolib
begin

text \<open>
  drivers/parrot/usb/otg/dummy-smsc-usb43340.c: the USB transceiver driver, a client
  of gpiolib.  Driver structures have addresses (\<open>smsc_mem\<close> is None where nothing
  is allocated), so that pointers that outlive them are visible: the global transceiver
  of drivers/usb/otg/otg.c, the cookies of interrupt handlers and queued work.  The
  level of a pin is the last value that was set.  The result None is a fault.
\<close>

section \<open>Data\<close>

record smsc43340_usb =
  gpio_reset :: int
  gpio_overcurrent :: int
  smsc_irq :: int
  asleep :: bool
  otg_gadget :: "nat option"
  otg_host :: "nat option"
  otg_state :: nat
  link_save_context :: bool
  link_restore_context :: bool
  link_force_active :: bool

record smsc43340_usb_data =
  pd_reset :: int
  pd_overcurrent :: int

text \<open>
  What happens between the transceiver and the USB controller: the controller sets or
  clears its hooks in the transceiver, and the transceiver calls them.  A hook is a
  function pointer of the structure, True when it is not NULL.
\<close>

datatype link_event = Attach | Detach | Save_context | Restore_context | Force_active int

record smsc_world =
  gpios :: gpio_state
  level :: "nat \<Rightarrow> int"
  exported :: "nat set"
  smsc_mem :: "nat \<Rightarrow> smsc43340_usb option"
  xceiv :: "nat option"
  drvdata :: "nat option"
  handlers :: "(int \<times> nat) set"
  works :: "nat set"
  link :: "link_event list"

text \<open>
  Outcomes of the calls that leave the driver: the address \<open>kzalloc\<close> returns,
  gpiolib's callbacks, whether the sysfs class of the pins exists, the creation of the
  files of a pin, and \<open>request_irq\<close>.
\<close>

record smsc_env =
  kzalloc :: "nat option"
  genv :: gpio_env
  gpio_class_ready :: bool
  export_ok :: bool
  irq_status :: int

definition OTG_STATE_UNDEFINED :: nat where "OTG_STATE_UNDEFINED = 0"

text \<open>The interrupt of a pin, \<open>OMAP_GPIO_IRQ\<close>, of the board.\<close>

definition set_level :: "int \<Rightarrow> int \<Rightarrow> smsc_world \<Rightarrow> smsc_world option" where
  "set_level gpio v w =
     (case gpio_set_value (nat gpio) v (gpios w) of
        None \<Rightarrow> None
      | Some _ \<Rightarrow> Some (w\<lparr>level := (level w)(nat gpio := v)\<rparr>))"

text \<open>
  \<open>gpio_export\<close>: a requested pin that is not exported yet gets its files in
  sysfs; neither the pin's direction nor its level changes.
\<close>

definition gpio_export :: "smsc_env \<Rightarrow> int \<Rightarrow> bool \<Rightarrow> smsc_world \<Rightarrow> smsc_world option" where
  "gpio_export env gpio direction_may_change w =
     (if \<not> gpio_class_ready env \<or> \<not> gpio_is_valid gpio then Some w
      else case gpio_to_chip (nat gpio) (gpios w) of
        None \<Rightarrow> None
      | Some c \<Rightarrow>
          if FLAG_REQUESTED (descs (gpios w) ! nat gpio) \<and> nat gpio \<notin> exported w \<and> export_ok env
          then Some (w\<lparr>exported := insert (nat gpio) (exported w)\<rparr>) else Some w)"

definition smsc43340_phy_power_on :: "smsc_env \<Rightarrow> int \<Rightarrow> smsc_world \<Rightarrow> smsc_world option" where
  "smsc43340_phy_power_on env gpio = gpio_export env gpio True"

definition smsc43340_phy_power_off :: "smsc_env \<Rightarrow> int \<Rightarrow> smsc_world \<Rightarrow> smsc_world option" where
  "smsc43340_phy_power_off env gpio = gpio_export env gpio False"

section \<open>Suspend and resume\<close>

definition call_link :: "bool \<Rightarrow> link_event \<Rightarrow> smsc_world \<Rightarrow> smsc_world" where
  "call_link hook e w = (if hook then w\<lparr>link := link w @ [e]\<rparr> else w)"

definition set_asleep :: "nat \<Rightarrow> bool \<Rightarrow> smsc_world \<Rightarrow> smsc_world" where
  "set_asleep a b w = w\<lparr>smsc_mem := (smsc_mem w)(a := map_option (\<lambda>x. x\<lparr>asleep := b\<rparr>) (smsc_mem w a))\<rparr>"

definition smsc43340_phy_suspend :: "smsc_env \<Rightarrow> nat \<Rightarrow> smsc_world \<Rightarrow> smsc_world option" where
  "smsc43340_phy_suspend env a w =
     (case smsc_mem w a of
        None \<Rightarrow> None
      | Some x \<Rightarrow>
          if asleep x then Some w
          else map_option (set_asleep a True)
                 (smsc43340_phy_power_off env (gpio_reset x) (call_link (link_save_context x) Save_context w)))"

definition smsc43340_phy_resume :: "smsc_env \<Rightarrow> nat \<Rightarrow> smsc_world \<Rightarrow> smsc_world option" where
  "smsc43340_phy_resume env a w =
     (case smsc_mem w a of
        None \<Rightarrow> None
      | Some x \<Rightarrow>
          if \<not> asleep x then Some w
          else map_option (\<lambda>w1. call_link (link_restore_context x) Restore_context (set_asleep a False w1))
                 (smsc43340_phy_power_on env (gpio_reset x) w))"

definition smsc43340_irq_work_handler :: "smsc_env \<Rightarrow> nat \<Rightarrow> smsc_world \<Rightarrow> smsc_world option" where
  "smsc43340_irq_work_handler env a w =
     (case smsc_mem w a of
        None \<Rightarrow> None
      | Some x \<Rightarrow> smsc43340_phy_resume env a (call_link (link_force_active x) (Force_active 1) w))"

definition schedule_work :: "nat \<Rightarrow> smsc_world \<Rightarrow> smsc_world" where
  "schedule_work a w = w\<lparr>works := insert a (works w)\<rparr>"

definition smsc43340_usb_irq :: "smsc_env \<Rightarrow> nat \<Rightarrow> smsc_world \<Rightarrow> smsc_world option" where
  "smsc43340_usb_irq env a w =
     (case smsc_mem w a of
        None \<Rightarrow> None
      | Some x \<Rightarrow>
          if gpio_is_valid (gpio_overcurrent x)
          then case gpio_get_value (genv env) (nat (gpio_overcurrent x)) (gpios w) of
                 None \<Rightarrow> None
               | Some v \<Rightarrow>
                   if v = 0 then Some (schedule_work a w)
                   else smsc43340_phy_suspend env a (call_link (link_force_active x) (Force_active 0) w)
          else Some (schedule_work a w))"

text \<open>The hooks of the transceiver; the argument is the transceiver pointer.\<close>

definition smsc43340_set_suspend :: "smsc_env \<Rightarrow> nat \<Rightarrow> int \<Rightarrow> smsc_world \<Rightarrow> (int \<times> smsc_world) option" where
  "smsc43340_set_suspend env a suspend w =
     map_option (Pair 0) (if suspend \<noteq> 0 then smsc43340_phy_suspend env a w else smsc43340_phy_resume env a w)"

definition smsc43340_set_peripheral :: "nat option \<Rightarrow> nat option \<Rightarrow> smsc_world \<Rightarrow> (int \<times> smsc_world) option" where
  "smsc43340_set_peripheral x gadget w =
     (case x of
        None \<Rightarrow> Some (-ENODEV, w)
      | Some a \<Rightarrow>
          (case smsc_mem w a of
             None \<Rightarrow> None
           | Some s \<Rightarrow> Some (0, w\<lparr>smsc_mem := (smsc_mem w)(a \<mapsto>
               s\<lparr>otg_gadget := gadget, otg_state := (if gadget = None then OTG_STATE_UNDEFINED else otg_state s)\<rparr>)\<rparr>)))"

definition smsc43340_set_host :: "nat option \<Rightarrow> nat option \<Rightarrow> smsc_world \<Rightarrow> (int \<times> smsc_world) option" where
  "smsc43340_set_host x host w =
     (case x of
        None \<Rightarrow> Some (-ENODEV, w)
      | Some a \<Rightarrow>
          (case smsc_mem w a of
             None \<Rightarrow> None
           | Some s \<Rightarrow> Some (0, w\<lparr>smsc_mem := (smsc_mem w)(a \<mapsto>
               s\<lparr>otg_host := host, otg_state := (if host = None then OTG_STATE_UNDEFINED else otg_state s)\<rparr>)\<rparr>)))"

section \<open>Probe and remove\<close>

text \<open>\<open>otg_set_transceiver\<close> of drivers/usb/otg/otg.c, whose result the driver drops.\<close>

definition otg_set_transceiver :: "nat option \<Rightarrow> smsc_world \<Rightarrow> int \<times> smsc_world" where
  "otg_set_transceiver x w = (if xceiv w \<noteq> None \<and> x \<noteq> None then (-EBUSY, w) else (0, w\<lparr>xceiv := x\<rparr>))"

definition kfree :: "nat \<Rightarrow> smsc_world \<Rightarrow> smsc_world" where
  "kfree a w = w\<lparr>smsc_mem := (smsc_mem w)(a := None)\<rparr>"

definition new_smsc :: "smsc43340_usb_data \<Rightarrow> smsc43340_usb" where
  "new_smsc pd = \<lparr>gpio_reset = pd_reset pd, gpio_overcurrent = pd_overcurrent pd, smsc_irq = 0, asleep = True,
     otg_gadget = None, otg_host = None, otg_state = OTG_STATE_UNDEFINED,
     link_save_context = False, link_restore_context = False, link_force_active = False\<rparr>"

text \<open>The reset pulse.\<close>

definition reset_phy :: "int \<Rightarrow> smsc_world \<Rightarrow> smsc_world option" where
  "reset_phy gpio w = (case set_level gpio 0 w of None \<Rightarrow> None | Some w1 \<Rightarrow> set_level gpio 1 w1)"

text \<open>From \<open>otg_set_transceiver\<close> on, with the final value of \<open>smsc->irq\<close>.\<close>

definition probe_irq :: "smsc_env \<Rightarrow> nat \<Rightarrow> int \<Rightarrow> smsc_world \<Rightarrow> (int \<times> smsc_world) option" where
  "probe_irq env a irq w =
     (let w1 = (snd (otg_set_transceiver (Some a) w))\<lparr>drvdata := Some a\<rparr>
      in if irq_status env < 0 then Some (irq_status env, kfree a w1)
         else map_option (Pair 0) (smsc43340_usb_irq env a (w1\<lparr>handlers := insert (irq, a) (handlers w1)\<rparr>)))"

definition smsc43340_usb_probe ::
  "(int \<Rightarrow> int) \<Rightarrow> smsc_env \<Rightarrow> smsc43340_usb_data option \<Rightarrow> smsc_world \<Rightarrow> (int \<times> smsc_world) option" where
  "smsc43340_usb_probe omap_gpio_irq env pdata w =
     (case pdata of
        None \<Rightarrow> Some (-EINVAL, w)
      | Some pd \<Rightarrow>
      case kzalloc env of
        None \<Rightarrow> Some (-ENOMEM, w)
      | Some a \<Rightarrow>
          let w1 = w\<lparr>smsc_mem := (smsc_mem w)(a \<mapsto> new_smsc pd)\<rparr>
          in if \<not> gpio_is_valid (pd_reset pd) then Some (-EINVAL, kfree a w1)
             else case reset_phy (pd_reset pd) w1 of
               None \<Rightarrow> None
             | Some w2 \<Rightarrow>
                 if gpio_is_valid (pd_overcurrent pd)
                 then let irq = omap_gpio_irq (pd_overcurrent pd);
                          w3 = w2\<lparr>smsc_mem := (smsc_mem w2)(a \<mapsto> (new_smsc pd)\<lparr>smsc_irq := irq\<rparr>)\<rparr>
                      in case gpio_request (genv env) (nat (pd_overcurrent pd)) (gpios w3) of (st, g) \<Rightarrow>
                           if st < 0 then Some (-EIO, w3\<lparr>gpios := g\<rparr>)
                           else probe_irq env a irq
                                  (w3\<lparr>gpios := snd (gpio_direction_input (genv env) (nat (pd_overcurrent pd)) g)\<rparr>)
                 else probe_irq env a 0 w2)"

definition smsc43340_usb_remove :: "smsc_env \<Rightarrow> smsc_world \<Rightarrow> (int \<times> smsc_world) option" where
  "smsc43340_usb_remove env w =
     (case drvdata w of
        None \<Rightarrow> None
      | Some a \<Rightarrow>
          (case smsc_mem w a of
             None \<Rightarrow> None
           | Some x \<Rightarrow>
               map_option (\<lambda>w1. (0, kfree a w1))
                 (smsc43340_phy_power_off env (gpio_reset x) (w\<lparr>handlers := handlers w - {(smsc_irq x, a)}\<rparr>))))"

section \<open>Runs\<close>

text \<open>
  The USB controller drivers/usb/musb/omap2430.c takes the transceiver of the system and
  sets the three hooks; at its exit it clears the two context hooks.
\<close>

definition musb_set_hooks :: "nat \<Rightarrow> smsc_world \<Rightarrow> smsc_world option" where
  "musb_set_hooks a w = map_option (\<lambda>x. w\<lparr>link := link w @ [Attach], smsc_mem := (smsc_mem w)(a \<mapsto>
     x\<lparr>link_save_context := True, link_restore_context := True, link_force_active := True\<rparr>)\<rparr>) (smsc_mem w a)"

definition musb_clear_hooks :: "nat \<Rightarrow> smsc_world \<Rightarrow> smsc_world option" where
  "musb_clear_hooks a w = map_option (\<lambda>x. w\<lparr>link := link w @ [Detach], smsc_mem := (smsc_mem w)(a \<mapsto>
     x\<lparr>link_save_context := False, link_restore_context := False\<rparr>)\<rparr>) (smsc_mem w a)"

text \<open>
  The driver has no lock.  Its interrupt handler runs to its end on the single core,
  but the calls \<open>smsc43340_phy_suspend\<close> and \<open>smsc43340_phy_resume\<close> of the deferred
  work and of the transceiver's users can be interrupted and preempted between
  any two of their accesses.  An activity is such a call, named after what it does
  next.
\<close>

datatype activity = Suspending | Saving | Powering_off | Falling_asleep | Resuming | Powering_on | Waking | Restoring

definition activity_step :: "smsc_env \<Rightarrow> nat \<Rightarrow> activity \<Rightarrow> smsc_world \<Rightarrow> (smsc_world \<times> activity option) option" where
  "activity_step env a act w =
     (case smsc_mem w a of
        None \<Rightarrow> None
      | Some x \<Rightarrow>
          (case act of
             Suspending \<Rightarrow> Some (w, if asleep x then None else Some Saving)
           | Saving \<Rightarrow> Some (call_link (link_save_context x) Save_context w, Some Powering_off)
           | Powering_off \<Rightarrow> map_option (\<lambda>w1. (w1, Some Falling_asleep)) (smsc43340_phy_power_off env (gpio_reset x) w)
           | Falling_asleep \<Rightarrow> Some (set_asleep a True w, None)
           | Resuming \<Rightarrow> Some (w, if asleep x then Some Powering_on else None)
           | Powering_on \<Rightarrow> map_option (\<lambda>w1. (w1, Some Waking)) (smsc43340_phy_power_on env (gpio_reset x) w)
           | Waking \<Rightarrow> Some (set_asleep a False w, Some Restoring)
           | Restoring \<Rightarrow> Some (call_link (link_restore_context x) Restore_context w, None)))"

text \<open>The deferred work up to its call of \<open>smsc43340_phy_resume\<close>.\<close>

definition start_work :: "nat \<Rightarrow> smsc_world \<Rightarrow> smsc_world option" where
  "start_work a w =
     map_option (\<lambda>x. call_link (link_force_active x) (Force_active 1) (w\<lparr>works := works w - {a}\<rparr>)) (smsc_mem w a)"

record smsc_conc =
  world :: smsc_world
  acts :: "activity list"

text \<open>The events of one transceiver after its probe; user space can write a pin that was exported.\<close>

datatype smsc_event =
    Irq smsc_env
  | Run_work
  | Set_suspend int
  | Go_on smsc_env activity
  | Bind_gadget "nat option"
  | Bind_host "nat option"
  | Musb_init
  | Musb_exit
  | User_write int int

inductive smsc_step :: "nat \<Rightarrow> smsc_conc \<Rightarrow> smsc_event \<Rightarrow> smsc_conc \<Rightarrow> bool" for a where
  irq: "(i, a) \<in> handlers (world s) \<Longrightarrow> smsc43340_usb_irq env a (world s) = Some w' \<Longrightarrow> smsc_step a s (Irq env) (s\<lparr>world := w'\<rparr>)"
| work: "a \<in> works (world s) \<Longrightarrow> start_work a (world s) = Some w' \<Longrightarrow>
    smsc_step a s Run_work (s\<lparr>world := w', acts := acts s @ [Resuming]\<rparr>)"
| suspend: "xceiv (world s) = Some a \<Longrightarrow>
    smsc_step a s (Set_suspend v) (s\<lparr>acts := acts s @ [if v \<noteq> 0 then Suspending else Resuming]\<rparr>)"
| go_on: "act \<in> set (acts s) \<Longrightarrow> activity_step env a act (world s) = Some (w', n) \<Longrightarrow>
    smsc_step a s (Go_on env act) (s\<lparr>world := w', acts := remove1 act (acts s) @ (case n of None \<Rightarrow> [] | Some b \<Rightarrow> [b])\<rparr>)"
| peripheral: "xceiv (world s) = Some a \<Longrightarrow> smsc43340_set_peripheral (xceiv (world s)) g (world s) = Some (r, w') \<Longrightarrow>
    smsc_step a s (Bind_gadget g) (s\<lparr>world := w'\<rparr>)"
| host: "xceiv (world s) = Some a \<Longrightarrow> smsc43340_set_host (xceiv (world s)) h (world s) = Some (r, w') \<Longrightarrow>
    smsc_step a s (Bind_host h) (s\<lparr>world := w'\<rparr>)"
| attach: "xceiv (world s) = Some a \<Longrightarrow> musb_set_hooks a (world s) = Some w' \<Longrightarrow> smsc_step a s Musb_init (s\<lparr>world := w'\<rparr>)"
| detach: "xceiv (world s) = Some a \<Longrightarrow> musb_clear_hooks a (world s) = Some w' \<Longrightarrow> smsc_step a s Musb_exit (s\<lparr>world := w'\<rparr>)"
| user: "nat g \<in> exported (world s) \<Longrightarrow> set_level g v (world s) = Some w' \<Longrightarrow> smsc_step a s (User_write g v) (s\<lparr>world := w'\<rparr>)"

text \<open>A run all of whose steps satisfy \<open>P\<close>.\<close>

inductive smsc_run :: "nat \<Rightarrow> (smsc_conc \<Rightarrow> smsc_event \<Rightarrow> bool) \<Rightarrow> smsc_conc \<Rightarrow> smsc_event list \<Rightarrow> smsc_conc \<Rightarrow> bool"
  for a P s where
  nil: "smsc_run a P s [] s"
| snoc: "smsc_run a P s es s1 \<Longrightarrow> smsc_step a s1 e s2 \<Longrightarrow> P s1 e \<Longrightarrow> smsc_run a P s (es @ [e]) s2"

text \<open>
  Suspend and resume are not interrupted: while one is in progress, no interrupt
  arrives, no other one starts and the controller does not come or go.
\<close>

definition separate :: "smsc_conc \<Rightarrow> smsc_event \<Rightarrow> bool" where
  "separate s e \<longleftrightarrow>
     acts s = [] \<or> (case e of Go_on _ _ \<Rightarrow> True | Bind_gadget _ \<Rightarrow> True | Bind_host _ \<Rightarrow> True | User_write _ _ \<Rightarrow> True | _ \<Rightarrow> False)"

text \<open>An activity that is not interrupted is the function it stands for.\<close>

fun run_activity :: "nat \<Rightarrow> smsc_env \<Rightarrow> nat \<Rightarrow> activity \<Rightarrow> smsc_world \<Rightarrow> smsc_world option" where
  "run_activity 0 env a act w = None"
| "run_activity (Suc n) env a act w =
     (case activity_step env a act w of
        None \<Rightarrow> None
      | Some (w', None) \<Rightarrow> Some w'
      | Some (w', Some b) \<Rightarrow> run_activity n env a b w')"

text \<open>
  The controller's protocol, an automaton over the log: since it attached, a context is
  not saved twice without a restore between, nor restored twice without a save.  The
  state is the last context call since then, \<open>Some True\<close> for a save; the result
  None is a violation.
\<close>

fun run_ctx :: "bool option \<Rightarrow> link_event list \<Rightarrow> bool option option" where
  "run_ctx s [] = Some s"
| "run_ctx s (Attach # es) = run_ctx None es"
| "run_ctx s (Detach # es) = run_ctx None es"
| "run_ctx s (Save_context # es) = (if s = Some True then None else run_ctx (Some True) es)"
| "run_ctx s (Restore_context # es) = (if s = Some False then None else run_ctx (Some False) es)"
| "run_ctx s (Force_active _ # es) = run_ctx s es"

definition ctx_ok :: "smsc43340_usb \<Rightarrow> link_event list \<Rightarrow> bool" where
  "ctx_ok x es \<longleftrightarrow> link_save_context x = link_restore_context x \<and>
     (if link_save_context x then run_ctx None es = Some None \<or> run_ctx None es = Some (Some (asleep x))
      else run_ctx None es = Some None)"

text \<open>
  The transceiver's structure is allocated, its flag is \<open>c\<close>, and the log is the one
  of a flag \<open>b\<close>.
\<close>

definition ctx_at :: "nat \<Rightarrow> bool \<Rightarrow> bool \<Rightarrow> smsc_world \<Rightarrow> bool" where
  "ctx_at a c b w \<longleftrightarrow> (\<exists>x. smsc_mem w a = Some x \<and> asleep x = c \<and> ctx_ok (x\<lparr>asleep := b\<rparr>) (link w))"

definition smsc_ok :: "nat \<Rightarrow> smsc_world \<Rightarrow> bool" where
  "smsc_ok a w \<longleftrightarrow> (\<exists>x. smsc_mem w a = Some x \<and> ctx_ok x (link w))"

fun conc_ok :: "nat \<Rightarrow> activity list \<Rightarrow> smsc_world \<Rightarrow> bool" where
  "conc_ok a [] w = smsc_ok a w"
| "conc_ok a [Suspending] w = smsc_ok a w"
| "conc_ok a [Saving] w = ctx_at a False False w"
| "conc_ok a [Powering_off] w = ctx_at a False True w"
| "conc_ok a [Falling_asleep] w = ctx_at a False True w"
| "conc_ok a [Resuming] w = smsc_ok a w"
| "conc_ok a [Powering_on] w = ctx_at a True True w"
| "conc_ok a [Waking] w = ctx_at a True True w"
| "conc_ok a [Restoring] w = ctx_at a False True w"
| "conc_ok a _ w = False"

lemma run_ctx_append: "run_ctx s (es @ fs) = Option.bind (run_ctx s es) (\<lambda>t. run_ctx t fs)"
  by (induction s es rule: run_ctx.induct) auto

lemma gpio_export_frame:
  assumes "gpio_export env g b w = Some w'"
  shows "smsc_mem w' = smsc_mem w" "link w' = link w" "level w' = level w" "handlers w' = handlers w"
    "xceiv w' = xceiv w" "gpios w' = gpios w" "works w' = works w"
  using assms by (auto simp: gpio_export_def split: if_splits option.splits)

lemma call_link_frame [simp]:
  "smsc_mem (call_link b e w) = smsc_mem w" "level (call_link b e w) = level w" "gpios (call_link b e w) = gpios w"
  "handlers (call_link b e w) = handlers w" "xceiv (call_link b e w) = xceiv w" "works (call_link b e w) = works w"
  by (simp_all add: call_link_def)

lemma ctx_ok_force: "ctx_ok x (es @ [Force_active v]) = ctx_ok x es"
  by (auto simp: ctx_ok_def run_ctx_append bind_eq_Some_conv)

lemma force_ok: "smsc_ok a w \<Longrightarrow> smsc_ok a (call_link b (Force_active v) w)"
  by (auto simp: smsc_ok_def call_link_def ctx_ok_force)

lemma asleep_same: "asleep x = b \<Longrightarrow> x\<lparr>asleep := b\<rparr> = x"
  by (cases x) simp

lemma smsc_ok_at: "smsc_ok a w \<longleftrightarrow> ctx_at a True True w \<or> ctx_at a False False w"
  unfolding smsc_ok_def ctx_at_def using asleep_same by metis

lemma ctx_ok_save:
  "ctx_ok (x\<lparr>asleep := False\<rparr>) es \<Longrightarrow> ctx_ok (x\<lparr>asleep := True\<rparr>) (if link_save_context x then es @ [Save_context] else es)"
  by (auto simp: ctx_ok_def run_ctx_append)

lemma ctx_ok_restore:
  "ctx_ok (x\<lparr>asleep := True\<rparr>) es \<Longrightarrow> ctx_ok (x\<lparr>asleep := False\<rparr>) (if link_restore_context x then es @ [Restore_context] else es)"
  by (auto simp: ctx_ok_def run_ctx_append)

lemma ctx_at_step:
  assumes "smsc_mem w a = Some x"
  shows "ctx_at a c False w \<Longrightarrow> ctx_at a c True (call_link (link_save_context x) Save_context w)"
    and "ctx_at a c True w \<Longrightarrow> ctx_at a c False (call_link (link_restore_context x) Restore_context w)"
    and "ctx_at a c b w \<Longrightarrow> ctx_at a d b (set_asleep a d w)"
  using assms ctx_ok_save [of x "link w"] ctx_ok_restore [of x "link w"]
  by (auto simp: ctx_at_def call_link_def set_asleep_def)

lemma ctx_at_export: "gpio_export env g v w = Some w' \<Longrightarrow> ctx_at a c b w' = ctx_at a c b w"
  using gpio_export_frame(1,2) [of env g v w w'] by (simp add: ctx_at_def)

text \<open>Every step of an activity keeps the invariant of its place.\<close>

lemma activity_step_ok:
  assumes ok: "conc_ok a [act] w" and st: "activity_step env a act w = Some (w', n)"
  shows "conc_ok a (case n of None \<Rightarrow> [] | Some b \<Rightarrow> [b]) w'"
proof -
  obtain x where x: "smsc_mem w a = Some x" using st by (auto simp: activity_step_def split: option.splits)
  have at: "asleep x = c" if "ctx_at a c b w" for c b using that x by (simp add: ctx_at_def)
  show ?thesis
    by (cases act)
       (use ok st x at ctx_at_step [OF x] ctx_at_export in
         \<open>auto simp: activity_step_def smsc_ok_at smsc43340_phy_power_off_def smsc43340_phy_power_on_def split: if_splits\<close>)
qed

lemma run_activity_ok:
  "run_activity n env a act w = Some w' \<Longrightarrow> conc_ok a [act] w \<Longrightarrow> smsc_ok a w'"
proof (induction n arbitrary: act w)
  case (Suc n)
  then obtain w1 m where s: "activity_step env a act w = Some (w1, m)" by (auto split: option.splits)
  note ok = activity_step_ok [OF Suc.prems(2) s]
  show ?case
  proof (cases m)
    case None
    then show ?thesis using ok s Suc.prems(1) by simp
  next
    case (Some b)
    then show ?thesis using ok s Suc.prems(1) Suc.IH [of b w1] by simp
  qed
qed simp

lemma set_asleep_mem: "smsc_mem (set_asleep a b w) a = map_option (\<lambda>x. x\<lparr>asleep := b\<rparr>) (smsc_mem w a)"
  by (simp add: set_asleep_def)

text \<open>An activity that is not interrupted is the call of the driver.\<close>

lemma activity_runs_alone:
  "run_activity 4 env a Suspending w = smsc43340_phy_suspend env a w"
  "run_activity 4 env a Resuming w = smsc43340_phy_resume env a w"
proof -
  have four: "(4::nat) = Suc (Suc (Suc (Suc 0)))" by simp
  show "run_activity 4 env a Suspending w = smsc43340_phy_suspend env a w"
  proof (cases "smsc_mem w a")
    case (Some x)
    show ?thesis
    proof (cases "smsc43340_phy_power_off env (gpio_reset x) (call_link (link_save_context x) Save_context w)")
      case None
      then show ?thesis using Some by (simp add: four activity_step_def smsc43340_phy_suspend_def)
    next
      case p: (Some w1)
      then have "smsc_mem w1 a = Some x" using Some gpio_export_frame(1) by (simp add: smsc43340_phy_power_off_def)
      then show ?thesis using Some p by (simp add: four activity_step_def smsc43340_phy_suspend_def)
    qed
  qed (simp add: four activity_step_def smsc43340_phy_suspend_def)
  show "run_activity 4 env a Resuming w = smsc43340_phy_resume env a w"
  proof (cases "smsc_mem w a")
    case (Some x)
    show ?thesis
    proof (cases "smsc43340_phy_power_on env (gpio_reset x) w")
      case None
      then show ?thesis using Some by (simp add: four activity_step_def smsc43340_phy_resume_def)
    next
      case p: (Some w1)
      then have "smsc_mem w1 a = Some x" using Some gpio_export_frame(1) by (simp add: smsc43340_phy_power_on_def)
      then show ?thesis using Some p by (simp add: four activity_step_def smsc43340_phy_resume_def set_asleep_mem)
    qed
  qed (simp add: four activity_step_def smsc43340_phy_resume_def)
qed

lemma suspend_ok: "smsc_ok a w \<Longrightarrow> smsc43340_phy_suspend env a w = Some w' \<Longrightarrow> smsc_ok a w'"
  using run_activity_ok [of 4 env a Suspending w w'] by (simp add: activity_runs_alone)

lemma ctx_ok_last: "ctx_ok x es \<Longrightarrow> run_ctx None es = Some None \<or> run_ctx None es = Some (Some (asleep x))"
  by (cases "link_save_context x") (auto simp: ctx_ok_def)

lemma ctx_ok_attach:
  assumes "ctx_ok x es"
  shows "ctx_ok (x\<lparr>link_save_context := b, link_restore_context := b, link_force_active := f\<rparr>) (es @ [Attach])"
    "ctx_ok (x\<lparr>link_save_context := False, link_restore_context := False\<rparr>) (es @ [Detach])"
  using ctx_ok_last [OF assms] by (auto simp: ctx_ok_def run_ctx_append)

lemma hooks_ok:
  "smsc_ok a w \<Longrightarrow> musb_set_hooks a w = Some w' \<Longrightarrow> smsc_ok a w'"
  "smsc_ok a w \<Longrightarrow> musb_clear_hooks a w = Some w' \<Longrightarrow> smsc_ok a w'"
  by (auto simp: smsc_ok_def musb_set_hooks_def musb_clear_hooks_def ctx_ok_attach)

lemma smsc_ok_irrelevant: "smsc_ok a (w\<lparr>works := k\<rparr>) = smsc_ok a w"
  by (simp add: smsc_ok_def)

lemma usb_irq_ok:
  assumes "smsc_ok a w" "smsc43340_usb_irq env a w = Some w'"
  shows "smsc_ok a w'"
  using assms suspend_ok [OF force_ok [OF assms(1)]]
  by (auto simp: smsc43340_usb_irq_def schedule_work_def smsc_ok_irrelevant split: option.splits if_splits)

lemma conc_ok_acts:
  assumes "conc_ok a ps w"
  shows "ps = [] \<or> (\<exists>act. ps = [act])"
  using assms by (cases "(a, ps, w)" rule: conc_ok.cases) auto

text \<open>Binding a gadget or a host and writes from user space do not touch what the invariant speaks of.\<close>

lemma conc_ok_frame:
  assumes "conc_ok a ps w" and "\<And>x. smsc_mem w a = Some x \<Longrightarrow>
      \<exists>y. smsc_mem w' a = Some y \<and> asleep y = asleep x \<and> (\<forall>b. ctx_ok (y\<lparr>asleep := b\<rparr>) (link w) = ctx_ok (x\<lparr>asleep := b\<rparr>) (link w))"
    and "link w' = link w"
  shows "conc_ok a ps w'"
proof -
  have at: "ctx_at a c b w \<Longrightarrow> ctx_at a c b w'" for c b
    unfolding ctx_at_def using assms(2,3) by metis
  then have "smsc_ok a w \<Longrightarrow> smsc_ok a w'" unfolding smsc_ok_at by blast
  with at show ?thesis using assms(1) by (cases "(a, ps, w)" rule: conc_ok.cases) auto
qed

lemma smsc_step_ok:
  assumes "smsc_step a s e s'" and sep: "separate s e" and ok: "conc_ok a (acts s) (world s)"
  shows "conc_ok a (acts s') (world s')"
  using assms(1)
proof cases
  case (irq i env w')
  then have "acts s = []" using sep by (simp add: separate_def)
  with irq ok usb_irq_ok show ?thesis by auto
next
  case (work w')
  then have "acts s = []" using sep by (simp add: separate_def)
  with work ok show ?thesis by (auto simp: start_work_def intro!: force_ok simp: smsc_ok_irrelevant)
next
  case (suspend v)
  then have "acts s = []" using sep by (simp add: separate_def)
  with suspend ok show ?thesis by simp
next
  case (go_on act env w' n)
  then have "acts s = [act]" using conc_ok_acts [OF ok] by auto
  with go_on ok activity_step_ok [of a act "world s" env w' n] show ?thesis by simp
next
  case (peripheral g r w')
  then show ?thesis
    by (auto simp: smsc43340_set_peripheral_def ctx_ok_def split: option.splits intro!: conc_ok_frame [OF ok])
next
  case (host h r w')
  then show ?thesis
    by (auto simp: smsc43340_set_host_def ctx_ok_def split: option.splits intro!: conc_ok_frame [OF ok])
next
  case (attach w')
  then have "acts s = []" using sep by (simp add: separate_def)
  with attach ok hooks_ok(1) show ?thesis by auto
next
  case (detach w')
  then have "acts s = []" using sep by (simp add: separate_def)
  with detach ok hooks_ok(2) show ?thesis by auto
next
  case (user g v w')
  then show ?thesis by (auto simp: set_level_def split: option.splits intro!: conc_ok_frame [OF ok])
qed

lemma conc_ok_log:
  assumes "conc_ok a ps w"
  shows "\<exists>x c. smsc_mem w a = Some x \<and> run_ctx None (link w) = Some c \<and> (ps = [] \<longrightarrow> c \<in> {None, Some (asleep x)})"
proof -
  have at: "\<exists>x c. smsc_mem w a = Some x \<and> run_ctx None (link w) = Some c" if "ctx_at a d b w" for d b
    using that by (auto simp: ctx_at_def dest: ctx_ok_last)
  have "smsc_ok a w \<Longrightarrow> \<exists>x c. smsc_mem w a = Some x \<and> run_ctx None (link w) = Some c \<and> c \<in> {None, Some (asleep x)}"
    by (auto simp: smsc_ok_def dest: ctx_ok_last)
  with at assms show ?thesis by (cases "(a, ps, w)" rule: conc_ok.cases) auto
qed

lemma smsc_run_ok: "smsc_run a separate s es s' \<Longrightarrow> conc_ok a (acts s) (world s) \<Longrightarrow> conc_ok a (acts s') (world s')"
  by (induction rule: smsc_run.induct) (auto intro: smsc_step_ok)

text \<open>Only user space changes the level of a pin after the probe.\<close>

definition writes_pin :: "nat \<Rightarrow> smsc_event \<Rightarrow> bool" where
  "writes_pin r e \<longleftrightarrow> (case e of User_write g v \<Rightarrow> nat g = r | _ \<Rightarrow> False)"

lemma export_level: "smsc43340_phy_power_off env g w = Some w' \<Longrightarrow> level w' = level w"
  "smsc43340_phy_power_on env g w = Some w' \<Longrightarrow> level w' = level w"
  using gpio_export_frame(3) by (auto simp: smsc43340_phy_power_off_def smsc43340_phy_power_on_def)

lemma smsc_step_level:
  assumes "smsc_step a s e s'" and "\<not> writes_pin r e"
  shows "level (world s') r = level (world s) r"
  using assms(1)
proof cases
  case (go_on act env w' n)
  have "level w' = level (world s)"
    using go_on(4) by (cases act) (auto simp: activity_step_def set_asleep_def dest: export_level split: option.splits)
  with go_on show ?thesis by simp
next
  case (irq i env w')
  have "level (set_asleep a True w) = level w" for w by (simp add: set_asleep_def)
  then have "level w' = level (world s)"
    using irq(4)
    by (auto simp: smsc43340_usb_irq_def smsc43340_phy_suspend_def schedule_work_def dest!: export_level split: option.splits if_splits)
  with irq show ?thesis by simp
qed (use assms(2) in \<open>auto simp: start_work_def smsc43340_set_peripheral_def smsc43340_set_host_def musb_set_hooks_def
       musb_clear_hooks_def set_level_def writes_pin_def split: option.splits\<close>)

lemma usb_irq_level: "smsc43340_usb_irq env a w = Some w' \<Longrightarrow> level w' = level w"
  by (auto simp: smsc43340_usb_irq_def smsc43340_phy_suspend_def schedule_work_def set_asleep_def dest!: export_level
      split: option.splits if_splits)

lemma smsc_run_level:
  "smsc_run a P s es s' \<Longrightarrow> \<forall>e \<in> set es. \<not> writes_pin r e \<Longrightarrow> level (world s') r = level (world s) r"
  by (induction rule: smsc_run.induct) (auto dest: smsc_step_level)

section \<open>Probe\<close>

lemma set_level_frame:
  assumes "set_level g v w = Some w'"
  shows "w' = w\<lparr>level := (level w)(nat g := v)\<rparr>"
  using assms by (auto simp: set_level_def split: option.splits)

lemma reset_phy_frame: "reset_phy g w = Some w' \<Longrightarrow> w' = w\<lparr>level := (level w)(nat g := 1)\<rparr>"
  by (auto simp: reset_phy_def dest!: set_level_frame split: option.splits)

lemma probe_irq_ok:
  assumes "probe_irq env a irq w = Some (0, w')" "smsc_ok a w"
  shows "smsc_ok a w' \<and> level w' = level w"
proof -
  let ?w1 = "(snd (otg_set_transceiver (Some a) w))\<lparr>drvdata := Some a\<rparr>"
  have "smsc_ok a (?w1\<lparr>handlers := insert (irq, a) (handlers ?w1)\<rparr>)" "level ?w1 = level w"
    using assms(2) by (simp_all add: smsc_ok_def otg_set_transceiver_def)
  moreover have "smsc43340_usb_irq env a (?w1\<lparr>handlers := insert (irq, a) (handlers ?w1)\<rparr>) = Some w'"
    using assms(1) by (auto simp: probe_irq_def Let_def split: if_splits)
  ultimately show ?thesis using usb_irq_ok usb_irq_level by fastforce
qed

lemma probe_irq_error:
  assumes "irq_status env < 0" "xceiv w = None"
  obtains w' where "probe_irq env a irq w = Some (irq_status env, w')" "xceiv w' = Some a" "smsc_mem w' a = None"
  using assms that by (simp add: probe_irq_def Let_def otg_set_transceiver_def kfree_def)

lemma probe_cases:
  assumes "smsc43340_usb_probe om env (Some pd) w = Some (st, w')" "kzalloc env = Some a"
  obtains "\<not> gpio_is_valid (pd_reset pd)" "st = -EINVAL" "smsc_mem w' a = None"
  | "st = -EIO" "smsc_mem w' a \<noteq> None" "xceiv w' = xceiv w" "handlers w' = handlers w"
  | w2 irq g where "probe_irq env a irq w2 = Some (st, w')" "gpio_is_valid (pd_reset pd)"
      "w2 = w\<lparr>smsc_mem := (smsc_mem w)(a \<mapsto> (new_smsc pd)\<lparr>smsc_irq := irq\<rparr>), level := (level w)(nat (pd_reset pd) := 1), gpios := g\<rparr>"
proof (cases "gpio_is_valid (pd_reset pd)")
  case False
  then show ?thesis using assms that(1) by (simp add: smsc43340_usb_probe_def kfree_def Let_def) force
next
  case valid: True
  let ?w1 = "w\<lparr>smsc_mem := (smsc_mem w)(a \<mapsto> new_smsc pd)\<rparr>"
  obtain w2 where r: "reset_phy (pd_reset pd) ?w1 = Some w2"
    using assms valid by (auto simp: smsc43340_usb_probe_def Let_def split: option.splits)
  note w2 = reset_phy_frame [OF r]
  show ?thesis
  proof (cases "gpio_is_valid (pd_overcurrent pd)")
    case False
    then have "probe_irq env a 0 w2 = Some (st, w')" using assms valid r by (simp add: smsc43340_usb_probe_def)
    then show ?thesis using that(3) [of 0 w2 "gpios w"] valid w2 by (simp add: new_smsc_def)
  next
    case True
    define irq where "irq = om (pd_overcurrent pd)"
    define w3 where "w3 = w2\<lparr>smsc_mem := (smsc_mem w2)(a \<mapsto> (new_smsc pd)\<lparr>smsc_irq := irq\<rparr>)\<rparr>"
    obtain st1 g where g: "gpio_request (genv env) (nat (pd_overcurrent pd)) (gpios w3) = (st1, g)" by (meson surj_pair)
    have e: "smsc43340_usb_probe om env (Some pd) w =
        (if st1 < 0 then Some (-EIO, w3\<lparr>gpios := g\<rparr>)
         else probe_irq env a irq (w3\<lparr>gpios := snd (gpio_direction_input (genv env) (nat (pd_overcurrent pd)) g)\<rparr>))"
      using assms(2) valid r True g by (simp add: smsc43340_usb_probe_def Let_def irq_def w3_def)
    show ?thesis
    proof (cases "st1 < 0")
      case True
      then show ?thesis using assms(1) e that(2) w2 by (auto simp: w3_def)
    next
      case False
      let ?g = "snd (gpio_direction_input (genv env) (nat (pd_overcurrent pd)) g)"
      have "w3\<lparr>gpios := ?g\<rparr> =
          w\<lparr>smsc_mem := (smsc_mem w)(a \<mapsto> (new_smsc pd)\<lparr>smsc_irq := irq\<rparr>), level := (level w)(nat (pd_reset pd) := 1), gpios := ?g\<rparr>"
        using w2 by (intro smsc_world.equality) (simp_all add: w3_def)
      moreover have "probe_irq env a irq (w3\<lparr>gpios := ?g\<rparr>) = Some (st, w')" using assms(1) e False by simp
      ultimately show ?thesis using that(3) [of irq "w3\<lparr>gpios := ?g\<rparr>" ?g] valid by blast
    qed
  qed
qed

section \<open>Properties\<close>

text \<open>
  C38: After a successful probe, in every run of interrupts, deferred work, calls through
  the transceiver, attachments of the USB controller and writes from user space in
  which suspend and resume are not interrupted and do not overlap (the driver has no
  lock; \<open>interrupted_resume_saves_twice\<close> shows what happens otherwise), the
  controller's context is never saved twice or restored twice in a row while the
  controller is attached, and when none is in progress the last call, if there is
  one, agrees with the driver's \<open>asleep\<close> flag.  As long as user space does not write
  the pin, the reset line of the transceiver stays high, asleep or not: powering
  the transceiver off only exports the pin.
\<close>

theorem smsc_suspend_resume_runs:
  assumes "smsc43340_usb_probe om env (Some pd) w = Some (0, w1)" "kzalloc env = Some a" "link w = []"
    and "smsc_run a separate \<lparr>world = w1, acts = []\<rparr> es s2"
  shows "(\<exists>x c. smsc_mem (world s2) a = Some x \<and> run_ctx None (link (world s2)) = Some c \<and>
            (acts s2 = [] \<longrightarrow> c \<in> {None, Some (asleep x)})) \<and>
         ((\<forall>e \<in> set es. \<not> writes_pin (nat (pd_reset pd)) e) \<longrightarrow> level (world s2) (nat (pd_reset pd)) = 1)"
proof -
  have ok: "smsc_ok a w1 \<and> level w1 (nat (pd_reset pd)) = 1"
  proof (cases rule: probe_cases [OF assms(1,2)])
    case (3 v irq g)
    have "smsc_ok a v" "level v (nat (pd_reset pd)) = 1" using 3(3) assms(3) by (simp_all add: smsc_ok_def ctx_ok_def new_smsc_def)
    then show ?thesis using probe_irq_ok [OF 3(1)] by simp
  qed (simp_all add: errno_defs)
  then have "conc_ok a (acts s2) (world s2)" using smsc_run_ok [OF assms(4)] by simp
  then show ?thesis using conc_ok_log [of a "acts s2" "world s2"] smsc_run_level [OF assms(4), of "nat (pd_reset pd)"] ok by auto
qed

text \<open>
  When \<open>request_irq\<close> fails, probe frees its structure after it was made the
  transceiver of the system: the next binding of a host controller accesses freed memory.
\<close>

lemma smsc_probe_dangling_transceiver:
  assumes "smsc43340_usb_probe om env (Some pd) w = Some (st, w')" "kzalloc env = Some a" "xceiv w = None"
    and "irq_status env < 0" "gpio_is_valid (pd_reset pd)" "st \<noteq> -EIO"
  shows "st = irq_status env \<and> xceiv w' = Some a \<and> smsc43340_set_host (xceiv w') h w' = None"
proof (cases rule: probe_cases [OF assms(1,2)])
  case (3 v irq g)
  obtain w'' where "probe_irq env a irq v = Some (irq_status env, w'')" "xceiv w'' = Some a" "smsc_mem w'' a = None"
    by (rule probe_irq_error [of env v]) (use 3(3) assms in simp_all)
  then show ?thesis using 3(1) by (simp add: smsc43340_set_host_def)
qed (use assms in simp_all)

section \<open>A concrete run\<close>

definition smsc_boot :: smsc_world where
  "smsc_boot = \<lparr>gpios = soc_table, level = (\<lambda>_. 0), exported = {}, smsc_mem = Map.empty, xceiv = None, drvdata = None,
     handlers = {}, works = {}, link = []\<rparr>"

definition smsc_good :: smsc_env where
  "smsc_good = \<lparr>kzalloc = Some 7, genv = ok_env, gpio_class_ready = True, export_ok = True, irq_status = 0\<rparr>"

definition smsc_pd :: smsc43340_usb_data where
  "smsc_pd = \<lparr>pd_reset = 40, pd_overcurrent = -1\<rparr>"

definition smsc_up :: smsc_world where
  "smsc_up = snd (the (smsc43340_usb_probe (\<lambda>g. 160 + g) smsc_good (Some smsc_pd) smsc_boot))"

lemma soc_table_40: "gpio_to_chip 40 soc_table = Some soc_chip"
  by code_simp

lemma smsc_up_probe:
  "smsc43340_usb_probe (\<lambda>g. 160 + g) smsc_good (Some smsc_pd) smsc_boot = Some (0, smsc_up)"
  "smsc_mem smsc_up 7 = Some (new_smsc smsc_pd)" "xceiv smsc_up = Some 7" "gpios smsc_up = soc_table" "link smsc_up = []"
  by (simp_all add: smsc_up_def smsc43340_usb_probe_def smsc_good_def smsc_pd_def smsc_boot_def gpio_is_valid_def ARCH_NR_GPIOS_def
      reset_phy_def set_level_def gpio_set_value_def soc_table_40 soc_chip_def probe_irq_def otg_set_transceiver_def
      smsc43340_usb_irq_def new_smsc_def schedule_work_def)

text \<open>Runs as a function.\<close>

definition smsc_exec :: "nat \<Rightarrow> smsc_event \<Rightarrow> smsc_conc \<Rightarrow> smsc_conc option" where
  "smsc_exec a e s =
     (let w = world s; here = (\<lambda>w'. s\<lparr>world := w'\<rparr>)
      in case e of
           Irq env \<Rightarrow> if \<exists>h \<in> handlers w. snd h = a then map_option here (smsc43340_usb_irq env a w) else None
         | Run_work \<Rightarrow> if a \<in> works w then map_option (\<lambda>w'. s\<lparr>world := w', acts := acts s @ [Resuming]\<rparr>) (start_work a w) else None
         | Set_suspend v \<Rightarrow> if xceiv w = Some a then Some (s\<lparr>acts := acts s @ [if v \<noteq> 0 then Suspending else Resuming]\<rparr>) else None
         | Go_on env act \<Rightarrow>
             if act \<in> set (acts s)
             then map_option (\<lambda>(w', n). s\<lparr>world := w', acts := remove1 act (acts s) @ (case n of None \<Rightarrow> [] | Some b \<Rightarrow> [b])\<rparr>)
                    (activity_step env a act w)
             else None
         | Musb_init \<Rightarrow> if xceiv w = Some a then map_option here (musb_set_hooks a w) else None
         | _ \<Rightarrow> None)"

fun smsc_exec_all :: "nat \<Rightarrow> (smsc_conc \<Rightarrow> smsc_event \<Rightarrow> bool) \<Rightarrow> smsc_event list \<Rightarrow> smsc_conc \<Rightarrow> smsc_conc option" where
  "smsc_exec_all a P [] s = Some s"
| "smsc_exec_all a P (e # es) s =
     (if P s e then case smsc_exec a e s of None \<Rightarrow> None | Some s' \<Rightarrow> smsc_exec_all a P es s' else None)"

lemma smsc_exec_step: "smsc_exec a e s = Some s' \<Longrightarrow> smsc_step a s e s'"
proof (cases e)
  case (Set_suspend v)
  then show "smsc_exec a e s = Some s' \<Longrightarrow> smsc_step a s e s'"
    using smsc_step.suspend [of s a v] by (auto simp: smsc_exec_def Let_def split: if_splits)
qed (auto simp: smsc_exec_def Let_def split: if_splits intro: smsc_step.intros)

lemma smsc_run_Cons:
  assumes "smsc_run a P s1 es s2" and "smsc_step a s e s1" and "P s e"
  shows "smsc_run a P s (e # es) s2"
  using assms
proof (induction rule: smsc_run.induct)
  case nil
  then show ?case using smsc_run.snoc [OF smsc_run.nil] by fastforce
next
  case (snoc es s2 e2 s3)
  then show ?case using smsc_run.snoc [of a P s "e # es"] by auto
qed

lemma smsc_exec_run: "smsc_exec_all a P es s = Some s' \<Longrightarrow> smsc_run a P s es s'"
proof (induction es arbitrary: s)
  case (Cons e es)
  then obtain s1 where "P s e" "smsc_exec a e s = Some s1" "smsc_exec_all a P es s1 = Some s'" by (auto split: option.splits if_splits)
  with smsc_run_Cons [OF Cons.IH smsc_exec_step] show ?case by blast
qed (simp add: smsc_run.nil)

definition no_sysfs :: smsc_env where
  "no_sysfs = smsc_good\<lparr>gpio_class_ready := False\<rparr>"

lemma no_sysfs_export [simp]: "smsc43340_phy_power_on no_sysfs g w = Some w" "smsc43340_phy_power_off no_sysfs g w = Some w"
  by (simp_all add: no_sysfs_def smsc43340_phy_power_on_def smsc43340_phy_power_off_def gpio_export_def)

definition resume_events :: "smsc_event list" where
  "resume_events = [Set_suspend 0, Go_on no_sysfs Resuming, Go_on no_sysfs Powering_on, Go_on no_sysfs Waking, Go_on no_sysfs Restoring]"

definition suspend_events :: "smsc_event list" where
  "suspend_events = [Set_suspend 1, Go_on no_sysfs Suspending, Go_on no_sysfs Saving, Go_on no_sysfs Powering_off, Go_on no_sysfs Falling_asleep]"

lemmas smsc_eval = smsc_exec_def separate_def musb_set_hooks_def activity_step_def call_link_def set_asleep_def
  resume_events_def suspend_events_def

lemma smsc_asleep_exec:
  obtains s where "smsc_exec_all 7 separate (Musb_init # resume_events @ suspend_events) \<lparr>world = smsc_up, acts = []\<rparr> = Some s"
    and "acts s = []" and "link (world s) = [Attach, Restore_context, Save_context]"
  by (rule that, simp add: smsc_eval smsc_up_probe new_smsc_def, simp_all add: smsc_up_probe)

theorem smsc_suspend_resume_runs_witness:
  "\<exists>s x. smsc_run 7 separate \<lparr>world = smsc_up, acts = []\<rparr> (Musb_init # resume_events @ suspend_events) s \<and>
     smsc_mem (world s) 7 = Some x \<and> asleep x \<and> level (world s) 40 = 1"
proof -
  obtain s where s: "smsc_exec_all 7 separate (Musb_init # resume_events @ suspend_events) \<lparr>world = smsc_up, acts = []\<rparr> = Some s"
    "acts s = []" "link (world s) = [Attach, Restore_context, Save_context]" by (rule smsc_asleep_exec)
  note r = smsc_exec_run [OF s(1)]
  have "kzalloc smsc_good = Some 7" "link smsc_boot = []" by (simp_all add: smsc_good_def smsc_boot_def)
  from smsc_suspend_resume_runs [OF smsc_up_probe(1) this r] r s(2,3) show ?thesis
    by (auto simp: smsc_pd_def writes_pin_def resume_events_def suspend_events_def)
qed

section \<open>What the missing lock allows\<close>

text \<open>
  A transceiver with an overcurrent pin: an interrupt that finds the pin high after the
  resume has cleared \<open>asleep\<close> and before it has restored the context saves the context
  a second time; the resume then restores it, and the flag says asleep.
\<close>

definition oc_pd :: smsc43340_usb_data where
  "oc_pd = \<lparr>pd_reset = 40, pd_overcurrent = 41\<rparr>"

definition oc_pins :: gpio_state where
  "oc_pins = snd (gpio_direction_input ok_env 41 (snd (gpio_request ok_env 41 soc_table)))"

definition smsc_oc :: smsc_world where
  "smsc_oc = snd (the (smsc43340_usb_probe (\<lambda>g. 160 + g) smsc_good (Some oc_pd) smsc_boot))"

definition overcurrent :: smsc_env where
  "overcurrent = no_sysfs\<lparr>genv := ok_env\<lparr>get_value := 1\<rparr>\<rparr>"

lemma oc_pins_facts: "fst (gpio_request ok_env 41 soc_table) = 0" "gpio_get_value ok_env 41 oc_pins = Some 0"
  "gpio_get_value (ok_env\<lparr>get_value := 1\<rparr>) 41 oc_pins = Some 1"
  by code_simp+

lemma smsc_oc_probe:
  "smsc43340_usb_probe (\<lambda>g. 160 + g) smsc_good (Some oc_pd) smsc_boot = Some (0, smsc_oc)"
  "smsc_mem smsc_oc 7 = Some ((new_smsc oc_pd)\<lparr>smsc_irq := 201\<rparr>)" "xceiv smsc_oc = Some 7" "gpios smsc_oc = oc_pins"
  "link smsc_oc = []" "handlers smsc_oc = {(201, 7)}"
proof -
  obtain g where g: "gpio_request ok_env 41 soc_table = (0, g)" using oc_pins_facts(1) by (metis prod.collapse)
  have d: "snd (gpio_direction_input ok_env 41 g) = oc_pins" by (simp add: oc_pins_def g)
  note facts = smsc_oc_def smsc43340_usb_probe_def smsc_good_def oc_pd_def smsc_boot_def gpio_is_valid_def ARCH_NR_GPIOS_def
    reset_phy_def set_level_def gpio_set_value_def soc_table_40 soc_chip_def probe_irq_def otg_set_transceiver_def
    smsc43340_usb_irq_def new_smsc_def schedule_work_def g d oc_pins_facts(2)
  show "smsc43340_usb_probe (\<lambda>g. 160 + g) smsc_good (Some oc_pd) smsc_boot = Some (0, smsc_oc)"
    "smsc_mem smsc_oc 7 = Some ((new_smsc oc_pd)\<lparr>smsc_irq := 201\<rparr>)" "xceiv smsc_oc = Some 7" "gpios smsc_oc = oc_pins"
    "link smsc_oc = []" "handlers smsc_oc = {(201, 7)}"
    by (simp_all add: facts)
qed

definition interrupted_resume :: "smsc_event list" where
  "interrupted_resume = [Set_suspend 0, Go_on no_sysfs Resuming, Go_on no_sysfs Powering_on, Go_on no_sysfs Waking,
     Irq overcurrent, Go_on no_sysfs Restoring]"

lemma overcurrent_export [simp]: "smsc43340_phy_power_off overcurrent g w = Some w"
  by (simp add: overcurrent_def no_sysfs_def smsc43340_phy_power_off_def gpio_export_def)

lemma interrupted_resume_saves_twice:
  "\<exists>s x. smsc_run 7 (\<lambda>_ _. True) \<lparr>world = smsc_oc, acts = []\<rparr> (Musb_init # resume_events @ suspend_events @ interrupted_resume) s \<and>
     run_ctx None (link (world s)) = None \<and> acts s = [] \<and> smsc_mem (world s) 7 = Some x \<and> asleep x \<and>
     last (link (world s)) = Restore_context"
proof -
  have oc: "genv overcurrent = ok_env\<lparr>get_value := 1\<rparr>" by (simp add: overcurrent_def)
  obtain s x where s: "smsc_exec_all 7 (\<lambda>_ _. True) (Musb_init # resume_events @ suspend_events @ interrupted_resume)
      \<lparr>world = smsc_oc, acts = []\<rparr> = Some s"
    and "link (world s) = [Attach, Restore_context, Save_context, Force_active 0, Save_context, Restore_context]" "acts s = []"
      "smsc_mem (world s) 7 = Some x" "asleep x"
    by (rule that, simp add: smsc_eval interrupted_resume_def smsc43340_usb_irq_def smsc43340_phy_suspend_def smsc_oc_probe new_smsc_def oc_pd_def
          gpio_is_valid_def ARCH_NR_GPIOS_def oc oc_pins_facts, simp_all add: smsc_oc_probe, simp)
  with smsc_exec_run [OF s] show ?thesis by auto
qed

end
