(* ===== verification/Bch_Linear.thy ===== *)
theory Bch_Linear
  imports Bch_Poly
begin

text \<open>
  \<open>solve_linear_system\<close> of lib/bch.c: the elimination keeps the set of solutions and
  brings the rows to echelon form, the parameter rows complete the form to a
  triangular one, and the back substitution then has exactly one result for each value
  of the parameters.
\<close>

section \<open>Parity\<close>

primrec xpar :: "(nat \<Rightarrow> bool) \<Rightarrow> nat \<Rightarrow> bool" where
  "xpar f 0 = False"
| "xpar f (Suc n) = (xpar f n \<noteq> f n)"

lemma xpar_cong: "(\<And>i. i < n \<Longrightarrow> f i = g i) \<Longrightarrow> xpar f n = xpar g n"
  by (induction n) auto

lemma xpar_xor: "xpar (\<lambda>i. f i \<noteq> g i) n = (xpar f n \<noteq> xpar g n)"
  by (induction n) auto

lemma xpar_False: "(\<And>i. i < n \<Longrightarrow> \<not> f i) \<Longrightarrow> \<not> xpar f n"
  by (induction n) auto

lemma xpar_above: "(\<And>i. n \<le> i \<Longrightarrow> i < n + k \<Longrightarrow> \<not> f i) \<Longrightarrow> xpar f (n + k) = xpar f n"
  by (induction k) auto

lemma xpar_single: "j < n \<Longrightarrow> xpar (\<lambda>i. f i \<and> i = j) n = f j"
proof (induction n)
  case (Suc n)
  show ?case
  proof (cases "j = n")
    case True
    then show ?thesis using xpar_False [of n "\<lambda>i. f i \<and> i = n"] by auto
  next
    case False
    then show ?thesis using Suc by auto
  qed
qed simp

text \<open>The multiplication adds up eight bits, which stand four positions apart, without a carry.\<close>

lemma nibble_sum:
  "drop_bit 28 ((of_bool b0 OR push_bit 4 (of_bool b1) OR push_bit 8 (of_bool b2) OR push_bit 12 (of_bool b3) OR
      push_bit 16 (of_bool b4) OR push_bit 20 (of_bool b5) OR push_bit 24 (of_bool b6) OR push_bit 28 (of_bool b7)) * 0x11111111) AND (1 :: u32) =
    of_bool (b0 \<noteq> (b1 \<noteq> (b2 \<noteq> (b3 \<noteq> (b4 \<noteq> (b5 \<noteq> (b6 \<noteq> b7)))))))"
  by (cases b0; cases b1; cases b2; cases b3; cases b4; cases b5; cases b6; cases b7) simp_all

lemma every_fourth_bit:
  "(x AND 0x11111111 :: u32) = (of_bool (bit x 0) OR push_bit 4 (of_bool (bit x 4)) OR push_bit 8 (of_bool (bit x 8)) OR
      push_bit 12 (of_bool (bit x 12)) OR push_bit 16 (of_bool (bit x 16)) OR push_bit 20 (of_bool (bit x 20)) OR
      push_bit 24 (of_bool (bit x 24)) OR push_bit 28 (of_bool (bit x 28)))"
proof (rule bit_word_eqI)
  fix n assume "n < LENGTH(32)"
  then have "n < 32" by simp
  then have "n \<in> {0,1,2,3,4,5,6,7,8,9,10,11,12,13,14,15,16,17,18,19,20,21,22,23,24,25,26,27,28,29,30,31}"
    by (simp only: insert_iff empty_iff) presburger
  then show "bit (x AND 0x11111111 :: u32) n = bit ((of_bool (bit x 0) :: u32) OR push_bit 4 (of_bool (bit x 4)) OR push_bit 8 (of_bool (bit x 8)) OR
      push_bit 12 (of_bool (bit x 12)) OR push_bit 16 (of_bool (bit x 16)) OR push_bit 20 (of_bool (bit x 20)) OR
      push_bit 24 (of_bool (bit x 24)) OR push_bit 28 (of_bool (bit x 28))) n"
    by (elim insertE emptyE) (simp_all add: bit_and_iff bit_or_iff bit_push_bit_iff bit_of_bool_iff)
qed

lemma parity_correct: "parity x = of_bool (xpar (bit x) 32)"
proof -
  have hi: "\<not> bit x n" if "32 \<le> n" for n using that bit_imp_le_length [of x n] by auto
  show ?thesis
    unfolding parity_def Let_def every_fourth_bit nibble_sum
    by (simp add: bit_xor_iff bit_drop_bit_eq hi numeral_eq_Suc) argo
qed


section \<open>Rows and solutions\<close>

text \<open>
  A row has the coefficient of column \<open>c\<close> in bit \<open>m - c\<close> and the constant in bit 0; a
  candidate \<open>z\<close> has the value of the variable of column \<open>c\<close> in the same place, and bit 0 set.
\<close>

definition dot :: "nat \<Rightarrow> nat \<Rightarrow> nat \<Rightarrow> bool" where
  "dot m v z = xpar (\<lambda>i. bit v i \<and> bit z i) (Suc m)"

definition sat_rows :: "nat \<Rightarrow> nat list \<Rightarrow> nat \<Rightarrow> bool" where
  "sat_rows m rows z \<longleftrightarrow> (\<forall>r < m. \<not> dot m (rows ! r) z)"

lemma dot_xor: "dot m (v XOR w) z = (dot m v z \<noteq> dot m w z)"
  unfolding dot_def xpar_xor [symmetric] by (rule xpar_cong) (auto simp: bit_xor_iff)

lemma dot_zero [simp]: "\<not> dot m 0 z"
  by (simp add: dot_def xpar_False)

lemma and_mask_bit: "(v :: nat) AND 2 ^ n = 0 \<longleftrightarrow> \<not> bit v n"
  by (rule and_exp_eq_0_iff_not_bit)

lemma find_pivot_Some:
  "find_pivot rows (2 ^ j) m p = Some r \<Longrightarrow> p \<le> r \<and> r < m \<and> bit (rows ! r) j \<and> (\<forall>i. p \<le> i \<and> i < r \<longrightarrow> \<not> bit (rows ! i) j)"
proof (induction "m - p" arbitrary: p)
  case 0
  then show ?case by (subst (asm) find_pivot.simps) simp
next
  case (Suc n)
  then have p: "p < m" by simp
  show ?case
  proof (cases "bit (rows ! p) j")
    case True
    then show ?thesis using Suc.prems p by (subst (asm) find_pivot.simps) (auto simp: and_mask_bit)
  next
    case False
    then have "find_pivot rows (2 ^ j) m (Suc p) = Some r" using Suc.prems p by (subst (asm) find_pivot.simps) (auto simp: and_mask_bit)
    moreover have "n = m - Suc p" using Suc.hyps(2) by simp
    ultimately have "Suc p \<le> r \<and> r < m \<and> bit (rows ! r) j \<and> (\<forall>i. Suc p \<le> i \<and> i < r \<longrightarrow> \<not> bit (rows ! i) j)" using Suc.hyps(1) by blast
    then show ?thesis using False by (metis Suc_leI Suc_leD le_neq_implies_less)
  qed
qed

lemma find_pivot_None:
  "find_pivot rows (2 ^ j) m p = None \<Longrightarrow> p \<le> i \<Longrightarrow> i < m \<Longrightarrow> \<not> bit (rows ! i) j"
proof (induction "m - p" arbitrary: p)
  case (Suc n)
  then have p: "p < m" by simp
  have "\<not> bit (rows ! p) j" "find_pivot rows (2 ^ j) m (Suc p) = None"
    using Suc.prems(1) p by (subst (asm) find_pivot.simps; simp add: and_mask_bit split: if_splits)+
  moreover have "n = m - Suc p" using Suc.hyps(2) by simp
  ultimately show ?case using Suc.hyps(1) [of "Suc p"] Suc.prems by (cases "i = p") auto
qed simp

lemma eliminate_nth:
  "m \<le> length rows \<Longrightarrow> a \<le> m \<Longrightarrow> length (eliminate_rows rows (2 ^ j) t a m) = length rows \<and>
     (\<forall>i. eliminate_rows rows (2 ^ j) t a m ! i = (if a \<le> i \<and> i < m \<and> bit (rows ! i) j then rows ! i XOR t else rows ! i))"
proof (induction m)
  case 0
  then show ?case by (simp add: eliminate_rows_def)
next
  case (Suc m)
  show ?case
  proof (cases "a = Suc m")
    case True
    then show ?thesis by (simp add: eliminate_rows_def)
  next
    case False
    then have a: "a \<le> m" using Suc.prems by simp
    define rs where "rs = eliminate_rows rows (2 ^ j) t a m"
    have IH: "length rs = length rows" "\<And>i. rs ! i = (if a \<le> i \<and> i < m \<and> bit (rows ! i) j then rows ! i XOR t else rows ! i)"
      using Suc.IH a Suc.prems(1) by (auto simp: rs_def)
    have "eliminate_rows rows (2 ^ j) t a (Suc m) = (if bit (rs ! m) j then rs[m := rs ! m XOR t] else rs)"
      using a by (simp add: eliminate_rows_def rs_def and_mask_bit)
    then show ?thesis using IH Suc.prems(1) a by (auto simp: nth_list_update less_Suc_eq)
  qed
qed

lemma swap_nth:
  "r < length rows \<Longrightarrow> p < length rows \<Longrightarrow> length (swap_rows rows r p) = length rows \<and>
     (\<forall>i. swap_rows rows r p ! i = (if i = p then rows ! r else if i = r then rows ! p else rows ! i))"
  by (auto simp: swap_rows_def nth_list_update)

section \<open>Elimination\<close>

definition lead :: "nat \<Rightarrow> nat \<Rightarrow> nat \<Rightarrow> bool" where
  "lead m v c \<longleftrightarrow> bit v (m - c) \<and> (\<forall>c' < c. \<not> bit v (m - c'))"

definition pivot_cols :: "nat list \<Rightarrow> nat \<Rightarrow> nat list" where
  "pivot_cols param c = filter (\<lambda>c. c \<notin> set param) [0..<c]"

text \<open>After \<open>c\<close> columns: the pivot rows start at their columns, the other rows start at \<open>c\<close> or later.\<close>

definition gauss_inv :: "nat \<Rightarrow> nat \<Rightarrow> nat list \<Rightarrow> nat list \<Rightarrow> bool" where
  "gauss_inv m c param rows \<longleftrightarrow> m \<le> length rows \<and> (\<forall>i < m. rows ! i < 2 ^ Suc m) \<and> sorted_wrt (<) param \<and> set param \<subseteq> {..<c} \<and>
     (\<forall>i < length (pivot_cols param c). lead m (rows ! i) (pivot_cols param c ! i)) \<and>
     (\<forall>r < m. length (pivot_cols param c) \<le> r \<longrightarrow> (\<forall>c' < c. \<not> bit (rows ! r) (m - c')))"

lemma pivot_cols_length:
  assumes "sorted_wrt (<) param" "set param \<subseteq> {..<c}"
  shows "length (pivot_cols param c) = c - length param" "length param \<le> c"
proof -
  have d: "distinct param" using assms(1) by (simp add: strict_sorted_iff)
  have "length (pivot_cols param c) = card (set (pivot_cols param c))" by (rule distinct_card [symmetric]) (simp add: pivot_cols_def)
  also have "set (pivot_cols param c) = {..<c} - set param" by (auto simp: pivot_cols_def)
  also have "card \<dots> = c - length param" using assms(2) d by (simp add: card_Diff_subset distinct_card)
  finally show "length (pivot_cols param c) = c - length param" .
  show "length param \<le> c" using card_mono [OF _ assms(2)] d by (simp add: distinct_card)
qed

lemma pivot_cols_Suc: "set param \<subseteq> {..<c} \<Longrightarrow> pivot_cols param (Suc c) = pivot_cols param c @ [c]"
  "set param \<subseteq> {..<c} \<Longrightarrow> pivot_cols (param @ [c]) (Suc c) = pivot_cols param c"
  by (auto simp: pivot_cols_def intro!: filter_cong)

lemma pivot_cols_less: "i < length (pivot_cols param c) \<Longrightarrow> pivot_cols param c ! i < c"
  using nth_mem [of i "pivot_cols param c"] by (auto simp: pivot_cols_def)

lemma gauss_none:
  assumes i: "gauss_inv m c param rows" and c: "c < m" and n: "find_pivot rows (2 ^ (m - c)) m (c - length param) = None"
  shows "gauss_inv m (Suc c) (param @ [c]) rows"
proof -
  have s: "sorted_wrt (<) param" "set param \<subseteq> {..<c}" using i by (auto simp: gauss_inv_def)
  note l = pivot_cols_length [OF s]
  have "\<not> bit (rows ! r) (m - c)" if "c - length param \<le> r" "r < m" for r using find_pivot_None [OF n that] .
  then show ?thesis using i s l by (auto simp: gauss_inv_def pivot_cols_Suc sorted_wrt_append less_Suc_eq)
qed

text \<open>Swapping rows and adding the pivot row to later rows keeps the solutions.\<close>

lemma pivot_step_sat:
  fixes j :: nat
  assumes l: "m \<le> length rows" and r: "p \<le> r" "r < m"
  defines "rows' \<equiv> eliminate_rows (swap_rows rows r p) (2 ^ j) (swap_rows rows r p ! p) (Suc r) m"
  shows "length rows' = length rows" "sat_rows m rows' z = sat_rows m rows z"
    "\<And>i. rows' ! i = (if i = p then rows ! r else if i = r then rows ! p
        else if r < i \<and> i < m \<and> bit (rows ! i) j then rows ! i XOR rows ! r else rows ! i)"
proof -
  have sw: "length (swap_rows rows r p) = length rows"
    "\<And>i. swap_rows rows r p ! i = (if i = p then rows ! r else if i = r then rows ! p else rows ! i)"
    using swap_nth [of r rows p] l r by auto
  have el: "length rows' = length (swap_rows rows r p)"
    "\<And>i. rows' ! i = (if Suc r \<le> i \<and> i < m \<and> bit (swap_rows rows r p ! i) j then swap_rows rows r p ! i XOR swap_rows rows r p ! p else swap_rows rows r p ! i)"
    using eliminate_nth [of m "swap_rows rows r p" "Suc r" j "swap_rows rows r p ! p"] l r sw(1) by (auto simp: rows'_def)
  show "length rows' = length rows" using el(1) sw(1) by simp
  show n: "rows' ! i = (if i = p then rows ! r else if i = r then rows ! p
        else if r < i \<and> i < m \<and> bit (rows ! i) j then rows ! i XOR rows ! r else rows ! i)" for i
    unfolding el(2) sw(2) using r by auto
  have p: "p < m" using r by simp
  show "sat_rows m rows' z = sat_rows m rows z"
  proof
    assume a: "sat_rows m rows' z"
    have pr: "\<not> dot m (rows ! r) z" using a p n [of p] by (auto simp: sat_rows_def)
    have "\<not> dot m (rows ! i) z" if i: "i < m" for i
    proof -
      consider "i = r" | "i = p" "i \<noteq> r" | "i \<noteq> p" "i \<noteq> r" by blast
      then show ?thesis
      proof cases
        case 2
        then have "rows' ! r = rows ! i" using n [of r] by simp
        then show ?thesis using a r(2) by (auto simp: sat_rows_def)
      next
        case 3
        have "\<not> dot m (rows' ! i) z" using a i by (simp add: sat_rows_def)
        then show ?thesis using 3 n [of i] pr by (auto simp: dot_xor split: if_splits)
      qed (use pr in simp)
    qed
    then show "sat_rows m rows z" by (simp add: sat_rows_def)
  next
    assume a: "sat_rows m rows z"
    then have d: "\<not> dot m (rows ! i) z" if "i < m" for i using that by (simp add: sat_rows_def)
    show "sat_rows m rows' z" using d p r(2) by (auto simp: sat_rows_def n dot_xor)
  qed
qed

lemma gauss_some:
  assumes i: "gauss_inv m c param rows" and c: "c < m" and n: "find_pivot rows (2 ^ (m - c)) m (c - length param) = Some r"
  defines "p \<equiv> c - length param"
  shows "gauss_inv m (Suc c) param (eliminate_rows (swap_rows rows r p) (2 ^ (m - c)) (swap_rows rows r p ! p) (Suc r) m)"
proof -
  have s: "sorted_wrt (<) param" "set param \<subseteq> {..<c}" and ml: "m \<le> length rows" using i by (auto simp: gauss_inv_def)
  have l: "length (pivot_cols param c) = p" "length param \<le> c" using pivot_cols_length [OF s] by (auto simp: p_def)
  have r: "p \<le> r" "r < m" "bit (rows ! r) (m - c)" "\<And>i. p \<le> i \<Longrightarrow> i < r \<Longrightarrow> \<not> bit (rows ! i) (m - c)"
    using find_pivot_Some [OF n] by (auto simp: p_def)
  have I: "\<And>i. i < p \<Longrightarrow> lead m (rows ! i) (pivot_cols param c ! i)" "\<And>r c'. r < m \<Longrightarrow> p \<le> r \<Longrightarrow> c' < c \<Longrightarrow> \<not> bit (rows ! r) (m - c')"
    using i l(1) by (auto simp: gauss_inv_def)
  note st = pivot_step_sat [OF ml r(1,2), where j = "m - c"]
  have old: "lead m (rows ! r) c" using r I(2) [of r] by (auto simp: lead_def)
  have "lead m (eliminate_rows (swap_rows rows r p) (2 ^ (m - c)) (swap_rows rows r p ! p) (Suc r) m ! i) ((pivot_cols param c @ [c]) ! i)"
    if "i < Suc p" for i unfolding st(3) using that r(1) old I(1) [of i] l(1) by (auto simp: nth_append less_Suc_eq)
  moreover have "\<not> bit (eliminate_rows (swap_rows rows r p) (2 ^ (m - c)) (swap_rows rows r p ! p) (Suc r) m ! i) (m - c')"
    if i: "i < m" "Suc p \<le> i" and c': "c' < Suc c" for i c'
  proof (cases "c' = c")
    case True
    have "\<not> bit (rows ! p) (m - c)" if "r \<noteq> p" using r(4) [of p] r(1) that by simp
    then show ?thesis unfolding st(3) True using i r(3) r(4) [of i] by (auto simp: bit_xor_iff not_less_iff_gr_or_eq)
  next
    case False
    then have "c' < c" using c' by simp
    then show ?thesis unfolding st(3) using i r(1,2) I(2) [of _ c'] by (auto simp: bit_xor_iff)
  qed
  moreover have "eliminate_rows (swap_rows rows r p) (2 ^ (m - c)) (swap_rows rows r p ! p) (Suc r) m ! i < 2 ^ Suc m" if "i < m" for i
    unfolding st(3) using that i r(1,2) xor_nat_less [of _ "Suc m"] by (auto simp: gauss_inv_def)
  ultimately show ?thesis using s ml l st(1) by (auto simp: gauss_inv_def pivot_cols_Suc less_Suc_eq)
qed

lemma gauss_columns_spec:
  "gauss_inv m c param rows \<Longrightarrow> c \<le> m \<Longrightarrow> gauss_columns m c param rows = (param', rows') \<Longrightarrow>
     gauss_inv m m param' rows' \<and> (\<forall>z. sat_rows m rows' z = sat_rows m rows z) \<and> length rows' = length rows"
proof (induction "m - c" arbitrary: c param rows)
  case 0
  then show ?case by (subst (asm) gauss_columns.simps) simp
next
  case (Suc n)
  then have c: "c < m" and n: "n = m - Suc c" "Suc c \<le> m" by auto
  note i = Suc.prems(1)
  then have s: "sorted_wrt (<) param" "set param \<subseteq> {..<c}" and ml: "m \<le> length rows" by (auto simp: gauss_inv_def)
  show ?case
  proof (cases "find_pivot rows (2 ^ (m - c)) m (c - length param)")
    case None
    then show ?thesis
      using Suc.prems(3) c Suc.hyps(1) [OF n(1) gauss_none [OF i c None] n(2)] by (subst (asm) gauss_columns.simps) simp
  next
    case (Some r)
    let ?p = "c - length param"
    let ?rows = "eliminate_rows (swap_rows rows r ?p) (2 ^ (m - c)) (swap_rows rows r ?p ! ?p) (Suc r) m"
    have "gauss_columns m (Suc c) param ?rows = (param', rows')"
      using Suc.prems(3) c Some by (subst (asm) gauss_columns.simps) (simp add: Let_def)
    then have "gauss_inv m m param' rows' \<and> (\<forall>z. sat_rows m rows' z = sat_rows m ?rows z) \<and> length rows' = length ?rows"
      by (rule Suc.hyps(1) [OF n(1) gauss_some [OF i c Some] n(2)])
    then show ?thesis using pivot_step_sat [OF ml, of ?p r "m - c"] find_pivot_Some [OF Some] by auto
  qed
qed

section \<open>Parameter rows\<close>

text \<open>The number of defective columns before column \<open>r\<close>.\<close>

definition params_below :: "nat list \<Rightarrow> nat \<Rightarrow> nat" where
  "params_below param r = length (filter (\<lambda>q. q < r) param)"

lemma params_below_0 [simp]: "params_below param 0 = 0"
  by (simp add: params_below_def)

lemma params_below_Suc: "distinct param \<Longrightarrow> params_below param (Suc r) = params_below param r + (if r \<in> set param then 1 else 0)"
  by (induction param) (auto simp: params_below_def less_Suc_eq)

lemma filter_less_take: "sorted_wrt (<) param \<Longrightarrow> filter (\<lambda>q. q < r) param = take (params_below param r) (param :: nat list)"
proof (induction param)
  case (Cons a param)
  have "filter (\<lambda>q. q < r) param = []" if "\<not> a < r" using Cons.prems that by (auto simp: filter_empty_conv)
  then show ?case using Cons by (auto simp: params_below_def)
qed (simp add: params_below_def)

lemma next_param:
  assumes s: "sorted_wrt (<) param" and p: "p = params_below param (Suc r)"
  shows "0 < p \<and> r = param ! (p - 1) \<longleftrightarrow> r \<in> set param"
proof
  assume "0 < p \<and> r = param ! (p - 1)"
  moreover have "p \<le> length param" by (simp add: p params_below_def)
  ultimately show "r \<in> set param" by (metis diff_less less_le_trans nth_mem zero_less_one)
next
  assume "r \<in> set param"
  then have "r \<in> set (filter (\<lambda>q. q < Suc r) param)" by simp
  then have "r \<in> set (take p param)" unfolding filter_less_take [OF s] p .
  then obtain i where i: "i < p" "i < length param" "param ! i = r" by (auto simp: in_set_conv_nth)
  have pl: "p \<le> length param" by (simp add: p params_below_def)
  have "param ! (p - 1) \<in> set (take p param)" using i(1) pl by (auto simp: in_set_conv_nth intro!: exI [of _ "p - 1"])
  then have "param ! (p - 1) \<in> set (filter (\<lambda>q. q < Suc r) param)" unfolding filter_less_take [OF s] p .
  then have "param ! (p - 1) < Suc r" by simp
  moreover have "param ! i < param ! (p - 1)" if "i < p - 1" using sorted_wrt_nth_less [OF s that] pl i(1) by simp
  ultimately have "i = p - 1" using i by (cases "i < p - 1") auto
  then show "0 < p \<and> r = param ! (p - 1)" using i by simp
qed

lemma params_below_le: "distinct param \<Longrightarrow> params_below param r \<le> r"
  by (induction r) (auto simp: params_below_Suc)

lemma insert_params_spec:
  assumes s: "sorted_wrt (<) param"
  shows "r \<le> length rows \<Longrightarrow> p = params_below param r \<Longrightarrow>
    (case insert_params m param r p rows of
       None \<Rightarrow> \<exists>i < r. m - 1 < i + length param \<and> rows ! i \<noteq> 0
     | Some rows' \<Rightarrow> length rows' = length rows \<and> (\<forall>i < r. m - 1 < i + length param \<longrightarrow> rows ! i = 0) \<and>
         (\<forall>i. rows' ! i = (if i < r then if i \<in> set param then 2 ^ (m - i) else rows ! (i - params_below param i) else rows ! i)))"
proof (induction r arbitrary: p rows)
  case (Suc r)
  have d: "distinct param" using s by (simp add: strict_sorted_iff)
  note nx = next_param [OF s Suc.prems(2)] and pb = params_below_Suc [OF d, of r]
  define rows1 where "rows1 = (if r \<in> set param then rows[r := 2 ^ (m - r)] else rows[r := rows ! (r - p)])"
  define p1 where "p1 = (if r \<in> set param then p - 1 else p)"
  have p1: "p1 = params_below param r" using Suc.prems(2) pb by (simp add: p1_def)
  have l1: "r \<le> length rows1" using Suc.prems(1) by (simp add: rows1_def)
  have n1: "rows1 ! i = rows ! i" if "i \<noteq> r" for i using that by (simp add: rows1_def)
  have nr: "rows1 ! r = (if r \<in> set param then 2 ^ (m - r) else rows ! (r - params_below param r))"
    using Suc.prems p1 pb by (simp add: rows1_def)
  show ?case
  proof (cases "m - 1 < r + length param \<and> rows ! r \<noteq> 0")
    case True
    then show ?thesis by auto
  next
    case False
    then have e: "insert_params m param (Suc r) p rows = insert_params m param r p1 rows1"
      using nx by (auto simp: rows1_def p1_def)
    have i: "i - params_below param i \<noteq> r" if "i < r" for i using that by simp
    show ?thesis
      unfolding e using Suc.IH [OF l1 p1] False nr n1 i
      by (cases "insert_params m param r p1 rows1") (auto simp: less_Suc_eq rows1_def)
  qed
qed simp

lemma pivot_col_index:
  assumes s: "sorted_wrt (<) param" and r: "r < m" "r \<notin> set param"
  shows "r - params_below param r < length (pivot_cols param m)" "pivot_cols param m ! (r - params_below param r) = r"
proof -
  let ?q = "filter (\<lambda>q. q < r) param"
  have "pivot_cols param r = pivot_cols ?q r" by (auto simp: pivot_cols_def intro!: filter_cong)
  moreover have "length (pivot_cols ?q r) = r - length ?q" by (rule pivot_cols_length) (use s sorted_wrt_filter in auto)
  ultimately have l: "length (pivot_cols param r) = r - params_below param r" by (simp add: params_below_def)
  have "[0..<m] = [0..<r] @ r # [Suc r..<m]" using r(1) by (metis upt_add_eq_append upt_conv_Cons le_add_diff_inverse less_imp_le zero_le)
  then have "pivot_cols param m = pivot_cols param r @ r # filter (\<lambda>c. c \<notin> set param) [Suc r..<m]" using r(2) by (simp add: pivot_cols_def)
  then show "r - params_below param r < length (pivot_cols param m)" "pivot_cols param m ! (r - params_below param r) = r"
    by (simp_all add: l [symmetric])
qed

lemma pivot_col_below:
  assumes s: "sorted_wrt (<) param" and i: "i < length (pivot_cols param m)"
  defines "c \<equiv> pivot_cols param m ! i"
  shows "c < m" "c \<notin> set param" "c - params_below param c = i"
proof -
  show c: "c < m" "c \<notin> set param" using nth_mem [OF i] by (auto simp: c_def pivot_cols_def)
  have "distinct (pivot_cols param m)" by (simp add: pivot_cols_def)
  then show "c - params_below param c = i"
    using pivot_col_index [OF s c] i nth_eq_iff_index_eq by (metis c_def)
qed

section \<open>Back substitution\<close>

lemma dot_lead:
  assumes "lead m v r" "r \<le> m"
  shows "dot m v z = (xpar (\<lambda>i. bit v i \<and> bit z i) (m - r) \<noteq> bit z (m - r))"
proof -
  have "xpar (\<lambda>i. bit v i \<and> bit z i) (Suc (m - r) + r) = xpar (\<lambda>i. bit v i \<and> bit z i) (Suc (m - r))"
  proof (rule xpar_above)
    fix i assume i: "Suc (m - r) \<le> i" "i < Suc (m - r) + r"
    then have "m - i < r" "m - (m - i) = i" using assms(2) by auto
    then show "\<not> (bit v i \<and> bit z i)" using assms(1) unfolding lead_def by metis
  qed
  then show ?thesis using assms by (simp add: dot_def lead_def)
qed

lemma bit_less_exp: "(t :: nat) < 2 ^ n \<Longrightarrow> bit t i \<Longrightarrow> i < n"
proof (rule ccontr)
  assume t: "t < 2 ^ n" "bit t i" and "\<not> i < n"
  then have "(2 :: nat) ^ n \<le> 2 ^ i" by (intro power_increasing) auto
  then have "t < 2 ^ i" by (rule less_le_trans [OF t(1)])
  then show False using t(2) by (simp add: bit_iff_odd)
qed

lemma parity_nat:
  assumes "v < 2 ^ n" "n \<le> 32"
  shows "unat (parity (of_nat v)) = of_bool (xpar (bit v) n)"
proof -
  have hi: "\<not> bit v i" if "n \<le> i" for i
    using bit_less_exp [OF assms(1), of i] that by auto
  have "xpar (bit (of_nat v :: u32)) 32 = xpar (bit v) 32" by (rule xpar_cong) (simp add: bit_of_nat_iff)
  also have "\<dots> = xpar (bit v) n" using xpar_above [of n "32 - n" "bit v"] assms(2) hi by simp
  finally show ?thesis by (simp add: parity_correct)
qed

lemma less_exp_bits: "(\<And>i. bit (t :: nat) i \<Longrightarrow> i < n) \<Longrightarrow> t < 2 ^ n"
  using take_bit_nat_eq_self_iff [of n t] by (metis bit_eqI bit_take_bit_iff)

definition sol_bits :: "nat \<Rightarrow> nat \<Rightarrow> bool" where
  "sol_bits m z \<longleftrightarrow> bit z 0 \<and> z < 2 ^ Suc m"

lemma substitute_bit:
  assumes r: "r < m" and m: "m < 32" and t: "even t" "t < 2 ^ (m - r)"
  shows "push_bit (m - r) (unat (parity (of_nat (v AND (t OR 1))))) =
    (if xpar (\<lambda>i. bit v i \<and> bit (t OR 1) i) (m - r) then 2 ^ (m - r) else 0)"
proof -
  have "v AND (t OR 1) < 2 ^ (m - r)"
    by (rule less_exp_bits) (use r bit_less_exp [OF t(2)] in \<open>auto simp: bit_simps\<close>)
  then have "unat (parity (of_nat (v AND (t OR 1)))) = of_bool (xpar (bit (v AND (t OR 1))) (m - r))"
    by (rule parity_nat) (use m in simp)
  also have "bit (v AND (t OR 1)) = (\<lambda>i. bit v i \<and> bit (t OR 1) i)" by (auto simp: fun_eq_iff bit_simps)
  finally show ?thesis by (simp add: push_bit_eq_mult)
qed

lemma back_substitute_spec:
  assumes m: "m < 32"
  shows "(\<forall>r' < r. lead m (rows ! r') r') \<Longrightarrow> r \<le> m \<Longrightarrow> even t \<Longrightarrow> t < 2 ^ Suc (m - r) \<Longrightarrow>
    sol_bits m (back_substitute m rows r t OR 1) \<and> even (back_substitute m rows r t) \<and>
    (\<forall>i \<le> m - r. bit (back_substitute m rows r t) i = bit t i) \<and>
    (\<forall>r' < r. \<not> dot m (rows ! r') (back_substitute m rows r t OR 1)) \<and>
    (\<forall>z. sol_bits m z \<longrightarrow> (\<forall>i \<le> m - r. bit z i = bit (t OR 1) i) \<longrightarrow> (\<forall>r' < r. \<not> dot m (rows ! r') z) \<longrightarrow> z = back_substitute m rows r t OR 1)"
proof (induction r arbitrary: t)
  case 0
  have "t OR 1 < 2 ^ Suc m" by (rule less_exp_bits) (use bit_less_exp [of t "Suc m"] 0 in \<open>auto simp: bit_simps\<close>)
  moreover have "z = t OR 1" if "sol_bits m z" "\<forall>i \<le> m. bit z i = bit (t OR 1) i" for z
    using that bit_less_exp [of _ "Suc m"] \<open>t OR 1 < 2 ^ Suc m\<close> unfolding sol_bits_def by (metis bit_eqI less_Suc_eq_le)
  moreover have "bit (t OR 1) 0" using bit_or_iff [of t 1 0] by (simp add: bit_0)
  ultimately show ?case
    unfolding back_substitute.simps using 0(3) by (intro conjI allI impI) (simp_all add: sol_bits_def)
next
  case (Suc r)
  then have r: "r < m" "r \<le> m" and t: "t < 2 ^ (m - r)" by (auto simp: Suc_diff_Suc)
  let ?b = "xpar (\<lambda>i. bit (rows ! r) i \<and> bit (t OR 1) i) (m - r)"
  define t' where "t' = t OR (if ?b then 2 ^ (m - r) else 0)"
  have e: "back_substitute m rows (Suc r) t = back_substitute m rows r t'"
    by (simp add: substitute_bit [OF r(1) m Suc.prems(3) t, of "rows ! r"] t'_def del: One_nat_def)
  have bt': "bit t' i = (bit t i \<or> (?b \<and> i = m - r))" for i by (auto simp: t'_def bit_simps)
  have nt: "\<not> bit t (m - r)" using bit_less_exp [OF t] by blast
  have t': "even t'" "t' < 2 ^ Suc (m - r)"
    subgoal using Suc.prems(3) r bt' [of 0] by (auto simp: bit_0)
    subgoal by (rule less_exp_bits) (use bt' bit_less_exp [OF t] in \<open>auto simp: less_Suc_eq\<close>)
    done
  have ld: "\<forall>r' < r. lead m (rows ! r') r'" "lead m (rows ! r) r" using Suc.prems(1) by auto
  define T where "T = back_substitute m rows r t'"
  have IH: "sol_bits m (T OR 1)" "even T" "\<And>i. i \<le> m - r \<Longrightarrow> bit T i = bit t' i" "\<And>r'. r' < r \<Longrightarrow> \<not> dot m (rows ! r') (T OR 1)"
    "\<And>z. sol_bits m z \<Longrightarrow> (\<forall>i \<le> m - r. bit z i = bit (t' OR 1) i) \<Longrightarrow> (\<forall>r' < r. \<not> dot m (rows ! r') z) \<Longrightarrow> z = T OR 1"
    using Suc.IH [OF ld(1) r(2) t'] unfolding T_def by auto
  have low: "xpar (\<lambda>i. bit (rows ! r) i \<and> bit z i) (m - r) = ?b" if "\<And>i. i < m - r \<Longrightarrow> bit z i = bit (t OR 1) i" for z
    by (rule xpar_cong) (use that in auto)
  have "\<not> dot m (rows ! r) (T OR 1)"
  proof -
    have "xpar (\<lambda>i. bit (rows ! r) i \<and> bit (T OR 1) i) (m - r) = ?b" by (rule low) (use IH(3) bt' in \<open>auto simp: bit_simps\<close>)
    moreover have "bit (T OR 1) (m - r) = ?b" using IH(3) [of "m - r"] bt' [of "m - r"] nt r(1) by (simp add: bit_simps)
    ultimately show ?thesis using dot_lead [OF ld(2) r(2)] by simp
  qed
  moreover have "z = T OR 1" if z: "sol_bits m z" "\<forall>i \<le> m - Suc r. bit z i = bit (t OR 1) i" "\<forall>r' < Suc r. \<not> dot m (rows ! r') z" for z
  proof (rule IH(5) [OF z(1)])
    have b: "bit z i = bit (t OR 1) i" if "i < m - r" for i using z(2) that r by auto
    then have "bit z (m - r) = ?b" using low [of z] dot_lead [OF ld(2) r(2), of z] z(3) by auto
    then show "\<forall>i \<le> m - r. bit z i = bit (t' OR 1) i" using b bt' nt r(1) by (auto simp: bit_simps order.order_iff_strict)
  qed (use z(3) in auto)
  moreover have "bit T i = bit t i" if "i \<le> m - Suc r" for i using IH(3) [of i] bt' [of i] that r(1) by (cases "i = m - r") auto
  ultimately show ?case
    unfolding e T_def [symmetric] using IH(1,2,4) by (intro conjI allI impI) (auto simp: less_Suc_eq)
qed

section \<open>All the solutions\<close>

lemma bit_set_low: "bit (2 * (v div 2) OR (drop_bit c p AND 1)) i = (if i = 0 then bit p c else bit (v :: nat) i)"
proof -
  have "2 * (v div 2) = push_bit 1 (drop_bit 1 v)" by (simp add: push_bit_eq_mult drop_bit_eq_div)
  then show ?thesis by (auto simp: bit_simps simp flip: bit_iff_odd_drop_bit)
qed

lemma set_params_nth:
  assumes d: "distinct param" and l: "\<forall>q \<in> set param. q < length rows"
  shows "length (set_params param p rows) = length rows"
    "c < length param \<Longrightarrow> set_params param p rows ! (param ! c) = 2 * (rows ! (param ! c) div 2) OR (drop_bit c p AND 1)"
    "i \<notin> set param \<Longrightarrow> set_params param p rows ! i = rows ! i"
proof -
  let ?f = "\<lambda>c rows. rows[param ! c := 2 * ((rows ! (param ! c)) div 2) OR (drop_bit c p AND 1)]"
  have gen: "length (fold ?f [0..<n] rows) = length rows \<and>
      (\<forall>c < length param. fold ?f [0..<n] rows ! (param ! c) =
         (if c < n then 2 * (rows ! (param ! c) div 2) OR (drop_bit c p AND 1) else rows ! (param ! c))) \<and>
      (\<forall>i. i \<notin> set param \<longrightarrow> fold ?f [0..<n] rows ! i = rows ! i)" if "n \<le> length param" for n
    using that
  proof (induction n)
    case (Suc n)
    have pn: "param ! n \<in> set param" using Suc.prems by simp
    then have "param ! n < length rows" using l by blast
    then show ?case
      using Suc d pn by (auto simp: fold_upt_Suc nth_list_update nth_eq_iff_index_eq simp del: upt_Suc)
  qed simp
  show "length (set_params param p rows) = length rows"
    "c < length param \<Longrightarrow> set_params param p rows ! (param ! c) = 2 * (rows ! (param ! c) div 2) OR (drop_bit c p AND 1)"
    "i \<notin> set param \<Longrightarrow> set_params param p rows ! i = rows ! i"
    using gen [of "length param"] by (auto simp: set_params_def)
qed

lemma set_params_again:
  assumes d: "distinct param" and l: "\<forall>q \<in> set param. q < length rows"
  shows "set_params param q (set_params param p rows) = set_params param q rows"
proof (rule nth_equalityI)
  let ?r = "set_params param p rows"
  note s1 = set_params_nth [OF d l]
  then have l': "\<forall>q \<in> set param. q < length ?r" using l by simp
  note s2 = set_params_nth [OF d l']
  show "length (set_params param q ?r) = length (set_params param q rows)" using s1(1) s2(1) by simp
  fix i
  show "set_params param q ?r ! i = set_params param q rows ! i"
  proof (cases "i \<in> set param")
    case True
    then obtain c where c: "c < length param" "i = param ! c" by (auto simp: in_set_conv_nth)
    have "bit (set_params param q ?r ! i) j = bit (set_params param q rows ! i) j" for j
      unfolding c(2) s1(2) [OF c(1)] s2(2) [OF c(1)] bit_set_low by simp
    then show ?thesis by (simp add: bit_eq_iff)
  qed (simp add: s1(3) s2(3))
qed

lemma enum_solutions_map:
  assumes d: "distinct param" and l: "\<forall>q \<in> set param. q < length rows"
  shows "enum_solutions m param p n rows = map (\<lambda>q. drop_bit 1 (back_substitute m (set_params param q rows) m 0)) [p..<p + n]"
  using l
proof (induction n arbitrary: p rows)
  case (Suc n)
  have "\<forall>q \<in> set param. q < length (set_params param p rows)" using set_params_nth(1) [OF d Suc.prems] Suc.prems by simp
  then show ?case
    using Suc.IH set_params_again [OF d Suc.prems] by (simp add: Let_def upt_conv_Cons del: upt_Suc)
qed simp

text \<open>A parameter row states the value of its variable.\<close>

lemma param_row:
  assumes q: "q < m" and v: "\<And>i. bit v i = (if i = 0 then b else i = m - q)"
  shows "lead m v q" "dot m v z = ((b \<and> bit z 0) \<noteq> bit z (m - q))"
proof -
  show l: "lead m v q" using q by (auto simp: lead_def v)
  have "xpar (\<lambda>i. bit v i \<and> bit z i) (m - q) = xpar (\<lambda>i. (b \<and> bit z i) \<and> i = 0) (m - q)"
    by (rule xpar_cong) (auto simp: v)
  also have "\<dots> = (b \<and> bit z 0)" using xpar_single [of 0 "m - q" "\<lambda>i. b \<and> bit z i"] q by simp
  finally show "dot m v z = ((b \<and> bit z 0) \<noteq> bit z (m - q))" using dot_lead [OF l] q by simp
qed

text \<open>The form that the rows have when the solutions are enumerated.\<close>

definition completed :: "nat \<Rightarrow> nat list \<Rightarrow> nat list \<Rightarrow> nat list \<Rightarrow> bool" where
  "completed m param rows1 rows2 \<longleftrightarrow> gauss_inv m m param rows1 \<and> length rows2 = length rows1 \<and>
     (\<forall>i < m. m - 1 < i + length param \<longrightarrow> rows1 ! i = 0) \<and>
     (\<forall>i < m. rows2 ! i = (if i \<in> set param then 2 ^ (m - i) else rows1 ! (i - params_below param i)))"

lemma completed_sat:
  assumes c: "completed m param rows1 rows2"
  shows "sat_rows m rows1 z \<longleftrightarrow> (\<forall>r < m. r \<notin> set param \<longrightarrow> \<not> dot m (rows2 ! r) z)"
proof -
  have g: "sorted_wrt (<) param" "set param \<subseteq> {..<m}" using c by (auto simp: completed_def gauss_inv_def)
  note l = pivot_cols_length [OF g] and pi = pivot_col_index [OF g(1)] and pb = pivot_col_below [OF g(1)]
  have r2: "\<And>r. r < m \<Longrightarrow> r \<notin> set param \<Longrightarrow> rows2 ! r = rows1 ! (r - params_below param r)" using c by (simp add: completed_def)
  show ?thesis
  proof
    assume "sat_rows m rows1 z"
    then show "\<forall>r < m. r \<notin> set param \<longrightarrow> \<not> dot m (rows2 ! r) z" using r2 by (auto simp: sat_rows_def)
  next
    assume a: "\<forall>r < m. r \<notin> set param \<longrightarrow> \<not> dot m (rows2 ! r) z"
    have "\<not> dot m (rows1 ! i) z" if i: "i < m" for i
    proof (cases "i < length (pivot_cols param m)")
      case True
      then show ?thesis using a r2 pb [OF True] by metis
    next
      case False
      then have "rows1 ! i = 0" using c i l by (auto simp: completed_def)
      then show ?thesis by simp
    qed
    then show "sat_rows m rows1 z" by (simp add: sat_rows_def)
  qed
qed

lemma completed_solutions:
  assumes c: "completed m param rows1 rows2" and m: "m < 32"
  defines "zq \<equiv> \<lambda>q. back_substitute m (set_params param q rows2) m 0"
  shows "sol_bits m (zq q OR 1)" "even (zq q)" "sat_rows m rows1 (zq q OR 1)" "\<And>j. j < length param \<Longrightarrow> bit (zq q) (m - param ! j) = bit q j"
    "\<And>z. sol_bits m z \<Longrightarrow> sat_rows m rows1 z \<Longrightarrow> (\<And>j. j < length param \<Longrightarrow> bit z (m - param ! j) = bit q j) \<Longrightarrow> z = zq q OR 1"
proof -
  have g: "sorted_wrt (<) param" "set param \<subseteq> {..<m}" "m \<le> length rows2" using c by (auto simp: completed_def gauss_inv_def)
  have d: "distinct param" and pl: "\<forall>q \<in> set param. q < length rows2" using g by (auto simp: strict_sorted_iff)
  let ?rows = "set_params param q rows2"
  note sp = set_params_nth [OF d pl, where p = q]
  have pm: "param ! j < m" if "j < length param" for j using g(2) that nth_mem by blast
  have par: "lead m (?rows ! (param ! j)) (param ! j)" "dot m (?rows ! (param ! j)) z = ((bit q j \<and> bit z 0) \<noteq> bit z (m - param ! j))"
    if j: "j < length param" for j z
  proof -
    have "rows2 ! (param ! j) = 2 ^ (m - param ! j)" using c pm [OF j] j by (simp add: completed_def)
    then have b: "bit (?rows ! (param ! j)) i = (if i = 0 then bit q j else i = m - param ! j)" for i
      unfolding sp(2) [OF j] bit_set_low using pm [OF j] by (auto simp: bit_exp_iff)
    show "lead m (?rows ! (param ! j)) (param ! j)" "dot m (?rows ! (param ! j)) z = ((bit q j \<and> bit z 0) \<noteq> bit z (m - param ! j))"
      using param_row [OF pm [OF j] b] by auto
  qed
  have ld: "\<forall>r < m. lead m (?rows ! r) r"
  proof (intro allI impI)
    fix r assume r: "r < m"
    show "lead m (?rows ! r) r"
    proof (cases "r \<in> set param")
      case True
      then show ?thesis using par(1) by (auto simp: in_set_conv_nth)
    next
      case False
      then have "?rows ! r = rows1 ! (r - params_below param r)" using c r sp(3) by (simp add: completed_def)
      then show ?thesis using c pivot_col_index [OF g(1) r False] by (auto simp: completed_def gauss_inv_def)
    qed
  qed
  have sat: "(\<forall>r < m. \<not> dot m (?rows ! r) z) \<longleftrightarrow> sat_rows m rows1 z \<and> (\<forall>j < length param. bit z (m - param ! j) = bit q j)" if z: "bit z 0" for z
    unfolding completed_sat [OF c]
  proof (rule iffI; intro conjI allI impI)
    fix r assume "(\<forall>r < m. r \<notin> set param \<longrightarrow> \<not> dot m (rows2 ! r) z) \<and> (\<forall>j < length param. bit z (m - param ! j) = bit q j)" "r < m"
    then show "\<not> dot m (?rows ! r) z" using sp(3) [of r] par(2) z by (cases "r \<in> set param") (auto simp: in_set_conv_nth)
  next
    fix r assume "\<forall>r < m. \<not> dot m (?rows ! r) z" "r < m" "r \<notin> set param"
    then show "\<not> dot m (rows2 ! r) z" using sp(3) [of r] by auto
  next
    fix j assume "\<forall>r < m. \<not> dot m (?rows ! r) z" "j < length param"
    then show "bit z (m - param ! j) = bit q j" using par(2) [of j z] pm [of j] z by auto
  qed
  have bs: "sol_bits m (zq q OR 1)" "even (zq q)" "\<forall>r < m. \<not> dot m (?rows ! r) (zq q OR 1)"
    "\<And>z. sol_bits m z \<Longrightarrow> (\<forall>i \<le> m - m. bit z i = bit (0 OR 1 :: nat) i) \<Longrightarrow> (\<forall>r < m. \<not> dot m (?rows ! r) z) \<Longrightarrow> z = zq q OR 1"
    using back_substitute_spec [OF m ld order_refl, of 0] unfolding zq_def by auto
  show "sol_bits m (zq q OR 1)" "even (zq q)" by (fact bs)+
  have z0: "bit (zq q OR 1) 0" using bs(1) by (simp add: sol_bits_def)
  note S = iffD1 [OF sat [OF z0] bs(3)]
  then show "sat_rows m rows1 (zq q OR 1)" by simp
  show "bit (zq q) (m - param ! j) = bit q j" if "j < length param" for j
    using S that pm [OF that] by (auto simp: bit_or_iff bit_1_iff simp del: One_nat_def)
  show "z = zq q OR 1" if z: "sol_bits m z" "sat_rows m rows1 z" "\<And>j. j < length param \<Longrightarrow> bit z (m - param ! j) = bit q j" for z
  proof (rule bs(4) [OF z(1)])
    have b: "bit z 0" using z(1) by (simp add: sol_bits_def)
    then show "\<forall>i \<le> m - m. bit z i = bit (0 OR 1 :: nat) i" by (simp add: bit_0)
    show "\<forall>r < m. \<not> dot m (?rows ! r) z" using sat [OF b] z(2,3) by blast
  qed
qed

text \<open>The two ways out of \<open>insert_params\<close>: the completed form, or a row without coefficients and with constant 1.\<close>

lemma params_below_all: "set param \<subseteq> {..<m} \<Longrightarrow> length param = params_below param m"
  by (auto simp: params_below_def subset_iff intro!: arg_cong [of _ _ length] filter_True [symmetric])

lemma insert_params_completed:
  assumes g: "gauss_inv m m param rows1"
    and r: "(if 0 < length param then insert_params m param m (length param) rows1 else Some rows1) = Some rows2"
  shows "completed m param rows1 rows2"
proof (cases "0 < length param")
  case True
  have s: "sorted_wrt (<) param" "set param \<subseteq> {..<m}" "m \<le> length rows1" using g unfolding gauss_inv_def by blast+
  have "insert_params m param m (length param) rows1 = Some rows2" using r True by simp
  then show ?thesis using insert_params_spec [OF s(1,3) params_below_all [OF s(2)], of m] g by (simp add: completed_def)
next
  case False
  then show ?thesis using g r by (auto simp: completed_def params_below_def)
qed

lemma insert_params_unsat:
  assumes g: "gauss_inv m m param rows1"
    and r: "(if 0 < length param then insert_params m param m (length param) rows1 else Some rows1) = None" and z: "bit z 0"
  shows "\<not> sat_rows m rows1 z"
proof
  assume sat: "sat_rows m rows1 z"
  have s: "sorted_wrt (<) param" "set param \<subseteq> {..<m}" "m \<le> length rows1" and clr: "\<And>r c. r < m \<Longrightarrow> length (pivot_cols param m) \<le> r \<Longrightarrow> c < m \<Longrightarrow> \<not> bit (rows1 ! r) (m - c)"
    and bd: "\<And>i. i < m \<Longrightarrow> rows1 ! i < 2 ^ Suc m"
    using g unfolding gauss_inv_def by blast+
  note l = pivot_cols_length [OF s(1,2)]
  have "insert_params m param m (length param) rows1 = None" using r by (simp split: if_splits)
  then obtain i where i: "i < m" "m - 1 < i + length param" "rows1 ! i \<noteq> 0"
    using insert_params_spec [OF s(1,3) params_below_all [OF s(2)], of m] by auto
  have hi: "\<not> bit (rows1 ! i) j" if "0 < j" for j
  proof (cases "j \<le> m")
    case True
    then show ?thesis using clr [of i "m - j"] i l that by simp
  next
    case False
    then show ?thesis using bit_less_exp [OF bd [OF i(1)], of j] by auto
  qed
  have "dot m (rows1 ! i) z = xpar (\<lambda>j. bit (rows1 ! i) j \<and> j = 0) (Suc m)"
    unfolding dot_def by (rule xpar_cong) (use hi z in \<open>metis gr0I\<close>)
  then have "\<not> bit (rows1 ! i) 0" using sat i(1) xpar_single [of 0 "Suc m" "bit (rows1 ! i)"] by (simp add: sat_rows_def)
  then have "\<not> bit (rows1 ! i) j" for j using hi by (cases "j = 0") auto
  then show False using i(3) by (simp add: bit_eq_iff)
qed

lemma sol_half: "sol_bits m z \<longleftrightarrow> (\<exists>s < 2 ^ m. z = 2 * s + 1)"
proof
  assume z: "sol_bits m z"
  then have "odd z" "z < 2 * 2 ^ m" by (auto simp: sol_bits_def bit_0)
  then show "\<exists>s < 2 ^ m. z = 2 * s + 1" by (auto elim!: oddE)
next
  assume "\<exists>s < 2 ^ m. z = 2 * s + 1"
  then show "sol_bits m z" by (auto simp: sol_bits_def bit_0)
qed

text \<open>The solutions of a completed system, one for each value of the parameters.\<close>

lemma completed_set:
  assumes c: "completed m param rows1 rows2" and m: "m < 32"
  defines "zs \<equiv> \<lambda>q. drop_bit 1 (back_substitute m (set_params param q rows2) m 0)"
  shows "inj_on zs {0..<2 ^ length param}" "zs ` {0..<2 ^ length param} = {s. s < 2 ^ m \<and> sat_rows m rows1 (2 * s + 1)}"
proof -
  define zq where "zq q = back_substitute m (set_params param q rows2) m 0" for q
  define k where "k = length param"
  note cs = completed_solutions [OF c m, folded zq_def]
  have zs: "zs q = drop_bit 1 (zq q)" for q by (simp add: zs_def zq_def)
  have dz: "2 * zs q + 1 = zq q OR 1" for q using cs(2) [of q] by (simp add: zs drop_bit_eq_div or_one_eq del: One_nat_def)
  have bits: "\<And>j. j < k \<Longrightarrow> bit (zq q) (m - param ! j) = bit q j" for q using cs(4) by (simp add: k_def)
  show "inj_on zs {0..<2 ^ length param}"
  proof (rule inj_onI)
    fix q q' assume q: "q \<in> {0..<2 ^ length param}" "q' \<in> {0..<2 ^ length param}" "zs q = zs q'"
    have "zq q = zq q'" using q(3) cs(2) [of q] cs(2) [of q'] by (auto simp: zs drop_bit_eq_div elim!: evenE)
    then have "bit q j = bit q' j" if "j < k" for j using bits [OF that, of q] bits [OF that, of q'] by simp
    moreover have "\<not> bit q j \<and> \<not> bit q' j" if "\<not> j < k" for j using bit_less_exp [of _ k j] q that by (auto simp: k_def)
    ultimately show "q = q'" by (metis bit_eqI)
  qed
  let ?S = "{s. s < 2 ^ m \<and> sat_rows m rows1 (2 * s + 1)}"
  have "zs q \<in> ?S" for q using cs(1,3) [of q] dz [of q] unfolding sol_half by auto
  moreover have "s \<in> zs ` {0..<2 ^ length param}" if s: "s \<in> ?S" for s
  proof -
    let ?q = "horner_sum of_bool 2 (map (\<lambda>j. bit (2 * s + 1) (m - param ! j)) [0..<k]) :: nat"
    have bq: "bit ?q j = bit (2 * s + 1) (m - param ! j)" if "j < k" for j using that by (simp add: bit_horner_sum_bit_iff)
    have "?q < 2 ^ k" using horner_sum_of_bool_2_less [of "map (\<lambda>j. bit (2 * s + 1) (m - param ! j)) [0..<k]", where 'a = nat] by simp
    moreover have "2 * s + 1 = zq ?q OR 1" by (rule cs(5)) (use s bq sol_half in \<open>auto simp: k_def\<close>)
    then have "s = zs ?q" using dz [of ?q] by simp
    ultimately show ?thesis by (auto simp: k_def)
  qed
  ultimately show "zs ` {0..<2 ^ length param} = ?S" by blast
qed

lemma solve_linear_system_all:
  fixes bch :: bch_control and rows :: "nat list"
  defines "S \<equiv> {s. s < 2 ^ GF_M bch \<and> sat_rows (GF_M bch) rows (2 * s + 1)}"
  assumes m: "GF_M bch < 32" and l: "GF_M bch \<le> length rows" and bd: "\<forall>i < GF_M bch. rows ! i < 2 ^ Suc (GF_M bch)" and n: "0 < n"
  shows "distinct (solve_linear_system bch rows n)" "set (solve_linear_system bch rows n) = (if card S = n then S else {})"
proof -
  let ?m = "GF_M bch"
  obtain param rows1 where gc: "gauss_columns ?m 0 [] rows = (param, rows1)" by (cases "gauss_columns ?m 0 [] rows") auto
  have "gauss_inv ?m 0 [] rows" using l bd by (simp add: gauss_inv_def pivot_cols_def)
  then have g: "gauss_inv ?m ?m param rows1" "\<And>z. sat_rows ?m rows1 z = sat_rows ?m rows z" using gauss_columns_spec [OF _ _ gc] by auto
  define ins where "ins = (if 0 < length param then insert_params ?m param ?m (length param) rows1 else Some rows1)"
  have sol: "solve_linear_system bch rows n = (case ins of None \<Rightarrow> [] | Some rows2 \<Rightarrow> if n \<noteq> 2 ^ length param then [] else enum_solutions ?m param 0 n rows2)"
    by (simp add: solve_linear_system_def Let_def gc ins_def)
  have "distinct (solve_linear_system bch rows n) \<and> set (solve_linear_system bch rows n) = (if card S = n then S else {})"
  proof (cases ins)
    case None
    have "\<not> sat_rows ?m rows (2 * s + 1)" for s
      using insert_params_unsat [OF g(1) None [unfolded ins_def], of "2 * s + 1"] g(2) by (simp add: bit_0)
    then have "S = {}" by (simp add: S_def)
    then show ?thesis using None n by (simp add: sol)
  next
    case (Some rows2)
    have c: "completed ?m param rows1 rows2" by (rule insert_params_completed [OF g(1) Some [unfolded ins_def]])
    let ?zs = "\<lambda>q. drop_bit 1 (back_substitute ?m (set_params param q rows2) ?m 0)"
    have S: "S = ?zs ` {0..<2 ^ length param}" and inj: "inj_on ?zs {0..<2 ^ length param}"
      using completed_set [OF c m] g(2) by (auto simp: S_def)
    have cS: "card S = 2 ^ length param" using card_image [OF inj] S by simp
    have g': "distinct param" "\<forall>q \<in> set param. q < length rows2" using g(1) c by (auto simp: gauss_inv_def completed_def strict_sorted_iff)
    show ?thesis
    proof (cases "n = 2 ^ length param")
      case True
      have "solve_linear_system bch rows n = map ?zs [0..<2 ^ length param]"
        unfolding sol using Some True enum_solutions_map [OF g'] by simp
      then show ?thesis using inj S cS True by (simp add: distinct_map)
    next
      case False
      then show ?thesis using Some cS by (simp add: sol)
    qed
  qed
  then show "distinct (solve_linear_system bch rows n)" "set (solve_linear_system bch rows n) = (if card S = n then S else {})" by auto
qed

section \<open>Property\<close>

text \<open>
  C4: \<open>solve_linear_system\<close> is complete.  For every system of \<open>m\<close> equations over GF(2) in
  \<open>m\<close> unknowns and every requested number of solutions \<open>nsol > 0\<close>, it returns all
  solutions, each once, if the system has exactly \<open>nsol\<close> of them, and nothing otherwise.
\<close>

theorem solve_linear_system_complete:
  assumes "GF_M bch < 32" and "GF_M bch \<le> length rows" and "\<forall>i < GF_M bch. rows ! i < 2 ^ Suc (GF_M bch)" and "0 < nsol"
  shows "distinct (solve_linear_system bch rows nsol) \<and>
    set (solve_linear_system bch rows nsol) =
      (let S = {s. s < 2 ^ GF_M bch \<and> sat_rows (GF_M bch) rows (2 * s + 1)} in if card S = nsol then S else {})"
  unfolding Let_def by (intro conjI; rule solve_linear_system_all [OF assms])

theorem solve_linear_system_complete_witness:
  "set (solve_linear_system (bch_3\<lparr>bch_m := 2\<rparr>) [7, 0] 2) = {1, 2} \<and> set (solve_linear_system (bch_3\<lparr>bch_m := 2\<rparr>) [7, 1] 2) = {}"
proof -
  let ?b = "bch_3\<lparr>bch_m := 2\<rparr>"
  have m: "GF_M ?b = 2" by (simp add: GF_M_def)
  have d: "dot 2 v z = ((bit v 0 \<and> bit z 0) \<noteq> ((bit v 1 \<and> bit z 1) \<noteq> (bit v 2 \<and> bit z 2)))" for v z
    unfolding dot_def numeral_2_eq_2 by auto
  have r: "sat_rows 2 [v, w] z \<longleftrightarrow> \<not> dot 2 v z \<and> \<not> dot 2 w z" for v w z
    by (auto simp: sat_rows_def less_2_cases_iff)
  have s4: "s < 4 \<Longrightarrow> s = 0 \<or> s = 1 \<or> s = 2 \<or> s = 3" for s :: nat by auto
  have S1: "{s. s < 2 ^ 2 \<and> sat_rows 2 [7, 0] (2 * s + 1)} = {1, 2}" unfolding r d by (auto dest!: s4 simp: bit_0)
  have S2: "{s. s < 2 ^ 2 \<and> sat_rows 2 [7, 1] (2 * s + 1)} = {}" unfolding r d by (auto dest!: s4 simp: bit_0)
  have bd: "\<forall>i < 2. [7, v] ! i < 2 ^ Suc 2" if "v < 8" for v :: nat using that by (auto simp: less_2_cases_iff)
  have "set (solve_linear_system ?b [7, 0] 2) = {1, 2}"
    using solve_linear_system_complete [of ?b "[7, 0]" 2, unfolded m S1 Let_def, OF _ _ bd] by simp
  moreover have "set (solve_linear_system ?b [7, 1] 2) = {}"
    using solve_linear_system_complete [of ?b "[7, 1]" 2, unfolded m S2 Let_def, OF _ _ bd] by simp
  ultimately show ?thesis by simp
qed

end
