(* ===== verification/Bch_Transpose.thy ===== *)
theory Bch_Transpose
  imports Bch_Linear
begin

text \<open>
  The transposition of a 16 by 16 bit matrix in \<open>find_affine4_roots\<close> of lib/bch.c, by
  exchanging off-diagonal blocks of size 8, 4, 2 and 1.
\<close>

lemma transpose_step_bits:
  assumes "0 < j" "k + j < length rows"
  shows "length (transpose_step j msk k rows) = length rows"
    "bit (transpose_step j msk k rows ! k) i = (if j \<le> i \<and> bit msk (i - j) then bit (rows ! (k + j)) (i - j) else bit (rows ! k) i)"
    "bit (transpose_step j msk k rows ! (k + j)) i = (if bit msk i then bit (rows ! k) (j + i) else bit (rows ! (k + j)) i)"
    "n \<noteq> k \<Longrightarrow> n \<noteq> k + j \<Longrightarrow> transpose_step j msk k rows ! n = rows ! n"
  using assms by (auto simp: transpose_step_def Let_def bit_simps)

lemma transpose_fold:
  assumes j: "0 < j"
  shows "distinct ks \<Longrightarrow> (\<And>k. k \<in> set ks \<Longrightarrow> k + j \<notin> set ks \<and> k + j < length rows) \<Longrightarrow>
    length (fold (transpose_step j msk) ks rows) = length rows \<and>
    (\<forall>k \<in> set ks. \<forall>i. bit (fold (transpose_step j msk) ks rows ! k) i =
       (if j \<le> i \<and> bit msk (i - j) then bit (rows ! (k + j)) (i - j) else bit (rows ! k) i)) \<and>
    (\<forall>k \<in> set ks. \<forall>i. bit (fold (transpose_step j msk) ks rows ! (k + j)) i =
       (if bit msk i then bit (rows ! k) (j + i) else bit (rows ! (k + j)) i)) \<and>
    (\<forall>n. n \<notin> set ks \<and> (\<forall>k \<in> set ks. n \<noteq> k + j) \<longrightarrow> fold (transpose_step j msk) ks rows ! n = rows ! n)"
proof (induction ks arbitrary: rows)
  case (Cons k ks)
  note st = transpose_step_bits [OF j, of k rows msk]
  define rows' where "rows' = transpose_step j msk k rows"
  have kl: "k + j < length rows" "k + j \<notin> set (k # ks)" using Cons.prems(2) [of k] by auto
  have st: "length rows' = length rows" "\<And>i. bit (rows' ! k) i = (if j \<le> i \<and> bit msk (i - j) then bit (rows ! (k + j)) (i - j) else bit (rows ! k) i)"
    "\<And>i. bit (rows' ! (k + j)) i = (if bit msk i then bit (rows ! k) (j + i) else bit (rows ! (k + j)) i)"
    "\<And>n. n \<noteq> k \<Longrightarrow> n \<noteq> k + j \<Longrightarrow> rows' ! n = rows ! n"
    using transpose_step_bits [OF j kl(1)] unfolding rows'_def by blast+
  define out where "out = fold (transpose_step j msk) ks rows'"
  have IH: "length out = length rows'"
    "\<And>k' i. k' \<in> set ks \<Longrightarrow> bit (out ! k') i = (if j \<le> i \<and> bit msk (i - j) then bit (rows' ! (k' + j)) (i - j) else bit (rows' ! k') i)"
    "\<And>k' i. k' \<in> set ks \<Longrightarrow> bit (out ! (k' + j)) i = (if bit msk i then bit (rows' ! k') (j + i) else bit (rows' ! (k' + j)) i)"
    "\<And>n. n \<notin> set ks \<Longrightarrow> (\<And>k. k \<in> set ks \<Longrightarrow> n \<noteq> k + j) \<Longrightarrow> out ! n = rows' ! n"
    using Cons.IH [of rows'] Cons.prems st(1) unfolding out_def by auto
  have ne: "k' \<noteq> k" "k' \<noteq> k + j" "k' + j \<noteq> k" "k' + j \<noteq> k + j" if "k' \<in> set ks" for k'
    using Cons.prems that by auto
  have hd: "out ! k = rows' ! k" "out ! (k + j) = rows' ! (k + j)"
    by (rule IH(4); use Cons.prems kl(2) ne in force)+
  have e: "fold (transpose_step j msk) (k # ks) rows = out" by (simp add: out_def rows'_def)
  have ext: "rows' ! k' = rows ! k'" "rows' ! (k' + j) = rows ! (k' + j)" if "k' \<in> set ks" for k'
    using st(4) ne [OF that] by auto
  show ?case
    unfolding e
  proof (intro conjI ballI allI impI)
    show "length out = length rows" using IH(1) st(1) by simp
    fix k' i assume k': "k' \<in> set (k # ks)"
    show "bit (out ! k') i = (if j \<le> i \<and> bit msk (i - j) then bit (rows ! (k' + j)) (i - j) else bit (rows ! k') i)"
      using k' hd(1) st(2) IH(2) ext by (cases "k' = k") auto
    show "bit (out ! (k' + j)) i = (if bit msk i then bit (rows ! k') (j + i) else bit (rows ! (k' + j)) i)"
      using k' hd(2) st(3) IH(3) ext by (cases "k' = k") auto
  next
    fix n assume n: "n \<notin> set (k # ks) \<and> (\<forall>k \<in> set (k # ks). n \<noteq> k + j)"
    then have "out ! n = rows' ! n" by (intro IH(4)) auto
    then show "out ! n = rows ! n" using st(4) [of n] n by auto
  qed
qed simp

text \<open>One stage exchanges the bit of weight \<open>j\<close> of the row index with that of the column index.\<close>

definition exchange :: "nat \<Rightarrow> nat \<times> nat \<Rightarrow> nat \<times> nat" where
  "exchange j ki = (if (fst ki AND j = 0) = (snd ki AND j = 0) then ki else (fst ki XOR j, snd ki XOR j))"

definition below16 :: "nat set" where
  "below16 = {0,1,2,3,4,5,6,7,8,9,10,11,12,13,14,15}"

definition stage_ok :: "nat \<Rightarrow> nat \<Rightarrow> nat list \<Rightarrow> bool" where
  "stage_ok j msk ks \<longleftrightarrow> 0 < j \<and> j \<le> 8 \<and> distinct ks \<and> msk < 2 ^ 16 \<and> (\<forall>k \<in> set ks. k + j \<notin> set ks \<and> k + j < 16) \<and>
     (\<forall>k \<in> below16. if k AND j = 0 then k \<in> set ks \<and> k XOR j = k + j else j \<le> k \<and> k - j \<in> set ks \<and> k XOR j = k - j) \<and>
     (\<forall>i \<in> below16. (j \<le> i \<and> bit msk (i - j)) = (i AND j \<noteq> 0) \<and> bit msk i = (i AND j = 0)) \<and>
     (\<forall>i \<in> {16,17,18,19,20,21,22,23}. \<not> bit msk (i - j))"

lemma stages:
  "stage_ok 8 0xff [0, 1, 2, 3, 4, 5, 6, 7]" "stage_ok 4 0xf0f [0, 1, 2, 3, 8, 9, 10, 11]"
  "stage_ok 2 0x3333 [0, 1, 4, 5, 8, 9, 12, 13]" "stage_ok 1 0x5555 [0, 2, 4, 6, 8, 10, 12, 14]"
  by (simp_all add: stage_ok_def bit_0 below16_def)

lemma inner_stages:
  "transpose_inner 8 0xff 0 rows = fold (transpose_step 8 0xff) [0, 1, 2, 3, 4, 5, 6, 7] rows"
  "transpose_inner 4 0xf0f 0 rows = fold (transpose_step 4 0xf0f) [0, 1, 2, 3, 8, 9, 10, 11] rows"
  "transpose_inner 2 0x3333 0 rows = fold (transpose_step 2 0x3333) [0, 1, 4, 5, 8, 9, 12, 13] rows"
  "transpose_inner 1 0x5555 0 rows = fold (transpose_step 1 0x5555) [0, 2, 4, 6, 8, 10, 12, 14] rows"
  by (simp_all add: transpose_inner.simps Let_def)

lemma below_16: "n < 16 \<Longrightarrow> n \<in> below16"
  unfolding below16_def by (simp only: insert_iff empty_iff) presburger

lemma stage_bits:
  assumes st: "stage_ok j msk ks" and l: "length rows = 16" and b: "\<forall>k < 16. rows ! k < 2 ^ 16"
  defines "out \<equiv> fold (transpose_step j msk) ks rows"
  shows "length out = 16" "\<And>k i. k < 16 \<Longrightarrow> i < 16 \<Longrightarrow> bit (out ! k) i = (case exchange j (k, i) of (k', i') \<Rightarrow> bit (rows ! k') i')"
    "\<And>k. k < 16 \<Longrightarrow> out ! k < 2 ^ 16"
proof -
  have s: "0 < j" "j \<le> 8" "distinct ks" "msk < 2 ^ 16" "\<And>k. k \<in> set ks \<Longrightarrow> k + j \<notin> set ks \<and> k + j < 16"
    using st unfolding stage_ok_def by blast+
  have k: "if k AND j = 0 then k \<in> set ks \<and> k XOR j = k + j else j \<le> k \<and> k - j \<in> set ks \<and> k XOR j = k - j" if "k < 16" for k
    using st below_16 [OF that] unfolding stage_ok_def by blast
  have i: "(j \<le> i \<and> bit msk (i - j)) = (i AND j \<noteq> 0)" "bit msk i = (i AND j = 0)" if "i < 16" for i
    using st below_16 [OF that] unfolding stage_ok_def by blast+
  have hi: "\<not> bit msk i" "\<not> bit msk (i - j)" if "16 \<le> i" for i
  proof -
    show "\<not> bit msk i" using bit_less_exp [OF s(4), of i] that by auto
    show "\<not> bit msk (i - j)"
    proof (cases "i < 24")
      case True
      then have "i \<in> {16,17,18,19,20,21,22,23}" using that by (simp only: insert_iff empty_iff) presburger
      then show ?thesis using st unfolding stage_ok_def by blast
    next
      case False
      then show ?thesis using bit_less_exp [OF s(4), of "i - j"] s(2) by auto
    qed
  qed
  have f: "length out = 16" "\<And>k i. k \<in> set ks \<Longrightarrow> bit (out ! k) i = (if j \<le> i \<and> bit msk (i - j) then bit (rows ! (k + j)) (i - j) else bit (rows ! k) i)"
    "\<And>k i. k \<in> set ks \<Longrightarrow> bit (out ! (k + j)) i = (if bit msk i then bit (rows ! k) (j + i) else bit (rows ! (k + j)) i)"
    using transpose_fold [OF s(1,3), of rows msk] s(5) l unfolding out_def by auto
  show "length out = 16" by (fact f(1))
  show "bit (out ! k) i = (case exchange j (k, i) of (k', i') \<Rightarrow> bit (rows ! k') i')" if ki: "k < 16" "i < 16" for k i
  proof (cases "k AND j = 0")
    case True
    then show ?thesis using k [OF ki(1)] k [OF ki(2)] f(2) [of k i] i [OF ki(2)] by (auto simp: exchange_def)
  next
    case False
    then have "j \<le> k" "k - j \<in> set ks" "k XOR j = k - j" using k [OF ki(1)] by auto
    then show ?thesis using f(3) [of "k - j" i] i [OF ki(2)] k [OF ki(2)] False by (auto simp: exchange_def add.commute)
  qed
  show "out ! k < 2 ^ 16" if k16: "k < 16" for k
  proof (rule less_exp_bits)
    fix i assume bi: "bit (out ! k) i"
    show "i < 16"
    proof (rule ccontr)
      assume i16: "\<not> i < 16"
      then have r: "\<not> bit (rows ! n) i" if "n < 16" for n using bit_less_exp [of "rows ! n" 16 i] b that by auto
      show False
      proof (cases "k AND j = 0")
        case True
        then show False using k [OF k16] f(2) [of k i] bi hi(2) [of i] i16 r [OF k16] by simp
      next
        case False
        then have "j \<le> k" "k - j \<in> set ks" using k [OF k16] by auto
        then show False using f(3) [of "k - j" i] bi hi(1) [of i] i16 r [OF k16] by simp
      qed
    qed
  qed
qed

lemma exchange_bits:
  "bit (fst (exchange (2 ^ e) ki)) n = (if n = e then bit (snd ki) n else bit (fst ki) n)"
  "bit (snd (exchange (2 ^ e) ki)) n = (if n = e then bit (fst ki) n else bit (snd ki) n)"
  by (auto simp: exchange_def and_mask_bit bit_xor_iff bit_exp_iff)

lemma exchange_16:
  assumes e: "e < 4" and k: "fst ki < 16" "snd ki < 16"
  shows "fst (exchange (2 ^ e) ki) < 16" "snd (exchange (2 ^ e) ki) < 16"
proof -
  have b: "n < 4" if "bit (fst ki) n \<or> bit (snd ki) n" for n using that k bit_less_exp [of _ 4 n] by auto
  have "fst (exchange (2 ^ e) ki) < 2 ^ 4" "snd (exchange (2 ^ e) ki) < 2 ^ 4"
    by (rule less_exp_bits; use b in \<open>auto simp: exchange_bits split: if_splits\<close>)+
  then show "fst (exchange (2 ^ e) ki) < 16" "snd (exchange (2 ^ e) ki) < 16" by simp_all
qed

lemma exchange_all:
  assumes "k < 16" "i < 16"
  shows "exchange (2 ^ 3) (exchange (2 ^ 2) (exchange (2 ^ 1) (exchange (2 ^ 0) (k, i)))) = (i, k)" (is "?e = _")
proof -
  have hi: "\<not> bit k n \<and> \<not> bit i n" if "4 \<le> n" for n using bit_less_exp [of _ 4 n] assms that by auto
  have n: "n = 0 \<or> n = 1 \<or> n = 2 \<or> n = 3 \<or> 4 \<le> n" for n :: nat by auto
  have "bit (fst ?e) n = bit i n" for n unfolding exchange_bits fst_conv snd_conv using n [of n] hi by auto
  moreover have "bit (snd ?e) n = bit k n" for n unfolding exchange_bits fst_conv snd_conv using n [of n] hi by auto
  ultimately show ?thesis by (intro prod_eqI) (auto intro: bit_eqI)
qed

lemma masks:
  "to_u32 (0xff XOR push_bit 4 0xff) = 0xf0f" "to_u32 (0xf0f XOR push_bit 2 0xf0f) = 0x3333" "to_u32 (0x3333 XOR push_bit 1 0x3333) = 0x5555"
  by (simp_all add: to_u32_def)

lemma transpose_outer_stages:
  "transpose_outer 8 0xff rows = fold (transpose_step 1 0x5555) [0, 2, 4, 6, 8, 10, 12, 14] (fold (transpose_step 2 0x3333) [0, 1, 4, 5, 8, 9, 12, 13]
     (fold (transpose_step 4 0xf0f) [0, 1, 2, 3, 8, 9, 10, 11] (fold (transpose_step 8 0xff) [0, 1, 2, 3, 4, 5, 6, 7] rows)))"
proof -
  have o: "j \<noteq> 0 \<Longrightarrow> transpose_outer j msk rows = transpose_outer (j div 2) (to_u32 (msk XOR push_bit (j div 2) msk)) (transpose_inner j msk 0 rows)"
    "transpose_outer 0 msk rows = rows" for j msk rows
    by (subst transpose_outer.simps, simp add: Let_def)+
  have d: "8 div 2 = (4 :: nat)" "4 div 2 = (2 :: nat)" "2 div 2 = (1 :: nat)" "1 div 2 = (0 :: nat)" by simp_all
  have n: "8 \<noteq> (0 :: nat)" "4 \<noteq> (0 :: nat)" "2 \<noteq> (0 :: nat)" "1 \<noteq> (0 :: nat)" by simp_all
  show ?thesis unfolding o(1) [OF n(1)] o(1) [OF n(2)] o(1) [OF n(3)] o(1) [OF n(4)] d masks o(1) [OF n(2)] o(1) [OF n(3)] o(1) [OF n(4)] o(2) inner_stages ..
qed

lemma transpose_correct:
  assumes l: "length rows = 16" and b: "\<forall>k < 16. rows ! k < 2 ^ 16"
  shows "length (transpose_outer 8 0xff rows) = 16" "\<And>k i. k < 16 \<Longrightarrow> i < 16 \<Longrightarrow> bit (transpose_outer 8 0xff rows ! k) i = bit (rows ! i) k"
    "\<And>k. k < 16 \<Longrightarrow> transpose_outer 8 0xff rows ! k < 2 ^ 16"
proof -
  define r1 where "r1 = fold (transpose_step 8 0xff) [0, 1, 2, 3, 4, 5, 6, 7] rows"
  define r2 where "r2 = fold (transpose_step 4 0xf0f) [0, 1, 2, 3, 8, 9, 10, 11] r1"
  define r3 where "r3 = fold (transpose_step 2 0x3333) [0, 1, 4, 5, 8, 9, 12, 13] r2"
  define r4 where "r4 = fold (transpose_step 1 0x5555) [0, 2, 4, 6, 8, 10, 12, 14] r3"
  note s1 = stage_bits [OF stages(1) l b, folded r1_def]
  have b1: "\<forall>k < 16. r1 ! k < 2 ^ 16" using s1(3) by blast
  note s2 = stage_bits [OF stages(2) s1(1) b1, folded r2_def]
  have b2: "\<forall>k < 16. r2 ! k < 2 ^ 16" using s2(3) by blast
  note s3 = stage_bits [OF stages(3) s2(1) b2, folded r3_def]
  have b3: "\<forall>k < 16. r3 ! k < 2 ^ 16" using s3(3) by blast
  note s4 = stage_bits [OF stages(4) s3(1) b3, folded r4_def]
  have e: "transpose_outer 8 0xff rows = r4"
    unfolding transpose_outer_stages r1_def r2_def r3_def r4_def ..
  show "length (transpose_outer 8 0xff rows) = 16" "\<And>k. k < 16 \<Longrightarrow> transpose_outer 8 0xff rows ! k < 2 ^ 16"
    unfolding e using s4 by auto
  fix k i :: nat assume ki: "k < 16" "i < 16"
  let ?e1 = "exchange (2 ^ 0) (k, i)" and ?e2 = "exchange (2 ^ 1) (exchange (2 ^ 0) (k, i))"
    and ?e3 = "exchange (2 ^ 2) (exchange (2 ^ 1) (exchange (2 ^ 0) (k, i)))"
  have k1: "fst ?e1 < 16" "snd ?e1 < 16" using exchange_16 [of 0 "(k, i)"] ki by auto
  have k2: "fst ?e2 < 16" "snd ?e2 < 16" using exchange_16 [of 1 ?e1] k1 by auto
  have k3: "fst ?e3 < 16" "snd ?e3 < 16" using exchange_16 [of 2 ?e2] k2 by auto
  have "bit (r4 ! k) i = bit (r3 ! fst ?e1) (snd ?e1)" using s4(2) [OF ki] by (simp add: split_beta)
  also have "\<dots> = bit (r2 ! fst ?e2) (snd ?e2)" using s3(2) [OF k1] by (simp add: split_beta)
  also have "\<dots> = bit (r1 ! fst ?e3) (snd ?e3)" using s2(2) [OF k2] by (simp add: split_beta)
  also have "\<dots> = bit (rows ! i) k" using s1(2) [OF k3] exchange_all [OF ki] by (simp add: split_beta)
  finally show "bit (transpose_outer 8 0xff rows ! k) i = bit (rows ! i) k" unfolding e .
qed

end
