(* ===== verification/Bch_Series.thy ===== *)
theory Bch_Series
  imports Bch_Codeword
begin

text \<open>
  Power series and polynomials over a binary field, as functions from degrees to
  coefficients: product, the Euler operator \<open>X d/dX\<close>, evaluation and the bound on the
  number of roots.  These are the facts on which the correctness of the decoder rests.
\<close>

section \<open>Sums over sets\<close>

interpretation xs: comm_monoid_set "(XOR) :: nat \<Rightarrow> nat \<Rightarrow> nat" 0
  by standard (simp_all add: xor_simps)

lemma xsum_F: "xsum f n = xs.F f {..<n}"
  by (induction n) (simp_all add: lessThan_Suc xor_simps)

section \<open>Series\<close>

text \<open>The coefficients of a product, for the multiplication \<open>m\<close> of the field.\<close>

definition conv :: "(nat \<Rightarrow> nat \<Rightarrow> nat) \<Rightarrow> (nat \<Rightarrow> nat) \<Rightarrow> (nat \<Rightarrow> nat) \<Rightarrow> nat \<Rightarrow> nat" where
  "conv m f g n = xsum (\<lambda>j. m (f j) (g (n - j))) (Suc n)"

text \<open>The Euler operator multiplies the coefficient of degree \<open>n\<close> by \<open>n\<close>.\<close>

definition euler :: "(nat \<Rightarrow> nat) \<Rightarrow> nat \<Rightarrow> nat" where
  "euler f n = (if odd n then f n else 0)"

definition addf :: "(nat \<Rightarrow> nat) \<Rightarrow> (nat \<Rightarrow> nat) \<Rightarrow> nat \<Rightarrow> nat" where
  "addf f g n = f n XOR g n"

definition onef :: "nat \<Rightarrow> nat" where
  "onef n = (if n = 0 then 1 else 0)"

text \<open>Degree at most \<open>d\<close>.\<close>

definition deg_le :: "(nat \<Rightarrow> nat) \<Rightarrow> nat \<Rightarrow> bool" where
  "deg_le f d \<longleftrightarrow> (\<forall>n > d. f n = 0)"

primrec fpow :: "(nat \<Rightarrow> nat \<Rightarrow> nat) \<Rightarrow> nat \<Rightarrow> nat \<Rightarrow> nat" where
  "fpow m x 0 = 1"
| "fpow m x (Suc n) = m x (fpow m x n)"

text \<open>The value of a polynomial of degree below \<open>n\<close>.\<close>

definition evalf :: "(nat \<Rightarrow> nat \<Rightarrow> nat) \<Rightarrow> (nat \<Rightarrow> nat) \<Rightarrow> nat \<Rightarrow> nat \<Rightarrow> nat" where
  "evalf m f n x = xsum (\<lambda>j. m (f j) (fpow m x j)) n"

definition linf :: "nat \<Rightarrow> nat \<Rightarrow> nat \<Rightarrow> nat" where
  "linf a b n = (if n = 0 then a else if n = 1 then b else 0)"

definition monf :: "nat \<Rightarrow> nat \<Rightarrow> nat \<Rightarrow> nat" where
  "monf e k n = (if n = k then e else 0)"

text \<open>The error in the key equation \<open>g * s = X g'\<close> of the locators for the power sums \<open>s\<close>.\<close>

definition keyf :: "(nat \<Rightarrow> nat \<Rightarrow> nat) \<Rightarrow> (nat \<Rightarrow> nat) \<Rightarrow> (nat \<Rightarrow> nat) \<Rightarrow> nat \<Rightarrow> nat" where
  "keyf m s g = addf (conv m g s) (euler g)"

text \<open>
  The polynomial with constant term 1 whose roots are the inverses of the given
  elements, and the series of the power sums of these.
\<close>

primrec locator :: "(nat \<Rightarrow> nat \<Rightarrow> nat) \<Rightarrow> nat list \<Rightarrow> nat \<Rightarrow> nat" where
  "locator m [] = onef"
| "locator m (x # xs) = conv m (linf 1 x) (locator m xs)"

primrec psum :: "(nat \<Rightarrow> nat \<Rightarrow> nat) \<Rightarrow> nat list \<Rightarrow> nat \<Rightarrow> nat" where
  "psum m [] = (\<lambda>_. 0)"
| "psum m (x # xs) = addf (\<lambda>n. if n = 0 then 0 else fpow m x n) (psum m xs)"

lemma euler_addf: "euler (addf f g) = addf (euler f) (euler g)"
  by (simp add: euler_def addf_def fun_eq_iff)

lemma euler_idem [simp]: "euler (euler f) = euler f"
  by (simp add: euler_def fun_eq_iff)

lemma addf_simps: "addf f g = addf g f" "addf (addf f g) h = addf f (addf g h)" "addf f (addf g h) = addf g (addf f h)"
  by (simp_all add: addf_def xor_simps fun_eq_iff)

lemma addf_self: "addf f f = (\<lambda>_. 0)" "addf f (addf f g) = g" "addf f (\<lambda>_. 0) = f"
  by (simp_all add: addf_def fun_eq_iff xor.assoc [symmetric])

context binary_field
begin

definition ser :: "'c \<Rightarrow> (nat \<Rightarrow> nat) \<Rightarrow> bool" where
  "ser c f \<longleftrightarrow> (\<forall>n. f n \<le> top c)"

lemma serD: "ser c f \<Longrightarrow> f n \<le> top c"
  by (simp add: ser_def)

lemma F_closed: "ok c \<Longrightarrow> (\<And>x. x \<in> A \<Longrightarrow> f x \<le> top c) \<Longrightarrow> xs.F f A \<le> top c"
  by (induction A rule: infinite_finite_induct) (simp_all add: xor_closed)

lemma mul_0: "ok c \<Longrightarrow> a \<le> top c \<Longrightarrow> mul c a 0 = 0"
  using mul_zero mul_commute [of c a 0] by simp

lemma mul_F:
  assumes "ok c" "a \<le> top c" "\<And>x. x \<in> A \<Longrightarrow> f x \<le> top c"
  shows "mul c a (xs.F f A) = xs.F (\<lambda>x. mul c a (f x)) A"
  using assms(3) by (induction A rule: infinite_finite_induct) (simp_all add: assms(1,2) mul_0 mul_xor_right F_closed)

lemma F_mul:
  assumes "ok c" "a \<le> top c" "\<And>x. x \<in> A \<Longrightarrow> f x \<le> top c"
  shows "mul c (xs.F f A) a = xs.F (\<lambda>x. mul c (f x) a) A"
  using assms(3) by (induction A rule: infinite_finite_induct) (simp_all add: assms(1,2) mul_zero mul_xor F_closed)

lemma conv_F: "conv (mul c) f g n = xs.F (\<lambda>j. mul c (f j) (g (n - j))) {..n}"
  by (simp add: conv_def xsum_F lessThan_Suc_atMost del: xsum.simps)

lemma ser_conv: "ok c \<Longrightarrow> ser c f \<Longrightarrow> ser c g \<Longrightarrow> ser c (conv (mul c) f g)"
  by (simp add: ser_def conv_F F_closed mul_closed)

lemma ser_addf: "ok c \<Longrightarrow> ser c f \<Longrightarrow> ser c g \<Longrightarrow> ser c (addf f g)"
  by (simp add: ser_def addf_def xor_closed)

lemma ser_euler: "ser c f \<Longrightarrow> ser c (euler f)"
  by (simp add: ser_def euler_def)

lemma ser_onef: "ok c \<Longrightarrow> ser c onef"
  using top_pos [of c] by (simp add: ser_def onef_def Suc_le_eq)

lemmas ser_intros = ser_conv ser_addf ser_euler ser_onef

lemma conv_commute:
  assumes "ok c" "ser c f" "ser c g"
  shows "conv (mul c) f g = conv (mul c) g f"
proof
  fix n
  have "xs.F (\<lambda>j. mul c (f j) (g (n - j))) {..n} = xs.F (\<lambda>j. mul c (f (n - j)) (g (n - (n - j)))) {..n}"
    by (rule xs.reindex_bij_witness [of _ "\<lambda>j. n - j" "\<lambda>j. n - j"]) auto
  also have "\<dots> = xs.F (\<lambda>j. mul c (g j) (f (n - j))) {..n}"
    by (rule xs.cong) (use assms in \<open>auto simp: mul_commute serD\<close>)
  finally show "conv (mul c) f g n = conv (mul c) g f n" by (simp add: conv_F)
qed

lemma conv_addf_right:
  assumes "ok c" "ser c f" "ser c g" "ser c h"
  shows "conv (mul c) f (addf g h) = addf (conv (mul c) f g) (conv (mul c) f h)"
  using assms by (simp add: fun_eq_iff conv_F addf_def mul_xor_right serD xs.distrib)

lemma conv_addf_left:
  assumes "ok c" "ser c f" "ser c g" "ser c h"
  shows "conv (mul c) (addf g h) f = addf (conv (mul c) g f) (conv (mul c) h f)"
  using assms by (simp add: fun_eq_iff conv_F addf_def mul_xor serD xs.distrib)

lemma conv_assoc:
  assumes "ok c" "ser c f" "ser c g" "ser c h"
  shows "conv (mul c) (conv (mul c) f g) h = conv (mul c) f (conv (mul c) g h)"
proof
  fix n
  let ?t = "\<lambda>i j. mul c (f i) (mul c (g j) (h (n - (i + j))))"
  have "conv (mul c) (conv (mul c) f g) h n = xs.F (\<lambda>k. xs.F (\<lambda>i. ?t i (k - i)) {..k}) {..n}"
    unfolding conv_F by (rule xs.cong) (use assms in \<open>simp_all add: F_mul mul_closed mul_assoc serD\<close>)
  also have "\<dots> = xs.F (\<lambda>(i, j). ?t i j) {(i, j). i + j \<le> n}"
    by (rule xs.triangle_reindex_eq [symmetric])
  also have "{(i, j). i + j \<le> n} = (SIGMA i:{..n}. {..n - i})" by auto
  also have "xs.F (\<lambda>(i, j). ?t i j) (SIGMA i:{..n}. {..n - i}) = xs.F (\<lambda>i. xs.F (?t i) {..n - i}) {..n}"
    by (rule xs.Sigma [symmetric]) auto
  also have "\<dots> = conv (mul c) f (conv (mul c) g h) n"
    unfolding conv_F by (rule xs.cong) (use assms in \<open>simp_all add: mul_F mul_closed serD diff_diff_left\<close>)
  finally show "conv (mul c) (conv (mul c) f g) h n = conv (mul c) f (conv (mul c) g h) n" .
qed

lemma conv_one: "ok c \<Longrightarrow> ser c f \<Longrightarrow> conv (mul c) onef f = f"
proof
  fix n assume a: "ok c" "ser c f"
  have "xs.F (\<lambda>j. mul c (onef j) (f (n - j))) {..n} = xs.F (\<lambda>j. if j = 0 then f n else 0) {..n}"
    by (rule xs.cong) (use a mul_one [of c "f n"] in \<open>auto simp: onef_def mul_zero serD\<close>)
  then show "conv (mul c) onef f n = f n" by (simp add: conv_F xs.delta)
qed

text \<open>The product rule.\<close>

lemma euler_conv:
  assumes "ok c" "ser c f" "ser c g"
  shows "euler (conv (mul c) f g) = addf (conv (mul c) (euler f) g) (conv (mul c) f (euler g))"
proof
  fix n
  have t: "(if odd n then mul c (f j) (g (n - j)) else 0) = mul c (euler f j) (g (n - j)) XOR mul c (f j) (euler g (n - j))"
    if "j \<le> n" for j
    using that assms by (cases "odd j"; cases "odd n") (auto simp: euler_def mul_zero mul_0 serD)
  have "addf (conv (mul c) (euler f) g) (conv (mul c) f (euler g)) n =
      xs.F (\<lambda>j. if odd n then mul c (f j) (g (n - j)) else 0) {..n}"
    unfolding addf_def conv_F xs.distrib [symmetric] by (rule xs.cong) (simp_all add: t)
  then show "euler (conv (mul c) f g) n = addf (conv (mul c) (euler f) g) (conv (mul c) f (euler g)) n"
    by (simp add: euler_def conv_F)
qed

lemma deg_le_conv:
  assumes "ok c" "ser c f" "ser c g" "deg_le f a" "deg_le g b"
  shows "deg_le (conv (mul c) f g) (a + b)"
  unfolding deg_le_def
proof (intro allI impI)
  fix n assume n: "a + b < n"
  have "mul c (f j) (g (n - j)) = 0" for j
  proof (cases "j \<le> a")
    case True
    then have "g (n - j) = 0" using n assms(5) by (simp add: deg_le_def)
    then show ?thesis using assms by (simp add: mul_0 serD)
  next
    case False
    then have "f j = 0" using assms(4) by (simp add: deg_le_def)
    then show ?thesis using assms by (simp add: mul_zero serD)
  qed
  then show "conv (mul c) f g n = 0" by (simp add: conv_F)
qed

section \<open>Evaluation\<close>

lemma fpow_closed: "ok c \<Longrightarrow> x \<le> top c \<Longrightarrow> fpow (mul c) x n \<le> top c"
  by (induction n) (simp_all add: mul_closed Suc_leI top_pos)

lemma fpow_add:
  assumes "ok c" "x \<le> top c"
  shows "fpow (mul c) x (i + j) = mul c (fpow (mul c) x i) (fpow (mul c) x j)"
  using assms mul_one [of c] by (induction i) (simp_all add: mul_assoc fpow_closed)

lemma evalf_F: "evalf (mul c) f n x = xs.F (\<lambda>j. mul c (f j) (fpow (mul c) x j)) {..<n}"
  by (simp add: evalf_def xsum_F)

lemma evalf_closed: "ok c \<Longrightarrow> ser c f \<Longrightarrow> x \<le> top c \<Longrightarrow> evalf (mul c) f n x \<le> top c"
  by (simp add: evalf_F F_closed mul_closed serD fpow_closed)

lemma evalf_addf:
  assumes "ok c" "ser c f" "ser c g" "x \<le> top c"
  shows "evalf (mul c) (addf f g) n x = evalf (mul c) f n x XOR evalf (mul c) g n x"
  using assms by (simp add: evalf_F addf_def mul_xor serD fpow_closed xs.distrib)

lemma evalf_extend:
  assumes "ok c" "deg_le f d" "d < n" "x \<le> top c"
  shows "evalf (mul c) f n x = evalf (mul c) f (Suc d) x"
  unfolding evalf_F
  by (rule xs.mono_neutral_right) (use assms in \<open>auto simp: deg_le_def mul_zero fpow_closed\<close>)

lemma evalf_conv:
  assumes c: "ok c" and s: "ser c f" "ser c g" and d: "deg_le f a" "deg_le g b" and x: "x \<le> top c"
  shows "evalf (mul c) (conv (mul c) f g) (Suc (a + b)) x = mul c (evalf (mul c) f (Suc a) x) (evalf (mul c) g (Suc b) x)"
proof -
  let ?p = "fpow (mul c) x"
  let ?t = "\<lambda>i j. mul c (mul c (f i) (?p i)) (mul c (g j) (?p j))"
  have t: "mul c (mul c (f i) (g j)) (?p (i + j)) = ?t i j" for i j
    using c s x mul_commute [of c "g j" "?p i"] mul_assoc [of c "g j" "?p i" "?p j"] mul_assoc [of c "?p i" "g j" "?p j"]
    by (simp add: fpow_add mul_assoc mul_closed fpow_closed serD)
  have z: "?t i j = 0" if "\<not> i \<le> a \<or> \<not> j \<le> b" for i j
  proof (cases "i \<le> a")
    case True
    then have "g j = 0" using that d(2) by (simp add: deg_le_def)
    then show ?thesis using c s x by (simp add: mul_zero mul_0 mul_closed fpow_closed serD)
  next
    case False
    then have "f i = 0" using d(1) by (simp add: deg_le_def)
    then show ?thesis using c s x by (simp add: mul_zero mul_closed fpow_closed serD)
  qed
  have "evalf (mul c) (conv (mul c) f g) (Suc (a + b)) x = xs.F (\<lambda>k. xs.F (\<lambda>i. ?t i (k - i)) {..k}) {..a + b}"
    unfolding evalf_F conv_F lessThan_Suc_atMost
  proof (rule xs.cong)
    fix k
    show "mul c (xs.F (\<lambda>i. mul c (f i) (g (k - i))) {..k}) (?p k) = xs.F (\<lambda>i. ?t i (k - i)) {..k}"
      using c s x by (subst F_mul) (auto simp: mul_closed fpow_closed serD t [symmetric] intro: xs.cong)
  qed simp
  also have "\<dots> = xs.F (\<lambda>(i, j). ?t i j) {(i, j). i + j \<le> a + b}"
    by (rule xs.triangle_reindex_eq [symmetric])
  also have "\<dots> = xs.F (\<lambda>(i, j). ?t i j) ({..a} \<times> {..b})"
  proof (rule xs.mono_neutral_right)
    show "finite {(i, j). i + j \<le> a + b}"
      by (rule finite_subset [of _ "{..a + b} \<times> {..a + b}"]) auto
    show "\<forall>ij \<in> {(i, j). i + j \<le> a + b} - {..a} \<times> {..b}. (case ij of (i, j) \<Rightarrow> ?t i j) = 0"
    proof
      fix ij assume "ij \<in> {(i, j). i + j \<le> a + b} - {..a} \<times> {..b}"
      then show "(case ij of (i, j) \<Rightarrow> ?t i j) = 0" using z [of "fst ij" "snd ij"] by (cases ij) auto
    qed
  qed auto
  also have "\<dots> = xs.F (\<lambda>i. xs.F (?t i) {..b}) {..a}" by (rule xs.cartesian_product [symmetric])
  also have "\<dots> = mul c (evalf (mul c) f (Suc a) x) (evalf (mul c) g (Suc b) x)"
    unfolding evalf_F lessThan_Suc_atMost
    using c s x by (simp add: F_mul mul_F F_closed mul_closed fpow_closed serD) (rule xs.swap)
  finally show ?thesis .
qed

section \<open>Roots\<close>

lemma ser_linf: "a \<le> top c \<Longrightarrow> b \<le> top c \<Longrightarrow> ser c (linf a b)"
  by (simp add: ser_def linf_def)

lemma deg_le_linf: "deg_le (linf a b) 1"
  by (simp add: deg_le_def linf_def)

lemma conv_linf:
  assumes "ok c" "ser c f" "a \<le> top c" "b \<le> top c"
  shows "conv (mul c) (linf a b) f n = mul c a (f n) XOR (if n = 0 then 0 else mul c b (f (n - 1)))"
proof -
  have "xs.F (\<lambda>j. mul c (linf a b j) (f (n - j))) {..n} = xs.F (\<lambda>j. mul c (linf a b j) (f (n - j))) ({..n} \<inter> {0, 1})"
    by (rule xs.mono_neutral_right) (use assms in \<open>auto simp: linf_def mul_zero serD\<close>)
  moreover have "{..n} \<inter> {0, 1} = (if n = 0 then {0} else {0, 1})" by auto
  ultimately show ?thesis by (simp add: conv_F linf_def)
qed

lemma evalf_linf:
  assumes "ok c" "a \<le> top c" "b \<le> top c" "x \<le> top c"
  shows "evalf (mul c) (linf a b) 2 x = a XOR mul c b x"
proof -
  have "mul c a 1 = a" "mul c x 1 = x" using assms mul_one mul_commute [of c _ 1] top_pos [of c] by (simp_all add: Suc_leI)
  then show ?thesis by (simp add: evalf_def linf_def numeral_2_eq_2)
qed

text \<open>Synthetic division by \<open>X + r\<close>.\<close>

primrec horner :: "'c \<Rightarrow> (nat \<Rightarrow> nat) \<Rightarrow> nat \<Rightarrow> nat \<Rightarrow> nat \<Rightarrow> nat" where
  "horner c f d r 0 = 0"
| "horner c f d r (Suc k) = f (d - k) XOR mul c r (horner c f d r k)"

lemma horner_closed: "ok c \<Longrightarrow> ser c f \<Longrightarrow> r \<le> top c \<Longrightarrow> horner c f d r k \<le> top c"
  by (induction k) (simp_all add: xor_closed mul_closed serD)

lemma horner_value:
  assumes "ok c" "ser c f" "r \<le> top c" "k \<le> Suc d"
  shows "mul c (fpow (mul c) r (Suc d - k)) (horner c f d r k) =
         xs.F (\<lambda>j. mul c (f j) (fpow (mul c) r j)) {Suc d - k..<Suc d}"
  using assms(4)
proof (induction k)
  case 0
  then show ?case using assms by (simp add: mul_0 mul_closed fpow_closed)
next
  case (Suc k)
  let ?p = "fpow (mul c) r"
  have e: "Suc d - k = Suc (d - k)" "{d - k..<Suc d} = insert (d - k) {Suc (d - k)..<Suc d}" using Suc.prems by auto
  have "mul c (?p (d - k)) (mul c r (horner c f d r k)) = mul c (?p (Suc d - k)) (horner c f d r k)"
    using assms e(1) mul_commute [of c r "?p (d - k)"]
    by (simp add: mul_assoc [symmetric] horner_closed fpow_closed)
  then show ?case
    using Suc assms e mul_commute [of c "f (d - k)" "?p (d - k)"]
    by (simp add: mul_xor_right horner_closed mul_closed fpow_closed serD)
qed

lemma factor_root:
  assumes c: "ok c" and f: "ser c f" "deg_le f (Suc d)" and r: "r \<le> top c" "evalf (mul c) f (Suc (Suc d)) r = 0"
  obtains q where "ser c q" "deg_le q d" "f = conv (mul c) (linf r 1) q"
proof
  let ?q = "\<lambda>n. horner c f (Suc d) r (Suc d - n)"
  have one: "1 \<le> top c" using top_pos [OF c] by simp
  show q: "ser c ?q" using c f r by (simp add: ser_def horner_closed)
  show "deg_le ?q d" by (simp add: deg_le_def)
  show "f = conv (mul c) (linf r 1) ?q"
  proof
    fix n
    have v: "conv (mul c) (linf r 1) ?q n = mul c r (?q n) XOR (if n = 0 then 0 else ?q (n - 1))"
      using conv_linf [OF c q r(1) one, of n] mul_one [OF c horner_closed [OF c f(1) r(1)]] by simp
    show "f n = conv (mul c) (linf r 1) ?q n"
    proof (cases "n = 0")
      case True
      have z: "mul c r (horner c f (Suc d) r (Suc d)) = f 0"
      proof -
        have "f 0 XOR mul c r (horner c f (Suc d) r (Suc d)) = horner c f (Suc d) r (Suc (Suc d))" by simp
        also have "\<dots> = 0"
          using horner_value [OF c f(1) r(1), of "Suc (Suc d)" "Suc d"] r(2) mul_one [OF c horner_closed [OF c f(1) r(1)]]
          by (simp add: evalf_F lessThan_atLeast0 del: horner.simps)
        finally show ?thesis by (simp add: xor_eq_0_iff)
      qed
      then show ?thesis using v True by simp
    next
      case False
      then obtain k where n: "n = Suc k" by (cases n) auto
      show ?thesis
      proof (cases "n \<le> Suc d")
        case True
        then have "Suc d - k = Suc (Suc d - n)" "Suc d - (Suc d - n) = n" using n by auto
        then show ?thesis using v n by (simp add: xor_simps)
      next
        case False
        then show ?thesis using v n f(2) c r by (simp add: deg_le_def mul_0)
      qed
    qed
  qed
qed

lemma roots_bound:
  assumes c: "ok c"
  shows "ser c f \<Longrightarrow> deg_le f d \<Longrightarrow> finite R \<Longrightarrow> d < card R \<Longrightarrow>
    (\<And>r. r \<in> R \<Longrightarrow> r \<le> top c \<and> evalf (mul c) f (Suc d) r = 0) \<Longrightarrow> f = (\<lambda>_. 0)"
proof (induction d arbitrary: f R)
  case 0
  then obtain r where "r \<in> R" by fastforce
  then have "mul c (f 0) 1 = 0" using "0.prems"(5) [of r] by (simp add: evalf_def)
  then have "f 0 = 0" using mul_eq_0_iff [OF c serD [OF "0.prems"(1)], of 1 0] top_pos [OF c] by simp
  then show ?case using "0.prems"(2) by (auto simp: deg_le_def fun_eq_iff) (metis gr0I)
next
  case (Suc d)
  then obtain r where r: "r \<in> R" by fastforce
  have one: "1 \<le> top c" using top_pos [OF c] by simp
  obtain q where q: "ser c q" "deg_le q d" "f = conv (mul c) (linf r 1) q"
    using factor_root [OF c Suc.prems(1,2)] Suc.prems(5) [OF r] by blast
  have "q = (\<lambda>_. 0)"
  proof (rule Suc.IH [OF q(1,2), of "R - {r}"])
    show "finite (R - {r})" "d < card (R - {r})" using Suc.prems(3,4) r by simp_all
    fix s assume s: "s \<in> R - {r}"
    then have sc: "s \<le> top c" and ev: "evalf (mul c) f (Suc (Suc d)) s = 0" using Suc.prems(5) by auto
    have "r \<le> top c" using Suc.prems(5) [OF r] by simp
    then have "mul c (r XOR s) (evalf (mul c) q (Suc d) s) = 0"
      using evalf_conv [OF c ser_linf q(1) deg_le_linf q(2) sc, of r 1] ev q(3) evalf_linf [OF c _ one sc, of r] mul_one [OF c sc] one
      by (simp add: numeral_2_eq_2)
    then show "s \<le> top c \<and> evalf (mul c) q (Suc d) s = 0"
      using mul_eq_0_iff [OF c xor_closed [OF c \<open>r \<le> top c\<close> sc] evalf_closed [OF c q(1) sc]] s sc
      by (auto simp: xor_eq_0_iff)
  qed
  then show ?case using q(3) c one Suc.prems(5) [OF r] by (simp add: conv_F fun_eq_iff mul_0 serD [OF ser_linf])
qed

section \<open>Locators and power sums\<close>

definition elems :: "'c \<Rightarrow> nat list \<Rightarrow> bool" where
  "elems c xs \<longleftrightarrow> (\<forall>x \<in> set xs. x \<le> top c \<and> x \<noteq> 0)"

lemma elems_Cons: "elems c (x # xs) \<longleftrightarrow> x \<le> top c \<and> x \<noteq> 0 \<and> elems c xs"
  by (auto simp: elems_def)

lemma one_le: "ok c \<Longrightarrow> 1 \<le> top c"
  using top_pos [of c] by simp

lemma ser_locator: "ok c \<Longrightarrow> elems c xs \<Longrightarrow> ser c (locator (mul c) xs)"
  using one_le by (induction xs) (auto simp: ser_onef elems_Cons intro!: ser_conv ser_linf)

lemma ser_psum: "ok c \<Longrightarrow> elems c xs \<Longrightarrow> ser c (psum (mul c) xs)"
  by (induction xs) (auto simp: elems_Cons ser_def addf_def intro!: xor_closed fpow_closed)

lemma deg_le_locator: "ok c \<Longrightarrow> elems c xs \<Longrightarrow> deg_le (locator (mul c) xs) (length xs)"
proof (induction xs)
  case (Cons x xs)
  then show ?case
    using deg_le_conv [of c "linf 1 x" "locator (mul c) xs" 1 "length xs"] one_le [of c]
    by (simp add: elems_Cons ser_linf deg_le_linf [unfolded One_nat_def] ser_locator)
qed (simp add: deg_le_def onef_def)

lemma locator_0: "ok c \<Longrightarrow> elems c xs \<Longrightarrow> locator (mul c) xs 0 = 1"
proof (induction xs)
  case (Cons x xs)
  then show ?case
    using conv_linf [of c "locator (mul c) xs" 1 x 0] one_le [of c] mul_one [of c 1] by (simp add: elems_Cons ser_locator)
qed (simp add: onef_def)

lemma inv_nz: "ok c \<Longrightarrow> x \<le> top c \<Longrightarrow> x \<noteq> 0 \<Longrightarrow> inv c x \<noteq> 0"
  using mul_inv [of c x] mul_0 [of c x] by (intro notI) simp

lemma inv_inj_on:
  assumes c: "ok c"
  shows "inj_on (inv c) {x. x \<le> top c \<and> x \<noteq> 0}"
proof (rule inj_onI)
  fix x y assume "x \<in> {x. x \<le> top c \<and> x \<noteq> 0}" "y \<in> {x. x \<le> top c \<and> x \<noteq> 0}" and eq: "inv c x = inv c y"
  then have xy: "x \<le> top c" "x \<noteq> 0" "y \<le> top c" "y \<noteq> 0" by auto
  have i: "inv c x \<le> top c" by (rule inv_closed [OF c xy(1,2)])
  have "mul c (inv c x) x = mul c (inv c x) y"
    using mul_inv [OF c xy(1,2)] mul_inv [OF c xy(3,4)] eq mul_commute [OF c i] xy by simp
  then show "x = y" by (rule mul_left_cancel [OF c i inv_nz [OF c xy(1,2)] xy(1,3)])
qed

text \<open>Newton's identities.\<close>

lemma newton:
  assumes c: "ok c"
  shows "elems c xs \<Longrightarrow> conv (mul c) (locator (mul c) xs) (psum (mul c) xs) = euler (locator (mul c) xs)"
proof (induction xs)
  case Nil
  then show ?case by (simp add: conv_F fun_eq_iff euler_def onef_def mul_0 [OF c] one_le [OF c, simplified])
next
  case (Cons x xs)
  let ?m = "mul c" and ?L = "locator (mul c) xs" and ?S = "psum (mul c) xs" and ?l = "linf 1 x"
  let ?p = "\<lambda>n. if n = 0 then 0 else fpow (mul c) x n"
  have x: "x \<le> top c" "elems c xs" using Cons.prems by (auto simp: elems_Cons)
  note s = ser_locator [OF c x(2)] ser_psum [OF c x(2)] ser_linf [OF one_le [OF c] x(1)]
  have sp: "ser c ?p" using c x by (simp add: ser_def fpow_closed)
  have lp: "conv ?m ?l ?p = euler ?l"
    using conv_linf [OF c sp one_le [OF c] x(1)] mul_one [OF c] c x mul_commute [OF c x(1) one_le [OF c]]
    by (auto simp: fun_eq_iff euler_def linf_def fpow_closed mul_0 gr0_conv_Suc)
  have "conv ?m (conv ?m ?l ?L) (addf ?p ?S) = addf (conv ?m (conv ?m ?l ?p) ?L) (conv ?m ?l (conv ?m ?L ?S))"
    using c s sp conv_commute [OF c s(1) sp]
    by (simp add: conv_addf_right conv_assoc ser_intros)
  also have "\<dots> = euler (conv ?m ?l ?L)"
    using c s by (simp add: lp Cons.IH [OF x(2)] euler_conv del: One_nat_def)
  finally show ?case by simp
qed

text \<open>The value of a locator, and of its image under the Euler operator, at the inverse of one of its elements.\<close>

lemma evalf_locator_Cons:
  assumes c: "ok c" and e: "elems c (y # ys)" and r: "r \<le> top c"
  shows "evalf (mul c) (locator (mul c) (y # ys)) (Suc (Suc (length ys))) r =
      mul c (1 XOR mul c y r) (evalf (mul c) (locator (mul c) ys) (Suc (length ys)) r)"
    and "evalf (mul c) (euler (locator (mul c) (y # ys))) (Suc (Suc (length ys))) r =
      mul c (mul c y r) (evalf (mul c) (locator (mul c) ys) (Suc (length ys)) r) XOR
      mul c (1 XOR mul c y r) (evalf (mul c) (euler (locator (mul c) ys)) (Suc (length ys)) r)"
proof -
  have y: "y \<le> top c" "elems c ys" using e by (auto simp: elems_Cons)
  note o = one_le [OF c] and s = ser_locator [OF c y(2)] and d = deg_le_locator [OF c y(2)]
  have v: "evalf (mul c) (linf 1 y) 2 r = 1 XOR mul c y r" by (rule evalf_linf [OF c o y(1) r])
  have ve: "evalf (mul c) (euler (linf 1 y)) 2 r = mul c y r"
    using evalf_linf [OF c _ y(1) r, of 0] by (simp add: euler_def linf_def evalf_def numeral_2_eq_2 mul_zero c fpow_closed r o [simplified])
  have dl: "deg_le (euler (linf 1 y)) (Suc 0)" "deg_le (euler (locator (mul c) ys)) (length ys)"
    using d by (simp_all add: deg_le_def euler_def linf_def)
  note ev = evalf_conv [where a = 1 and b = "length ys", OF c _ _ _ _ r, simplified, folded numeral_2_eq_2]
  show "evalf (mul c) (locator (mul c) (y # ys)) (Suc (Suc (length ys))) r =
      mul c (1 XOR mul c y r) (evalf (mul c) (locator (mul c) ys) (Suc (length ys)) r)"
    using ev [OF ser_linf [OF o y(1)] s deg_le_linf [simplified] d] v by simp
  show "evalf (mul c) (euler (locator (mul c) (y # ys))) (Suc (Suc (length ys))) r =
      mul c (mul c y r) (evalf (mul c) (locator (mul c) ys) (Suc (length ys)) r) XOR
      mul c (1 XOR mul c y r) (evalf (mul c) (euler (locator (mul c) ys)) (Suc (length ys)) r)"
    using ev [OF ser_linf [OF o y(1)] ser_euler [OF s] deg_le_linf [simplified] dl(2)]
      ev [OF ser_euler [OF ser_linf [OF o y(1)]] s dl(1) d] v ve
    by (simp add: euler_conv [OF c ser_linf [OF o y(1)] s, simplified] evalf_addf c r s ser_intros ser_linf o [simplified] y)
qed

lemma locator_root_iff:
  assumes c: "ok c" and r: "r \<le> top c"
  shows "elems c xs \<Longrightarrow> evalf (mul c) (locator (mul c) xs) (Suc (length xs)) r = 0 \<longleftrightarrow> (\<exists>x \<in> set xs. mul c x r = 1)"
proof (induction xs)
  case Nil
  then show ?case using mul_one [OF c one_le [OF c]] by (simp add: evalf_def onef_def)
next
  case (Cons x xs)
  then have "x \<le> top c" "elems c xs" by (auto simp: elems_Cons)
  then have "mul c x r \<le> top c" "evalf (mul c) (locator (mul c) xs) (Suc (length xs)) r \<le> top c"
    using c r by (simp_all add: mul_closed evalf_closed ser_locator)
  then show ?case
    using evalf_locator_Cons(1) [OF c Cons.prems r] Cons.IH [OF \<open>elems c xs\<close>] xor_closed [OF c one_le [OF c]]
    by (auto simp: mul_eq_0_iff c xor_eq_0_iff)
qed

lemma locator_simple_root:
  assumes c: "ok c" and r: "r \<le> top c" "mul c x r = 1"
  shows "elems c xs \<Longrightarrow> distinct xs \<Longrightarrow> x \<in> set xs \<Longrightarrow> evalf (mul c) (euler (locator (mul c) xs)) (Suc (length xs)) r \<noteq> 0"
proof (induction xs)
  case (Cons y ys)
  have y: "y \<le> top c" "elems c ys" using Cons.prems by (auto simp: elems_Cons)
  have x: "x \<le> top c" using Cons.prems by (auto simp: elems_def)
  have "r \<noteq> 0" using r(2) mul_0 [OF c x] by (intro notI) simp
  then have u: "mul c z r = 1 \<longleftrightarrow> z = x" if "z \<le> top c" for z
    using mul_left_cancel [OF c r(1) _ that x] r that x c by (auto simp: mul_commute [OF c _ r(1)])
  let ?M = "evalf (mul c) (locator (mul c) ys) (Suc (length ys)) r"
  let ?E = "evalf (mul c) (euler (locator (mul c) ys)) (Suc (length ys)) r"
  have cl: "?M \<le> top c" "?E \<le> top c" using c y r by (simp_all add: evalf_closed ser_locator ser_euler)
  have M: "?M = 0 \<longleftrightarrow> x \<in> set ys" using locator_root_iff [OF c r(1) y(2)] u y(2) by (auto simp: elems_def)
  note e = evalf_locator_Cons(2) [OF c Cons.prems(1) r(1)]
  show ?case
  proof (cases "y = x")
    case True
    then show ?thesis using e M Cons.prems r(2) mul_one [OF c cl(1)] mul_zero [OF c cl(2)] by simp
  next
    case False
    then have "x \<in> set ys" "1 XOR mul c y r \<noteq> 0" using Cons.prems u [OF y(1)] by (auto simp: xor_eq_0_iff)
    moreover have "?E \<noteq> 0" using Cons.IH y(2) Cons.prems \<open>x \<in> set ys\<close> by simp
    moreover have "1 XOR mul c y r \<le> top c" using c y r by (intro xor_closed mul_closed one_le)
    moreover have "mul c y r \<le> top c" using c y r by (simp add: mul_closed)
    ultimately show ?thesis using e M by (simp add: mul_eq_0_iff c cl mul_0 del: One_nat_def)
  qed
qed simp

section \<open>The key equation\<close>

lemma ser_keyf: "ok c \<Longrightarrow> ser c s \<Longrightarrow> ser c g \<Longrightarrow> ser c (keyf (mul c) s g)"
  unfolding keyf_def by (intro ser_intros)

lemma keyf_addf:
  assumes "ok c" "ser c s" "ser c g" "ser c h"
  shows "keyf (mul c) s (addf g h) = addf (keyf (mul c) s g) (keyf (mul c) s h)"
  using assms by (simp add: keyf_def conv_addf_left euler_addf addf_simps)

lemma ser_monf: "e \<le> top c \<Longrightarrow> ser c (monf e k)"
  by (simp add: ser_def monf_def)

lemma conv_monf:
  assumes "ok c" "ser c f" "e \<le> top c"
  shows "conv (mul c) (monf e k) f n = (if n < k then 0 else mul c e (f (n - k)))"
proof -
  have "xs.F (\<lambda>j. mul c (monf e k j) (f (n - j))) {..n} = xs.F (\<lambda>j. if j = k then mul c e (f (n - k)) else 0) {..n}"
    by (rule xs.cong) (use assms in \<open>auto simp: monf_def mul_zero serD\<close>)
  then show ?thesis by (simp add: conv_F xs.delta not_less)
qed

lemma keyf_monf:
  assumes "ok c" "ser c s" "ser c f" "e \<le> top c"
  shows "keyf (mul c) s (conv (mul c) (monf e k) f) =
    addf (conv (mul c) (monf e k) (keyf (mul c) s f)) (if odd k then conv (mul c) (monf e k) f else (\<lambda>_. 0))"
proof -
  have "euler (monf e k) = (if odd k then monf e k else (\<lambda>_. 0))" by (auto simp: euler_def monf_def fun_eq_iff)
  moreover have "conv (mul c) (\<lambda>_. 0) f = (\<lambda>_. 0)" using assms by (simp add: conv_F fun_eq_iff mul_zero serD)
  ultimately show ?thesis
    using assms by (simp add: keyf_def euler_conv ser_monf conv_assoc conv_addf_right ser_intros addf_simps)
qed

lemma conv_low: "ok c \<Longrightarrow> ser c f \<Longrightarrow> (\<And>j. j < n \<Longrightarrow> g j = 0) \<Longrightarrow> conv (mul c) f g n = mul c (f 0) (g n)"
proof -
  assume a: "ok c" "ser c f" "\<And>j. j < n \<Longrightarrow> g j = 0"
  have "xs.F (\<lambda>j. mul c (f j) (g (n - j))) {..n} = xs.F (\<lambda>j. if j = 0 then mul c (f 0) (g n) else 0) {..n}"
    by (rule xs.cong) (use a in \<open>auto simp: mul_0 serD\<close>)
  then show ?thesis by (simp add: conv_F xs.delta)
qed

text \<open>With the locator of the elements whose power sums are given, the error becomes a derivative.\<close>

lemma key_locator:
  assumes c: "ok c" and e: "elems c xs" and g: "ser c g"
  shows "conv (mul c) (locator (mul c) xs) (keyf (mul c) (psum (mul c) xs) g) = euler (conv (mul c) g (locator (mul c) xs))"
proof -
  let ?m = "mul c" and ?L = "locator (mul c) xs" and ?S = "psum (mul c) xs"
  note s = ser_locator [OF c e] ser_psum [OF c e]
  have "conv ?m ?L (conv ?m g ?S) = conv ?m g (conv ?m ?L ?S)"
    using c s g conv_commute [OF c s(1) g] conv_assoc [OF c s(1) g s(2)] conv_assoc [OF c g s(1) s(2)] by simp
  then show ?thesis
    using c s g conv_commute [OF c s(1) ser_euler [OF g]]
    by (simp add: keyf_def conv_addf_right ser_intros newton [OF c e] euler_conv addf_simps)
qed

lemma key_low:
  assumes "ok c" "elems c xs" "ser c g" "\<And>j. j < n \<Longrightarrow> keyf (mul c) (psum (mul c) xs) g j = 0"
  shows "keyf (mul c) (psum (mul c) xs) g n = euler (conv (mul c) g (locator (mul c) xs)) n"
  using conv_low [of c "locator (mul c) xs" n "keyf (mul c) (psum (mul c) xs) g"] assms mul_one [of c] ser_locator [OF assms(1,2)]
  by (simp add: key_locator locator_0 serD ser_keyf ser_psum)

lemma key_even:
  assumes "ok c" "elems c xs" "ser c g" "\<And>j. j < n \<Longrightarrow> keyf (mul c) (psum (mul c) xs) g j = 0" "even n"
  shows "keyf (mul c) (psum (mul c) xs) g n = 0"
  using key_low [OF assms(1-4)] assms(5) by (simp add: euler_def)

lemma key_degree:
  assumes "ok c" "elems c xs" "ser c g" "\<And>j. j < n \<Longrightarrow> keyf (mul c) (psum (mul c) xs) g j = 0"
    and "keyf (mul c) (psum (mul c) xs) g n \<noteq> 0" "deg_le g d"
  shows "n \<le> d + length xs"
proof -
  have "conv (mul c) g (locator (mul c) xs) n \<noteq> 0"
    using key_low [OF assms(1-4)] assms(5) by (auto simp: euler_def split: if_splits)
  then show ?thesis
    using deg_le_conv [OF assms(1,3) ser_locator [OF assms(1,2)] assms(6) deg_le_locator [OF assms(1,2)]]
    by (meson deg_le_def not_le)
qed

lemma key_unique:
  assumes c: "ok c" and e: "elems c xs" "distinct xs" and g: "ser c g" "g 0 = 1" "deg_le g (length xs)"
    and k: "\<And>n. n \<le> 2 * length xs \<Longrightarrow> keyf (mul c) (psum (mul c) xs) g n = 0"
  shows "g = locator (mul c) xs"
proof -
  let ?m = "mul c" and ?L = "locator (mul c) xs" and ?S = "psum (mul c) xs" and ?v = "length xs"
  note sL = ser_locator [OF c e(1)] and sS = ser_psum [OF c e(1)] and dL = deg_le_locator [OF c e(1)]
  define d where "d = addf g ?L"
  have d: "ser c d" "deg_le d ?v" "d 0 = 0"
    using c g sL dL locator_0 [OF c e(1)] by (auto simp: d_def ser_addf deg_le_def addf_def)
  have "keyf ?m ?S ?L = (\<lambda>_. 0)" by (simp add: keyf_def newton [OF c e(1)] addf_self)
  then have kd: "keyf ?m ?S d n = 0" if "n \<le> 2 * ?v" for n
    using keyf_addf [OF c sS g(1) sL] k [OF that] by (simp add: d_def addf_def)
  have dd: "deg_le (conv ?m d ?L) (2 * ?v)" using deg_le_conv [OF c d(1) sL d(2) dL] by (simp add: mult_2)
  have z: "euler (conv ?m d ?L) n = 0" for n
    using key_low [OF c e(1) d(1), of n] kd dd by (cases "n \<le> 2 * ?v") (auto simp: deg_le_def euler_def)
  have eq: "conv ?m (euler d) ?L = conv ?m d (euler ?L)"
    using euler_conv [OF c d(1) sL] z by (auto simp: fun_eq_iff addf_def xor_eq_0_iff)
  have root: "evalf ?m d (Suc ?v) r = 0" if x: "x \<in> set xs" and r: "r \<le> top c" "?m x r = 1" for x r
  proof -
    have dE: "deg_le (euler ?L) ?v" "deg_le (euler d) ?v" using dL d(2) by (simp_all add: deg_le_def euler_def)
    have "evalf ?m ?L (Suc ?v) r = 0" using locator_root_iff [OF c r(1) e(1)] x r(2) by blast
    then have "?m (evalf ?m d (Suc ?v) r) (evalf ?m (euler ?L) (Suc ?v) r) = 0"
      using evalf_conv [OF c d(1) ser_euler [OF sL] d(2) dE(1) r(1)] evalf_conv [OF c ser_euler [OF d(1)] sL dE(2) dL r(1)]
      by (simp add: eq mul_0 c evalf_closed ser_euler d(1) r(1))
    then show ?thesis
      using locator_simple_root [OF c r e(1,2) x]
      by (simp add: mul_eq_0_iff c evalf_closed ser_euler d(1) sL r(1))
  qed
  let ?R = "insert 0 (inv c ` set xs)"
  have el: "x \<le> top c" "x \<noteq> 0" if "x \<in> set xs" for x using e(1) that by (auto simp: elems_def)
  have inj: "inj_on (inv c) (set xs)" by (rule inj_on_subset [OF inv_inj_on [OF c]]) (use el in auto)
  note nz = inv_nz [OF c el]
  have "d = (\<lambda>_. 0)"
  proof (rule roots_bound [OF c d(1,2), of ?R])
    show "?v < card ?R"
      using card_image [OF inj] distinct_card [OF e(2)] nz by (subst card_insert_disjoint) fastforce+
    fix r assume "r \<in> ?R"
    then consider "r = 0" | x where "x \<in> set xs" "r = inv c x" by auto
    then show "r \<le> top c \<and> evalf ?m d (Suc ?v) r = 0"
    proof cases
      case 1
      have "evalf ?m d (Suc ?v) 0 = 0"
        unfolding evalf_F
      proof (rule xs.neutral, rule ballI)
        fix j
        show "?m (d j) (fpow ?m 0 j) = 0"
          using c d by (cases j) (simp_all add: mul_zero mul_0 fpow_closed serD one_le [simplified])
      qed
      then show ?thesis using 1 by simp
    next
      case 2
      then show ?thesis using root [OF 2(1)] inv_closed [OF c el [OF 2(1)]] mul_inv [OF c el [OF 2(1)]] by simp
    qed
  qed simp
  then show ?thesis by (auto simp: d_def addf_def fun_eq_iff xor_eq_0_iff)
qed

section \<open>The binary Berlekamp-Massey algorithm\<close>

text \<open>
  The invariant before iteration \<open>i\<close>: \<open>g\<close> solves the key equation up to degree
  \<open>2 * i\<close> and its degree bound \<open>l\<close> does not exceed the number of elements;
  \<open>p\<close> is the polynomial before the last change of length, which failed with the
  discrepancy \<open>pd\<close> in iteration \<open>pp / 2\<close>, or 1 when there was none.
\<close>

definition bm_inv :: "'c \<Rightarrow> nat list \<Rightarrow> nat \<Rightarrow> (nat \<Rightarrow> nat) \<Rightarrow> nat \<Rightarrow> (nat \<Rightarrow> nat) \<Rightarrow> nat \<Rightarrow> int \<Rightarrow> nat \<Rightarrow> bool" where
  "bm_inv c xs i g l p lp pp pd \<longleftrightarrow>
     ser c g \<and> g 0 = 1 \<and> deg_le g l \<and> (\<forall>n \<le> 2 * i. keyf (mul c) (psum (mul c) xs) g n = 0) \<and> l \<le> length xs \<and>
     ser c p \<and> deg_le p lp \<and> pd \<le> top c \<and> pd \<noteq> 0 \<and> int l = pp + 1 - int lp \<and>
     (pp = -1 \<and> p = onef \<and> pd = 1 \<or>
      (\<exists>k < i. pp = 2 * int k \<and> (\<forall>n \<le> 2 * k. keyf (mul c) (psum (mul c) xs) p n = 0) \<and>
         keyf (mul c) (psum (mul c) xs) p (2 * k + 1) = pd))"

lemma psum_0 [simp]: "psum m xs 0 = 0"
  by (induction xs) (simp_all add: addf_def)

lemma keyf_onef: "ok c \<Longrightarrow> ser c s \<Longrightarrow> keyf (mul c) s onef = s"
proof -
  have "euler onef = (\<lambda>_. 0)" by (simp add: euler_def onef_def fun_eq_iff)
  then show "ok c \<Longrightarrow> ser c s \<Longrightarrow> keyf (mul c) s onef = s" by (simp add: keyf_def conv_one addf_self)
qed

lemma bm_inv_start: "ok c \<Longrightarrow> elems c xs \<Longrightarrow> bm_inv c xs 0 onef 0 onef 0 (-1) 1"
  using one_le [of c] by (simp add: bm_inv_def ser_onef keyf_onef ser_psum) (simp add: onef_def deg_le_def)

lemma bm_inv_length: "bm_inv c xs i g l p lp pp pd \<Longrightarrow> int l \<le> pp + 1 \<and> pp + 1 < 2 * int i + 1 \<and> - 1 \<le> pp"
  by (auto simp: bm_inv_def)

lemma bm_inv_zero:
  assumes "ok c" "elems c xs" "bm_inv c xs i g l p lp pp pd" "keyf (mul c) (psum (mul c) xs) g (2 * i + 1) = 0"
  shows "bm_inv c xs (Suc i) g l p lp pp pd"
proof -
  have z: "keyf (mul c) (psum (mul c) xs) g n = 0" if "n \<le> 2 * i + 1" for n
    using assms(3,4) that by (cases "n = 2 * i + 1") (auto simp: bm_inv_def)
  have "keyf (mul c) (psum (mul c) xs) g (2 * i + 2) = 0"
    by (rule key_even [OF assms(1,2)]) (use z assms(3) in \<open>auto simp: bm_inv_def\<close>)
  then have "keyf (mul c) (psum (mul c) xs) g n = 0" if "n \<le> 2 * Suc i" for n
    using z that by (cases "n = 2 * i + 2") auto
  then show ?thesis using assms(3) unfolding bm_inv_def using less_SucI by blast
qed

lemma bm_correction:
  assumes c: "ok c" and xs: "elems c xs" and inv: "bm_inv c xs i g l p lp pp pd" and e: "e \<le> top c"
  shows "n \<le> 2 * i \<Longrightarrow> keyf (mul c) (psum (mul c) xs) (conv (mul c) (monf e (nat (2 * int i - pp))) p) n = 0"
    and "keyf (mul c) (psum (mul c) xs) (conv (mul c) (monf e (nat (2 * int i - pp))) p) (2 * i + 1) = mul c e pd"
proof -
  let ?S = "psum (mul c) xs" and ?k = "nat (2 * int i - pp)"
  note s = ser_psum [OF c xs]
  have p: "ser c p" using inv by (simp add: bm_inv_def)
  have "(\<forall>n \<le> 2 * i. keyf (mul c) ?S (conv (mul c) (monf e ?k) p) n = 0) \<and>
      keyf (mul c) ?S (conv (mul c) (monf e ?k) p) (2 * i + 1) = mul c e pd"
  proof (cases "pp = -1 \<and> p = onef \<and> pd = 1")
    case True
    then have k: "?k = 2 * i + 1" by simp
    have "keyf (mul c) ?S (conv (mul c) (monf e (2 * i + 1)) onef) n =
        (if n < 2 * i + 1 then 0 else mul c e (?S (n - (2 * i + 1))) XOR mul c e (onef (n - (2 * i + 1))))" for n
      using keyf_monf [OF c s ser_onef [OF c] e, of "2 * i + 1"] conv_monf [OF c _ e, of _ "2 * i + 1"] ser_onef [OF c] s
      by (simp add: addf_def keyf_onef c)
    then show ?thesis using True k c e by (simp add: mul_0) (simp add: onef_def)
  next
    case False
    then obtain j where j: "j < i" "pp = 2 * int j" "\<forall>n \<le> 2 * j. keyf (mul c) ?S p n = 0" "keyf (mul c) ?S p (2 * j + 1) = pd"
      using inv by (auto simp: bm_inv_def)
    then have k: "?k = 2 * (i - j)" by simp
    have "keyf (mul c) ?S (conv (mul c) (monf e (2 * (i - j))) p) n =
        (if n < 2 * (i - j) then 0 else mul c e (keyf (mul c) ?S p (n - 2 * (i - j))))" for n
      using keyf_monf [OF c s p e, of "2 * (i - j)"] conv_monf [OF c ser_keyf [OF c s p] e, of "2 * (i - j)"]
      by (simp add: addf_def)
    moreover have "2 * i + 1 - 2 * (i - j) = 2 * j + 1" "\<not> 2 * i + 1 < 2 * (i - j)" "n \<le> 2 * i \<Longrightarrow> n - 2 * (i - j) \<le> 2 * j" for n using j(1) by auto
    ultimately show ?thesis using j k c e by (simp add: mul_0)
  qed
  then show "n \<le> 2 * i \<Longrightarrow> keyf (mul c) ?S (conv (mul c) (monf e ?k) p) n = 0"
    and "keyf (mul c) ?S (conv (mul c) (monf e ?k) p) (2 * i + 1) = mul c e pd" by auto
qed

lemma bm_inv_update:
  assumes c: "ok c" and xs: "elems c xs" and inv: "bm_inv c xs i g l p lp pp pd"
    and d: "d = keyf (mul c) (psum (mul c) xs) g (2 * i + 1)" "d \<noteq> 0" and e: "e \<le> top c" "mul c e pd = d"
  defines "k \<equiv> nat (2 * int i - pp)"
  defines "g' \<equiv> addf g (conv (mul c) (monf e k) p)"
  shows "bm_inv c xs (Suc i) g' (max l (lp + k))
     (if l < lp + k then g else p) (if l < lp + k then l else lp) (if l < lp + k then 2 * int i else pp) (if l < lp + k then d else pd)"
proof -
  let ?S = "psum (mul c) xs"
  note s = ser_psum [OF c xs]
  have g: "ser c g" "g 0 = 1" "deg_le g l" "ser c p" "deg_le p lp" "l \<le> length xs" "\<And>n. n \<le> 2 * i \<Longrightarrow> keyf (mul c) ?S g n = 0"
    using inv by (auto simp: bm_inv_def)
  have k: "0 < k" "int (lp + k) = 2 * int i + 1 - int l" using inv by (auto simp: bm_inv_def k_def)
  note cm = conv_monf [OF c g(4) e(1), of k]
  have ser: "ser c (conv (mul c) (monf e k) p)" by (intro ser_conv ser_monf c e g)
  have g': "ser c g'" "g' 0 = 1" "deg_le g' (max l (lp + k))"
    unfolding g'_def using c g ser k cm e by (auto simp: ser_addf addf_def deg_le_def mul_0)
  have dg: "2 * i + 1 \<le> l + length xs"
    by (rule key_degree [OF c xs g(1) _ _ g(3)]) (use d g(7) in auto)
  have z: "keyf (mul c) ?S g' n = 0" if "n \<le> 2 * i + 1" for n
    unfolding g'_def keyf_addf [OF c s g(1) ser]
    using bm_correction [OF c xs inv e(1), folded k_def] g(7) d(1) e(2) that by (cases "n = 2 * i + 1") (simp_all add: addf_def)
  have "keyf (mul c) ?S g' (2 * i + 2) = 0" by (rule key_even [OF c xs g'(1)]) (use z in auto)
  then have z2: "\<forall>n \<le> 2 * Suc i. keyf (mul c) ?S g' n = 0"
    using z by (metis add_2_eq_Suc' add_Suc_right le_SucE mult_Suc_right Suc_eq_plus1 add.commute)
  have dc: "d \<le> top c" using d(1) serD [OF ser_keyf [OF c s g(1)]] by simp
  show ?thesis
  proof (cases "l < lp + k")
    case True
    then show ?thesis
      using g' z2 k dg g d dc by (auto simp: bm_inv_def)
  next
    case False
    then show ?thesis
      using g' z2 inv less_SucI unfolding bm_inv_def by auto
  qed
qed

lemma bm_inv_final:
  assumes "ok c" "elems c xs" "distinct xs" "bm_inv c xs t g l p lp pp pd" "length xs \<le> t"
  shows "g = locator (mul c) xs"
proof (rule key_unique [OF assms(1-3)])
  show "ser c g" "g 0 = 1" using assms(4) by (auto simp: bm_inv_def)
  show "deg_le g (length xs)" using assms(4) by (auto simp: bm_inv_def deg_le_def)
  show "keyf (mul c) (psum (mul c) xs) g n = 0" if "n \<le> 2 * length xs" for n
    using assms(4,5) that by (auto simp: bm_inv_def)
qed

end

end
