(* ===== verification/Bch_Locator.thy ===== *)
theory Bch_Locator
  imports Bch_Series
begin

text \<open>
  \<open>compute_error_locator_polynomial\<close> of lib/bch.c finds the locator of every error
  pattern of at most \<open>t\<close> errors: the loop keeps the invariant \<open>gf.bm_inv\<close> of the
  binary Berlekamp-Massey algorithm.
\<close>

section \<open>Polynomials in arrays\<close>

definition pcoef :: "gf_poly \<Rightarrow> nat \<Rightarrow> nat" where
  "pcoef f n = (if n \<le> poly_deg f then poly_c f ! n else 0)"

lemma deg_le_pcoef: "deg_le (pcoef f) (poly_deg f)"
  by (simp add: deg_le_def pcoef_def)

lemma pcoef_copy:
  "poly_deg src < length (poly_c src) \<Longrightarrow> pcoef (gf_poly_copy dst src) = pcoef src"
  by (auto simp: gf_poly_copy_def pcoef_def fun_eq_iff nth_append)

lemma poly_deg_copy [simp]: "poly_deg (gf_poly_copy dst src) = poly_deg src"
  by (simp add: gf_poly_copy_def)

lemma length_copy:
  "length (poly_c src) = n \<Longrightarrow> length (poly_c dst) = n \<Longrightarrow> length (poly_c (gf_poly_copy dst src)) = n"
  by (auto simp: gf_poly_copy_def)

lemma fold_xor_F: "fold (\<lambda>j d. d XOR h j) [a..<b] x = x XOR xs.F h {a..<b}" for x :: nat
proof (induction b)
  case (Suc b)
  show ?case
  proof (cases "a \<le> b")
    case True
    then have "{a..<Suc b} = insert b {a..<b}" by auto
    with True Suc show ?thesis by (simp add: xor_simps)
  qed simp
qed simp

text \<open>Adding a multiple of a polynomial at an offset.\<close>

lemma fold_add_shifted:
  assumes "\<And>j. j < n \<Longrightarrow> j + k < length c"
  shows "length (fold (\<lambda>j c. if P j then c[j + k := c ! (j + k) XOR h j] else c) [0..<n] c) = length c \<and>
    (\<forall>i < length c. fold (\<lambda>j c. if P j then c[j + k := c ! (j + k) XOR h j] else c) [0..<n] c ! i =
       c ! i XOR (if k \<le> i \<and> i - k < n \<and> P (i - k) then h (i - k) else 0))"
  using assms
proof (induction n)
  case (Suc n)
  have IH: "length (fold (\<lambda>j c. if P j then c[j + k := c ! (j + k) XOR h j] else c) [0..<n] c) = length c"
    "\<And>i. i < length c \<Longrightarrow> fold (\<lambda>j c. if P j then c[j + k := c ! (j + k) XOR h j] else c) [0..<n] c ! i =
       c ! i XOR (if k \<le> i \<and> i - k < n \<and> P (i - k) then h (i - k) else 0)"
    using Suc.IH Suc.prems by auto
  have b: "n + k < length c" using Suc.prems by blast
  show ?case
    using b by (auto simp: IH nth_list_update less_Suc_eq)
qed auto

section \<open>Powers of the root\<close>

lemma field_size: "gf_ok p bch \<Longrightarrow> GF_N bch < 2 ^ 16"
proof -
  assume ok: "gf_ok p bch"
  have "GF_M bch < 16" using gf_ok_facts(1) [OF ok] by (simp add: field_poly_def)
  then have "(2::nat) ^ GF_M bch < 2 ^ 16" by (intro power_strict_increasing) simp_all
  then show ?thesis using gf_ok_facts(2) [OF ok] by linarith
qed

lemma a_log_elem:
  assumes "gf_ok p bch" "a \<le> GF_N bch" "a \<noteq> 0"
  shows "a_log bch a < GF_N bch" "gf_alpha (GF_M bch) p (a_log bch a) = a"
  using gf_ok_log [OF assms(1) _ assms(2)] assms(3) by (simp_all add: a_log_def)

lemma fpow_alpha: "gf_ok p bch \<Longrightarrow> fpow (gf_mul bch) (gf_alpha (GF_M bch) p i) n = gf_alpha (GF_M bch) p (n * i)"
  by (induction n) (simp_all add: gf_mul_alpha)

text \<open>The quotient that the update of the locator computes with logarithms.\<close>

lemma bm_quotient:
  assumes ok: "gf_ok p bch" and d: "d \<le> GF_N bch" "d \<noteq> 0" and pd: "pd \<le> GF_N bch" "pd \<noteq> 0"
  obtains e where "e \<le> GF_N bch" "gf_mul bch e pd = d"
    "\<And>x. x \<le> GF_N bch \<Longrightarrow> x \<noteq> 0 \<Longrightarrow>
       a_pow bch (int (a_log bch d + GF_N bch - a_log bch pd + a_log bch x)) = gf_mul bch e x"
proof
  note l = a_log_elem [OF ok d] a_log_elem [OF ok pd]
  let ?t = "a_log bch d + GF_N bch - a_log bch pd"
  let ?e = "gf_alpha (GF_M bch) p ?t"
  show "?e \<le> GF_N bch" by (rule gf_alpha_le_N [OF ok])
  have "gf_mul bch ?e (gf_alpha (GF_M bch) p (a_log bch pd)) = gf_alpha (GF_M bch) p (a_log bch d + GF_N bch)"
    using l(3) by (simp add: gf_mul_alpha [OF ok])
  also have "\<dots> = gf_alpha (GF_M bch) p (a_log bch d)"
    using gf_alpha_mod_N [OF ok, of "a_log bch d + GF_N bch"] gf_alpha_mod_N [OF ok, of "a_log bch d"] by simp
  finally show "gf_mul bch ?e pd = d" using l by simp
  fix x assume x: "x \<le> GF_N bch" "x \<noteq> 0"
  note lx = a_log_elem [OF ok x]
  have "?t + a_log bch x < 3 * GF_N bch" using l lx by linarith
  then have "?t + a_log bch x < 2 ^ 32" using field_size [OF ok] by simp
  then have "int (?t + a_log bch x) < int (2 ^ 32)" by (simp only: of_nat_less_iff)
  then have "a_pow bch (int (?t + a_log bch x)) = gf_alpha (GF_M bch) p (?t + a_log bch x)"
    using a_pow_alpha [OF ok, of "int (?t + a_log bch x)"] by (simp only: nat_int of_nat_0_le_iff of_nat_power of_nat_numeral)
  also have "\<dots> = gf_mul bch ?e (gf_alpha (GF_M bch) p (a_log bch x))" by (simp add: gf_mul_alpha [OF ok])
  finally show "a_pow bch (int (?t + a_log bch x)) = gf_mul bch ?e x" using lx by simp
qed

section \<open>The loop\<close>

definition bm_rel :: "bch_control \<Rightarrow> nat list \<Rightarrow> nat \<Rightarrow> bm_state \<Rightarrow> bool" where
  "bm_rel bch xs i s \<longleftrightarrow>
     gf.bm_inv bch xs i (pcoef (bm_elp s)) (poly_deg (bm_elp s)) (pcoef (bm_pelp s)) (poly_deg (bm_pelp s)) (bm_pp s) (bm_pd s) \<and>
     length (poly_c (bm_elp s)) = 2 * GF_T bch + 1 \<and> length (poly_c (bm_pelp s)) = 2 * GF_T bch + 1 \<and>
     length (poly_c (bm_elp_copy s)) = 2 * GF_T bch + 1 \<and>
     (\<forall>n \<le> 2 * GF_T bch. poly_deg (bm_elp s) < n \<longrightarrow> poly_c (bm_elp s) ! n = 0)"

lemma bm_rel_start:
  assumes "gf_ok p bch" "gf.elems bch xs"
  shows "bm_rel bch xs 0 (bm_init bch syn)"
proof -
  have "pcoef (bm_elp (bm_init bch syn)) = onef" "pcoef (bm_pelp (bm_init bch syn)) = onef"
    by (auto simp: bm_init_def Let_def poly_2t_buf_def pcoef_def onef_def)
  moreover have "gf.bm_inv bch xs 0 onef 0 onef 0 (-1) 1" using gf.bm_inv_start assms by blast
  ultimately show ?thesis
    by (auto simp: bm_rel_def bm_init_def Let_def poly_2t_buf_def nth_Cons split: nat.splits)
qed

text \<open>The loop over \<open>j\<close> adds a multiple of the previous polynomial, shifted by \<open>k\<close>.\<close>

lemma bm_sum_nth:
  assumes ok: "gf_ok p bch" and f: "gf.ser bch (pcoef f)" and e: "e \<le> GF_N bch"
    and pow: "\<And>x. x \<le> GF_N bch \<Longrightarrow> x \<noteq> 0 \<Longrightarrow> a_pow bch (int (u + a_log bch x)) = gf_mul bch e x"
    and b: "poly_deg f + k < length c"
  defines "c' \<equiv> fold (\<lambda>j c. if poly_c f ! j \<noteq> 0 then c[j + k := c ! (j + k) XOR a_pow bch (int (u + a_log bch (poly_c f ! j)))] else c)
      [0..<Suc (poly_deg f)] c"
  shows "length c' = length c" "n < length c \<Longrightarrow> c' ! n = c ! n XOR conv (gf_mul bch) (monf e k) (pcoef f) n"
proof -
  have okE: "\<exists>p. gf_ok p bch" using ok by blast
  have bd: "j + k < length c" if "j < Suc (poly_deg f)" for j using b that by linarith
  have fs: "length c' = length c \<and> (\<forall>i < length c. c' ! i = c ! i XOR
      (if k \<le> i \<and> i - k < Suc (poly_deg f) \<and> poly_c f ! (i - k) \<noteq> 0 then a_pow bch (int (u + a_log bch (poly_c f ! (i - k)))) else 0))"
    unfolding c'_def by (rule fold_add_shifted) (rule bd)
  show "length c' = length c" by (rule conjunct1 [OF fs])
  assume n: "n < length c"
  have cm: "conv (gf_mul bch) (monf e k) (pcoef f) n = (if n < k then 0 else gf_mul bch e (pcoef f (n - k)))"
    by (rule gf.conv_monf [OF okE f e])
  have fe: "poly_c f ! j \<le> GF_N bch" if "j \<le> poly_deg f" for j using gf.serD [OF f, of j] that by (simp add: pcoef_def)
  have "(if k \<le> n \<and> n - k < Suc (poly_deg f) \<and> poly_c f ! (n - k) \<noteq> 0 then a_pow bch (int (u + a_log bch (poly_c f ! (n - k)))) else 0) =
      conv (gf_mul bch) (monf e k) (pcoef f) n"
  proof (cases "k \<le> n \<and> n - k < Suc (poly_deg f) \<and> poly_c f ! (n - k) \<noteq> 0")
    case True
    then show ?thesis using cm pow fe by (simp add: pcoef_def)
  qed (use cm in \<open>auto simp: pcoef_def\<close>)
  then show "c' ! n = c ! n XOR conv (gf_mul bch) (monf e k) (pcoef f) n" using conjunct2 [OF fs] n by (simp del: upt_Suc)
qed

lemma bm_update_eq:
  "bm_update bch i s =
    (let l = poly_deg (bm_elp s); lp = poly_deg (bm_pelp s); k = nat (2 * int i - bm_pp s);
         u = a_log bch (bm_d s) + GF_N bch - a_log bch (bm_pd s); cp = gf_poly_copy (bm_elp_copy s) (bm_elp s);
         c = fold (\<lambda>j c. if poly_c (bm_pelp s) ! j \<noteq> 0
               then c[j + k := c ! (j + k) XOR a_pow bch (int (u + a_log bch (poly_c (bm_pelp s) ! j)))] else c)
             [0..<Suc lp] (poly_c (bm_elp s))
     in s\<lparr>bm_elp := \<lparr>poly_deg = max l (lp + k), poly_c = c\<rparr>, bm_elp_copy := cp,
          bm_pelp := (if l < lp + k then gf_poly_copy (bm_pelp s) cp else bm_pelp s),
          bm_pd := (if l < lp + k then bm_d s else bm_pd s), bm_pp := (if l < lp + k then 2 * int i else bm_pp s)\<rparr>)"
  by (simp add: bm_update_def Let_def max_def)

lemma bm_rel_update:
  assumes ok: "gf_ok p bch" and xs: "gf.elems bch xs" "length xs \<le> GF_T bch" and rel: "bm_rel bch xs i s" and i: "i < GF_T bch"
    and d: "bm_d s = keyf (gf_mul bch) (psum (gf_mul bch) xs) (pcoef (bm_elp s)) (2 * i + 1)" "bm_d s \<noteq> 0"
  shows "bm_rel bch xs (Suc i) (bm_update bch i s)"
proof -
  have okE: "\<exists>p. gf_ok p bch" using ok by blast
  define l lp k where "l = poly_deg (bm_elp s)" "lp = poly_deg (bm_pelp s)" "k = nat (2 * int i - bm_pp s)"
  note l_lp = this
  let ?g = "pcoef (bm_elp s)" and ?p = "pcoef (bm_pelp s)" and ?t = "GF_T bch"
  have inv: "gf.bm_inv bch xs i ?g l ?p lp (bm_pp s) (bm_pd s)" and len: "length (poly_c (bm_elp s)) = 2 * ?t + 1"
    "length (poly_c (bm_pelp s)) = 2 * ?t + 1" "length (poly_c (bm_elp_copy s)) = 2 * ?t + 1"
    and hi: "\<And>n. n \<le> 2 * ?t \<Longrightarrow> l < n \<Longrightarrow> poly_c (bm_elp s) ! n = 0"
    using rel by (simp_all add: bm_rel_def l_lp)
  have f: "gf.ser bch ?g" "gf.ser bch ?p" "bm_pd s \<le> GF_N bch" "bm_pd s \<noteq> 0" "l \<le> length xs" "int l = bm_pp s + 1 - int lp"
    "bm_pp s < 2 * int i"
    using inv gf.bm_inv_length [OF inv] by (auto simp: gf.bm_inv_def)
  have k: "lp + k + l = 2 * i + 1" "max l (lp + k) \<le> 2 * ?t" "l < 2 * ?t + 1" using f(5-7) xs(2) i by (auto simp: l_lp)
  have dc: "bm_d s \<le> GF_N bch"
    using gf.serD [OF gf.ser_keyf [OF okE gf.ser_psum [OF okE xs(1)] f(1)]] d(1) by simp
  obtain e where e: "e \<le> GF_N bch" "gf_mul bch e (bm_pd s) = bm_d s"
    "\<And>x. x \<le> GF_N bch \<Longrightarrow> x \<noteq> 0 \<Longrightarrow>
       a_pow bch (int (a_log bch (bm_d s) + GF_N bch - a_log bch (bm_pd s) + a_log bch x)) = gf_mul bch e x"
    by (rule bm_quotient [OF ok dc d(2) f(3,4)]) (rule that)
  define c where "c = poly_c (bm_elp (bm_update bch i s))"
  have "poly_deg (bm_pelp s) + k < length (poly_c (bm_elp s))" using k(2) len(1) l_lp(2) by simp
  note sum = bm_sum_nth [OF ok f(2) e(1) e(3) this]
  have cn: "length c = 2 * ?t + 1" "n \<le> 2 * ?t \<Longrightarrow> c ! n = poly_c (bm_elp s) ! n XOR conv (gf_mul bch) (monf e k) ?p n" for n
    unfolding c_def bm_update_eq using sum len(1) by (simp_all add: Let_def flip: l_lp del: upt_Suc)
  have cz: "conv (gf_mul bch) (monf e k) ?p n = 0" if "lp + k < n" for n
    using gf.conv_monf [OF okE f(2) e(1), of k n] that by (auto simp: pcoef_def l_lp(2))
  have pc: "pcoef \<lparr>poly_deg = max l (lp + k), poly_c = c\<rparr> = addf ?g (conv (gf_mul bch) (monf e k) ?p)"
  proof
    fix n show "pcoef \<lparr>poly_deg = max l (lp + k), poly_c = c\<rparr> n = addf ?g (conv (gf_mul bch) (monf e k) ?p) n"
      using cn(2) [of n] cz [of n] hi [of n] k(2) by (auto simp: pcoef_def addf_def l_lp(1))
  qed
  note upd = gf.bm_inv_update [OF okE xs(1) inv d(1) d(2) e(1,2), folded l_lp(3), folded pc]
  have chi: "c ! n = 0" if "n \<le> 2 * ?t" "max l (lp + k) < n" for n using cn(2) [OF that(1)] cz [of n] hi [of n] that by simp
  let ?cp = "gf_poly_copy (bm_elp_copy s) (bm_elp s)"
  have cp: "pcoef (gf_poly_copy (bm_pelp s) ?cp) = ?g" "poly_deg (gf_poly_copy (bm_pelp s) ?cp) = l"
    "length (poly_c (gf_poly_copy (bm_pelp s) ?cp)) = 2 * ?t + 1" "length (poly_c ?cp) = 2 * ?t + 1"
    using k(3) len length_copy [OF len(1,3)] length_copy [OF length_copy [OF len(1,3)] len(2)]
    by (simp_all add: pcoef_copy poly_deg_copy l_lp(1))
  have "bm_update bch i s = s\<lparr>bm_elp := \<lparr>poly_deg = max l (lp + k), poly_c = c\<rparr>, bm_elp_copy := ?cp,
      bm_pelp := (if l < lp + k then gf_poly_copy (bm_pelp s) ?cp else bm_pelp s),
      bm_pd := (if l < lp + k then bm_d s else bm_pd s), bm_pp := (if l < lp + k then 2 * int i else bm_pp s)\<rparr>"
    unfolding c_def by (simp add: bm_update_eq Let_def flip: l_lp del: upt_Suc)
  then show ?thesis
    using upd cn(1) chi cp len by (cases "l < lp + k") (simp_all add: bm_rel_def l_lp(2))
qed

text \<open>The syndromes of a set of error positions: the power sums of the elements.\<close>

definition syn_of :: "bch_control \<Rightarrow> nat list \<Rightarrow> nat list \<Rightarrow> bool" where
  "syn_of bch xs syn \<longleftrightarrow> (\<forall>j < 2 * GF_T bch. syn ! j = psum (gf_mul bch) xs (Suc j))"

lemma bm_discrepancy_key:
  assumes ok: "gf_ok p bch" and xs: "gf.elems bch xs" and syn: "syn_of bch xs syn" and i: "Suc i < GF_T bch"
    and inv: "gf.bm_inv bch xs (Suc i) (pcoef e) (poly_deg e) q lq pp pd"
  shows "bm_discrepancy bch syn i e = keyf (gf_mul bch) (psum (gf_mul bch) xs) (pcoef e) (2 * Suc i + 1)"
proof -
  have okE: "\<exists>p. gf_ok p bch" using ok by blast
  let ?S = "psum (gf_mul bch) xs"
  have l: "poly_deg e \<le> 2 * i + 2" using gf.bm_inv_length [OF inv] by simp
  have e0: "pcoef e 0 = 1" "gf.ser bch (pcoef e)" using inv by (auto simp: gf.bm_inv_def)
  note s = gf.ser_psum [OF okE xs]
  let ?h = "\<lambda>j. gf_mul bch (pcoef e j) (?S (2 * i + 3 - j))"
  have "bm_discrepancy bch syn i e = syn ! (2 * i + 2) XOR xs.F (\<lambda>j. gf_mul bch (poly_c e ! j) (syn ! (2 * i + 2 - j))) {1..<Suc (poly_deg e)}"
    unfolding bm_discrepancy_def by (rule fold_xor_F)
  also have "xs.F (\<lambda>j. gf_mul bch (poly_c e ! j) (syn ! (2 * i + 2 - j))) {1..<Suc (poly_deg e)} = xs.F ?h {1..<Suc (poly_deg e)}"
  proof (rule xs.cong)
    fix j assume j: "j \<in> {1..<Suc (poly_deg e)}"
    then have "Suc (2 * i + 2 - j) = 2 * i + 3 - j" "2 * i + 2 - j < 2 * GF_T bch" using l i by auto
    then show "gf_mul bch (poly_c e ! j) (syn ! (2 * i + 2 - j)) = ?h j"
      using syn j by (simp add: syn_of_def pcoef_def)
  qed simp
  also have "syn ! (2 * i + 2) = ?h 0"
    using syn i e0 gf_mul_one [OF ok gf.serD [OF s]] by (simp add: syn_of_def numeral_3_eq_3)
  also have "?h 0 XOR xs.F ?h {1..<Suc (poly_deg e)} = xs.F ?h (insert 0 {1..<Suc (poly_deg e)})" by simp
  also have "\<dots> = xs.F ?h {..2 * i + 3}"
  proof (rule xs.mono_neutral_left)
    show "\<forall>j \<in> {..2 * i + 3} - insert 0 {1..<Suc (poly_deg e)}. ?h j = 0" by (auto simp: pcoef_def)
  qed (use l in auto)
  also have "\<dots> = keyf (gf_mul bch) ?S (pcoef e) (2 * Suc i + 1)"
    using l by (simp add: keyf_def addf_def gf.conv_F euler_def pcoef_def numeral_3_eq_3)
  finally show ?thesis .
qed

lemma bm_loop_rel:
  assumes ok: "gf_ok p bch" and xs: "gf.elems bch xs" "length xs \<le> GF_T bch" and syn: "syn_of bch xs syn"
  shows "i \<le> GF_T bch \<Longrightarrow> bm_rel bch xs i s \<Longrightarrow>
    (i < GF_T bch \<Longrightarrow> bm_d s = keyf (gf_mul bch) (psum (gf_mul bch) xs) (pcoef (bm_elp s)) (2 * i + 1)) \<Longrightarrow>
    bm_rel bch xs (GF_T bch) (bm_loop bch syn i s)"
proof (induction "GF_T bch - i" arbitrary: i s)
  case 0
  then show ?case by (subst bm_loop.simps) simp
next
  case (Suc r)
  have okE: "\<exists>p. gf_ok p bch" using ok by blast
  have i: "i < GF_T bch" using Suc.hyps(2) by linarith
  define s' where "s' = (if bm_d s \<noteq> 0 then bm_update bch i s else s)"
  have rel: "bm_rel bch xs (Suc i) s'"
  proof (cases "bm_d s = 0")
    case True
    then show ?thesis
      using Suc.prems(2) Suc.prems(3) [OF i] gf.bm_inv_zero [OF okE xs(1)] by (simp add: s'_def bm_rel_def)
  qed (use bm_rel_update [OF ok xs Suc.prems(2) i] Suc.prems(3) [OF i] in \<open>simp add: s'_def\<close>)
  have step: "bm_step bch syn i s = (if i < GF_T bch - 1 then s'\<lparr>bm_d := bm_discrepancy bch syn i (bm_elp s')\<rparr> else s')"
    by (simp add: bm_step_def s'_def Let_def)
  have "bm_rel bch xs (GF_T bch) (bm_loop bch syn (Suc i) (bm_step bch syn i s))"
  proof (rule Suc.hyps(1))
    show "r = GF_T bch - Suc i" "Suc i \<le> GF_T bch" using Suc.hyps(2) by linarith+
    show "bm_rel bch xs (Suc i) (bm_step bch syn i s)" using rel by (simp add: step bm_rel_def)
    show "bm_d (bm_step bch syn i s) = keyf (gf_mul bch) (psum (gf_mul bch) xs) (pcoef (bm_elp (bm_step bch syn i s))) (2 * Suc i + 1)"
      if "Suc i < GF_T bch"
      using bm_discrepancy_key [OF ok xs(1) syn that, of "bm_elp s'"] rel that by (auto simp: step bm_rel_def)
  qed
  moreover have "poly_deg (bm_elp s) \<le> GF_T bch" using Suc.prems(2) xs(2) by (auto simp: bm_rel_def gf.bm_inv_def)
  ultimately show ?case using i by (subst bm_loop.simps) simp
qed

text \<open>The algorithm returns the locator, with its exact degree.\<close>

lemma locator_lead:
  assumes c: "\<exists>p. gf_ok p bch" shows "gf.elems bch xs \<Longrightarrow> locator (gf_mul bch) xs (length xs) \<noteq> 0"
proof (induction xs)
  case (Cons x xs)
  then have x: "x \<le> GF_N bch" "x \<noteq> 0" "gf.elems bch xs" by (auto simp: gf.elems_Cons)
  have z: "locator (gf_mul bch) xs (Suc (length xs)) = 0"
    using gf.deg_le_locator [OF c x(3)] by (simp add: deg_le_def)
  show ?case
    using Cons.IH [OF x(3)] gf.conv_linf [OF c gf.ser_locator [OF c x(3)] gf.one_le [OF c] x(1)] z x
      gf.mul_eq_0_iff [OF c x(1) gf.serD [OF gf.ser_locator [OF c x(3)]]] gf.mul_0 [OF c gf.one_le [OF c]]
    by simp
qed (simp add: onef_def)

lemma elp_locator:
  assumes ok: "gf_ok p bch" and xs: "gf.elems bch xs" "distinct xs" "length xs \<le> GF_T bch" and syn: "syn_of bch xs syn"
    and t: "0 < GF_T bch"
  obtains e where "compute_error_locator_polynomial bch syn = (int (length xs), e)" "poly_deg e = length xs"
    "pcoef e = locator (gf_mul bch) xs" "length (poly_c e) = 2 * GF_T bch + 1"
    "\<And>n. n \<le> 2 * GF_T bch \<Longrightarrow> length xs < n \<Longrightarrow> poly_c e ! n = 0"
proof -
  have okE: "\<exists>p. gf_ok p bch" using ok by blast
  let ?s = "bm_loop bch syn 0 (bm_init bch syn)"
  have "bm_d (bm_init bch syn) = psum (gf_mul bch) xs 1"
    using syn t by (simp add: bm_init_def Let_def syn_of_def)
  moreover have "pcoef (bm_elp (bm_init bch syn)) = onef"
    by (auto simp: bm_init_def Let_def poly_2t_buf_def pcoef_def onef_def)
  ultimately have rel: "bm_rel bch xs (GF_T bch) ?s"
    using bm_loop_rel [OF ok xs(1,3) syn, of 0 "bm_init bch syn"] bm_rel_start [OF ok xs(1)]
      gf.keyf_onef [OF okE gf.ser_psum [OF okE xs(1)]] by simp
  then have inv: "gf.bm_inv bch xs (GF_T bch) (pcoef (bm_elp ?s)) (poly_deg (bm_elp ?s)) (pcoef (bm_pelp ?s))
      (poly_deg (bm_pelp ?s)) (bm_pp ?s) (bm_pd ?s)" by (simp add: bm_rel_def)
  have pe: "pcoef (bm_elp ?s) = locator (gf_mul bch) xs" "poly_deg (bm_elp ?s) \<le> length xs"
      "length (poly_c (bm_elp ?s)) = 2 * GF_T bch + 1"
    using gf.bm_inv_final [OF okE xs(1,2) inv xs(3)] inv rel by (auto simp: bm_rel_def gf.bm_inv_def)
  then have "poly_deg (bm_elp ?s) = length xs"
    using locator_lead [OF okE xs(1)] by (metis le_antisym pcoef_def)
  then show ?thesis using that [of "bm_elp ?s"] pe xs(3) rel by (simp add: compute_error_locator_polynomial_def Let_def bm_rel_def)
qed

end
