(* ===== verification/Bch_Division.thy ===== *)
theory Bch_Division
  imports Bch_Locator
begin

text \<open>
  Euclidean division of lib/bch.c: \<open>gf_poly_mod\<close> leaves the remainder in the low part
  of the array and the quotient by the monic divisor above it, \<open>gf_poly_gcd\<close> finds the
  common roots and \<open>gf_poly_div\<close> removes them.  All statements are about polynomials
  that split into distinct linear factors, given by their sets of roots.
\<close>

section \<open>Polynomials with distinct roots\<close>

context binary_field
begin

definition splits :: "'c \<Rightarrow> (nat \<Rightarrow> nat) \<Rightarrow> nat set \<Rightarrow> bool" where
  "splits c f R \<longleftrightarrow> finite R \<and> (\<forall>r \<in> R. r \<le> top c \<and> r \<noteq> 0) \<and> ser c f \<and> deg_le f (card R) \<and> f 0 \<noteq> 0 \<and>
     (\<forall>r \<in> R. evalf (mul c) f (Suc (card R)) r = 0)"

lemma splitsD:
  assumes "splits c f R"
  shows "finite R" "r \<in> R \<Longrightarrow> r \<le> top c" "r \<in> R \<Longrightarrow> r \<noteq> 0" "ser c f" "deg_le f (card R)" "f 0 \<noteq> 0"
    "r \<in> R \<Longrightarrow> evalf (mul c) f (Suc (card R)) r = 0"
  using assms by (auto simp: splits_def)

lemma deg_leD: "deg_le f d \<Longrightarrow> d < n \<Longrightarrow> f n = 0"
  by (simp add: deg_le_def)

lemma deg_le_mono: "deg_le f d \<Longrightarrow> d \<le> e \<Longrightarrow> deg_le f e"
  by (simp add: deg_le_def)

lemma splits_only:
  assumes c: "ok c" and f: "splits c f R" and r: "r \<le> top c" "evalf (mul c) f (Suc (card R)) r = 0"
  shows "r \<in> R"
proof (rule ccontr)
  assume "r \<notin> R"
  then have "f = (\<lambda>_. 0)"
    using splitsD [OF f] r by (intro roots_bound [OF c, of f "card R" "insert r R"]) auto
  then show False using splitsD(6) [OF f] by simp
qed

lemma splits_lead:
  assumes c: "ok c" and f: "splits c f R"
  shows "f (card R) \<noteq> 0"
proof
  assume z: "f (card R) = 0"
  show False
  proof (cases "card R")
    case 0
    then show ?thesis using z splitsD(6) [OF f] by simp
  next
    case (Suc d)
    have "deg_le f d"
      unfolding deg_le_def
    proof (intro allI impI)
      fix n assume "d < n" then show "f n = 0" using z Suc deg_leD [OF splitsD(5) [OF f], of n] by (cases "n = Suc d") auto
    qed
    then have "f = (\<lambda>_. 0)"
    proof (intro roots_bound [OF c splitsD(4) [OF f], of d R])
      fix r assume r: "r \<in> R"
      show "r \<le> top c \<and> evalf (mul c) f (Suc d) r = 0"
        using splitsD(2,7) [OF f r] evalf_extend [OF c \<open>deg_le f d\<close>, of "Suc (card R)" r] Suc by simp
    qed (use splitsD(1) [OF f] Suc in auto)
    then show False using splitsD(6) [OF f] by simp
  qed
qed

lemma splits_locator:
  assumes c: "ok c" and e: "elems c xs" "distinct xs"
  shows "splits c (locator (mul c) xs) (inv c ` set xs)"
proof -
  have el: "x \<le> top c" "x \<noteq> 0" if "x \<in> set xs" for x using e(1) that by (auto simp: elems_def)
  have "inj_on (inv c) (set xs)" by (rule inj_on_subset [OF inv_inj_on [OF c]]) (use el in auto)
  then have "card (inv c ` set xs) = length xs" using card_image e(2) distinct_card by metis
  moreover have "evalf (mul c) (locator (mul c) xs) (Suc (length xs)) (inv c x) = 0" if "x \<in> set xs" for x
    using locator_root_iff [OF c inv_closed [OF c el [OF that]] e(1)] mul_inv [OF c el [OF that]] that by blast
  ultimately show ?thesis
    using c e el inv_nz inv_closed ser_locator deg_le_locator locator_0 by (auto simp: splits_def)
qed

lemma conv_top:
  assumes "ok c" "ser c f" "ser c g" "deg_le f a" "deg_le g b"
  shows "conv (mul c) f g (a + b) = mul c (f a) (g b)"
proof -
  have "xs.F (\<lambda>j. mul c (f j) (g (a + b - j))) {..a + b} = xs.F (\<lambda>j. if j = a then mul c (f a) (g b) else 0) {..a + b}"
  proof (rule xs.cong)
    fix j assume "j \<in> {..a + b}"
    consider "j = a" | "a < j" | "j < a" by linarith
    then show "mul c (f j) (g (a + b - j)) = (if j = a then mul c (f a) (g b) else 0)"
      by cases (use assms in \<open>auto simp: deg_leD mul_0 mul_zero serD\<close>)
  qed simp
  then show ?thesis by (simp add: conv_F xs.delta)
qed

lemma cofactor_degree:
  assumes c: "ok c" and s: "ser c g" "ser c h" and d: "deg_le g a" "g a \<noteq> 0" "deg_le h e"
    and f: "f = conv (mul c) g h" "deg_le f n" "f 0 \<noteq> 0"
  shows "a \<le> n" "deg_le h (n - a)"
proof -
  have "\<exists>t. h t \<noteq> 0"
  proof (rule ccontr)
    assume "\<nexists>t. h t \<noteq> 0"
    then have "f 0 = 0" using f(1) c s by (simp add: conv_F mul_0 serD)
    then show False using f(3) by simp
  qed
  then have ne: "{t. h t \<noteq> 0} \<noteq> {}" by blast
  have "{t. h t \<noteq> 0} \<subseteq> {..e}"
  proof
    fix t assume "t \<in> {t. h t \<noteq> 0}"
    then have "\<not> e < t" using deg_leD [OF d(3), of t] by auto
    then show "t \<in> {..e}" by simp
  qed
  then have fin: "finite {t. h t \<noteq> 0}" by (rule finite_subset) simp
  define t where "t = Max {t. h t \<noteq> 0}"
  have t: "h t \<noteq> 0" using Max_in [OF fin ne] unfolding t_def by blast
  have dt: "deg_le h t"
    unfolding deg_le_def
  proof (intro allI impI)
    fix n assume "t < n"
    then show "h n = 0" using Max_ge [OF fin, of n] unfolding t_def by (metis leD mem_Collect_eq)
  qed
  have "f (a + t) \<noteq> 0" using conv_top [OF c s d(1) dt] f(1) d(2) t c s by (simp add: mul_eq_0_iff serD)
  then have "a + t \<le> n" using deg_leD [OF f(2)] not_less by blast
  then show "a \<le> n" "deg_le h (n - a)" using dt by (auto intro: deg_le_mono)
qed

lemma card_roots_le:
  assumes c: "ok c" and f: "ser c f" "deg_le f d" "f k \<noteq> 0" and R: "finite R" "\<And>r. r \<in> R \<Longrightarrow> r \<le> top c \<and> evalf (mul c) f (Suc d) r = 0"
  shows "card R \<le> d"
  using roots_bound [OF c f(1,2) R(1) _ R(2)] f(3) by (metis not_le)

text \<open>A divisor of a polynomial with distinct roots has distinct roots, as many as its degree.\<close>

lemma splits_divisor:
  assumes c: "ok c" and f: "splits c f R" and g: "ser c g" "deg_le g a" "g a \<noteq> 0"
    and h: "ser c h" "deg_le h e" "f = conv (mul c) g h"
  defines "Z \<equiv> {r \<in> R. evalf (mul c) g (Suc a) r = 0}"
  shows "splits c g Z" "card Z = a" "deg_le h (card R - a)" "a \<le> card R"
    "r \<in> R - Z \<Longrightarrow> evalf (mul c) h (Suc (card R - a)) r = 0" "g 0 \<noteq> 0" "h 0 \<noteq> 0"
proof -
  note F = splitsD [OF f]
  note cd = cofactor_degree [OF c g(1) h(1) g(2,3) h(2,3) F(5,6)]
  show "a \<le> card R" "deg_le h (card R - a)" by (rule cd)+
  have "f 0 = mul c (g 0) (h 0)" using h(3) by (simp add: conv_F)
  then show g0: "g 0 \<noteq> 0" and h0: "h 0 \<noteq> 0"
    using F(6) mul_eq_0_iff [OF c serD [OF g(1)] serD [OF h(1)]] by auto
  have v: "mul c (evalf (mul c) g (Suc a) r) (evalf (mul c) h (Suc (card R - a)) r) = 0" if "r \<in> R" for r
    using evalf_conv [OF c g(1) h(1) g(2) cd(2) F(2) [OF that]] F(7) [OF that] h(3) cd(1) by simp
  show q: "evalf (mul c) h (Suc (card R - a)) r = 0" if "r \<in> R - Z" for r
    using v [of r] that mul_eq_0_iff [OF c evalf_closed [OF c g(1) F(2)] evalf_closed [OF c h(1) F(2)]] by (auto simp: Z_def)
  have "card (R - Z) \<le> card R - a"
    by (rule card_roots_le [OF c h(1) cd(2) h0]) (use F(1,2) q in auto)
  moreover have "card Z \<le> a" by (rule card_roots_le [OF c g(1,2,3)]) (use F(1,2) in \<open>auto simp: Z_def\<close>)
  moreover have "card (R - Z) = card R - card Z" "card Z \<le> card R"
    using F(1) by (auto intro!: card_Diff_subset card_mono simp: Z_def)
  ultimately show "card Z = a" using cd(1) by linarith
  then show "splits c g Z" using F(1,2,3) g g0 by (auto simp: splits_def Z_def)
qed

end

section \<open>The remainder\<close>

text \<open>The divisor made monic: what \<open>gf_poly_logrep\<close> holds the logarithms of.\<close>

definition monicf :: "bch_control \<Rightarrow> gf_poly \<Rightarrow> nat \<Rightarrow> nat" where
  "monicf bch b n = gf_mul bch (gf_inv bch (poly_c b ! poly_deg b)) (pcoef b n)"

definition pok :: "bch_control \<Rightarrow> gf_poly \<Rightarrow> bool" where
  "pok bch f \<longleftrightarrow> poly_deg f < length (poly_c f) \<and> (\<forall>x \<in> set (poly_c f). x \<le> GF_N bch)"

lemma pok_ser: "pok bch f \<Longrightarrow> gf.ser bch (pcoef f)"
  by (auto simp: pok_def gf.ser_def pcoef_def)

lemma pok_nth: "pok bch f \<Longrightarrow> n < length (poly_c f) \<Longrightarrow> poly_c f ! n \<le> GF_N bch"
  by (auto simp: pok_def)

lemma logrep_nth:
  assumes ok: "gf_ok p bch" and b: "pok bch b" "poly_c b ! poly_deg b \<noteq> 0" and i: "i < poly_deg b"
  shows "0 \<le> gf_poly_logrep bch b ! i \<longleftrightarrow> poly_c b ! i \<noteq> 0"
    and "c \<le> GF_N bch \<Longrightarrow> c \<noteq> 0 \<Longrightarrow> poly_c b ! i \<noteq> 0 \<Longrightarrow>
      a_pow_tab bch ! mod_s bch (nat (gf_poly_logrep bch b ! i) + a_log bch c) = gf_mul bch (monicf bch b i) c"
proof -
  let ?d = "poly_deg b" and ?l = "\<lambda>j. a_log bch (poly_c b ! j)"
  have rep: "gf_poly_logrep bch b ! i = (if poly_c b ! i \<noteq> 0 then int (mod_s bch (?l i + (GF_N bch - ?l ?d))) else -1)"
    using i by (simp add: gf_poly_logrep_def Let_def)
  then show "0 \<le> gf_poly_logrep bch b ! i \<longleftrightarrow> poly_c b ! i \<noteq> 0" by simp
  assume c: "c \<le> GF_N bch" "c \<noteq> 0" and nz: "poly_c b ! i \<noteq> 0"
  have bd: "poly_c b ! i \<le> GF_N bch" "poly_c b ! ?d \<le> GF_N bch" using b(1) i by (auto intro!: pok_nth simp: pok_def)
  note li = a_log_elem [OF ok bd(1) nz] and ld = a_log_elem [OF ok bd(2) b(2)] and lc = a_log_elem [OF ok c]
  let ?v = "?l i + (GF_N bch - ?l ?d)"
  have v: "?v < 2 * GF_N bch" using li ld by linarith
  have mv: "mod_s bch ?v < GF_N bch" using mod_s_eq [OF v] gf_ok_facts(3) [OF ok] by simp
  have inv: "gf_inv bch (poly_c b ! ?d) = gf_alpha (GF_M bch) p (GF_N bch - ?l ?d)" using gf_inv_alpha [OF ok ld(1)] ld(2) by simp
  have "gf_mul bch (gf_inv bch (poly_c b ! ?d)) (poly_c b ! i) = gf_alpha (GF_M bch) p (GF_N bch - ?l ?d + ?l i)"
    using inv li(2) gf_mul_alpha [OF ok, of "GF_N bch - ?l ?d" "?l i"] by simp
  then have m: "monicf bch b i = gf_alpha (GF_M bch) p ?v" using i by (simp add: monicf_def pcoef_def add.commute)
  have "a_pow_tab bch ! mod_s bch (mod_s bch ?v + a_log bch c) = gf_alpha (GF_M bch) p (mod_s bch ?v + a_log bch c)"
    by (rule pow_mod_s [OF ok]) (use mv lc(1) in linarith)
  also have "\<dots> = gf_mul bch (gf_alpha (GF_M bch) p (mod_s bch ?v)) c" using lc(2) gf_mul_alpha [OF ok, of "mod_s bch ?v" "a_log bch c"] by simp
  also have "gf_alpha (GF_M bch) p (mod_s bch ?v) = monicf bch b i" using m mod_s_eq [OF v] gf_alpha_mod_N [OF ok, of ?v] by simp
  finally show "a_pow_tab bch ! mod_s bch (nat (gf_poly_logrep bch b ! i) + a_log bch c) = gf_mul bch (monicf bch b i) c"
    using rep nz by simp
qed

text \<open>One step: the multiple of the divisor that cancels the coefficient \<open>j\<close> is subtracted below it.\<close>

lemma poly_mod_step_nth:
  assumes ok: "gf_ok p bch" and b: "pok bch b" "poly_c b ! poly_deg b \<noteq> 0" and j: "poly_deg b \<le> j" "j < length c"
    and c: "\<forall>x \<in> set c. x \<le> GF_N bch"
  defines "c' \<equiv> poly_mod_step bch (gf_poly_logrep bch b) (poly_deg b) j c"
  shows "length c' = length c" "\<forall>x \<in> set c'. x \<le> GF_N bch"
    "n < length c \<Longrightarrow> c' ! n = (if n < j then c ! n XOR conv (gf_mul bch) (monf (c ! j) (j - poly_deg b)) (monicf bch b) n else c ! n)"
proof -
  have okE: "\<exists>p. gf_ok p bch" using ok by blast
  let ?d = "poly_deg b" and ?rep = "gf_poly_logrep bch b"
  have cj: "c ! j \<le> GF_N bch" using c j(2) by simp
  have sm: "gf.ser bch (monicf bch b)"
    using gf_mul_closed [OF ok] gf_mul_inv(2) [OF ok pok_nth [OF b(1)] b(2)] b(1) gf.serD [OF pok_ser [OF b(1)]]
    by (auto simp: gf.ser_def monicf_def pok_def)
  note cm = gf.conv_monf [OF okE sm cj, of "j - ?d"]
  have *: "length c' = length c \<and> (\<forall>n < length c. c' ! n = (if n < j then c ! n XOR conv (gf_mul bch) (monf (c ! j) (j - ?d)) (monicf bch b) n else c ! n))"
  proof (cases "c ! j = 0")
    case True
    then show ?thesis using cm gf.mul_zero [OF okE gf.serD [OF sm]] by (auto simp: c'_def poly_mod_step_def)
  next
    case False
    have "c' = fold (\<lambda>i c2. if 0 \<le> ?rep ! i then c2[i + (j - ?d) := c2 ! (i + (j - ?d)) XOR
        a_pow_tab bch ! mod_s bch (nat (?rep ! i) + a_log bch (c ! j))] else c2) [0..<?d] c"
      using False by (simp add: c'_def poly_mod_step_def Let_def add.commute cong: if_cong)
    moreover have "i + (j - ?d) < length c" if "i < ?d" for i using that j by linarith
    ultimately have fs: "length c' = length c" "\<And>n. n < length c \<Longrightarrow> c' ! n = c ! n XOR
        (if j - ?d \<le> n \<and> n - (j - ?d) < ?d \<and> 0 \<le> ?rep ! (n - (j - ?d))
         then a_pow_tab bch ! mod_s bch (nat (?rep ! (n - (j - ?d))) + a_log bch (c ! j)) else 0)"
      using fold_add_shifted [of ?d "j - ?d" c "\<lambda>i. 0 \<le> ?rep ! i" "\<lambda>i. a_pow_tab bch ! mod_s bch (nat (?rep ! i) + a_log bch (c ! j))"]
      by simp_all
    have "(if j - ?d \<le> n \<and> n - (j - ?d) < ?d \<and> 0 \<le> ?rep ! (n - (j - ?d))
        then a_pow_tab bch ! mod_s bch (nat (?rep ! (n - (j - ?d))) + a_log bch (c ! j)) else 0) =
        (if n < j then conv (gf_mul bch) (monf (c ! j) (j - ?d)) (monicf bch b) n else 0)" for n
    proof (cases "j - ?d \<le> n \<and> n < j")
      case True
      define i where "i = n - (j - ?d)"
      have i: "i < ?d" unfolding i_def using True j by linarith
      show ?thesis
      proof (cases "poly_c b ! i = 0")
        case z: True
        then have "monicf bch b i = 0" using i by (simp add: monicf_def pcoef_def gf_mul_def)
        then show ?thesis using True z i logrep_nth(1) [OF ok b i] cm gf.mul_0 [OF okE cj] by (simp flip: i_def)
      next
        case nz: False
        have "gf_mul bch (monicf bch b i) (c ! j) = gf_mul bch (c ! j) (monicf bch b i)"
          by (rule gf_mul_commute [OF ok gf.serD [OF sm] cj])
        then show ?thesis
          using True nz i logrep_nth(1) [OF ok b i] logrep_nth(2) [OF ok b i cj False nz] cm by (simp flip: i_def)
      qed
    next
      case False
      then show ?thesis using j cm by auto
    qed
    then show ?thesis using fs by simp
  qed
  show "length c' = length c" "n < length c \<Longrightarrow> c' ! n = (if n < j then c ! n XOR conv (gf_mul bch) (monf (c ! j) (j - ?d)) (monicf bch b) n else c ! n)"
    using * by auto
  have "c' ! n \<le> GF_N bch" if "n < length c" for n
    using * that c gf_xor_closed [OF ok] gf.serD [OF gf.ser_conv [OF okE gf.ser_monf [OF cj] sm]] by auto
  then show "\<forall>x \<in> set c'. x \<le> GF_N bch" using * by (auto simp: in_set_conv_nth)
qed

lemma ser_monicf:
  assumes "gf_ok p bch" "pok bch b" "poly_c b ! poly_deg b \<noteq> 0"
  shows "gf.ser bch (monicf bch b)"
  using gf_mul_closed [OF assms(1)] gf_mul_inv(2) [OF assms(1) pok_nth [OF assms(2)] assms(3)] assms(2)
    gf.serD [OF pok_ser [OF assms(2)]] by (auto simp: gf.ser_def monicf_def pok_def)

lemma monicf_lead:
  assumes "gf_ok p bch" "pok bch b" "poly_c b ! poly_deg b \<noteq> 0"
  shows "monicf bch b (poly_deg b) = 1" "deg_le (monicf bch b) (poly_deg b)"
proof -
  have l: "poly_c b ! poly_deg b \<le> GF_N bch" using assms(2) by (auto intro: pok_nth simp: pok_def)
  show "monicf bch b (poly_deg b) = 1"
    using gf_mul_inv [OF assms(1) l assms(3)] gf_mul_commute [OF assms(1) l] by (simp add: monicf_def pcoef_def)
  show "deg_le (monicf bch b) (poly_deg b)" by (simp add: deg_le_def monicf_def pcoef_def gf_mul_def)
qed

text \<open>The whole loop: quotient above the degree of the divisor, remainder below it.\<close>

definition below :: "nat \<Rightarrow> nat list \<Rightarrow> nat \<Rightarrow> nat" where
  "below j c n = (if n < j then c ! n else 0)"

definition quot :: "nat \<Rightarrow> nat \<Rightarrow> nat list \<Rightarrow> nat \<Rightarrow> nat" where
  "quot d j c n = (if n + d < j then c ! (n + d) else 0)"

lemma ser_below: "\<forall>x \<in> set c. x \<le> GF_N bch \<Longrightarrow> j \<le> length c \<Longrightarrow> gf.ser bch (below j c)"
  by (auto simp: gf.ser_def below_def)

lemma ser_quot: "\<forall>x \<in> set c. x \<le> GF_N bch \<Longrightarrow> j \<le> length c \<Longrightarrow> gf.ser bch (quot d j c)"
  by (auto simp: gf.ser_def quot_def)

lemma poly_mod_fold:
  assumes ok: "gf_ok p bch" and b: "pok bch b" "poly_c b ! poly_deg b \<noteq> 0"
  shows "poly_deg b \<le> j \<Longrightarrow> j \<le> length c \<Longrightarrow> \<forall>x \<in> set c. x \<le> GF_N bch \<Longrightarrow>
    c' = fold (poly_mod_step bch (gf_poly_logrep bch b) (poly_deg b)) (rev [poly_deg b..<j]) c \<Longrightarrow>
    length c' = length c \<and> (\<forall>x \<in> set c'. x \<le> GF_N bch) \<and> (\<forall>n. j \<le> n \<and> n < length c \<longrightarrow> c' ! n = c ! n) \<and>
    below j c = addf (conv (gf_mul bch) (monicf bch b) (quot (poly_deg b) j c')) (below (poly_deg b) c')"
proof (induction j arbitrary: c c' rule: dec_induct [where i = "poly_deg b"])
  case base
  have "quot (poly_deg b) (poly_deg b) c' = (\<lambda>_. 0)" by (simp add: quot_def fun_eq_iff)
  then show ?case
    using base gf.serD [OF ser_monicf [OF ok b]] ok by (auto simp: gf.conv_F addf_def below_def fun_eq_iff gf.mul_0)
next
  case (step n)
  have okE: "\<exists>p. gf_ok p bch" using ok by blast
  let ?d = "poly_deg b" and ?m = "gf_mul bch" and ?B = "monicf bch b"
  define c1 where "c1 = poly_mod_step bch (gf_poly_logrep bch b) ?d n c"
  have n: "n < length c" using step.prems(1) by simp
  note s1 = poly_mod_step_nth [OF ok b step.hyps(1) n step.prems(2), folded c1_def]
  have "c' = fold (poly_mod_step bch (gf_poly_logrep bch b) ?d) (rev [?d..<n]) c1"
    using step.prems(3) step.hyps(1) by (simp add: c1_def)
  then have IH: "length c' = length c1" "\<forall>x \<in> set c'. x \<le> GF_N bch" "\<And>k. n \<le> k \<Longrightarrow> k < length c1 \<Longrightarrow> c' ! k = c1 ! k"
      "below n c1 = addf (conv ?m ?B (quot ?d n c')) (below ?d c')"
    using step.IH [of c1 c'] s1(1,2) n by auto
  have cn: "c ! n \<le> GF_N bch" using step.prems(2) n by simp
  note sB = ser_monicf [OF ok b] and sM = gf.ser_monf [OF cn, of "n - ?d"]
  have sq: "gf.ser bch (quot ?d n c')" by (rule ser_quot) (use IH(1,2) s1(1) n in simp_all)
  have "below (Suc n) c = addf (conv ?m (monf (c ! n) (n - ?d)) ?B) (below n c1)"
  proof
    fix k
    note cm = gf.conv_monf [OF okE sB cn, of "n - ?d" k]
    consider "k < n" | "k = n" | "n < k" by linarith
    then show "below (Suc n) c k = addf (conv ?m (monf (c ! n) (n - ?d)) ?B) (below n c1) k"
    proof cases
      case 1
      then show ?thesis using s1(3) [of k] n by (simp add: below_def addf_def xor_simps)
    next
      case 2
      then show ?thesis
        using cm step.hyps(1) monicf_lead(1) [OF ok b] gf_mul_one [OF ok cn] gf_mul_commute [OF ok cn gf_one_le [OF ok]]
        by (auto simp: below_def addf_def)
    next
      case 3
      then have "?B (k - (n - ?d)) = 0" using monicf_lead(2) [OF ok b] step.hyps(1) by (simp add: deg_le_def)
      then show ?thesis using 3 cm gf.mul_0 [OF okE cn] by (simp add: below_def addf_def)
    qed
  qed
  moreover have "quot ?d (Suc n) c' = addf (monf (c ! n) (n - ?d)) (quot ?d n c')"
    using IH(3) [of n] s1(1) s1(3) [of n] n step.hyps(1) by (auto simp: quot_def addf_def monf_def fun_eq_iff)
  ultimately have "below (Suc n) c = addf (conv ?m ?B (quot ?d (Suc n) c')) (below ?d c')"
    using IH(4) gf.conv_addf_right [OF okE sB sM sq] gf.conv_commute [OF okE sB sM] by (simp add: addf_simps)
  moreover have "c' ! k = c ! k" if "Suc n \<le> k" "k < length c" for k using IH(3) [of k] s1(1) s1(3) [of k] that by simp
  ultimately show ?case using IH(1,2) s1(1) by simp
qed

definition trimmed :: "gf_poly \<Rightarrow> bool" where
  "trimmed f \<longleftrightarrow> poly_deg f = 0 \<or> poly_c f ! poly_deg f \<noteq> 0"

lemma trim_deg_nz: "trim_deg c d = 0 \<or> c ! trim_deg c d \<noteq> 0"
  by (induction c d rule: trim_deg.induct) auto

lemma trim_deg_zero: "trim_deg c d < n \<Longrightarrow> n \<le> d \<Longrightarrow> c ! n = 0"
  by (induction c d rule: trim_deg.induct) (auto split: if_splits simp: le_Suc_eq)

lemma trim_deg_pcoef: "pcoef \<lparr>poly_deg = trim_deg c d, poly_c = c\<rparr> = below (Suc d) c"
  using trim_deg_le [of c d] trim_deg_zero [of c d] by (auto simp: pcoef_def below_def fun_eq_iff)

lemma pcoef_below: "pcoef f = below (Suc (poly_deg f)) (poly_c f)"
  by (auto simp: pcoef_def below_def)

lemma gf_poly_mod_spec:
  assumes ok: "gf_ok p bch" and a: "pok bch a" and b: "pok bch b" "poly_c b ! poly_deg b \<noteq> 0" "0 < poly_deg b"
    and rep: "rep = None \<or> rep = Some (gf_poly_logrep bch b)"
  defines "r \<equiv> gf_poly_mod bch a b rep"
  shows "pok bch r" "length (poly_c r) = length (poly_c a)" "poly_deg r < poly_deg b"
    "trimmed a \<or> poly_deg b \<le> poly_deg a \<Longrightarrow> trimmed r"
    "\<exists>q. gf.ser bch q \<and> deg_le q (poly_deg a) \<and> pcoef a = addf (conv (gf_mul bch) (monicf bch b) q) (pcoef r)"
    "poly_deg b \<le> poly_deg a \<Longrightarrow>
      pcoef a = addf (conv (gf_mul bch) (monicf bch b) (quot (poly_deg b) (Suc (poly_deg a)) (poly_c r))) (pcoef r)"
proof -
  have okE: "\<exists>p. gf_ok p bch" using ok by blast
  show "poly_deg r < poly_deg b" unfolding r_def by (rule gf_poly_mod_deg_less [OF b(3)])
  have r: "r = gf_poly_mod_rep bch a b (gf_poly_logrep bch b)" using rep by (auto simp: r_def gf_poly_mod_def)
  have main: "pok bch r \<and> length (poly_c r) = length (poly_c a) \<and> (trimmed a \<or> poly_deg b \<le> poly_deg a \<longrightarrow> trimmed r) \<and>
      (\<exists>q. gf.ser bch q \<and> deg_le q (poly_deg a) \<and> pcoef a = addf (conv (gf_mul bch) (monicf bch b) q) (pcoef r)) \<and>
      (poly_deg b \<le> poly_deg a \<longrightarrow>
        pcoef a = addf (conv (gf_mul bch) (monicf bch b) (quot (poly_deg b) (Suc (poly_deg a)) (poly_c r))) (pcoef r))"
  proof (cases "poly_deg a < poly_deg b")
    case True
    then have "r = a" by (simp add: r gf_poly_mod_rep_def)
    moreover have "conv (gf_mul bch) (monicf bch b) (\<lambda>_. 0) = (\<lambda>_. 0)"
      using gf.serD [OF ser_monicf [OF ok b(1,2)]] okE by (simp add: gf.conv_F fun_eq_iff gf.mul_0)
    ultimately show ?thesis
      using a True by (auto intro!: exI [of _ "\<lambda>_. 0"] simp: gf.ser_def deg_le_def addf_def)
  next
    case False
    let ?d = "poly_deg b" and ?A = "Suc (poly_deg a)"
    define c where "c = fold (poly_mod_step bch (gf_poly_logrep bch b) ?d) (rev [?d..<?A]) (poly_c a)"
    have rc: "r = \<lparr>poly_deg = trim_deg c (?d - 1), poly_c = c\<rparr>"
      using False by (simp add: r gf_poly_mod_rep_def Let_def c_def)
    have f: "length c = length (poly_c a)" "\<forall>x \<in> set c. x \<le> GF_N bch"
        "below ?A (poly_c a) = addf (conv (gf_mul bch) (monicf bch b) (quot ?d ?A c)) (below ?d c)"
      using poly_mod_fold [OF ok b(1,2) _ _ _ c_def] False a by (auto simp: pok_def Suc_leI)
    have "pcoef r = below ?d c" using trim_deg_pcoef [of c "?d - 1"] b(3) rc by simp
    moreover have "deg_le (quot ?d ?A c) (poly_deg a)" by (simp add: deg_le_def quot_def)
    moreover have "gf.ser bch (quot ?d ?A c)" by (rule ser_quot) (use f a in \<open>auto simp: pok_def\<close>)
    moreover have "pok bch r" using f rc a False trim_deg_le [of c "?d - 1"] by (auto simp: pok_def)
    moreover have "trimmed r" using trim_deg_nz [of c "?d - 1"] by (simp add: rc trimmed_def)
    ultimately show ?thesis using f rc pcoef_below [of a] by auto
  qed
  then show "pok bch r" "length (poly_c r) = length (poly_c a)" "trimmed a \<or> poly_deg b \<le> poly_deg a \<Longrightarrow> trimmed r"
    "\<exists>q. gf.ser bch q \<and> deg_le q (poly_deg a) \<and> pcoef a = addf (conv (gf_mul bch) (monicf bch b) q) (pcoef r)"
    "poly_deg b \<le> poly_deg a \<Longrightarrow>
      pcoef a = addf (conv (gf_mul bch) (monicf bch b) (quot (poly_deg b) (Suc (poly_deg a)) (poly_c r))) (pcoef r)"
    by auto
qed

section \<open>Values\<close>

definition peval :: "bch_control \<Rightarrow> gf_poly \<Rightarrow> nat \<Rightarrow> nat" where
  "peval bch f x = evalf (gf_mul bch) (pcoef f) (Suc (poly_deg f)) x"

lemma evalf_bound: 
  assumes "gf_ok p bch" "deg_le f d" "d < n" "d < k" "x \<le> GF_N bch"
  shows "evalf (gf_mul bch) f n x = evalf (gf_mul bch) f k x"
proof -
  have okE: "\<exists>p. gf_ok p bch" using assms(1) by blast
  show ?thesis
    using gf.evalf_extend [of bch f d n x] gf.evalf_extend [of bch f d k x] okE assms(2-5) by simp
qed

lemma peval_evalf:
  assumes "gf_ok p bch" "x \<le> GF_N bch" "poly_deg f < n"
  shows "peval bch f x = evalf (gf_mul bch) (pcoef f) n x"
  unfolding peval_def by (rule evalf_bound [OF assms(1) deg_le_pcoef _ assms(3,2)]) simp

lemma peval_closed: "gf_ok p bch \<Longrightarrow> pok bch f \<Longrightarrow> x \<le> GF_N bch \<Longrightarrow> peval bch f x \<le> GF_N bch"
  using gf.evalf_closed [of bch "pcoef f" x] pok_ser by (auto simp: peval_def)

lemma peval_monicf:
  assumes ok: "gf_ok p bch" and b: "pok bch b" "poly_c b ! poly_deg b \<noteq> 0" and x: "x \<le> GF_N bch"
  shows "evalf (gf_mul bch) (monicf bch b) (Suc (poly_deg b)) x = gf_mul bch (gf_inv bch (poly_c b ! poly_deg b)) (peval bch b x)"
proof -
  have okE: "\<exists>p. gf_ok p bch" using ok by blast
  have i: "gf_inv bch (poly_c b ! poly_deg b) \<le> GF_N bch"
    using gf_mul_inv(2) [OF ok pok_nth [OF b(1)] b(2)] b(1) by (simp add: pok_def)
  have m: "monicf bch b = conv (gf_mul bch) (monf (gf_inv bch (poly_c b ! poly_deg b)) 0) (pcoef b)"
    using gf.conv_monf [OF okE pok_ser [OF b(1)] i] by (simp add: monicf_def fun_eq_iff)
  have "evalf (gf_mul bch) (monf (gf_inv bch (poly_c b ! poly_deg b)) 0) (Suc 0) x = gf_inv bch (poly_c b ! poly_deg b)"
    using gf_mul_commute [OF ok i gf_one_le [OF ok]] gf_mul_one [OF ok i] by (simp add: evalf_def monf_def)
  moreover have "deg_le (monf (gf_inv bch (poly_c b ! poly_deg b)) 0) 0" by (simp add: deg_le_def monf_def)
  ultimately show ?thesis
    using gf.evalf_conv [OF okE gf.ser_monf [OF i] pok_ser [OF b(1)] _ deg_le_pcoef x, of 0 0] by (simp add: m peval_def)
qed

lemma evalf_sum_prod:
  assumes ok: "gf_ok p bch" and s: "gf.ser bch f" "gf.ser bch q" "gf.ser bch g" and d: "deg_le f a" "deg_le q b" "deg_le g e"
    and n: "a + b < n" "e < n" and x: "x \<le> GF_N bch"
  shows "evalf (gf_mul bch) (addf (conv (gf_mul bch) f q) g) n x =
    gf_mul bch (evalf (gf_mul bch) f (Suc a) x) (evalf (gf_mul bch) q (Suc b) x) XOR evalf (gf_mul bch) g (Suc e) x"
proof -
  have okE: "\<exists>p. gf_ok p bch" using ok by blast
  have "evalf (gf_mul bch) (conv (gf_mul bch) f q) n x = evalf (gf_mul bch) (conv (gf_mul bch) f q) (Suc (a + b)) x"
    by (rule evalf_bound [OF ok gf.deg_le_conv [OF okE s(1,2) d(1,2)] n(1) _ x]) simp
  moreover have "evalf (gf_mul bch) g n x = evalf (gf_mul bch) g (Suc e) x"
    by (rule evalf_bound [OF ok d(3) n(2) _ x]) simp
  ultimately show ?thesis
    using gf.evalf_addf [OF okE gf.ser_conv [OF okE s(1,2)] s(3) x] gf.evalf_conv [OF okE s(1,2) d(1,2) x] by simp
qed

lemma gf_poly_mod_eval:
  assumes ok: "gf_ok p bch" and a: "pok bch a" and b: "pok bch b" "poly_c b ! poly_deg b \<noteq> 0" "0 < poly_deg b"
    and rep: "rep = None \<or> rep = Some (gf_poly_logrep bch b)" and x: "x \<le> GF_N bch" "peval bch b x = 0"
  shows "peval bch (gf_poly_mod bch a b rep) x = peval bch a x"
proof -
  have okE: "\<exists>p. gf_ok p bch" using ok by blast
  note m = gf_poly_mod_spec [OF ok a b rep]
  let ?r = "gf_poly_mod bch a b rep"
  obtain q where q: "gf.ser bch q" "deg_le q (poly_deg a)" "pcoef a = addf (conv (gf_mul bch) (monicf bch b) q) (pcoef ?r)"
    using m(5) by blast
  have i: "gf_inv bch (poly_c b ! poly_deg b) \<le> GF_N bch"
    using gf_mul_inv(2) [OF ok pok_nth [OF b(1)] b(2)] b(1) by (simp add: pok_def)
  have z: "evalf (gf_mul bch) (monicf bch b) (Suc (poly_deg b)) x = 0"
    using peval_monicf [OF ok b(1,2) x(1)] x(2) gf.mul_0 [OF okE i] by simp
  let ?n = "Suc (poly_deg b + poly_deg a)"
  have "peval bch a x = evalf (gf_mul bch) (pcoef a) ?n x" by (rule peval_evalf [OF ok x(1)]) simp
  also have "\<dots> = peval bch ?r x"
    unfolding q(3) peval_def
    using evalf_sum_prod [OF ok ser_monicf [OF ok b(1,2)] q(1) pok_ser [OF m(1)] monicf_lead(2) [OF ok b(1,2)] q(2) deg_le_pcoef, of ?n x]
      m(3) z x gf.mul_zero [OF okE gf.evalf_closed [OF okE q(1) x(1)]] by simp
  finally show ?thesis by simp
qed

section \<open>Greatest common divisors\<close>

definition pdvd :: "bch_control \<Rightarrow> (nat \<Rightarrow> nat) \<Rightarrow> (nat \<Rightarrow> nat) \<Rightarrow> bool" where
  "pdvd bch g f \<longleftrightarrow> (\<exists>h e. gf.ser bch h \<and> deg_le h e \<and> f = conv (gf_mul bch) g h)"

lemma pdvd_refl: "gf_ok p bch \<Longrightarrow> gf.ser bch g \<Longrightarrow> pdvd bch g g"
proof -
  assume ok: "gf_ok p bch" and g: "gf.ser bch g"
  have okE: "\<exists>p. gf_ok p bch" using ok by blast
  have "conv (gf_mul bch) g onef = g" using gf.conv_one [OF okE g] gf.conv_commute [OF okE g gf.ser_onef [OF okE]] by simp
  then show ?thesis
    unfolding pdvd_def using gf.ser_onef [OF okE] by (intro exI [of _ onef] exI [of _ 0]) (simp add: deg_le_def onef_def)
qed

lemma pdvd_zero: "gf_ok p bch \<Longrightarrow> gf.ser bch g \<Longrightarrow> pdvd bch g (\<lambda>_. 0)"
proof -
  assume ok: "gf_ok p bch" and g: "gf.ser bch g"
  have okE: "\<exists>p. gf_ok p bch" using ok by blast
  have "conv (gf_mul bch) g (\<lambda>_. 0) = (\<lambda>_. 0)" using gf.mul_0 [OF okE gf.serD [OF g]] by (simp add: gf.conv_F fun_eq_iff)
  then show ?thesis
    unfolding pdvd_def by (intro exI [of _ "\<lambda>_. 0"] exI [of _ 0]) (simp add: deg_le_def gf.ser_def)
qed

lemma pdvd_combine:
  assumes ok: "gf_ok p bch" and s: "gf.ser bch g" "gf.ser bch q" "deg_le q d" and dv: "pdvd bch g f" "pdvd bch g r"
  shows "pdvd bch g (addf (conv (gf_mul bch) f q) r)"
proof -
  have okE: "\<exists>p. gf_ok p bch" using ok by blast
  obtain h e h' e' where h: "gf.ser bch h" "deg_le h e" "f = conv (gf_mul bch) g h" "gf.ser bch h'" "deg_le h' e'" "r = conv (gf_mul bch) g h'"
    using dv by (auto simp: pdvd_def)
  have "addf (conv (gf_mul bch) f q) r = conv (gf_mul bch) g (addf (conv (gf_mul bch) h q) h')"
    using h s by (simp add: gf.conv_assoc [OF okE] gf.conv_addf_right [OF okE] gf.ser_conv [OF okE])
  moreover have "deg_le (addf (conv (gf_mul bch) h q) h') (max (e + d) e')"
    using gf.deg_le_conv [OF okE h(1) s(2) h(2) s(3)] h(5) by (simp add: deg_le_def addf_def)
  moreover have "gf.ser bch (addf (conv (gf_mul bch) h q) h')" by (intro gf.ser_addf [OF okE] gf.ser_conv [OF okE] h s)
  ultimately show ?thesis unfolding pdvd_def by blast
qed

text \<open>
  The loop of \<open>gf_poly_gcd\<close> ends at a remainder of degree 0, which it takes for zero.
  That is right when the two polynomials have a common root.
\<close>

lemma gcd_loop_spec:
  assumes ok: "gf_ok p bch" and z: "z \<le> GF_N bch"
  shows "pok bch a \<Longrightarrow> pok bch b \<Longrightarrow> poly_c a ! poly_deg a \<noteq> 0 \<Longrightarrow> 0 < poly_deg a \<Longrightarrow> trimmed b \<Longrightarrow>
    peval bch a z = 0 \<Longrightarrow> peval bch b z = 0 \<Longrightarrow> g = gcd_loop bch a b \<Longrightarrow>
    pok bch g \<and> poly_c g ! poly_deg g \<noteq> 0 \<and> 0 < poly_deg g \<and>
    (\<forall>x \<le> GF_N bch. peval bch a x = 0 \<longrightarrow> peval bch b x = 0 \<longrightarrow> peval bch g x = 0) \<and>
    pdvd bch (pcoef g) (pcoef a) \<and> pdvd bch (pcoef g) (pcoef b)"
proof (induction "poly_deg b" arbitrary: a b g rule: less_induct)
  case less
  have okE: "\<exists>p. gf_ok p bch" using ok by blast
  show ?case
  proof (cases "0 < poly_deg b")
    case False
    then have "g = a" using less.prems(8) by (subst (asm) gcd_loop.simps) simp
    have p0: "pcoef b 0 \<le> GF_N bch" by (rule gf.serD [OF pok_ser [OF less.prems(2)]])
    have "peval bch b z = pcoef b 0"
      using False gf_mul_commute [OF ok p0 gf_one_le [OF ok]] gf_mul_one [OF ok p0] by (simp add: peval_def evalf_def)
    then have "pcoef b = (\<lambda>_. 0)" using less.prems(7) False by (auto simp: fun_eq_iff pcoef_def)
    then show ?thesis
      using \<open>g = a\<close> less.prems pdvd_refl [OF ok pok_ser] pdvd_zero [OF ok pok_ser] by simp
  next
    case True
    have lb: "poly_c b ! poly_deg b \<noteq> 0" using less.prems(5) True by (simp add: trimmed_def)
    define r where "r = gf_poly_mod bch a b None"
    note m = gf_poly_mod_spec [OF ok less.prems(1,2) lb True, of None, folded r_def, simplified]
    note ev = gf_poly_mod_eval [OF ok less.prems(1,2) lb True, of None, folded r_def, simplified]
    have g: "g = gcd_loop bch b r" using less.prems(8) True by (subst (asm) gcd_loop.simps) (simp add: r_def)
    have IH: "pok bch g \<and> poly_c g ! poly_deg g \<noteq> 0 \<and> 0 < poly_deg g \<and>
      (\<forall>x \<le> GF_N bch. peval bch b x = 0 \<longrightarrow> peval bch r x = 0 \<longrightarrow> peval bch g x = 0) \<and>
      pdvd bch (pcoef g) (pcoef b) \<and> pdvd bch (pcoef g) (pcoef r)"
      by (rule less.hyps [OF m(3) less.prems(2) m(1) lb True _ less.prems(7) _ g])
        (use m(4) ev [OF z less.prems(7)] less.prems(3,6) in \<open>auto simp: trimmed_def\<close>)
    obtain q where q: "gf.ser bch q" "deg_le q (poly_deg a)" "pcoef a = addf (conv (gf_mul bch) (monicf bch b) q) (pcoef r)"
      using m(5) by blast
    let ?i = "gf_inv bch (poly_c b ! poly_deg b)"
    have i: "?i \<le> GF_N bch" using gf_mul_inv(2) [OF ok pok_nth [OF less.prems(2)] lb] less.prems(2) by (simp add: pok_def)
    note sb = pok_ser [OF less.prems(2)] and sg = pok_ser [OF conjunct1 [OF IH]]
    have mb: "monicf bch b = conv (gf_mul bch) (pcoef b) (monf ?i 0)"
      using gf.conv_monf [OF okE sb i] gf.conv_commute [OF okE sb gf.ser_monf [OF i]] by (simp add: monicf_def fun_eq_iff)
    have "pdvd bch (pcoef g) (addf (conv (gf_mul bch) (pcoef b) (monf ?i 0)) (\<lambda>_. 0))"
      using IH by (intro pdvd_combine [OF ok sg gf.ser_monf [OF i], of _ 0] pdvd_zero [OF ok sg]) (auto simp: deg_le_def monf_def)
    then have "pdvd bch (pcoef g) (monicf bch b)" by (simp add: mb addf_self)
    then have "pdvd bch (pcoef g) (pcoef a)" unfolding q(3) using IH by (intro pdvd_combine [OF ok sg q(1,2)]) auto
    then show ?thesis using IH ev by simp
  qed
qed

text \<open>A divisor of a polynomial with distinct roots splits, and its roots are roots of what it divides.\<close>

lemma pdvd_root:
  assumes ok: "gf_ok p bch" and f: "pok bch f" and g: "pok bch g" and dv: "pdvd bch (pcoef g) (pcoef f)"
    and x: "x \<le> GF_N bch" "peval bch g x = 0"
  shows "peval bch f x = 0"
proof -
  have okE: "\<exists>p. gf_ok p bch" using ok by blast
  obtain h e where h: "gf.ser bch h" "deg_le h e" "pcoef f = conv (gf_mul bch) (pcoef g) h" using dv by (auto simp: pdvd_def)
  let ?n = "Suc (poly_deg f + (poly_deg g + e))"
  have "peval bch f x = evalf (gf_mul bch) (pcoef f) ?n x" by (rule peval_evalf [OF ok x(1)]) simp
  also have "\<dots> = evalf (gf_mul bch) (pcoef f) (Suc (poly_deg g + e)) x"
    unfolding h(3) by (rule evalf_bound [OF ok gf.deg_le_conv [OF okE pok_ser [OF g] h(1) deg_le_pcoef h(2)] _ _ x(1)]) simp_all
  also have "\<dots> = 0"
    unfolding h(3) gf.evalf_conv [OF okE pok_ser [OF g] h(1) deg_le_pcoef h(2) x(1)]
    using x(2) gf.mul_zero [OF okE gf.evalf_closed [OF okE h(1) x(1)]] by (simp add: peval_def)
  finally show ?thesis .
qed

section \<open>Removing roots\<close>

definition psplits :: "bch_control \<Rightarrow> gf_poly \<Rightarrow> nat set \<Rightarrow> bool" where
  "psplits bch f R \<longleftrightarrow> pok bch f \<and> poly_deg f = card R \<and> gf.splits bch (pcoef f) R"

lemma psplitsD:
  assumes ok: "gf_ok p bch" and f: "psplits bch f R"
  shows "pok bch f" "poly_deg f = card R" "gf.splits bch (pcoef f) R" "poly_c f ! poly_deg f \<noteq> 0" "finite R"
    "r \<in> R \<Longrightarrow> peval bch f r = 0" "r \<in> R \<Longrightarrow> r \<le> GF_N bch" "r \<in> R \<Longrightarrow> r \<noteq> 0"
    "r \<le> GF_N bch \<Longrightarrow> peval bch f r = 0 \<Longrightarrow> r \<in> R"
proof -
  have okE: "\<exists>p. gf_ok p bch" using ok by blast
  show f': "pok bch f" "poly_deg f = card R" "gf.splits bch (pcoef f) R" using f by (auto simp: psplits_def)
  note s = gf.splitsD [OF f'(3)]
  show "finite R" "r \<in> R \<Longrightarrow> peval bch f r = 0" "r \<in> R \<Longrightarrow> r \<le> GF_N bch" "r \<in> R \<Longrightarrow> r \<noteq> 0"
    using s f'(2) by (auto simp: peval_def)
  show "poly_c f ! poly_deg f \<noteq> 0" using gf.splits_lead [OF okE f'(3)] f'(2) by (simp add: pcoef_def)
  show "r \<le> GF_N bch \<Longrightarrow> peval bch f r = 0 \<Longrightarrow> r \<in> R" using gf.splits_only [OF okE f'(3)] f'(2) by (simp add: peval_def)
qed

lemma splits_monicf:
  assumes ok: "gf_ok p bch" and g: "psplits bch g Z"
  shows "gf.splits bch (monicf bch g) Z"
proof -
  have okE: "\<exists>p. gf_ok p bch" using ok by blast
  note G = psplitsD [OF ok g]
  have l: "poly_c g ! poly_deg g \<le> GF_N bch" using G(1) by (auto intro: pok_nth simp: pok_def)
  note i = gf_mul_inv [OF ok l G(4)]
  have nz: "gf_inv bch (poly_c g ! poly_deg g) \<noteq> 0" using i(1) gf.mul_0 [OF okE l] by (intro notI) simp
  have "monicf bch g 0 \<noteq> 0"
    using nz gf.splitsD(6) [OF G(3)] gf.mul_eq_0_iff [OF okE i(2) gf.serD [OF pok_ser [OF G(1)]]] by (simp add: monicf_def)
  then show ?thesis
    unfolding gf.splits_def
    using ser_monicf [OF ok G(1,4)] monicf_lead(2) [OF ok G(1,4)] G(2,5-8) peval_monicf [OF ok G(1,4)] gf.mul_0 [OF okE i(2)]
    by auto
qed

text \<open>\<open>gf_poly_div\<close> by a divisor whose roots are among those of the dividend.\<close>

lemma gf_poly_div_spec:
  assumes ok: "gf_ok p bch" and f: "psplits bch f R" and g: "psplits bch g Z" "Z \<subseteq> R" "0 < card Z"
    and buf: "pok bch buf" "length (poly_c buf) = length (poly_c f)"
    and q: "gf_poly_div bch f g buf = (f', q)"
  shows "psplits bch q (R - Z)" "length (poly_c q) = length (poly_c f)" "pok bch f'" "length (poly_c f') = length (poly_c f)"
proof -
  have okE: "\<exists>p. gf_ok p bch" using ok by blast
  note F = psplitsD [OF ok f] and G = psplitsD [OF ok g(1)]
  have le: "poly_deg g \<le> poly_deg f" "0 < poly_deg g" using F(2,5) G(2) g(2,3) card_mono by auto
  define r where "r = gf_poly_mod bch f g None"
  note m = gf_poly_mod_spec [OF ok F(1) G(1,4) le(2), of None, folded r_def, simplified]
  have qq: "f' = r" "q = \<lparr>poly_deg = poly_deg f - poly_deg g,
      poly_c = take (1 + (poly_deg f - poly_deg g)) (drop (poly_deg g) (poly_c r)) @ drop (1 + (poly_deg f - poly_deg g)) (poly_c buf)\<rparr>"
    using q le(1) by (auto simp: gf_poly_div_def Let_def r_def)
  show "pok bch f'" "length (poly_c f') = length (poly_c f)" using m(1,2) qq(1) by simp_all
  have lf: "poly_deg f < length (poly_c f)" using F(1) by (simp add: pok_def)
  show lq: "length (poly_c q) = length (poly_c f)" using qq(2) m(2) buf(2) lf le by simp
  have pq: "pcoef q = quot (poly_deg g) (Suc (poly_deg f)) (poly_c r)"
    using qq(2) lf m(2) le by (auto simp: pcoef_def quot_def fun_eq_iff nth_append add.commute)
  have "pok bch q" using m(1) buf(1) lq lf qq(2) by (auto simp: pok_def dest: in_set_takeD in_set_dropD)
  have "pcoef r = (\<lambda>_. 0)"
  proof (rule gf.roots_bound [OF okE pok_ser [OF m(1)] deg_le_pcoef G(5)])
    show "poly_deg r < card Z" using m(3) G(2) by simp
    fix z assume "z \<in> Z"
    then show "z \<le> GF_N bch \<and> evalf (gf_mul bch) (pcoef r) (Suc (poly_deg r)) z = 0"
      using gf_poly_mod_eval [OF ok F(1) G(1,4) le(2), of None z] G(6,7) F(6) g(2) by (auto simp: r_def peval_def)
  qed
  then have fq: "pcoef f = conv (gf_mul bch) (monicf bch g) (pcoef q)" using m(6) [OF le(1)] pq by (simp add: addf_self)
  have sm: "gf.splits bch (monicf bch g) Z" by (rule splits_monicf [OF ok g(1)])
  have Z: "{r \<in> R. evalf (gf_mul bch) (monicf bch g) (Suc (poly_deg g)) r = 0} = Z"
    using gf.splits_only [OF okE sm] gf.splitsD(7) [OF sm] G(2) F(7) g(2) by auto
  note d = gf.splits_divisor [OF okE F(3) ser_monicf [OF ok G(1,4)] monicf_lead(2) [OF ok G(1,4)] _ pok_ser [OF \<open>pok bch q\<close>] deg_le_pcoef fq,
      unfolded Z, simplified monicf_lead(1) [OF ok G(1,4)], simplified]
  have cd: "card (R - Z) = card R - poly_deg g" using G(2,5) g(2) by (simp add: card_Diff_subset)
  show "psplits bch q (R - Z)"
    using \<open>pok bch q\<close> qq(2) F(2,5,7,8) cd d(3,5,7) pok_ser [OF \<open>pok bch q\<close>] by (auto simp: psplits_def gf.splits_def)
qed

end
