(* ===== verification/Bch_Trace.thy ===== *)
theory Bch_Trace
  imports Bch_Division
begin

text \<open>
  The Berlekamp trace algorithm of lib/bch.c: \<open>compute_trace_bk_mod\<close> computes the
  trace polynomial modulo the polynomial to factor, and \<open>factor_polynomial\<close> separates
  the roots by the trace of their multiples.
\<close>

section \<open>The trace\<close>

definition frob :: "bch_control \<Rightarrow> nat \<Rightarrow> nat \<Rightarrow> nat" where
  "frob bch i x = (gf_sqr bch ^^ i) x"

definition gtrace :: "bch_control \<Rightarrow> nat \<Rightarrow> nat" where
  "gtrace bch x = xsum (\<lambda>i. frob bch i x) (GF_M bch)"

lemma sqr_closed: "gf_ok p bch \<Longrightarrow> x \<le> GF_N bch \<Longrightarrow> gf_sqr bch x \<le> GF_N bch"
  by (simp add: gf_sqr_mul gf_mul_closed)

lemma sqr_zero [simp]: "gf_sqr bch 0 = 0"
  by (simp add: gf_sqr_def)

lemma frob_closed: "gf_ok p bch \<Longrightarrow> x \<le> GF_N bch \<Longrightarrow> frob bch i x \<le> GF_N bch"
  by (induction i) (simp_all add: frob_def sqr_closed)

lemma frob_xor:
  assumes "gf_ok p bch" "x \<le> GF_N bch" "y \<le> GF_N bch"
  shows "frob bch i (x XOR y) = frob bch i x XOR frob bch i y"
  using assms by (induction i) (simp_all add: frob_def gf_sqr_xor frob_closed [unfolded frob_def])

lemma frob_alpha: "gf_ok p bch \<Longrightarrow> frob bch i (gf_alpha (GF_M bch) p j) = gf_alpha (GF_M bch) p (2 ^ i * j)"
  by (induction i) (simp_all add: frob_def gf_sqr_alpha mult.assoc)

lemma frob_zero [simp]: "frob bch i 0 = 0"
  by (induction i) (simp_all add: frob_def)

lemma frob_M:
  assumes ok: "gf_ok p bch" and x: "x \<le> GF_N bch"
  shows "frob bch (GF_M bch) x = x"
  using ok x
proof (cases rule: gf_element_cases)
  case (2 i)
  have "(2::nat) ^ GF_M bch = GF_N bch + 1" using gf_ok_facts(2,3) [OF ok] by simp
  then have "2 ^ GF_M bch * i mod GF_N bch = i mod GF_N bch" by simp
  then show ?thesis unfolding 2(2) frob_alpha [OF ok] using gf_alpha_mod_N [OF ok] by metis
qed simp

lemma xsum_le: "gf_ok p bch \<Longrightarrow> (\<And>k. k < n \<Longrightarrow> f k \<le> GF_N bch) \<Longrightarrow> xsum f n \<le> GF_N bch"
  by (induction n) (simp_all add: gf_xor_closed)

lemma gtrace_closed: "gf_ok p bch \<Longrightarrow> x \<le> GF_N bch \<Longrightarrow> gtrace bch x \<le> GF_N bch"
  unfolding gtrace_def by (rule xsum_le) (simp_all add: frob_closed)

lemma gtrace_xor:
  assumes "gf_ok p bch" "x \<le> GF_N bch" "y \<le> GF_N bch"
  shows "gtrace bch (x XOR y) = gtrace bch x XOR gtrace bch y"
  unfolding gtrace_def xsum_xor [symmetric] using frob_xor [OF assms] by simp

lemma gtrace_zero [simp]: "gtrace bch 0 = 0"
  by (simp add: gtrace_def)

lemma sqr_xsum:
  assumes "gf_ok p bch" "\<And>k. k < n \<Longrightarrow> f k \<le> GF_N bch"
  shows "gf_sqr bch (xsum f n) = xsum (\<lambda>k. gf_sqr bch (f k)) n"
  using assms by (induction n) (simp_all add: gf_sqr_xor xsum_le)

text \<open>The trace is its own square, hence 0 or 1.\<close>

lemma gtrace_sqr:
  assumes ok: "gf_ok p bch" and x: "x \<le> GF_N bch"
  shows "gf_sqr bch (gtrace bch x) = gtrace bch x"
proof -
  have m: "0 < GF_M bch" using gf_ok_facts(1) [OF ok] by (simp add: field_poly_def)
  have "gf_sqr bch (gtrace bch x) = xsum (\<lambda>i. frob bch (Suc i) x) (GF_M bch)"
    unfolding gtrace_def using sqr_xsum [OF ok, of "GF_M bch" "\<lambda>i. frob bch i x"] frob_closed [OF ok x] by (simp add: frob_def)
  moreover have "xsum (\<lambda>i. frob bch i x) (Suc (GF_M bch)) = x XOR xsum (\<lambda>i. frob bch (Suc i) x) (GF_M bch)"
    by (simp only: xsum_Suc_shift) (simp add: frob_def)
  moreover have "xsum (\<lambda>i. frob bch i x) (Suc (GF_M bch)) = gtrace bch x XOR x"
    using frob_M [OF ok x] by (simp add: gtrace_def)
  ultimately have "x XOR gf_sqr bch (gtrace bch x) = x XOR gtrace bch x" by (simp add: xor.commute)
  then show ?thesis by (metis xor.assoc xor_self_eq xor.left_neutral)
qed

lemma gtrace_binary:
  assumes ok: "gf_ok p bch" and x: "x \<le> GF_N bch"
  shows "gtrace bch x = 0 \<or> gtrace bch x = 1"
proof -
  let ?t = "gtrace bch x"
  have t: "?t \<le> GF_N bch" by (rule gtrace_closed [OF ok x])
  show ?thesis
  proof (cases "?t = 0")
    case False
    have "gf_mul bch ?t ?t = gf_mul bch ?t 1"
      using gtrace_sqr [OF ok x] gf_mul_one [OF ok t] gf_mul_commute [OF ok t gf_one_le [OF ok]] by (simp add: gf_sqr_mul)
    then show ?thesis using gf_mul_left_cancel [OF ok t t gf_one_le [OF ok] False] by simp
  qed simp
qed

section \<open>Nondegeneracy\<close>

text \<open>The trace as a polynomial of degree \<open>2 ^ (m - 1)\<close>: it cannot vanish everywhere.\<close>

definition tracef :: "bch_control \<Rightarrow> nat \<Rightarrow> nat" where
  "tracef bch n = (if n \<in> (\<lambda>i. 2 ^ i) ` {..<GF_M bch} then 1 else 0)"

lemma fpow_frob:
  assumes ok: "gf_ok p bch" and x: "x \<le> GF_N bch"
  shows "fpow (gf_mul bch) x (2 ^ i) = frob bch i x"
proof (induction i)
  case 0
  have "gf_mul bch x 1 = x" using gf_mul_one [OF ok x] gf_mul_commute [OF ok x gf_one_le [OF ok]] by simp
  then show ?case by (simp add: frob_def)
next
  case (Suc i)
  have "fpow (gf_mul bch) x (2 ^ i + 2 ^ i) = gf_mul bch (fpow (gf_mul bch) x (2 ^ i)) (fpow (gf_mul bch) x (2 ^ i))"
    by (rule gf.fpow_add) (use ok x in auto)
  then show ?case using Suc by (simp add: frob_def gf_sqr_mul mult_2)
qed

lemma tracef_eval:
  assumes ok: "gf_ok p bch" and x: "x \<le> GF_N bch"
  shows "evalf (gf_mul bch) (tracef bch) (Suc (2 ^ (GF_M bch - 1))) x = gtrace bch x"
proof -
  have okE: "\<exists>p. gf_ok p bch" using ok by blast
  let ?P = "(\<lambda>i. 2 ^ i) ` {..<GF_M bch} :: nat set"
  let ?h = "\<lambda>j. gf_mul bch (tracef bch j) (fpow (gf_mul bch) x j)"
  have inj: "inj_on (\<lambda>i. 2 ^ i :: nat) {..<GF_M bch}" by (rule inj_onI) simp
  have "evalf (gf_mul bch) (tracef bch) (Suc (2 ^ (GF_M bch - 1))) x = xs.F ?h ?P"
    unfolding gf.evalf_F
  proof (rule xs.mono_neutral_right)
    show "?P \<subseteq> {..<Suc (2 ^ (GF_M bch - 1))}"
    proof
      fix n assume "n \<in> ?P"
      then obtain i where "n = 2 ^ i" "i \<le> GF_M bch - 1" by auto
      then show "n \<in> {..<Suc (2 ^ (GF_M bch - 1))}" by (simp add: less_Suc_eq_le power_increasing)
    qed
    show "\<forall>i \<in> {..<Suc (2 ^ (GF_M bch - 1))} - ?P. ?h i = 0" by (simp add: tracef_def gf_mul_def)
  qed simp
  also have "\<dots> = xs.F (\<lambda>i. ?h (2 ^ i)) {..<GF_M bch}" using xs.reindex [OF inj, of ?h] by (simp add: comp_def)
  also have "\<dots> = gtrace bch x"
    unfolding gtrace_def xsum_F
  proof (rule xs.cong)
    fix i assume "i \<in> {..<GF_M bch}"
    then show "?h (2 ^ i) = frob bch i x"
      using gf_mul_one [OF ok frob_closed [OF ok x]] by (simp add: tracef_def fpow_frob [OF ok x])
  qed simp
  finally show ?thesis .
qed

lemma gtrace_not_zero:
  assumes ok: "gf_ok p bch"
  shows "\<exists>x \<le> GF_N bch. gtrace bch x \<noteq> 0"
proof (rule ccontr)
  assume a: "\<not> (\<exists>x \<le> GF_N bch. gtrace bch x \<noteq> 0)"
  have okE: "\<exists>p. gf_ok p bch" using ok by blast
  have m: "0 < GF_M bch" using gf_ok_facts(1) [OF ok] by (simp add: field_poly_def)
  have "tracef bch = (\<lambda>_. 0)"
  proof (rule gf.roots_bound [OF okE, of _ "2 ^ (GF_M bch - 1)" "{..GF_N bch}"])
    show "gf.ser bch (tracef bch)" using gf_one_le [OF ok] by (simp add: gf.ser_def tracef_def)
    show "deg_le (tracef bch) (2 ^ (GF_M bch - 1))"
      unfolding deg_le_def
    proof (intro allI impI)
      fix n :: nat assume n: "2 ^ (GF_M bch - 1) < n"
      have "n \<noteq> 2 ^ i" if "i < GF_M bch" for i
      proof -
        have "(2::nat) ^ i \<le> 2 ^ (GF_M bch - 1)" using that by (intro power_increasing) auto
        then show ?thesis using n by linarith
      qed
      then show "tracef bch n = 0" by (auto simp: tracef_def)
    qed
    have "(2::nat) ^ (GF_M bch - 1) < 2 ^ GF_M bch" using m by (intro power_strict_increasing) auto
    then show "2 ^ (GF_M bch - 1) < card {..GF_N bch}" using gf_ok_facts(2,3) [OF ok] by simp
    show "r \<le> GF_N bch \<and> evalf (gf_mul bch) (tracef bch) (Suc (2 ^ (GF_M bch - 1))) r = 0" if "r \<in> {..GF_N bch}" for r
      using that a tracef_eval [OF ok] by simp
  qed simp
  moreover have "tracef bch 1 = 1" using m by (auto simp: tracef_def image_iff intro!: bexI [of _ 0])
  ultimately show False by simp
qed

text \<open>A product as a sum of multiples by powers of the root.\<close>

lemma peasant_xsum: "gf_peasant m p j a b = xsum (\<lambda>i. if bit b i then (gf_shift m p ^^ i) a else 0) j"
proof (induction j arbitrary: a b)
  case (Suc j)
  have "gf_peasant m p j (gf_shift m p a) (b div 2) = xsum (\<lambda>i. if bit b (Suc i) then (gf_shift m p ^^ Suc i) a else 0) j"
    unfolding Suc.IH by (rule xsum_cong) (simp add: bit_Suc funpow_swap1)
  then show ?case unfolding xsum_Suc_shift by (simp add: bit_0)
qed simp

lemma shift_pow_mul:
  assumes ok: "gf_ok p bch" and a: "a \<le> GF_N bch"
  shows "(gf_shift (GF_M bch) p ^^ i) a = gf_mul bch (gf_alpha (GF_M bch) p i) a"
proof (cases "a = 0")
  case True
  have "(gf_shift (GF_M bch) p ^^ i) 0 = 0" by (induction i) simp_all
  then show ?thesis using True by (simp add: gf_mul_def)
next
  case False
  then obtain j where "a = gf_alpha (GF_M bch) p j" using gf_element_cases [OF ok a] by metis
  then show ?thesis using gf_alpha_add [of "GF_M bch" p i j] gf_mul_alpha [OF ok, of i j] by simp
qed

lemma mul_xsum_alpha:
  assumes ok: "gf_ok p bch" and a: "a \<le> GF_N bch" and b: "b \<le> GF_N bch"
  shows "gf_mul bch a b = xsum (\<lambda>i. if bit b i then gf_mul bch (gf_alpha (GF_M bch) p i) a else 0) (GF_M bch)"
  unfolding gf_mul_peasant [OF ok a b] peasant_xsum by (rule xsum_cong) (simp add: shift_pow_mul [OF ok a])

lemma gtrace_xsum:
  assumes "gf_ok p bch" "\<And>k. k < n \<Longrightarrow> f k \<le> GF_N bch"
  shows "gtrace bch (xsum f n) = xsum (\<lambda>k. gtrace bch (f k)) n"
  using assms by (induction n) (simp_all add: gtrace_xor xsum_le)

text \<open>Elements are determined by the traces of their multiples with \<open>a, ..., a ^ m\<close>.\<close>

lemma gtrace_nondegenerate:
  assumes ok: "gf_ok p bch" and y: "y \<le> GF_N bch"
    and tr: "\<And>k. 1 \<le> k \<Longrightarrow> k \<le> GF_M bch \<Longrightarrow> gtrace bch (gf_mul bch (gf_alpha (GF_M bch) p k) y) = 0"
  shows "y = 0"
proof (rule ccontr)
  assume nz: "y \<noteq> 0"
  have okE: "\<exists>p. gf_ok p bch" using ok by blast
  let ?al = "gf_alpha (GF_M bch) p" and ?m = "gf_mul bch"
  note al = gf_alpha_le_N [OF ok]
  define a where "a = ?m (?al 1) y"
  have a: "a \<le> GF_N bch" "a \<noteq> 0"
    using gf_mul_closed [OF ok al y, of 1] gf_mul_eq_0 [OF ok al y, of 1] nz gf_alpha_pos [OF gf_ok_facts(1) [OF ok], of 1]
    by (simp_all add: a_def del: gf_alpha.simps)
  have all: "gtrace bch (?m a b) = 0" if b: "b \<le> GF_N bch" for b
  proof -
    have "?m (?al i) a = ?m (?al (Suc i)) y" for i
      using gf_mul_assoc [OF ok al al y, of i 1] gf_mul_alpha [OF ok, of i 1] by (simp add: a_def del: gf_alpha.simps)
    then have "gtrace bch (if bit b i then ?m (?al i) a else 0) = 0" if "i < GF_M bch" for i using tr [of "Suc i"] that by simp
    then show ?thesis
      unfolding mul_xsum_alpha [OF ok a(1) b]
      using gtrace_xsum [OF ok, of "GF_M bch" "\<lambda>i. if bit b i then ?m (?al i) a else 0"] gf_mul_closed [OF ok al a(1)]
      by (simp add: xsum_eq_0)
  qed
  obtain x where x: "x \<le> GF_N bch" "gtrace bch x \<noteq> 0" using gtrace_not_zero [OF ok] by blast
  note i = gf_mul_inv [OF ok a]
  have "?m a (?m (gf_inv bch a) x) = x" using gf_mul_assoc [OF ok a(1) i(2) x(1)] i(1) gf_mul_one [OF ok x(1)] by simp
  then show False using all [OF gf_mul_closed [OF ok i(2) x(1)]] x(2) by simp
qed

section \<open>Squaring in place\<close>

lemma trace_add_sqr_fold:
  assumes "2 * k \<le> length zc" "k \<le> length oc" and "(zc', oc') = fold (trace_add_sqr bch) (rev [0..<k]) (zc, oc)"
  shows "length zc' = length zc \<and> length oc' = length oc \<and>
    (\<forall>n < length zc. zc' ! n = (if n < 2 * k then if even n then gf_sqr bch (zc ! (n div 2)) else 0 else zc ! n)) \<and>
    (\<forall>n < length oc. oc' ! n = oc ! n XOR (if n < k then zc ! n else 0))"
  using assms
proof (induction k arbitrary: zc oc)
  case (Suc k)
  define z1 o1 where "z1 = zc[2 * k := gf_sqr bch (zc ! k), 2 * k + 1 := 0]" and "o1 = oc[k := oc ! k XOR zc ! k]"
  have "trace_add_sqr bch k (zc, oc) = (z1, o1)" by (simp add: trace_add_sqr_def z1_def o1_def)
  then have "(zc', oc') = fold (trace_add_sqr bch) (rev [0..<k]) (z1, o1)" using Suc.prems(3) by simp
  then have IH: "length zc' = length z1 \<and> length oc' = length o1 \<and>
    (\<forall>n < length z1. zc' ! n = (if n < 2 * k then if even n then gf_sqr bch (z1 ! (n div 2)) else 0 else z1 ! n)) \<and>
    (\<forall>n < length o1. oc' ! n = o1 ! n XOR (if n < k then z1 ! n else 0))"
    by (rule Suc.IH [rotated 2]) (use Suc.prems in \<open>simp_all add: z1_def o1_def\<close>)
  have z1: "z1 ! n = zc ! n" if "n < k" for n using that by (simp add: z1_def)
  have z2: "z1 ! n = (if n = 2 * k then gf_sqr bch (zc ! k) else if n = 2 * k + 1 then 0 else zc ! n)" if "n < length zc" for n
    using that Suc.prems(1) by (auto simp: z1_def nth_list_update)
  have lens: "length z1 = length zc" "length o1 = length oc" by (simp_all add: z1_def o1_def)
  have "zc' ! n = (if n < 2 * Suc k then if even n then gf_sqr bch (zc ! (n div 2)) else 0 else zc ! n)" if n: "n < length zc" for n
  proof -
    have "n < 2 * k \<or> n = 2 * k \<or> n = 2 * k + 1 \<or> 2 * Suc k \<le> n" by arith
    then consider "n < 2 * k" | "n = 2 * k" | "n = 2 * k + 1" | "2 * Suc k \<le> n" by blast
    then show ?thesis
      by cases (use IH n z2 [OF n] z1 [of "n div 2"] lens in \<open>auto\<close>)
  qed
  moreover have "oc' ! n = oc ! n XOR (if n < Suc k then zc ! n else 0)" if "n < length oc" for n
    using IH that lens z1 [of n] by (auto simp: o1_def nth_list_update less_Suc_eq)
  ultimately show ?case using IH lens by simp
qed simp

text \<open>The squared coefficients are those of the square.\<close>

lemma sqr_mul: "gf_ok p bch \<Longrightarrow> a \<le> GF_N bch \<Longrightarrow> b \<le> GF_N bch \<Longrightarrow> gf_sqr bch (gf_mul bch a b) = gf_mul bch (gf_sqr bch a) (gf_sqr bch b)"
proof -
  assume ok: "gf_ok p bch" and a: "a \<le> GF_N bch" and b: "b \<le> GF_N bch"
  show ?thesis
    using gf_mul_assoc [OF ok a b gf_mul_closed [OF ok a b]] gf_mul_assoc [OF ok b a b] gf_mul_assoc [OF ok a a gf_mul_closed [OF ok b b]]
      gf_mul_assoc [OF ok a b b] gf_mul_commute [OF ok a b]
    by (simp add: gf_sqr_mul)
qed

lemma evalf_sqr:
  assumes ok: "gf_ok p bch" and f: "gf.ser bch f" and x: "x \<le> GF_N bch"
    and g: "\<And>j. j < n \<Longrightarrow> g (2 * j) = gf_sqr bch (f j)" "\<And>j. j < n \<Longrightarrow> g (2 * j + 1) = 0"
  shows "evalf (gf_mul bch) g (2 * n) x = gf_sqr bch (evalf (gf_mul bch) f n x)"
  using g
proof (induction n)
  case (Suc n)
  have okE: "\<exists>p. gf_ok p bch" using ok by blast
  let ?p = "fpow (gf_mul bch) x"
  have p: "?p k \<le> GF_N bch" for k by (rule gf.fpow_closed [OF okE x])
  have "gf_mul bch (gf_sqr bch (f n)) (?p (2 * n)) = gf_sqr bch (gf_mul bch (f n) (?p n))"
    using sqr_mul [OF ok gf.serD [OF f] p] gf.fpow_add [OF okE x, of n n] by (simp add: gf_sqr_mul mult_2)
  moreover have "gf_mul bch 0 (?p (2 * n + 1)) = 0" by (simp add: gf_mul_def)
  ultimately have "evalf (gf_mul bch) g (2 * Suc n) x = gf_sqr bch (evalf (gf_mul bch) f n x) XOR gf_sqr bch (gf_mul bch (f n) (?p n))"
    using Suc by (simp add: evalf_def del: fpow.simps)
  also have "\<dots> = gf_sqr bch (evalf (gf_mul bch) f (Suc n) x)"
    using gf_sqr_xor [OF ok gf.evalf_closed [OF okE f x] gf_mul_closed [OF ok gf.serD [OF f] p]] by (simp add: evalf_def)
  finally show ?case .
qed (simp add: evalf_def)

section \<open>The trace polynomial modulo a polynomial\<close>

text \<open>
  The state before pass \<open>i\<close>: at the roots \<open>R\<close> of the modulus, \<open>z\<close> is the
  \<open>2 ^ i\<close>-th power of the multiple by \<open>b\<close>, and \<open>out\<close> the sum of the powers so far.
\<close>

definition tr_out :: "bch_control \<Rightarrow> nat \<Rightarrow> nat set \<Rightarrow> nat \<Rightarrow> nat \<Rightarrow> gf_poly \<Rightarrow> bool" where
  "tr_out bch d R b i out \<longleftrightarrow> pok bch out \<and> length (poly_c out) = 2 * GF_T bch + 1 \<and> poly_deg out < d \<and>
     (\<forall>n \<le> d. poly_deg out < n \<longrightarrow> poly_c out ! n = 0) \<and>
     (\<forall>r \<in> R. peval bch out r = xsum (\<lambda>k. frob bch k (gf_mul bch b r)) i)"

definition tr_z :: "bch_control \<Rightarrow> nat \<Rightarrow> nat set \<Rightarrow> nat \<Rightarrow> nat \<Rightarrow> gf_poly \<Rightarrow> bool" where
  "tr_z bch d R b i z \<longleftrightarrow> pok bch z \<and> length (poly_c z) = 2 * GF_T bch + 1 \<and> poly_deg z < d \<and>
     (\<forall>r \<in> R. peval bch z r = frob bch i (gf_mul bch b r))"

lemma peval_add:
  assumes ok: "gf_ok p bch" and f: "pok bch f" and g: "pok bch g" and x: "x \<le> GF_N bch"
    and h: "pcoef h = addf (pcoef f) (pcoef g)"
  shows "peval bch h x = peval bch f x XOR peval bch g x"
proof -
  have okE: "\<exists>p. gf_ok p bch" using ok by blast
  let ?n = "Suc (poly_deg h + poly_deg f + poly_deg g)"
  have "peval bch h x = evalf (gf_mul bch) (addf (pcoef f) (pcoef g)) ?n x"
    unfolding h [symmetric] by (rule peval_evalf [OF ok x]) simp
  then show ?thesis
    using gf.evalf_addf [OF okE pok_ser [OF f] pok_ser [OF g] x, of ?n] peval_evalf [OF ok x, of f ?n] peval_evalf [OF ok x, of g ?n] by simp
qed

lemma trace_pass:
  assumes ok: "gf_ok p bch" and R: "\<And>r. r \<in> R \<Longrightarrow> r \<le> GF_N bch" and d: "d \<le> GF_T bch"
    and z: "tr_z bch d R b i z" and out: "tr_out bch d R b i out"
    and pass: "(zc, oc) = fold (trace_add_sqr bch) (rev [0..<Suc (poly_deg z)]) (poly_c z, poly_c out)"
  shows "tr_out bch d R b (Suc i) \<lparr>poly_deg = max (poly_deg out) (poly_deg z), poly_c = oc\<rparr>"
    and "pok bch \<lparr>poly_deg = poly_deg z * 2, poly_c = zc\<rparr>" "length zc = 2 * GF_T bch + 1"
    and "r \<in> R \<Longrightarrow> peval bch \<lparr>poly_deg = poly_deg z * 2, poly_c = zc\<rparr> r = frob bch (Suc i) (gf_mul bch b r)"
proof -
  have Z: "pok bch z" "length (poly_c z) = 2 * GF_T bch + 1" "poly_deg z < d" "\<And>r. r \<in> R \<Longrightarrow> peval bch z r = frob bch i (gf_mul bch b r)"
    using z by (auto simp: tr_z_def)
  have O: "pok bch out" "length (poly_c out) = 2 * GF_T bch + 1" "poly_deg out < d" "\<And>n. n \<le> d \<Longrightarrow> poly_deg out < n \<Longrightarrow> poly_c out ! n = 0"
    "\<And>r. r \<in> R \<Longrightarrow> peval bch out r = xsum (\<lambda>k. frob bch k (gf_mul bch b r)) i"
    using out by (auto simp: tr_out_def)
  have "2 * Suc (poly_deg z) \<le> length (poly_c z)" "Suc (poly_deg z) \<le> length (poly_c out)" using Z(2,3) O(2) d by auto
  note f = trace_add_sqr_fold [OF this pass]
  have zc: "length zc = 2 * GF_T bch + 1" "length oc = 2 * GF_T bch + 1" using f Z(2) O(2) by auto
  then show "length zc = 2 * GF_T bch + 1" by simp
  have zn: "zc ! n = (if n < 2 * Suc (poly_deg z) then if even n then gf_sqr bch (poly_c z ! (n div 2)) else 0 else poly_c z ! n)"
    if "n < 2 * GF_T bch + 1" for n using f that Z(2) by auto
  have onth: "oc ! n = poly_c out ! n XOR (if n < Suc (poly_deg z) then poly_c z ! n else 0)" if "n < 2 * GF_T bch + 1" for n
    using f that O(2) by auto
  have "zc ! n \<le> GF_N bch" "oc ! n \<le> GF_N bch" if "n < 2 * GF_T bch + 1" for n
    using zn [OF that] onth [OF that] that Z(2) O(2) pok_nth [OF Z(1)] pok_nth [OF O(1)] sqr_closed [OF ok] gf_xor_closed [OF ok]
    by auto
  then have le: "\<forall>x \<in> set zc. x \<le> GF_N bch" "\<forall>x \<in> set oc. x \<le> GF_N bch" using zc by (auto simp: in_set_conv_nth)
  then show "pok bch \<lparr>poly_deg = poly_deg z * 2, poly_c = zc\<rparr>" using zc Z(3) d by (simp add: pok_def)
  let ?o = "\<lparr>poly_deg = max (poly_deg out) (poly_deg z), poly_c = oc\<rparr>"
  have po: "pcoef ?o = addf (pcoef out) (pcoef z)"
  proof
    fix n show "pcoef ?o n = addf (pcoef out) (pcoef z) n"
      using onth [of n] O(3) O(4) [of n] Z(3) d by (auto simp: pcoef_def addf_def)
  qed
  have hi: "oc ! n = 0" if "n \<le> d" "max (poly_deg out) (poly_deg z) < n" for n using onth [of n] O(4) [of n] that d by simp
  have "pok bch ?o" using le zc Z(3) O(3) d by (simp add: pok_def)
  then show "tr_out bch d R b (Suc i) ?o"
    using hi zc O(3,5) Z(3,4) peval_add [OF ok O(1) Z(1) R po] by (auto simp: tr_out_def)
  assume r: "r \<in> R"
  let ?q = "\<lparr>poly_deg = poly_deg z * 2, poly_c = zc\<rparr>"
  have "peval bch ?q r = evalf (gf_mul bch) (pcoef ?q) (2 * Suc (poly_deg z)) r" by (rule peval_evalf [OF ok R [OF r]]) simp
  also have "\<dots> = gf_sqr bch (evalf (gf_mul bch) (pcoef z) (Suc (poly_deg z)) r)"
  proof (rule evalf_sqr [OF ok pok_ser [OF Z(1)] R [OF r]])
    fix j assume "j < Suc (poly_deg z)"
    then have "2 * j < 2 * GF_T bch + 1" "2 * j + 1 < 2 * GF_T bch + 1" using Z(3) d by auto
    then show "pcoef ?q (2 * j) = gf_sqr bch (pcoef z j)" "pcoef ?q (2 * j + 1) = 0"
      using zn [of "2 * j"] zn [of "2 * j + 1"] \<open>j < Suc (poly_deg z)\<close> by (auto simp: pcoef_def)
  qed
  also have "\<dots> = frob bch (Suc i) (gf_mul bch b r)" using Z(4) [OF r] by (simp add: peval_def frob_def)
  finally show "peval bch ?q r = frob bch (Suc i) (gf_mul bch b r)" .
qed

lemma trace_step_out:
  assumes ok: "gf_ok p bch" and R: "\<And>r. r \<in> R \<Longrightarrow> r \<le> GF_N bch" and d: "d \<le> GF_T bch"
    and z: "tr_z bch d R b i z" and out: "tr_out bch d R b i out"
  shows "tr_out bch d R b (Suc i) (snd (trace_step bch f rep i (z, out)))"
proof -
  obtain zc oc where zo: "(zc, oc) = fold (trace_add_sqr bch) (rev [0..<Suc (poly_deg z)]) (poly_c z, poly_c out)" by (metis surj_pair)
  then have "snd (trace_step bch f rep i (z, out)) = \<lparr>poly_deg = max (poly_deg out) (poly_deg z), poly_c = oc\<rparr>"
    by (simp add: trace_step_def max_def Let_def split: prod.splits del: upt_Suc) (metis Pair_inject less_imp_le not_le order_antisym)
  then show ?thesis using trace_pass(1) [OF ok R d z out zo] by simp
qed

lemma trace_step_inv:
  assumes ok: "gf_ok p bch" and f: "psplits bch f R" "2 \<le> card R" "card R \<le> GF_T bch" and i: "i < GF_M bch - 1"
    and z: "tr_z bch (card R) R b i z" and out: "tr_out bch (card R) R b i out"
  shows "tr_z bch (card R) R b (Suc i) (fst (trace_step bch f (gf_poly_logrep bch f) i (z, out)))"
proof -
  note F = psplitsD [OF ok f(1)]
  obtain zc oc where zo: "(zc, oc) = fold (trace_add_sqr bch) (rev [0..<Suc (poly_deg z)]) (poly_c z, poly_c out)" by (metis surj_pair)
  let ?q = "\<lparr>poly_deg = poly_deg z * 2, poly_c = zc\<rparr>"
  have e: "fst (trace_step bch f (gf_poly_logrep bch f) i (z, out)) = gf_poly_mod bch ?q f (Some (gf_poly_logrep bch f))"
    using zo i by (simp add: trace_step_def Let_def split: prod.splits del: upt_Suc) (metis Pair_inject)
  note t = trace_pass [OF ok F(7) f(3) z out zo]
  have d: "0 < poly_deg f" using F(2) f(2) by simp
  note m = gf_poly_mod_spec [OF ok t(2) F(1,4) d, of "Some (gf_poly_logrep bch f)", simplified]
    and ev = gf_poly_mod_eval [OF ok t(2) F(1,4) d, of "Some (gf_poly_logrep bch f)", simplified]
  show ?thesis
    unfolding e tr_z_def using m(1-3) t(3,4) ev F(2,6,7) by simp
qed

lemma trace_fold_inv:
  assumes ok: "gf_ok p bch" and f: "psplits bch f R" "2 \<le> card R" "card R \<le> GF_T bch"
    and z: "tr_z bch (card R) R b 0 z" and out: "tr_out bch (card R) R b 0 out"
  shows "i \<le> GF_M bch - 1 \<Longrightarrow> (z', out') = fold (trace_step bch f (gf_poly_logrep bch f)) [0..<i] (z, out) \<Longrightarrow>
    tr_z bch (card R) R b i z' \<and> tr_out bch (card R) R b i out'"
proof (induction i arbitrary: z' out')
  case (Suc i)
  obtain z1 o1 where zo: "(z1, o1) = fold (trace_step bch f (gf_poly_logrep bch f)) [0..<i] (z, out)" by (metis surj_pair)
  then have IH: "tr_z bch (card R) R b i z1" "tr_out bch (card R) R b i o1" using Suc by auto
  have "(z', out') = trace_step bch f (gf_poly_logrep bch f) i (z1, o1)" using Suc.prems(2) zo by simp
  then show ?case
    using trace_step_inv [OF ok f _ IH] trace_step_out [OF ok psplitsD(7) [OF ok f(1)] f(3) IH] Suc.prems(1)
    by (metis Suc_le_lessD fst_conv snd_conv)
qed (use z out in auto)

text \<open>What \<open>factor_polynomial\<close> works with: the traces of the roots, as a polynomial of smaller degree.\<close>

lemma compute_trace_spec:
  assumes ok: "gf_ok p bch" and f: "psplits bch f R" "2 \<le> card R" "card R \<le> GF_T bch"
    and k: "k \<le> GF_M bch" and buf: "pok bch buf" "length (poly_c buf) = 2 * GF_T bch + 1"
  defines "tk \<equiv> compute_trace_bk_mod bch k f buf buf"
  shows "pok bch tk" "trimmed tk" "poly_deg tk < card R"
    "r \<in> R \<Longrightarrow> peval bch tk r = gtrace bch (gf_mul bch (gf_alpha (GF_M bch) p k) r)"
proof -
  have okE: "\<exists>p. gf_ok p bch" using ok by blast
  note F = psplitsD [OF ok f(1)]
  let ?b = "gf_alpha (GF_M bch) p k"
  have b: "?b \<le> GF_N bch" by (rule gf_alpha_le_N [OF ok])
  have m: "0 < GF_M bch" using gf_ok_facts(1) [OF ok] by (simp add: field_poly_def)
  have "k < 2 ^ GF_M bch" using k less_exp [of "GF_M bch"] by (rule le_less_trans)
  then have ak: "a_pow_tab bch ! k = ?b" using gf_ok_pow [OF ok, of k] gf_ok_facts(2) [OF ok] by simp
  define z0 where "z0 = \<lparr>poly_deg = 1, poly_c = (poly_c buf)[0 := 0, 1 := a_pow_tab bch ! k]\<rparr>"
  define out0 where "out0 = \<lparr>poly_deg = 0, poly_c = replicate (poly_deg f + 1) 0 @ drop (poly_deg f + 1) (poly_c buf)\<rparr>"
  have "pcoef z0 = linf 0 ?b"
    using buf(2) f(2,3) ak by (auto simp: z0_def pcoef_def linf_def fun_eq_iff nth_list_update)
  then have ev: "peval bch z0 r = gf_mul bch ?b r" if "r \<in> R" for r
    using gf.evalf_linf [OF okE _ b F(7) [OF that], of 0] by (simp add: peval_def z0_def numeral_2_eq_2)
  have "\<forall>x \<in> set (poly_c z0). x \<le> GF_N bch"
    using buf(1) ak b set_update_subset_insert [of "(poly_c buf)[0 := 0]" 1] set_update_subset_insert [of "poly_c buf" 0]
    by (fastforce simp: z0_def pok_def)
  then have z: "tr_z bch (card R) R ?b 0 z0"
    using buf(2) f(2,3) ev by (simp add: tr_z_def pok_def) (simp add: z0_def frob_def)
  have out: "tr_out bch (card R) R ?b 0 out0"
    using buf f(2,3) F(2) by (auto simp: tr_out_def pok_def peval_def evalf_def pcoef_def gf_mul_def out0_def nth_append dest: in_set_dropD)
  let ?step = "trace_step bch f (gf_poly_logrep bch f)"
  obtain z1 o1 where zo: "(z1, o1) = fold ?step [0..<GF_M bch - 1] (z0, out0)" by (metis surj_pair)
  have inv: "tr_z bch (card R) R ?b (GF_M bch - 1) z1" "tr_out bch (card R) R ?b (GF_M bch - 1) o1"
    using trace_fold_inv [OF ok f z out order.refl zo] by auto
  define o2 where "o2 = snd (?step (GF_M bch - 1) (z1, o1))"
  have "[0..<GF_M bch] = [0..<GF_M bch - 1] @ [GF_M bch - 1]" using m upt_Suc_append [of 0 "GF_M bch - 1"] by simp
  then have "snd (fold ?step [0..<GF_M bch] (z0, out0)) = o2" using zo by (simp add: o2_def)
  then have tk: "tk = o2\<lparr>poly_deg := trim_deg (poly_c o2) (poly_deg o2)\<rparr>"
    by (simp add: tk_def compute_trace_bk_mod_def Let_def z0_def out0_def)
  have "tr_out bch (card R) R ?b (GF_M bch) o2"
    using trace_step_out [OF ok F(7) f(3) inv] m by (simp add: o2_def)
  then have O: "pok bch o2" "poly_deg o2 < card R" "\<And>r. r \<in> R \<Longrightarrow> peval bch o2 r = gtrace bch (gf_mul bch ?b r)"
    by (auto simp: tr_out_def gtrace_def)
  note tl = trim_deg_le [of "poly_c o2" "poly_deg o2"]
  show "pok bch tk" "poly_deg tk < card R" using O tl by (auto simp: tk pok_def)
  show "trimmed tk" using trim_deg_nz [of "poly_c o2" "poly_deg o2"] by (simp add: tk trimmed_def)
  have "tk = \<lparr>poly_deg = trim_deg (poly_c o2) (poly_deg o2), poly_c = poly_c o2\<rparr>" by (simp add: tk)
  then have pc: "pcoef tk = pcoef o2" using trim_deg_pcoef [of "poly_c o2" "poly_deg o2"] by (simp add: pcoef_below [of o2])
  have td: "poly_deg tk < Suc (poly_deg o2)" using tl by (simp add: tk)
  show "r \<in> R \<Longrightarrow> peval bch tk r = gtrace bch (gf_mul bch ?b r)"
    using O(3) [of r] peval_evalf [OF ok F(7) td, of r] by (simp add: pc peval_def)
qed

section \<open>Separating the roots\<close>

lemma psplits_copy:
  assumes "psplits bch f R" "pok bch dst" "poly_deg f < length (poly_c dst)"
  shows "psplits bch (gf_poly_copy dst f) R" "length (poly_c (gf_poly_copy dst f)) = length (poly_c dst)"
proof -
  have f: "pok bch f" "poly_deg f = card R" "gf.splits bch (pcoef f) R" using assms(1) by (auto simp: psplits_def)
  show l: "length (poly_c (gf_poly_copy dst f)) = length (poly_c dst)" using f(1) assms(3) by (simp add: gf_poly_copy_def pok_def)
  have "pok bch (gf_poly_copy dst f)"
    using f(1) assms(2,3) l by (auto simp: pok_def gf_poly_copy_def dest: in_set_takeD in_set_dropD)
  then show "psplits bch (gf_poly_copy dst f) R" using f pcoef_copy [of f dst] by (auto simp: psplits_def pok_def)
qed

lemma pok_buf: "pok bch (poly_2t_buf bch)" "length (poly_c (poly_2t_buf bch)) = 2 * GF_T bch + 1"
  by (simp_all add: pok_def poly_2t_buf_def)

lemma peval_const: "gf_ok p bch \<Longrightarrow> pok bch f \<Longrightarrow> poly_deg f = 0 \<Longrightarrow> peval bch f x = pcoef f 0"
  using gf_mul_commute [of p bch "pcoef f 0" 1] gf_mul_one [of p bch "pcoef f 0"] gf.serD [OF pok_ser, of bch f 0] gf_one_le [of p bch]
  by (simp add: peval_def evalf_def)

text \<open>A polynomial of smaller degree that is constant on the roots is constant.\<close>

lemma constant_on_roots:
  assumes ok: "gf_ok p bch" and f: "psplits bch f R" and g: "pok bch g" "trimmed g" "poly_deg g < card R"
    and c: "c \<le> GF_N bch" "\<And>r. r \<in> R \<Longrightarrow> peval bch g r = c"
  shows "poly_deg g = 0"
proof (rule ccontr)
  assume nz: "poly_deg g \<noteq> 0"
  have okE: "\<exists>p. gf_ok p bch" using ok by blast
  note F = psplitsD [OF ok f]
  let ?h = "addf (pcoef g) (monf c 0)"
  note s = pok_ser [OF g(1)] gf.ser_monf [OF c(1), of 0]
  have "?h = (\<lambda>_. 0)"
  proof (rule gf.roots_bound [OF okE gf.ser_addf [OF okE s] _ F(5) g(3)])
    show "deg_le ?h (poly_deg g)" using deg_le_pcoef [of g] by (simp add: deg_le_def addf_def monf_def)
    fix r assume r: "r \<in> R"
    note rN = F(7) [OF r]
    have "deg_le (monf c 0) 0" by (simp add: deg_le_def monf_def)
    from evalf_bound [OF ok this, of "Suc (poly_deg g)" 1 r] rN have "evalf (gf_mul bch) (monf c 0) (Suc (poly_deg g)) r = c"
      using gf_mul_commute [OF ok c(1) gf_one_le [OF ok]] gf_mul_one [OF ok c(1)] by (simp add: evalf_def monf_def)
    then show "r \<le> GF_N bch \<and> evalf (gf_mul bch) ?h (Suc (poly_deg g)) r = 0"
      using rN gf.evalf_addf [OF okE s rN] c(2) [OF r] by (simp add: peval_def)
  qed
  then have "?h (poly_deg g) = 0" by simp
  then show False using nz g(2) by (simp add: addf_def monf_def pcoef_def trimmed_def)
qed

lemma factor_none:
  assumes ok: "gf_ok p bch" and f: "psplits bch f R" "2 \<le> card R" "card R \<le> GF_T bch" and k: "k \<le> GF_M bch"
    and c: "\<And>r s. r \<in> R \<Longrightarrow> s \<in> R \<Longrightarrow>
      gtrace bch (gf_mul bch (gf_alpha (GF_M bch) p k) r) = gtrace bch (gf_mul bch (gf_alpha (GF_M bch) p k) s)"
  shows "factor_polynomial bch k f = (f, None)"
proof -
  note t = compute_trace_spec [OF ok f k pok_buf] and F = psplitsD [OF ok f(1)]
  have "R \<noteq> {}" using f(2) by auto
  then obtain s where s: "s \<in> R" by blast
  have "gtrace bch (gf_mul bch (gf_alpha (GF_M bch) p k) s) \<le> GF_N bch"
    by (rule gtrace_closed [OF ok gf_mul_closed [OF ok gf_alpha_le_N [OF ok] F(7) [OF s]]])
  then have "poly_deg (compute_trace_bk_mod bch k f (poly_2t_buf bch) (poly_2t_buf bch)) = 0"
    by (rule constant_on_roots [OF ok f(1) t(1-3)]) (rule trans [OF t(4) c [OF _ s]])
  then show ?thesis by (simp add: factor_polynomial_def Let_def)
qed

lemma factor_some:
  assumes ok: "gf_ok p bch" and f: "psplits bch f R" "2 \<le> card R" "card R \<le> GF_T bch" and k: "k \<le> GF_M bch"
    and len: "length (poly_c f) = 2 * GF_T bch + 1"
  defines "Z \<equiv> {r \<in> R. gtrace bch (gf_mul bch (gf_alpha (GF_M bch) p k) r) = 0}"
  assumes Z: "Z \<noteq> {}" "Z \<noteq> R"
  obtains g h where "factor_polynomial bch k f = (g, Some h)" "psplits bch g Z" "psplits bch h (R - Z)"
    "length (poly_c g) = 2 * GF_T bch + 1" "length (poly_c h) = 2 * GF_T bch + 1"
proof -
  have okE: "\<exists>p. gf_ok p bch" using ok by blast
  define tk where "tk = compute_trace_bk_mod bch k f (poly_2t_buf bch) (poly_2t_buf bch)"
  note t = compute_trace_spec [OF ok f k pok_buf, folded tk_def] and F = psplitsD [OF ok f(1)]
  have ZR: "Z \<subseteq> R" "finite Z" using F(5) by (auto simp: Z_def)
  obtain z s where z: "z \<in> Z" and s: "s \<in> R - Z" using Z ZR by blast
  have td: "0 < poly_deg tk"
  proof (rule ccontr)
    assume "\<not> 0 < poly_deg tk"
    then have "peval bch tk z = peval bch tk s" using peval_const [OF ok t(1)] by simp
    then show False using t(4) z s ZR by (auto simp: Z_def)
  qed
  let ?f2 = "gf_poly_copy (poly_2t_buf bch) f"
  have f2: "psplits bch ?f2 R" "poly_deg ?f2 = card R"
    using psplits_copy(1) [OF f(1) pok_buf(1)] pok_buf(2) [of bch] F(2) f(3) by simp_all
  note F2 = psplitsD [OF ok f2(1)]
  define g where "g = gf_poly_gcd bch ?f2 tk"
  have g: "g = gcd_loop bch ?f2 tk" using t(3) f2(2) by (simp add: g_def gf_poly_gcd_def)
  have zz: "z \<le> GF_N bch" "peval bch ?f2 z = 0" "peval bch tk z = 0" using z ZR F2(6,7) t(4) by (auto simp: Z_def)
  have "0 < poly_deg ?f2" using f2(2) f(2) by simp
  note gs = gcd_loop_spec [OF ok zz(1) F2(1) t(1) F2(4) this t(2) zz(2,3) g]
  have G: "pok bch g" "poly_c g ! poly_deg g \<noteq> 0" "0 < poly_deg g" using gs by auto
  have roots: "{r \<in> R. evalf (gf_mul bch) (pcoef g) (Suc (poly_deg g)) r = 0} = Z"
  proof -
    have "peval bch g r = 0 \<longleftrightarrow> r \<in> Z" if "r \<in> R" for r
      using pdvd_root [OF ok t(1) G(1) _ F(7) [OF that]] gs t(4) [OF that] F2(6,7) [OF that] that by (auto simp: Z_def)
    then show ?thesis using ZR by (auto simp: peval_def)
  qed
  obtain h e where h: "gf.ser bch h" "deg_le h e" "pcoef ?f2 = conv (gf_mul bch) (pcoef g) h" using gs by (auto simp: pdvd_def)
  have lead: "pcoef g (poly_deg g) \<noteq> 0" using G(2) by (simp add: pcoef_def)
  note dv = gf.splits_divisor [OF okE F2(3) pok_ser [OF G(1)] deg_le_pcoef lead h, unfolded roots]
  have sg: "psplits bch g Z" using dv(1,2) G(1) by (simp add: psplits_def)
  have cZ: "card Z < card R" "0 < card Z" using ZR Z F(5) by (auto intro: psubset_card_mono simp: card_gt_0_iff)
  obtain f' q where q: "gf_poly_div bch f g (poly_2t_buf bch) = (f', q)" by (metis surj_pair)
  note d = gf_poly_div_spec [OF ok f(1) sg ZR(1) cZ(2) pok_buf(1) _ q, simplified len pok_buf(2), simplified]
  have lq: "poly_deg q < 2 * GF_T bch + 1" using d(1,2) by (simp add: psplits_def pok_def)
  have lg: "poly_deg g < length (poly_c f')" using d(4) cZ(1) f(3) dv(2) by simp
  have "factor_polynomial bch k f = (gf_poly_copy f' g, Some (gf_poly_copy (poly_2t_buf bch) q))"
    using td q cZ(1) dv(2) F(2) by (simp add: factor_polynomial_def Let_def flip: tk_def g_def)
  then show ?thesis
    using that psplits_copy [OF sg d(3) lg] psplits_copy [OF d(1) pok_buf(1)] lq d(4) pok_buf(2) [of bch] by simp
qed

end
