(* ===== verification/Bch_Quadratic.thy ===== *)
theory Bch_Quadratic
  imports Bch_Trace
begin

text \<open>
  The direct solvers of lib/bch.c for degrees 1 and 2.  The quadratic one looks up a
  solution of \<open>y * y + y = u\<close> bit by bit in the table \<open>xi_tab\<close>.
\<close>

section \<open>Logarithms of inverses\<close>

lemma a_ilog_elem:
  assumes ok: "gf_ok p bch" and r: "r \<le> GF_N bch" "r \<noteq> 0"
  shows "a_ilog bch r < GF_N bch" "gf_alpha (GF_M bch) p (a_ilog bch r) = gf_inv bch r"
proof -
  note l = gf_ok_log [OF ok _ r(1)]
  have n: "0 < GF_N bch" by (rule gf_ok_facts(3) [OF ok])
  have lt: "GF_N bch - a_log_tab bch ! r < 2 * GF_N bch" using n by simp
  show "a_ilog bch r < GF_N bch" using mod_s_eq [OF lt] n by (simp add: a_ilog_def)
  have "gf_alpha (GF_M bch) p (mod_s bch (GF_N bch - a_log_tab bch ! r)) = gf_alpha (GF_M bch) p (GF_N bch - a_log_tab bch ! r)"
    using mod_s_eq [OF lt] gf_alpha_mod_N [OF ok] by metis
  also have "\<dots> = gf_inv bch r" using gf_inv_alpha [OF ok, of "a_log_tab bch ! r"] l r(2) by simp
  finally show "gf_alpha (GF_M bch) p (a_ilog bch r) = gf_inv bch r" by (simp add: a_ilog_def)
qed

lemma alpha_inj:
  assumes "gf_ok p bch" "i < GF_N bch" "j < GF_N bch" "gf_alpha (GF_M bch) p i = gf_alpha (GF_M bch) p j"
  shows "i = j"
  using assms a_log_alpha by metis

lemma inv_eq_iff:
  assumes ok: "gf_ok p bch" and a: "a \<le> GF_N bch" "a \<noteq> 0" and b: "b \<le> GF_N bch" "b \<noteq> 0"
  shows "gf_inv bch a = gf_inv bch b \<longleftrightarrow> a = b"
proof -
  have "inj_on (gf_inv bch) {x. x \<le> GF_N bch \<and> x \<noteq> 0}" by (rule gf.inv_inj_on) (use ok in blast)
  then show ?thesis by (rule inj_on_eq_iff) (use a b in simp_all)
qed

lemma a_ilog_inj: "gf_ok p bch \<Longrightarrow> inj_on (a_ilog bch) {r. r \<le> GF_N bch \<and> r \<noteq> 0}"
proof (rule inj_onI)
  fix r s assume ok: "gf_ok p bch" and rs: "r \<in> {r. r \<le> GF_N bch \<and> r \<noteq> 0}" "s \<in> {r. r \<le> GF_N bch \<and> r \<noteq> 0}" "a_ilog bch r = a_ilog bch s"
  then have r: "r \<le> GF_N bch" "r \<noteq> 0" and s: "s \<le> GF_N bch" "s \<noteq> 0" by auto
  have "gf_inv bch r = gf_inv bch s" using a_ilog_elem(2) [OF ok r] a_ilog_elem(2) [OF ok s] rs(3) by simp
  then show "r = s" using inv_eq_iff [OF ok r s] by simp
qed

text \<open>What a root finder returns: the logarithms of the inverses of the roots, each once.\<close>

definition finds :: "bch_control \<Rightarrow> nat list \<Rightarrow> nat set \<Rightarrow> bool" where
  "finds bch L R \<longleftrightarrow> distinct L \<and> set L = a_ilog bch ` R"

text \<open>It is enough to exhibit as many distinct roots as the degree.\<close>

lemma finds_roots:
  assumes ok: "gf_ok p bch" and f: "psplits bch f R" and X: "distinct X" "length X = card R"
    and root: "\<And>x. x \<in> set X \<Longrightarrow> x \<le> GF_N bch \<and> peval bch f x = 0"
  shows "finds bch (map (a_ilog bch) X) R"
proof -
  note F = psplitsD [OF ok f]
  have "set X \<subseteq> R" using root F(9) by blast
  moreover have "card (set X) = card R" using X distinct_card by metis
  ultimately have XR: "set X = R" using F(5) card_subset_eq by blast
  moreover have "inj_on (a_ilog bch) (set X)" by (rule inj_on_subset [OF a_ilog_inj [OF ok]]) (use XR F(7,8) in auto)
  ultimately show ?thesis using X(1) by (auto simp: finds_def distinct_map)
qed

section \<open>Degree 1\<close>

lemma mul_one_right: "gf_ok p bch \<Longrightarrow> a \<le> GF_N bch \<Longrightarrow> gf_mul bch a 1 = a"
  using gf_mul_commute [of p bch a 1] gf_mul_one [of p bch a] gf_one_le [of p bch] by simp

lemma psplits_nz:
  assumes ok: "gf_ok p bch" and f: "psplits bch f R"
  shows "poly_c f ! 0 \<noteq> 0" "poly_c f ! card R \<noteq> 0" "n \<le> card R \<Longrightarrow> poly_c f ! n \<le> GF_N bch"
proof -
  note F = psplitsD [OF ok f]
  show "poly_c f ! 0 \<noteq> 0" using gf.splitsD(6) [OF F(3)] by (simp add: pcoef_def)
  show "poly_c f ! card R \<noteq> 0" using F(2,4) by simp
  show "n \<le> card R \<Longrightarrow> poly_c f ! n \<le> GF_N bch" using pok_nth [OF F(1)] F(1,2) by (simp add: pok_def)
qed

lemma alpha_cong: "gf_ok p bch \<Longrightarrow> i mod GF_N bch = j mod GF_N bch \<Longrightarrow> gf_alpha (GF_M bch) p i = gf_alpha (GF_M bch) p j"
  using gf_alpha_mod_N by metis

text \<open>A location is the logarithm of the inverse of \<open>x\<close> when it is below \<open>n\<close> and its power is that inverse.\<close>

lemma a_ilog_eq:
  assumes ok: "gf_ok p bch" and x: "x \<le> GF_N bch" "gf_mul bch (gf_alpha (GF_M bch) p l) x = 1" and l: "l < GF_N bch"
  shows "l = a_ilog bch x"
proof -
  have okE: "\<exists>p. gf_ok p bch" using ok by blast
  have nz: "x \<noteq> 0" using x(2) gf.mul_0 [OF okE gf_alpha_le_N [OF ok]] by (intro notI) simp
  note i = gf_mul_inv [OF ok x(1) nz]
  have "gf_mul bch x (gf_alpha (GF_M bch) p l) = gf_mul bch x (gf_inv bch x)"
    using x i(1) gf_mul_commute [OF ok x(1) gf_alpha_le_N [OF ok]] by simp
  then have "gf_alpha (GF_M bch) p l = gf_inv bch x"
    by (rule gf_mul_left_cancel [OF ok x(1) gf_alpha_le_N [OF ok] i(2) nz])
  then show ?thesis using alpha_inj [OF ok l a_ilog_elem(1) [OF ok x(1) nz]] a_ilog_elem(2) [OF ok x(1) nz] by simp
qed

lemma find_poly_deg1_correct:
  assumes ok: "gf_ok p bch" and f: "psplits bch f R" "card R = 1"
  shows "finds bch (find_poly_deg1_roots bch f) R"
proof -
  have okE: "\<exists>p. gf_ok p bch" using ok by blast
  note F = psplitsD [OF ok f(1)] and N = psplits_nz [OF ok f(1), unfolded f(2)]
  let ?c0 = "poly_c f ! 0" and ?c1 = "poly_c f ! 1"
  obtain r where R: "R = {r}" using f(2) card_1_singletonE by blast
  have r: "r \<le> GF_N bch" "peval bch f r = 0" using F(6,7) R by auto
  have "?c0 XOR gf_mul bch ?c1 r = 0"
    using r F(2) f(2) mul_one_right [OF ok N(3) [of 0]] mul_one_right [OF ok r(1)] by (simp add: peval_def evalf_def pcoef_def)
  then have c0: "?c0 = gf_mul bch ?c1 r" by (simp add: xor_eq_0_iff)
  note l0 = gf_ok_log [OF ok _ N(3) [of 0]] and l1 = gf_ok_log [OF ok _ N(3) [of 1]]
  let ?l0 = "a_log_tab bch ! ?c0" and ?l1 = "a_log_tab bch ! ?c1"
  have l: "?l0 < GF_N bch" "?l1 < GF_N bch" "gf_alpha (GF_M bch) p ?l0 = ?c0" "gf_alpha (GF_M bch) p ?l1 = ?c1"
    using l0 l1 N(1,2) by auto
  let ?v = "GF_N bch - ?l0 + ?l1"
  have v: "?v < 2 * GF_N bch" using l by linarith
  have "gf_mul bch (gf_alpha (GF_M bch) p (mod_s bch ?v)) r = 1"
  proof -
    have al: "gf_alpha (GF_M bch) p (mod_s bch ?v) = gf_mul bch (gf_inv bch ?c0) ?c1"
      using alpha_cong [OF ok, of "mod_s bch ?v" ?v] mod_s_eq [OF v] gf_mul_alpha [OF ok, of "GF_N bch - ?l0" ?l1]
        gf_inv_alpha [OF ok l(1)] l(3,4) by simp
    note i = gf_mul_inv [OF ok N(3) [of 0] N(1), simplified]
    show ?thesis
      unfolding al using gf_mul_assoc [OF ok i(2) N(3) [of 1] r(1)] c0 i(1) gf_mul_commute [OF ok N(3) [of 0] i(2)] by simp
  qed
  then have "mod_s bch ?v = a_ilog bch r"
    by (rule a_ilog_eq [OF ok r(1)]) (use mod_s_eq [OF v] gf_ok_facts(3) [OF ok] in simp)
  then show ?thesis using N(1) R by (simp add: find_poly_deg1_roots_def finds_def)
qed

section \<open>Degree 2\<close>

text \<open>What \<open>build_deg2_base\<close> establishes, for an element \<open>ak\<close> of trace 1.\<close>

definition xi_ok :: "nat \<Rightarrow> bch_control \<Rightarrow> bool" where
  "xi_ok p bch \<longleftrightarrow> (\<exists>ak \<le> GF_N bch. gtrace bch ak = 1 \<and>
     (\<forall>i < GF_M bch. xi_tab bch ! i \<le> GF_N bch \<and>
        gf_sqr bch (xi_tab bch ! i) XOR xi_tab bch ! i \<in> {gf_alpha (GF_M bch) p i, gf_alpha (GF_M bch) p i XOR ak}))"

lemma xsum_top_bit:
  fixes v :: nat
  assumes "bit v i" "i < n"
  shows "xsum (\<lambda>k. if bit v k then f k else 0) n = xsum (\<lambda>k. if bit (v XOR 2 ^ i) k then f k else 0) n XOR f i"
proof -
  have "xsum (\<lambda>k. if bit v k then f k else 0) n =
      xsum (\<lambda>k. (if bit (v XOR 2 ^ i) k then f k else 0) XOR (if k = i then f k else 0)) n"
    by (rule xsum_cong) (use assms(1) in \<open>auto simp: bit_xor_iff bit_exp_iff\<close>)
  then show ?thesis using xsum_single [OF assms(2), of f] by (simp add: xsum_xor)
qed

lemma sum_xi_xsum: "v < 2 ^ n \<Longrightarrow> sum_xi xi v r = r XOR xsum (\<lambda>i. if bit v i then xi ! i else 0) n"
proof (induction xi v r rule: sum_xi.induct)
  case (1 xi v r)
  show ?case
  proof (cases "v = 0")
    case True
    then show ?thesis by (subst sum_xi.simps) simp
  next
    case False
    let ?i = "nat (deg v)" and ?v = "v XOR 2 ^ nat (deg v)"
    have b: "bit v ?i" using fls_bits [OF False refl] by (simp add: nat_deg)
    have i: "?i < n"
    proof (rule ccontr)
      assume "\<not> ?i < n"
      then have "(2::nat) ^ n \<le> 2 ^ ?i" by (intro power_increasing) auto
      then have "v < 2 ^ ?i" by (rule less_le_trans [OF "1.prems"])
      then have "\<not> bit v ?i" by (simp add: bit_iff_odd)
      then show False using b by simp
    qed
    have "?v < 2 ^ n" using xor_top_less [OF False] "1.prems" by simp
    then have "sum_xi xi ?v (r XOR xi ! ?i) = (r XOR xi ! ?i) XOR xsum (\<lambda>i. if bit ?v i then xi ! i else 0) n"
      using "1.IH" [OF False refl] by blast
    then show ?thesis
      using False xsum_top_bit [OF b i, of "\<lambda>i. xi ! i"] by (subst sum_xi.simps) (simp add: Let_def xor_simps)
  qed
qed

lemma gtrace_of_sqr: "gf_ok p bch \<Longrightarrow> x \<le> GF_N bch \<Longrightarrow> gtrace bch (gf_sqr bch x) = gtrace bch x"
proof -
  assume ok: "gf_ok p bch" and x: "x \<le> GF_N bch"
  have "gtrace bch (gf_sqr bch x) = gf_sqr bch (gtrace bch x)"
    unfolding gtrace_def using sqr_xsum [OF ok, of "GF_M bch" "\<lambda>i. frob bch i x"] frob_closed [OF ok x]
    by (simp add: frob_def funpow_swap1)
  then show ?thesis using gtrace_sqr [OF ok x] by simp
qed

lemma gtrace_artin_schreier:
  assumes ok: "gf_ok p bch" and x: "x \<le> GF_N bch"
  shows "gtrace bch (gf_sqr bch x XOR x) = 0"
  using gtrace_xor [OF ok sqr_closed [OF ok x] x] gtrace_of_sqr [OF ok x] by simp

text \<open>The table gives a solution of \<open>y * y + y = u\<close> whenever the trace of \<open>u\<close> vanishes.\<close>

lemma xi_solves:
  assumes ok: "gf_ok p bch" and xi: "xi_ok p bch" and u: "u \<le> GF_N bch" "gtrace bch u = 0"
  defines "r \<equiv> sum_xi (xi_tab bch) u 0"
  shows "r \<le> GF_N bch" "gf_sqr bch r XOR r = u"
proof -
  let ?m = "GF_M bch" and ?al = "gf_alpha (GF_M bch) p" and ?x = "\<lambda>i. xi_tab bch ! i"
  note al = gf_alpha_le_N [OF ok]
  obtain ak where ak: "ak \<le> GF_N bch" "gtrace bch ak = 1" and x: "\<And>i. i < ?m \<Longrightarrow> ?x i \<le> GF_N bch"
    "\<And>i. i < ?m \<Longrightarrow> gf_sqr bch (?x i) XOR ?x i \<in> {?al i, ?al i XOR ak}"
    using xi by (auto simp: xi_ok_def)
  have h: "gf_sqr bch (?x i) XOR ?x i = ?al i XOR gf_mul bch ak (gtrace bch (?al i))" if i: "i < ?m" for i
    using x(2) [OF i] gtrace_artin_schreier [OF ok x(1) [OF i]] gtrace_xor [OF ok al ak(1), of i] ak(2) gtrace_binary [OF ok al, of i]
      mul_one_right [OF ok ak(1)] by (auto simp: gf_mul_def [of _ _ 0])
  have r: "r = xsum (\<lambda>i. if bit u i then ?x i else 0) ?m"
    using sum_xi_xsum [of u ?m "xi_tab bch" 0] u(1) gf_ok_facts(2,3) [OF ok] by (simp add: r_def)
  have le: "(if bit u i then ?x i else 0) \<le> GF_N bch" if "i < ?m" for i using x(1) [OF that] by simp
  show "r \<le> GF_N bch" unfolding r by (rule xsum_le [OF ok le])
  have tr: "gtrace bch (?al i) \<le> GF_N bch" for i by (rule gtrace_closed [OF ok al])
  have us: "u = xsum (\<lambda>i. if bit u i then ?al i else 0) ?m"
    using mul_xsum_alpha [OF ok gf_one_le [OF ok] u(1)] gf_mul_one [OF ok u(1)] mul_one_right [OF ok al] by (simp cong: if_cong)
  have "gf_sqr bch r XOR r = xsum (\<lambda>i. gf_sqr bch (if bit u i then ?x i else 0) XOR (if bit u i then ?x i else 0)) ?m"
    unfolding r xsum_xor using sqr_xsum [OF ok, of ?m "\<lambda>i. if bit u i then ?x i else 0"] le by simp
  also have "\<dots> = xsum (\<lambda>i. (if bit u i then ?al i else 0) XOR gf_mul bch ak (if bit u i then gtrace bch (?al i) else 0)) ?m"
    by (rule xsum_cong) (auto simp: h gf_mul_def [of _ _ 0])
  also have "\<dots> = u XOR gf_mul bch ak (xsum (\<lambda>i. if bit u i then gtrace bch (?al i) else 0) ?m)"
    using gf_mul_xsum [OF ok ak(1), of "\<lambda>i. if bit u i then gtrace bch (?al i) else 0" ?m] tr us by (simp add: xsum_xor)
  also have "xsum (\<lambda>i. if bit u i then gtrace bch (?al i) else 0) ?m = gtrace bch u"
    using gtrace_xsum [OF ok, of ?m "\<lambda>i. if bit u i then ?al i else 0"] al us by (simp add: if_distrib cong: if_cong)
  finally show "gf_sqr bch r XOR r = u" using u(2) by (simp add: gf_mul_def [of _ _ 0])
qed

text \<open>The value of a quadratic polynomial.\<close>

lemma peval_deg2:
  assumes ok: "gf_ok p bch" and f: "pok bch f" "poly_deg f = 2" and x: "x \<le> GF_N bch"
  shows "peval bch f x = poly_c f ! 0 XOR (gf_mul bch (poly_c f ! 1) x XOR gf_mul bch (poly_c f ! 2) (gf_sqr bch x))"
proof -
  have "poly_c f ! n \<le> GF_N bch" if "n \<le> 2" for n using that f by (auto intro!: pok_nth simp: pok_def)
  then show ?thesis
    using f(2) mul_one_right [OF ok x] mul_one_right [OF ok, of "poly_c f ! 0"]
    by (simp add: peval_def evalf_def pcoef_def numeral_2_eq_2 gf_sqr_mul xor.assoc)
qed

text \<open>
  With \<open>w = c1 / c2\<close> and \<open>u = c0 * c2 / (c1 * c1)\<close>, the roots of the polynomial are \<open>w\<close>
  times the solutions of \<open>y * y + y = u\<close>.
\<close>

lemma quadratic_scaled:
  assumes ok: "gf_ok p bch" and c: "c0 \<le> GF_N bch" "c1 \<le> GF_N bch" "c2 \<le> GF_N bch" and w: "w \<le> GF_N bch" "gf_mul bch c2 w = c1"
    and u: "u \<le> GF_N bch" "gf_mul bch (gf_mul bch c1 w) u = c0" and y: "y \<le> GF_N bch"
  shows "c0 XOR (gf_mul bch c1 (gf_mul bch w y) XOR gf_mul bch c2 (gf_sqr bch (gf_mul bch w y))) =
    gf_mul bch (gf_mul bch c1 w) (u XOR (y XOR gf_sqr bch y))"
proof -
  let ?m = "gf_mul bch"
  note y2 = sqr_closed [OF ok y] and w2 = sqr_closed [OF ok w(1)] and cw = gf_mul_closed [OF ok c(2) w(1)]
  have "?m c2 (gf_sqr bch w) = ?m c1 w" using gf_mul_assoc [OF ok c(3) w(1) w(1)] w(2) by (simp add: gf_sqr_mul)
  then have a: "?m c2 (gf_sqr bch (?m w y)) = ?m (?m c1 w) (gf_sqr bch y)"
    using sqr_mul [OF ok w(1) y] gf_mul_assoc [OF ok c(3) w2 y2] by simp
  have b: "?m c1 (?m w y) = ?m (?m c1 w) y" using gf_mul_assoc [OF ok c(2) w(1) y] by simp
  show ?thesis
    using u gf_mul_xor_right [OF ok u(1) gf_xor_closed [OF ok y y2] cw] gf_mul_xor_right [OF ok y y2 cw] a b by simp
qed

text \<open>The logarithms that the code computes with.\<close>

lemma a_pow_nat:
  assumes ok: "gf_ok p bch" and i: "i < 2 ^ 32"
  shows "a_pow bch (int i) = gf_alpha (GF_M bch) p i"
proof -
  have "int i < int (2 ^ 32)" using i by (simp only: of_nat_less_iff)
  then show ?thesis using a_pow_alpha [OF ok, of "int i"] by (simp only: nat_int of_nat_0_le_iff of_nat_power of_nat_numeral)
qed

lemma modulo_mod: "gf_ok p bch \<Longrightarrow> modulo bch v = v mod GF_N bch"
  using gf_ok_facts(1,2) [of p bch] by (simp add: modulo_def modulo_loop_eq field_poly_def)

lemma quadratic_logs:
  assumes ok: "gf_ok p bch" and c: "c0 \<le> GF_N bch" "c0 \<noteq> 0" "c1 \<le> GF_N bch" "c1 \<noteq> 0" "c2 \<le> GF_N bch" "c2 \<noteq> 0"
  defines "l0 \<equiv> a_log_tab bch ! c0" and "l1 \<equiv> a_log_tab bch ! c1" and "l2 \<equiv> a_log_tab bch ! c2"
  obtains w u where "u = a_pow bch (int (l0 + l2 + 2 * (GF_N bch - l1)))" "u \<le> GF_N bch" "w \<le> GF_N bch" "w \<noteq> 0"
    "gf_mul bch c2 w = c1" "gf_mul bch (gf_mul bch c1 w) u = c0"
    "\<And>y. y \<le> GF_N bch \<Longrightarrow> y \<noteq> 0 \<Longrightarrow> modulo bch (2 * GF_N bch - l1 - a_log_tab bch ! y + l2) = a_ilog bch (gf_mul bch w y)"
proof -
  let ?m = "gf_mul bch" and ?al = "gf_alpha (GF_M bch) p" and ?N = "GF_N bch"
  note al = gf_alpha_le_N [OF ok]
  have l: "l0 < ?N" "l1 < ?N" "l2 < ?N" "?al l0 = c0" "?al l1 = c1" "?al l2 = c2"
    using gf_ok_log [OF ok _ c(1)] gf_ok_log [OF ok _ c(3)] gf_ok_log [OF ok _ c(5)] c(2,4,6) by (auto simp: l0_def l1_def l2_def)
  let ?w = "?al (?N - l2 + l1)" and ?u = "a_pow bch (int (l0 + l2 + 2 * (?N - l1)))"
  have u: "?u = ?al (l0 + l2 + 2 * (?N - l1))" by (rule a_pow_nat [OF ok]) (use l field_size [OF ok] in simp)
  have "?m c2 ?w = ?al (l2 + (?N - l2 + l1))" unfolding l(6) [symmetric] by (rule gf_mul_alpha [OF ok])
  also have "\<dots> = ?al l1" using l(3) by (intro alpha_cong [OF ok]) simp
  finally have cw: "?m c2 ?w = c1" using l(5) by simp
  have "?m (?m c1 ?w) ?u = ?al (l1 + (?N - l2 + l1) + (l0 + l2 + 2 * (?N - l1)))"
    unfolding l(5) [symmetric] u by (simp only: gf_mul_alpha [OF ok])
  also have "l1 + (?N - l2 + l1) + (l0 + l2 + 2 * (?N - l1)) = l0 + 3 * ?N" using l(2,3) by simp
  also have "?al (l0 + 3 * ?N) = ?al l0" by (rule alpha_cong [OF ok]) simp
  finally have cu: "?m (?m c1 ?w) ?u = c0" using l(4) by simp
  have il: "modulo bch (2 * ?N - l1 - a_log_tab bch ! y + l2) = a_ilog bch (?m ?w y)" if y: "y \<le> ?N" "y \<noteq> 0" for y
  proof (rule a_ilog_eq [OF ok gf_mul_closed [OF ok al y(1)]])
    let ?ly = "a_log_tab bch ! y"
    have ly: "?ly < ?N" "?al ?ly = y" using gf_ok_log [OF ok _ y(1)] y(2) by auto
    let ?v = "2 * ?N - l1 - ?ly + l2"
    show "modulo bch ?v < ?N" using gf_ok_facts(3) [OF ok] by (simp add: modulo_mod [OF ok])
    have "?al (modulo bch ?v) = ?al ?v" by (rule alpha_cong [OF ok]) (simp add: modulo_mod [OF ok])
    then have "?m (?al (modulo bch ?v)) (?m ?w y) = ?al (?v + (?N - l2 + l1 + ?ly))"
      using gf_mul_alpha [OF ok] ly(2) by metis
    also have "?v + (?N - l2 + l1 + ?ly) = 3 * ?N" using l(2,3) ly(1) by simp
    also have "?al (3 * ?N) = ?al 0" by (rule alpha_cong [OF ok]) simp
    finally show "?m (?al (modulo bch ?v)) (?m ?w y) = 1" by simp
  qed
  show ?thesis
    by (rule that [of ?u ?w]) (use u cw cu il al gf_alpha_pos [OF gf_ok_facts(1) [OF ok]] in auto)
qed

lemma quadratic_linear_term:
  assumes ok: "gf_ok p bch" and f: "psplits bch f R" "card R = 2"
  shows "poly_c f ! 1 \<noteq> 0"
proof
  assume z: "poly_c f ! 1 = 0"
  note F = psplitsD [OF ok f(1)] and N = psplits_nz [OF ok f(1), unfolded f(2)]
  have d: "poly_deg f = 2" using F(2) f(2) by simp
  obtain r1 r2 where R: "R = {r1, r2}" "r1 \<noteq> r2" using f(2) by (meson card_2_iff)
  have r: "r1 \<le> GF_N bch" "r2 \<le> GF_N bch" "peval bch f r1 = 0" "peval bch f r2 = 0" using F(6,7) R by auto
  have "gf_mul bch (poly_c f ! 2) (gf_sqr bch r1) = gf_mul bch (poly_c f ! 2) (gf_sqr bch r2)"
    using peval_deg2 [OF ok F(1) d r(1)] peval_deg2 [OF ok F(1) d r(2)] r(3,4) z by (simp add: gf_mul_def [of _ 0] xor_eq_0_iff)
  then have "gf_sqr bch r1 = gf_sqr bch r2"
    using gf_mul_left_cancel [OF ok N(3) [of 2] sqr_closed [OF ok r(1)] sqr_closed [OF ok r(2)] N(2)] by simp
  then have "gf_sqr bch (r1 XOR r2) = 0" using gf_sqr_xor [OF ok r(1,2)] by simp
  then have "r1 XOR r2 = 0" using gf_mul_eq_0 [OF ok gf_xor_closed [OF ok r(1,2)] gf_xor_closed [OF ok r(1,2)]] by (simp add: gf_sqr_mul)
  then show False using R(2) by (simp add: xor_eq_0_iff)
qed

lemma find_poly_deg2_correct:
  assumes ok: "gf_ok p bch" and xi: "xi_ok p bch" and f: "psplits bch f R" "card R = 2"
  shows "finds bch (find_poly_deg2_roots bch f) R"
proof -
  have okE: "\<exists>p. gf_ok p bch" using ok by blast
  let ?m = "gf_mul bch" and ?N = "GF_N bch" and ?c = "\<lambda>i. poly_c f ! i" and ?l = "\<lambda>i. a_log_tab bch ! (poly_c f ! i)"
  note F = psplitsD [OF ok f(1)] and N = psplits_nz [OF ok f(1), unfolded f(2)]
  note c1 = quadratic_linear_term [OF ok f]
  have cN: "?c 0 \<le> ?N" "?c 1 \<le> ?N" "?c 2 \<le> ?N" using N(3) by auto
  obtain w u where u: "u = a_pow bch (int (?l 0 + ?l 2 + 2 * (?N - ?l 1)))" "u \<le> ?N" and w: "w \<le> ?N" "w \<noteq> 0" "?m (?c 2) w = ?c 1"
    and cu: "?m (?m (?c 1) w) u = ?c 0"
    and il: "\<And>y. y \<le> ?N \<Longrightarrow> y \<noteq> 0 \<Longrightarrow> modulo bch (2 * ?N - ?l 1 - a_log_tab bch ! y + ?l 2) = a_ilog bch (?m w y)"
    by (rule quadratic_logs [OF ok cN(1) N(1) cN(2) c1 cN(3) N(2)]) (rule that)
  have cw: "?m (?c 1) w \<le> ?N" "?m (?c 1) w \<noteq> 0" using gf_mul_closed [OF ok cN(2) w(1)] gf_mul_eq_0 [OF ok cN(2) w(1)] c1 w(2) by auto
  have root: "peval bch f (?m w y) = 0 \<longleftrightarrow> gf_sqr bch y XOR y = u" if y: "y \<le> ?N" for y
  proof -
    have "peval bch f (?m w y) = ?m (?m (?c 1) w) (u XOR (y XOR gf_sqr bch y))"
      using peval_deg2 [OF ok F(1) _ gf_mul_closed [OF ok w(1) y]] quadratic_scaled [OF ok cN w(1,3) u(2) cu y] F(2) f(2) by simp
    then show ?thesis
      using gf_mul_eq_0 [OF ok cw(1) gf_xor_closed [OF ok u(2) gf_xor_closed [OF ok y sqr_closed [OF ok y]]]] cw(2)
      by (auto simp: xor_eq_0_iff xor.commute)
  qed
  obtain r1 where r1: "r1 \<in> R" using f(2) by fastforce
  note iw = gf_mul_inv [OF ok w(1,2)]
  have "?m w (?m (gf_inv bch w) r1) = r1"
    using gf_mul_assoc [OF ok w(1) iw(2) F(7) [OF r1]] iw(1) gf_mul_one [OF ok F(7) [OF r1]] by simp
  then have "gtrace bch u = 0"
    using root [OF gf_mul_closed [OF ok iw(2) F(7) [OF r1]]] F(6) [OF r1] gtrace_artin_schreier [OF ok gf_mul_closed [OF ok iw(2) F(7) [OF r1]]] by simp
  note y = xi_solves [OF ok xi u(2) this]
  define y where "y = sum_xi (xi_tab bch) u 0"
  have yN: "y \<le> ?N" "y XOR 1 \<le> ?N" using y(1) gf_xor_closed [OF ok _ gf_one_le [OF ok]] by (simp_all add: y_def)
  have ys: "gf_sqr bch y XOR y = u" using y(2) by (simp add: y_def)
  have s1: "gf_sqr bch 1 = 1" using mul_one_right [OF ok gf_one_le [OF ok]] by (simp add: gf_sqr_mul)
  have ys1: "gf_sqr bch (y XOR 1) XOR (y XOR 1) = u"
    using ys gf_sqr_xor [OF ok yN(1) gf_one_le [OF ok]] s1 by (simp add: xor_simps)
  have "u \<noteq> 0" using cu N(1) gf_mul_def [of bch _ 0] by (intro notI) simp
  then have "v \<noteq> 0" if "gf_sqr bch v XOR v = u" for v using that by (intro notI) simp
  note ynz = this [OF ys] this [OF ys1]
  have "?m w y \<noteq> ?m w (y XOR 1)"
  proof
    assume "?m w y = ?m w (y XOR 1)"
    then have "y = y XOR 1" by (rule gf_mul_left_cancel [OF ok w(1) yN w(2)])
    then have "y XOR (y XOR 1) = 0" by simp
    then show False by (simp add: xor.assoc [symmetric])
  qed
  then have "finds bch (map (a_ilog bch) [?m w y, ?m w (y XOR 1)]) R"
    by (intro finds_roots [OF ok f(1)]) (use f(2) root [OF yN(1)] root [OF yN(2)] ys ys1 gf_mul_closed [OF ok w(1)] yN in auto)
  moreover have "find_poly_deg2_roots bch f = map (a_ilog bch) [?m w y, ?m w (y XOR 1)]"
    unfolding find_poly_deg2_roots_def Let_def u(1) [symmetric] y_def [symmetric]
    using N(1) c1 ys il [OF yN(1) ynz(1)] il [OF yN(2) ynz(2)] by simp
  ultimately show ?thesis by simp
qed

end
