(* ===== verification/Bch_Affine.thy ===== *)
theory Bch_Affine
  imports Bch_Transpose Bch_Quadratic
begin

text \<open>
  \<open>find_affine4_roots\<close> of lib/bch.c: the affine polynomial \<open>X^4 + a X^2 + b X + c\<close> is a
  linear map plus a constant over GF(2), so its roots are the solutions of a linear system.
\<close>

section \<open>The linear map\<close>

definition aff :: "bch_control \<Rightarrow> nat \<Rightarrow> nat \<Rightarrow> nat \<Rightarrow> nat" where
  "aff bch a b x = (gf_sqr bch (gf_sqr bch x) XOR gf_mul bch a (gf_sqr bch x)) XOR gf_mul bch b x"

lemma aff_closed:
  "gf_ok p bch \<Longrightarrow> a \<le> GF_N bch \<Longrightarrow> b \<le> GF_N bch \<Longrightarrow> x \<le> GF_N bch \<Longrightarrow> aff bch a b x \<le> GF_N bch"
  using gf_xor_closed gf_mul_closed sqr_closed by (simp add: aff_def)

lemma aff_xor:
  assumes ok: "gf_ok p bch" and a: "a \<le> GF_N bch" and b: "b \<le> GF_N bch" and x: "x \<le> GF_N bch" and y: "y \<le> GF_N bch"
  shows "aff bch a b (x XOR y) = aff bch a b x XOR aff bch a b y"
  using gf_sqr_xor [OF ok x y] gf_sqr_xor [OF ok sqr_closed [OF ok x] sqr_closed [OF ok y]]
    gf_mul_xor_right [OF ok sqr_closed [OF ok x] sqr_closed [OF ok y] a] gf_mul_xor_right [OF ok x y b]
  by (simp add: aff_def xor_simps)

lemma aff_zero [simp]: "aff bch a b 0 = 0"
  by (simp add: aff_def gf_mul_def [of _ _ 0])

lemma aff_xsum:
  assumes ok: "gf_ok p bch" and a: "a \<le> GF_N bch" and b: "b \<le> GF_N bch" and f: "\<And>k. k < n \<Longrightarrow> f k \<le> GF_N bch"
  shows "aff bch a b (xsum f n) = xsum (\<lambda>k. aff bch a b (f k)) n"
  using f
proof (induction n)
  case (Suc n)
  then have "xsum f n \<le> GF_N bch" "f n \<le> GF_N bch" by (auto intro!: xsum_le [OF ok])
  then show ?case using Suc aff_xor [OF ok a b] by simp
qed simp

lemma bit_xsum: "bit (xsum f n) k = xpar (\<lambda>i. bit (f i) k) n"
  by (induction n) (auto simp: bit_xor_iff)

lemma xpar_Suc_shift: "xpar f (Suc n) = (f 0 \<noteq> xpar (\<lambda>i. f (Suc i)) n)"
  by (induction n) auto

section \<open>The rows of the system\<close>

lemma affine4_rows_nth:
  assumes ok: "gf_ok p bch" and m: "5 \<le> GF_M bch" and a: "a \<le> GF_N bch" and b: "b \<le> GF_N bch"
  shows "length (affine4_rows bch a b c) = 16" "affine4_rows bch a b c ! 0 = c"
    "i < GF_M bch \<Longrightarrow> affine4_rows bch a b c ! Suc i = aff bch a b (gf_alpha (GF_M bch) p i)"
    "GF_M bch < i \<Longrightarrow> i < 16 \<Longrightarrow> affine4_rows bch a b c ! i = 0"
proof -
  let ?m = "GF_M bch" and ?al = "gf_alpha (GF_M bch) p"
  have m16: "?m < 16" using gf_ok_facts(1) [OF ok] by (simp add: field_poly_def)
  have N: "GF_N bch = 2 ^ ?m - 1" by (rule gf_ok_facts(2) [OF ok])
  have big: "4 * i \<le> GF_N bch \<and> 2 * i < GF_N bch" if "i < ?m" for i
  proof -
    have "\<forall>m \<in> {5,6,7,8,9,10,11,12,13,14,15}. 4 * m \<le> (2 :: nat) ^ m + 3" by simp
    moreover have "?m \<in> {5,6,7,8,9,10,11,12,13,14,15}" using m m16 by (simp only: insert_iff empty_iff) presburger
    ultimately have "4 * ?m \<le> 2 ^ ?m + 3" by blast
    moreover have "GF_N bch + 1 = 2 ^ ?m" using N gf_ok_facts(3) [OF ok] by simp
    ultimately have "4 * ?m \<le> GF_N bch + 4" by linarith
    then show ?thesis using that gf_ok_facts(3) [OF ok] by linarith
  qed
  let ?e = "\<lambda>i. a_pow_tab bch ! (4 * i) XOR (if a \<noteq> 0 then a_pow_tab bch ! mod_s bch (a_log bch a + 2 * i) else 0)
      XOR (if b \<noteq> 0 then a_pow_tab bch ! mod_s bch (a_log bch b + i) else 0)"
  have e: "?e i = aff bch a b (?al i)" if i: "i < ?m" for i
  proof -
    have "gf_sqr bch (?al i) = ?al (2 * i)" for i using gf_mul_alpha [OF ok, of i i] by (simp add: gf_sqr_mul mult_2)
    note sq = this this [of "2 * i"]
    have A: "(if a \<noteq> 0 then a_pow_tab bch ! mod_s bch (a_log bch a + 2 * i) else 0) = gf_mul bch a (?al (2 * i))"
    proof (cases "a = 0")
      case False
      note l = a_log_elem [OF ok a False]
      have "a_log bch a + 2 * i < 2 * GF_N bch" using l(1) big [OF i] by simp
      then show ?thesis using pow_mod_s [OF ok] gf_mul_alpha [OF ok, of "a_log bch a" "2 * i"] l(2) False by simp
    qed (simp add: gf_mul_def)
    have B: "(if b \<noteq> 0 then a_pow_tab bch ! mod_s bch (a_log bch b + i) else 0) = gf_mul bch b (?al i)"
    proof (cases "b = 0")
      case False
      note l = a_log_elem [OF ok b False]
      have "a_log bch b + i < 2 * GF_N bch" using l(1) big [OF i] by simp
      then show ?thesis using pow_mod_s [OF ok] gf_mul_alpha [OF ok, of "a_log bch b" i] l(2) False by simp
    qed (simp add: gf_mul_def)
    show ?thesis unfolding A B aff_def sq using gf_ok_pow [OF ok] big [OF i] by (simp add: mult.assoc [symmetric] xor.assoc del: One_nat_def)
  qed
  have gen: "length (fold (\<lambda>i rows. rows[i + 1 := ?e i]) [0..<n] ((replicate 16 0)[0 := c])) = 16 \<and>
     (\<forall>i < 16. fold (\<lambda>i rows. rows[i + 1 := ?e i]) [0..<n] ((replicate 16 0)[0 := c]) ! i = (if i = 0 then c else if i \<le> n then ?e (i - 1) else 0))"
    if "n \<le> ?m" for n
    using that
  proof (induction n)
    case (Suc n)
    then show ?case using m16 by (auto simp: fold_upt_Suc nth_list_update le_Suc_eq simp del: upt_Suc)
  qed (auto simp: nth_list_update)
  have r: "affine4_rows bch a b c = fold (\<lambda>i rows. rows[i + 1 := ?e i]) [0..<?m] ((replicate 16 0)[0 := c])"
    by (simp add: affine4_rows_def Let_def)
  show "length (affine4_rows bch a b c) = 16" "affine4_rows bch a b c ! 0 = c" "GF_M bch < i \<Longrightarrow> i < 16 \<Longrightarrow> affine4_rows bch a b c ! i = 0"
    unfolding r using gen [of ?m] by auto
  show "i < GF_M bch \<Longrightarrow> affine4_rows bch a b c ! Suc i = aff bch a b (?al i)"
    unfolding r using gen [of ?m] m16 e [of i] by auto
qed

text \<open>A candidate satisfies the transposed rows if and only if its image is \<open>c\<close>.\<close>

lemma affine_system:
  assumes ok: "gf_ok p bch" and m: "5 \<le> GF_M bch" and a: "a \<le> GF_N bch" and b: "b \<le> GF_N bch" and c: "c \<le> GF_N bch"
    and s: "s \<le> GF_N bch"
  defines "rows \<equiv> transpose_outer 8 0xff (affine4_rows bch a b c)"
  shows "length rows = 16" "\<forall>i < GF_M bch. rows ! i < 2 ^ Suc (GF_M bch)" "sat_rows (GF_M bch) rows (2 * s + 1) \<longleftrightarrow> aff bch a b s = c"
proof -
  let ?m = "GF_M bch" and ?al = "gf_alpha (GF_M bch) p"
  note R = affine4_rows_nth [OF ok m a b, where c = c]
  have m16: "?m < 16" using gf_ok_facts(1) [OF ok] by (simp add: field_poly_def)
  have N: "GF_N bch < 2 ^ ?m" using gf_ok_facts(2,3) [OF ok] by simp
  have le: "affine4_rows bch a b c ! i \<le> GF_N bch" if i: "i < 16" for i
    using R(2-4) c aff_closed [OF ok a b gf_alpha_le_N [OF ok]] i by (cases "i = 0"; cases "i \<le> ?m"; cases i) auto
  have "\<forall>k < 16. affine4_rows bch a b c ! k < 2 ^ 16" using le field_size [OF ok] by (meson le_less_trans)
  note t = transpose_correct [OF R(1) this, folded rows_def]
  show "length rows = 16" by (fact t(1))
  show "\<forall>i < ?m. rows ! i < 2 ^ Suc ?m"
  proof (intro allI impI less_exp_bits)
    fix k i assume k: "k < ?m" and b: "bit (rows ! k) i"
    then have k16: "k < 16" using m16 by simp
    have i16: "i < 16" using bit_less_exp [OF t(3) [OF k16]] b by blast
    show "i < Suc ?m" using t(2) [OF k16 i16] b R(4) [of i] i16 by (cases "i < Suc ?m") auto
  qed
  have d: "dot ?m (rows ! k) (2 * s + 1) = (bit c k \<noteq> bit (aff bch a b s) k)" if k: "k < ?m" for k
  proof -
    have b0: "bit (2 * s + 1) 0" and bS: "bit (2 * s + 1) (Suc i) = bit s i" for i by (simp_all add: bit_0 bit_Suc)
    have k16: "k < 16" using k m16 by simp
    have r: "bit (rows ! k) 0 = bit c k" "i < ?m \<Longrightarrow> bit (rows ! k) (Suc i) = bit (aff bch a b (?al i)) k" for i
      using t(2) [OF k16, of 0] t(2) [OF k16, of "Suc i"] R(2,3) m16 by auto
    have "dot ?m (rows ! k) (2 * s + 1) = (bit c k \<noteq> xpar (\<lambda>i. bit (rows ! k) (Suc i) \<and> bit (2 * s + 1) (Suc i)) ?m)"
      unfolding dot_def xpar_Suc_shift by (simp only: r(1) b0 simp_thms)
    also have "xpar (\<lambda>i. bit (rows ! k) (Suc i) \<and> bit (2 * s + 1) (Suc i)) ?m = xpar (\<lambda>i. bit (if bit s i then aff bch a b (?al i) else 0) k) ?m"
      by (rule xpar_cong) (unfold bS, simp add: r(2))
    also have "\<dots> = bit (xsum (\<lambda>i. if bit s i then aff bch a b (?al i) else 0) ?m) k" by (simp add: bit_xsum)
    also have "xsum (\<lambda>i. if bit s i then aff bch a b (?al i) else 0) ?m = aff bch a b (xsum (\<lambda>i. if bit s i then ?al i else 0) ?m)"
      using aff_xsum [OF ok a b, of ?m "\<lambda>i. if bit s i then ?al i else 0"] gf_alpha_le_N [OF ok] by (simp add: if_distrib cong: if_cong)
    also have "xsum (\<lambda>i. if bit s i then ?al i else 0) ?m = s"
      using mul_xsum_alpha [OF ok gf_one_le [OF ok] s] gf_mul_one [OF ok s] mul_one_right [OF ok gf_alpha_le_N [OF ok]] by (simp cong: if_cong)
    finally show ?thesis .
  qed
  show "sat_rows ?m rows (2 * s + 1) \<longleftrightarrow> aff bch a b s = c"
  proof
    assume sat: "sat_rows ?m rows (2 * s + 1)"
    show "aff bch a b s = c"
    proof (rule bit_eqI)
      fix k
      show "bit (aff bch a b s) k = bit c k"
      proof (cases "k < ?m")
        case True
        then show ?thesis using sat d [OF True] by (auto simp: sat_rows_def)
      next
        case False
        have "aff bch a b s < 2 ^ ?m" "c < 2 ^ ?m" using aff_closed [OF ok a b s] c N by auto
        then show ?thesis using False bit_less_exp by blast
      qed
    qed
  qed (use d in \<open>auto simp: sat_rows_def\<close>)
qed

lemma find_affine4_correct:
  assumes ok: "gf_ok p bch" and m: "5 \<le> GF_M bch" and a: "a \<le> GF_N bch" and b: "b \<le> GF_N bch" and c: "c \<le> GF_N bch"
    and n: "card {s. s \<le> GF_N bch \<and> aff bch a b s = c} = 4"
  shows "distinct (find_affine4_roots bch a b c)" "set (find_affine4_roots bch a b c) = {s. s \<le> GF_N bch \<and> aff bch a b s = c}"
proof -
  let ?m = "GF_M bch" and ?rows = "transpose_outer 8 0xff (affine4_rows bch a b c)"
  have m16: "?m < 16" using gf_ok_facts(1) [OF ok] by (simp add: field_poly_def)
  have N: "s < 2 ^ ?m \<longleftrightarrow> s \<le> GF_N bch" for s using gf_ok_facts(2,3) [OF ok] by auto
  note S = affine_system [OF ok m a b c]
  have e: "{s. s < 2 ^ ?m \<and> sat_rows ?m ?rows (2 * s + 1)} = {s. s \<le> GF_N bch \<and> aff bch a b s = c}"
    using S(3) N by blast
  have l: "?m \<le> length ?rows" using S(1) [of 0] m16 by simp
  have bd: "\<forall>i < ?m. ?rows ! i < 2 ^ Suc ?m" using S(2) [of 0] by simp
  have m32: "?m < 32" using m16 by simp
  note sol = solve_linear_system_all [OF m32 l bd, of 4, unfolded e]
  show "distinct (find_affine4_roots bch a b c)" "set (find_affine4_roots bch a b c) = {s. s \<le> GF_N bch \<and> aff bch a b s = c}"
    unfolding find_affine4_roots_def using sol n by simp_all
qed

end
