(* ===== verification/Bch_Quartic.thy ===== *)
theory Bch_Quartic
  imports Bch_Affine
begin

text \<open>
  The solvers of lib/bch.c for degrees 3 and 4, which reduce to affine polynomials of degree 4:
  a cubic is multiplied by \<open>X + a\<close>, a quartic is shifted by the square root of the
  quotient of two coefficients and reversed.
\<close>

section \<open>Normalisation of field expressions\<close>

text \<open>Products are multiplied out and sorted; equal summands cancel.\<close>

lemma gf_left_commute:
  "gf_ok p bch \<Longrightarrow> a \<le> GF_N bch \<Longrightarrow> b \<le> GF_N bch \<Longrightarrow> c \<le> GF_N bch \<Longrightarrow> gf_mul bch a (gf_mul bch b c) = gf_mul bch b (gf_mul bch a c)"
  using gf_mul_assoc [of p bch a b c] gf_mul_assoc [of p bch b a c] gf_mul_commute [of p bch a b] by simp

lemmas gf_normal = gf_mul_assoc gf_mul_commute gf_left_commute gf_mul_xor gf_mul_xor_right gf_mul_closed gf_xor_closed

section \<open>Degree 3\<close>

lemma cubic_times_linear:
  assumes ok: "gf_ok p bch" and x: "x \<le> GF_N bch" and a: "a \<le> GF_N bch" "b \<le> GF_N bch" "c \<le> GF_N bch"
  shows "gf_mul bch (((gf_mul bch x (gf_sqr bch x) XOR gf_mul bch a (gf_sqr bch x)) XOR gf_mul bch b x) XOR c) (x XOR a) =
    aff bch (gf_sqr bch a XOR b) (gf_mul bch a b XOR c) x XOR gf_mul bch a c"
  using x a by (simp add: aff_def gf_sqr_mul gf_normal [OF ok] xor_simps)

lemma sqr_eq_0: "gf_ok p bch \<Longrightarrow> x \<le> GF_N bch \<Longrightarrow> gf_sqr bch x = 0 \<Longrightarrow> x = 0"
  using gf_mul_eq_0 [of p bch x x] by (simp add: gf_sqr_mul)

lemma sqr_inj:
  assumes ok: "gf_ok p bch" and x: "x \<le> GF_N bch" and y: "y \<le> GF_N bch" and e: "gf_sqr bch x = gf_sqr bch y"
  shows "x = y"
proof -
  have "gf_sqr bch (x XOR y) = 0" using gf_sqr_xor [OF ok x y] e by simp
  then have "x XOR y = 0" by (rule sqr_eq_0 [OF ok gf_xor_closed [OF ok x y]])
  then show ?thesis by (simp add: xor_eq_0_iff)
qed

text \<open>Without the linear term an affine polynomial is a square, and takes no value at three points.\<close>

lemma aff_three:
  assumes ok: "gf_ok p bch" and a: "a \<le> GF_N bch" and r: "r1 \<le> GF_N bch" "r2 \<le> GF_N bch" "r3 \<le> GF_N bch"
    and d: "r1 \<noteq> r2" "r1 \<noteq> r3" "r2 \<noteq> r3" and e: "aff bch a b r1 = c" "aff bch a b r2 = c" "aff bch a b r3 = c"
  shows "b \<noteq> 0"
proof
  assume b: "b = 0"
  have k: "gf_sqr bch (r1 XOR y) = a" if y: "y \<le> GF_N bch" "r1 \<noteq> y" "aff bch a b y = c" for y
  proof -
    let ?y = "r1 XOR y"
    have yN: "?y \<le> GF_N bch" by (rule gf_xor_closed [OF ok r(1) y(1)])
    have nz: "?y \<noteq> 0" using y(2) by (simp add: xor_eq_0_iff)
    have "aff bch a 0 ?y = 0" using aff_xor [OF ok a _ r(1) y(1), of 0] e(1) y(3) b by simp
    moreover have "aff bch a 0 ?y = gf_mul bch (gf_sqr bch ?y) (gf_sqr bch ?y XOR a)"
      using yN a by (simp add: aff_def gf_sqr_mul gf_normal [OF ok] gf_mul_def [of _ 0])
    moreover have "gf_sqr bch ?y \<noteq> 0" using sqr_eq_0 [OF ok yN] nz by blast
    ultimately have "gf_sqr bch ?y XOR a = 0"
      using gf_mul_eq_0 [OF ok sqr_closed [OF ok yN] gf_xor_closed [OF ok sqr_closed [OF ok yN] a]] by auto
    then show ?thesis by (simp add: xor_eq_0_iff)
  qed
  have "r1 XOR r2 = r1 XOR r3"
    using sqr_inj [OF ok gf_xor_closed [OF ok r(1,2)] gf_xor_closed [OF ok r(1,3)]] k [OF r(2) d(1) e(2)] k [OF r(3) d(2) e(3)] by simp
  then have "r1 XOR (r1 XOR r2) = r1 XOR (r1 XOR r3)" by simp
  then show False using d(3) by simp
qed

text \<open>The value of a polynomial of degree 3 in terms of its quotients by the leading coefficient.\<close>

lemma peval_deg3:
  assumes ok: "gf_ok p bch" and f: "pok bch f" "poly_deg f = 3" "poly_c f ! 3 \<noteq> 0" and x: "x \<le> GF_N bch"
  shows "peval bch f x = gf_mul bch (poly_c f ! 3) (((gf_mul bch x (gf_sqr bch x) XOR
      gf_mul bch (gf_div bch (poly_c f ! 2) (poly_c f ! 3)) (gf_sqr bch x)) XOR gf_mul bch (gf_div bch (poly_c f ! 1) (poly_c f ! 3)) x) XOR
      gf_div bch (poly_c f ! 0) (poly_c f ! 3))"
proof -
  have c: "poly_c f ! n \<le> GF_N bch" if "n \<le> 3" for n using that f by (auto intro!: pok_nth simp: pok_def)
  have q: "gf_div bch (poly_c f ! n) (poly_c f ! 3) \<le> GF_N bch"
    "gf_mul bch (poly_c f ! 3) (gf_div bch (poly_c f ! n) (poly_c f ! 3)) = poly_c f ! n" if "n \<le> 3" for n
    using gf_div_mul [OF ok c [OF that] c [of 3] f(3)] gf_mul_commute [OF ok _ c [of 3]] by auto
  have "peval bch f x = poly_c f ! 0 XOR (gf_mul bch (poly_c f ! 1) x XOR (gf_mul bch (poly_c f ! 2) (gf_mul bch x x) XOR gf_mul bch (poly_c f ! 3) (gf_mul bch x (gf_mul bch x x))))"
    using f(2) mul_one_right [OF ok x] mul_one_right [OF ok c [of 0]]
    by (simp add: peval_def evalf_def pcoef_def numeral_3_eq_3 numeral_2_eq_2 xor.assoc)
  also have "\<dots> = gf_mul bch (poly_c f ! 3) (gf_div bch (poly_c f ! 0) (poly_c f ! 3)) XOR
     (gf_mul bch (gf_mul bch (poly_c f ! 3) (gf_div bch (poly_c f ! 1) (poly_c f ! 3))) x XOR
     (gf_mul bch (gf_mul bch (poly_c f ! 3) (gf_div bch (poly_c f ! 2) (poly_c f ! 3))) (gf_mul bch x x) XOR gf_mul bch (poly_c f ! 3) (gf_mul bch x (gf_mul bch x x))))"
    using q(2) [of 0] q(2) [of 1] q(2) [of 2] by simp
  finally show ?thesis using x c [of 3] q(1) [of 0] q(1) [of 1] q(1) [of 2] by (simp add: gf_sqr_mul gf_normal [OF ok] xor_simps)
qed

lemma finds_map:
  assumes ok: "gf_ok p bch" and R: "\<And>r. r \<in> R \<Longrightarrow> r \<le> GF_N bch \<and> r \<noteq> 0" and X: "distinct X" "set X = R"
  shows "finds bch (map (a_ilog bch) X) R"
proof -
  have "inj_on (a_ilog bch) (set X)" by (rule inj_on_subset [OF a_ilog_inj [OF ok]]) (use X R in auto)
  then show ?thesis using X by (simp add: finds_def distinct_map)
qed

lemma find_poly_deg3_correct:
  assumes ok: "gf_ok p bch" and m: "5 \<le> GF_M bch" and f: "psplits bch f R" "card R = 3"
  shows "finds bch (find_poly_deg3_roots bch f) R"
proof -
  let ?N = "GF_N bch" and ?m = "gf_mul bch"
  note F = psplitsD [OF ok f(1)] and nz = psplits_nz [OF ok f(1), unfolded f(2)]
  have d: "poly_deg f = 3" using F(2) f(2) by simp
  let ?e3 = "poly_c f ! 3"
  define c2 b2 a2 where q: "c2 = gf_div bch (poly_c f ! 0) ?e3" "b2 = gf_div bch (poly_c f ! 1) ?e3" "a2 = gf_div bch (poly_c f ! 2) ?e3"
  have le: "a2 \<le> ?N" "b2 \<le> ?N" "c2 \<le> ?N" using gf_div_mul(2) [OF ok nz(3) nz(3) [of 3] nz(2)] by (simp_all add: q)
  define a b c where abc: "a = gf_sqr bch a2 XOR b2" "b = ?m a2 b2 XOR c2" "c = ?m a2 c2"
  have abcN: "a \<le> ?N" "b \<le> ?N" "c \<le> ?N" using le gf_mul_closed [OF ok] gf_xor_closed [OF ok] by (simp_all add: abc gf_sqr_mul)
  define g where "g x = ((?m x (gf_sqr bch x) XOR ?m a2 (gf_sqr bch x)) XOR ?m b2 x) XOR c2" for x
  have gN: "g x \<le> ?N" if "x \<le> ?N" for x using that le gf_mul_closed [OF ok] gf_xor_closed [OF ok] by (simp add: g_def gf_sqr_mul)
  have root: "x \<in> R \<longleftrightarrow> g x = 0" if x: "x \<le> ?N" for x
  proof -
    have "peval bch f x = ?m ?e3 (g x)" using peval_deg3 [OF ok F(1) d nz(2) x] by (simp add: g_def q)
    then show ?thesis using gf_mul_eq_0 [OF ok nz(3) [of 3] gN [OF x]] nz(2) F(6,9) [of x] x by auto
  qed
  have affg: "aff bch a b x = c \<longleftrightarrow> g x = 0 \<or> x = a2" if x: "x \<le> ?N" for x
  proof -
    have "?m (g x) (x XOR a2) = aff bch a b x XOR c" using cubic_times_linear [OF ok x le] by (simp add: g_def abc)
    then have "aff bch a b x = c \<longleftrightarrow> ?m (g x) (x XOR a2) = 0" by (simp add: xor_eq_0_iff)
    then show ?thesis using gf_mul_eq_0 [OF ok gN [OF x] gf_xor_closed [OF ok x le(1)]] by (simp add: xor_eq_0_iff)
  qed
  have "b \<noteq> 0"
  proof -
    obtain r1 r2 r3 where r: "R = {r1, r2, r3}" "r1 \<noteq> r2" "r1 \<noteq> r3" "r2 \<noteq> r3" using f(2) by (auto simp: card_3_iff)
    have le: "r1 \<le> ?N" "r2 \<le> ?N" "r3 \<le> ?N" using F(7) r(1) by auto
    have "aff bch a b r1 = c" "aff bch a b r2 = c" "aff bch a b r3 = c" using affg root le r(1) by auto
    then show ?thesis using aff_three [OF ok abcN(1) le r(2-4)] by blast
  qed
  moreover have "g a2 = b" using le by (simp add: g_def abc gf_sqr_mul gf_normal [OF ok] xor_simps)
  ultimately have a2: "a2 \<notin> R" using root [OF le(1)] by simp
  have sol: "{x. x \<le> ?N \<and> aff bch a b x = c} = insert a2 R" using affg root F(7) le(1) by auto
  then have "card {x. x \<le> ?N \<and> aff bch a b x = c} = 4" using a2 F(5) f(2) by simp
  note A = find_affine4_correct [OF ok m abcN this, unfolded sol]
  have len: "length (find_affine4_roots bch a b c) = 4" using A distinct_card [OF A(1)] a2 F(5) f(2) by simp
  have "finds bch (map (a_ilog bch) (filter (\<lambda>x. x \<noteq> a2) (find_affine4_roots bch a b c))) R"
    by (rule finds_map [OF ok]) (use A a2 F(7,8) in auto)
  then show ?thesis using len nz(1) by (simp add: find_poly_deg3_roots_def Let_def del: One_nat_def flip: q abc)
qed

section \<open>Degree 4\<close>

definition quart :: "bch_control \<Rightarrow> nat \<Rightarrow> nat \<Rightarrow> nat \<Rightarrow> nat \<Rightarrow> nat \<Rightarrow> nat" where
  "quart bch a b c d x = (((gf_sqr bch (gf_sqr bch x) XOR gf_mul bch a (gf_mul bch x (gf_sqr bch x))) XOR gf_mul bch b (gf_sqr bch x)) XOR gf_mul bch c x) XOR d"

lemma quart_closed:
  "gf_ok p bch \<Longrightarrow> a \<le> GF_N bch \<Longrightarrow> b \<le> GF_N bch \<Longrightarrow> c \<le> GF_N bch \<Longrightarrow> d \<le> GF_N bch \<Longrightarrow> x \<le> GF_N bch \<Longrightarrow> quart bch a b c d x \<le> GF_N bch"
  by (simp add: quart_def gf_sqr_mul gf_mul_closed gf_xor_closed)

lemma peval_deg4:
  assumes ok: "gf_ok p bch" and f: "pok bch f" "poly_deg f = 4" "poly_c f ! 4 \<noteq> 0" and x: "x \<le> GF_N bch"
  shows "peval bch f x = gf_mul bch (poly_c f ! 4) (quart bch (gf_div bch (poly_c f ! 3) (poly_c f ! 4)) (gf_div bch (poly_c f ! 2) (poly_c f ! 4))
      (gf_div bch (poly_c f ! 1) (poly_c f ! 4)) (gf_div bch (poly_c f ! 0) (poly_c f ! 4)) x)"
proof -
  have c: "poly_c f ! n \<le> GF_N bch" if "n \<le> 4" for n using that f by (auto intro!: pok_nth simp: pok_def)
  have q: "gf_div bch (poly_c f ! n) (poly_c f ! 4) \<le> GF_N bch"
    "gf_mul bch (poly_c f ! 4) (gf_div bch (poly_c f ! n) (poly_c f ! 4)) = poly_c f ! n" if "n \<le> 4" for n
    using gf_div_mul [OF ok c [OF that] c [of 4] f(3)] gf_mul_commute [OF ok _ c [of 4]] by auto
  let ?q = "\<lambda>n. gf_div bch (poly_c f ! n) (poly_c f ! 4)" and ?m = "gf_mul bch" and ?e = "poly_c f ! 4"
  have four: "4 = Suc (Suc (Suc (Suc 0)))" "3 = Suc (Suc (Suc 0))" "2 = Suc (Suc 0)" by simp_all
  have "peval bch f x = poly_c f ! 0 XOR (?m (poly_c f ! 1) x XOR (?m (poly_c f ! 2) (?m x x) XOR
      (?m (poly_c f ! 3) (?m x (?m x x)) XOR ?m ?e (?m x (?m x (?m x x))))))"
    using f(2) mul_one_right [OF ok x] mul_one_right [OF ok c [of 0]]
    by (simp add: peval_def evalf_def pcoef_def four xor.assoc)
  also have "\<dots> = ?m ?e (?q 0) XOR (?m (?m ?e (?q 1)) x XOR (?m (?m ?e (?q 2)) (?m x x) XOR
      (?m (?m ?e (?q 3)) (?m x (?m x x)) XOR ?m ?e (?m x (?m x (?m x x))))))"
    using q(2) [of 0] q(2) [of 1] q(2) [of 2] q(2) [of 3] by simp
  finally show ?thesis
    using x c [of 4] q(1) [of 0] q(1) [of 1] q(1) [of 2] q(1) [of 3] by (simp add: quart_def gf_sqr_mul gf_normal [OF ok] xor_simps)
qed

lemma quart_shift:
  assumes ok: "gf_ok p bch" and le: "a \<le> GF_N bch" "b \<le> GF_N bch" "d \<le> GF_N bch" "e \<le> GF_N bch" "y \<le> GF_N bch"
    and c: "c = gf_mul bch a (gf_sqr bch e)"
  shows "quart bch a b c d (y XOR e) =
    quart bch a (gf_mul bch a e XOR b) 0 ((gf_sqr bch (gf_sqr bch e) XOR gf_mul bch b (gf_sqr bch e)) XOR d) y"
  using le by (simp add: quart_def c gf_sqr_mul gf_normal [OF ok] xor_simps gf_mul_def [of _ 0])

lemma quart_reverse:
  assumes ok: "gf_ok p bch" and le: "a \<le> GF_N bch" "b \<le> GF_N bch" "d \<le> GF_N bch" "y \<le> GF_N bch" "z \<le> GF_N bch" "q1 \<le> GF_N bch" "q2 \<le> GF_N bch" "i \<le> GF_N bch"
    and yz: "gf_mul bch y z = 1" and q: "gf_mul bch d q1 = b" "gf_mul bch d q2 = a" "gf_mul bch d i = 1"
  shows "quart bch a b 0 d y = 0 \<longleftrightarrow> aff bch q1 q2 z = i"
proof -
  let ?m = "gf_mul bch" and ?s = "gf_sqr bch" and ?Y = "gf_sqr bch (gf_sqr bch y)"
  note cl = le gf_mul_closed [OF ok] gf_xor_closed [OF ok] sqr_closed [OF ok]
  have s1: "?s 1 = 1" using mul_one_right [OF ok gf_one_le [OF ok]] by (simp add: gf_sqr_mul)
  have syz: "?m (?s y) (?s z) = 1" using sqr_mul [OF ok le(4,5)] yz s1 by simp
  then have A1: "?m ?Y (?s (?s z)) = 1" using sqr_mul [OF ok sqr_closed [OF ok le(4)] sqr_closed [OF ok le(5)]] s1 by simp
  have A2: "?m ?Y (?s z) = ?s y"
    using gf_mul_assoc [OF ok, of "?s y" "?s y" "?s z"] syz mul_one_right [OF ok, of "?s y"] cl by (simp add: gf_sqr_mul [of _ "?s y"] del: One_nat_def)
  have "?m ?Y z = ?m (?m y (?s y)) (?m y z)" using le by (simp add: gf_sqr_mul gf_normal [OF ok])
  then have A3: "?m ?Y z = ?m y (?s y)" using yz mul_one_right [OF ok, of "?m y (?s y)"] cl by simp
  have YN: "?Y \<le> GF_N bch" using cl by simp
  have aN: "aff bch q1 q2 z \<le> GF_N bch" using aff_closed [OF ok le(6,7,5)] .
  have "?m (?m d ?Y) (aff bch q1 q2 z XOR i) = ((?m d (?m ?Y (?s (?s z))) XOR ?m (?m d q1) (?m ?Y (?s z))) XOR ?m (?m d q2) (?m ?Y z)) XOR ?m (?m d i) ?Y"
    using YN cl by (simp add: aff_def gf_normal [OF ok] xor_simps)
  also have "\<dots> = quart bch a b 0 d y"
    unfolding A1 A2 A3 q using mul_one_right [OF ok le(3)] gf_mul_one [OF ok YN] by (simp add: quart_def xor_simps gf_mul_def [of _ 0])
  finally have e: "?m (?m d ?Y) (aff bch q1 q2 z XOR i) = quart bch a b 0 d y" .
  have "d \<noteq> 0" using q(3) by (intro notI) (simp add: gf_mul_def)
  moreover have "y \<noteq> 0" using yz by (intro notI) (simp add: gf_mul_def)
  then have "?Y \<noteq> 0" using sqr_eq_0 [OF ok sqr_closed [OF ok le(4)]] sqr_eq_0 [OF ok le(4)] by blast
  ultimately have "?m d ?Y \<noteq> 0" using gf_mul_eq_0 [OF ok le(3) YN] by simp
  then show ?thesis
    unfolding e [symmetric] using gf_mul_eq_0 [OF ok gf_mul_closed [OF ok le(3) YN] gf_xor_closed [OF ok aN le(8)]] by (simp add: xor_eq_0_iff)
qed

text \<open>A quartic without linear and constant terms has no four distinct roots.\<close>

lemma quart_constant:
  assumes ok: "gf_ok p bch" and le: "a \<le> GF_N bch" "b \<le> GF_N bch" and Y: "finite Y" "card Y = 4"
    "\<And>y. y \<in> Y \<Longrightarrow> y \<le> GF_N bch \<and> quart bch a b 0 d y = 0"
  shows "d \<noteq> 0"
proof
  assume d: "d = 0"
  let ?m = "gf_mul bch" and ?s = "gf_sqr bch"
  have k: "aff bch (?s a) 0 y = ?s b" if y: "y \<in> Y" "y \<noteq> 0" for y
  proof -
    have yN: "y \<le> GF_N bch" using Y(3) [OF y(1)] by simp
    have "?m (?s y) ((?s y XOR ?m a y) XOR b) = quart bch a b 0 d y"
      using yN le d by (simp add: quart_def gf_sqr_mul gf_normal [OF ok] xor_simps gf_mul_def [of _ 0])
    then have "?m (?s y) ((?s y XOR ?m a y) XOR b) = 0" using Y(3) [OF y(1)] by simp
    moreover have "?s y \<noteq> 0" using sqr_eq_0 [OF ok yN] y(2) by blast
    ultimately have "(?s y XOR ?m a y) XOR b = 0"
      using gf_mul_eq_0 [OF ok, of "?s y" "(?s y XOR ?m a y) XOR b"] yN le gf_xor_closed [OF ok] gf_mul_closed [OF ok] sqr_closed [OF ok] by simp
    then have "?s (?s y XOR ?m a y) = ?s b" by (simp add: xor_eq_0_iff)
    moreover have "?s (?s y XOR ?m a y) = aff bch (?s a) 0 y"
      using yN le by (simp add: aff_def gf_sqr_mul gf_normal [OF ok] xor_simps gf_mul_def [of _ 0])
    ultimately show ?thesis by simp
  qed
  have "3 \<le> card (Y - {0})" using Y(1,2) by (simp add: card_Diff_singleton_if)
  then obtain T where T: "T \<subseteq> Y - {0}" "card T = 3" by (rule obtain_subset_with_card_n) blast
  obtain y1 y2 y3 where y: "T = {y1, y2, y3}" "y1 \<noteq> y2" "y1 \<noteq> y3" "y2 \<noteq> y3" using T(2) by (auto simp: card_3_iff)
  have yN: "y1 \<le> GF_N bch" "y2 \<le> GF_N bch" "y3 \<le> GF_N bch" using T(1) y(1) Y(3) by auto
  have "aff bch (?s a) 0 y1 = ?s b" "aff bch (?s a) 0 y2 = ?s b" "aff bch (?s a) 0 y3 = ?s b" by (rule k; use T(1) y(1) in auto)+
  from aff_three [OF ok sqr_closed [OF ok le(1)] yN y(2-4) this] show False by simp
qed

lemma inv_inv:
  assumes ok: "gf_ok p bch" and z: "z \<le> GF_N bch" "z \<noteq> 0"
  shows "gf_inv bch z \<noteq> 0" "gf_inv bch (gf_inv bch z) = z"
proof -
  note i = gf_mul_inv [OF ok z]
  show nz: "gf_inv bch z \<noteq> 0" using i(1) by (intro notI) (simp add: gf_mul_def)
  note j = gf_mul_inv [OF ok i(2) nz]
  have "gf_mul bch (gf_inv bch z) (gf_inv bch (gf_inv bch z)) = gf_mul bch (gf_inv bch z) z"
    using i j gf_mul_commute [OF ok z(1) i(2)] by simp
  then show "gf_inv bch (gf_inv bch z) = z" by (rule gf_mul_left_cancel [OF ok i(2) j(2) z(1) nz])
qed

text \<open>The shift is a square root of the quotient of the linear and the cubic coefficient.\<close>

lemma deg4_affine_spec:
  assumes ok: "gf_ok p bch" and le: "a \<le> GF_N bch" "b \<le> GF_N bch" "c \<le> GF_N bch" "d \<le> GF_N bch" and a: "a \<noteq> 0"
  obtains e where "e \<le> GF_N bch" "c = gf_mul bch a (gf_sqr bch e)"
    "deg4_affine bch a b c d = (let d' = (gf_sqr bch (gf_sqr bch e) XOR gf_mul bch b (gf_sqr bch e)) XOR d in
       if d' = 0 then None else Some (gf_div bch (gf_mul bch a e XOR b) d', gf_div bch a d', gf_inv bch d', e))"
proof (cases "c = 0")
  case True
  then show ?thesis using a by (intro that [of 0]) (simp_all add: deg4_affine_def Let_def gf_mul_def [of _ _ 0])
next
  case False
  let ?f = "gf_div bch c a" and ?al = "gf_alpha (GF_M bch) p"
  note f = gf_div_mul [OF ok le(3,1) a]
  have fnz: "?f \<noteq> 0" using f(1) False by (intro notI) (simp add: gf_mul_def)
  define l0 l where l: "l0 = a_log bch ?f" "l = l0 + (if odd l0 then GF_N bch else 0)"
  note l0 = a_log_elem [OF ok f(2) fnz, folded l]
  have "odd (GF_N bch)" using gf_ok_facts(1,2) [OF ok] by (auto simp: field_poly_def)
  then have ev: "l = 2 * (l div 2)" using l by auto
  have al: "?al l = ?f" using alpha_cong [OF ok, of l l0] l0(2) by (simp add: l)
  have lN: "l < 2 * GF_N bch" using l0(1) by (simp add: l)
  define e where "e = a_pow bch (int (l div 2))"
  have "l div 2 < 2 ^ 32" "2 * l < 2 ^ 32" using lN field_size [OF ok] by simp_all
  then have e: "e = ?al (l div 2)" "a_pow bch (2 * int l) = ?al (2 * l)"
    using a_pow_nat [OF ok, of "l div 2"] a_pow_nat [OF ok, of "2 * l"] by (simp_all add: e_def)
  have sq: "gf_sqr bch (?al i) = ?al (2 * i)" for i using gf_mul_alpha [OF ok, of i i] by (simp add: gf_sqr_mul mult_2)
  have se: "gf_sqr bch e = ?f" unfolding e(1) sq using ev al by simp
  have sf: "gf_sqr bch ?f = a_pow bch (2 * int l)" unfolding e(2) al [symmetric] sq ..
  show ?thesis
  proof (rule that [of e])
    show "e \<le> GF_N bch" unfolding e(1) by (rule gf_alpha_le_N [OF ok])
    show "c = gf_mul bch a (gf_sqr bch e)" using f(1) gf_mul_commute [OF ok le(1) f(2)] se by simp
    show "deg4_affine bch a b c d = (let d' = (gf_sqr bch (gf_sqr bch e) XOR gf_mul bch b (gf_sqr bch e)) XOR d in
       if d' = 0 then None else Some (gf_div bch (gf_mul bch a e XOR b) d', gf_div bch a d', gf_inv bch d', e))"
      unfolding deg4_affine_def Let_def l(1) [symmetric] l(2) [symmetric] e_def [symmetric] se sf using a False by simp
  qed
qed

text \<open>With all four roots distinct, the reversed polynomial has the inverses of the shifted roots.\<close>

lemma deg4_reversed:
  assumes ok: "gf_ok p bch" and le: "a \<le> GF_N bch" "b \<le> GF_N bch" "d \<le> GF_N bch" "e \<le> GF_N bch"
    and c: "c = gf_mul bch a (gf_sqr bch e)" and R: "finite R" "card R = 4" "\<And>x. x \<le> GF_N bch \<Longrightarrow> x \<in> R \<longleftrightarrow> quart bch a b c d x = 0"
    "\<And>x. x \<in> R \<Longrightarrow> x \<le> GF_N bch"
  defines "d' \<equiv> (gf_sqr bch (gf_sqr bch e) XOR gf_mul bch b (gf_sqr bch e)) XOR d"
  defines "Z \<equiv> {z. z \<le> GF_N bch \<and> aff bch (gf_div bch (gf_mul bch a e XOR b) d') (gf_div bch a d') z = gf_inv bch d'}"
  shows "d' \<noteq> 0" "d' \<le> GF_N bch" "card Z = 4" "(\<lambda>z. gf_inv bch z XOR e) ` Z = R"
proof -
  let ?m = "gf_mul bch" and ?N = "GF_N bch"
  define b' where "b' = ?m a e XOR b"
  have le': "b' \<le> ?N" "d' \<le> ?N" using le gf_mul_closed [OF ok] gf_xor_closed [OF ok] sqr_closed [OF ok] by (simp_all add: b'_def d'_def)
  have root: "y XOR e \<in> R \<longleftrightarrow> quart bch a b' 0 d' y = 0" if y: "y \<le> ?N" for y
    using R(3) [OF gf_xor_closed [OF ok y le(4)]] quart_shift [OF ok le y c] by (simp add: b'_def d'_def)
  have cancel: "(x XOR e) XOR e = x" for x by simp
  let ?Y = "(\<lambda>r. r XOR e) ` R"
  have inj: "inj_on (\<lambda>r. r XOR e) R" by (rule inj_on_inverseI [of _ "\<lambda>r. r XOR e"]) simp
  have Y: "y \<le> ?N \<and> quart bch a b' 0 d' y = 0" if y: "y \<in> ?Y" for y
  proof -
    obtain r where r: "r \<in> R" "y = r XOR e" using y by blast
    have yN: "y \<le> ?N" using gf_xor_closed [OF ok R(4) [OF r(1)] le(4)] r(2) by simp
    then show ?thesis using root [OF yN] r by simp
  qed
  have "card ?Y = 4" using card_image [OF inj] R(2) by simp
  then show d: "d' \<noteq> 0" by (rule quart_constant [OF ok le(1) le'(1) finite_imageI [OF R(1)] _ Y])
  show "d' \<le> ?N" by (fact le')
  let ?q1 = "gf_div bch b' d'" and ?q2 = "gf_div bch a d'" and ?i = "gf_inv bch d'"
  note D1 = gf_div_mul [OF ok le'(1,2) d] and D2 = gf_div_mul [OF ok le(1) le'(2) d] and I = gf_mul_inv [OF ok le'(2) d]
  have q: "?m d' ?q1 = b'" "?m d' ?q2 = a" using D1 D2 gf_mul_commute [OF ok le'(2)] by simp_all
  have rev: "quart bch a b' 0 d' y = 0 \<longleftrightarrow> aff bch ?q1 ?q2 z = ?i" if "y \<le> ?N" "z \<le> ?N" "?m y z = 1" for y z
    by (rule quart_reverse [OF ok le(1) le'(1,2) that(1,2) D1(2) D2(2) I(2) that(3) q I(1)])
  have Z: "z \<le> ?N \<and> z \<noteq> 0 \<and> gf_inv bch z XOR e \<in> R" if z: "z \<in> Z" for z
  proof -
    have zN: "z \<le> ?N" "aff bch ?q1 ?q2 z = ?i" using z by (auto simp: Z_def b'_def)
    have nz: "z \<noteq> 0" using zN(2) inv_inv(1) [OF ok le'(2) d] by (intro notI) simp
    note v = gf_mul_inv [OF ok zN(1) nz]
    have "?m (gf_inv bch z) z = 1" using v gf_mul_commute [OF ok zN(1) v(2)] by simp
    then show ?thesis using rev [OF v(2) zN(1)] zN root [OF v(2)] nz by simp
  qed
  have bk: "gf_inv bch (r XOR e) \<in> Z \<and> r XOR e \<le> ?N \<and> r XOR e \<noteq> 0" if r: "r \<in> R" for r
  proof -
    let ?y = "r XOR e"
    have y: "?y \<le> ?N" "quart bch a b' 0 d' ?y = 0" using Y r by auto
    have nz: "?y \<noteq> 0" using y(2) d by (intro notI) (simp add: quart_def gf_mul_def)
    note v = gf_mul_inv [OF ok y(1) nz]
    then show ?thesis using rev [OF y(1) v(2) v(1)] y nz by (simp add: Z_def b'_def)
  qed
  show im: "(\<lambda>z. gf_inv bch z XOR e) ` Z = R"
  proof
    show "R \<subseteq> (\<lambda>z. gf_inv bch z XOR e) ` Z"
    proof
      fix r assume "r \<in> R"
      note b = bk [OF this]
      then have "r = gf_inv bch (gf_inv bch (r XOR e)) XOR e" using inv_inv(2) [OF ok, of "r XOR e"] by simp
      then show "r \<in> (\<lambda>z. gf_inv bch z XOR e) ` Z" using b by blast
    qed
  qed (use Z in blast)
  have "inj_on (\<lambda>z. gf_inv bch z XOR e) Z"
  proof (rule inj_on_inverseI [of _ "\<lambda>r. gf_inv bch (r XOR e)"])
    fix z assume "z \<in> Z"
    then show "gf_inv bch ((gf_inv bch z XOR e) XOR e) = z" using Z inv_inv(2) [OF ok, of z] by simp
  qed
  then show "card Z = 4" using card_image im R(2) by metis
qed

lemma find_poly_deg4_correct:
  assumes ok: "gf_ok p bch" and m: "5 \<le> GF_M bch" and f: "psplits bch f R" "card R = 4"
  shows "finds bch (find_poly_deg4_roots bch f) R"
proof -
  let ?N = "GF_N bch" and ?m = "gf_mul bch"
  note F = psplitsD [OF ok f(1)] and nz = psplits_nz [OF ok f(1), unfolded f(2)]
  have dg: "poly_deg f = 4" using F(2) f(2) by simp
  define d c b a where q: "d = gf_div bch (poly_c f ! 0) (poly_c f ! 4)" "c = gf_div bch (poly_c f ! 1) (poly_c f ! 4)"
    "b = gf_div bch (poly_c f ! 2) (poly_c f ! 4)" "a = gf_div bch (poly_c f ! 3) (poly_c f ! 4)"
  have le: "a \<le> ?N" "b \<le> ?N" "c \<le> ?N" "d \<le> ?N" using gf_div_mul(2) [OF ok nz(3) nz(3) [of 4] nz(2)] by (simp_all add: q)
  have root: "x \<in> R \<longleftrightarrow> quart bch a b c d x = 0" if x: "x \<le> ?N" for x
  proof -
    have "peval bch f x = ?m (poly_c f ! 4) (quart bch a b c d x)" using peval_deg4 [OF ok F(1) dg nz(2) x] by (simp add: q)
    then show ?thesis using gf_mul_eq_0 [OF ok nz(3) [of 4] quart_closed [OF ok le x]] nz(2) F(6,9) [of x] x by auto
  qed
  have res: "find_poly_deg4_roots bch f = (case deg4_affine bch a b c d of None \<Rightarrow> [] | Some (a2, b2, c2, e) \<Rightarrow>
      let roots = find_affine4_roots bch a2 b2 c2
      in if length roots = 4 then map (\<lambda>r. let f = (if a \<noteq> 0 then gf_inv bch r else r) in a_ilog bch (f XOR e)) roots else [])"
    unfolding find_poly_deg4_roots_def q Let_def using nz(1) by simp
  show ?thesis
  proof (cases "a = 0")
    case True
    have "quart bch 0 b c d x = aff bch b c x XOR d" for x by (simp add: quart_def aff_def gf_mul_def [of _ 0])
    then have sol: "{x. x \<le> ?N \<and> aff bch b c x = d} = R" using root True F(7) by (auto simp: xor_eq_0_iff)
    note A = find_affine4_correct [OF ok m le(2-4), unfolded sol, OF f(2)]
    have "length (find_affine4_roots bch b c d) = 4" using A distinct_card [OF A(1)] f(2) by simp
    then have "find_poly_deg4_roots bch f = map (a_ilog bch) (find_affine4_roots bch b c d)"
      unfolding res using True by (simp add: deg4_affine_def)
    then show ?thesis using finds_map [OF ok _ A] F(7,8) by simp
  next
    case False
    obtain e where e: "e \<le> ?N" "c = ?m a (gf_sqr bch e)" and
      da: "deg4_affine bch a b c d = (let d' = (gf_sqr bch (gf_sqr bch e) XOR ?m b (gf_sqr bch e)) XOR d in
       if d' = 0 then None else Some (gf_div bch (?m a e XOR b) d', gf_div bch a d', gf_inv bch d', e))"
      by (rule deg4_affine_spec [OF ok le False]) (rule that)
    define d' where "d' = (gf_sqr bch (gf_sqr bch e) XOR ?m b (gf_sqr bch e)) XOR d"
    note Z = deg4_reversed [OF ok le(1,2,4) e F(5) f(2) root F(7), folded d'_def]
    let ?q1 = "gf_div bch (?m a e XOR b) d'" and ?q2 = "gf_div bch a d'" and ?i = "gf_inv bch d'"
    have b': "?m a e XOR b \<le> ?N" by (rule gf_xor_closed [OF ok gf_mul_closed [OF ok le(1) e(1)] le(2)])
    note A = find_affine4_correct [OF ok m gf_div_mul(2) [OF ok b' Z(2,1)] gf_div_mul(2) [OF ok le(1) Z(2,1)] gf_mul_inv(2) [OF ok Z(2,1)] Z(3)]
    let ?r = "find_affine4_roots bch ?q1 ?q2 ?i"
    have len: "length ?r = 4" using distinct_card [OF A(1)] A(2) Z(3) by simp
    let ?X = "map (\<lambda>z. gf_inv bch z XOR e) ?r"
    have X: "set ?X = R" using A(2) Z(4) by simp
    then have "distinct ?X" using len f(2) by (intro card_distinct) simp
    then have "finds bch (map (a_ilog bch) ?X) R" using finds_map [OF ok _ _ X] F(7,8) by blast
    moreover have "find_poly_deg4_roots bch f = map (a_ilog bch) ?X"
      unfolding res da Let_def d'_def [symmetric] using Z(1) len False by (simp add: comp_def)
    ultimately show ?thesis by simp
  qed
qed

end
