(* ===== verification/Bch_Roots.thy ===== *)
theory Bch_Roots
  imports Bch_Quartic
begin

text \<open>
  \<open>find_poly_roots\<close> of lib/bch.c: the trace algorithm splits a polynomial with distinct
  roots until every factor has degree at most 4, and the direct solvers do the rest.
\<close>

lemma finds_append:
  assumes ok: "gf_ok p bch" and R: "\<And>r. r \<in> R \<Longrightarrow> r \<le> GF_N bch \<and> r \<noteq> 0" and Z: "Z \<subseteq> R" and f: "finds bch L Z" "finds bch L' (R - Z)"
  shows "finds bch (L @ L') R"
proof -
  have "inj_on (a_ilog bch) R" by (rule inj_on_subset [OF a_ilog_inj [OF ok]]) (use R in auto)
  then have "a_ilog bch ` Z \<inter> a_ilog bch ` (R - Z) = {}" using Z inj_on_image_Int [of "a_ilog bch" R Z "R - Z"] by auto
  moreover have "a_ilog bch ` Z \<union> a_ilog bch ` (R - Z) = a_ilog bch ` R" using Z by auto
  ultimately show ?thesis using f by (auto simp: finds_def)
qed

definition tr_at :: "nat \<Rightarrow> bch_control \<Rightarrow> nat \<Rightarrow> nat \<Rightarrow> nat" where
  "tr_at p bch k r = gtrace bch (gf_mul bch (gf_alpha (GF_M bch) p k) r)"

definition agree :: "nat \<Rightarrow> bch_control \<Rightarrow> nat \<Rightarrow> nat set \<Rightarrow> bool" where
  "agree p bch k R \<longleftrightarrow> (\<forall>j r s. 1 \<le> j \<longrightarrow> j < k \<longrightarrow> r \<in> R \<longrightarrow> s \<in> R \<longrightarrow> tr_at p bch j r = tr_at p bch j s)"

lemma agree_Suc:
  assumes "agree p bch k R" "Z \<subseteq> R" "\<And>r. r \<in> Z \<Longrightarrow> tr_at p bch k r = c"
  shows "agree p bch (k + 1) Z"
  unfolding agree_def
proof (intro allI impI)
  fix j r s assume j: "1 \<le> j" "j < k + 1" and r: "r \<in> Z" "s \<in> Z"
  show "tr_at p bch j r = tr_at p bch j s"
  proof (cases "j = k")
    case True
    then show ?thesis using assms(3) r by simp
  next
    case False
    then have "j < k" using j by simp
    then show ?thesis using assms(1,2) j(1) r unfolding agree_def by blast
  qed
qed

text \<open>Two elements with the same traces are equal.\<close>

lemma traces_separate:
  assumes ok: "gf_ok p bch" and r: "r \<le> GF_N bch" "s \<le> GF_N bch"
    and t: "\<And>k. 1 \<le> k \<Longrightarrow> k \<le> GF_M bch \<Longrightarrow> tr_at p bch k r = tr_at p bch k s"
  shows "r = s"
proof -
  let ?al = "gf_alpha (GF_M bch) p"
  note al = gf_alpha_le_N [OF ok]
  have "r XOR s = 0"
  proof (rule gtrace_nondegenerate [OF ok gf_xor_closed [OF ok r]])
    fix k assume k: "1 \<le> k" "k \<le> GF_M bch"
    have "tr_at p bch k (r XOR s) = tr_at p bch k r XOR tr_at p bch k s"
      using gf_mul_xor_right [OF ok r al] gtrace_xor [OF ok gf_mul_closed [OF ok al r(1)] gf_mul_closed [OF ok al r(2)]] by (simp add: tr_at_def)
    then show "gtrace bch (gf_mul bch (gf_alpha (GF_M bch) p k) (r XOR s)) = 0" using t [OF k] by (simp add: tr_at_def)
  qed
  then show ?thesis by (simp add: xor_eq_0_iff)
qed

lemma small_roots:
  assumes "gf_ok p bch" "5 \<le> GF_M bch" "xi_ok p bch" "psplits bch f R" "1 \<le> card R" "card R \<le> 4"
  shows "finds bch (find_poly_roots bch k f) R"
proof -
  have d: "poly_deg f = card R" by (rule psplitsD(2) [OF assms(1,4)])
  consider "card R = 1" | "card R = 2" | "card R = 3" | "card R = 4" using assms(5,6) by linarith
  then show ?thesis
  proof cases
    case 1
    then show ?thesis using find_poly_deg1_correct [OF assms(1,4) 1] d by (subst find_poly_roots.simps) simp
  next
    case 2
    then show ?thesis using find_poly_deg2_correct [OF assms(1,3,4) 2] d by (subst find_poly_roots.simps) simp
  next
    case 3
    then show ?thesis using find_poly_deg3_correct [OF assms(1,2,4) 3] d by (subst find_poly_roots.simps) simp
  next
    case 4
    then show ?thesis using find_poly_deg4_correct [OF assms(1,2,4) 4] d by (subst find_poly_roots.simps) simp
  qed
qed

lemma find_poly_roots_correct:
  assumes ok: "gf_ok p bch" and m: "5 \<le> GF_M bch" and xi: "xi_ok p bch"
  shows "1 \<le> k \<Longrightarrow> k \<le> GF_M bch + 1 \<Longrightarrow> psplits bch f R \<Longrightarrow> 1 \<le> card R \<Longrightarrow> card R \<le> GF_T bch \<Longrightarrow> length (poly_c f) = 2 * GF_T bch + 1 \<Longrightarrow>
    agree p bch k R \<Longrightarrow>
    finds bch (find_poly_roots bch k f) R"
proof (induction "GF_M bch + 1 - k" arbitrary: k f R rule: less_induct)
  case less
  note F = psplitsD [OF ok less.prems(3)]
  show ?case
  proof (cases "card R \<le> 4")
    case True
    then show ?thesis using small_roots [OF ok m xi less.prems(3,4)] by blast
  next
    case False
    then have big: "2 \<le> card R" "poly_deg f \<noteq> 1" "poly_deg f \<noteq> 2" "poly_deg f \<noteq> 3" "poly_deg f \<noteq> 4" "poly_deg f \<noteq> 0" using F(2) by auto
    have "k \<le> GF_M bch"
    proof (rule ccontr)
      assume "\<not> k \<le> GF_M bch"
      then have kM: "GF_M bch < k" by simp
      have "r = s" if rs: "r \<in> R" "s \<in> R" for r s
      proof (rule traces_separate [OF ok F(7) [OF rs(1)] F(7) [OF rs(2)]])
        fix j assume j: "1 \<le> j" "j \<le> GF_M bch"
        then have "j < k" using kM by simp
        then show "tr_at p bch j r = tr_at p bch j s" using less.prems(7) j(1) rs unfolding agree_def by blast
      qed
      then have "card R \<le> Suc 0" unfolding card_le_Suc0_iff_eq [OF F(5)] by blast
      then show False using big(1) by simp
    qed
    note k = this
    have kk: "GF_M bch + 1 - (k + 1) < GF_M bch + 1 - k" "1 \<le> k + 1" "k + 1 \<le> GF_M bch + 1" using k by auto
    have step: "find_poly_roots bch k f = (case factor_polynomial bch k f of (f1, f2) \<Rightarrow> find_poly_roots bch (k + 1) f1 @
        (case f2 of Some f \<Rightarrow> find_poly_roots bch (k + 1) f | None \<Rightarrow> []))"
      using big k by (subst find_poly_roots.simps) simp
    define Z where "Z = {r \<in> R. tr_at p bch k r = 0}"
    have tr: "tr_at p bch k r = 0 \<or> tr_at p bch k r = 1" if "r \<in> R" for r
      unfolding tr_at_def using gtrace_binary [OF ok gf_mul_closed [OF ok gf_alpha_le_N [OF ok] F(7) [OF that]]] .
    have Z0: "Z \<subseteq> R" "\<And>r. r \<in> Z \<Longrightarrow> tr_at p bch k r = 0" "\<And>r. r \<in> R - Z \<Longrightarrow> tr_at p bch k r = 1" unfolding Z_def using tr by blast+
    show ?thesis
    proof (cases "Z = {} \<or> Z = R")
      case True
      then have "\<exists>c. \<forall>r \<in> R. tr_at p bch k r = c" using Z0 by auto
      then obtain c where c: "\<And>r. r \<in> R \<Longrightarrow> tr_at p bch k r = c" by blast
      have fn: "factor_polynomial bch k f = (f, None)"
        by (rule factor_none [OF ok less.prems(3) big(1) less.prems(5) k]) (use c in \<open>simp add: tr_at_def\<close>)
      have "finds bch (find_poly_roots bch (k + 1) f) R"
        by (rule less.hyps [OF kk less.prems(3-6) agree_Suc [OF less.prems(7) order_refl c]])
      then show ?thesis by (simp add: step fn)
    next
      case False
      then have Z: "Z \<noteq> {}" "Z \<noteq> R" by auto
      obtain g h where gh: "factor_polynomial bch k f = (g, Some h)" "psplits bch g Z" "psplits bch h (R - Z)"
        "length (poly_c g) = 2 * GF_T bch + 1" "length (poly_c h) = 2 * GF_T bch + 1"
        by (rule factor_some [OF ok less.prems(3) big(1) less.prems(5) k less.prems(6), folded tr_at_def, folded Z_def, OF Z]) (rule that)
      have fin: "finite Z" "finite (R - Z)" using F(5) Z0(1) by (auto intro: finite_subset)
      have c: "1 \<le> card Z" "1 \<le> card (R - Z)" "card Z \<le> GF_T bch" "card (R - Z) \<le> GF_T bch"
        using Z Z0(1) fin card_mono [OF F(5) Z0(1)] card_mono [OF F(5), of "R - Z"] less.prems(5) by (auto simp: Suc_le_eq card_gt_0_iff)
      have "finds bch (find_poly_roots bch (k + 1) g) Z"
        by (rule less.hyps [OF kk gh(2) c(1,3) gh(4) agree_Suc [OF less.prems(7) Z0(1,2)]])
      moreover have "finds bch (find_poly_roots bch (k + 1) h) (R - Z)"
        by (rule less.hyps [OF kk gh(3) c(2,4) gh(5) agree_Suc [OF less.prems(7) Diff_subset Z0(3)]])
      ultimately have "finds bch (find_poly_roots bch (k + 1) g @ find_poly_roots bch (k + 1) h) R"
        by (intro finds_append [OF ok _ Z0(1)]) (use F(7,8) in auto)
      then show ?thesis by (simp add: step gh(1))
    qed
  qed
qed

end
