(* ===== verification/Bch_Multi.thy ===== *)
theory Bch_Multi
  imports Bch_Roots Bch_Init
begin

text \<open>
  The decoder of lib/bch.c corrects every pattern of at most \<open>t\<close> errors: the table that
  \<open>build_deg2_base\<close> builds, the locations that \<open>decode_bch\<close> returns for the syndromes of a
  pattern, and the end-to-end statement for a structure that \<open>init_bch\<close> returns.
\<close>

section \<open>The table for quadratic equations\<close>

lemma trace_sum_gtrace:
  assumes ok: "gf_ok p bch" and i: "i < GF_M bch"
  shows "trace_sum bch i = gtrace bch (gf_alpha (GF_M bch) p i)"
proof -
  have m: "GF_M bch < 16" using gf_ok_facts(1) [OF ok] by (simp add: field_poly_def)
  have "fold (\<lambda>j sum. sum XOR a_pow bch (int (i * 2 ^ j))) [0..<n] 0 = xsum (\<lambda>j. frob bch j (gf_alpha (GF_M bch) p i)) n" if "n \<le> GF_M bch" for n
    using that
  proof (induction n)
    case (Suc n)
    have "(2 :: nat) ^ n \<le> 2 ^ 15" using Suc.prems m by (intro power_increasing) simp_all
    then have "i * 2 ^ n \<le> 15 * 2 ^ 15" using i m by (intro mult_le_mono) simp_all
    then have "i * 2 ^ n < 2 ^ 32" by simp
    then show ?case using Suc a_pow_nat [OF ok, of "i * 2 ^ n"] by (simp add: frob_alpha [OF ok] mult.commute)
  qed simp
  then show ?thesis by (simp add: trace_sum_def gtrace_def)
qed

lemma find_trace_one_spec:
  assumes ok: "gf_ok p bch"
  shows "find_trace_one bch \<le> GF_N bch" "gtrace bch (find_trace_one bch) = 1"
proof -
  let ?al = "gf_alpha (GF_M bch) p" and ?m = "GF_M bch" and ?N = "GF_N bch"
  note al = gf_alpha_le_N [OF ok] and n = gf_ok_facts(3) [OF ok]
  have "\<exists>i < ?m. gtrace bch (?al i) \<noteq> 0"
  proof (rule ccontr)
    assume a: "\<not> (\<exists>i < ?m. gtrace bch (?al i) \<noteq> 0)"
    have "?al (?N - 1) = 0"
    proof (rule gtrace_nondegenerate [OF ok al])
      fix k assume k: "1 \<le> k" "k \<le> ?m"
      have "gf_mul bch (?al k) (?al (?N - 1)) = ?al (k + (?N - 1))" by (rule gf_mul_alpha [OF ok])
      also have "k + (?N - 1) = (k - 1) + ?N" using k n by simp
      also have "?al ((k - 1) + ?N) = ?al (k - 1)" by (rule alpha_cong [OF ok]) simp
      finally show "gtrace bch (gf_mul bch (?al k) (?al (?N - 1))) = 0" using a k by simp
    qed
    then show False using gf_alpha_pos [OF gf_ok_facts(1) [OF ok]] by blast
  qed
  then have "find (\<lambda>i. trace_sum bch i \<noteq> 0) [0..<?m] \<noteq> None" using trace_sum_gtrace [OF ok] by (auto simp: find_None_iff)
  then obtain i where i: "find (\<lambda>i. trace_sum bch i \<noteq> 0) [0..<?m] = Some i" by blast
  then have i': "i < ?m" "trace_sum bch i \<noteq> 0" by (auto simp: find_Some_iff)
  have "?m \<le> ?N" using gf_ok_facts(2) [OF ok] less_exp [of ?m] by linarith
  then have "find_trace_one bch = ?al i" using i i' gf_ok_pow [OF ok, of i] by (simp add: find_trace_one_def)
  then show "find_trace_one bch \<le> ?N" "gtrace bch (find_trace_one bch) = 1"
    using al gtrace_binary [OF ok al, of i] trace_sum_gtrace [OF ok i'(1)] i'(2) by auto
qed

text \<open>The loop fills one entry of the table per flag; the returned count is that of the missing entries.\<close>

definition deg2_inv :: "nat \<Rightarrow> bch_control \<Rightarrow> nat \<Rightarrow> nat \<Rightarrow> bool list \<Rightarrow> nat list \<Rightarrow> bool" where
  "deg2_inv p bch ak remaining flags xi \<longleftrightarrow> length flags = GF_M bch \<and> length xi = GF_M bch \<and>
     remaining = card {i. i < GF_M bch \<and> \<not> flags ! i} \<and>
     (\<forall>i < GF_M bch. flags ! i \<longrightarrow> xi ! i \<le> GF_N bch \<and>
        gf_sqr bch (xi ! i) XOR xi ! i \<in> {gf_alpha (GF_M bch) p i, gf_alpha (GF_M bch) p i XOR ak})"

lemma deg2_inv_accept:
  assumes ok: "gf_ok p bch" and i: "deg2_inv p bch ak remaining flags xi" and y: "y \<le> GF_N bch" "deg2_accept bch flags y"
    and x: "x \<le> GF_N bch" "gf_sqr bch x XOR x \<in> {y, y XOR ak}"
  shows "deg2_inv p bch ak (remaining - 1) (flags[a_log bch y := True]) (xi[a_log bch y := x])"
proof -
  let ?l = "a_log bch y" and ?S = "{i. i < GF_M bch \<and> \<not> flags ! i}"
  have a: "y \<noteq> 0" "?l < GF_M bch" "\<not> flags ! ?l" using y(2) by (auto simp: deg2_accept_def)
  have al: "gf_alpha (GF_M bch) p ?l = y" by (rule a_log_elem(2) [OF ok y(1) a(1)])
  have len: "length flags = GF_M bch" "length xi = GF_M bch" using i by (auto simp: deg2_inv_def)
  have "{i. i < GF_M bch \<and> \<not> flags[?l := True] ! i} = ?S - {?l}" using len a by (auto simp: nth_list_update)
  moreover have "card (?S - {?l}) = card ?S - 1" using a by (intro card_Diff_singleton) auto
  ultimately show ?thesis using i a len al x by (auto simp: deg2_inv_def nth_list_update)
qed

lemma deg2_loop_inv:
  assumes ok: "gf_ok p bch" and ak: "ak \<le> GF_N bch"
  shows "deg2_inv p bch ak remaining flags xi \<Longrightarrow> deg2_loop bch ak x remaining flags xi = (r, xi') \<Longrightarrow> \<exists>flags'. deg2_inv p bch ak r flags' xi'"
proof (induction "Suc (GF_N bch) - x" arbitrary: x remaining flags xi)
  case 0
  then show ?case by (subst (asm) deg2_loop.simps) auto
next
  case (Suc n)
  then have x: "x \<le> GF_N bch" and n: "n = Suc (GF_N bch) - Suc x" by auto
  let ?y = "gf_sqr bch x XOR x"
  have y: "?y \<le> GF_N bch" "?y XOR ak \<le> GF_N bch" using gf_xor_closed [OF ok] sqr_closed [OF ok x] x ak by auto
  have L: "deg2_loop bch ak x remaining flags xi =
      (if remaining = 0 then (remaining, xi)
       else if deg2_accept bch flags ?y then deg2_loop bch ak (Suc x) (remaining - 1) (flags[a_log bch ?y := True]) (xi[a_log bch ?y := x])
       else if deg2_accept bch flags (?y XOR ak)
         then deg2_loop bch ak (Suc x) (remaining - 1) (flags[a_log bch (?y XOR ak) := True]) (xi[a_log bch (?y XOR ak) := x])
       else deg2_loop bch ak (Suc x) remaining flags xi)"
    using x by (subst deg2_loop.simps) (simp add: Let_def)
  consider "remaining = 0" | "remaining \<noteq> 0" "deg2_accept bch flags ?y" | "remaining \<noteq> 0" "\<not> deg2_accept bch flags ?y" "deg2_accept bch flags (?y XOR ak)"
    | "remaining \<noteq> 0" "\<not> deg2_accept bch flags ?y" "\<not> deg2_accept bch flags (?y XOR ak)" by blast
  then show ?case
  proof cases
    case 1
    then show ?thesis using Suc.prems L by auto
  next
    case 2
    have "deg2_inv p bch ak (remaining - 1) (flags[a_log bch ?y := True]) (xi[a_log bch ?y := x])"
      by (rule deg2_inv_accept [OF ok Suc.prems(1) y(1) 2(2) x]) simp
    then show ?thesis by (rule Suc.hyps(1) [OF n]) (use Suc.prems(2) 2 L in simp)
  next
    case 3
    have "deg2_inv p bch ak (remaining - 1) (flags[a_log bch (?y XOR ak) := True]) (xi[a_log bch (?y XOR ak) := x])"
      by (rule deg2_inv_accept [OF ok Suc.prems(1) y(2) 3(3) x]) simp
    then show ?thesis by (rule Suc.hyps(1) [OF n]) (use Suc.prems(2) 3 L in simp)
  next
    case 4
    show ?thesis by (rule Suc.hyps(1) [OF n Suc.prems(1)]) (use Suc.prems(2) 4 L in simp)
  qed
qed

lemma build_deg2_xi_ok:
  assumes ok: "gf_ok p bch" and len: "length (xi_tab bch) = GF_M bch" and b: "build_deg2_base bch = (0, bch')"
  shows "xi_ok p bch'"
proof -
  note t = find_trace_one_spec [OF ok]
  obtain r xi where l: "deg2_loop bch (find_trace_one bch) 0 (GF_M bch) (replicate (GF_M bch) False) (xi_tab bch) = (r, xi)" by force
  then have r: "r = 0" "bch' = bch\<lparr>xi_tab := xi\<rparr>" using b by (auto simp: build_deg2_base_def split: if_splits)
  have "deg2_inv p bch (find_trace_one bch) (GF_M bch) (replicate (GF_M bch) False) (xi_tab bch)"
    using len by (simp add: deg2_inv_def cong: conj_cong)
  from deg2_loop_inv [OF ok t(1) this l] obtain flags where f: "deg2_inv p bch (find_trace_one bch) r flags xi" by blast
  then have "card {i. i < GF_M bch \<and> \<not> flags ! i} = 0" using r(1) by (simp add: deg2_inv_def)
  then have all: "flags ! i" if "i < GF_M bch" for i using that by simp
  have s: "GF_M bch' = GF_M bch" "GF_N bch' = GF_N bch" "gf_sqr bch' = gf_sqr bch" "xi_tab bch' = xi"
    by (simp_all add: r(2) GF_M_def GF_N_def gf_sqr_def mod_s_def fun_eq_iff)
  have "frob bch' = frob bch" by (simp add: frob_def fun_eq_iff s)
  then have "gtrace bch' = gtrace bch" by (simp add: gtrace_def fun_eq_iff s)
  then show ?thesis unfolding xi_ok_def s using t f all by (intro exI [of _ "find_trace_one bch"]) (simp add: deg2_inv_def)
qed

text \<open>The table does not depend on the polynomial that the field is described with.\<close>

lemma xi_ok_any:
  assumes "gf_ok p bch" "gf_ok q bch" "xi_ok p bch"
  shows "xi_ok q bch"
proof -
  have "GF_M bch \<le> GF_N bch" using gf_ok_facts(2) [OF assms(1)] less_exp [of "GF_M bch"] by linarith
  then have "gf_alpha (GF_M bch) p i = gf_alpha (GF_M bch) q i" if "i < GF_M bch" for i
    using gf_ok_pow [OF assms(1), of i] gf_ok_pow [OF assms(2), of i] that by simp
  then show ?thesis using assms(3) by (simp add: xi_ok_def)
qed

lemma init_bch_decodes:
  assumes init: "init_bch cp alloc m t prim_poly = Some bch" and odd: "prim_poly = 0 \<or> odd prim_poly"
  obtains p G where "code_ok p G bch" "xi_ok p bch" "5 \<le> GF_M bch" "GF_T bch = nat t"
proof -
  obtain q bch1 where b1: "gf_ok q bch1" "params_ok bch1" "bch_m bch1 = nat m" "bch_t bch1 = nat t" "length (xi_tab bch1) = nat m"
    and base: "build_deg2_base (build_mod8_tables (bch1\<lparr>ecc_bits := poly_deg (gen_poly bch1)\<rparr>)
       (gen_pack (poly_c (gen_poly bch1)) (poly_deg (gen_poly bch1) + 1))) = (0, bch)" (is "build_deg2_base ?B = _")
    by (rule init_bch_stages [OF init odd]) (rule that)
  obtain p G where ok: "code_ok p G bch" using init_bch_code_ok(1) [OF init odd] by blast
  have B: "gf_ok q ?B = gf_ok q bch1" "length (xi_tab ?B) = GF_M ?B"
    using b1(3,5) by (simp_all add: build_mod8_tables_def Let_def gf_ok_def GF_M_def GF_N_def)
  have xi: "xi_ok q bch" by (rule build_deg2_xi_ok [OF _ B(2) base]) (use B(1) b1(1) in simp)
  have "\<exists>xi. bch = ?B\<lparr>xi_tab := xi\<rparr>" using base by (auto simp: build_deg2_base_def split: prod.splits)
  then have "gf_ok q bch" using B(1) b1(1) by (auto simp: gf_ok_def GF_M_def GF_N_def)
  then have "xi_ok p bch" by (rule xi_ok_any [OF _ code_ok_facts(1) [OF ok] xi])
  moreover have "5 \<le> GF_M bch" "GF_T bch = nat t"
    using init_bch_code_ok(2,3) [OF init odd] b1(2,3) by (simp_all add: params_ok_def GF_M_def GF_T_def)
  ultimately show ?thesis using ok that by blast
qed

section \<open>Locating the errors of a pattern\<close>

text \<open>The sum of the powers \<open>a ^ (e * d)\<close> over the degrees \<open>d\<close> of the errors.\<close>

primrec err_sum :: "nat \<Rightarrow> nat \<Rightarrow> nat \<Rightarrow> nat list \<Rightarrow> nat" where
  "err_sum m p e [] = 0"
| "err_sum m p e (d # ds) = gf_alpha m p (e * d) XOR err_sum m p e ds"

lemma err_sum_append: "err_sum m p e (ds @ ds') = err_sum m p e ds XOR err_sum m p e ds'"
  by (induction ds) (simp_all add: xor.assoc)

lemma err_sum_psum:
  "gf_ok p bch \<Longrightarrow> 0 < j \<Longrightarrow> err_sum (GF_M bch) p j ds = psum (gf_mul bch) (map (gf_alpha (GF_M bch) p) ds) j"
  by (induction ds) (simp_all add: addf_def fpow_alpha)

lemma fix_errloc_all: "(\<And>e. e \<in> set es \<Longrightarrow> e < nbits) \<Longrightarrow> fix_errloc nbits es = (True, map (errloc_bit nbits) es)"
  by (induction es) (simp_all add: less_le_not_le)

lemma alpha_elems:
  assumes ok: "gf_ok p bch" and ds: "distinct ds" "\<And>d. d \<in> set ds \<Longrightarrow> d < GF_N bch"
  shows "gf.elems bch (map (gf_alpha (GF_M bch) p) ds)" "distinct (map (gf_alpha (GF_M bch) p) ds)"
proof -
  have "inj_on (gf_alpha (GF_M bch) p) (set ds)" by (rule inj_onI) (use alpha_inj [OF ok] ds(2) in blast)
  then show "distinct (map (gf_alpha (GF_M bch) p) ds)" using ds(1) by (simp add: distinct_map)
  show "gf.elems bch (map (gf_alpha (GF_M bch) p) ds)"
    using gf_alpha_le_N [OF ok] gf_alpha_pos [OF gf_ok_facts(1) [OF ok]] by (auto simp: gf.elems_def)
qed

text \<open>No pattern of at most \<open>t\<close> errors is a codeword.\<close>

lemma err_sum_nonzero:
  assumes ok: "gf_ok p bch" and ds: "distinct ds" "ds \<noteq> []" "length ds \<le> GF_T bch" "\<And>d. d \<in> set ds \<Longrightarrow> d < GF_N bch"
  shows "\<exists>e. 1 \<le> e \<and> e \<le> 2 * GF_T bch \<and> err_sum (GF_M bch) p e ds \<noteq> 0"
proof (rule ccontr)
  assume a: "\<not> (\<exists>e. 1 \<le> e \<and> e \<le> 2 * GF_T bch \<and> err_sum (GF_M bch) p e ds \<noteq> 0)"
  let ?syn = "replicate (2 * GF_T bch) 0" and ?xs = "map (gf_alpha (GF_M bch) p) ds"
  note el = alpha_elems [OF ok ds(1,4)]
  have t: "0 < GF_T bch" using ds(2,3) by (cases ds) auto
  have "err_sum (GF_M bch) p (Suc j) ds = 0" if "j < 2 * GF_T bch" for j using a that by auto
  then have s: "syn_of bch ?xs ?syn" using err_sum_psum [OF ok] by (simp add: syn_of_def)
  have s0: "syn_of bch [] ?syn" by (simp add: syn_of_def)
  have "fst (compute_error_locator_polynomial bch ?syn) = int (length ?xs)"
    by (rule elp_locator [OF ok el _ s t]) (use ds(3) in simp_all)
  moreover have "fst (compute_error_locator_polynomial bch ?syn) = int (length ([] :: nat list))"
    by (rule elp_locator [OF ok _ _ _ s0 t]) (simp_all add: gf.elems_def)
  ultimately show False using ds(2) by simp
qed

lemma locate_multi:
  assumes ok: "gf_ok p bch" and m: "5 \<le> GF_M bch" and xi: "xi_ok p bch"
    and ds: "distinct ds" "ds \<noteq> []" "length ds \<le> GF_T bch" "\<And>d. d \<in> set ds \<Longrightarrow> d < GF_N bch \<and> d < 8 * len + ecc_bits bch"
    and syn: "\<And>j. j < 2 * GF_T bch \<Longrightarrow> syn ! j = err_sum (GF_M bch) p (Suc j) ds" and r: "8 * len + ecc_bits bch < 2 ^ 32"
  obtains es where "locate_errors bch len syn = (int (length ds), map (errloc_bit (8 * len + ecc_bits bch)) es)" "distinct es" "set es = set ds"
proof -
  have okE: "\<exists>p. gf_ok p bch" using ok by blast
  let ?al = "gf_alpha (GF_M bch) p" and ?xs = "map (gf_alpha (GF_M bch) p) ds"
  have dN: "d < GF_N bch" if "d \<in> set ds" for d using ds(4) [OF that] by simp
  have al: "?al d \<le> GF_N bch" "?al d \<noteq> 0" for d using gf_alpha_le_N [OF ok] gf_alpha_pos [OF gf_ok_facts(1) [OF ok]] by auto
  have el: "gf.elems bch ?xs" and dist: "distinct ?xs" by (rule alpha_elems [OF ok ds(1) dN]; assumption)+
  have so: "syn_of bch ?xs syn" using syn err_sum_psum [OF ok] by (simp add: syn_of_def)
  have t: "0 < GF_T bch" using ds(2,3) by (cases ds) auto
  have lt: "length ?xs \<le> GF_T bch" using ds(3) by simp
  obtain e where e: "compute_error_locator_polynomial bch syn = (int (length ?xs), e)" "poly_deg e = length ?xs"
    "pcoef e = locator (gf_mul bch) ?xs" "length (poly_c e) = 2 * GF_T bch + 1" "\<And>n. n \<le> 2 * GF_T bch \<Longrightarrow> length ?xs < n \<Longrightarrow> poly_c e ! n = 0"
    by (rule elp_locator [OF ok el dist lt so t]) (rule that)
  define R where "R = gf_inv bch ` set ?xs"
  have ce: "poly_c e ! n \<le> GF_N bch" if "n < length (poly_c e)" for n
  proof (cases "n \<le> poly_deg e")
    case True
    then have "poly_c e ! n = locator (gf_mul bch) ?xs n" using fun_cong [OF e(3), of n] by (simp add: pcoef_def)
    then show ?thesis using gf.serD [OF gf.ser_locator [OF okE el]] by simp
  next
    case False
    then have "poly_c e ! n = 0" using e(2,4,5) that by simp
    then show ?thesis by simp
  qed
  have pk: "pok bch e" using e(2,4) ds(3) ce by (auto simp: pok_def in_set_conv_nth)
  have sp: "gf.splits bch (pcoef e) R" unfolding e(3) R_def by (rule gf.splits_locator [OF okE el dist])
  have "inj_on (gf_inv bch) (set ?xs)" by (rule inj_on_subset [OF gf.inv_inj_on [OF okE]]) (use al in auto)
  then have cR: "card R = length ds" unfolding R_def using card_image distinct_card [OF dist] by fastforce
  have ps: "psplits bch e R" using pk sp cR e(2) by (simp add: psplits_def)
  have c1: "1 \<le> card R" "card R \<le> GF_T bch" using cR ds(2,3) by (auto simp: Suc_le_eq)
  have f: "finds bch (find_poly_roots bch 1 e) R"
    by (rule find_poly_roots_correct [OF ok m xi _ _ ps c1 e(4)]) (simp_all add: agree_def)
  define es where "es = find_poly_roots bch 1 e"
  have il: "a_ilog bch (gf_inv bch (?al d)) = d" if d: "d \<in> set ds" for d
  proof -
    note v = gf_mul_inv [OF ok al]
    show ?thesis using a_ilog_eq [OF ok v(2) v(1) dN [OF d]] by simp
  qed
  have es: "distinct es" "set es = set ds" using f il by (auto simp: finds_def es_def R_def image_image)
  have les: "length es = length ds" using es distinct_card [of es] distinct_card [OF ds(1)] by simp
  have "fix_errloc (8 * len + ecc_bits bch) es = (True, map (errloc_bit (8 * len + ecc_bits bch)) es)"
    by (rule fix_errloc_all) (use es(2) ds(4) in auto)
  then have "locate_errors bch len syn = (int (length ds), map (errloc_bit (8 * len + ecc_bits bch)) es)"
    using ds(2) les r e(1) by (simp add: locate_errors_def mult.commute [of len] flip: es_def del: One_nat_def)
  then show ?thesis using es that by blast
qed

lemma xi_ok_buf: "xi_ok p (bch\<lparr>ecc_buf2 := b', ecc_buf := b\<rparr>) = xi_ok p bch"
proof -
  let ?B = "bch\<lparr>ecc_buf2 := b', ecc_buf := b\<rparr>"
  have s: "GF_M ?B = GF_M bch" "GF_N ?B = GF_N bch" "gf_sqr ?B = gf_sqr bch" "xi_tab ?B = xi_tab bch"
    by (simp_all add: gf_sqr_def mod_s_def fun_eq_iff)
  have "frob ?B = frob bch" by (simp add: frob_def fun_eq_iff s)
  then have "gtrace ?B = gtrace bch" by (simp add: gtrace_def fun_eq_iff s)
  then show ?thesis unfolding xi_ok_def s by simp
qed

lemma decode_multi:
  assumes ok: "code_ok p G bch" and m: "5 \<le> GF_M bch" and xi: "xi_ok p bch" and len: "8 * length data \<le> bch_n bch - ecc_bits bch"
    and ds: "distinct ds" "ds \<noteq> []" "length ds \<le> GF_T bch" "\<And>d. d \<in> set ds \<Longrightarrow> d < 8 * length data + ecc_bits bch"
    and err: "\<And>e. 1 \<le> e \<Longrightarrow> e \<le> 2 * GF_T bch \<Longrightarrow> word_eval p bch e data (load_ecc8 bch re) = err_sum (GF_M bch) p e ds"
  obtains es bch' where "decode_bch bch (Some (addr, data)) (length data) (Some re) None None =
      (int (length ds), map (errloc_bit (8 * length data + ecc_bits bch)) es, bch')" "distinct es" "set es = set ds"
proof -
  note f = code_ok_facts [OF ok]
  have n: "bch_n bch < 2 ^ 31" "ecc_bits bch \<le> bch_n bch" using ok by (simp_all add: code_ok_def)
  have dN: "d < GF_N bch" if "d \<in> set ds" for d using ds(4) [OF that] len n f(8) by simp
  let ?pd = "parity_diff bch addr data re"
  have ll: "length (load_ecc8 bch re) = BCH_ECC_WORDS bch" by (rule load_ecc8_length [OF f(5)])
  have lpd: "length ?pd = BCH_ECC_WORDS bch" using ll encode_bch_length [OF f(5), of addr data] by (simp add: parity_diff_def)
  have ev: "eval2 (GF_M bch) p e (ecc_coeff (ecc_bits bch) ?pd) (ecc_bits bch) = err_sum (GF_M bch) p e ds"
    if "1 \<le> e" "e \<le> 2 * GF_T bch" for e
    unfolding parity_diff_def received_eval [OF ok ll that] by (rule err [OF that])
  have nz: "\<not> list_all (\<lambda>w. w = 0) ?pd"
  proof
    assume "list_all (\<lambda>w. w = 0) ?pd"
    moreover have "(ecc_bits bch - 1 - k) div 32 < length ?pd" if "k < ecc_bits bch" for k
      using that f(6) lpd by (simp add: less_mult_imp_div_less)
    ultimately have "\<not> ecc_coeff (ecc_bits bch) ?pd k" if "k < ecc_bits bch" for k
      using that by (simp add: ecc_coeff_def list_all_length)
    then have "eval2 (GF_M bch) p e (ecc_coeff (ecc_bits bch) ?pd) (ecc_bits bch) = 0" for e
      unfolding eval2_def by (intro xsum_eq_0) simp
    then show False using ev err_sum_nonzero [OF f(1) ds(1-3) dN] by auto
  qed
  obtain bch2 where b2: "GF_M bch2 = GF_M bch" "GF_T bch2 = GF_T bch" "GF_N bch2 = GF_N bch" "ecc_bits bch2 = ecc_bits bch"
    "gf_ok p bch2 = gf_ok p bch" "syn_range bch2 = syn_range bch" and upd: "\<exists>b b'. bch2 = bch\<lparr>ecc_buf2 := b', ecc_buf := b\<rparr>"
    and dec: "(let r = decode_bch bch (Some (addr, data)) (length data) (Some re) None None in (fst r, fst (snd r))) =
       locate_errors bch2 (length data) (snd (compute_syndromes bch2 ?pd))"
    using decode_bch_received [OF len n(1) refl, of p addr re, unfolded if_not_P [OF nz]] by blast
  have xi2: "xi_ok p bch2" using upd xi xi_ok_buf by auto
  have ok2: "gf_ok p bch2" "syn_range bch2" "ecc_bits bch2 \<le> 32 * length ?pd" using b2(4-6) f(1,3,6) lpd by simp_all
  have syn: "snd (compute_syndromes bch2 ?pd) ! j = err_sum (GF_M bch2) p (Suc j) ds" if "j < 2 * GF_T bch2" for j
    using compute_syndromes_eval(2) [OF ok2, of j] ev [of "j + 1"] b2(1-4) that by simp
  obtain es where es: "locate_errors bch2 (length data) (snd (compute_syndromes bch2 ?pd)) =
      (int (length ds), map (errloc_bit (8 * length data + ecc_bits bch2)) es)" "distinct es" "set es = set ds"
    by (rule locate_multi [OF ok2(1) _ _ ds(1,2) _ _ syn, where len = "length data"])
      (use m xi2 b2 ds(3,4) dN n len f(8) that in simp_all)
  then show ?thesis
    using dec b2(4) that [of es] by (cases "decode_bch bch (Some (addr, data)) (length data) (Some re) None None") (simp add: Let_def)
qed

section \<open>Flipping the bits of a pattern\<close>

lemma flips_length [simp]: "length (fold flip_bit8 ps data) = length data"
  by (induction ps arbitrary: data) simp_all

lemma byte_bit_flips:
  assumes "distinct ps" "\<forall>x \<in> set ps. x < 8 * length data" "x < 8 * length data"
  shows "byte_bit (fold flip_bit8 ps data) x = (byte_bit data x \<noteq> (bit_order x \<in> set ps))"
  using assms
proof (induction ps arbitrary: data)
  case (Cons q ps)
  have "x = bit_order q \<longleftrightarrow> bit_order x = q" by (metis bit_order_inv)
  then have "byte_bit (flip_bit8 q data) x = (byte_bit data x \<noteq> (bit_order x = q))" using byte_bit_flip [of q data x] Cons.prems by simp
  then show ?case using Cons.IH [of "flip_bit8 q data"] Cons.prems by auto
qed simp

lemma bytes_eqI:
  assumes l: "length xs = length ys" and b: "\<And>x. x < 8 * length xs \<Longrightarrow> byte_bit xs x = byte_bit ys x"
  shows "xs = ys"
proof (rule nth_equalityI [OF l])
  fix i assume i: "i < length xs"
  show "xs ! i = ys ! i"
  proof (rule bit_word_eqI)
    fix k assume k: "k < LENGTH(8)"
    define r where "r = 7 - k"
    have r: "r < 8" "7 - r = k" using k by (auto simp: r_def)
    have "8 * i + r < 8 * length xs" using i r by simp
    then show "bit (xs ! i) k = bit (ys ! i) k" using b [of "8 * i + r"] r by (simp add: byte_bit_def)
  qed
qed

text \<open>Flipping the same bits again, in any order, restores the bytes.\<close>

lemma flips_restore:
  assumes "distinct ps" "distinct qs" "set qs = set ps" "\<forall>x \<in> set ps. x < 8 * length data"
  shows "fold flip_bit8 qs (fold flip_bit8 ps data) = data"
  by (rule bytes_eqI) (use assms byte_bit_flips [of qs "fold flip_bit8 ps data"] byte_bit_flips [of ps data] in auto)

lemma word_eval_data_flips:
  assumes "\<forall>x \<in> set ps. x < 8 * length data"
  shows "word_eval p bch e (fold flip_bit8 ps data) ecc = word_eval p bch e data ecc XOR err_sum (GF_M bch) p e (map (data_degree bch (length data)) ps)"
  using assms
proof (induction ps arbitrary: data)
  case (Cons q ps)
  then show ?case using word_eval_data_flip [of q data p bch e ecc] Cons.IH [of "flip_bit8 q data"] by (simp add: xor.assoc)
qed simp

lemma word_eval_parity_flips:
  assumes ok: "code_ok p G bch" and "\<forall>x \<in> set qs. bit_order x < ecc_bits bch" and "length re = BCH_ECC_BYTES bch"
  shows "word_eval p bch e data (load_ecc8 bch (fold flip_bit8 qs re)) =
    word_eval p bch e data (load_ecc8 bch re) XOR err_sum (GF_M bch) p e (map (parity_degree bch) qs)"
  using assms(2,3)
proof (induction qs arbitrary: re)
  case (Cons q qs)
  then show ?case using word_eval_parity_flip [OF ok, of q re e data] Cons.IH [of "flip_bit8 q re"] by (simp add: xor.assoc)
qed simp

lemma pattern_degrees:
  assumes ps: "distinct ps" "\<forall>x \<in> set ps. x < 8 * len" and qs: "distinct qs" "\<forall>x \<in> set qs. bit_order x < ecc_bits bch"
  defines "ds \<equiv> map (data_degree bch len) ps @ map (parity_degree bch) qs"
  shows "distinct ds" "\<And>d. d \<in> set ds \<Longrightarrow> d < 8 * len + ecc_bits bch"
    "errloc_bit (8 * len + ecc_bits bch) ` set ds = set ps \<union> (\<lambda>q. 8 * len + q) ` set qs"
proof -
  let ?e = "errloc_bit (8 * len + ecc_bits bch)"
  note D = errloc_data_degree [where bch = bch and len = len]
    and P = errloc_parity_degree(1) [where bch = bch] errloc_parity_degree(2) [where bch = bch and len = len]
  have "inj_on (data_degree bch len) (set ps)" by (rule inj_on_inverseI [of _ ?e]) (use D(3) ps(2) in blast)
  moreover have "inj_on (parity_degree bch) (set qs)" by (rule inj_on_inverseI [of _ "\<lambda>d. ?e d - 8 * len"]) (use P(2) qs(2) in simp)
  moreover have "data_degree bch len x \<noteq> parity_degree bch y" if "x \<in> set ps" "y \<in> set qs" for x y
    using D(2) [of x] P(1) [of y] ps(2) qs(2) that by fastforce
  ultimately show "distinct ds" using ps(1) qs(1) by (auto simp: ds_def distinct_map)
  show "d < 8 * len + ecc_bits bch" if "d \<in> set ds" for d using that D(1) P(1) ps(2) qs(2) by (fastforce simp: ds_def)
  have "?e ` data_degree bch len ` set ps = set ps" unfolding image_image using D(3) ps(2) by (simp cong: image_cong)
  moreover have "?e ` parity_degree bch ` set qs = (\<lambda>q. 8 * len + q) ` set qs" unfolding image_image using P(2) qs(2) by (simp cong: image_cong)
  ultimately show "?e ` set ds = set ps \<union> (\<lambda>q. 8 * len + q) ` set qs" by (simp add: ds_def image_Un)
qed

lemma decode_pattern:
  assumes ok: "code_ok p G bch" and m: "5 \<le> GF_M bch" and xi: "xi_ok p bch" and len: "8 * length data \<le> bch_n bch - ecc_bits bch"
    and ps: "distinct ps" "\<forall>x \<in> set ps. x < 8 * length data" and qs: "distinct qs" "\<forall>x \<in> set qs. bit_order x < ecc_bits bch"
    and t: "length ps + length qs \<le> GF_T bch"
  obtains locs bch' where "decode_bch bch (Some (addr', fold flip_bit8 ps data)) (length data)
      (Some (fold flip_bit8 qs (parity_bytes bch addr data))) None None = (int (length ps + length qs), locs, bch')"
    "distinct locs" "set locs = set ps \<union> (\<lambda>q. 8 * length data + q) ` set qs"
proof (cases "ps = [] \<and> qs = []")
  case True
  then show ?thesis using decode_clean [OF ok len, of addr' addr] that by auto
next
  case False
  let ?data = "fold flip_bit8 ps data" and ?re = "fold flip_bit8 qs (parity_bytes bch addr data)"
  let ?e = "errloc_bit (8 * length data + ecc_bits bch)"
  define ds where "ds = map (data_degree bch (length data)) ps @ map (parity_degree bch) qs"
  note D = pattern_degrees [OF ps qs, folded ds_def]
  have err: "word_eval p bch e ?data (load_ecc8 bch ?re) = err_sum (GF_M bch) p e ds" if e: "1 \<le> e" "e \<le> 2 * GF_T bch" for e
    using word_eval_data_flips [OF ps(2), of p bch e "load_ecc8 bch ?re"] word_eval_parity_flips [OF ok qs(2) parity_bytes_length [OF ok], of e data addr data]
      codeword_syndromes [OF ok e, of data addr] by (simp add: load_parity [OF ok] ds_def err_sum_append xor_simps)
  have l: "length ?data = length data" by simp
  have nd: "ds \<noteq> []" "length ds \<le> GF_T bch" "length ds = length ps + length qs" using False t by (auto simp: ds_def)
  obtain es bch' where es: "decode_bch bch (Some (addr', ?data)) (length ?data) (Some ?re) None None =
      (int (length ds), map (errloc_bit (8 * length ?data + ecc_bits bch)) es, bch')" "distinct es" "set es = set ds"
    by (rule decode_multi [OF ok m xi _ D(1) nd(1,2) _ err]) (use len D(2) that l in simp_all)
  have s: "set (map ?e es) = set ps \<union> (\<lambda>q. 8 * length data + q) ` set qs" using D(3) es(3) by simp
  have "card (set ps \<union> (\<lambda>q. 8 * length data + q) ` set qs) = length ps + length qs"
    using ps qs(1) by (subst card_Un_disjoint) (auto simp: distinct_card card_image)
  then have "distinct (map ?e es)"
    using s es(2,3) D(1) nd(3) distinct_card [of es] distinct_card [of ds] by (intro card_distinct) simp
  then show ?thesis using that [of "map ?e es" bch'] es(1) s l nd(3) by simp
qed

section \<open>Properties\<close>

text \<open>A polynomial with given distinct non-zero roots, as an array of the size of the work buffers.\<close>

definition locator_poly :: "bch_control \<Rightarrow> nat list \<Rightarrow> gf_poly" where
  "locator_poly bch xs = \<lparr>poly_deg = length xs, poly_c = map (locator (gf_mul bch) xs) [0..<2 * GF_T bch + 1]\<rparr>"

lemma locator_poly_psplits:
  assumes ok: "gf_ok p bch" and xs: "gf.elems bch xs" "distinct xs" "length xs \<le> GF_T bch"
  shows "psplits bch (locator_poly bch xs) (gf_inv bch ` set xs)" "card (gf_inv bch ` set xs) = length xs"
proof -
  have okE: "\<exists>p. gf_ok p bch" using ok by blast
  note sp = gf.splits_locator [OF okE xs(1,2)] and ser = gf.serD [OF gf.ser_locator [OF okE xs(1)]]
  have "locator (gf_mul bch) xs n = 0" if "length xs < n" for n
    using gf.deg_le_locator [OF okE xs(1)] that by (simp add: deg_le_def)
  then have pc: "pcoef (locator_poly bch xs) = locator (gf_mul bch) xs"
    using xs(3) by (auto simp: pcoef_def locator_poly_def fun_eq_iff nth_append simp del: upt_Suc)
  have "inj_on (gf_inv bch) (set xs)" by (rule inj_on_subset [OF gf.inv_inj_on [OF okE]]) (use xs(1) in \<open>auto simp: gf.elems_def\<close>)
  then show c: "card (gf_inv bch ` set xs) = length xs" using card_image distinct_card [OF xs(2)] by fastforce
  have "pok bch (locator_poly bch xs)" using ser xs(3) by (auto simp: pok_def locator_poly_def)
  then show "psplits bch (locator_poly bch xs) (gf_inv bch ` set xs)"
    using sp pc c by (simp add: psplits_def) (simp add: locator_poly_def)
qed

text \<open>A concrete structure: \<open>m = 5\<close>, with the powers of the root as elements.\<close>

lemma init_5_elems:
  assumes i: "init_bch None (\<lambda>_. True) 5 (int t) 0 = Some bch" and n: "n \<le> t"
  obtains p xs where "gf_ok p bch" "GF_T bch = t" "gf.elems bch xs" "distinct xs" "length xs = n"
proof -
  obtain p G where ok: "code_ok p G bch" "5 \<le> GF_M bch" "GF_T bch = nat (int t)"
    by (rule init_bch_decodes [OF i]) (use that in auto)
  note f = code_ok_facts [OF ok(1)]
  have "n < GF_N bch"
  proof -
    have "GF_T bch \<le> GF_M bch * GF_T bch" using ok(2) by simp
    moreover have "5 * t < 31" using i by (auto simp: init_bch_def split: if_splits)
    moreover have "GF_N bch = 31" using init_sizes(1) [OF i] by (simp add: GF_N_def)
    ultimately show ?thesis using n by simp
  qed
  then have "gf.elems bch (map (gf_alpha (GF_M bch) p) [0..<n])" "distinct (map (gf_alpha (GF_M bch) p) [0..<n])"
    using alpha_elems [OF f(1), of "[0..<n]"] by auto
  then show ?thesis using that [OF f(1)] ok(3) by simp
qed

text \<open>
  C1: error correction, end to end.  For every control structure that \<open>init_bch\<close>
  returns (default or any odd polynomial), every message that fits, and every pattern
  of at most \<open>t\<close> flipped bits \<open>ps\<close> of the data and \<open>qs\<close> of the parity bytes that
  \<open>encode_bch\<close> stored, \<open>decode_bch\<close> returns the number of flipped bits and
  exactly their locations, those of parity bits counted from the end of the data, and
  the documented correction of the locations inside the data restores the message.
  The alignment of both buffers is arbitrary.
\<close>

theorem bch_corrects_errors:
  assumes init: "init_bch cp alloc m t prim_poly = Some bch" and "prim_poly = 0 \<or> odd prim_poly"
    and "8 * length data \<le> bch_n bch - ecc_bits bch"
    and "distinct ps" and "\<forall>x \<in> set ps. x < 8 * length data"
    and "distinct qs" and "\<forall>x \<in> set qs. bit_order x < ecc_bits bch"
    and "int (length ps + length qs) \<le> t"
  shows "\<exists>locs bch'. decode_bch bch (Some (addr', fold flip_bit8 ps data)) (length data)
        (Some (fold flip_bit8 qs (parity_bytes bch addr data))) None None = (int (length ps + length qs), locs, bch')
    \<and> distinct locs \<and> set locs = set ps \<union> (\<lambda>q. 8 * length data + q) ` set qs
    \<and> fold flip_bit8 (filter (\<lambda>l. l < 8 * length data) locs) (fold flip_bit8 ps data) = data"
proof -
  obtain p G where ok: "code_ok p G bch" "xi_ok p bch" "5 \<le> GF_M bch" "GF_T bch = nat t"
    by (rule init_bch_decodes [OF init assms(2)]) (rule that)
  have t: "length ps + length qs \<le> GF_T bch" using assms(8) ok(4) by simp
  obtain locs bch' where d: "decode_bch bch (Some (addr', fold flip_bit8 ps data)) (length data)
        (Some (fold flip_bit8 qs (parity_bytes bch addr data))) None None = (int (length ps + length qs), locs, bch')"
    "distinct locs" "set locs = set ps \<union> (\<lambda>q. 8 * length data + q) ` set qs"
    by (rule decode_pattern [OF ok(1,3,2) assms(3-7) t]) (rule that)
  have "set (filter (\<lambda>l. l < 8 * length data) locs) = set ps" using d(3) assms(5) by auto
  then have "fold flip_bit8 (filter (\<lambda>l. l < 8 * length data) locs) (fold flip_bit8 ps data) = data"
    using d(2) assms(4,5) by (intro flips_restore) auto
  then show ?thesis using d by blast
qed

theorem bch_corrects_errors_witness:
  "\<exists>bch locs bch'. init_bch None (\<lambda>_. True) 5 3 0 = Some bch \<and>
     decode_bch bch (Some (1, fold flip_bit8 [3, 11] [0x5a, 0x13])) 2
       (Some (fold flip_bit8 [7] (parity_bytes bch 0 [0x5a, 0x13]))) None None = (3, locs, bch') \<and> set locs = {3, 11, 23}"
proof -
  obtain bch where i: "init_bch None (\<lambda>_. True) 5 3 0 = Some bch" using init_5 [of 3] by auto
  obtain p G where ok: "code_ok p G bch" using init_bch_code_ok(1) [OF i] by auto
  have "8 * length [0x5a, 0x13 :: u8] \<le> bch_n bch - ecc_bits bch" using init_sizes [OF i] by simp
  moreover have "bit_order 7 < ecc_bits bch" using code_ok_facts(4) [OF ok] by (simp add: bit_order_def)
  ultimately show ?thesis
    using bch_corrects_errors [OF i, of "[0x5a, 0x13]" "[3, 11]" "[7]" 1 0] i by (auto simp: numeral_2_eq_2)
qed

text \<open>
  C2: \<open>find_poly_roots\<close> is complete.  For every structure that \<open>init_bch\<close> returns and
  every polynomial of degree at most \<open>t\<close> that has as many distinct non-zero roots in the
  field as its degree, it returns the logarithms of the inverses of exactly these roots,
  each once: the trace algorithm with the direct solvers for degrees 1 to 4.
\<close>

theorem find_poly_roots_finds_all:
  assumes "init_bch cp alloc m t prim_poly = Some bch" and "prim_poly = 0 \<or> odd prim_poly"
    and "psplits bch f R" and "1 \<le> card R" and "int (card R) \<le> t" and "length (poly_c f) = 2 * GF_T bch + 1"
  shows "finds bch (find_poly_roots bch 1 f) R"
proof -
  obtain p G where ok: "code_ok p G bch" "xi_ok p bch" "5 \<le> GF_M bch" "GF_T bch = nat t"
    by (rule init_bch_decodes [OF assms(1,2)]) (rule that)
  show ?thesis
    by (rule find_poly_roots_correct [OF code_ok_facts(1) [OF ok(1)] ok(3,2) _ _ assms(3,4) _ assms(6)]) (use assms(5) ok(4) in \<open>simp_all add: agree_def\<close>)
qed

theorem find_poly_roots_finds_all_witness:
  "\<exists>bch f R. init_bch None (\<lambda>_. True) 5 6 0 = Some bch \<and> poly_deg f = 6 \<and> card R = 6 \<and> finds bch (find_poly_roots bch 1 f) R"
proof -
  obtain bch where i: "init_bch None (\<lambda>_. True) 5 6 0 = Some bch" using init_5 [of 6] by auto
  obtain p xs where x: "gf_ok p bch" "GF_T bch = 6" "gf.elems bch xs" "distinct xs" "length xs = 6"
    by (rule init_5_elems [of 6 bch 6]) (use i that in simp_all)
  note s = locator_poly_psplits [OF x(1,3,4)]
  have "finds bch (find_poly_roots bch 1 (locator_poly bch xs)) (gf_inv bch ` set xs)"
    by (rule find_poly_roots_finds_all [OF i _ s(1)]) (use s(2) x(2,5) in \<open>simp_all add: locator_poly_def\<close>)
  moreover have "poly_deg (locator_poly bch xs) = 6" "card (gf_inv bch ` set xs) = 6" using s(2) x(2,5) by (simp_all add: locator_poly_def)
  ultimately show ?thesis using i by blast
qed

text \<open>
  C3: \<open>compute_error_locator_polynomial\<close> is correct.  For the syndromes of at most \<open>t\<close>
  distinct error positions it returns their number and the locator polynomial, the
  product of the factors \<open>1 + x X\<close>, with exactly that degree.
\<close>

theorem error_locator_polynomial_correct:
  assumes "gf_ok p bch" and "0 < GF_T bch" and "gf.elems bch xs" and "distinct xs" and "length xs \<le> GF_T bch"
    and "\<forall>j < 2 * GF_T bch. syn ! j = psum (gf_mul bch) xs (j + 1)"
  shows "\<exists>e. compute_error_locator_polynomial bch syn = (int (length xs), e) \<and> poly_deg e = length xs \<and>
    (\<forall>k \<le> length xs. poly_c e ! k = locator (gf_mul bch) xs k)"
proof -
  have "syn_of bch xs syn" using assms(6) by (simp add: syn_of_def)
  then obtain e where e: "compute_error_locator_polynomial bch syn = (int (length xs), e)" "poly_deg e = length xs"
    "pcoef e = locator (gf_mul bch) xs"
    using elp_locator [OF assms(1,3-5) _ assms(2)] by blast
  moreover have "poly_c e ! k = locator (gf_mul bch) xs k" if "k \<le> length xs" for k
    using fun_cong [OF e(3), of k] e(2) that by (simp add: pcoef_def)
  ultimately show ?thesis by blast
qed

theorem error_locator_polynomial_correct_witness:
  "\<exists>bch xs e. init_bch None (\<lambda>_. True) 5 6 0 = Some bch \<and> length xs = 5 \<and>
     compute_error_locator_polynomial bch (map (\<lambda>j. psum (gf_mul bch) xs (j + 1)) [0..<12]) = (5, e) \<and> poly_deg e = 5"
proof -
  obtain bch where i: "init_bch None (\<lambda>_. True) 5 6 0 = Some bch" using init_5 [of 6] by auto
  obtain p xs where x: "gf_ok p bch" "GF_T bch = 6" "gf.elems bch xs" "distinct xs" "length xs = 5"
    by (rule init_5_elems [of 6 bch 5]) (use i that in simp_all)
  have "\<exists>e. compute_error_locator_polynomial bch (map (\<lambda>j. psum (gf_mul bch) xs (j + 1)) [0..<12]) = (int (length xs), e) \<and> poly_deg e = length xs \<and>
    (\<forall>k \<le> length xs. poly_c e ! k = locator (gf_mul bch) xs k)"
    by (rule error_locator_polynomial_correct [OF x(1) _ x(3,4)]) (use x(2,5) in simp_all)
  then show ?thesis using i x(5) by auto
qed

end
