(* ===== verification/Spec2Isabelle.thy ===== *)
theory Spec2Isabelle
  imports Bch_Init Gpio2_Conc Pwm Kfifo Semaphore Rwsem Resource_Alloc Acpower Smsc43340 Bch_Multi
begin

text \<open>
  Verification of the kernel code of the AR.Drone 2 (Linux 2.6.32 with the changes of
  Parrot, under src/sources/linux-2.6.32/linux-2.6.32/): the drivers that Parrot
  added and the kernel code that they and the flash memory of the drone stand on.

  \<^bold>\<open>The program and how its parts interact.\<close>
  The NAND flash is protected by the BCH code of lib/bch.c: \<open>init_bch\<close> builds the
  tables, \<open>encode_bch\<close> computes parity bytes and \<open>decode_bch\<close> locates errors.
  The drone's own drivers are clients of kernel services: the GPIO character device
  (drivers/parrot/char/gpio2.c) and the USB transceiver
  (drivers/parrot/usb/otg/dummy-smsc-usb43340.c) request pins from gpiolib
  (drivers/gpio/gpiolib.c); the PWM device (drivers/parrot/char/pwm/pwm.c) calls the
  controller omap_pwm.c through a table of operations, and that reserves
  hardware timers from arch/arm/plat-omap/dmtimer.c; the AC power driver
  (drivers/parrot/power/acpower.c) registers three supplies with the power supply class
  (drivers/power).  Below them are data structures and locks used by all drivers:
  kernel/kfifo.c, kernel/semaphore.c, lib/rwsem-spinlock.c and the trees of
  address ranges of kernel/resource.c.

  \<^bold>\<open>How the code is modelled.\<close>
  A structure is a record with the names of the source, a fallible call returns the
  negative error number next to the new state (\<open>int \<times> 's\<close>), and the option type
  marks faults of the machine: None is a null or dangling pointer, an access outside of an
  array, a division by zero, or a call that does not return.  Unsigned arithmetic that can wrap is done on
  32-bit words or with \<open>mod 2 ^ 32\<close> written out; counters that cannot reach
  their width in the statements made about them are natural numbers, which the texts of the
  theories say.  Code outside of the model (allocation, the callbacks of chips, the driver
  core, the moment at which a task runs) is an argument of the definitions: an environment
  record, or the steps of an interleaving.  Loops are structural recursion or functions with a
  termination proof; the two loops of kernel/resource.c that may not end
  (\<open>expand_loop\<close>, \<open>reserve_split\<close>) are partial functions into option, and that
  they return, or that they do not, is a theorem.  There is no fuel anywhere.

  \<^bold>\<open>Theories.\<close>

  \<^item> Prelude: shared types (\<open>u8\<close>, \<open>u32\<close>), error numbers, and lemmas on
    exclusive or, words and lists.  Exclusive: the locale \<open>exclusive_resource\<close> of a
    provider that hands out resources to one owner at a time; it is interpreted as
    \<open>pins\<close> for gpiolib, \<open>timers\<close> for the dual-mode timers and
    \<open>regions\<close> for address ranges.

  \<^item> Bch_Field (lib/bch.c: \<open>gf_mul\<close> to \<open>a_ilog\<close>, \<open>build_gf_tables\<close>): the
    log tables implement GF(2^m), stated through the locale \<open>binary_field\<close> and its
    interpretation \<open>gf\<close>, and building them succeeds for primitive
    polynomials.  Bch_Encode (\<open>encode_bch\<close>, \<open>build_mod8_tables\<close>): the table driven
    encoder equals a bit-serial shift register for all alignments.  Bch_Poly
    (\<open>gf_poly_mod\<close> to \<open>find_poly_roots\<close>, \<open>chien_search\<close>, \<open>solve_linear_system\<close>) and
    Bch_Decode (\<open>compute_syndromes\<close>, \<open>compute_error_locator_polynomial\<close>,
    \<open>decode_bch\<close>): the rest of the decoder.  Bch_Codeword: encoded words are
    codewords, and what a flipped bit does to the syndromes.  Bch_Init (\<open>build_deg2_base\<close>,
    \<open>compute_generator_polynomial\<close>, \<open>init_bch\<close>): what initialisation establishes.

  \<^item> The theories that show that the decoder corrects every pattern of at most \<open>t\<close> errors.
    Bch_Series, Bch_Locator: power series over a binary field, the key equation and the
    binary Berlekamp-Massey algorithm, by which \<open>compute_error_locator_polynomial\<close>
    returns the locator of the pattern.  Bch_Division, Bch_Trace: division, common divisors
    and the Berlekamp trace algorithm of \<open>factor_polynomial\<close> separate the roots of a
    polynomial.  Bch_Linear, Bch_Transpose: \<open>solve_linear_system\<close> returns all
    solutions of a system over GF(2), and the block swaps of \<open>find_affine4_roots\<close>
    transpose a bit matrix.  Bch_Quadratic, Bch_Affine, Bch_Quartic: the solvers for degrees 1
    to 4.  Bch_Roots: \<open>find_poly_roots\<close> returns all roots.  Bch_Multi: the table of
    \<open>build_deg2_base\<close>, the locations of \<open>decode_bch\<close>, and the end-to-end theorem.

  \<^item> Gpiolib: the descriptor table, chips and their ranges, ownership of pins, direction
    and value calls, with an invariant over all call sequences.  Gpio2: every operation of the
    character device and its interrupt handler over gpiolib, run one after the other.
    Gpio2_Conc: the same device with the ioctls split at the points where an interrupt or
    another thread can come in between; the driver has no lock, so its theorems are about
    the runs in which the interrupt ioctls of one file do not overlap, and the handler
    of a file does not outlive it, except for pin 0.  What happens otherwise (a leaked
    handler, a completion that is lost or used before it is initialised) are lemmas of the
    same theory.  Dmtimer: reservation and programming of the timers.  Omap_Pwm
    and Pwm: frequency and width arithmetic at 32 bits, and the device over the locale
    \<open>pwm_backend\<close>, interpreted as \<open>omap\<close> on the controller; reading a width
    before a frequency is set divides by zero, which is a fault of the model.  Smsc43340: the
    transceiver driver, its suspend and resume protocol with the USB controller in
    interleaved steps, correct when suspend and resume are not interrupted by each other,
    with a run that shows that the condition is needed; and the pointers that outlive the
    driver's structure.

  \<^item> Kfifo: refinement of a bounded queue (locale \<open>bounded_fifo\<close>, interpretation
    \<open>kf\<close>) and the interleavings of one unlocked writer and one unlocked reader.
    Semaphore and Rwsem: all entry points as steps of interleaved tasks; conservation of
    permits modulo the 32 bits of the count, mutual exclusion, first-in-first-out service
    and bounded waiting.

  \<^item> Resource, Resource_Region, Resource_Alloc (kernel/resource.c): trees of ranges stay
    nested and disjoint under all operations, \<open>adjust_resource\<close> to an empty range
    excepted; exact conditions for granting a region, which excludes others until it is
    released; allocated ranges keep their bounds and allocation fails only if there is no
    room; which loops return.  Power_Supply and Acpower (drivers/power,
    drivers/parrot/power/acpower.c): registration with its unwinding, attributes, events and
    the driver's probe and remove.

  \<^bold>\<open>Not modelled.\<close>
  Register accesses of the SoC and the sensor scripts have no logic that the sources
  specify.  The scheduler, memory management, driver core, file systems and network stack are
  upstream code of which the models only take results.  Of gpiolib the sysfs and debugfs
  files, of dmtimer.c the platform probe and the busy waits for posted writes, of resource.c
  the listing in /proc, the walk over system RAM and the device-managed wrappers are left
  out.  The user space archives are third-party packages.
\<close>

end
